(* ===== verification/Prelude.thy ===== *)
theory Prelude
  imports Complex_Main "HOL-Library.Word"
begin

text \<open>
  Shared vocabulary of the development: the result type of code that can reach undefined
  behaviour, C strings and bounded reads of memory, decimal and hexadecimal digits, and the
  generic lemmas on lists and maps the component theories share.
\<close>

unbundle bit_operations_syntax

named_theorems run_simps
named_theorems safe_intros
named_theorems store_simps

section \<open>Results of C code\<close>

text \<open>
  \<open>Ret x\<close> is a normal return. \<open>Undef\<close> is undefined behaviour: an access outside an object, a
  dereferenced null pointer, an overflowing conversion. \<open>Abort\<close> is a call of abort or a failed
  assertion. \<open>NoFuel\<close> is a loop that used up the bound the model gives it; each theory that
  uses a bound proves that it is enough.
\<close>

datatype 'a run = Ret 'a | Undef | Abort | NoFuel

fun bnd :: "'a run \<Rightarrow> ('a \<Rightarrow> 'b run) \<Rightarrow> 'b run" where
  "bnd (Ret x) f = f x"
| "bnd Undef f = Undef"
| "bnd Abort f = Abort"
| "bnd NoFuel f = NoFuel"

definition is_ret :: "'a run \<Rightarrow> bool" where
  "is_ret r \<longleftrightarrow> (\<exists>x. r = Ret x)"

lemma is_ret_simps [simp]:
  "is_ret (Ret x)" "\<not> is_ret Undef" "\<not> is_ret Abort" "\<not> is_ret NoFuel"
  by (auto simp: is_ret_def)

lemma is_ret_code [code]: "is_ret r = (case r of Ret _ \<Rightarrow> True | _ \<Rightarrow> False)"
  by (cases r) simp_all

lemma bnd_eq_Ret [run_simps]: "bnd m f = Ret y \<longleftrightarrow> (\<exists>x. m = Ret x \<and> f x = Ret y)"
  by (cases m) auto

lemma bnd_assoc: "bnd (bnd m f) g = bnd m (\<lambda>x. bnd (f x) g)"
  by (cases m) auto

lemma bnd_Ret_right [simp]: "bnd m Ret = m"
  by (cases m) auto

lemma is_ret_bnd: "is_ret m \<Longrightarrow> (\<And>x. m = Ret x \<Longrightarrow> is_ret (f x)) \<Longrightarrow> is_ret (bnd m f)"
  by (cases m) auto

section \<open>Memory reads and C strings\<close>

abbreviation NUL :: char where
  "NUL \<equiv> CHR 0x00"

text \<open>A read of byte \<open>i\<close> of an object is undefined outside it.\<close>

definition rd :: "'a list \<Rightarrow> nat \<Rightarrow> 'a run" where
  "rd xs i = (if i < length xs then Ret (xs ! i) else Undef)"

lemma rd_Ret [run_simps]: "rd xs i = Ret y \<longleftrightarrow> i < length xs \<and> y = xs ! i"
  by (auto simp: rd_def)

lemma rd_in [simp]: "i < length xs \<Longrightarrow> rd xs i = Ret (xs ! i)"
  by (simp add: rd_def)

lemma rd_out [simp]: "length xs \<le> i \<Longrightarrow> rd xs i = Undef"
  by (simp add: rd_def)

text \<open>A string value of the program is a byte list with no null byte in it.\<close>

definition cstring :: "string \<Rightarrow> bool" where
  "cstring s \<longleftrightarrow> NUL \<notin> set s"

lemma cstring_simps [simp]:
  "cstring []" "cstring (c # s) \<longleftrightarrow> c \<noteq> NUL \<and> cstring s"
  "cstring (s @ t) \<longleftrightarrow> cstring s \<and> cstring t"
  by (auto simp: cstring_def)

text \<open>The string a pointer into an object denotes: the bytes up to the first null byte;
  undefined when the object ends before one.\<close>

fun cstr_from :: "char list \<Rightarrow> string run" where
  "cstr_from [] = Undef"
| "cstr_from (c # cs) = (if c = NUL then Ret [] else bnd (cstr_from cs) (\<lambda>s. Ret (c # s)))"

lemma cstr_from_app [simp]: "cstring s \<Longrightarrow> cstr_from (s @ NUL # t) = Ret s"
  by (induction s) auto

lemma cstr_from_Ret: "cstr_from m = Ret s \<Longrightarrow> \<exists>t. m = s @ NUL # t \<and> cstring s"
proof (induction m arbitrary: s)
  case Nil
  then show ?case by simp
next
  case (Cons c m)
  show ?case
  proof (cases "c = NUL")
    case True
    with Cons.prems show ?thesis by auto
  next
    case False
    with Cons.prems obtain s' where s': "cstr_from m = Ret s'" and s: "s = c # s'"
      by (auto simp: bnd_eq_Ret)
    from Cons.IH [OF s'] s False show ?thesis by auto
  qed
qed

section \<open>Numbers in memory\<close>

text \<open>A little-endian number.\<close>

fun le :: "char list \<Rightarrow> nat" where
  "le [] = 0"
| "le (c # cs) = of_char c + 256 * le cs"

text \<open>A signed 32-bit field.\<close>

definition signed32 :: "nat \<Rightarrow> int" where
  "signed32 n = (if n < 2 ^ 31 then int n else int n - 2 ^ 32)"

section \<open>Digits\<close>

definition digit_char :: "nat \<Rightarrow> char" where
  "digit_char k = ''0123456789'' ! k"

definition hex_char :: "nat \<Rightarrow> char" where
  "hex_char k = ''0123456789abcdef'' ! k"

definition is_digit :: "char \<Rightarrow> bool" where
  "is_digit c \<longleftrightarrow> 48 \<le> (of_char c :: nat) \<and> (of_char c :: nat) \<le> 57"

definition digit_val :: "char \<Rightarrow> nat" where
  "digit_val c = of_char c - 48"

lemma digit_cases: "k < 10 \<Longrightarrow> k \<in> {0, 1, 2, 3, 4, 5, 6, 7, 8, 9 :: nat}"
  by auto

lemma hex_cases: "k < 16 \<Longrightarrow> k \<in> {0, 1, 2, 3, 4, 5, 6, 7, 8, 9, 10, 11, 12, 13, 14, 15 :: nat}"
  by (simp, presburger)

lemma digit_char_props [simp]:
  "k < 10 \<Longrightarrow> is_digit (digit_char k)"
  "k < 10 \<Longrightarrow> digit_val (digit_char k) = k"
  by (drule digit_cases, auto simp: digit_char_def is_digit_def digit_val_def)+

lemma is_digit_neq [simp]:
  "is_digit c \<Longrightarrow> c \<noteq> CHR ''-''" "is_digit c \<Longrightarrow> c \<noteq> CHR ''+''"
  "is_digit c \<Longrightarrow> c \<noteq> CHR ''.''" "is_digit c \<Longrightarrow> c \<noteq> NUL"
  by (auto simp: is_digit_def)

text \<open>Decimal digits of a natural number, as printf writes them.\<close>

fun dec_digits :: "nat \<Rightarrow> string" where
  "dec_digits n = (if n < 10 then [digit_char n] else dec_digits (n div 10) @ [digit_char (n mod 10)])"

declare dec_digits.simps [simp del]

definition dec_val :: "string \<Rightarrow> nat" where
  "dec_val s = foldl (\<lambda>a c. 10 * a + digit_val c) 0 s"

lemma dec_val_snoc: "dec_val (s @ [c]) = 10 * dec_val s + digit_val c"
  by (simp add: dec_val_def)

lemma dec_digits_props:
  "dec_digits n \<noteq> [] \<and> (\<forall>c \<in> set (dec_digits n). is_digit c) \<and> dec_val (dec_digits n) = n"
proof (induction n rule: dec_digits.induct)
  case (1 n)
  show ?case
  proof (cases "n < 10")
    case True
    then show ?thesis by (simp add: dec_digits.simps [of n] dec_val_def)
  next
    case False
    with 1 show ?thesis
      by (simp add: dec_digits.simps [of n] dec_val_snoc)
  qed
qed

lemmas dec_digits_nonempty [simp] = dec_digits_props [THEN conjunct1]
lemmas dec_digits_all = dec_digits_props [THEN conjunct2, THEN conjunct1]
lemmas dec_val_digits [simp] = dec_digits_props [THEN conjunct2, THEN conjunct2]

text \<open>The text printf writes for the conversion \<open>d\<close>.\<close>

definition print_int :: "int \<Rightarrow> string" where
  "print_int i = (if i < 0 then CHR ''-'' # dec_digits (nat (- i)) else dec_digits (nat i))"

section \<open>Lists\<close>

lemma take_nth_drop: "i < length xs \<Longrightarrow> take i xs @ xs ! i # drop (Suc i) xs = xs"
  by (simp add: id_take_nth_drop [symmetric])

lemma takeWhile_all_append: "\<forall>x \<in> set xs. P x \<Longrightarrow> ys = [] \<or> \<not> P (hd ys) \<Longrightarrow>
    takeWhile P (xs @ ys) = xs"
  by (cases ys) (auto simp: takeWhile_append)

lemma dropWhile_all_append: "\<forall>x \<in> set xs. P x \<Longrightarrow> ys = [] \<or> \<not> P (hd ys) \<Longrightarrow>
    dropWhile P (xs @ ys) = ys"
  by (cases ys) (auto simp: dropWhile_append)

end
