(* ===== verification/C_Double.thy ===== *)
theory C_Double
  imports Prelude
begin

text \<open>
  The C type double and the few operations the JSON library uses on it: the conversions of
  strtod and of sscanf with lg, the conversions d and g of sprintf, comparison, and
  the saturating conversion to int. A finite double is a sign and an exact rational
  magnitude; \<open>round_double\<close> rounds a rational to the nearest IEEE 754 binary64 value,
  ties to even, which is what the C library computes.
\<close>

section \<open>Values and rounding\<close>

datatype dbl = DNaN | DInf bool | DNum bool rat

definition pow2 :: "int \<Rightarrow> rat" where
  "pow2 e = (if 0 \<le> e then 2 ^ nat e else 1 / 2 ^ nat (- e))"

definition pow10 :: "int \<Rightarrow> rat" where
  "pow10 e = (if 0 \<le> e then 10 ^ nat e else 1 / 10 ^ nat (- e))"

text \<open>\<open>ilog b n\<close> is the greatest \<open>k\<close> with \<open>b ^ k \<le> n\<close>, for positive \<open>n\<close>.\<close>

fun ilog :: "nat \<Rightarrow> nat \<Rightarrow> nat" where
  "ilog b n = (if b < 2 \<or> n < b then 0 else Suc (ilog b (n div b)))"

declare ilog.simps [simp del]

text \<open>The exponent of a positive rational in base \<open>b\<close>: the \<open>k\<close> with
  \<open>b ^ k \<le> q < b ^ (k + 1)\<close>.\<close>

definition rat_log :: "nat \<Rightarrow> rat \<Rightarrow> int" where
  "rat_log b q =
     (if 1 \<le> q then int (ilog b (nat \<lfloor>q\<rfloor>))
      else let m = nat \<lceil>1 / q\<rceil> in - int (if m \<le> 1 then 0 else Suc (ilog b (m - 1))))"

text \<open>Round to an integer, ties to even.\<close>

definition rnd_even :: "rat \<Rightarrow> int" where
  "rnd_even x =
     (let f = \<lfloor>x\<rfloor>; r = x - of_int f in
      if r < 1 / 2 then f else if 1 / 2 < r then f + 1 else if even f then f else f + 1)"

definition round_double :: "bool \<Rightarrow> rat \<Rightarrow> dbl" where
  "round_double neg q =
     (if q = 0 then DNum neg 0
      else let e = max (- 1074) (rat_log 2 q - 52);
               m = of_int (rnd_even (q / pow2 e)) * pow2 e
           in if 2 ^ 1024 \<le> m then DInf neg else DNum neg m)"

fun dval :: "bool \<Rightarrow> rat \<Rightarrow> rat" where
  "dval neg q = (if neg then - q else q)"

definition round_signed :: "rat \<Rightarrow> dbl" where
  "round_signed x = round_double (x < 0) \<bar>x\<bar>"

definition dbl_of_int :: "int \<Rightarrow> dbl" where
  "dbl_of_int i = DNum (i < 0) (of_int \<bar>i\<bar>)"

section \<open>Arithmetic and comparison\<close>

fun dabs :: "dbl \<Rightarrow> dbl" where
  "dabs DNaN = DNaN"
| "dabs (DInf s) = DInf False"
| "dabs (DNum s q) = DNum False q"

fun dsub :: "dbl \<Rightarrow> dbl \<Rightarrow> dbl" where
  "dsub (DNum s q) (DNum t r) = round_signed (dval s q - dval t r)"
| "dsub (DInf s) (DInf t) = (if s = t then DNaN else DInf s)"
| "dsub (DInf s) (DNum t r) = DInf s"
| "dsub (DNum s q) (DInf t) = DInf (\<not> t)"
| "dsub DNaN y = DNaN"
| "dsub x DNaN = DNaN"

text \<open>Multiplication by a positive finite constant.\<close>

fun dscale :: "dbl \<Rightarrow> rat \<Rightarrow> dbl" where
  "dscale (DNum s q) c = round_double s (q * c)"
| "dscale (DInf s) c = DInf s"
| "dscale DNaN c = DNaN"

text \<open>The operators less-or-equal, less and equal of C: false as soon as an operand is NaN.\<close>

fun dle :: "dbl \<Rightarrow> dbl \<Rightarrow> bool" where
  "dle (DNum s q) (DNum t r) \<longleftrightarrow> dval s q \<le> dval t r"
| "dle (DInf s) (DInf t) \<longleftrightarrow> s \<or> \<not> t"
| "dle (DInf s) (DNum t r) \<longleftrightarrow> s"
| "dle (DNum s q) (DInf t) \<longleftrightarrow> \<not> t"
| "dle DNaN y \<longleftrightarrow> False"
| "dle x DNaN \<longleftrightarrow> False"

definition dlt :: "dbl \<Rightarrow> dbl \<Rightarrow> bool" where
  "dlt x y \<longleftrightarrow> dle x y \<and> \<not> dle y x"

definition deq :: "dbl \<Rightarrow> dbl \<Rightarrow> bool" where
  "deq x y \<longleftrightarrow> dle x y \<and> dle y x"

fun is_nan :: "dbl \<Rightarrow> bool" where
  "is_nan DNaN \<longleftrightarrow> True" | "is_nan x \<longleftrightarrow> False"

fun is_inf :: "dbl \<Rightarrow> bool" where
  "is_inf (DInf s) \<longleftrightarrow> True" | "is_inf x \<longleftrightarrow> False"

text \<open>The conversion of a double to int truncates; it is undefined for a NaN, an infinity, or
  a value whose truncation does not fit.\<close>

definition INT_MAX :: int where "INT_MAX = 2147483647"

definition INT_MIN :: int where "INT_MIN = - 2147483648"

fun dbl_to_int :: "dbl \<Rightarrow> int run" where
  "dbl_to_int (DNum s q) =
     (let i = (if s then - \<lfloor>q\<rfloor> else \<lfloor>q\<rfloor>) in
      if INT_MIN \<le> i \<and> i \<le> INT_MAX then Ret i else Undef)"
| "dbl_to_int x = Undef"

section \<open>Reading numbers: strtod\<close>

text \<open>
  The number buffer handed to strtod holds only digits, signs, dots and the letters e and E,
  so the hexadecimal, infinity and NaN forms of strtod cannot occur. The result is the value
  and the number of characters consumed, 0 when there is no number.
\<close>

definition span_digits :: "string \<Rightarrow> string \<times> string" where
  "span_digits s = (takeWhile is_digit s, dropWhile is_digit s)"

definition take_sign :: "string \<Rightarrow> bool \<times> string" where
  "take_sign s = (case s of [] \<Rightarrow> (False, [])
     | c # t \<Rightarrow> if c = CHR ''-'' then (True, t) else if c = CHR ''+'' then (False, t) else (False, s))"

text \<open>The optional exponent part: it counts only if at least one digit follows.\<close>

definition take_exponent :: "string \<Rightarrow> int \<times> string" where
  "take_exponent s = (case s of [] \<Rightarrow> (0, [])
     | c # t \<Rightarrow>
       if c = CHR ''e'' \<or> c = CHR ''E'' then
         (let (neg, t1) = take_sign t; (ds, t2) = span_digits t1 in
          if ds = [] then (0, s)
          else ((if neg then - int (dec_val ds) else int (dec_val ds)), t2))
       else (0, s))"

definition strtod :: "string \<Rightarrow> dbl \<times> nat" where
  "strtod s =
     (let (neg, s1) = take_sign s;
          (ip, s2) = span_digits s1;
          (fp, s3) = (case s2 of [] \<Rightarrow> ([], [])
                      | c # t \<Rightarrow> if c = CHR ''.'' then span_digits t else ([], s2))
      in if ip = [] \<and> fp = [] then (DNum False 0, 0)
         else let (ex, s4) = take_exponent s3;
                  q = of_nat (dec_val (ip @ fp)) * pow10 (ex - int (length fp))
              in (round_double neg q, length s - length s4))"

section \<open>Printing numbers: the conversion g\<close>

text \<open>The \<open>P\<close> significant decimal digits of a positive rational, correctly rounded, and its
  decimal exponent.\<close>

definition sig_digits :: "nat \<Rightarrow> rat \<Rightarrow> nat \<times> int" where
  "sig_digits P q =
     (let x = rat_log 10 q; m = nat (rnd_even (q / pow10 (x - int P + 1))) in
      if 10 ^ P \<le> m then (10 ^ (P - 1), x + 1) else (m, x))"

definition strip_zeros :: "string \<Rightarrow> string" where
  "strip_zeros s = rev (dropWhile (\<lambda>c. c = CHR ''0'') (rev s))"

definition with_fraction :: "string \<Rightarrow> string \<Rightarrow> string" where
  "with_fraction ip fp = (let f = strip_zeros fp in if f = [] then ip else ip @ CHR ''.'' # f)"

definition exp_text :: "int \<Rightarrow> string" where
  "exp_text x = CHR ''e'' # (if x < 0 then CHR ''-'' else CHR ''+'') #
     (let d = dec_digits (nat \<bar>x\<bar>) in if length d < 2 then CHR ''0'' # d else d)"

definition print_g :: "nat \<Rightarrow> dbl \<Rightarrow> string" where
  "print_g P d = (case d of
     DNaN \<Rightarrow> ''nan''
   | DInf s \<Rightarrow> if s then ''-inf'' else ''inf''
   | DNum s q \<Rightarrow> (if s then ''-'' else []) @
      (if q = 0 then ''0''
       else let (m, x) = sig_digits P q; ds = dec_digits m in
         if x < - 4 \<or> int P \<le> x then with_fraction (take 1 ds) (drop 1 ds) @ exp_text x
         else if x < 0 then with_fraction ''0'' (replicate (nat (- x) - 1) CHR ''0'' @ ds)
         else with_fraction (take (nat x + 1) ds) (drop (nat x + 1) ds)))"

section \<open>Integers are exact\<close>

lemma ilog_bounds:
  assumes "2 \<le> b" and "1 \<le> n"
  shows "b ^ ilog b n \<le> n \<and> n < b ^ Suc (ilog b n)"
  using assms
proof (induction b n rule: ilog.induct)
  case (1 b n)
  show ?case
  proof (cases "n < b")
    case True
    with 1 show ?thesis by (simp add: ilog.simps [of b n])
  next
    case False
    let ?k = "ilog b (n div b)"
    from False 1(2) have "1 \<le> n div b" by (simp add: div_greater_zero_iff Suc_le_eq)
    with 1 False have lo: "b ^ ?k \<le> n div b" and hi: "n div b < b ^ Suc ?k" by auto
    from lo have "b ^ ?k * b \<le> n" using less_eq_div_iff_mult_less_eq 1(2) by auto
    moreover from hi have "n < b ^ Suc ?k * b"
      using 1(2) by (metis div_less_iff_less_mult less_le_trans pos2)
    ultimately show ?thesis using False 1(2)
      by (simp add: ilog.simps [of b n] mult.commute)
  qed
qed

lemma rnd_even_int [simp]: "rnd_even (of_int z) = z"
  by (simp add: rnd_even_def)

lemma rat_log_nat: "1 \<le> n \<Longrightarrow> rat_log b (of_nat n) = int (ilog b n)"
  by (simp add: rat_log_def)

lemma round_double_nat:
  assumes "n < 2 ^ 53"
  shows "round_double s (of_nat n) = DNum s (of_nat n)"
proof (cases "n = 0")
  case True
  then show ?thesis by (simp add: round_double_def)
next
  case False
  define k where "k = ilog 2 n"
  from False have k: "2 ^ k \<le> n" using ilog_bounds [of 2 n] by (simp add: k_def)
  have k52: "k \<le> 52"
  proof (rule ccontr)
    assume "\<not> k \<le> 52"
    then have "(2::nat) ^ 53 \<le> 2 ^ k" by (intro power_increasing) auto
    with k assms show False by linarith
  qed
  define e where "e = max (- 1074) (rat_log 2 (of_nat n) - 52)"
  from False k52 have e: "e = int k - 52" by (simp add: e_def rat_log_nat k_def)
  have p: "pow2 e = 1 / 2 ^ (52 - k)"
  proof (cases "k = 52")
    case True
    with e show ?thesis by (simp add: pow2_def)
  next
    case False
    with k52 have "nat (- e) = 52 - k" "\<not> 0 \<le> e" by (auto simp: e)
    then show ?thesis by (simp add: pow2_def)
  qed
  have q: "of_nat n / pow2 e = of_int (int n * 2 ^ (52 - k))" by (simp add: p)
  have m: "of_int (rnd_even (of_nat n / pow2 e)) * pow2 e = of_nat n"
    unfolding q rnd_even_int by (simp add: p)
  have "n < 2 ^ 1024" using assms by (rule less_trans) simp
  then have "of_nat n < (2::rat) ^ 1024"
    by (metis of_nat_less_iff of_nat_numeral of_nat_power)
  with m False show ?thesis
    by (simp add: round_double_def e_def [symmetric] Let_def)
qed

section \<open>An integer written with the conversion d is read back exactly\<close>

lemma span_digits_app:
  "\<forall>c \<in> set ds. is_digit c \<Longrightarrow> r = [] \<or> \<not> is_digit (hd r) \<Longrightarrow> span_digits (ds @ r) = (ds, r)"
  by (cases r) (auto simp: span_digits_def)

lemma take_sign_digits:
  "ds \<noteq> [] \<Longrightarrow> \<forall>c \<in> set ds. is_digit c \<Longrightarrow> take_sign (ds @ r) = (False, ds @ r)"
  by (cases ds) (auto simp: take_sign_def)

definition num_char :: "char \<Rightarrow> bool" where
  "num_char c \<longleftrightarrow> is_digit c \<or> c \<in> {CHR ''+'', CHR ''-'', CHR ''e'', CHR ''E'', CHR ''.''}"

lemma print_int_digits: "c \<in> set (print_int i) \<Longrightarrow> is_digit c \<or> c = CHR ''-''"
  using dec_digits_all by (auto simp: print_int_def split: if_splits)

lemma strtod_print_int:
  assumes "\<bar>i\<bar> < 2 ^ 53"
  shows "strtod (print_int i) = (DNum (i < 0) (of_int \<bar>i\<bar>), length (print_int i))"
proof -
  let ?ds = "dec_digits (nat \<bar>i\<bar>)"
  have ds: "\<forall>c \<in> set ?ds. is_digit c" "?ds \<noteq> []" by (simp_all add: dec_digits_all)
  have shape: "print_int i = (if i < 0 then ''-'' else []) @ ?ds" by (auto simp: print_int_def)
  have sign: "take_sign (print_int i) = (i < 0, ?ds)"
    using take_sign_digits [of ?ds "[]"] ds
    by (cases "i < 0") (simp_all add: shape take_sign_def [of "CHR ''-'' # _"])
  have span: "span_digits ?ds = (?ds, [])" using span_digits_app [of ?ds "[]"] ds by simp
  have "nat \<bar>i\<bar> < 2 ^ 53" using assms by (simp add: nat_less_iff)
  then have "round_double (i < 0) (of_nat (nat \<bar>i\<bar>)) = DNum (i < 0) (of_nat (nat \<bar>i\<bar>))"
    by (rule round_double_nat)
  moreover have "(of_nat (nat \<bar>i\<bar>) :: rat) = of_int \<bar>i\<bar>" by simp
  ultimately show ?thesis using ds(2)
    by (simp add: strtod_def sign span take_exponent_def pow10_def del: of_nat_nat)
qed

end
