(* ===== verification/CJson_Node.thy ===== *)
theory CJson_Node
  imports C_Double
begin

text \<open>
  The data of the JSON library (deps/cjson/cJSON.h and cJSON.c): the type flags, an item, the
  allocation hooks, deletion, and the functions that inspect or fill a single item. An item is a tree here:
  the chain of children that the C structure threads through next, prev and child is the list
  \<open>child\<close>, and a null pointer is the empty list or \<open>None\<close>. The theory CJson_Store models the
  pointer chains themselves and shows that they carry such lists.
\<close>

section \<open>Type flags\<close>

type_synonym flags = "32 word"

definition cJSON_Invalid :: flags where "cJSON_Invalid = 0"
definition cJSON_False :: flags where "cJSON_False = 1"
definition cJSON_True :: flags where "cJSON_True = 2"
definition cJSON_NULL :: flags where "cJSON_NULL = 4"
definition cJSON_Number :: flags where "cJSON_Number = 8"
definition cJSON_String :: flags where "cJSON_String = 16"
definition cJSON_Array :: flags where "cJSON_Array = 32"
definition cJSON_Object :: flags where "cJSON_Object = 64"
definition cJSON_Raw :: flags where "cJSON_Raw = 128"
definition cJSON_IsReference :: flags where "cJSON_IsReference = 256"
definition cJSON_StringIsConst :: flags where "cJSON_StringIsConst = 512"

lemmas type_defs = cJSON_Invalid_def cJSON_False_def cJSON_True_def cJSON_NULL_def
  cJSON_Number_def cJSON_String_def cJSON_Array_def cJSON_Object_def cJSON_Raw_def
  cJSON_IsReference_def cJSON_StringIsConst_def

text \<open>The low byte of the flags is the kind of the item.\<close>

definition kind :: "flags \<Rightarrow> flags" where
  "kind t = t AND 0xFF"

definition is_reference :: "flags \<Rightarrow> bool" where
  "is_reference t \<longleftrightarrow> t AND cJSON_IsReference \<noteq> 0"

definition string_is_const :: "flags \<Rightarrow> bool" where
  "string_is_const t \<longleftrightarrow> t AND cJSON_StringIsConst \<noteq> 0"

lemma kind_simps [simp]:
  "kind cJSON_Invalid = cJSON_Invalid" "kind cJSON_False = cJSON_False"
  "kind cJSON_True = cJSON_True" "kind cJSON_NULL = cJSON_NULL"
  "kind cJSON_Number = cJSON_Number" "kind cJSON_String = cJSON_String"
  "kind cJSON_Array = cJSON_Array" "kind cJSON_Object = cJSON_Object"
  "kind cJSON_Raw = cJSON_Raw"
  by (simp_all add: kind_def type_defs)

lemma plain_flags [simp]:
  "\<not> is_reference cJSON_Invalid" "\<not> is_reference cJSON_False" "\<not> is_reference cJSON_True"
  "\<not> is_reference cJSON_NULL" "\<not> is_reference cJSON_Number" "\<not> is_reference cJSON_String"
  "\<not> is_reference cJSON_Array" "\<not> is_reference cJSON_Object" "\<not> is_reference cJSON_Raw"
  "\<not> string_is_const cJSON_Invalid" "\<not> string_is_const cJSON_False"
  "\<not> string_is_const cJSON_True" "\<not> string_is_const cJSON_NULL"
  "\<not> string_is_const cJSON_Number" "\<not> string_is_const cJSON_String"
  "\<not> string_is_const cJSON_Array" "\<not> string_is_const cJSON_Object"
  "\<not> string_is_const cJSON_Raw"
  by (simp_all add: is_reference_def string_is_const_def type_defs)

section \<open>Items\<close>

datatype cjson = Item (ty: flags) (valuestring: "string option") (valueint: int)
  (valuedouble: dbl) (name: "string option") (child: "cjson list")

text \<open>A node as memset leaves it.\<close>

definition zero_item :: cjson where
  "zero_item = Item 0 None 0 (DNum False 0) None []"

primrec set_ty :: "flags \<Rightarrow> cjson \<Rightarrow> cjson" where
  "set_ty t (Item _ vs vi vd nm ch) = Item t vs vi vd nm ch"

primrec set_valuestring :: "string option \<Rightarrow> cjson \<Rightarrow> cjson" where
  "set_valuestring s (Item t _ vi vd nm ch) = Item t s vi vd nm ch"

primrec set_number :: "int \<Rightarrow> dbl \<Rightarrow> cjson \<Rightarrow> cjson" where
  "set_number i d (Item t vs _ _ nm ch) = Item t vs i d nm ch"

primrec set_name :: "string option \<Rightarrow> cjson \<Rightarrow> cjson" where
  "set_name s (Item t vs vi vd _ ch) = Item t vs vi vd s ch"

primrec set_child :: "cjson list \<Rightarrow> cjson \<Rightarrow> cjson" where
  "set_child c (Item t vs vi vd nm _) = Item t vs vi vd nm c"

section \<open>Allocation\<close>

text \<open>
  The hooks allocate and deallocate. \<open>fails k\<close> says whether the \<open>k\<close>-th request is refused;
  \<open>live\<close> counts the blocks allocated and not yet freed.
\<close>

record amem =
  fails :: "nat \<Rightarrow> bool"
  calls :: nat
  live :: int

definition alloc :: "amem \<Rightarrow> bool \<times> amem" where
  "alloc m = (if fails m (calls m) then (False, m\<lparr>calls := Suc (calls m)\<rparr>)
              else (True, m\<lparr>calls := Suc (calls m), live := live m + 1\<rparr>))"

definition dealloc :: "amem \<Rightarrow> amem" where
  "dealloc m = m\<lparr>live := live m - 1\<rparr>"

lemma alloc_cases: "alloc m = (ok, m') \<Longrightarrow>
    live m' = live m + (if ok then 1 else 0) \<and> fails m' = fails m"
  by (auto simp: alloc_def split: if_splits)

lemma dealloc_simps [simp]: "live (dealloc m) = live m - 1" "fails (dealloc m) = fails m"
  "calls (dealloc m) = calls m"
  by (simp_all add: dealloc_def)

text \<open>Deletion walks the chain of siblings; a reference keeps its value and children, a
  constant key keeps its text.\<close>

fun cJSON_Delete :: "cjson list \<Rightarrow> amem \<Rightarrow> amem" where
  "cJSON_Delete [] m = m"
| "cJSON_Delete (Item t vs vi vd nm ch # next_items) m =
     (let m1 = (if \<not> is_reference t \<and> ch \<noteq> [] then cJSON_Delete ch m else m);
          m2 = (if \<not> is_reference t \<and> vs \<noteq> None then dealloc m1 else m1);
          m3 = (if \<not> string_is_const t \<and> nm \<noteq> None then dealloc m2 else m2)
      in cJSON_Delete next_items (dealloc m3))"

text \<open>The number of blocks an item and its siblings own.\<close>

fun blocks :: "cjson \<Rightarrow> int" where
  "blocks (Item t vs vi vd nm ch) =
     1 + (if is_reference t then 0
          else (if vs = None then 0 else 1) + sum_list (map blocks ch))
       + (if string_is_const t \<or> nm = None then 0 else 1)"

lemma set_simps [simp]:
  "ty (set_ty t it) = t" "valuestring (set_ty t it) = valuestring it" "name (set_ty t it) = name it"
  "child (set_ty t it) = child it" "valueint (set_ty t it) = valueint it"
  "valuedouble (set_ty t it) = valuedouble it"
  "ty (set_valuestring s it) = ty it" "valuestring (set_valuestring s it) = s"
  "name (set_valuestring s it) = name it" "child (set_valuestring s it) = child it"
  "ty (set_name s it) = ty it" "valuestring (set_name s it) = valuestring it"
  "name (set_name s it) = s" "child (set_name s it) = child it"
  "ty (set_number i d it) = ty it" "valuestring (set_number i d it) = valuestring it"
  "name (set_number i d it) = name it" "child (set_number i d it) = child it"
  "ty (set_child c it) = ty it" "valuestring (set_child c it) = valuestring it"
  "name (set_child c it) = name it" "child (set_child c it) = c"
  by (cases it, simp)+

text \<open>What an item owns depends on its flags, on which strings are set and on its children.\<close>

lemma blocks_eq: "blocks it = 1
   + (if is_reference (ty it) then 0
      else (if valuestring it = None then 0 else 1) + sum_list (map blocks (child it)))
   + (if string_is_const (ty it) \<or> name it = None then 0 else 1)"
  by (cases it) simp

lemma Delete_live:
  "live (cJSON_Delete its m) = live m - sum_list (map blocks its) \<and> fails (cJSON_Delete its m) = fails m"
  by (induction its m rule: cJSON_Delete.induct) (auto simp: Let_def)

lemmas Delete_live_simps [simp] = Delete_live [THEN conjunct1] Delete_live [THEN conjunct2]

section \<open>Kind tests and value access\<close>

text \<open>The pointer arguments of these functions may be null.\<close>

definition cJSON_IsInvalid :: "cjson option \<Rightarrow> bool" where
  "cJSON_IsInvalid p = (case p of None \<Rightarrow> False | Some it \<Rightarrow> kind (ty it) = cJSON_Invalid)"

definition cJSON_IsFalse :: "cjson option \<Rightarrow> bool" where
  "cJSON_IsFalse p = (case p of None \<Rightarrow> False | Some it \<Rightarrow> kind (ty it) = cJSON_False)"

definition cJSON_IsTrue :: "cjson option \<Rightarrow> bool" where
  "cJSON_IsTrue p = (case p of None \<Rightarrow> False | Some it \<Rightarrow> kind (ty it) = cJSON_True)"

definition cJSON_IsBool :: "cjson option \<Rightarrow> bool" where
  "cJSON_IsBool p = (case p of None \<Rightarrow> False
     | Some it \<Rightarrow> ty it AND (cJSON_True OR cJSON_False) \<noteq> 0)"

definition cJSON_IsNull :: "cjson option \<Rightarrow> bool" where
  "cJSON_IsNull p = (case p of None \<Rightarrow> False | Some it \<Rightarrow> kind (ty it) = cJSON_NULL)"

definition cJSON_IsNumber :: "cjson option \<Rightarrow> bool" where
  "cJSON_IsNumber p = (case p of None \<Rightarrow> False | Some it \<Rightarrow> kind (ty it) = cJSON_Number)"

definition cJSON_IsString :: "cjson option \<Rightarrow> bool" where
  "cJSON_IsString p = (case p of None \<Rightarrow> False | Some it \<Rightarrow> kind (ty it) = cJSON_String)"

definition cJSON_IsArray :: "cjson option \<Rightarrow> bool" where
  "cJSON_IsArray p = (case p of None \<Rightarrow> False | Some it \<Rightarrow> kind (ty it) = cJSON_Array)"

definition cJSON_IsObject :: "cjson option \<Rightarrow> bool" where
  "cJSON_IsObject p = (case p of None \<Rightarrow> False | Some it \<Rightarrow> kind (ty it) = cJSON_Object)"

definition cJSON_IsRaw :: "cjson option \<Rightarrow> bool" where
  "cJSON_IsRaw p = (case p of None \<Rightarrow> False | Some it \<Rightarrow> kind (ty it) = cJSON_Raw)"

definition cJSON_GetStringValue :: "cjson option \<Rightarrow> string option" where
  "cJSON_GetStringValue p =
     (if \<not> cJSON_IsString p then None else (case p of None \<Rightarrow> None | Some it \<Rightarrow> valuestring it))"

definition cJSON_GetNumberValue :: "cjson option \<Rightarrow> dbl" where
  "cJSON_GetNumberValue p =
     (if \<not> cJSON_IsNumber p then DNaN else (case p of None \<Rightarrow> DNaN | Some it \<Rightarrow> valuedouble it))"

text \<open>The saturating conversion of a double to the item's int: undefined for a NaN only.\<close>

definition saturate_int :: "dbl \<Rightarrow> int run" where
  "saturate_int num =
     (if dle (dbl_of_int INT_MAX) num then Ret INT_MAX
      else if dle num (dbl_of_int INT_MIN) then Ret INT_MIN
      else dbl_to_int num)"

definition cJSON_SetNumberHelper :: "cjson \<Rightarrow> dbl \<Rightarrow> (dbl \<times> cjson) run" where
  "cJSON_SetNumberHelper object num =
     bnd (saturate_int num) (\<lambda>i. Ret (num, set_number i num object))"

end
