(* ===== verification/CJson_Parse.thy ===== *)
theory CJson_Parse
  imports CJson_Node
begin

text \<open>
  The parser of deps/cjson/cJSON.c. A parse buffer is a byte object and a cursor into it;
  every read is a \<open>rd\<close>, so that leaving the object is undefined behaviour. Functions return
  the success flag, the item they filled, the buffer with the cursor and depth the code leaves
  it with, and the allocator.
\<close>

section \<open>The parse buffer\<close>

record parse_buffer =
  content :: string
  buf_length :: nat
  offset :: nat
  depth :: nat

definition can_read :: "parse_buffer \<Rightarrow> nat \<Rightarrow> bool" where
  "can_read b n \<longleftrightarrow> offset b + n \<le> buf_length b"

definition can_access_at_index :: "parse_buffer \<Rightarrow> nat \<Rightarrow> bool" where
  "can_access_at_index b i \<longleftrightarrow> offset b + i < buf_length b"

definition buffer_at_offset :: "parse_buffer \<Rightarrow> nat \<Rightarrow> char run" where
  "buffer_at_offset b i = rd (content b) (offset b + i)"

definition advance :: "nat \<Rightarrow> parse_buffer \<Rightarrow> parse_buffer" where
  "advance n b = b\<lparr>offset := offset b + n\<rparr>"

definition step_back :: "parse_buffer \<Rightarrow> parse_buffer" where
  "step_back b = b\<lparr>offset := offset b - 1\<rparr>"

text \<open>The condition "the cursor can be read and shows this character".\<close>

definition at_char :: "parse_buffer \<Rightarrow> char \<Rightarrow> bool run" where
  "at_char b c = (if can_access_at_index b 0
                  then bnd (buffer_at_offset b 0) (\<lambda>x. Ret (x = c)) else Ret False)"

text \<open>strncmp of the cursor with a literal: it stops at the first difference.\<close>

fun strncmp_eq :: "string \<Rightarrow> nat \<Rightarrow> string \<Rightarrow> bool run" where
  "strncmp_eq m i [] = Ret True"
| "strncmp_eq m i (c # cs) =
     bnd (rd m i) (\<lambda>x. if x = c then strncmp_eq m (Suc i) cs else Ret False)"

definition looking_at :: "parse_buffer \<Rightarrow> string \<Rightarrow> bool run" where
  "looking_at b lit = (if can_read b (length lit) then strncmp_eq (content b) (offset b) lit
                       else Ret False)"

definition is_space :: "char \<Rightarrow> bool" where
  "is_space c \<longleftrightarrow> (of_char c :: nat) \<le> 32"

function skip_loop :: "string \<Rightarrow> nat \<Rightarrow> nat \<Rightarrow> nat run" where
  "skip_loop m n i =
     (if i < n then bnd (rd m i) (\<lambda>x. if is_space x then skip_loop m n (Suc i) else Ret i)
      else Ret i)"
  by pat_completeness auto
termination
  by (relation "measure (\<lambda>(m, n, i). n - i)") auto

declare skip_loop.simps [simp del]

definition buffer_skip_whitespace :: "parse_buffer \<Rightarrow> parse_buffer run" where
  "buffer_skip_whitespace b =
     (if \<not> can_access_at_index b 0 then Ret b
      else bnd (skip_loop (content b) (buf_length b) (offset b)) (\<lambda>i.
        Ret (if i = buf_length b then b\<lparr>offset := i - 1\<rparr> else b\<lparr>offset := i\<rparr>)))"

definition UTF8_BOM :: string where
  "UTF8_BOM = [CHR 0xEF, CHR 0xBB, CHR 0xBF]"

text \<open>A null result means the cursor had already moved.\<close>

definition skip_utf8_bom :: "parse_buffer \<Rightarrow> parse_buffer option run" where
  "skip_utf8_bom b =
     (if offset b \<noteq> 0 then Ret None
      else if can_access_at_index b 4 then
        bnd (strncmp_eq (content b) (offset b) UTF8_BOM) (\<lambda>eq.
          Ret (Some (if eq then advance 3 b else b)))
      else Ret (Some b))"

section \<open>Numbers\<close>

text \<open>The characters parse_number copies, at most 63 of them.\<close>

function copy_number :: "string \<Rightarrow> nat \<Rightarrow> nat \<Rightarrow> nat \<Rightarrow> string run" where
  "copy_number m n off i =
     (if i < 63 \<and> off + i < n then
        bnd (rd m (off + i)) (\<lambda>c.
          if num_char c then bnd (copy_number m n off (Suc i)) (\<lambda>s. Ret (c # s)) else Ret [])
      else Ret [])"
  by pat_completeness auto
termination
  by (relation "measure (\<lambda>(m, n, off, i). 63 - i)") auto

declare copy_number.simps [simp del]

definition parse_number :: "cjson \<Rightarrow> parse_buffer \<Rightarrow> (bool \<times> cjson \<times> parse_buffer) run" where
  "parse_number it b =
     bnd (copy_number (content b) (buf_length b) (offset b) 0) (\<lambda>number_c_string.
       let (num, after_end) = strtod number_c_string in
       if after_end = 0 then Ret (False, it, b)
       else bnd (saturate_int num) (\<lambda>i.
         Ret (True, set_ty cJSON_Number (set_number i num it), advance after_end b)))"

section \<open>Strings\<close>

text \<open>One hexadecimal digit, either case.\<close>

definition hex_digit :: "char \<Rightarrow> nat option" where
  "hex_digit c =
     (let n = of_char c :: nat in
      if 48 \<le> n \<and> n \<le> 57 then Some (n - 48)
      else if 65 \<le> n \<and> n \<le> 70 then Some (10 + n - 65)
      else if 97 \<le> n \<and> n \<le> 102 then Some (10 + n - 97)
      else None)"

text \<open>Four digits; an invalid digit makes the whole value 0.\<close>

function hex4_loop :: "string \<Rightarrow> nat \<Rightarrow> nat \<Rightarrow> nat \<Rightarrow> nat run" where
  "hex4_loop m p i h =
     (if i < 4 then
        bnd (rd m (p + i)) (\<lambda>c. case hex_digit c of
            None \<Rightarrow> Ret 0
          | Some d \<Rightarrow> hex4_loop m p (Suc i) (if i < 3 then (h + d) * 16 else h + d))
      else Ret h)"
  by pat_completeness auto
termination
  by (relation "measure (\<lambda>(m, p, i, h). 4 - i)") auto

declare hex4_loop.simps [simp del]

definition parse_hex4 :: "string \<Rightarrow> nat \<Rightarrow> nat run" where
  "parse_hex4 m p = hex4_loop m p 0 0"

text \<open>The bytes written for a code point: the continuation bytes from the last to the first,
  then the first byte with its length mark.\<close>

fun utf8_tail :: "nat \<Rightarrow> nat \<Rightarrow> char list \<Rightarrow> nat \<times> char list" where
  "utf8_tail 0 cp acc = (cp, acc)"
| "utf8_tail (Suc k) cp acc = utf8_tail k (drop_bit 6 cp) (char_of ((cp OR 0x80) AND 0xBF) # acc)"

definition utf8_encode :: "nat \<Rightarrow> char list option" where
  "utf8_encode codepoint =
     (if codepoint < 0x80 then Some [char_of (codepoint AND 0x7F)]
      else if codepoint < 0x800 then
        (let (c, t) = utf8_tail 1 codepoint [] in Some (char_of ((c OR 0xC0) AND 0xFF) # t))
      else if codepoint < 0x10000 then
        (let (c, t) = utf8_tail 2 codepoint [] in Some (char_of ((c OR 0xE0) AND 0xFF) # t))
      else if codepoint \<le> 0x10FFFF then
        (let (c, t) = utf8_tail 3 codepoint [] in Some (char_of ((c OR 0xF0) AND 0xFF) # t))
      else None)"

text \<open>The length of the escape sequence and the bytes it stands for; length 0 is failure.\<close>

definition utf16_literal_to_utf8 :: "string \<Rightarrow> nat \<Rightarrow> nat \<Rightarrow> (nat \<times> char list) run" where
  "utf16_literal_to_utf8 m input_pointer input_end =
     (if input_end - input_pointer < 6 then Ret (0, [])
      else bnd (parse_hex4 m (input_pointer + 2)) (\<lambda>first_code.
        if 0xDC00 \<le> first_code \<and> first_code \<le> 0xDFFF then Ret (0, [])
        else if 0xD800 \<le> first_code \<and> first_code \<le> 0xDBFF then
          (let second = input_pointer + 6 in
           if input_end - second < 6 then Ret (0, [])
           else bnd (rd m second) (\<lambda>c0. bnd (if c0 \<noteq> CHR 0x5C then Ret c0 else rd m (second + 1)) (\<lambda>c1.
             if c0 \<noteq> CHR 0x5C \<or> c1 \<noteq> CHR ''u'' then Ret (0, [])
             else bnd (parse_hex4 m (second + 2)) (\<lambda>second_code.
               if second_code < 0xDC00 \<or> 0xDFFF < second_code then Ret (0, [])
               else (case utf8_encode (0x10000 +
                        (push_bit 10 (first_code AND 0x3FF) OR (second_code AND 0x3FF))) of
                   None \<Rightarrow> Ret (0, []) | Some bs \<Rightarrow> Ret (12, bs))))))
        else (case utf8_encode first_code of
            None \<Rightarrow> Ret (0, []) | Some bs \<Rightarrow> Ret (6, bs))))"

text \<open>The first pass of parse_string: find the closing quote, counting the escapes. \<open>None\<close> is
  the jump to fail on a backslash that ends the buffer.\<close>

function scan_string :: "string \<Rightarrow> nat \<Rightarrow> nat \<Rightarrow> nat \<Rightarrow> (nat \<times> nat) option run" where
  "scan_string m n input_end skipped =
     (if input_end < n then
        bnd (rd m input_end) (\<lambda>c.
          if c = CHR 0x22 then Ret (Some (input_end, skipped))
          else if c = CHR 0x5C then
            (if n \<le> input_end + 1 then Ret None else scan_string m n (input_end + 2) (skipped + 1))
          else scan_string m n (input_end + 1) skipped)
      else Ret (Some (input_end, skipped)))"
  by pat_completeness auto
termination
  by (relation "measure (\<lambda>(m, n, e, s). n - e)") auto

declare scan_string.simps [simp del]

text \<open>A store through the output pointer: undefined past the \<open>cap\<close> bytes allocated.\<close>

definition emit :: "nat \<Rightarrow> string \<Rightarrow> string \<Rightarrow> string run" where
  "emit cap out bs = (if length out + length bs \<le> cap then Ret (out @ bs) else Undef)"

text \<open>One turn of the second pass: how many input bytes it takes and what it stores. Length 0
  is the jump to fail.\<close>

definition escape_step :: "string \<Rightarrow> nat \<Rightarrow> nat \<Rightarrow> (nat \<times> char list) run" where
  "escape_step m ip input_end =
     bnd (rd m ip) (\<lambda>c.
     if c \<noteq> CHR 0x5C then Ret (1, [c])
     else bnd (rd m (ip + 1)) (\<lambda>e.
       if e = CHR ''b'' then Ret (2, [CHR 0x08])
       else if e = CHR ''f'' then Ret (2, [CHR 0x0C])
       else if e = CHR ''n'' then Ret (2, [CHR 0x0A])
       else if e = CHR ''r'' then Ret (2, [CHR 0x0D])
       else if e = CHR ''t'' then Ret (2, [CHR 0x09])
       else if e = CHR 0x22 \<or> e = CHR 0x5C \<or> e = CHR ''/'' then Ret (2, [e])
       else if e = CHR ''u'' then utf16_literal_to_utf8 m ip input_end
       else Ret (0, [])))"

text \<open>The second pass: the unescaped text and where the input pointer stopped; the flag is
  False on the jump to fail.\<close>

function unescape :: "string \<Rightarrow> nat \<Rightarrow> nat \<Rightarrow> nat \<Rightarrow> string \<Rightarrow> (bool \<times> nat \<times> string) run" where
  "unescape m ip input_end cap out =
     (if ip < input_end then
        bnd (escape_step m ip input_end) (\<lambda>(sequence_length, bs).
          if sequence_length = 0 then Ret (False, ip, out)
          else bnd (emit cap out bs) (\<lambda>out'.
            unescape m (ip + sequence_length) input_end cap out'))
      else Ret (True, ip, out))"
  by pat_completeness auto
termination
  by (relation "measure (\<lambda>(m, ip, e, cap, out). e - ip)") auto

declare unescape.simps [simp del]

definition parse_string ::
  "cjson \<Rightarrow> parse_buffer \<Rightarrow> amem \<Rightarrow> (bool \<times> cjson \<times> parse_buffer \<times> amem) run" where
  "parse_string it b m =
     (let start = offset b + 1; fail_at = (\<lambda>ip. b\<lparr>offset := ip\<rparr>) in
      bnd (buffer_at_offset b 0) (\<lambda>c0.
      if c0 \<noteq> CHR 0x22 then Ret (False, it, fail_at start, m)
      else bnd (scan_string (content b) (buf_length b) start 0) (\<lambda>r. case r of
          None \<Rightarrow> Ret (False, it, fail_at start, m)
        | Some (input_end, skipped) \<Rightarrow>
          if buf_length b \<le> input_end then Ret (False, it, fail_at start, m)
          else (let allocation_length = (input_end - offset b) - skipped;
                    cap = allocation_length + 1;
                    (ok, m1) = alloc m in
            if \<not> ok then Ret (False, it, fail_at start, m1)
            else bnd (unescape (content b) start input_end cap []) (\<lambda>(ok, ip, out).
              if \<not> ok then Ret (False, it, fail_at ip, dealloc m1)
              else bnd (emit cap out [NUL]) (\<lambda>_.
                bnd (cstr_from (out @ [NUL])) (\<lambda>s.
                Ret (True, set_ty cJSON_String (set_valuestring (Some s) it),
                     b\<lparr>offset := input_end + 1\<rparr>, m1))))))))"

section \<open>Values, arrays and objects\<close>

text \<open>
  The three parsers call each other. The array and object parsers are functions of the value
  parser \<open>pv\<close> they call, and \<open>parse_value\<close> ties the knot, one unit of fuel per level of
  nesting: CJSON_NESTING_LIMIT bounds the levels, so \<open>parse_fuel\<close> is enough for every input. The
  loops over the elements get one unit per byte of the buffer, and each element consumes a byte.
  CJson_Parse_Safe proves that neither bound is ever reached. The loops return the
  list of children built so far, which is what the code reaches through \<open>head\<close>; on failure the
  caller deletes it.
\<close>

definition init_item :: "amem \<Rightarrow> cjson option \<times> amem" where
  "init_item m = (let (ok, m1) = alloc m in (if ok then Some zero_item else None, m1))"

definition NESTING_LIMIT :: nat where
  "NESTING_LIMIT = 1000"

definition deeper :: "parse_buffer \<Rightarrow> parse_buffer" where
  "deeper b = b\<lparr>depth := depth b + 1\<rparr>"

definition shallower :: "parse_buffer \<Rightarrow> parse_buffer" where
  "shallower b = b\<lparr>depth := depth b - 1\<rparr>"

type_synonym value_parser =
  "cjson \<Rightarrow> parse_buffer \<Rightarrow> amem \<Rightarrow> (bool \<times> cjson \<times> parse_buffer \<times> amem) run"

fun array_loop :: "value_parser \<Rightarrow> nat \<Rightarrow> cjson list \<Rightarrow> parse_buffer \<Rightarrow> amem \<Rightarrow>
      (bool \<times> cjson list \<times> parse_buffer \<times> amem) run" where
  "array_loop pv 0 items b m = NoFuel"
| "array_loop pv (Suc n) items b m =
     (let (new_item, m1) = init_item m in
      case new_item of None \<Rightarrow> Ret (False, items, b, m1)
      | Some it \<Rightarrow>
        bnd (buffer_skip_whitespace (advance 1 b)) (\<lambda>b1.
        bnd (pv it b1 m1) (\<lambda>(ok, it', b2, m2).
        if \<not> ok then Ret (False, items @ [it'], b2, m2)
        else bnd (buffer_skip_whitespace b2) (\<lambda>b3.
        bnd (at_char b3 CHR '','') (\<lambda>more.
        if more then array_loop pv n (items @ [it']) b3 m2
        else Ret (True, items @ [it'], b3, m2))))))"

definition parse_array :: "value_parser \<Rightarrow> value_parser" where
  "parse_array pv it b m =
     (if NESTING_LIMIT \<le> depth b then Ret (False, it, b, m)
      else let b0 = deeper b in
      bnd (buffer_at_offset b0 0) (\<lambda>c.
      if c \<noteq> CHR ''['' then Ret (False, it, b0, m)
      else bnd (buffer_skip_whitespace (advance 1 b0)) (\<lambda>b1.
      bnd (at_char b1 CHR '']'') (\<lambda>empty.
      if empty then
        Ret (True, set_child [] (set_ty cJSON_Array it), advance 1 (shallower b1), m)
      else if \<not> can_access_at_index b1 0 then Ret (False, it, step_back b1, m)
      else bnd (array_loop pv (buf_length b) [] (step_back b1) m) (\<lambda>(ok, items, b2, m2).
        if \<not> ok then Ret (False, it, b2, cJSON_Delete items m2)
        else bnd (at_char b2 CHR '']'') (\<lambda>closed.
          if \<not> closed then Ret (False, it, b2, cJSON_Delete items m2)
          else Ret (True, set_child items (set_ty cJSON_Array it), advance 1 (shallower b2), m2)))))))"

text \<open>The value of a key: after the colon.\<close>

definition parse_member :: "value_parser \<Rightarrow> value_parser" where
  "parse_member pv it b m =
     bnd (parse_string it b m) (\<lambda>(ok, it1, b2, m2).
     if \<not> ok then Ret (False, it1, b2, m2)
     else bnd (buffer_skip_whitespace b2) (\<lambda>b3.
     let it2 = set_valuestring None (set_name (valuestring it1) it1) in
     bnd (at_char b3 CHR '':'') (\<lambda>colon.
     if \<not> colon then Ret (False, it2, b3, m2)
     else bnd (buffer_skip_whitespace (advance 1 b3)) (\<lambda>b4. pv it2 b4 m2))))"

fun object_loop :: "value_parser \<Rightarrow> nat \<Rightarrow> cjson list \<Rightarrow> parse_buffer \<Rightarrow> amem \<Rightarrow>
      (bool \<times> cjson list \<times> parse_buffer \<times> amem) run" where
  "object_loop pv 0 items b m = NoFuel"
| "object_loop pv (Suc n) items b m =
     (let (new_item, m1) = init_item m in
      case new_item of None \<Rightarrow> Ret (False, items, b, m1)
      | Some it \<Rightarrow>
        bnd (buffer_skip_whitespace (advance 1 b)) (\<lambda>b1.
        bnd (parse_member pv it b1 m1) (\<lambda>(ok, it', b2, m2).
        if \<not> ok then Ret (False, items @ [it'], b2, m2)
        else bnd (buffer_skip_whitespace b2) (\<lambda>b3.
        bnd (at_char b3 CHR '','') (\<lambda>more.
        if more then object_loop pv n (items @ [it']) b3 m2
        else Ret (True, items @ [it'], b3, m2))))))"

definition parse_object :: "value_parser \<Rightarrow> value_parser" where
  "parse_object pv it b m =
     (if NESTING_LIMIT \<le> depth b then Ret (False, it, b, m)
      else let b0 = deeper b in
      bnd (at_char b0 CHR ''{'') (\<lambda>opened.
      if \<not> opened then Ret (False, it, b0, m)
      else bnd (buffer_skip_whitespace (advance 1 b0)) (\<lambda>b1.
      bnd (at_char b1 CHR ''}'') (\<lambda>empty.
      if empty then
        Ret (True, set_child [] (set_ty cJSON_Object it), advance 1 (shallower b1), m)
      else if \<not> can_access_at_index b1 0 then Ret (False, it, step_back b1, m)
      else bnd (object_loop pv (buf_length b) [] (step_back b1) m) (\<lambda>(ok, items, b2, m2).
        if \<not> ok then Ret (False, it, b2, cJSON_Delete items m2)
        else bnd (at_char b2 CHR ''}'') (\<lambda>closed.
          if \<not> closed then Ret (False, it, b2, cJSON_Delete items m2)
          else Ret (True, set_child items (set_ty cJSON_Object it), advance 1 (shallower b2), m2)))))))"

definition value_body :: "value_parser \<Rightarrow> value_parser" where
  "value_body pv it b m =
     bnd (looking_at b ''null'') (\<lambda>is_null.
     if is_null then Ret (True, set_ty cJSON_NULL it, advance 4 b, m)
     else bnd (looking_at b ''false'') (\<lambda>is_false.
     if is_false then Ret (True, set_ty cJSON_False it, advance 5 b, m)
     else bnd (looking_at b ''true'') (\<lambda>is_true.
     if is_true then
       Ret (True, set_number 1 (valuedouble it) (set_ty cJSON_True it), advance 4 b, m)
     else if \<not> can_access_at_index b 0 then Ret (False, it, b, m)
     else bnd (buffer_at_offset b 0) (\<lambda>c.
       if c = CHR 0x22 then parse_string it b m
       else if c = CHR ''-'' \<or> is_digit c then
         bnd (parse_number it b) (\<lambda>(ok, it', b'). Ret (ok, it', b', m))
       else if c = CHR ''['' then parse_array pv it b m
       else if c = CHR ''{'' then parse_object pv it b m
       else Ret (False, it, b, m)))))"

primrec parse_value :: "nat \<Rightarrow> value_parser" where
  "parse_value 0 = (\<lambda>it b m. NoFuel)"
| "parse_value (Suc n) = value_body (parse_value n)"

section \<open>Entry points\<close>

text \<open>What a parse leaves behind: the root, the position stored through return_parse_end (when
  something was stored), the position of the global error (None: the error was reset and not
  set again), and the allocator.\<close>

record parse_result =
  root :: "cjson option"
  parse_end :: "nat option"
  global_error :: "nat option"
  mem_after :: amem

definition parse_fail :: "parse_buffer \<Rightarrow> cjson list \<Rightarrow> amem \<Rightarrow> parse_result" where
  "parse_fail b items m =
     (let position = (if offset b < buf_length b then offset b
                      else if 0 < buf_length b then buf_length b - 1 else 0)
      in \<lparr>root = None, parse_end = Some position, global_error = Some position,
          mem_after = cJSON_Delete items m\<rparr>)"

definition parse_fuel :: nat where
  "parse_fuel = Suc NESTING_LIMIT"

definition cJSON_ParseWithLengthOpts :: "string option \<Rightarrow> nat \<Rightarrow> bool \<Rightarrow> amem \<Rightarrow> parse_result run" where
  "cJSON_ParseWithLengthOpts val buffer_length require_null_terminated m =
     (case val of
        None \<Rightarrow> Ret \<lparr>root = None, parse_end = None, global_error = None, mem_after = m\<rparr>
      | Some s \<Rightarrow>
        if buffer_length = 0 then
          Ret (parse_fail \<lparr>content = s, buf_length = 0, offset = 0, depth = 0\<rparr> [] m)
        else
          let b = \<lparr>content = s, buf_length = buffer_length, offset = 0, depth = 0\<rparr>;
              (item, m1) = init_item m in
          case item of None \<Rightarrow> Ret (parse_fail b [] m1)
          | Some it \<Rightarrow>
            bnd (skip_utf8_bom b) (\<lambda>ob. case ob of None \<Rightarrow> Ret (parse_fail b [it] m1)
            | Some b0 \<Rightarrow>
              bnd (buffer_skip_whitespace b0) (\<lambda>b1.
              bnd (parse_value parse_fuel it b1 m1) (\<lambda>(ok, it1, b2, m2).
              if \<not> ok then Ret (parse_fail b2 [it1] m2)
              else if require_null_terminated then
                bnd (buffer_skip_whitespace b2) (\<lambda>b3.
                bnd (at_char b3 NUL) (\<lambda>ended.
                if \<not> ended then Ret (parse_fail b3 [it1] m2)
                else Ret \<lparr>root = Some it1, parse_end = Some (offset b3), global_error = None,
                          mem_after = m2\<rparr>))
              else Ret \<lparr>root = Some it1, parse_end = Some (offset b2), global_error = None,
                        mem_after = m2\<rparr>))))"

text \<open>The C string a caller passes is an object that ends with its null byte.\<close>

definition cJSON_ParseWithOpts :: "string option \<Rightarrow> bool \<Rightarrow> amem \<Rightarrow> parse_result option run" where
  "cJSON_ParseWithOpts val require_null_terminated m =
     (case val of None \<Rightarrow> Ret None
      | Some s \<Rightarrow> bnd (cJSON_ParseWithLengthOpts (Some (s @ [NUL])) (length s + 1)
                        require_null_terminated m) (\<lambda>r. Ret (Some r)))"

definition cJSON_Parse :: "string option \<Rightarrow> amem \<Rightarrow> parse_result option run" where
  "cJSON_Parse val m = cJSON_ParseWithOpts val False m"

definition cJSON_ParseWithLength :: "string option \<Rightarrow> nat \<Rightarrow> amem \<Rightarrow> parse_result run" where
  "cJSON_ParseWithLength val buffer_length m =
     cJSON_ParseWithLengthOpts val buffer_length False m"

end
