(* ===== verification/CJson_Parse_Safe.thy ===== *)
theory CJson_Parse_Safe
  imports CJson_Parse
begin

text \<open>
  Memory safety of the parser of cJSON.c: on a buffer that lies inside its object and does not
  end in a comma no read leaves the object, no store leaves the buffer allocated for a string,
  no bound of the model is reached, and whatever the outcome every block allocated belongs to
  the item returned or has been freed.
\<close>

section \<open>Whitespace and literals\<close>

definition inside :: "parse_buffer \<Rightarrow> bool" where
  "inside b \<longleftrightarrow> buf_length b \<le> length (content b) \<and> offset b \<le> buf_length b"

definition same_input :: "parse_buffer \<Rightarrow> parse_buffer \<Rightarrow> bool" where
  "same_input b b' \<longleftrightarrow> content b' = content b \<and> buf_length b' = buf_length b"

lemma same_input_refl [simp]: "same_input b b"
  by (simp add: same_input_def)

lemma same_input_trans: "same_input a b \<Longrightarrow> same_input b c \<Longrightarrow> same_input a c"
  by (simp add: same_input_def)

lemma cursor_simps [simp]:
  "content (advance n b) = content b" "buf_length (advance n b) = buf_length b"
  "offset (advance n b) = offset b + n" "depth (advance n b) = depth b"
  "content (step_back b) = content b" "buf_length (step_back b) = buf_length b"
  "offset (step_back b) = offset b - 1" "depth (step_back b) = depth b"
  "content (deeper b) = content b" "buf_length (deeper b) = buf_length b"
  "offset (deeper b) = offset b" "depth (deeper b) = depth b + 1"
  "content (shallower b) = content b" "buf_length (shallower b) = buf_length b"
  "offset (shallower b) = offset b" "depth (shallower b) = depth b - 1"
  by (simp_all add: advance_def step_back_def deeper_def shallower_def)

lemma at_char_eq: "inside b \<Longrightarrow>
    at_char b c = Ret (offset b < buf_length b \<and> content b ! offset b = c)"
  by (auto simp: at_char_def can_access_at_index_def buffer_at_offset_def inside_def)

lemma skip_loop_spec:
  "n \<le> length m \<Longrightarrow> i \<le> n \<Longrightarrow> \<exists>j. skip_loop m n i = Ret j \<and> i \<le> j \<and> j \<le> n \<and>
     (\<forall>k. i \<le> k \<and> k < j \<longrightarrow> is_space (m ! k)) \<and> (j < n \<longrightarrow> \<not> is_space (m ! j))"
proof (induction m n i rule: skip_loop.induct)
  case (1 m n i)
  show ?case
  proof (cases "i < n \<and> is_space (m ! i)")
    case True
    with 1(2) have "i < length m" by simp
    with 1 True obtain j where "skip_loop m n (Suc i) = Ret j" "Suc i \<le> j" "j \<le> n"
        "\<forall>k. Suc i \<le> k \<and> k < j \<longrightarrow> is_space (m ! k)" "j < n \<longrightarrow> \<not> is_space (m ! j)"
      by (metis Suc_leI rd_in)
    moreover from this True have "\<forall>k. i \<le> k \<and> k < j \<longrightarrow> is_space (m ! k)"
      by (metis Suc_leI le_neq_implies_less)
    ultimately show ?thesis using True \<open>i < length m\<close>
      by (intro exI [of _ j]) (auto simp: skip_loop.simps [of m n i])
  next
    case False
    with 1(2,3) show ?thesis
      by (intro exI [of _ i]) (auto simp: skip_loop.simps [of m n i])
  qed
qed

definition skipped :: "parse_buffer \<Rightarrow> parse_buffer \<Rightarrow> bool" where
  "skipped b b' \<longleftrightarrow> same_input b b' \<and> inside b' \<and> offset b \<le> offset b' \<and> depth b' = depth b \<and>
     (offset b < buf_length b \<longrightarrow> offset b' < buf_length b)"

lemma skip_whitespace_spec:
  assumes "inside b"
  shows "\<exists>b'. buffer_skip_whitespace b = Ret b' \<and> skipped b b'"
proof (cases "offset b < buf_length b")
  case False
  then show ?thesis using assms
    by (simp add: buffer_skip_whitespace_def can_access_at_index_def skipped_def)
next
  case True
  from assms obtain j where j: "skip_loop (content b) (buf_length b) (offset b) = Ret j"
      "offset b \<le> j" "j \<le> buf_length b"
    using skip_loop_spec [of "buf_length b" "content b" "offset b"] by (auto simp: inside_def)
  let ?b' = "if j = buf_length b then b\<lparr>offset := j - 1\<rparr> else b\<lparr>offset := j\<rparr>"
  from True j have "buffer_skip_whitespace b = Ret ?b'"
    by (simp add: buffer_skip_whitespace_def can_access_at_index_def)
  then show ?thesis using True j assms
    by (intro exI [of _ ?b']) (auto simp: same_input_def inside_def skipped_def)
qed

lemma strncmp_eq_ret: "i + length lit \<le> length m \<Longrightarrow>
    strncmp_eq m i lit = Ret (take (length lit) (drop i m) = lit)"
  by (induction lit arbitrary: i)
     (auto simp: take_Suc_conv_app_nth Cons_nth_drop_Suc [symmetric] take_Cons')

lemma looking_at_eq: "inside b \<Longrightarrow> looking_at b lit =
    Ret (offset b + length lit \<le> buf_length b \<and> take (length lit) (drop (offset b) (content b)) = lit)"
  by (auto simp: looking_at_def can_read_def inside_def strncmp_eq_ret)

section \<open>Numbers\<close>

lemma copy_number_spec:
  "n \<le> length m \<Longrightarrow> off \<le> n \<Longrightarrow> \<exists>s. copy_number m n off i = Ret s \<and> (off + i \<le> n \<longrightarrow> off + i + length s \<le> n) \<and>
     (\<forall>c \<in> set s. num_char c) \<and> (n < off + i \<longrightarrow> s = [])"
proof (induction m n off i rule: copy_number.induct)
  case (1 m n off i)
  show ?case
  proof (cases "i < 63 \<and> off + i < n \<and> num_char (m ! (off + i))")
    case True
    with 1(2) have "off + i < length m" by simp
    with 1 True obtain s where s: "copy_number m n off (Suc i) = Ret s"
        "off + Suc i \<le> n \<longrightarrow> off + Suc i + length s \<le> n" "\<forall>c \<in> set s. num_char c"
      by (metis rd_in)
    with True \<open>off + i < length m\<close> show ?thesis
      by (intro exI [of _ "m ! (off + i) # s"]) (auto simp: copy_number.simps [of m n off i])
  next
    case False
    with 1(2) show ?thesis
      by (intro exI [of _ "[]"]) (auto simp: copy_number.simps [of m n off i])
  qed
qed

lemma length_take_sign: "take_sign s = (x, t) \<Longrightarrow> length t \<le> length s"
  by (auto simp: take_sign_def split: list.splits if_splits)

lemma length_span: "span_digits s = (x, t) \<Longrightarrow> length t \<le> length s"
  by (auto simp: span_digits_def intro: length_dropWhile_le)

lemma length_take_exponent: "take_exponent s = (x, t) \<Longrightarrow> length t \<le> length s"
  by (auto simp: take_exponent_def Let_def split: list.splits if_splits prod.splits
      dest!: length_take_sign length_span)

lemma strtod_consumed: "strtod s = (d, k) \<Longrightarrow> k \<le> length s"
  by (auto simp: strtod_def Let_def split: prod.splits if_splits)

lemma round_double_not_nan: "round_double neg q \<noteq> DNaN"
  by (auto simp: round_double_def Let_def)

lemma strtod_not_nan: "fst (strtod s) \<noteq> DNaN"
  by (auto simp: strtod_def Let_def round_double_not_nan split: prod.splits if_splits)

lemma saturate_int_ret: "d \<noteq> DNaN \<Longrightarrow> is_ret (saturate_int d)"
proof (cases d)
  case (DNum neg q)
  show ?thesis
  proof (cases "of_int INT_MAX \<le> dval neg q \<or> dval neg q \<le> of_int INT_MIN")
    case True
    with DNum show ?thesis
      by (auto simp: saturate_int_def dbl_of_int_def INT_MAX_def INT_MIN_def)
  next
    case False
    let ?x = "dval neg q"
    from False have b: "of_int INT_MIN < ?x" "?x < of_int INT_MAX" by auto
    have "INT_MIN \<le> (if neg then - \<lfloor>q\<rfloor> else \<lfloor>q\<rfloor>) \<and> (if neg then - \<lfloor>q\<rfloor> else \<lfloor>q\<rfloor>) \<le> INT_MAX"
    proof (cases neg)
      case True
      with b have "q < of_int (- INT_MIN)" "of_int (- INT_MAX) < q" by auto
      then have "\<lfloor>q\<rfloor> < - INT_MIN" "- INT_MAX \<le> \<lfloor>q\<rfloor>"
        by (simp_all only: floor_less_iff le_floor_iff less_imp_le)
      with True show ?thesis by auto
    next
      case False
      with b have "q < of_int INT_MAX" "of_int INT_MIN < q" by auto
      then have "\<lfloor>q\<rfloor> < INT_MAX" "INT_MIN \<le> \<lfloor>q\<rfloor>"
        by (simp_all only: floor_less_iff le_floor_iff less_imp_le)
      with False show ?thesis by auto
    qed
    with DNum show ?thesis by (simp add: saturate_int_def)
  qed
qed (auto simp: saturate_int_def dbl_of_int_def)

lemma parse_number_spec:
  assumes "inside b"
  obtains ok it' b' where "parse_number it b = Ret (ok, it', b')" "same_input b b'" "inside b'"
    "offset b \<le> offset b'" "ok \<Longrightarrow> offset b < offset b'" "depth b' = depth b"
    "blocks it' = blocks (if ok then set_ty cJSON_Number it else it)" "\<not> ok \<Longrightarrow> b' = b"
proof -
  from assms obtain s where s: "copy_number (content b) (buf_length b) (offset b) 0 = Ret s"
      and len: "offset b + length s \<le> buf_length b"
    using copy_number_spec [of "buf_length b" "content b" "offset b" 0] by (auto simp: inside_def)
  obtain d k where dk: "strtod s = (d, k)" by (cases "strtod s")
  from strtod_consumed [OF dk] have k: "k \<le> length s" .
  show thesis
  proof (cases "k = 0")
    case True
    with s dk assms show thesis by (intro that [of False it b]) (auto simp: parse_number_def)
  next
    case False
    from strtod_not_nan [of s] dk have "d \<noteq> DNaN" by simp
    then obtain i where i: "saturate_int d = Ret i"
      using saturate_int_ret [of d] by (auto simp: is_ret_def)
    with False s dk k len assms show thesis
      by (intro that [of True "set_ty cJSON_Number (set_number i d it)" "advance k b"])
         (auto simp: parse_number_def same_input_def inside_def blocks_eq)
  qed
qed

section \<open>Strings\<close>

text \<open>
  What the first pass of parse_string guarantees for the second: a set \<open>Q\<close> of positions, one
  for each output byte paid for, that holds every character other than a backslash and one of
  any two neighbours. The second pass may fall out of step with the first (an invalid
  hexadecimal escape swallows a backslash), but it never stores more bytes than it passes
  positions of \<open>Q\<close>.
\<close>

definition paid :: "string \<Rightarrow> nat \<Rightarrow> nat \<Rightarrow> nat set \<Rightarrow> bool" where
  "paid m a e Q \<longleftrightarrow> Q \<subseteq> {a..<e} \<and> (\<forall>i \<in> {a..<e}. m ! i \<noteq> CHR 0x5C \<longrightarrow> i \<in> Q) \<and>
     (\<forall>i \<in> {a..<e}. i \<in> Q \<or> Suc i \<in> Q)"

lemma paid_finite: "paid m a e Q \<Longrightarrow> finite Q"
  by (auto simp: paid_def intro: finite_subset)

lemma paid_char:
  assumes "paid m (a + 1) e Q" and "a + 1 \<le> e"
  shows "paid m a e (insert a Q) \<and> card (insert a Q) = Suc (card Q)"
proof -
  from assms have "a \<notin> Q" by (auto simp: paid_def)
  moreover have "i = a \<or> i \<in> {a + 1..<e}" if "i \<in> {a..<e}" for i using that by auto
  ultimately show ?thesis using assms paid_finite [OF assms(1)]
    unfolding paid_def by (fastforce simp: card_insert_disjoint)
qed

lemma paid_escape:
  assumes "paid m (a + 2) e Q" and "a + 2 \<le> e" and "m ! a = CHR 0x5C"
  shows "paid m a e (insert (a + 1) Q) \<and> card (insert (a + 1) Q) = Suc (card Q)"
proof -
  from assms have "a + 1 \<notin> Q" by (auto simp: paid_def)
  moreover have "i = a \<or> i = a + 1 \<or> i \<in> {a + 2..<e}" if "i \<in> {a..<e}" for i using that by auto
  ultimately show ?thesis using assms paid_finite [OF assms(1)]
    unfolding paid_def by (fastforce simp: card_insert_disjoint)
qed

definition scanned :: "string \<Rightarrow> nat \<Rightarrow> nat \<Rightarrow> nat \<Rightarrow> nat \<Rightarrow> nat \<Rightarrow> nat set \<Rightarrow> bool" where
  "scanned m n a k0 e k Q \<longleftrightarrow> a \<le> e \<and> e \<le> n \<and> (e < n \<longrightarrow> m ! e = CHR 0x22) \<and>
     paid m a e Q \<and> card Q + k = e - a + k0"

lemma scan_string_spec:
  "n \<le> length m \<Longrightarrow> a \<le> n \<Longrightarrow> scan_string m n a k0 = Ret None \<or>
   (\<exists>e k Q. scan_string m n a k0 = Ret (Some (e, k)) \<and> scanned m n a k0 e k Q)"
proof (induction m n a k0 rule: scan_string.induct)
  case (1 m n a k0)
  consider "n \<le> a \<or> m ! a = CHR 0x22" | "a < n" "m ! a \<noteq> CHR 0x22" "m ! a \<noteq> CHR 0x5C"
    | "a < n" "m ! a = CHR 0x5C" "n \<le> a + 1" | "m ! a = CHR 0x5C" "a + 1 < n" by linarith
  then show ?case
  proof cases
    case 1
    with \<open>n \<le> length m\<close> \<open>a \<le> n\<close> show ?thesis
      by (intro disjI2 exI [of _ a] exI [of _ k0] exI [of _ "{}"])
         (auto simp: scan_string.simps [of m n a k0] paid_def scanned_def)
  next
    case 2
    with 1(3) have eq: "scan_string m n a k0 = scan_string m n (a + 1) k0"
      by (simp add: scan_string.simps [of m n a k0])
    from 2 1(2) [of "m ! a"] 1(3) consider "scan_string m n (a + 1) k0 = Ret None"
      | e k Q where "scan_string m n (a + 1) k0 = Ret (Some (e, k))" "scanned m n (a + 1) k0 e k Q"
      by fastforce
    then show ?thesis
    proof cases
      case (2 e k Q)
      then have "scanned m n a k0 e k (insert a Q)"
        using paid_char [of m a e Q] by (auto simp: scanned_def)
      with 2 eq show ?thesis by auto
    qed (simp add: eq)
  next
    case 3
    with 1(3) show ?thesis by (simp add: scan_string.simps [of m n a k0])
  next
    case 4
    with 1(3) have eq: "scan_string m n a k0 = scan_string m n (a + 2) (k0 + 1)"
      by (simp add: scan_string.simps [of m n a k0])
    from 4 1(1) [of "m ! a"] 1(3) consider "scan_string m n (a + 2) (k0 + 1) = Ret None"
      | e k Q where "scan_string m n (a + 2) (k0 + 1) = Ret (Some (e, k))"
          "scanned m n (a + 2) (k0 + 1) e k Q"
      by fastforce
    then show ?thesis
    proof cases
      case (2 e k Q)
      then have "scanned m n a k0 e k (insert (a + 1) Q)"
        using paid_escape [of m a e Q] 4 by (auto simp: scanned_def)
      with 2 eq show ?thesis by auto
    qed (simp add: eq)
  qed
qed

text \<open>An escape with an invalid digit has the value 0; a nonzero value has four digits.\<close>

lemma hex4_loop_spec:
  "p + 4 \<le> length m \<Longrightarrow> \<exists>v. hex4_loop m p i h = Ret v \<and>
     (v \<noteq> 0 \<longrightarrow> (\<forall>j. i \<le> j \<and> j < 4 \<longrightarrow> hex_digit (m ! (p + j)) \<noteq> None))"
proof (induction m p i h rule: hex4_loop.induct)
  case (1 m p i h)
  show ?case
  proof (cases "i < 4")
    case False
    then show ?thesis by (auto simp: hex4_loop.simps [of m p i h])
  next
    case True
    with 1(2) have l: "p + i < length m" by simp
    show ?thesis
    proof (cases "hex_digit (m ! (p + i))")
      case None
      with True l show ?thesis by (simp add: hex4_loop.simps [of m p i h])
    next
      case (Some d)
      let ?h = "if i < 3 then (h + d) * 16 else h + d"
      from 1(1) [OF True Some 1(2)] l obtain v where v: "hex4_loop m p (Suc i) ?h = Ret v"
          "v \<noteq> 0 \<longrightarrow> (\<forall>j. Suc i \<le> j \<and> j < 4 \<longrightarrow> hex_digit (m ! (p + j)) \<noteq> None)" by auto
      from v(2) Some have "v \<noteq> 0 \<longrightarrow> (\<forall>j. i \<le> j \<and> j < 4 \<longrightarrow> hex_digit (m ! (p + j)) \<noteq> None)"
        by (metis Suc_leI le_neq_implies_less option.distinct(1))
      with v(1) True l Some show ?thesis by (simp add: hex4_loop.simps [of m p i h])
    qed
  qed
qed

lemma hex_digit_not_backslash: "hex_digit c \<noteq> None \<Longrightarrow> c \<noteq> CHR 0x5C"
  by (auto simp: hex_digit_def)

lemma parse_hex4_spec:
  assumes "p + 4 \<le> length m"
  obtains v where "parse_hex4 m p = Ret v" "v \<noteq> 0 \<Longrightarrow> (\<forall>i \<in> {p..<p + 4}. m ! i \<noteq> CHR 0x5C)"
proof -
  from hex4_loop_spec [OF assms, of 0 0] obtain v where v: "parse_hex4 m p = Ret v"
      "v \<noteq> 0 \<longrightarrow> (\<forall>j<4. hex_digit (m ! (p + j)) \<noteq> None)" by (auto simp: parse_hex4_def)
  show thesis
  proof (rule that [OF v(1)])
    assume "v \<noteq> 0"
    with v(2) have d: "hex_digit (m ! (p + j)) \<noteq> None" if "j < 4" for j using that by blast
    show "\<forall>i \<in> {p..<p + 4}. m ! i \<noteq> CHR 0x5C"
    proof
      fix i assume "i \<in> {p..<p + 4}"
      then have "i - p < 4" "p + (i - p) = i" by auto
      with d [of "i - p"] show "m ! i \<noteq> CHR 0x5C" by (simp add: hex_digit_not_backslash)
    qed
  qed
qed

lemma length_utf8_tail: "utf8_tail k cp acc = (c, t) \<Longrightarrow> length t = k + length acc"
  by (induction k cp acc rule: utf8_tail.induct) auto

lemma utf8_encode_length:
  "utf8_encode cp = Some bs \<Longrightarrow> 1 \<le> length bs \<and> length bs \<le> 4 \<and> (cp < 0x80 \<longrightarrow> length bs = 1) \<and>
     (cp < 0x10000 \<longrightarrow> length bs \<le> 3)"
  by (auto simp: utf8_encode_def dest!: length_utf8_tail split: if_splits prod.splits)

lemma paid_pair:
  assumes "paid m a e Q" and "a \<le> ip" and "ip < e" and "2 \<le> k"
  shows "1 \<le> card (Q \<inter> {ip..<ip + k})"
proof -
  from assms have "ip \<in> Q \<or> Suc ip \<in> Q" by (auto simp: paid_def)
  with assms(4) have "Q \<inter> {ip..<ip + k} \<noteq> {}" by auto
  then show ?thesis by (simp add: Suc_le_eq card_gt_0_iff)
qed

lemma paid_digits:
  assumes "paid m a e Q" and "a \<le> ip" and "ip + k \<le> e" and "6 \<le> k"
    and "\<forall>i \<in> {ip + 2..<ip + 2 + 4}. m ! i \<noteq> CHR 0x5C"
  shows "4 \<le> card (Q \<inter> {ip..<ip + k})"
proof -
  have "{ip + 2..<ip + 2 + 4} \<subseteq> Q \<inter> {ip..<ip + k}"
    using assms by (auto simp: paid_def)
  then have "card {ip + 2..<ip + 2 + 4} \<le> card (Q \<inter> {ip..<ip + k})"
    by (intro card_mono) auto
  then show ?thesis by simp
qed

lemma first_code_bytes:
  assumes "utf8_encode v = Some bs" and "v \<noteq> 0 \<Longrightarrow> 4 \<le> c" and "1 \<le> c"
  shows "length bs \<le> c"
  using utf8_encode_length [OF assms(1)] assms(2,3) by (cases "v = 0") auto

lemma utf16_spec:
  assumes "e \<le> length m" and "paid m a e Q" and "a \<le> ip"
  obtains k bs where "utf16_literal_to_utf8 m ip e = Ret (k, bs)"
    "k \<noteq> 0 \<Longrightarrow> ip + k \<le> e \<and> length bs \<le> card (Q \<inter> {ip..<ip + k})"
proof (cases "e - ip < 6")
  case True
  then show thesis using that [of 0 "[]"] by (simp add: utf16_literal_to_utf8_def)
next
  case False
  then have r: "ip + 6 \<le> e" by simp
  with assms(1) obtain v where v: "parse_hex4 m (ip + 2) = Ret v"
      "v \<noteq> 0 \<Longrightarrow> \<forall>i \<in> {ip + 2..<ip + 2 + 4}. m ! i \<noteq> CHR 0x5C"
    using parse_hex4_spec [of "ip + 2" m] by auto
  have paid4: "4 \<le> card (Q \<inter> {ip..<ip + k})" if "v \<noteq> 0" "ip + k \<le> e" "6 \<le> k" for k
    using paid_digits [OF assms(2,3) that(2,3) v(2) [OF that(1)]] .
  have paid1: "1 \<le> card (Q \<inter> {ip..<ip + 6})"
    using paid_pair [OF assms(2,3)] r by simp
  consider "0xDC00 \<le> v \<and> v \<le> 0xDFFF" | "0xD800 \<le> v \<and> v \<le> 0xDBFF" | "v < 0xD800 \<or> 0xDFFF < v"
    by linarith
  then show thesis
  proof cases
    case 1
    with False v(1) that [of 0 "[]"] show thesis by (simp add: utf16_literal_to_utf8_def)
  next
    case 3
    show thesis
    proof (cases "utf8_encode v")
      case None
      with 3 False v(1) that [of 0 "[]"] show thesis by (auto simp: utf16_literal_to_utf8_def)
    next
      case (Some bs)
      have "length bs \<le> card (Q \<inter> {ip..<ip + 6})"
        using first_code_bytes [OF Some] paid4 [of 6] paid1 r by auto
      moreover have "utf16_literal_to_utf8 m ip e = Ret (6, bs)"
        using 3 False v(1) Some by (auto simp: utf16_literal_to_utf8_def)
      ultimately show thesis using that r by blast
    qed
  next
    case 2
    show thesis
    proof (cases "e - (ip + 6) < 6 \<or> m ! (ip + 6) \<noteq> CHR 0x5C \<or> m ! (ip + 6 + 1) \<noteq> CHR ''u''")
      case True
      with 2 False v(1) assms(1) have "utf16_literal_to_utf8 m ip e = Ret (0, [])"
        by (auto simp: utf16_literal_to_utf8_def Let_def)
      then show thesis using that [of 0 "[]"] by simp
    next
      case snd: False
      then have r2: "ip + 12 \<le> e" by linarith
      with assms(1) obtain w where w: "parse_hex4 m (ip + 6 + 2) = Ret w"
        using parse_hex4_spec [of "ip + 6 + 2" m] by auto
      let ?cp = "0x10000 + (push_bit 10 (v AND 0x3FF) OR (w AND 0x3FF))"
      have eq: "utf16_literal_to_utf8 m ip e =
          (if w < 0xDC00 \<or> 0xDFFF < w then Ret (0, [])
           else case utf8_encode ?cp of None \<Rightarrow> Ret (0, []) | Some bs \<Rightarrow> Ret (12, bs))"
        using 2 False v(1) snd w assms(1) r2
        by (simp add: utf16_literal_to_utf8_def Let_def)
      show thesis
      proof (cases "w < 0xDC00 \<or> 0xDFFF < w \<or> utf8_encode ?cp = None")
        case True
        with eq show thesis using that [of 0 "[]"] by auto
      next
        case False
        then obtain bs where bs: "utf8_encode ?cp = Some bs" by auto
        from utf8_encode_length [OF bs] paid4 [of 12] 2 r2
        have "length bs \<le> card (Q \<inter> {ip..<ip + 12})" by simp
        with eq bs False that r2 show thesis by auto
      qed
    qed
  qed
qed

lemma escape_step_spec:
  assumes "e < length m" and "paid m a e Q" and "a \<le> ip" and "ip < e"
  obtains k bs where "escape_step m ip e = Ret (k, bs)"
    "k \<noteq> 0 \<Longrightarrow> ip + k \<le> e + 1 \<and> length bs \<le> card (Q \<inter> {ip..<ip + k})"
proof -
  have c1: "1 \<le> card (Q \<inter> {ip..<ip + 1})" if "m ! ip \<noteq> CHR 0x5C"
  proof -
    from that assms have "Q \<inter> {ip..<ip + 1} = {ip}" by (auto simp: paid_def)
    then show ?thesis by simp
  qed
  have c2: "1 \<le> card (Q \<inter> {ip..<ip + 2})" using paid_pair [OF assms(2-4), of 2] by simp
  from assms(1) have "e \<le> length m" by simp
  from utf16_spec [OF this assms(2,3)] obtain k bs
    where u: "utf16_literal_to_utf8 m ip e = Ret (k, bs)"
      "k \<noteq> 0 \<Longrightarrow> ip + k \<le> e \<and> length bs \<le> card (Q \<inter> {ip..<ip + k})" by metis
  show thesis
  proof (cases "m ! ip = CHR 0x5C")
    case False
    then show thesis using assms c1 that [of 1 "[m ! ip]"] by (simp add: escape_step_def)
  next
    case True
    let ?r = "escape_step m ip e"
    have "?r = Ret (k, bs) \<or> ?r = Ret (0, []) \<or> (\<exists>c. ?r = Ret (2, [c]))"
      using True assms u(1) by (simp add: escape_step_def)
    then show thesis
    proof (elim disjE exE)
      assume "?r = Ret (k, bs)"
      then show thesis using that u(2) by fastforce
    next
      assume "?r = Ret (0, [])"
      then show thesis using that by blast
    next
      fix c assume "?r = Ret (2, [c])"
      then show thesis using that [of 2 "[c]"] c2 assms(4) by simp
    qed
  qed
qed

lemma card_split:
  fixes Q :: "nat set"
  assumes "finite Q"
  shows "card (Q \<inter> {ip..}) = card (Q \<inter> {ip..<ip + k}) + card (Q \<inter> {ip + k..})"
proof -
  have "Q \<inter> {ip..} = (Q \<inter> {ip..<ip + k}) \<union> (Q \<inter> {ip + k..})" by auto
  then show ?thesis using assms by (simp add: card_Un_disjoint disjoint_iff)
qed

lemma unescape_spec:
  "e < length m \<Longrightarrow> paid m a e Q \<Longrightarrow> a \<le> ip \<Longrightarrow> ip \<le> e + 1 \<Longrightarrow>
   length out + card (Q \<inter> {ip..}) \<le> N \<Longrightarrow> N \<le> cap \<Longrightarrow>
   \<exists>ok ip' out'. unescape m ip e cap out = Ret (ok, ip', out') \<and> ip \<le> ip' \<and> ip' \<le> e + 1 \<and>
      length out' \<le> N"
proof (induction m ip e cap out rule: unescape.induct)
  case (1 m ip e cap out)
  show ?case
  proof (cases "ip < e")
    case False
    with 1 show ?thesis by (auto simp: unescape.simps [of m ip])
  next
    case True
    obtain k bs where kb: "escape_step m ip e = Ret (k, bs)"
        "k \<noteq> 0 \<Longrightarrow> ip + k \<le> e + 1 \<and> length bs \<le> card (Q \<inter> {ip..<ip + k})"
      using escape_step_spec [OF 1(2,3,4) True] by metis
    show ?thesis
    proof (cases "k = 0")
      case True
      with kb(1) \<open>ip < e\<close> 1 show ?thesis by (auto simp: unescape.simps [of m ip])
    next
      case False
      with kb(2) have b: "ip + k \<le> e + 1" "length bs \<le> card (Q \<inter> {ip..<ip + k})" by auto
      with 1(6) card_split [OF paid_finite [OF 1(3)], of ip k]
      have n: "length (out @ bs) + card (Q \<inter> {ip + k..}) \<le> N" by simp
      with 1(7) have em: "emit cap out bs = Ret (out @ bs)" by (simp add: emit_def)
      from 1(1) [OF True False 1(2,3) _ b(1) n 1(7)] 1(4)
      obtain ok ip' out' where "unescape m (ip + k) e cap (out @ bs) = Ret (ok, ip', out')"
          "ip + k \<le> ip'" "ip' \<le> e + 1" "length out' \<le> N" by auto
      with True False kb(1) em show ?thesis by (auto simp: unescape.simps [of m ip])
    qed
  qed
qed

lemma cstr_from_NUL: "\<exists>s. cstr_from (out @ [NUL]) = Ret s"
  by (induction out) auto

lemma parse_string_spec:
  assumes "inside b" and "offset b < length (content b)"
  obtains ok it' b' m' where "parse_string it b m = Ret (ok, it', b', m')" "same_input b b'"
    "ok \<Longrightarrow> inside b' \<and> offset b < offset b'" "depth b' = depth b" "fails m' = fails m"
    "live m' = live m + (if ok then 1 else 0)" "\<not> ok \<Longrightarrow> it' = it"
    "ok \<Longrightarrow> (\<exists>s. it' = set_ty cJSON_String (set_valuestring (Some s) it))"
proof -
  let ?a = "offset b + 1" and ?c = "content b"
  let ?thesis' = "\<exists>ok it' b' m'. parse_string it b m = Ret (ok, it', b', m') \<and> same_input b b' \<and>
    (ok \<longrightarrow> inside b' \<and> offset b < offset b' \<and>
       (\<exists>s. it' = set_ty cJSON_String (set_valuestring (Some s) it))) \<and>
    depth b' = depth b \<and> fails m' = fails m \<and> live m' = live m + (if ok then 1 else 0) \<and>
    (\<not> ok \<longrightarrow> it' = it)"
  have ?thesis'
  proof (cases "?c ! offset b = CHR 0x22 \<and> offset b < buf_length b")
    case False
    have "scan_string ?c (buf_length b) ?a 0 = Ret (Some (?a, 0))" if "\<not> offset b < buf_length b"
      using that by (simp add: scan_string.simps [of ?c])
    with False assms show ?thesis
      by (auto simp: parse_string_def buffer_at_offset_def same_input_def Let_def)
  next
    case True
    with assms(1) consider (none) "scan_string ?c (buf_length b) ?a 0 = Ret None"
      | (some) e k Q where "scan_string ?c (buf_length b) ?a 0 = Ret (Some (e, k))"
          "scanned ?c (buf_length b) ?a 0 e k Q"
      using scan_string_spec [of "buf_length b" ?c ?a 0] by (auto simp: inside_def)
    then show ?thesis
    proof cases
      case none
      with True assms show ?thesis
        by (auto simp: parse_string_def buffer_at_offset_def same_input_def)
    next
      case (some e k Q)
      obtain ok m1 where m1: "alloc m = (ok, m1)" by (cases "alloc m")
      note am = alloc_cases [OF m1]
      show ?thesis
      proof (cases "buf_length b \<le> e \<or> \<not> ok")
        case True
        with some(1) \<open>?c ! offset b = CHR 0x22 \<and> offset b < buf_length b\<close> assms m1 am show ?thesis
          by (auto simp: parse_string_def buffer_at_offset_def same_input_def Let_def)
      next
        case False
        let ?cap = "e - offset b - k + 1"
        from some(2) have sc: "?a \<le> e" "paid ?c ?a e Q" "card Q + k = e - ?a"
          by (auto simp: scanned_def)
        from False assms(1) have el: "e < length ?c" by (simp add: inside_def)
        have "Q \<inter> {?a..} = Q" using sc(2) by (auto simp: paid_def)
        with sc(3) have "length [] + card (Q \<inter> {?a..}) \<le> card Q" "card Q \<le> ?cap" by auto
        from unescape_spec [OF el sc(2) _ _ this] sc(1) obtain ok2 ip out where
          un: "unescape ?c ?a e ?cap [] = Ret (ok2, ip, out)" "length out \<le> card Q" by auto
        from un(2) sc(1,3) have em: "emit ?cap out [NUL] = Ret (out @ [NUL])"
          by (simp add: emit_def)
        obtain s where s: "cstr_from (out @ [NUL]) = Ret s" using cstr_from_NUL by blast
        from False some(1) True assms m1 am un(1) em s sc(1) show ?thesis
          by (cases ok2) (auto simp: parse_string_def buffer_at_offset_def same_input_def
              inside_def Let_def)
      qed
    qed
  qed
  then show thesis using that by metis
qed

section \<open>Arrays and objects\<close>

text \<open>The parser of an element reads past a comma without a check, so the buffer must not end
  in one. \<open>fresh\<close> is an item whose value has not been set.\<close>

definition no_final_comma :: "parse_buffer \<Rightarrow> bool" where
  "no_final_comma b \<longleftrightarrow> (0 < buf_length b \<longrightarrow> content b ! (buf_length b - 1) \<noteq> CHR '','')"

definition fresh :: "cjson \<Rightarrow> bool" where
  "fresh it \<longleftrightarrow> valuestring it = None \<and> child it = [] \<and> \<not> is_reference (ty it) \<and>
     \<not> string_is_const (ty it)"

definition parsed :: "parse_buffer \<Rightarrow> int \<Rightarrow> amem \<Rightarrow> bool \<Rightarrow> int \<Rightarrow> parse_buffer \<Rightarrow> amem \<Rightarrow> bool" where
  "parsed b owned m ok owned' b' m' \<longleftrightarrow> same_input b b' \<and> fails m' = fails m \<and>
     live m' - owned' = live m - owned \<and>
     (ok \<longrightarrow> inside b' \<and> offset b < offset b' \<and> depth b' = depth b)"

definition item_result ::
  "(bool \<times> cjson \<times> parse_buffer \<times> amem) run \<Rightarrow> cjson \<Rightarrow> parse_buffer \<Rightarrow> amem \<Rightarrow> bool" where
  "item_result r it b m \<longleftrightarrow>
     (\<exists>ok it' b' m'. r = Ret (ok, it', b', m') \<and> parsed b (blocks it) m ok (blocks it') b' m')"

abbreviation owned_by :: "cjson list \<Rightarrow> int" where
  "owned_by items \<equiv> sum_list (map blocks items)"

lemma no_final_comma_same: "same_input b b' \<Longrightarrow> no_final_comma b' = no_final_comma b"
  by (simp add: no_final_comma_def same_input_def)

lemma fresh_zero [simp]: "fresh zero_item"
  by (simp add: fresh_def zero_item_def is_reference_def string_is_const_def)

lemma blocks_zero [simp]: "blocks zero_item = 1"
  by (simp add: zero_item_def is_reference_def)

lemma init_item_cases:
  assumes "init_item m = (x, m')"
  obtains "x = None" "live m' = live m" "fails m' = fails m"
    | "x = Some zero_item" "live m' = live m + 1" "fails m' = fails m"
proof -
  obtain ok m1 where a: "alloc m = (ok, m1)" by (cases "alloc m")
  with assms have "x = (if ok then Some zero_item else None)" "m' = m1"
    by (simp_all add: init_item_def)
  with alloc_cases [OF a] that show thesis by (cases ok) auto
qed

locale item_parser =
  fixes ip :: value_parser and n :: nat
  assumes item_ok: "\<lbrakk>inside b; offset b < buf_length b; no_final_comma b;
    depth b \<le> NESTING_LIMIT; NESTING_LIMIT < depth b + n\<rbrakk> \<Longrightarrow> item_result (ip zero_item b m) zero_item b m"
begin

lemma array_loop_ok:
  "\<lbrakk>inside b; offset b + 1 < buf_length b; no_final_comma b;
    depth b \<le> NESTING_LIMIT; NESTING_LIMIT < depth b + n; buf_length b \<le> offset b + k\<rbrakk> \<Longrightarrow>
   \<exists>ok items' b' m'. array_loop ip k items b m = Ret (ok, items', b', m') \<and>
     parsed b (owned_by items) m ok (owned_by items') b' m'"
proof (induction k arbitrary: items b m)
  case 0
  then show ?case by simp
next
  case (Suc k)
  obtain x m1 where x: "init_item m = (x, m1)" by (cases "init_item m")
  then show ?case
  proof (cases rule: init_item_cases)
    case 1
    with x show ?thesis by (auto simp: parsed_def)
  next
    case 2
    from Suc.prems have "inside (advance 1 b)" by (auto simp: inside_def)
    from skip_whitespace_spec [OF this] obtain b1 where
      b1: "buffer_skip_whitespace (advance 1 b) = Ret b1" "skipped (advance 1 b) b1" by blast
    then have b1: "buffer_skip_whitespace (advance 1 b) = Ret b1"
        "same_input (advance 1 b) b1" "inside b1" "offset b + 1 \<le> offset b1"
        "depth b1 = depth b" "offset b1 < buf_length b"
      using Suc.prems(2) by (simp_all add: skipped_def)
    have sb1: "same_input b b1" using b1(2) by (simp add: same_input_def)
    have "item_result (ip zero_item b1 m1) zero_item b1 m1"
      using b1 Suc.prems sb1 no_final_comma_same [OF sb1]
      by (intro item_ok) (auto simp: same_input_def)
    then obtain ok it' b2 m2 where p: "ip zero_item b1 m1 = Ret (ok, it', b2, m2)"
        "parsed b1 1 m1 ok (blocks it') b2 m2" by (auto simp: item_result_def)
    have sb2: "same_input b b2" using p(2) sb1 by (auto simp: parsed_def same_input_def)
    show ?thesis
    proof (cases ok)
      case False
      with x 2 b1(1) p sb2 show ?thesis by (auto simp: parsed_def)
    next
      case True
      with p(2) have i2: "inside b2" "offset b1 < offset b2" "depth b2 = depth b1"
        by (auto simp: parsed_def)
      from skip_whitespace_spec [OF i2(1)] obtain b3 where
        b3: "buffer_skip_whitespace b2 = Ret b3" "same_input b2 b3"
          "inside b3" "offset b2 \<le> offset b3" "depth b3 = depth b2"
        by (auto simp: skipped_def)
      have sb3: "same_input b b3" using b3(2) sb2 by (auto simp: same_input_def)
      let ?items = "items @ [it']"
      have bal: "live m2 - owned_by ?items = live m - owned_by items" "fails m2 = fails m"
        using p(2) 2 by (auto simp: parsed_def)
      have off: "offset b < offset b3" using b1(4) i2(2) b3(4) by simp
      show ?thesis
      proof (cases "offset b3 < buf_length b3 \<and> content b3 ! offset b3 = CHR '',''")
        case False
        with x 2 b1(1) p(1) True b3(1,3) at_char_eq [OF b3(3)] have
          "array_loop ip (Suc k) items b m = Ret (True, ?items, b3, m2)" by auto
        moreover have "parsed b (owned_by items) m True (owned_by ?items) b3 m2"
          using bal sb3 b3(3,5) off i2(3) b1(5) by (auto simp: parsed_def)
        ultimately show ?thesis by blast
      next
        case comma: True
        have eq: "array_loop ip (Suc k) items b m = array_loop ip k ?items b3 m2"
          using x 2 b1(1) p(1) True b3(1,3) at_char_eq [OF b3(3)] comma by simp
        have nf: "no_final_comma b3" using Suc.prems(3) no_final_comma_same [OF sb3] by simp
        have "offset b3 + 1 < buf_length b3"
        proof (rule ccontr)
          assume "\<not> ?thesis"
          with comma have "offset b3 = buf_length b3 - 1" "0 < buf_length b3" by auto
          with comma nf show False by (simp add: no_final_comma_def)
        qed
        moreover have "depth b3 \<le> NESTING_LIMIT" "NESTING_LIMIT < depth b3 + n"
            "buf_length b3 \<le> offset b3 + k"
          using Suc.prems(4,5,6) b3(5) i2(3) b1(5) sb3 off by (auto simp: same_input_def)
        ultimately obtain ok' items' b' m' where
          r: "array_loop ip k ?items b3 m2 = Ret (ok', items', b', m')"
             "parsed b3 (owned_by ?items) m2 ok' (owned_by items') b' m'"
          using Suc.IH [OF b3(3) _ nf] by blast
        have "parsed b (owned_by items) m ok' (owned_by items') b' m'"
          using r(2) bal sb3 off b3(5) i2(3) b1(5) by (auto simp: parsed_def same_input_def)
        with r(1) eq show ?thesis by auto
      qed
    qed
  qed
qed

end

lemma object_loop_eq: "object_loop pv k = array_loop (parse_member pv) k"
proof (induction k)
  case 0
  show ?case by (intro ext) simp
next
  case (Suc k)
  show ?case by (intro ext) (unfold object_loop.simps array_loop.simps Suc, rule refl)
qed

locale value_parser_ok =
  fixes pv :: value_parser and n :: nat
  assumes value_ok: "\<lbrakk>inside b; no_final_comma b;
    depth b \<le> NESTING_LIMIT; NESTING_LIMIT < depth b + n; fresh it\<rbrakk> \<Longrightarrow>
    item_result (pv it b m) it b m"
begin

sublocale elem: item_parser pv n
  by unfold_locales (simp add: value_ok)

lemma member_ok:
  assumes "inside b" and "offset b < buf_length b" and "no_final_comma b"
    and "depth b \<le> NESTING_LIMIT" and "NESTING_LIMIT < depth b + n"
  shows "item_result (parse_member pv zero_item b m) zero_item b m"
proof -
  from assms(1,2) have "offset b < length (content b)" by (simp add: inside_def)
  from parse_string_spec [OF assms(1) this, of zero_item m] obtain ok it1 b2 m2 where
    ps: "parse_string zero_item b m = Ret (ok, it1, b2, m2)" "same_input b b2"
      "ok \<Longrightarrow> inside b2 \<and> offset b < offset b2" "depth b2 = depth b" "fails m2 = fails m"
      "live m2 = live m + (if ok then 1 else 0)" "\<not> ok \<Longrightarrow> it1 = zero_item"
      "ok \<Longrightarrow> (\<exists>s. it1 = set_ty cJSON_String (set_valuestring (Some s) zero_item))" by metis
  show ?thesis
  proof (cases ok)
    case False
    with ps show ?thesis by (auto simp: item_result_def parsed_def parse_member_def)
  next
    case True
    with ps(3,8) obtain s where i2: "inside b2" "offset b < offset b2"
      and it1: "it1 = set_ty cJSON_String (set_valuestring (Some s) zero_item)" by auto
    from skip_whitespace_spec [OF i2(1)] obtain b3 where
      b3: "buffer_skip_whitespace b2 = Ret b3" "same_input b2 b3"
        "inside b3" "offset b2 \<le> offset b3" "depth b3 = depth b2"
      by (auto simp: skipped_def)
    have sb3: "same_input b b3" using b3(2) ps(2) by (auto simp: same_input_def)
    let ?it2 = "set_valuestring None (set_name (Some s) it1)"
    have it2: "fresh ?it2" "blocks ?it2 = 2" using it1
      by (simp_all add: fresh_def blocks_eq zero_item_def)
    show ?thesis
    proof (cases "offset b3 < buf_length b3 \<and> content b3 ! offset b3 = CHR '':''")
      case False
      with ps(1) True b3 at_char_eq [OF b3(3), of "CHR '':''"] it1
      have "parse_member pv zero_item b m = Ret (False, ?it2, b3, m2)"
        by (auto simp: parse_member_def Let_def)
      then show ?thesis using it2 ps(5,6) True sb3 by (auto simp: item_result_def parsed_def)
    next
      case colon: True
      then have "inside (advance 1 b3)" using b3(3) by (auto simp: inside_def)
      from skip_whitespace_spec [OF this] obtain b4 where
        b4: "buffer_skip_whitespace (advance 1 b3) = Ret b4" "same_input (advance 1 b3) b4"
          "inside b4" "offset b3 + 1 \<le> offset b4" "depth b4 = depth b3"
        by (auto simp: skipped_def)
      have sb4: "same_input b b4" using b4(2) sb3 by (auto simp: same_input_def)
      have eq: "parse_member pv zero_item b m = pv ?it2 b4 m2"
        using ps(1) True b3(1) at_char_eq [OF b3(3)] colon b4(1) it1
        by (simp add: parse_member_def Let_def)
      have "item_result (pv ?it2 b4 m2) ?it2 b4 m2"
        using value_ok [OF b4(3) _ _ _ it2(1)] no_final_comma_same [OF sb4] assms(3,4,5)
          b4(5) b3(5) ps(4) by simp
      then show ?thesis using eq it2(2) ps(4,5,6) True i2(2) b3(4,5) b4(4,5) sb4
        by (fastforce simp: item_result_def parsed_def same_input_def)
    qed
  qed
qed

sublocale member: item_parser "parse_member pv" n
  by unfold_locales (rule member_ok)

lemma close_result:
  assumes "inside b" and "fresh it" and "\<not> is_reference t" "\<not> string_is_const t"
    and "parsed (deeper b) 0 m ok (owned_by items) b2 m2"
  shows "item_result
    (if \<not> ok then Ret (False, it, b2, cJSON_Delete items m2)
     else bnd (at_char b2 c) (\<lambda>closed.
       if \<not> closed then Ret (False, it, b2, cJSON_Delete items m2)
       else Ret (True, set_child items (set_ty t it), advance 1 (shallower b2), m2))) it b m"
proof (cases ok)
  case False
  with assms show ?thesis by (auto simp: item_result_def parsed_def same_input_def)
next
  case True
  with assms(5) have "inside b2" by (simp add: parsed_def)
  with True assms show ?thesis
    by (auto simp: item_result_def parsed_def same_input_def inside_def at_char_eq blocks_eq
        fresh_def)
qed

text \<open>The body of an array after the bracket: the two ways it starts, then the loop.\<close>

lemma array_ok:
  assumes "inside b" and "offset b < buf_length b" and "no_final_comma b"
    and "depth b \<le> NESTING_LIMIT" and "NESTING_LIMIT < depth b + Suc n" and "fresh it"
  shows "item_result (parse_array pv it b m) it b m"
proof (cases "NESTING_LIMIT \<le> depth b \<or> content b ! offset b \<noteq> CHR ''[''")
  case True
  with assms show ?thesis
    by (auto simp: parse_array_def item_result_def parsed_def same_input_def deeper_def
        buffer_at_offset_def inside_def)
next
  case False
  have c: "buffer_at_offset (deeper b) 0 = Ret CHR ''[''"
    using False assms(1,2) by (simp add: buffer_at_offset_def deeper_def inside_def)
  have "inside (advance 1 (deeper b))" using assms(1,2) by (auto simp: inside_def deeper_def)
  from skip_whitespace_spec [OF this] obtain b1 where
    b1: "buffer_skip_whitespace (advance 1 (deeper b)) = Ret b1" "inside b1"
      "same_input b b1" "offset b + 1 \<le> offset b1" "depth b1 = depth b + 1"
    by (auto simp: skipped_def deeper_def same_input_def)
  have nf: "no_final_comma b1" using assms(3) no_final_comma_same [OF b1(3)] by simp
  show ?thesis
  proof (cases "offset b1 < buf_length b1 \<and> content b1 ! offset b1 \<noteq> CHR '']''")
    case stop: False
    then show ?thesis using False c b1 assms(6)
      by (auto simp: parse_array_def at_char_eq can_access_at_index_def item_result_def parsed_def
          same_input_def inside_def shallower_def step_back_def blocks_eq fresh_def)
  next
    case go: True
    let ?b = "step_back b1"
    have "inside ?b" "offset ?b + 1 < buf_length ?b" "no_final_comma ?b"
      "depth ?b \<le> NESTING_LIMIT" "NESTING_LIMIT < depth ?b + n"
      "buf_length ?b \<le> offset ?b + buf_length b"
      using go b1 nf False assms(5)
      by (auto simp: step_back_def inside_def no_final_comma_def same_input_def)
    from elem.array_loop_ok [OF this, of "[]" m] obtain ok items b2 m2 where
      l: "array_loop pv (buf_length b) [] ?b m = Ret (ok, items, b2, m2)"
        "parsed ?b 0 m ok (owned_by items) b2 m2" by auto
    have p: "parsed (deeper b) 0 m ok (owned_by items) b2 m2"
      using l(2) b1 by (auto simp: parsed_def same_input_def step_back_def deeper_def)
    have "parse_array pv it b m =
      (if \<not> ok then Ret (False, it, b2, cJSON_Delete items m2)
       else bnd (at_char b2 CHR '']'') (\<lambda>closed.
         if \<not> closed then Ret (False, it, b2, cJSON_Delete items m2)
         else Ret (True, set_child items (set_ty cJSON_Array it), advance 1 (shallower b2), m2)))"
      using False c b1(1,2,3) go l(1)
      by (simp add: parse_array_def at_char_eq can_access_at_index_def same_input_def)
    with close_result [OF assms(1,6) _ _ p] show ?thesis by simp
  qed
qed

lemma object_ok:
  assumes "inside b" and "offset b < buf_length b" and "no_final_comma b"
    and "depth b \<le> NESTING_LIMIT" and "NESTING_LIMIT < depth b + Suc n" and "fresh it"
  shows "item_result (parse_object pv it b m) it b m"
proof (cases "NESTING_LIMIT \<le> depth b \<or> content b ! offset b \<noteq> CHR ''{''")
  case True
  with assms show ?thesis
    by (auto simp: parse_object_def item_result_def parsed_def same_input_def deeper_def
        at_char_def can_access_at_index_def buffer_at_offset_def inside_def)
next
  case False
  have c: "at_char (deeper b) CHR ''{'' = Ret True"
    using False assms(1,2)
    by (simp add: at_char_def can_access_at_index_def buffer_at_offset_def deeper_def inside_def)
  have "inside (advance 1 (deeper b))" using assms(1,2) by (auto simp: inside_def deeper_def)
  from skip_whitespace_spec [OF this] obtain b1 where
    b1: "buffer_skip_whitespace (advance 1 (deeper b)) = Ret b1" "inside b1"
      "same_input b b1" "offset b + 1 \<le> offset b1" "depth b1 = depth b + 1"
    by (auto simp: skipped_def deeper_def same_input_def)
  have nf: "no_final_comma b1" using assms(3) no_final_comma_same [OF b1(3)] by simp
  show ?thesis
  proof (cases "offset b1 < buf_length b1 \<and> content b1 ! offset b1 \<noteq> CHR ''}''")
    case stop: False
    then show ?thesis using False c b1 assms(6)
      by (auto simp: parse_object_def at_char_eq can_access_at_index_def item_result_def parsed_def
          same_input_def inside_def shallower_def step_back_def blocks_eq fresh_def)
  next
    case go: True
    let ?b = "step_back b1"
    have "inside ?b" "offset ?b + 1 < buf_length ?b" "no_final_comma ?b"
      "depth ?b \<le> NESTING_LIMIT" "NESTING_LIMIT < depth ?b + n"
      "buf_length ?b \<le> offset ?b + buf_length b"
      using go b1 nf False assms(5)
      by (auto simp: step_back_def inside_def no_final_comma_def same_input_def)
    from member.array_loop_ok [OF this, of "[]" m] obtain ok items b2 m2 where
      l: "object_loop pv (buf_length b) [] ?b m = Ret (ok, items, b2, m2)"
        "parsed ?b 0 m ok (owned_by items) b2 m2" by (auto simp: object_loop_eq)
    have p: "parsed (deeper b) 0 m ok (owned_by items) b2 m2"
      using l(2) b1 by (auto simp: parsed_def same_input_def step_back_def deeper_def)
    have "parse_object pv it b m =
      (if \<not> ok then Ret (False, it, b2, cJSON_Delete items m2)
       else bnd (at_char b2 CHR ''}'') (\<lambda>closed.
         if \<not> closed then Ret (False, it, b2, cJSON_Delete items m2)
         else Ret (True, set_child items (set_ty cJSON_Object it), advance 1 (shallower b2), m2)))"
      using False c b1(1,2,3) go l(1)
      by (simp add: parse_object_def at_char_eq can_access_at_index_def same_input_def)
    with close_result [OF assms(1,6) _ _ p] show ?thesis by simp
  qed
qed

lemma value_body_ok:
  assumes "inside b" and "no_final_comma b" and "depth b \<le> NESTING_LIMIT"
    and "NESTING_LIMIT < depth b + Suc n" and "fresh it"
  shows "item_result (value_body pv it b m) it b m"
proof (cases "offset b < buf_length b")
  case False
  with assms(1) show ?thesis
    by (auto simp: value_body_def looking_at_def can_read_def can_access_at_index_def
        item_result_def parsed_def)
next
  case True
  with assms(1) have c: "buffer_at_offset b 0 = Ret (content b ! offset b)"
    and len: "offset b < length (content b)"
    by (simp_all add: buffer_at_offset_def inside_def)
  consider (keyword) "\<exists>lit \<in> {''null'', ''false'', ''true''}. looking_at b lit = Ret True"
    | (other) "looking_at b ''null'' = Ret False" "looking_at b ''false'' = Ret False"
        "looking_at b ''true'' = Ret False"
    using looking_at_eq [OF assms(1)] by auto
  then show ?thesis
  proof cases
    case keyword
    then show ?thesis using assms(1,5) looking_at_eq [OF assms(1)]
      by (auto simp: value_body_def item_result_def parsed_def inside_def fresh_def same_input_def
          blocks_eq)
  next
    case other
    let ?c = "content b ! offset b"
    have body: "value_body pv it b m =
       (if ?c = CHR 0x22 then parse_string it b m
        else if ?c = CHR ''-'' \<or> is_digit ?c then
          bnd (parse_number it b) (\<lambda>(ok, it', b'). Ret (ok, it', b', m))
        else if ?c = CHR ''['' then parse_array pv it b m
        else if ?c = CHR ''{'' then parse_object pv it b m
        else Ret (False, it, b, m))"
      using other True c by (simp add: value_body_def can_access_at_index_def)
    have str: "item_result (parse_string it b m) it b m"
    proof -
      from parse_string_spec [OF assms(1) len, of it m] obtain ok it' b' m' where
        "parse_string it b m = Ret (ok, it', b', m')" "same_input b b'"
        "ok \<Longrightarrow> inside b' \<and> offset b < offset b'" "depth b' = depth b" "fails m' = fails m"
        "live m' = live m + (if ok then 1 else 0)" "\<not> ok \<Longrightarrow> it' = it"
        "ok \<Longrightarrow> (\<exists>s. it' = set_ty cJSON_String (set_valuestring (Some s) it))" by metis
      then show ?thesis using assms(5)
        by (cases ok) (auto simp: item_result_def parsed_def blocks_eq fresh_def)
    qed
    have num: "item_result (bnd (parse_number it b) (\<lambda>(ok, it', b'). Ret (ok, it', b', m))) it b m"
    proof -
      from parse_number_spec [OF assms(1), of it] obtain ok it' b' where
        "parse_number it b = Ret (ok, it', b')" "same_input b b'" "inside b'"
        "ok \<Longrightarrow> offset b < offset b'" "depth b' = depth b"
        "blocks it' = blocks (if ok then set_ty cJSON_Number it else it)" by metis
      then show ?thesis using assms(5)
        by (cases ok) (auto simp: item_result_def parsed_def blocks_eq fresh_def)
    qed
    show ?thesis unfolding body
      using str num array_ok [OF assms(1) True assms(2-5)] object_ok [OF assms(1) True assms(2-5)]
      by (auto simp: item_result_def [of "Ret (False, it, b, m)"] parsed_def)
  qed
qed

end

section \<open>The whole parser\<close>

lemma value_parser_ok_parse_value: "value_parser_ok (parse_value n) n"
proof (induction n)
  case 0
  show ?case by unfold_locales simp
next
  case (Suc n)
  then show ?case
    by unfold_locales (simp add: value_parser_ok.value_body_ok [OF Suc.IH])
qed

interpretation pv: value_parser_ok "parse_value parse_fuel" parse_fuel
  by (rule value_parser_ok_parse_value)

definition outcome_ok :: "nat \<Rightarrow> amem \<Rightarrow> parse_result \<Rightarrow> bool" where
  "outcome_ok n m r \<longleftrightarrow> fails (mem_after r) = fails m \<and>
     live (mem_after r) = live m + (case root r of None \<Rightarrow> 0 | Some it \<Rightarrow> blocks it) \<and>
     (\<exists>p. parse_end r = Some p \<and> p \<le> n \<and> (root r = None \<longrightarrow> global_error r = Some p \<and> (0 < n \<longrightarrow> p < n)))"

lemma length_BOM: "length UTF8_BOM = 3"
  by (simp add: UTF8_BOM_def)

lemma parse_fail_ok:
  assumes "buf_length b = n" and "fails m' = fails m"
    and "live m' = live m + owned_by items"
  shows "outcome_ok n m (parse_fail b items m')"
  using assms by (simp add: outcome_ok_def parse_fail_def Let_def)

lemma ParseWithLengthOpts_outcome:
  assumes "n \<le> length s" and "0 < n \<longrightarrow> s ! (n - 1) \<noteq> CHR '',''"
  shows "\<exists>r. cJSON_ParseWithLengthOpts (Some s) n rnt m = Ret r \<and> outcome_ok n m r"
proof (cases "n = 0")
  case True
  then show ?thesis
    by (auto simp: cJSON_ParseWithLengthOpts_def intro!: parse_fail_ok)
next
  case False
  let ?b = "\<lparr>content = s, buf_length = n, offset = 0, depth = 0\<rparr>"
  obtain x m1 where x: "init_item m = (x, m1)" by (cases "init_item m")
  then show ?thesis
  proof (cases rule: init_item_cases)
    case 1
    with x False show ?thesis
      by (auto simp: cJSON_ParseWithLengthOpts_def intro!: parse_fail_ok)
  next
    case 2
    have "\<exists>b0. skip_utf8_bom ?b = Ret (Some b0) \<and> inside b0 \<and> same_input ?b b0 \<and> depth b0 = 0"
      using assms(1) False
      by (auto simp: skip_utf8_bom_def can_access_at_index_def inside_def same_input_def
          strncmp_eq_ret [of 0 UTF8_BOM] length_BOM)
    then obtain b0 where b0: "skip_utf8_bom ?b = Ret (Some b0)" "inside b0" "same_input ?b b0"
      "depth b0 = 0" by blast
    from skip_whitespace_spec [OF b0(2)] obtain b1 where
      b1: "buffer_skip_whitespace b0 = Ret b1" "inside b1" "same_input ?b b1" "depth b1 = 0"
      using b0(3,4) by (auto simp: skipped_def same_input_def)
    have "no_final_comma b1" using assms b1(3) by (auto simp: no_final_comma_def same_input_def)
    with b1 have "item_result (parse_value parse_fuel zero_item b1 m1) zero_item b1 m1"
      by (intro pv.value_ok) (simp_all add: parse_fuel_def)
    then obtain ok it1 b2 m2 where p: "parse_value parse_fuel zero_item b1 m1 = Ret (ok, it1, b2, m2)"
        "parsed b1 1 m1 ok (blocks it1) b2 m2"
      by (auto simp: item_result_def)
    have m2: "buf_length b2 = n" "fails m2 = fails m" "live m2 = live m + blocks it1"
      using p(2) 2 b1(3) by (auto simp: parsed_def same_input_def)
    show ?thesis
    proof (cases ok)
      case False: False
      with x 2 \<open>n \<noteq> 0\<close> b0(1) b1(1) p(1) m2 show ?thesis
        by (auto simp: cJSON_ParseWithLengthOpts_def intro!: parse_fail_ok)
    next
      case True
      with p(2) have i2: "inside b2" by (simp add: parsed_def)
      from skip_whitespace_spec [OF i2] obtain b3 where
        b3: "buffer_skip_whitespace b2 = Ret b3" "inside b3" "buf_length b3 = n"
        using m2(1) by (auto simp: skipped_def same_input_def)
      show ?thesis
      proof (cases "rnt \<and> \<not> (offset b3 < n \<and> content b3 ! offset b3 = NUL)")
        case bad: True
        with x 2 \<open>n \<noteq> 0\<close> b0(1) b1(1) p(1) True m2 b3 at_char_eq [OF b3(2)] show ?thesis
          by (auto simp: cJSON_ParseWithLengthOpts_def intro!: parse_fail_ok)
      next
        case good: False
        with x 2 \<open>n \<noteq> 0\<close> b0(1) b1(1) p(1) True m2 b3 at_char_eq [OF b3(2)] i2 show ?thesis
          by (cases rnt) (auto simp: cJSON_ParseWithLengthOpts_def outcome_ok_def inside_def)
      qed
    qed
  qed
qed

section \<open>Properties of the entry points\<close>

text \<open>C5: cJSON_Parse returns on every C string and for every behaviour of the allocator: no
  read or write leaves an object, the loops end and the recursion stays within the nesting limit.
  When it fails it has freed every block it allocated and the reported error position lies in
  the string; when it succeeds the blocks still allocated are those of the tree it returns.\<close>

theorem Parse_safe:
  "\<exists>r. cJSON_Parse (Some s) m = Ret (Some r) \<and> outcome_ok (Suc (length s)) m r"
proof -
  from ParseWithLengthOpts_outcome [of "Suc (length s)" "s @ [NUL]" False m] obtain r where
    "cJSON_ParseWithLengthOpts (Some (s @ [NUL])) (Suc (length s)) False m = Ret r"
    "outcome_ok (Suc (length s)) m r" by auto
  then show ?thesis by (simp add: cJSON_Parse_def cJSON_ParseWithOpts_def)
qed

text \<open>C27: the same for cJSON_ParseWithLength on any bytes, provided the given length does not
  exceed the object and the last of those bytes is not a comma.\<close>

theorem ParseWithLength_safe:
  assumes "n \<le> length s" and "n = 0 \<or> s ! (n - 1) \<noteq> CHR '',''"
  shows "\<exists>r. cJSON_ParseWithLength (Some s) n m = Ret r \<and> outcome_ok n m r"
  using ParseWithLengthOpts_outcome [of n s False m] assms
  by (auto simp: cJSON_ParseWithLength_def)

theorem ParseWithLength_safe_witness:
  "\<forall>m. \<exists>r. cJSON_ParseWithLength (Some ''[1,2]'') 5 m = Ret r \<and> outcome_ok 5 m r"
  by (intro allI ParseWithLength_safe) simp_all

end
