(* ===== verification/CJson_Print.thy ===== *)
theory CJson_Print
  imports CJson_Node
begin

text \<open>
  The printer of the JSON library (deps/cjson/cJSON.c, from printbuffer to print_object, with the
  four entry points). The output buffer is a list of bytes that may be uninitialised; a put
  outside it, and a read outside it or of an uninitialised byte, is undefined. The pure function
  \<open>render\<close> says what text an item has; the lemmas show that the buffer code produces it.
\<close>

section \<open>The output buffer\<close>

text \<open>\<open>pb_realloc\<close> says whether the hooks have a reallocate function. The buffer is \<open>None\<close> once a
  failed growth has freed it.\<close>

record printbuffer =
  pb_buffer :: "char option list option"
  pb_length :: nat
  pb_offset :: nat
  pb_depth :: nat
  pb_noalloc :: bool
  pb_format :: bool
  pb_realloc :: bool

text \<open>A request for a block of another size: a refused one leaves the old block.\<close>

definition realloc :: "amem \<Rightarrow> bool \<times> amem" where
  "realloc m = (\<not> fails m (calls m), m\<lparr>calls := Suc (calls m)\<rparr>)"

definition int_max :: nat where
  "int_max = 2147483647"

definition fresh_bytes :: "nat \<Rightarrow> char option list" where
  "fresh_bytes n = replicate n None"

text \<open>The two ways to grow the buffer to \<open>newsize\<close> bytes.\<close>

definition grow :: "nat \<Rightarrow> char option list \<Rightarrow> printbuffer \<Rightarrow> amem \<Rightarrow> (bool \<times> printbuffer \<times> amem) run" where
  "grow newsize bs p m =
     (if pb_realloc p then
        (let (ok, m1) = realloc m in
         if ok then Ret (True, p\<lparr>pb_buffer := Some (take newsize bs @ fresh_bytes (newsize - length bs)),
                                 pb_length := newsize\<rparr>, m1)
         else Ret (False, p\<lparr>pb_length := 0, pb_buffer := None\<rparr>, dealloc m1))
      else
        (let (ok, m1) = alloc m in
         if \<not> ok then Ret (False, p\<lparr>pb_length := 0, pb_buffer := None\<rparr>, dealloc m1)
         else if length bs < pb_offset p + 1 \<or> newsize < pb_offset p + 1 then Undef
         else Ret (True, p\<lparr>pb_buffer := Some (take (pb_offset p + 1) bs @ fresh_bytes (newsize - (pb_offset p + 1))),
                           pb_length := newsize\<rparr>, dealloc m1)))"

text \<open>The result says whether the pointer returned is not null; it is then \<open>buffer + offset\<close>. The
  sizes stay below INT_MAX, so the additions do not wrap.\<close>

definition ensure :: "nat \<Rightarrow> printbuffer \<Rightarrow> amem \<Rightarrow> (bool \<times> printbuffer \<times> amem) run" where
  "ensure n p m = (case pb_buffer p of None \<Rightarrow> Ret (False, p, m)
     | Some bs \<Rightarrow>
       if 0 < pb_length p \<and> pb_length p \<le> pb_offset p then Ret (False, p, m)
       else if int_max < n then Ret (False, p, m)
       else let needed = n + (pb_offset p + 1) in
         if needed \<le> pb_length p then Ret (True, p, m)
         else if pb_noalloc p then Ret (False, p, m)
         else if int_max div 2 < needed then
           (if needed \<le> int_max then grow int_max bs p m else Ret (False, p, m))
         else grow (needed * 2) bs p m)"

text \<open>Stores of bytes at a position of the buffer.\<close>

definition put :: "nat \<Rightarrow> string \<Rightarrow> printbuffer \<Rightarrow> printbuffer run" where
  "put i cs p = (case pb_buffer p of None \<Rightarrow> Undef
     | Some bs \<Rightarrow> if i + length cs \<le> length bs
         then Ret (p\<lparr>pb_buffer := Some (take i bs @ map Some cs @ drop (i + length cs) bs)\<rparr>)
         else Undef)"

definition skip :: "nat \<Rightarrow> printbuffer \<Rightarrow> printbuffer" where
  "skip n p = p\<lparr>pb_offset := pb_offset p + n\<rparr>"

fun str_len :: "char option list \<Rightarrow> nat run" where
  "str_len [] = Undef"
| "str_len (None # bs) = Undef"
| "str_len (Some c # bs) = (if c = NUL then Ret 0 else bnd (str_len bs) (\<lambda>k. Ret (Suc k)))"

definition update_offset :: "printbuffer \<Rightarrow> printbuffer run" where
  "update_offset p = (case pb_buffer p of None \<Rightarrow> Ret p
     | Some bs \<Rightarrow> bnd (str_len (drop (pb_offset p) bs)) (\<lambda>k. Ret (skip k p)))"

text \<open>The pattern of the printer: reserve \<open>n\<close> bytes, give up if there is no room, store a text
  at the offset, and move the offset by \<open>k\<close>.\<close>

definition put_text :: "nat \<Rightarrow> string \<Rightarrow> nat \<Rightarrow> printbuffer \<Rightarrow> amem \<Rightarrow> (bool \<times> printbuffer \<times> amem) run" where
  "put_text n cs k p m = bnd (ensure n p m) (\<lambda>(ok, p1, m1).
     if \<not> ok then Ret (False, p1, m1)
     else bnd (put (pb_offset p1) cs p1) (\<lambda>p2. Ret (True, skip k p2, m1)))"

text \<open>Steps in sequence; the first that fails ends the function.\<close>

definition andthen :: "(bool \<times> printbuffer \<times> amem) run \<Rightarrow>
    (printbuffer \<Rightarrow> amem \<Rightarrow> (bool \<times> printbuffer \<times> amem) run) \<Rightarrow> (bool \<times> printbuffer \<times> amem) run" where
  "andthen r f = bnd r (\<lambda>(ok, p, m). if ok then f p m else Ret (False, p, m))"

definition settle :: "printbuffer \<Rightarrow> amem \<Rightarrow> (bool \<times> printbuffer \<times> amem) run" where
  "settle p m = bnd (update_offset p) (\<lambda>p1. Ret (True, p1, m))"

definition nested :: "printbuffer \<Rightarrow> printbuffer" where
  "nested p = p\<lparr>pb_depth := pb_depth p + 1\<rparr>"

definition unnested :: "printbuffer \<Rightarrow> printbuffer" where
  "unnested p = p\<lparr>pb_depth := pb_depth p - 1\<rparr>"

section \<open>Numbers\<close>

definition compare_double :: "dbl \<Rightarrow> dbl \<Rightarrow> bool" where
  "compare_double a b =
     (let maxVal = (if dlt (dabs b) (dabs a) then dabs a else dabs b)
      in dle (dabs (dsub a b)) (dscale maxVal (1 / 2 ^ 52)))"

text \<open>The text sprintf leaves in the number buffer. In the C locale the decimal point is a dot, so
  the copy into the output changes nothing.\<close>

definition number_text :: "dbl \<Rightarrow> int \<Rightarrow> string" where
  "number_text d i =
     (if is_nan d \<or> is_inf d then ''null''
      else if deq d (dbl_of_int i) then print_int i
      else let t15 = print_g 15 d; (test, used) = strtod t15 in
        if used = 0 \<or> \<not> compare_double test d then print_g 17 d else t15)"

definition print_number :: "cjson \<Rightarrow> printbuffer \<Rightarrow> amem \<Rightarrow> (bool \<times> printbuffer \<times> amem) run" where
  "print_number item p m =
     (let t = number_text (valuedouble item) (valueint item) in
      if 25 < length t then Ret (False, p, m)
      else put_text (length t + 1) (t @ [NUL]) (length t) p m)"

section \<open>Strings\<close>

definition short_escapes :: "(char \<times> char) list" where
  "short_escapes = [(CHR 0x22, CHR 0x22), (CHR 0x5C, CHR 0x5C), (CHR 0x08, CHR ''b''),
     (CHR 0x0C, CHR ''f''), (CHR 0x0A, CHR ''n''), (CHR 0x0D, CHR ''r''), (CHR 0x09, CHR ''t'')]"

text \<open>The number of bytes the escape of a character adds.\<close>

definition escape_extra :: "char \<Rightarrow> nat" where
  "escape_extra c = (if map_of short_escapes c \<noteq> None then 1
     else if (of_char c :: nat) < 32 then 5 else 0)"

definition escape_characters :: "string \<Rightarrow> nat" where
  "escape_characters s = sum_list (map escape_extra s)"

text \<open>The conversion 04x of a byte.\<close>

definition hex4_text :: "char \<Rightarrow> string" where
  "hex4_text c = [CHR ''0'', CHR ''0'', hex_char (of_char c div 16), hex_char (of_char c mod 16)]"

text \<open>The copying loop. sprintf also stores a null byte, which the next byte overwrites.\<close>

fun copy_escaped :: "nat \<Rightarrow> string \<Rightarrow> printbuffer \<Rightarrow> printbuffer run" where
  "copy_escaped i [] p = Ret p"
| "copy_escaped i (c # cs) p =
     (if (31::nat) < of_char c \<and> c \<noteq> CHR 0x22 \<and> c \<noteq> CHR 0x5C then
        bnd (put i [c] p) (copy_escaped (i + 1) cs)
      else bnd (put i [CHR 0x5C] p) (\<lambda>p1.
        case map_of short_escapes c of
          Some e \<Rightarrow> bnd (put (i + 1) [e] p1) (copy_escaped (i + 2) cs)
        | None \<Rightarrow> bnd (put (i + 1) (CHR ''u'' # hex4_text c @ [NUL]) p1) (copy_escaped (i + 6) cs)))"

definition print_string_ptr :: "string option \<Rightarrow> printbuffer \<Rightarrow> amem \<Rightarrow> (bool \<times> printbuffer \<times> amem) run" where
  "print_string_ptr input p m = (case input of
     None \<Rightarrow> put_text 3 [CHR 0x22, CHR 0x22, NUL] 0 p m
   | Some s \<Rightarrow>
     let output_length = length s + escape_characters s in
     bnd (ensure (output_length + 3) p m) (\<lambda>(ok, p1, m1).
     if \<not> ok then Ret (False, p1, m1)
     else let out = pb_offset p1 in
       if escape_characters s = 0 then
         bnd (put out (CHR 0x22 # s @ [CHR 0x22, NUL]) p1) (\<lambda>p2. Ret (True, p2, m1))
       else bnd (put out [CHR 0x22] p1) (\<lambda>p2.
         bnd (copy_escaped (out + 1) s p2) (\<lambda>p3.
         bnd (put (out + output_length + 1) [CHR 0x22, NUL] p3) (\<lambda>p4. Ret (True, p4, m1))))))"

definition print_string :: "cjson \<Rightarrow> printbuffer \<Rightarrow> amem \<Rightarrow> (bool \<times> printbuffer \<times> amem) run" where
  "print_string item p m = print_string_ptr (valuestring item) p m"

section \<open>Values\<close>

text \<open>The items that have no children.\<close>

definition print_scalar :: "cjson \<Rightarrow> printbuffer \<Rightarrow> amem \<Rightarrow> (bool \<times> printbuffer \<times> amem) run" where
  "print_scalar item p m =
     (let k = kind (ty item) in
      if k = cJSON_NULL then put_text 5 (''null'' @ [NUL]) 0 p m
      else if k = cJSON_False then put_text 6 (''false'' @ [NUL]) 0 p m
      else if k = cJSON_True then put_text 5 (''true'' @ [NUL]) 0 p m
      else if k = cJSON_Number then print_number item p m
      else if k = cJSON_Raw then
        (case valuestring item of None \<Rightarrow> Ret (False, p, m)
         | Some s \<Rightarrow> put_text (length s + 1) (s @ [NUL]) 0 p m)
      else if k = cJSON_String then print_string item p m
      else Ret (False, p, m))"

definition tabs :: "nat \<Rightarrow> string" where
  "tabs n = replicate n CHR 0x09"

text \<open>What follows an element: a comma when there is a next one, with a space in formatted output.\<close>

definition element_sep :: "bool \<Rightarrow> string" where
  "element_sep fmt = (if fmt then '', '' else '','')"

text \<open>What follows a member.\<close>

definition member_sep :: "bool \<Rightarrow> bool \<Rightarrow> string" where
  "member_sep fmt next_item = (if next_item then '','' else []) @ (if fmt then [CHR 0x0A] else [])"

fun print_value :: "cjson \<Rightarrow> printbuffer \<Rightarrow> amem \<Rightarrow> (bool \<times> printbuffer \<times> amem) run"
  and print_elements :: "cjson list \<Rightarrow> printbuffer \<Rightarrow> amem \<Rightarrow> (bool \<times> printbuffer \<times> amem) run"
  and print_members :: "cjson list \<Rightarrow> printbuffer \<Rightarrow> amem \<Rightarrow> (bool \<times> printbuffer \<times> amem) run" where
  "print_value (Item t vs vi vd nm ch) p m =
     (if kind t = cJSON_Array then
        andthen (put_text 1 ''['' 1 p m) (\<lambda>p m.
        andthen (print_elements ch (nested p) m) (\<lambda>p m.
        andthen (put_text 2 ('']'' @ [NUL]) 0 p m) (\<lambda>p m. Ret (True, unnested p, m))))
      else if kind t = cJSON_Object then
        andthen (let cs = CHR ''{'' # (if pb_format p then [CHR 0x0A] else []) in
            put_text (length cs + 1) cs (length cs) p m) (\<lambda>p m.
        andthen (print_members ch (nested p) m) (\<lambda>p m.
        andthen (put_text (if pb_format p then pb_depth p + 1 else 2)
            ((if pb_format p then tabs (pb_depth p - 1) else []) @ ''}'' @ [NUL]) 0 p m) (\<lambda>p m.
          Ret (True, unnested p, m))))
      else print_scalar (Item t vs vi vd nm ch) p m)"
| "print_elements [] p m = Ret (True, p, m)"
| "print_elements (x # xs) p m =
     andthen (print_value x p m) (\<lambda>p m.
     andthen (settle p m) (\<lambda>p m.
     andthen (if xs = [] then Ret (True, p, m)
        else let cs = element_sep (pb_format p) in put_text (length cs + 1) (cs @ [NUL]) (length cs) p m)
       (\<lambda>p m. print_elements xs p m)))"
| "print_members [] p m = Ret (True, p, m)"
| "print_members (x # xs) p m =
     andthen (if pb_format p then put_text (pb_depth p) (tabs (pb_depth p)) (pb_depth p) p m
              else Ret (True, p, m)) (\<lambda>p m.
     andthen (print_string_ptr (name x) p m) (\<lambda>p m.
     andthen (settle p m) (\<lambda>p m.
     andthen (let cs = CHR '':'' # (if pb_format p then [CHR 0x09] else []) in
        put_text (length cs) cs (length cs) p m) (\<lambda>p m.
     andthen (print_value x p m) (\<lambda>p m.
     andthen (settle p m) (\<lambda>p m.
     andthen (let cs = member_sep (pb_format p) (xs \<noteq> []) in
        put_text (length cs + 1) (cs @ [NUL]) (length cs) p m) (\<lambda>p m.
     print_members xs p m)))))))"

section \<open>Entry points\<close>

text \<open>The item may be a null pointer. \<open>print_item\<close> is print_value with that test.\<close>

definition print_item :: "cjson option \<Rightarrow> printbuffer \<Rightarrow> amem \<Rightarrow> (bool \<times> printbuffer \<times> amem) run" where
  "print_item item p m = (case item of None \<Rightarrow> Ret (False, p, m) | Some it \<Rightarrow> print_value it p m)"

definition new_buffer :: "nat \<Rightarrow> bool \<Rightarrow> bool \<Rightarrow> printbuffer" where
  "new_buffer n fmt has_realloc = \<lparr>pb_buffer = Some (fresh_bytes n), pb_length = n, pb_offset = 0,
     pb_depth = 0, pb_noalloc = False, pb_format = fmt, pb_realloc = has_realloc\<rparr>"

definition free_buffer :: "printbuffer \<Rightarrow> amem \<Rightarrow> amem" where
  "free_buffer p m = (if pb_buffer p = None then m else dealloc m)"

text \<open>The result of print and of the other functions is the string the returned pointer denotes.\<close>

fun string_of :: "char option list \<Rightarrow> string run" where
  "string_of [] = Undef"
| "string_of (None # bs) = Undef"
| "string_of (Some c # bs) = (if c = NUL then Ret [] else bnd (string_of bs) (\<lambda>s. Ret (c # s)))"

definition print :: "cjson option \<Rightarrow> bool \<Rightarrow> bool \<Rightarrow> amem \<Rightarrow> (string option \<times> amem) run" where
  "print item fmt has_realloc m =
     (let (ok, m1) = alloc m in
      if \<not> ok then Ret (None, m1)
      else bnd (print_item item (new_buffer 256 fmt has_realloc) m1) (\<lambda>(ok, p, m2).
        if \<not> ok then Ret (None, free_buffer p m2)
        else bnd (update_offset p) (\<lambda>p.
          case pb_buffer p of None \<Rightarrow> Undef
          | Some bs \<Rightarrow>
            let n = pb_offset p + 1; (ok, m3) = (if has_realloc then realloc m2 else alloc m2) in
            if \<not> ok then Ret (None, dealloc m3)
            else if has_realloc then bnd (string_of (take n bs)) (\<lambda>s. Ret (Some s, m3))
            else let k = min (pb_length p) n in
              if length bs < k then Undef
              else bnd (string_of ((take k bs @ fresh_bytes (n - k)) [n - 1 := Some NUL]))
                (\<lambda>s. Ret (Some s, dealloc m3)))))"

definition cJSON_Print :: "cjson option \<Rightarrow> bool \<Rightarrow> amem \<Rightarrow> (string option \<times> amem) run" where
  "cJSON_Print item has_realloc m = print item True has_realloc m"

definition cJSON_PrintUnformatted :: "cjson option \<Rightarrow> bool \<Rightarrow> amem \<Rightarrow> (string option \<times> amem) run" where
  "cJSON_PrintUnformatted item has_realloc m = print item False has_realloc m"

definition cJSON_PrintBuffered :: "cjson option \<Rightarrow> int \<Rightarrow> bool \<Rightarrow> bool \<Rightarrow> amem \<Rightarrow>
    (string option \<times> amem) run" where
  "cJSON_PrintBuffered item prebuffer fmt has_realloc m =
     (if prebuffer < 0 then Ret (None, m)
      else let (ok, m1) = alloc m in
        if \<not> ok then Ret (None, m1)
        else bnd (print_item item (new_buffer (nat prebuffer) fmt has_realloc) m1) (\<lambda>(ok, p, m2).
          if \<not> ok then Ret (None, free_buffer p m2)
          else case pb_buffer p of None \<Rightarrow> Undef
            | Some bs \<Rightarrow> bnd (string_of bs) (\<lambda>s. Ret (Some s, m2))))"

text \<open>The caller's buffer, \<open>None\<close> for a null pointer, and what it holds afterwards.\<close>

definition cJSON_PrintPreallocated :: "cjson option \<Rightarrow> char option list option \<Rightarrow> int \<Rightarrow> bool \<Rightarrow> amem \<Rightarrow>
    (bool \<times> char option list option \<times> amem) run" where
  "cJSON_PrintPreallocated item buf len fmt m =
     (if len < 0 \<or> buf = None then Ret (False, buf, m)
      else bnd (print_item item \<lparr>pb_buffer = buf, pb_length = nat len, pb_offset = 0, pb_depth = 0,
            pb_noalloc = True, pb_format = fmt, pb_realloc = True\<rparr> m) (\<lambda>(ok, p, m1).
        Ret (ok, pb_buffer p, m1)))"

end
