(* ===== verification/CJson_Render.thy ===== *)
theory CJson_Render
  imports CJson_Print
begin

text \<open>
  What the printer computes. \<open>render\<close> is the text of an item; the lemmas show, step by step, that
  the buffer code never leaves its buffer, writes exactly that text, balances the allocator, and
  succeeds whenever there is room.
\<close>

section \<open>The text of an item\<close>

definition cat :: "string option \<Rightarrow> string option \<Rightarrow> string option" where
  "cat a b = (case a of None \<Rightarrow> None | Some s \<Rightarrow> map_option ((@) s) b)"

definition escape_text :: "char \<Rightarrow> string" where
  "escape_text c = (case map_of short_escapes c of Some e \<Rightarrow> [CHR 0x5C, e]
     | None \<Rightarrow> if (of_char c :: nat) < 32 then CHR 0x5C # CHR ''u'' # hex4_text c else [c])"

definition escaped :: "string \<Rightarrow> string" where
  "escaped s = concat (map escape_text s)"

definition quoted :: "string option \<Rightarrow> string" where
  "quoted input = CHR 0x22 # (case input of None \<Rightarrow> [] | Some s \<Rightarrow> escaped s) @ [CHR 0x22]"

definition render_scalar :: "cjson \<Rightarrow> string option" where
  "render_scalar item =
     (let k = kind (ty item); t = number_text (valuedouble item) (valueint item) in
      if k = cJSON_NULL then Some ''null''
      else if k = cJSON_False then Some ''false''
      else if k = cJSON_True then Some ''true''
      else if k = cJSON_Number then (if 25 < length t then None else Some t)
      else if k = cJSON_Raw then valuestring item
      else if k = cJSON_String then Some (quoted (valuestring item))
      else None)"

fun render :: "bool \<Rightarrow> nat \<Rightarrow> cjson \<Rightarrow> string option"
  and render_elements :: "bool \<Rightarrow> nat \<Rightarrow> cjson list \<Rightarrow> string option"
  and render_members :: "bool \<Rightarrow> nat \<Rightarrow> cjson list \<Rightarrow> string option" where
  "render fmt d (Item t vs vi vd nm ch) =
     (if kind t = cJSON_Array then
        cat (Some ''['') (cat (render_elements fmt (Suc d) ch) (Some '']''))
      else if kind t = cJSON_Object then
        cat (Some (CHR ''{'' # (if fmt then [CHR 0x0A] else [])))
          (cat (render_members fmt (Suc d) ch) (Some ((if fmt then tabs d else []) @ ''}'')))
      else render_scalar (Item t vs vi vd nm ch))"
| "render_elements fmt d [] = Some []"
| "render_elements fmt d (x # xs) =
     cat (render fmt d x) (cat (Some (if xs = [] then [] else element_sep fmt)) (render_elements fmt d xs))"
| "render_members fmt d [] = Some []"
| "render_members fmt d (x # xs) =
     cat (Some (if fmt then tabs d else [])) (cat (Some (quoted (name x)))
       (cat (Some (CHR '':'' # (if fmt then [CHR 0x09] else [])))
       (cat (render fmt d x) (cat (Some (member_sep fmt (xs \<noteq> []))) (render_members fmt d xs)))))"

text \<open>The strings of an item and its children are C strings.\<close>

fun texts_ok :: "cjson \<Rightarrow> bool" where
  "texts_ok (Item t vs vi vd nm ch) \<longleftrightarrow> (\<forall>s \<in> set_option vs. cstring s) \<and>
     (\<forall>s \<in> set_option nm. cstring s) \<and> (\<forall>c \<in> set ch. texts_ok c)"

lemma cat_Some [simp]: "cat (Some s) (Some t) = Some (s @ t)" "cat None b = None" "cat a None = None"
  by (simp_all add: cat_def split: option.splits)

lemma cat_eq_Some: "cat a b = Some t \<longleftrightarrow> (\<exists>u v. a = Some u \<and> b = Some v \<and> t = u @ v)"
  by (cases a; cases b) auto

section \<open>Invariant and outcome of a step\<close>

definition ok_buf :: "printbuffer \<Rightarrow> bool" where
  "ok_buf p \<longleftrightarrow> (\<forall>bs. pb_buffer p = Some bs \<longrightarrow>
     (if pb_noalloc p then pb_length p \<le> length bs \<and> pb_length p \<le> int_max else length bs = pb_length p) \<and>
     (pb_offset p < pb_length p \<or>
      pb_length p = 0 \<and> pb_offset p = 0 \<and> (pb_noalloc p \<or> pb_realloc p)))"

definition same_setup :: "printbuffer \<Rightarrow> printbuffer \<Rightarrow> bool" where
  "same_setup p p' \<longleftrightarrow> pb_noalloc p' = pb_noalloc p \<and> pb_format p' = pb_format p \<and>
     pb_realloc p' = pb_realloc p \<and>
     (pb_noalloc p \<longrightarrow> pb_length p' = pb_length p \<and>
        map_option length (pb_buffer p') = map_option length (pb_buffer p) \<and>
        map_option (drop (pb_length p)) (pb_buffer p') = map_option (drop (pb_length p)) (pb_buffer p))"

text \<open>The buffer holds the old contents, then \<open>t\<close>, and the offset is behind it.\<close>

definition advanced :: "printbuffer \<Rightarrow> string \<Rightarrow> printbuffer \<Rightarrow> bool" where
  "advanced p t p' \<longleftrightarrow> (\<exists>bs bs'. pb_buffer p = Some bs \<and> pb_buffer p' = Some bs' \<and>
     pb_offset p' = pb_offset p + length t \<and> pb_offset p \<le> length bs \<and>
     take (pb_offset p') bs' = take (pb_offset p) bs @ map Some t)"

text \<open>The buffer holds the old contents, then \<open>t\<close> and a null byte, and the offset is somewhere in
  \<open>t\<close>.\<close>

definition wrote :: "printbuffer \<Rightarrow> string \<Rightarrow> printbuffer \<Rightarrow> bool" where
  "wrote p t p' \<longleftrightarrow> (\<exists>bs bs'. pb_buffer p = Some bs \<and> pb_buffer p' = Some bs' \<and>
     pb_offset p \<le> pb_offset p' \<and> pb_offset p' \<le> pb_offset p + length t \<and> pb_offset p \<le> length bs \<and>
     pb_offset p + length t < pb_length p' \<and>
     take (pb_offset p + length t + 1) bs' = take (pb_offset p) bs @ map Some (t @ [NUL]))"

definition held :: "printbuffer \<Rightarrow> int" where
  "held p = (if pb_buffer p = None then 0 else 1)"

text \<open>There is room for \<open>k\<close> more bytes: in the caller's buffer, or below INT_MAX when the buffer
  can grow and the allocator refuses nothing.\<close>

definition room :: "nat \<Rightarrow> printbuffer \<Rightarrow> amem \<Rightarrow> bool" where
  "room k p m \<longleftrightarrow> (if pb_noalloc p then pb_offset p + k \<le> pb_length p
     else pb_offset p + k \<le> int_max \<and> (\<forall>i. \<not> fails m i))"

definition outputs :: "(printbuffer \<Rightarrow> string \<Rightarrow> printbuffer \<Rightarrow> bool) \<Rightarrow> printbuffer \<Rightarrow> amem \<Rightarrow> nat \<Rightarrow>
    string option \<Rightarrow> (bool \<times> printbuffer \<times> amem) run \<Rightarrow> bool" where
  "outputs W p m d to r \<longleftrightarrow> (\<exists>ok p' m'. r = Ret (ok, p', m') \<and> ok_buf p' \<and> same_setup p p' \<and>
     live m' - held p' = live m - held p \<and> fails m' = fails m \<and>
     (ok \<longrightarrow> pb_depth p' = d \<and> (\<exists>t. to = Some t \<and> W p t p')) \<and>
     (\<forall>t. to = Some t \<and> room (length t + 2) p m \<longrightarrow> ok))"

text \<open>A buffer a step can start on.\<close>

definition ready :: "printbuffer \<Rightarrow> bool" where
  "ready p \<longleftrightarrow> ok_buf p \<and> pb_buffer p \<noteq> None"

lemma same_setup_refl [simp]: "same_setup p p"
  by (simp add: same_setup_def)

lemma same_setup_trans: "same_setup p q \<Longrightarrow> same_setup q r \<Longrightarrow> same_setup p r"
  by (auto simp: same_setup_def)

lemma advanced_trans: "advanced p t q \<Longrightarrow> advanced q u r \<Longrightarrow> advanced p (t @ u) r"
  by (auto simp: advanced_def add.assoc)

lemma advanced_wrote: "advanced p t q \<Longrightarrow> wrote q u r \<Longrightarrow> wrote p (t @ u) r"
  by (auto simp: advanced_def wrote_def add.assoc)

lemma advanced_some: "advanced p t q \<Longrightarrow> pb_buffer q \<noteq> None"
  by (auto simp: advanced_def)

lemma room_less: "room k p m \<Longrightarrow> j \<le> k \<Longrightarrow> room j p m"
  by (auto simp: room_def)

lemma room_after: "room (length t + k) p m \<Longrightarrow> advanced p t q \<Longrightarrow> same_setup p q \<Longrightarrow>
    fails m' = fails m \<Longrightarrow> room k q m'"
  by (auto simp: room_def advanced_def same_setup_def split: if_splits)

text \<open>The relations a sequence of steps composes.\<close>

definition composes :: "(printbuffer \<Rightarrow> string \<Rightarrow> printbuffer \<Rightarrow> bool) \<Rightarrow> bool" where
  "composes W \<longleftrightarrow> (\<forall>p t q u r. advanced p t q \<longrightarrow> W q u r \<longrightarrow> W p (t @ u) r)"

lemma composes_simps [simp]: "composes advanced" "composes wrote"
  using advanced_trans advanced_wrote by (auto simp: composes_def)

lemma outputs_andthen:
  assumes "composes W" and r: "outputs advanced p m d to r"
    and f: "\<And>p' m'. ready p' \<Longrightarrow> same_setup p p' \<Longrightarrow> pb_depth p' = d \<Longrightarrow>
      outputs W p' m' e u (f p' m')"
  shows "outputs W p m e (cat to u) (andthen r f)"
proof -
  from r obtain ok p' m' where r': "r = Ret (ok, p', m')" "ok_buf p'" "same_setup p p'"
      "live m' - held p' = live m - held p" "fails m' = fails m"
      "ok \<longrightarrow> pb_depth p' = d \<and> (\<exists>t. to = Some t \<and> advanced p t p')"
      "\<forall>t. to = Some t \<and> room (length t + 2) p m \<longrightarrow> ok"
    by (auto simp: outputs_def)
  show ?thesis
  proof (cases ok)
    case False
    have "\<not> (cat to u = Some t \<and> room (length t + 2) p m)" for t
    proof
      assume "cat to u = Some t \<and> room (length t + 2) p m"
      then obtain v w where "to = Some v" "t = v @ w" "room (length t + 2) p m"
        by (auto simp: cat_eq_Some)
      then have "to = Some v \<and> room (length v + 2) p m" by (auto elim: room_less)
      with r'(7) False show False by blast
    qed
    with False r' show ?thesis by (auto simp: outputs_def andthen_def)
  next
    case True
    with r'(6) obtain t where t: "to = Some t" "advanced p t p'" and d: "pb_depth p' = d" by auto
    have "ready p'" using r'(2) t(2) by (simp add: ready_def advanced_some)
    from f [OF this r'(3) d] obtain ok2 p2 m2 where s: "f p' m' = Ret (ok2, p2, m2)" "ok_buf p2"
      "same_setup p' p2" "live m2 - held p2 = live m' - held p'" "fails m2 = fails m'"
      "ok2 \<longrightarrow> pb_depth p2 = e \<and> (\<exists>t. u = Some t \<and> W p' t p2)"
      "\<forall>t. u = Some t \<and> room (length t + 2) p' m' \<longrightarrow> ok2"
      unfolding outputs_def by blast
    have "andthen r f = Ret (ok2, p2, m2)" using r'(1) True s(1) by (simp add: andthen_def)
    moreover have "same_setup p p2" using r'(3) s(3) by (rule same_setup_trans)
    moreover have "ok2 \<longrightarrow> (\<exists>t. cat to u = Some t \<and> W p t p2)"
      using s(6) t assms(1) by (auto simp: composes_def)
    moreover have "\<forall>v. cat to u = Some v \<and> room (length v + 2) p m \<longrightarrow> ok2"
    proof (intro allI impI, elim conjE)
      fix v assume v: "cat to u = Some v" "room (length v + 2) p m"
      with t obtain w where w: "u = Some w" "v = t @ w" by (auto simp: cat_eq_Some)
      with v have "room (length t + (length w + 2)) p m" by (simp add: add.assoc)
      from room_after [OF this t(2) r'(3,5)] w s(7) show ok2 by blast
    qed
    ultimately show ?thesis using s r' unfolding outputs_def by auto
  qed
qed

lemma depth_simps [simp]:
  "advanced (nested p) t q = advanced p t q" "wrote (nested p) t q = wrote p t q"
  "same_setup (nested p) q = same_setup p q" "room k (nested p) m = room k p m"
  "held (nested p) = held p" "ok_buf (nested p) = ok_buf p" "pb_depth (nested p) = Suc (pb_depth p)"
  "advanced p t (unnested q) = advanced p t q" "wrote p t (unnested q) = wrote p t q"
  "same_setup p (unnested q) = same_setup p q" "held (unnested q) = held q"
  "same_setup p (nested q) = same_setup p q" "ok_buf (unnested q) = ok_buf q" "pb_depth (unnested q) = pb_depth q - 1"
  by (simp_all add: nested_def unnested_def advanced_def wrote_def same_setup_def room_def held_def
      ok_buf_def)

lemma outputs_nested: "outputs wrote (nested p) m d to r = outputs wrote p m d to r"
    "outputs advanced (nested p) m d to r = outputs advanced p m d to r"
  by (simp_all add: outputs_def)

lemma outputs_unnested:
  assumes "outputs wrote p m (Suc d) to r"
  shows "outputs wrote p m d to (andthen r (\<lambda>p m. Ret (True, unnested p, m)))"
proof -
  from assms obtain ok p' m' where r: "r = Ret (ok, p', m')" "ok_buf p'" "same_setup p p'"
      "live m' - held p' = live m - held p" "fails m' = fails m"
      "ok \<longrightarrow> pb_depth p' = Suc d \<and> (\<exists>t. to = Some t \<and> wrote p t p')"
      "\<forall>t. to = Some t \<and> room (length t + 2) p m \<longrightarrow> ok"
    by (auto simp: outputs_def)
  then show ?thesis by (cases ok) (auto simp: outputs_def andthen_def)
qed

lemma ready_nested [simp]: "ready (nested p) = ready p"
  by (simp add: ready_def ok_buf_def nested_def)

lemma andthen_assoc: "andthen (andthen r f) g = andthen r (\<lambda>p m. andthen (f p m) g)"
  by (cases r) (auto simp: andthen_def split: prod.splits)

section \<open>The primitive steps\<close>

text \<open>What growing the buffer leaves behind.\<close>

definition resized :: "nat \<Rightarrow> printbuffer \<Rightarrow> amem \<Rightarrow> bool \<Rightarrow> printbuffer \<Rightarrow> amem \<Rightarrow> bool" where
  "resized newsize p m ok p1 m1 \<longleftrightarrow> same_setup p p1 \<and> fails m1 = fails m \<and>
    live m1 - held p1 = live m - held p \<and> pb_depth p1 = pb_depth p \<and> pb_offset p1 = pb_offset p \<and>
    ok_buf p1 \<and> (ok \<longrightarrow> pb_length p1 = newsize \<and>
      (\<exists>bs bs1. pb_buffer p = Some bs \<and> pb_buffer p1 = Some bs1 \<and>
         take (pb_offset p) bs1 = take (pb_offset p) bs)) \<and>
    ((\<forall>i. \<not> fails m i) \<longrightarrow> ok)"

lemma resized_lost: "pb_buffer p \<noteq> None \<Longrightarrow> \<not> pb_noalloc p \<Longrightarrow> fails m1 = fails m \<Longrightarrow> fails m k \<Longrightarrow>
    live m1 = live m - 1 \<Longrightarrow> resized n p m False (p\<lparr>pb_length := 0, pb_buffer := None\<rparr>) m1"
  by (auto simp: resized_def same_setup_def held_def ok_buf_def)

lemma resized_moved: "pb_buffer p = Some bs \<Longrightarrow> \<not> pb_noalloc p \<Longrightarrow> fails m1 = fails m \<Longrightarrow>
    live m1 = live m \<Longrightarrow> take (pb_offset p) bs1 = take (pb_offset p) bs \<Longrightarrow> length bs1 = n \<Longrightarrow>
    pb_offset p < n \<Longrightarrow>
    resized n p m True (p\<lparr>pb_buffer := Some bs1, pb_length := n\<rparr>) m1"
  by (simp add: resized_def same_setup_def held_def ok_buf_def)

lemma grow_outcome:
  assumes "ready p" "pb_buffer p = Some bs" "\<not> pb_noalloc p" "pb_length p \<le> newsize"
    and "pb_offset p < newsize"
  shows "\<exists>ok p1 m1. grow newsize bs p m = Ret (ok, p1, m1) \<and> resized newsize p m ok p1 m1"
proof -
  have len: "length bs = pb_length p" and off: "pb_offset p < pb_length p \<or> pb_length p = 0 \<and> pb_offset p = 0 \<and> pb_realloc p"
    using assms by (auto simp: ready_def ok_buf_def)
  have take_fresh: "take k (take n bs @ fresh_bytes j) = take k bs" if "k \<le> n" "k \<le> length bs" for k n j
    using that by (simp add: min_def)
  show ?thesis
  proof (cases "pb_realloc p")
    case True
    have "resized newsize p m True (p\<lparr>pb_buffer := Some (take newsize bs @
        fresh_bytes (newsize - length bs)), pb_length := newsize\<rparr>) (m\<lparr>calls := Suc (calls m)\<rparr>)"
      by (rule resized_moved [OF assms(2,3)])
         (use assms len off in \<open>auto intro: take_fresh simp: fresh_bytes_def\<close>)
    moreover have "fails m (calls m) \<Longrightarrow> resized newsize p m False
        (p\<lparr>pb_length := 0, pb_buffer := None\<rparr>) (dealloc (m\<lparr>calls := Suc (calls m)\<rparr>))"
      by (rule resized_lost) (use assms in auto)
    ultimately show ?thesis using True
      by (cases "fails m (calls m)") (simp_all add: grow_def realloc_def ex_bool_eq)
  next
    case False
    obtain ok m1 where a: "alloc m = (ok, m1)" by (cases "alloc m")
    from alloc_cases [OF a] have m1: "live m1 = live m + (if ok then 1 else 0)" "fails m1 = fails m" by auto
    have no: "\<not> ok \<Longrightarrow> fails m (calls m)" using a by (simp add: alloc_def split: if_splits)
    have off': "pb_offset p < length bs" using off False len by auto
    show ?thesis
    proof (cases ok)
      case True
      have "resized newsize p m True (p\<lparr>pb_buffer := Some (take (pb_offset p + 1) bs @
          fresh_bytes (newsize - (pb_offset p + 1))), pb_length := newsize\<rparr>) (dealloc m1)"
        by (rule resized_moved [OF assms(2,3)])
           (use assms len off' m1 True in \<open>auto intro: take_fresh simp: fresh_bytes_def\<close>)
      with True off' a False assms(5) show ?thesis by (simp add: grow_def ex_bool_eq)
    next
      case no_room: False
      with m1 no assms(2,3) have "resized newsize p m False
          (p\<lparr>pb_length := 0, pb_buffer := None\<rparr>) (dealloc m1)"
        by (intro resized_lost) auto
      with no_room a False show ?thesis by (simp add: grow_def ex_bool_eq)
    qed
  qed
qed

text \<open>A buffer with space behind the offset.\<close>

definition space :: "nat \<Rightarrow> printbuffer \<Rightarrow> bool" where
  "space n p \<longleftrightarrow> (\<exists>bs. pb_buffer p = Some bs \<and> ok_buf p \<and> pb_offset p + n < pb_length p)"

definition ensured :: "nat \<Rightarrow> printbuffer \<Rightarrow> amem \<Rightarrow> bool \<Rightarrow> printbuffer \<Rightarrow> amem \<Rightarrow> bool" where
  "ensured n p m ok p1 m1 \<longleftrightarrow> same_setup p p1 \<and> fails m1 = fails m \<and>
    live m1 - held p1 = live m - held p \<and> pb_depth p1 = pb_depth p \<and> pb_offset p1 = pb_offset p \<and>
    ok_buf p1 \<and> (ok \<longrightarrow> space n p1 \<and> advanced p [] p1) \<and> (room (n + 1) p m \<longrightarrow> ok)"

lemma ensured_refused: "ok_buf p \<Longrightarrow> \<not> room (n + 1) p m \<Longrightarrow> ensured n p m False p m"
  by (simp add: ensured_def)

lemma ensure_outcome:
  assumes "ready p"
  shows "\<exists>ok p1 m1. ensure n p m = Ret (ok, p1, m1) \<and> ensured n p m ok p1 m1"
proof -
  from assms obtain bs where bs: "pb_buffer p = Some bs" and ok: "ok_buf p" by (auto simp: ready_def)
  let ?need = "n + (pb_offset p + 1)"
  have len: "pb_length p \<le> length bs" "pb_noalloc p \<Longrightarrow> pb_length p \<le> int_max"
    "pb_offset p \<le> length bs" "0 < pb_length p \<Longrightarrow> pb_offset p < pb_length p"
    using ok bs by (auto simp: ok_buf_def split: if_splits)
  have stay: "advanced p [] p" using bs len by (simp add: advanced_def)
  consider "int_max < n" | "n \<le> int_max" "?need \<le> pb_length p"
    | "n \<le> int_max" "pb_length p < ?need" "pb_noalloc p"
    | "n \<le> int_max" "pb_length p < ?need" "\<not> pb_noalloc p" "int_max < ?need"
    | "n \<le> int_max" "pb_length p < ?need" "\<not> pb_noalloc p" "?need \<le> int_max"
    by (meson not_le)
  then show ?thesis
  proof cases
    case 1
    with len(2) have "\<not> room (n + 1) p m" by (auto simp: room_def)
    with 1 bs len(4) ensured_refused [OF ok] show ?thesis by (auto simp: ensure_def)
  next
    case 2
    with bs ok stay have "ensured n p m True p m" by (simp add: ensured_def space_def)
    with 2 bs len(4) show ?thesis by (auto simp: ensure_def)
  next
    case 3
    then have "\<not> room (n + 1) p m" by (simp add: room_def)
    with 3 bs len(4) ensured_refused [OF ok] show ?thesis by (auto simp: ensure_def)
  next
    case 4
    then have "\<not> room (n + 1) p m" "int_max div 2 < ?need" by (simp_all add: room_def)
    with 4 bs len(4) ensured_refused [OF ok] show ?thesis by (auto simp: ensure_def Let_def)
  next
    case 5
    let ?new = "if int_max div 2 < ?need then int_max else ?need * 2"
    have e: "ensure n p m = grow ?new bs p m"
      using 5 bs len by (auto simp: ensure_def Let_def)
    have new: "?need \<le> ?new" using 5 by auto
    have "pb_length p \<le> ?new" "pb_offset p < ?new" using new 5(2) by linarith+
    from grow_outcome [OF assms bs 5(3) this, of m] obtain ok' p1 m1 where
      g0: "grow ?new bs p m = Ret (ok', p1, m1)" "resized ?new p m ok' p1 m1" by blast
    from g0(2) bs have g: "same_setup p p1" "fails m1 = fails m"
        "live m1 - held p1 = live m - held p" "pb_depth p1 = pb_depth p" "pb_offset p1 = pb_offset p"
        "ok_buf p1" "ok' \<longrightarrow> pb_length p1 = ?new \<and>
          (\<exists>bs1. pb_buffer p1 = Some bs1 \<and> take (pb_offset p) bs1 = take (pb_offset p) bs)"
        "(\<forall>i. \<not> fails m i) \<longrightarrow> ok'"
      unfolding resized_def by auto
    have "ok' \<longrightarrow> space n p1 \<and> advanced p [] p1"
    proof
      assume ok'
      with g(7) obtain bs1 where b: "pb_length p1 = ?new" "pb_buffer p1 = Some bs1"
        "take (pb_offset p) bs1 = take (pb_offset p) bs" by auto
      have "pb_offset p1 + n < pb_length p1" using b(1) new g(5) by linarith
      with b g(5,6) bs len(3) show "space n p1 \<and> advanced p [] p1"
        by (auto simp: space_def advanced_def)
    qed
    moreover have "room (n + 1) p m \<longrightarrow> ok'" using g(8) 5(3) by (simp add: room_def)
    ultimately have "ensured n p m ok' p1 m1" using g by (simp add: ensured_def)
    with e g0(1) show ?thesis by auto
  qed
qed

text \<open>A store inside the space replaces bytes of the buffer and changes nothing else.\<close>

definition stored :: "nat \<Rightarrow> string \<Rightarrow> printbuffer \<Rightarrow> printbuffer \<Rightarrow> bool" where
  "stored i cs p p' \<longleftrightarrow> (\<exists>bs. pb_buffer p = Some bs \<and> i + length cs \<le> length bs \<and>
     p' = p\<lparr>pb_buffer := Some (take i bs @ map Some cs @ drop (i + length cs) bs)\<rparr>)"

lemma put_outcome:
  assumes "space n p" "i + length cs \<le> pb_offset p + n + 1"
  shows "\<exists>p'. put i cs p = Ret p' \<and> stored i cs p p' \<and> same_setup p p' \<and> space n p' \<and>
    held p' = held p \<and> pb_depth p' = pb_depth p \<and> pb_offset p' = pb_offset p \<and> pb_length p' = pb_length p"
proof -
  from assms(1) obtain bs where bs: "pb_buffer p = Some bs" "ok_buf p" "pb_offset p + n < pb_length p"
    by (auto simp: space_def)
  then have l: "pb_length p \<le> length bs" by (auto simp: ok_buf_def split: if_splits)
  with assms(2) bs(3) have i: "i + length cs \<le> pb_length p" by linarith
  let ?bs = "take i bs @ map Some cs @ drop (i + length cs) bs"
  have len: "length ?bs = length bs" using i l by simp
  have "drop (pb_length p) ?bs = drop (pb_length p) bs"
    using i l by (simp add: add.commute)
  with len bs i l show ?thesis
    by (auto simp: put_def stored_def same_setup_def space_def held_def ok_buf_def split: if_splits)
qed

lemma stored_prefix: "stored i cs p p' \<Longrightarrow> pb_buffer p = Some bs \<Longrightarrow>
    \<exists>bs'. pb_buffer p' = Some bs' \<and> take (i + length cs) bs' = take i bs @ map Some cs"
  by (auto simp: stored_def)

lemma outputsI:
  assumes "r = Ret (True, p', m')" "ok_buf p'" "same_setup p p'" "live m' - held p' = live m - held p"
    "fails m' = fails m" "pb_depth p' = d" "W p t p'"
  shows "outputs W p m d (Some t) r"
  using assms unfolding outputs_def by blast

lemma outputs_refused:
  assumes "r = Ret (False, p', m')" "ok_buf p'" "same_setup p p'" "live m' - held p' = live m - held p"
    "fails m' = fails m" "\<And>t. to = Some t \<Longrightarrow> \<not> room (length t + 2) p m"
  shows "outputs W p m d to r"
  using assms unfolding outputs_def by blast

lemma ok_buf_skip: "space n p \<Longrightarrow> k \<le> n \<Longrightarrow> ok_buf (skip k p)"
  by (auto simp: space_def ok_buf_def skip_def split: if_splits)

lemma skip_simps [simp]: "pb_buffer (skip k p) = pb_buffer p" "pb_offset (skip k p) = pb_offset p + k"
  "same_setup p (skip k q) = same_setup p q" "held (skip k p) = held p" "pb_depth (skip k p) = pb_depth p"
  "pb_length (skip k p) = pb_length p" "pb_format (skip k p) = pb_format p"
  by (simp_all add: skip_def same_setup_def held_def)

text \<open>A step that reserves \<open>n\<close> bytes and then, in the space it got, runs \<open>f\<close>.\<close>

lemma ensure_then:
  assumes "ready p" "n \<le> length t + 1"
    and f: "\<And>p1 m1. space n p1 \<Longrightarrow> advanced p [] p1 \<Longrightarrow> \<exists>p2. f p1 m1 = Ret (True, p2, m1) \<and>
      ok_buf p2 \<and> same_setup p1 p2 \<and> held p2 = held p1 \<and> pb_depth p2 = pb_depth p1 \<and> W p t p2"
  shows "outputs W p m (pb_depth p) (Some t)
    (bnd (ensure n p m) (\<lambda>(ok, p1, m1). if \<not> ok then Ret (False, p1, m1) else f p1 m1))"
proof -
  from ensure_outcome [OF assms(1)] obtain ok p1 m1 where
    e: "ensure n p m = Ret (ok, p1, m1)" "ensured n p m ok p1 m1" by blast
  then have s: "same_setup p p1" "fails m1 = fails m" "live m1 - held p1 = live m - held p"
    "pb_depth p1 = pb_depth p" "ok_buf p1" by (simp_all add: ensured_def)
  show ?thesis
  proof (cases ok)
    case True
    with e(2) have "space n p1" "advanced p [] p1" by (simp_all add: ensured_def)
    from f [OF this, of m1] obtain p2 where p2: "f p1 m1 = Ret (True, p2, m1)" "ok_buf p2"
      "same_setup p1 p2" "held p2 = held p1" "pb_depth p2 = pb_depth p1" "W p t p2" by blast
    have r: "bnd (ensure n p m) (\<lambda>(ok, p1, m1). if \<not> ok then Ret (False, p1, m1) else f p1 m1) =
        Ret (True, p2, m1)" using e(1) True p2(1) by simp
    show ?thesis by (rule outputsI [OF r p2(2)])
      (use p2 s same_setup_trans in auto)
  next
    case False
    then have r: "bnd (ensure n p m) (\<lambda>(ok, p1, m1). if \<not> ok then Ret (False, p1, m1) else f p1 m1) =
        Ret (False, p1, m1)" using e(1) by simp
    have "\<not> room (length t + 2) p m"
    proof
      assume "room (length t + 2) p m"
      with assms(2) have "room (n + 1) p m" by (auto elim: room_less)
      with False e(2) show False by (simp add: ensured_def)
    qed
    then show ?thesis using s by (intro outputs_refused [OF r]) auto
  qed
qed

lemma put_text_step:
  assumes "ready p" "n \<le> length t + 1" "k \<le> n" "length cs \<le> n + 1"
    and W: "\<And>p1 p2. space n p1 \<Longrightarrow> advanced p [] p1 \<Longrightarrow> stored (pb_offset p1) cs p1 p2 \<Longrightarrow>
      pb_offset p2 = pb_offset p1 \<Longrightarrow> pb_length p2 = pb_length p1 \<Longrightarrow> W p t (skip k p2)"
  shows "outputs W p m (pb_depth p) (Some t) (put_text n cs k p m)"
  unfolding put_text_def
proof (rule ensure_then [OF assms(1,2)])
  fix p1 m1 assume sp: "space n p1" and adv: "advanced p [] p1"
  from put_outcome [OF sp, of "pb_offset p1" cs] assms(4) obtain p2 where
    p2: "put (pb_offset p1) cs p1 = Ret p2" "stored (pb_offset p1) cs p1 p2" "same_setup p1 p2"
      "space n p2" "held p2 = held p1" "pb_depth p2 = pb_depth p1" "pb_offset p2 = pb_offset p1"
      "pb_length p2 = pb_length p1"
    by auto
  with W [OF sp adv p2(2,7,8)] ok_buf_skip [OF p2(4) assms(3)] show
    "\<exists>p'. bnd (put (pb_offset p1) cs p1) (\<lambda>p2. Ret (True, skip k p2, m1)) = Ret (True, p', m1) \<and>
      ok_buf p' \<and> same_setup p1 p' \<and> held p' = held p1 \<and> pb_depth p' = pb_depth p1 \<and> W p t p'"
    by simp
qed

text \<open>A text that is not closed by a null byte, or by one the offset stops at.\<close>

lemma put_text_advanced:
  assumes "ready p" "length t \<le> n" "n \<le> length t + 1" "length (t @ z) \<le> n + 1"
  shows "outputs advanced p m (pb_depth p) (Some t) (put_text n (t @ z) (length t) p m)"
proof (rule put_text_step [OF assms(1,3,2,4)])
  fix p1 p2 assume adv: "advanced p [] p1" and st: "stored (pb_offset p1) (t @ z) p1 p2"
    and o: "pb_offset p2 = pb_offset p1"
  from adv obtain bs bs1 where b: "pb_buffer p = Some bs" "pb_buffer p1 = Some bs1"
    "pb_offset p1 = pb_offset p" "pb_offset p \<le> length bs" "take (pb_offset p) bs1 = take (pb_offset p) bs"
    by (auto simp: advanced_def)
  from stored_prefix [OF st b(2)] obtain bs2 where b2: "pb_buffer p2 = Some bs2"
    "take (pb_offset p1 + length (t @ z)) bs2 = take (pb_offset p1) bs1 @ map Some (t @ z)" by auto
  have len: "length (take (pb_offset p) bs) = pb_offset p" using b(4) by simp
  have "take (pb_offset p + length t) bs2 = take (pb_offset p + length t) (take (pb_offset p1) bs1 @ map Some (t @ z))"
    unfolding b2(2) [symmetric] by (simp add: b(3))
  also have "\<dots> = take (pb_offset p) bs @ map Some t" using b(3,5) len by simp
  finally show "advanced p t (skip (length t) p2)"
    using b b2(1) o by (simp add: advanced_def)
qed

lemma put_text_wrote:
  assumes "ready p" "n = length t + 1" "k \<le> length t"
  shows "outputs wrote p m (pb_depth p) (Some t) (put_text n (t @ [NUL]) k p m)"
proof (rule put_text_step [OF assms(1)])
  fix p1 p2 assume sp: "space n p1" and adv: "advanced p [] p1"
    and st: "stored (pb_offset p1) (t @ [NUL]) p1 p2"
    and o: "pb_offset p2 = pb_offset p1" and l: "pb_length p2 = pb_length p1"
  from adv obtain bs bs1 where b: "pb_buffer p = Some bs" "pb_buffer p1 = Some bs1"
    "pb_offset p1 = pb_offset p" "pb_offset p \<le> length bs" "take (pb_offset p) bs1 = take (pb_offset p) bs"
    by (auto simp: advanced_def)
  from stored_prefix [OF st b(2)] obtain bs2 where b2: "pb_buffer p2 = Some bs2"
    "take (pb_offset p1 + length (t @ [NUL])) bs2 = take (pb_offset p1) bs1 @ map Some (t @ [NUL])" by auto
  have "pb_offset p1 + n < pb_length p1" using sp by (auto simp: space_def)
  then show "wrote p t (skip k p2)"
    using b b2 o l assms(2,3) by (simp add: wrote_def)
qed (use assms in auto)

section \<open>Moving the offset to the end of the text\<close>

lemma str_len_app [simp]: "cstring u \<Longrightarrow> str_len (map Some u @ Some NUL # rest) = Ret (length u)"
  by (induction u) auto

lemma update_offset_wrote:
  assumes "wrote p t q" "cstring t" "ok_buf q"
  shows "\<exists>q'. update_offset q = Ret q' \<and> advanced p t q' \<and> ok_buf q' \<and> held q' = held q \<and>
    pb_depth q' = pb_depth q \<and> (\<forall>p. same_setup p q' = same_setup p q)"
proof -
  from assms(1) obtain bs bs' where w: "pb_buffer p = Some bs" "pb_buffer q = Some bs'"
     "pb_offset p \<le> pb_offset q" "pb_offset q \<le> pb_offset p + length t" "pb_offset p \<le> length bs"
     "pb_offset p + length t < pb_length q"
     "take (pb_offset p + length t + 1) bs' = take (pb_offset p) bs @ map Some (t @ [NUL])"
    by (auto simp: wrote_def)
  let ?o = "pb_offset p" and ?o' = "pb_offset q"
  define j where "j = ?o' - ?o"
  have o': "?o' = ?o + j" "j \<le> length t" using w(3,4) by (auto simp: j_def)
  have len: "length (take ?o bs) = ?o" using w(5) by simp
  have "bs' = take (?o + length t + 1) bs' @ drop (?o + length t + 1) bs'" by simp
  then have bs': "bs' = take ?o bs @ map Some t @ Some NUL # drop (?o + length t + 1) bs'"
    unfolding w(7) by simp
  have "drop ?o' bs' = map Some (drop j t) @ Some NUL # drop (?o + length t + 1) bs'"
    by (subst bs') (use len o' in \<open>simp add: drop_map\<close>)
  moreover have "cstring (drop j t)" using assms(2) set_drop_subset [of j t] by (auto simp: cstring_def)
  ultimately have "str_len (drop ?o' bs') = Ret (length t - j)" by simp
  then have "update_offset q = Ret (skip (length t - j) q)" using w(2) by (simp add: update_offset_def)
  moreover have "take (?o + length t) bs' = take ?o bs @ map Some t"
    by (subst bs') (use len in simp)
  then have "advanced p t (skip (length t - j) q)" using w(1,2,5) o' by (simp add: advanced_def)
  moreover have "ok_buf (skip (length t - j) q)"
    using assms(3) w(6) o' by (auto simp: ok_buf_def skip_def split: if_splits)
  ultimately show ?thesis by auto
qed

lemma outputs_settle:
  assumes "outputs wrote p m d to r" "\<And>t. to = Some t \<Longrightarrow> cstring t"
  shows "outputs advanced p m d to (andthen r settle)"
proof -
  from assms(1) obtain ok p' m' where r: "r = Ret (ok, p', m')" "ok_buf p'" "same_setup p p'"
      "live m' - held p' = live m - held p" "fails m' = fails m"
      "ok \<longrightarrow> pb_depth p' = d \<and> (\<exists>t. to = Some t \<and> wrote p t p')"
      "\<forall>t. to = Some t \<and> room (length t + 2) p m \<longrightarrow> ok"
    by (auto simp: outputs_def)
  show ?thesis
  proof (cases ok)
    case True
    with r(6) obtain t where t: "to = Some t" "wrote p t p'" "pb_depth p' = d" by blast
    from update_offset_wrote [OF t(2) assms(2) [OF t(1)] r(2)] obtain q where
      q: "update_offset p' = Ret q" "advanced p t q" "ok_buf q" "held q = held p'" "pb_depth q = pb_depth p'"
        "\<forall>p. same_setup p q = same_setup p p'" by blast
    have e: "andthen r settle = Ret (True, q, m')" using r(1) True q(1) by (simp add: andthen_def settle_def)
    show ?thesis unfolding t(1) by (rule outputsI [OF e q(3)]) (use q r t in auto)
  next
    case False
    then have e: "andthen r settle = Ret (False, p', m')" using r(1) by (simp add: andthen_def)
    show ?thesis by (rule outputs_refused [OF e]) (use r False in auto)
  qed
qed

section \<open>Strings\<close>

lemma length_escape_text: "length (escape_text c) = 1 + escape_extra c"
  by (auto simp: escape_text_def escape_extra_def hex4_text_def split: option.splits)

lemma length_escaped: "length (escaped s) = length s + escape_characters s"
  by (induction s) (simp_all add: escaped_def escape_characters_def length_escape_text)

lemma no_escapes: "escape_characters s = 0 \<Longrightarrow> escaped s = s"
proof (induction s)
  case (Cons c s)
  then have "escape_extra c = 0" "escaped s = s" by (simp_all add: escape_characters_def)
  then show ?case by (auto simp: escaped_def escape_text_def escape_extra_def split: if_splits)
qed (simp add: escaped_def)

text \<open>The buffer's contents up to position \<open>i\<close>.\<close>

definition filled :: "nat \<Rightarrow> char option list \<Rightarrow> printbuffer \<Rightarrow> bool" where
  "filled i pre p \<longleftrightarrow> (\<exists>bs. pb_buffer p = Some bs \<and> i \<le> length bs \<and> take i bs = pre)"

text \<open>Everything but the contents is the same.\<close>

definition kept :: "nat \<Rightarrow> printbuffer \<Rightarrow> printbuffer \<Rightarrow> bool" where
  "kept n p p' \<longleftrightarrow> same_setup p p' \<and> space n p' \<and> held p' = held p \<and> pb_depth p' = pb_depth p \<and>
     pb_offset p' = pb_offset p \<and> pb_length p' = pb_length p"

lemma kept_trans: "kept n p q \<Longrightarrow> kept n q r \<Longrightarrow> kept n p r"
  by (auto simp: kept_def elim: same_setup_trans)

lemma put_filled:
  assumes "space n p" "filled i pre p" "i + length (cs @ z) \<le> pb_offset p + n + 1"
  shows "\<exists>p'. put i (cs @ z) p = Ret p' \<and> kept n p p' \<and> filled (i + length cs) (pre @ map Some cs) p'"
proof -
  from put_outcome [OF assms(1,3)] obtain p' where p': "put i (cs @ z) p = Ret p'" "stored i (cs @ z) p p'"
    "kept n p p'" by (auto simp: kept_def)
  from assms(2) obtain bs where bs: "pb_buffer p = Some bs" "i \<le> length bs" "take i bs = pre"
    by (auto simp: filled_def)
  with p'(2) have "pb_buffer p' = Some (pre @ map Some (cs @ z) @ drop (i + length (cs @ z)) bs)"
    by (auto simp: stored_def)
  moreover have "length pre = i" using bs by auto
  ultimately have "filled (i + length cs) (pre @ map Some cs) p'" by (auto simp: filled_def)
  with p' show ?thesis by blast
qed

lemma copy_escaped_outcome:
  "space n p \<Longrightarrow> filled i pre p \<Longrightarrow> i + length (escaped s) \<le> pb_offset p + n \<Longrightarrow>
   \<exists>p'. copy_escaped i s p = Ret p' \<and> kept n p p' \<and>
     filled (i + length (escaped s)) (pre @ map Some (escaped s)) p'"
proof (induction s arbitrary: i pre p)
  case Nil
  then show ?case by (simp add: escaped_def kept_def)
next
  case (Cons c s)
  have esc: "escaped (c # s) = escape_text c @ escaped s" by (simp add: escaped_def)
  have bound: "i + length (escape_text c) + length (escaped s) \<le> pb_offset p + n"
    using Cons.prems(3) by (simp add: esc)
  have rest: "\<exists>p'. copy_escaped (i + length (escape_text c)) s q = Ret p' \<and> kept n p p' \<and>
      filled (i + length (escaped (c # s))) (pre @ map Some (escaped (c # s))) p'"
    if k: "kept n p q" and u: "filled (i + length (escape_text c)) (pre @ map Some (escape_text c)) q" for q
  proof -
    from k have "space n q" "pb_offset q = pb_offset p" by (simp_all add: kept_def)
    with Cons.IH [OF _ u] bound obtain p' where "copy_escaped (i + length (escape_text c)) s q = Ret p'"
      "kept n q p'" "filled (i + length (escape_text c) + length (escaped s))
         ((pre @ map Some (escape_text c)) @ map Some (escaped s)) p'" by auto
    with kept_trans [OF k] show ?thesis by (auto simp: esc add.assoc)
  qed
  show ?case
  proof (cases "(31::nat) < of_char c \<and> c \<noteq> CHR 0x22 \<and> c \<noteq> CHR 0x5C")
    case True
    then have "map_of short_escapes c = None" by (auto simp: short_escapes_def)
    with True have t: "escape_text c = [c]" by (simp add: escape_text_def)
    from put_filled [OF Cons.prems(1,2), of "[c]" "[]"] bound t obtain q where
      "put i [c] p = Ret q" "kept n p q" "filled (i + 1) (pre @ map Some [c]) q" by auto
    with rest [of q] t True show ?thesis by simp
  next
    case False
    have l: "length (escape_text c) \<ge> 2"
      using False by (auto simp: escape_text_def short_escapes_def hex4_text_def)
    from put_filled [OF Cons.prems(1,2), of "[CHR 0x5C]" "[]"] bound l obtain q where
      q: "put i [CHR 0x5C] p = Ret q" "kept n p q" "filled (i + 1) (pre @ [Some (CHR 0x5C)]) q" by auto
    then have sq: "space n q" "pb_offset q = pb_offset p" by (simp_all add: kept_def)
    show ?thesis
    proof (cases "map_of short_escapes c")
      case (Some e)
      then have t: "escape_text c = [CHR 0x5C, e]" by (simp add: escape_text_def)
      from put_filled [OF sq(1) q(3), of "[e]" "[]"] bound sq(2) t obtain r where
        r: "put (i + 1) [e] q = Ret r" "kept n q r" "filled (i + 2) (pre @ map Some [CHR 0x5C, e]) r"
        by auto
      with rest [of r] kept_trans [OF q(2) r(2)] t False Some q(1) show ?thesis by auto
    next
      case None
      with False have "(of_char c :: nat) < 32" by (auto simp: short_escapes_def)
      with None have t: "escape_text c = CHR 0x5C # CHR ''u'' # hex4_text c" by (simp add: escape_text_def)
      have h: "length (hex4_text c) = 4" by (simp add: hex4_text_def)
      from put_filled [OF sq(1) q(3), of "CHR ''u'' # hex4_text c" "[NUL]"] bound sq(2) t h obtain r where
        r: "put (i + 1) (CHR ''u'' # hex4_text c @ [NUL]) q = Ret r" "kept n q r"
          "filled (i + 6) (pre @ map Some (CHR 0x5C # CHR ''u'' # hex4_text c)) r"
        by (auto simp: eval_nat_numeral)
      with rest [of r] kept_trans [OF q(2) r(2)] t h False None q(1) show ?thesis
        by (auto simp: eval_nat_numeral)
    qed
  qed
qed

lemma filled_wrote:
  assumes "advanced p [] p1" "space n p2" "kept n p1 p2" "n = length t + 1"
    and u: "filled (pb_offset p1 + length (t @ [NUL])) (take (pb_offset p) (the (pb_buffer p)) @ map Some (t @ [NUL])) p2"
  shows "wrote p t p2"
  using assms by (auto simp: advanced_def wrote_def kept_def filled_def space_def)

lemma print_string_ptr_outputs:
  assumes "ready p"
  shows "outputs wrote p m (pb_depth p) (Some (quoted input)) (print_string_ptr input p m)"
proof (cases input)
  case None
  with put_text_wrote [OF assms, of 3 "quoted None" 0 m] show ?thesis
    by (simp add: print_string_ptr_def quoted_def)
next
  case (Some s)
  let ?L = "length s + escape_characters s"
  have len: "length (quoted (Some s)) = ?L + 2" by (simp add: quoted_def length_escaped)
  show ?thesis unfolding Some print_string_ptr_def Let_def option.case
  proof (rule ensure_then [OF assms])
    fix p1 m1 assume sp: "space (?L + 3) p1" and adv: "advanced p [] p1"
    let ?o = "pb_offset p1" and ?pre = "take (pb_offset p) (the (pb_buffer p))"
    from adv have u0: "filled ?o ?pre p1"
      using sp by (auto simp: advanced_def filled_def space_def ok_buf_def split: if_splits)
    have fin: "\<exists>p'. Ret (True, q, m1) = Ret (True, p', m1) \<and> ok_buf p' \<and> same_setup p1 p' \<and>
        held p' = held p1 \<and> pb_depth p' = pb_depth p1 \<and> wrote p (quoted (Some s)) p'"
      if "kept (?L + 3) p1 q" "filled (?o + length (quoted (Some s) @ [NUL])) (?pre @ map Some (quoted (Some s) @ [NUL])) q" for q
    proof -
      have "wrote p (quoted (Some s)) q"
        by (rule filled_wrote [OF adv _ that(1) _ that(2)]) (use that(1) len in \<open>simp_all add: kept_def\<close>)
      with that(1) show ?thesis by (simp add: kept_def space_def)
    qed
    show "\<exists>p2. (if escape_characters s = 0
        then bnd (put ?o (CHR 0x22 # s @ [CHR 0x22, NUL]) p1) (\<lambda>p2. Ret (True, p2, m1))
        else bnd (put ?o [CHR 0x22] p1) (\<lambda>p2. bnd (copy_escaped (?o + 1) s p2) (\<lambda>p3.
          bnd (put (?o + ?L + 1) [CHR 0x22, NUL] p3) (\<lambda>p4. Ret (True, p4, m1))))) = Ret (True, p2, m1) \<and>
        ok_buf p2 \<and> same_setup p1 p2 \<and> held p2 = held p1 \<and> pb_depth p2 = pb_depth p1 \<and>
        wrote p (quoted (Some s)) p2"
    proof (cases "escape_characters s = 0")
      case True
      then have q: "quoted (Some s) @ [NUL] = CHR 0x22 # s @ [CHR 0x22, NUL]"
        by (simp add: quoted_def no_escapes)
      from put_filled [OF sp u0, of "quoted (Some s) @ [NUL]" "[]"] len obtain p2 where
        "put ?o (quoted (Some s) @ [NUL]) p1 = Ret p2" "kept (?L + 3) p1 p2"
        "filled (?o + length (quoted (Some s) @ [NUL])) (?pre @ map Some (quoted (Some s) @ [NUL])) p2" by auto
      with fin [of p2] True q show ?thesis by simp
    next
      case False
      from put_filled [OF sp u0, of "[CHR 0x22]" "[]"] obtain p2 where
        p2: "put ?o [CHR 0x22] p1 = Ret p2" "kept (?L + 3) p1 p2" "filled (?o + 1) (?pre @ [Some (CHR 0x22)]) p2"
        by auto
      then have s2: "space (?L + 3) p2" "pb_offset p2 = ?o" by (simp_all add: kept_def)
      from copy_escaped_outcome [OF s2(1) p2(3), of s] s2(2) obtain p3 where
        p3: "copy_escaped (?o + 1) s p2 = Ret p3" "kept (?L + 3) p2 p3"
          "filled (?o + ?L + 1) (?pre @ map Some (CHR 0x22 # escaped s)) p3"
        by (auto simp: length_escaped algebra_simps)
      then have s3: "space (?L + 3) p3" "pb_offset p3 = ?o" using s2 by (simp_all add: kept_def)
      from put_filled [OF s3(1) p3(3), of "[CHR 0x22, NUL]" "[]"] s3(2) obtain p4 where
        p4: "put (?o + ?L + 1) [CHR 0x22, NUL] p3 = Ret p4" "kept (?L + 3) p3 p4"
          "filled (?o + ?L + 1 + 2) (?pre @ map Some (quoted (Some s) @ [NUL])) p4"
        by (auto simp: quoted_def)
      have "kept (?L + 3) p1 p4" using p2(2) p3(2) p4(2) kept_trans by blast
      moreover have e: "?o + ?L + 1 + 2 = ?o + length (quoted (Some s) @ [NUL])" using len by simp
      ultimately show ?thesis using fin [of p4, OF _ p4(3) [unfolded e]] p2(1) p3(1) p4(1) False
        by simp
    qed
  qed (use len in simp)
qed

section \<open>No text has a null byte\<close>

lemma cstring_append_list: "cstring (concat ts) \<longleftrightarrow> (\<forall>t \<in> set ts. cstring t)"
  by (induction ts) auto

lemma hex_char_not_NUL: "k < 16 \<Longrightarrow> hex_char k \<noteq> NUL"
  by (drule hex_cases) (auto simp: hex_char_def)

lemma cstring_escape: "c \<noteq> NUL \<Longrightarrow> cstring (escape_text c)"
  using hex_char_not_NUL [of "of_char c div 16"] hex_char_not_NUL [of "of_char c mod 16"]
  by (auto simp: escape_text_def hex4_text_def short_escapes_def)

lemma cstring_escaped: "cstring s \<Longrightarrow> cstring (escaped s)"
  by (induction s) (simp_all add: escaped_def cstring_escape)

lemma cstring_quoted: "\<forall>s \<in> set_option input. cstring s \<Longrightarrow> cstring (quoted input)"
  by (cases input) (simp_all add: quoted_def cstring_escaped)

lemma cstring_digits: "\<forall>c \<in> set s. is_digit c \<Longrightarrow> cstring s"
  by (auto simp: cstring_def is_digit_def)

lemma cstring_dec [simp]: "cstring (dec_digits n)"
  by (rule cstring_digits) (rule dec_digits_all)

lemma cstring_subset: "cstring s \<Longrightarrow> set t \<subseteq> set s \<Longrightarrow> cstring t"
  by (auto simp: cstring_def)

lemma cstring_fraction: "cstring ip \<Longrightarrow> cstring fp \<Longrightarrow> cstring (with_fraction ip fp)"
proof -
  assume "cstring ip" "cstring fp"
  moreover have "set (strip_zeros fp) \<subseteq> set fp"
    using set_dropWhileD by (force simp: strip_zeros_def)
  ultimately show ?thesis using cstring_subset by (auto simp: with_fraction_def Let_def)
qed

lemma cstring_print_g: "cstring (print_g P d)"
proof -
  have z: "cstring (replicate n CHR ''0'')" for n by (simp add: cstring_def)
  have d: "cstring (take n (dec_digits k))" "cstring (drop n (dec_digits k))" for n k
    by (rule cstring_subset [OF cstring_dec [of k]], rule set_take_subset set_drop_subset)+
  show ?thesis
    by (auto simp: print_g_def exp_text_def Let_def intro!: cstring_fraction d z
        split: dbl.splits prod.splits)
qed

lemma cstring_number_text: "cstring (number_text d i)"
  by (auto simp: number_text_def print_int_def Let_def cstring_print_g split: prod.splits)

lemma cstring_tabs [simp]: "cstring (tabs d)"
  by (simp add: tabs_def cstring_def)

lemma cstring_render_scalar: "texts_ok it \<Longrightarrow> render_scalar it = Some t \<Longrightarrow> cstring t"
  by (cases it) (auto simp: render_scalar_def Let_def cstring_number_text cstring_quoted split: if_splits)

lemma texts_ok_name: "texts_ok x \<Longrightarrow> \<forall>s \<in> set_option (name x). cstring s"
  by (cases x) auto

lemma cstring_render:
  "render fmt d it = Some t \<Longrightarrow> texts_ok it \<Longrightarrow> cstring t"
  "render_elements fmt d its = Some t \<Longrightarrow> \<forall>c \<in> set its. texts_ok c \<Longrightarrow> cstring t"
  "render_members fmt d its = Some t \<Longrightarrow> \<forall>c \<in> set its. texts_ok c \<Longrightarrow> cstring t"
proof (induction fmt d it and fmt d its and fmt d its arbitrary: t and t and t
    rule: render_render_elements_render_members.induct)
  case (1 fmt d tt vs vi vd nm ch)
  then show ?case
    using cstring_render_scalar [of "Item tt vs vi vd nm ch" t]
    by (auto simp: cat_eq_Some split: if_splits)
next
  case (5 fmt d x xs)
  then show ?case
    using cstring_quoted [OF texts_ok_name, of x] by (auto simp: cat_eq_Some member_sep_def)
qed (auto simp: cat_eq_Some element_sep_def)

section \<open>Values\<close>

lemma ready_advanced [simp]: "ready p \<Longrightarrow> advanced p [] p"
  by (auto simp: ready_def ok_buf_def advanced_def split: if_splits)

lemma outputs_nothing: "ready p \<Longrightarrow> outputs advanced p m (pb_depth p) (Some []) (Ret (True, p, m))"
  by (rule outputsI [OF refl]) (simp_all, simp add: ready_def)

lemma outputs_unsupported: "ready p \<Longrightarrow> outputs W p m d None (Ret (False, p, m))"
  by (rule outputs_refused [OF refl]) (simp_all add: ready_def)

lemma print_scalar_outputs:
  assumes "ready p"
  shows "outputs wrote p m (pb_depth p) (render_scalar it) (print_scalar it p m)"
proof -
  note w = put_text_wrote [OF assms, of _ _ _ m]
  show ?thesis
    using w [of 5 "''null''" 0] w [of 6 "''false''" 0] w [of 5 "''true''" 0]
      w [of _ "number_text (valuedouble it) (valueint it)" "length (number_text (valuedouble it) (valueint it))"]
      w [of _ "the (valuestring it)" 0] print_string_ptr_outputs [OF assms, of m "valuestring it"]
      outputs_unsupported [OF assms, of wrote m "pb_depth p"]
    by (auto simp: print_scalar_def render_scalar_def Let_def print_number_def print_string_def
        split: option.splits)
qed

definition value_ok :: "cjson \<Rightarrow> bool" where
  "value_ok it \<longleftrightarrow> texts_ok it \<and> (\<forall>p m. ready p \<longrightarrow>
     outputs wrote p m (pb_depth p) (render (pb_format p) (pb_depth p) it) (print_value it p m))"

text \<open>A value followed by the move of the offset.\<close>

lemma value_settled:
  assumes "value_ok it" "ready p"
  shows "outputs advanced p m (pb_depth p) (render (pb_format p) (pb_depth p) it)
    (andthen (print_value it p m) settle)"
  using assms by (intro outputs_settle) (auto simp: value_ok_def intro: cstring_render)

lemma same_format: "same_setup p p' \<Longrightarrow> pb_format p' = pb_format p"
  by (simp add: same_setup_def)

text \<open>What the rest of a function does, on every buffer it can get from an earlier step: the
  contracts of the steps compose into the contract of the function.\<close>

definition follows :: "printbuffer \<Rightarrow> nat \<Rightarrow> (printbuffer \<Rightarrow> string \<Rightarrow> printbuffer \<Rightarrow> bool) \<Rightarrow> nat \<Rightarrow>
    string option \<Rightarrow> (printbuffer \<Rightarrow> amem \<Rightarrow> (bool \<times> printbuffer \<times> amem) run) \<Rightarrow> bool" where
  "follows p d W e to f \<longleftrightarrow> (\<forall>q k. ready q \<longrightarrow> same_setup p q \<longrightarrow> pb_depth q = d \<longrightarrow>
     outputs W q k e to (f q k))"

lemma followsI: "(\<And>q k. ready q \<Longrightarrow> same_setup p q \<Longrightarrow> pb_depth q = d \<Longrightarrow> outputs W q k e to (f q k)) \<Longrightarrow>
    follows p d W e to f"
  by (simp add: follows_def)

lemma follows_andthen:
  assumes "follows p d advanced d' a s" "follows p d' W e b g" "composes W"
  shows "follows p d W e (cat a b) (\<lambda>q k. andthen (s q k) g)"
proof (rule followsI)
  fix q k assume q: "ready q" "same_setup p q" "pb_depth q = d"
  show "outputs W q k e (cat a b) (andthen (s q k) g)"
  proof (rule outputs_andthen [OF assms(3)])
    show "outputs advanced q k d' a (s q k)" using assms(1) q by (simp add: follows_def)
  next
    fix q' k' assume "ready q'" "same_setup q q'" "pb_depth q' = d'"
    then show "outputs W q' k' e b (g q' k')"
      using assms(2) same_setup_trans [OF q(2)] by (simp add: follows_def)
  qed
qed

lemma follows_settle:
  assumes "follows p d wrote d' a s" "follows p d' W e b g" "composes W" "\<And>t. a = Some t \<Longrightarrow> cstring t"
  shows "follows p d W e (cat a b) (\<lambda>q k. andthen (s q k) (\<lambda>q k. andthen (settle q k) g))"
proof -
  have "follows p d advanced d' a (\<lambda>q k. andthen (s q k) settle)"
    using assms(1,4) by (auto simp: follows_def intro!: outputs_settle)
  from follows_andthen [OF this assms(2,3)] show ?thesis by (simp add: andthen_assoc)
qed

lemma follows_value:
  assumes "value_ok x" shows "follows p d wrote d (render (pb_format p) d x) (print_value x)"
  using assms by (auto simp: follows_def value_ok_def same_format)

lemma follows_name:
  "follows p d wrote d (Some (quoted s)) (print_string_ptr s)"
  using print_string_ptr_outputs by (auto simp: follows_def)

lemma follows_put_text:
  assumes "length t \<le> n" "n \<le> length t + 1" "length z + length t \<le> n + 1"
  shows "follows p d advanced d (Some t) (put_text n (t @ z) (length t))"
  using put_text_advanced [of _ t n z] assms by (auto simp: follows_def)

lemma follows_nothing: "follows p d advanced d (Some []) (\<lambda>q k. Ret (True, q, k))"
  using outputs_nothing by (auto simp: follows_def)

lemma follows_cong: "follows p d W e to f \<Longrightarrow>
    (\<And>q k. same_setup p q \<Longrightarrow> pb_depth q = d \<Longrightarrow> f q k = g q k) \<Longrightarrow> follows p d W e to g"
  by (auto simp: follows_def)

lemma render_texts: "value_ok x \<Longrightarrow> render fmt d x = Some t \<Longrightarrow> cstring t"
  by (auto simp: value_ok_def intro: cstring_render)

lemma follows_elements:
  "\<forall>c \<in> set xs. value_ok c \<Longrightarrow> follows p d advanced d (render_elements (pb_format p) d xs) (print_elements xs)"
proof (induction xs)
  case Nil
  then show ?case using follows_nothing by (simp add: follows_def)
next
  case (Cons x xs)
  let ?s = "if xs = [] then [] else element_sep (pb_format p)"
  have sep: "follows p d advanced d (Some ?s) (\<lambda>q k. if xs = [] then Ret (True, q, k)
      else let cs = element_sep (pb_format q) in put_text (length cs + 1) (cs @ [NUL]) (length cs) q k)"
    by (rule follows_cong [of _ _ _ _ _ "if xs = [] then (\<lambda>q k. Ret (True, q, k))
          else put_text (length ?s + 1) (?s @ [NUL]) (length ?s)"])
       (use follows_nothing follows_put_text [of ?s _ "[NUL]"] in \<open>auto simp: same_format Let_def\<close>)
  have "follows p d advanced d (render_elements (pb_format p) d (x # xs))
     (\<lambda>q k. print_elements (x # xs) q k)"
    unfolding print_elements.simps render_elements.simps
    by (rule follows_settle [OF follows_value follows_andthen [OF sep Cons.IH]])
       (use Cons.prems render_texts in auto)
  then show ?case by simp
qed

lemma follows_members:
  "\<forall>c \<in> set xs. value_ok c \<Longrightarrow> follows p d advanced d (render_members (pb_format p) d xs) (print_members xs)"
proof (induction xs)
  case Nil
  then show ?case using follows_nothing by (simp add: follows_def)
next
  case (Cons x xs)
  let ?t = "if pb_format p then tabs d else []"
    and ?c = "CHR '':'' # (if pb_format p then [CHR 0x09] else [])"
    and ?s = "member_sep (pb_format p) (xs \<noteq> [])"
  have l: "length (tabs d) = d" by (simp add: tabs_def)
  have indent: "follows p d advanced d (Some ?t) (\<lambda>q k. if pb_format q
      then put_text (pb_depth q) (tabs (pb_depth q)) (pb_depth q) q k else Ret (True, q, k))"
    by (rule follows_cong [of _ _ _ _ _ "if pb_format p then put_text d (tabs d @ []) (length (tabs d))
          else (\<lambda>q k. Ret (True, q, k))"])
       (use follows_nothing follows_put_text [of "tabs d" d "[]"] in \<open>auto simp: same_format l\<close>)
  have colon: "follows p d advanced d (Some ?c) (\<lambda>q k. let cs = CHR '':'' #
      (if pb_format q then [CHR 0x09] else []) in put_text (length cs) cs (length cs) q k)"
    by (rule follows_cong [OF follows_put_text [of ?c "length ?c" "[]"]]) (auto simp: same_format)
  have sep: "follows p d advanced d (Some ?s) (\<lambda>q k. let cs = member_sep (pb_format q) (xs \<noteq> []) in
      put_text (length cs + 1) (cs @ [NUL]) (length cs) q k)"
    by (rule follows_cong [OF follows_put_text [of ?s "length ?s + 1" "[NUL]"]])
       (auto simp: same_format Let_def)
  have nm: "cstring (quoted (name x))"
    using Cons.prems by (intro cstring_quoted texts_ok_name) (auto simp: value_ok_def)
  have "follows p d advanced d (render_members (pb_format p) d (x # xs))
     (\<lambda>q k. print_members (x # xs) q k)"
    unfolding print_members.simps render_members.simps
    by (rule follows_andthen [OF indent follows_settle [OF follows_name follows_andthen [OF colon
          follows_settle [OF follows_value follows_andthen [OF sep Cons.IH]]]]])
       (use Cons.prems render_texts nm in auto)
  then show ?case by simp
qed

lemma follows_body:
  assumes "follows (nested p) (Suc d) advanced (Suc d) to f"
  shows "follows p d advanced (Suc d) to (\<lambda>q k. f (nested q) k)"
proof (rule followsI)
  fix q k assume q: "ready q" "same_setup p q" "pb_depth q = d"
  then have "outputs advanced (nested q) k (Suc d) to (f (nested q) k)"
    using assms by (simp add: follows_def)
  then show "outputs advanced q k (Suc d) to (f (nested q) k)" by (simp add: outputs_nested)
qed

text \<open>The closing text of an array or object.\<close>

lemma follows_close:
  "follows p (Suc d) wrote d (Some t) (\<lambda>q k. andthen (put_text (length t + 1) (t @ [NUL]) 0 q k)
     (\<lambda>q k. Ret (True, unnested q, k)))"
proof (rule followsI)
  fix q k assume "ready q" "pb_depth q = Suc d"
  with put_text_wrote [of q "length t + 1" t 0 k] show "outputs wrote q k d (Some t)
      (andthen (put_text (length t + 1) (t @ [NUL]) 0 q k) (\<lambda>q k. Ret (True, unnested q, k)))"
    by (intro outputs_unnested) simp
qed

lemma print_value_ok: "texts_ok it \<Longrightarrow> value_ok it"
proof (induction it)
  case (Item tt vs vi vd nm ch)
  then have ch: "\<forall>c \<in> set ch. value_ok c" by auto
  let ?it = "Item tt vs vi vd nm ch"
  have "follows p (pb_depth p) wrote (pb_depth p) (render (pb_format p) (pb_depth p) ?it)
      (print_value ?it)" for p
  proof -
    let ?d = "pb_depth p" and ?o = "CHR ''{'' # (if pb_format p then [CHR 0x0A] else [])"
      and ?z = "(if pb_format p then tabs (pb_depth p) else []) @ ''}''"
    have fmt: "pb_format (nested p) = pb_format p" by (simp add: nested_def)
    note elems = follows_body [OF follows_elements [OF ch, of "nested p" "Suc ?d"]]
      and mems = follows_body [OF follows_members [OF ch, of "nested p" "Suc ?d"]]
    consider (arr) "kind tt = cJSON_Array" | (obj) "kind tt = cJSON_Object" "kind tt \<noteq> cJSON_Array"
      | (scalar) "kind tt \<noteq> cJSON_Array" "kind tt \<noteq> cJSON_Object" by blast
    then show ?thesis
    proof cases
      case arr
      have b: "follows p ?d advanced ?d (Some ''['') (put_text 1 ''['' 1)"
        using follows_put_text [of "''[''" 1 "[]"] by simp
      have z: "follows p (Suc ?d) wrote ?d (Some '']'') (\<lambda>q k. andthen (put_text 2 ('']'' @ [NUL]) 0 q k)
          (\<lambda>q k. Ret (True, unnested q, k)))"
        using follows_close [of p ?d "'']''"] by (simp add: eval_nat_numeral)
      have "follows p ?d wrote ?d (cat (Some ''['') (cat (render_elements (pb_format p) (Suc ?d) ch)
          (Some '']''))) (print_value ?it)"
        by (rule follows_cong [OF follows_andthen [OF b follows_andthen [OF elems z], unfolded fmt]])
           (simp_all add: arr)
      with arr show ?thesis by (simp del: cat_Some)
    next
      case obj
      have b: "follows p ?d advanced ?d (Some ?o) (\<lambda>q k. let cs = CHR ''{'' #
          (if pb_format q then [CHR 0x0A] else []) in put_text (length cs + 1) cs (length cs) q k)"
        by (rule follows_cong [OF follows_put_text [of ?o "length ?o + 1" "[]"]]) (auto simp: same_format)
      have z: "follows p (Suc ?d) wrote ?d (Some ?z) (\<lambda>q k. andthen
          (put_text (if pb_format q then pb_depth q + 1 else 2)
            ((if pb_format q then tabs (pb_depth q - 1) else []) @ ''}'' @ [NUL]) 0 q k)
          (\<lambda>q k. Ret (True, unnested q, k)))"
        by (rule follows_cong [OF follows_close [of p ?d ?z]])
           (auto simp: same_format tabs_def eval_nat_numeral)
      have "follows p ?d wrote ?d (cat (Some ?o) (cat (render_members (pb_format p) (Suc ?d) ch)
          (Some ?z))) (print_value ?it)"
        by (rule follows_cong [OF follows_andthen [OF b follows_andthen [OF mems z], unfolded fmt]])
           (use obj in \<open>simp_all only: print_value.simps if_False if_True refl composes_simps\<close>)
      with obj show ?thesis by (simp del: cat_Some)
    next
      case scalar
      then show ?thesis by (simp add: follows_def) (metis print_scalar_outputs)
    qed
  qed
  then have "ready p \<Longrightarrow> outputs wrote p m (pb_depth p) (render (pb_format p) (pb_depth p) ?it)
      (print_value ?it p m)" for p m
    using same_setup_refl unfolding follows_def by blast
  with Item.prems show ?case unfolding value_ok_def by blast
qed

section \<open>The entry points\<close>

lemma string_of_text: "cstring t \<Longrightarrow> string_of (map Some t @ Some NUL # rest) = Ret t"
  by (induction t) auto

text \<open>A buffer that starts with a text and its null byte denotes the text.\<close>

lemma string_of_wrote:
  assumes "wrote p t p'" "pb_offset p = 0" "pb_buffer p' = Some bs" "cstring t"
  shows "string_of bs = Ret t" "length t < length bs" "string_of (take (length t + 1) bs) = Ret t"
proof -
  from assms have w: "take (length t + 1) bs = map Some t @ [Some NUL]" by (auto simp: wrote_def)
  then have "bs = (map Some t @ [Some NUL]) @ drop (length t + 1) bs"
    by (metis append_take_drop_id)
  then have bs: "bs = map Some t @ Some NUL # drop (length t + 1) bs" by simp
  show "string_of bs = Ret t" by (subst bs) (rule string_of_text [OF assms(4)])
  show "length t < length bs" by (subst bs) simp
  show "string_of (take (length t + 1) bs) = Ret t" unfolding w by (rule string_of_text [OF assms(4)])
qed

definition print_result :: "cjson \<Rightarrow> bool \<Rightarrow> amem \<Rightarrow> (string option \<times> amem) run \<Rightarrow> bool" where
  "print_result it fmt m r \<longleftrightarrow> (\<exists>s m'. r = Ret (s, m') \<and> fails m' = fails m \<and>
     live m' = live m + (if s = None then 0 else 1) \<and>
     (\<forall>t. s = Some t \<longrightarrow> render fmt 0 it = Some t) \<and>
     (\<forall>t. render fmt 0 it = Some t \<and> length t + 2 \<le> int_max \<and> (\<forall>i. \<not> fails m i) \<longrightarrow> s = Some t))"

lemma print_result_none: "r = Ret (None, m') \<Longrightarrow> fails m' = fails m \<Longrightarrow> live m' = live m \<Longrightarrow>
    (\<And>t. render fmt 0 it = Some t \<Longrightarrow> length t + 2 \<le> int_max \<Longrightarrow> \<exists>i. fails m i) \<Longrightarrow> print_result it fmt m r"
  by (fastforce simp: print_result_def)

lemma print_result_some: "r = Ret (Some t, m') \<Longrightarrow> fails m' = fails m \<Longrightarrow> live m' = live m + 1 \<Longrightarrow>
    render fmt 0 it = Some t \<Longrightarrow> print_result it fmt m r"
  by (simp add: print_result_def)

lemma ready_new_buffer: "0 < n \<or> rl \<Longrightarrow> ready (new_buffer n fmt rl)"
  by (auto simp: ready_def ok_buf_def new_buffer_def fresh_bytes_def)

lemma new_buffer_simps [simp]: "pb_offset (new_buffer n fmt rl) = 0" "pb_depth (new_buffer n fmt rl) = 0"
  "pb_format (new_buffer n fmt rl) = fmt" "held (new_buffer n fmt rl) = 1"
  "room k (new_buffer n fmt rl) m = (k \<le> int_max \<and> (\<forall>i. \<not> fails m i))"
  by (auto simp: new_buffer_def held_def room_def)

lemma print_item_new:
  assumes "texts_ok it" "0 < n \<or> rl"
  shows "outputs wrote (new_buffer n fmt rl) m 0 (render fmt 0 it)
    (print_item (Some it) (new_buffer n fmt rl) m)"
  using print_value_ok [OF assms(1)] ready_new_buffer [OF assms(2), of fmt]
  by (fastforce simp: value_ok_def print_item_def)

lemma live_free: "live (free_buffer p m) = live m - held p" "fails (free_buffer p m) = fails m"
  by (simp_all add: free_buffer_def held_def)

lemma print_outcome:
  assumes "texts_ok it"
  shows "print_result it fmt m (print (Some it) fmt rl m)"
proof -
  obtain ok m1 where a: "alloc m = (ok, m1)" by (cases "alloc m")
  from alloc_cases [OF a] have m1: "live m1 = live m + (if ok then 1 else 0)" "fails m1 = fails m" by auto
  have no: "\<not> ok \<Longrightarrow> fails m (calls m)" using a by (auto simp: alloc_def split: if_splits)
  let ?p = "new_buffer 256 fmt rl"
  have "outputs wrote ?p m1 0 (render fmt 0 it) (print_item (Some it) ?p m1)"
    by (rule print_item_new [OF assms]) simp
  then obtain ok2 p2 m2 where
    r: "print_item (Some it) ?p m1 = Ret (ok2, p2, m2)" "ok_buf p2" "same_setup ?p p2"
      "live m2 - held p2 = live m1 - held ?p" "fails m2 = fails m1"
      "ok2 \<longrightarrow> pb_depth p2 = 0 \<and> (\<exists>t. render fmt 0 it = Some t \<and> wrote ?p t p2)"
      "\<forall>t. render fmt 0 it = Some t \<and> room (length t + 2) ?p m1 \<longrightarrow> ok2"
    unfolding outputs_def by blast
  consider "\<not> ok" | "ok" "\<not> ok2" | t where "ok" "ok2" "render fmt 0 it = Some t" "wrote ?p t p2"
    using r(6) by blast
  then show ?thesis
  proof cases
    case 1
    with a m1 no show ?thesis by (intro print_result_none [where m' = m1]) (auto simp: print_def)
  next
    case 2
    with r(7) have "\<And>t. render fmt 0 it = Some t \<Longrightarrow> length t + 2 \<le> int_max \<Longrightarrow> \<exists>i. fails m i"
      using m1(2) by auto
    with a m1 r(1,4,5) 2 show ?thesis
      by (intro print_result_none [where m' = "free_buffer p2 m2"]) (auto simp: print_def live_free)
  next
    case 3
    from 3(3) assms have cs: "cstring t" by (rule cstring_render)
    from update_offset_wrote [OF 3(4) cs r(2)] obtain q where
      q: "update_offset p2 = Ret q" "advanced ?p t q" "held q = held p2" "same_setup ?p q" "ok_buf q"
      using r(3) by blast
    then obtain bs where bs: "pb_buffer q = Some bs" "pb_offset q = length t" "pb_buffer p2 = Some bs"
      using 3(4) by (auto simp: advanced_def wrote_def update_offset_def run_simps skip_def)
    note str = string_of_wrote [OF 3(4) new_buffer_simps(1) bs(3) cs]
    have len: "length bs = pb_length q" using q(4,5) bs(1)
      by (simp add: same_setup_def ok_buf_def new_buffer_def)
    have h: "live m2 = live m + 1" using r(4) m1(1) 3(1) bs(3) by (simp add: held_def new_buffer_def)
    obtain ok3 m3 where m3: "(if rl then realloc m2 else alloc m2) = (ok3, m3)"
      by (cases "if rl then realloc m2 else alloc m2")
    have f3: "fails m3 = fails m2" "live m3 = live m2 + (if \<not> rl \<and> ok3 then 1 else 0)"
      "\<not> ok3 \<Longrightarrow> fails m2 (calls m2)"
      using m3 by (auto simp: realloc_def alloc_def split: if_splits)
    show ?thesis
    proof (cases ok3)
      case False
      with f3(3) have "\<exists>i. fails m i" using r(5) m1(2) by auto
      with False a r(1) 3 q(1) bs m3 f3 h m1(2) r(5) show ?thesis
        by (intro print_result_none [where m' = "dealloc m3"]) (auto simp: print_def Let_def)
    next
      case True
      have "(take (min (pb_length q) (length t + 1)) bs @ fresh_bytes (length t + 1 - min (pb_length q) (length t + 1)))
          [length t := Some NUL] = take (length t + 1) bs"
        using str(2) len string_of_wrote(3) 3(4)
        by (auto simp: fresh_bytes_def min_def wrote_def bs(3) list_update_append)
      with True a r(1) 3 q(1) bs m3 f3 h m1(2) r(5) str len show ?thesis
        by (intro print_result_some [where t = t and m' = "if rl then m3 else dealloc m3"]) (auto simp: print_def Let_def min_def)
    qed
  qed
qed

lemma buffered_outcome:
  assumes "texts_ok it" "0 < n \<or> rl"
  shows "print_result it fmt m (cJSON_PrintBuffered (Some it) (int n) fmt rl m)"
proof -
  obtain ok m1 where a: "alloc m = (ok, m1)" by (cases "alloc m")
  from alloc_cases [OF a] have m1: "live m1 = live m + (if ok then 1 else 0)" "fails m1 = fails m" by auto
  have no: "\<not> ok \<Longrightarrow> fails m (calls m)" using a by (auto simp: alloc_def split: if_splits)
  let ?p = "new_buffer n fmt rl"
  from print_item_new [OF assms, of fmt m1] obtain ok2 p2 m2 where
    r: "print_item (Some it) ?p m1 = Ret (ok2, p2, m2)" "ok_buf p2" "same_setup ?p p2"
      "live m2 - held p2 = live m1 - held ?p" "fails m2 = fails m1"
      "ok2 \<longrightarrow> pb_depth p2 = 0 \<and> (\<exists>t. render fmt 0 it = Some t \<and> wrote ?p t p2)"
      "\<forall>t. render fmt 0 it = Some t \<and> room (length t + 2) ?p m1 \<longrightarrow> ok2"
    unfolding outputs_def by blast
  consider "\<not> ok" | "ok" "\<not> ok2" | t where "ok" "ok2" "render fmt 0 it = Some t" "wrote ?p t p2"
    using r(6) by blast
  then show ?thesis
  proof cases
    case 1
    with a m1 no show ?thesis
      by (intro print_result_none [where m' = m1]) (auto simp: cJSON_PrintBuffered_def)
  next
    case 2
    with r(7) have "\<And>t. render fmt 0 it = Some t \<Longrightarrow> length t + 2 \<le> int_max \<Longrightarrow> \<exists>i. fails m i"
      using m1(2) by auto
    with a m1 r(1,4,5) 2 show ?thesis
      by (intro print_result_none [where m' = "free_buffer p2 m2"]) (auto simp: cJSON_PrintBuffered_def live_free)
  next
    case 3
    from 3(4) obtain bs where bs: "pb_buffer p2 = Some bs" by (auto simp: wrote_def)
    from 3(3) assms(1) have "cstring t" by (rule cstring_render)
    from string_of_wrote(1) [OF 3(4) new_buffer_simps(1) bs this] have s: "string_of bs = Ret t" .
    have "live m2 = live m + 1" using r(4) m1(1) 3(1) bs by (simp add: held_def new_buffer_def)
    with a r(1,5) 3 bs s m1(2) show ?thesis
      by (intro print_result_some [where t = t]) (auto simp: cJSON_PrintBuffered_def)
  qed
qed

section \<open>Properties\<close>

text \<open>C4: cJSON_Print on a tree of C strings never leaves its buffer, with or without realloc and
  whatever the allocator refuses; a string it returns is the rendering of the tree and the one
  block more that is allocated; without a string nothing more is allocated; and it
  returns the string when the tree has a rendering shorter than INT_MAX and nothing is refused.\<close>

theorem Print_renders:
  assumes "texts_ok it"
  shows "\<exists>s m'. cJSON_Print (Some it) has_realloc m = Ret (s, m') \<and>
    live m' = live m + (if s = None then 0 else 1) \<and> (s \<noteq> None \<longrightarrow> s = render True 0 it) \<and>
    (length (the (render True 0 it)) + 2 \<le> int_max \<and> (\<forall>i. \<not> fails m i) \<longrightarrow> s = render True 0 it)"
proof -
  from print_outcome [OF assms, of True m has_realloc] obtain s m' where
    p: "cJSON_Print (Some it) has_realloc m = Ret (s, m')"
      "live m' = live m + (if s = None then 0 else 1)" "\<forall>t. s = Some t \<longrightarrow> render True 0 it = Some t"
      "\<forall>t. render True 0 it = Some t \<and> length t + 2 \<le> int_max \<and> (\<forall>i. \<not> fails m i) \<longrightarrow> s = Some t"
    unfolding print_result_def cJSON_Print_def by blast
  then show ?thesis by (cases s; cases "render True 0 it") auto
qed

theorem Print_renders_witness:
  "\<exists>s m'. cJSON_Print (Some (Item cJSON_Array None 0 (DNum False 0) None
        [Item cJSON_String (Some [CHR 0x22]) 0 (DNum False 0) None []])) False
      \<lparr>fails = (\<lambda>_. False), calls = 0, live = 0\<rparr> = Ret (s, m') \<and> live m' = 1 \<and>
      s = Some (''['' @ [CHR 0x22, CHR 0x5C, CHR 0x22, CHR 0x22] @ '']'')"
proof -
  let ?it = "Item cJSON_Array None 0 (DNum False 0) None
        [Item cJSON_String (Some [CHR 0x22]) 0 (DNum False 0) None []]"
  have r: "render True 0 ?it = Some (''['' @ [CHR 0x22, CHR 0x5C, CHR 0x22, CHR 0x22] @ '']'')"
    by (simp add: render_scalar_def type_defs kind_def quoted_def escaped_def escape_text_def short_escapes_def)
  from Print_renders [of ?it False "\<lparr>fails = (\<lambda>_. False), calls = 0, live = 0\<rparr>"] show ?thesis
    unfolding r by (auto simp: int_max_def)
qed

text \<open>C36: cJSON_PrintPreallocated never writes outside the caller's buffer: bytes from the given
  length on keep their value. When it succeeds the buffer starts with the rendering and its null
  byte, and it succeeds as soon as the buffer has two bytes more than the text: the five spare
  bytes the header asks for are enough. The allocator is never called.\<close>

theorem PrintPreallocated_bounded:
  assumes "texts_ok it" and "0 \<le> len" and "len \<le> int int_max" and "nat len \<le> length bs"
  shows "\<exists>ok bs' m'. cJSON_PrintPreallocated (Some it) (Some bs) len fmt m = Ret (ok, Some bs', m') \<and>
    length bs' = length bs \<and> drop (nat len) bs' = drop (nat len) bs \<and> live m' = live m \<and>
    (ok \<longrightarrow> (\<exists>t. render fmt 0 it = Some t \<and> take (length t + 1) bs' = map Some (t @ [NUL]))) \<and>
    (\<forall>t. render fmt 0 it = Some t \<and> int (length t) + 2 \<le> len \<longrightarrow> ok)"
proof -
  let ?p = "\<lparr>pb_buffer = Some bs, pb_length = nat len, pb_offset = 0, pb_depth = 0,
            pb_noalloc = True, pb_format = fmt, pb_realloc = True\<rparr>"
  have "ready ?p" using assms(2-4) by (auto simp: ready_def ok_buf_def)
  with print_value_ok [OF assms(1)] have "outputs wrote ?p m 0 (render fmt 0 it) (print_item (Some it) ?p m)"
    by (fastforce simp: value_ok_def print_item_def)
  then obtain ok p2 m2 where
    r: "print_item (Some it) ?p m = Ret (ok, p2, m2)" "same_setup ?p p2"
      "live m2 - held p2 = live m - held ?p" 
      "ok \<longrightarrow> (\<exists>t. render fmt 0 it = Some t \<and> wrote ?p t p2)"
      "\<forall>t. render fmt 0 it = Some t \<and> room (length t + 2) ?p m \<longrightarrow> ok"
    unfolding outputs_def by blast
  from r(2) obtain bs' where bs': "pb_buffer p2 = Some bs'" "length bs' = length bs"
    "drop (nat len) bs' = drop (nat len) bs" by (auto simp: same_setup_def)
  have "live m2 = live m" using r(3) bs'(1) by (simp add: held_def)
  moreover have "ok \<longrightarrow> (\<exists>t. render fmt 0 it = Some t \<and> take (length t + 1) bs' = map Some (t @ [NUL]))"
    using r(4) bs'(1) by (auto simp: wrote_def)
  moreover have "\<forall>t. render fmt 0 it = Some t \<and> int (length t) + 2 \<le> len \<longrightarrow> ok"
    using r(5) by (auto simp: room_def)
  ultimately show ?thesis using r(1) bs' assms(2) by (simp add: cJSON_PrintPreallocated_def)
qed

theorem PrintPreallocated_bounded_witness:
  "\<forall>m. \<exists>bs' m'. cJSON_PrintPreallocated (Some (Item cJSON_True None 0 (DNum False 0) None []))
      (Some (replicate 8 (Some CHR ''x''))) 6 False m = Ret (True, Some bs', m') \<and>
    take 5 bs' = map Some (''true'' @ [NUL]) \<and> drop 6 bs' = [Some CHR ''x'', Some CHR ''x'']"
proof
  fix m
  let ?it = "Item cJSON_True None 0 (DNum False 0) None []" and ?bs = "replicate 8 (Some CHR ''x'')"
  have r: "render False 0 ?it = Some ''true''" by (simp add: render_scalar_def type_defs kind_def)
  have d: "drop 6 ?bs = [Some CHR ''x'', Some CHR ''x'']" by (simp add: eval_nat_numeral)
  have i: "texts_ok ?it" "(0::int) \<le> 6" "6 \<le> int int_max" "nat 6 \<le> length ?bs"
    by (simp_all add: int_max_def)
  obtain ok bs' m' where p: "cJSON_PrintPreallocated (Some ?it) (Some ?bs) 6 False m = Ret (ok, Some bs', m')"
    "drop (nat 6) bs' = drop (nat 6) ?bs"
    "ok \<longrightarrow> (\<exists>t. render False 0 ?it = Some t \<and> take (length t + 1) bs' = map Some (t @ [NUL]))"
    "\<forall>t. render False 0 ?it = Some t \<and> int (length t) + 2 \<le> 6 \<longrightarrow> ok"
    using PrintPreallocated_bounded [OF i, of False m] by blast
  have ok using p(4) r by simp
  with p(3) r have "take 5 bs' = map Some (''true'' @ [NUL])" by (simp add: eval_nat_numeral)
  moreover have "drop 6 bs' = [Some CHR ''x'', Some CHR ''x'']"
    using p(2) d by (simp only: nat_numeral)
  ultimately show "\<exists>bs' m'. cJSON_PrintPreallocated (Some ?it) (Some ?bs) 6 False m = Ret (True, Some bs', m') \<and>
    take 5 bs' = map Some (''true'' @ [NUL]) \<and> drop 6 bs' = [Some CHR ''x'', Some CHR ''x'']"
    using p(1) \<open>ok\<close> by (intro exI [of _ bs'] exI [of _ m']) simp
qed

text \<open>cJSON_PrintBuffered is as safe and exact as cJSON_Print for every initial size, provided the
  size is positive or the hooks have a reallocate function.\<close>

theorem PrintBuffered_renders:
  assumes "texts_ok it" and "0 < n \<or> has_realloc"
  shows "\<exists>s m'. cJSON_PrintBuffered (Some it) (int n) fmt has_realloc m = Ret (s, m') \<and>
    live m' = live m + (if s = None then 0 else 1) \<and> (s \<noteq> None \<longrightarrow> s = render fmt 0 it)"
proof -
  from buffered_outcome [OF assms, of fmt m] obtain s m' where
    p: "cJSON_PrintBuffered (Some it) (int n) fmt has_realloc m = Ret (s, m')"
      "live m' = live m + (if s = None then 0 else 1)" "\<forall>t. s = Some t \<longrightarrow> render fmt 0 it = Some t"
    unfolding print_result_def by blast
  then show ?thesis by (cases s) auto
qed

theorem PrintBuffered_renders_witness:
  "\<forall>m. \<exists>s m'. cJSON_PrintBuffered (Some (Item cJSON_NULL None 0 (DNum False 0) None [])) (int 1) True False m =
    Ret (s, m') \<and> (s \<noteq> None \<longrightarrow> s = Some ''null'')"
proof
  fix m
  have r: "render True 0 (Item cJSON_NULL None 0 (DNum False 0) None []) = Some ''null''"
    by (simp add: render_scalar_def type_defs kind_def)
  show "\<exists>s m'. cJSON_PrintBuffered (Some (Item cJSON_NULL None 0 (DNum False 0) None [])) (int 1) True False m =
    Ret (s, m') \<and> (s \<noteq> None \<longrightarrow> s = Some ''null'')"
    using PrintBuffered_renders [of "Item cJSON_NULL None 0 (DNum False 0) None []" 1 False True m]
    unfolding r by auto
qed

text \<open>With an initial size of 0 and hooks without reallocate, growing the buffer copies the byte
  at the offset from a block of no bytes, whatever is printed.\<close>

theorem PrintBuffered_empty_overreads:
  "cJSON_PrintBuffered (Some (Item cJSON_NULL None 0 (DNum False 0) None [])) 0 fmt False
     \<lparr>fails = (\<lambda>_. False), calls = 0, live = 0\<rparr> = Undef"
  by (simp add: cJSON_PrintBuffered_def alloc_def print_item_def print_scalar_def put_text_def ensure_def
      grow_def new_buffer_def fresh_bytes_def int_max_def type_defs kind_def)

end
