(* ===== verification/CJson_Roundtrip.thy ===== *)
theory CJson_Roundtrip
  imports CJson_Parse CJson_Render
begin

text \<open>
  Parsing what the printer wrote. The lemmas follow the parser over the rendering of a tree: white
  space, strings with their escapes, integers, arrays and objects; the theorem at the end says that
  cJSON_Parse gives back the tree cJSON_Print was given.
\<close>

section \<open>Reading from a position of the buffer\<close>

definition pbuf :: "string \<Rightarrow> nat \<Rightarrow> nat \<Rightarrow> parse_buffer" where
  "pbuf m i d = \<lparr>content = m, buf_length = length m, offset = i, depth = d\<rparr>"

lemma pbuf_simps [simp]:
  "content (pbuf m i d) = m" "buf_length (pbuf m i d) = length m" "offset (pbuf m i d) = i"
  "depth (pbuf m i d) = d" "(pbuf m i d)\<lparr>offset := j\<rparr> = pbuf m j d"
  "advance k (pbuf m i d) = pbuf m (i + k) d" "step_back (pbuf m i d) = pbuf m (i - 1) d"
  "deeper (pbuf m i d) = pbuf m i (d + 1)" "shallower (pbuf m i d) = pbuf m i (d - 1)"
  by (simp_all add: pbuf_def advance_def step_back_def deeper_def shallower_def)

lemma drop_ConsD: "drop i m = c # r \<Longrightarrow> i < length m \<and> m ! i = c \<and> drop (Suc i) m = r"
  by (metis Cons_nth_drop_Suc drop_eq_Nil2 linorder_not_less list.distinct(1) list.inject)

lemma drop_appD: "drop i m = t @ r \<Longrightarrow> drop (i + length t) m = r"
  by (metis add.commute append_eq_conv_conj drop_drop)

lemma rd_drop: "drop i m = c # r \<Longrightarrow> rd m i = Ret c"
  using drop_ConsD [of i m c r] by (simp add: rd_def)

lemma rd_drop_nth:
  assumes "drop i m = t @ r" "j < length t"
  shows "rd m (i + j) = Ret (t ! j)"
proof -
  have "i + j < length m" using arg_cong [OF assms(1), of length] assms(2) by simp
  moreover from this have "m ! (i + j) = drop i m ! j" by simp
  ultimately show ?thesis using assms by (simp add: nth_append)
qed

lemma at_char_pbuf: "drop i m = c # r \<Longrightarrow> at_char (pbuf m i d) x = Ret (c = x)"
  using drop_ConsD [of i m c r] by (simp add: at_char_def can_access_at_index_def buffer_at_offset_def)

lemma at_byte_pbuf: "drop i m = c # r \<Longrightarrow> buffer_at_offset (pbuf m i d) 0 = Ret c"
  using drop_ConsD [of i m c r] by (simp add: buffer_at_offset_def)

lemma can_access_pbuf: "drop i m = c # r \<Longrightarrow> can_access_at_index (pbuf m i d) 0"
  using drop_ConsD [of i m c r] by (simp add: can_access_at_index_def)

lemma skip_loop_spaces:
  "drop i m = ws @ c # r \<Longrightarrow> \<forall>x \<in> set ws. is_space x \<Longrightarrow> \<not> is_space c \<Longrightarrow>
   skip_loop m (length m) i = Ret (i + length ws)"
proof (induction ws arbitrary: i)
  case Nil
  then show ?case using drop_ConsD [of i m c r] by (simp add: skip_loop.simps [of m _ i])
next
  case (Cons w ws)
  then have "drop i m = w # (ws @ c # r)" by simp
  from drop_ConsD [OF this] Cons show ?case by (simp add: skip_loop.simps [of m _ i])
qed

lemma skip_spaces:
  assumes "drop i m = ws @ c # r" "\<forall>x \<in> set ws. is_space x" "\<not> is_space c"
  shows "buffer_skip_whitespace (pbuf m i d) = Ret (pbuf m (i + length ws) d)"
proof -
  have "i + length ws < length m"
    using drop_ConsD [OF drop_appD [OF assms(1)]] by simp
  then show ?thesis using skip_loop_spaces [OF assms]
    by (simp add: buffer_skip_whitespace_def can_access_at_index_def)
qed

lemma skip_nothing: "drop i m = c # r \<Longrightarrow> \<not> is_space c \<Longrightarrow>
    buffer_skip_whitespace (pbuf m i d) = Ret (pbuf m i d)"
  using skip_spaces [of i m "[]" c r d] by simp

text \<open>The allocator refuses nothing.\<close>

definition no_refusals :: "amem \<Rightarrow> bool" where
  "no_refusals m \<longleftrightarrow> (\<forall>i. \<not> fails m i)"

section \<open>Strings\<close>

lemma hex_digit_char: "k < 16 \<Longrightarrow> hex_digit (hex_char k) = Some k"
  by (drule hex_cases) (auto simp: hex_digit_def hex_char_def)

lemma hex_char_plain: "k < 16 \<Longrightarrow> hex_char k \<noteq> CHR 0x22 \<and> hex_char k \<noteq> CHR 0x5C"
  by (drule hex_cases) (auto simp: hex_char_def)

lemma char_div_16: "(of_char c :: nat) div 16 < 16" "(of_char c :: nat) mod 16 < 16"
proof -
  have "(of_char c :: nat) < 256" by (rule nat_of_char_less_256)
  then show "(of_char c :: nat) div 16 < 16" by (simp add: div_less_iff_less_mult)
qed simp

text \<open>The three forms a character takes in the rendering.\<close>

lemma escape_text_cases:
  obtains (plain) "escape_text c = [c]" "c \<noteq> CHR 0x22" "c \<noteq> CHR 0x5C"
  | (short) e where "escape_text c = [CHR 0x5C, e]" "map_of short_escapes c = Some e"
  | (code) "escape_text c = [CHR 0x5C, CHR ''u'', CHR ''0'', CHR ''0'', hex_char (of_char c div 16),
      hex_char (of_char c mod 16)]" "(of_char c :: nat) < 32"
proof (cases "map_of short_escapes c")
  case (Some e)
  then show ?thesis by (intro short) (simp_all add: escape_text_def)
next
  case None
  then have "c \<noteq> CHR 0x22" "c \<noteq> CHR 0x5C" by (auto simp: short_escapes_def)
  with None plain code show ?thesis
    by (cases "(of_char c :: nat) < 32") (simp_all add: escape_text_def hex4_text_def)
qed

lemma scan_plain:
  "drop i m = cs @ r \<Longrightarrow> \<forall>c \<in> set cs. c \<noteq> CHR 0x22 \<and> c \<noteq> CHR 0x5C \<Longrightarrow>
   scan_string m (length m) i k = scan_string m (length m) (i + length cs) k"
proof (induction cs arbitrary: i)
  case (Cons c cs)
  then have "drop i m = c # (cs @ r)" by simp
  from drop_ConsD [OF this] Cons.prems(2) Cons.IH [of "Suc i"] show ?case
    by (simp add: scan_string.simps [of m _ i])
qed simp

lemma scan_escape:
  assumes "drop i m = CHR 0x5C # e # r"
  shows "scan_string m (length m) i k = scan_string m (length m) (i + 2) (k + 1)"
proof -
  from drop_ConsD [OF assms] have i: "i < length m" "m ! i = CHR 0x5C" "drop (Suc i) m = e # r" by auto
  from drop_ConsD [OF i(3)] have "i + 1 < length m" by simp
  with i show ?thesis by (simp add: scan_string.simps [of m _ i])
qed

definition escape_count :: "string \<Rightarrow> nat" where
  "escape_count s = length (filter (\<lambda>c. escape_text c \<noteq> [c]) s)"

lemma escape_count_bound: "length s + escape_count s \<le> length (escaped s)"
proof (induction s)
  case (Cons c s)
  then show ?case
    by (cases c rule: escape_text_cases) (auto simp: escaped_def escape_count_def)
qed (simp add: escape_count_def)

lemma scan_escaped:
  "drop i m = escaped s @ CHR 0x22 # r \<Longrightarrow>
   scan_string m (length m) i k = Ret (Some (i + length (escaped s), k + escape_count s))"
proof (induction s arbitrary: i k)
  case Nil
  then have "drop i m = CHR 0x22 # r" by (simp add: escaped_def)
  from drop_ConsD [OF this] show ?case
    by (simp add: scan_string.simps [of m _ i] escaped_def escape_count_def)
next
  case (Cons c s)
  have d: "drop i m = escape_text c @ escaped s @ CHR 0x22 # r"
    using Cons.prems by (simp add: escaped_def)
  have l: "length (escaped (c # s)) = length (escape_text c) + length (escaped s)"
    by (simp add: escaped_def)
  note ih = Cons.IH [OF drop_appD [OF d]]
  show ?case
  proof (cases c rule: escape_text_cases)
    case plain
    with scan_plain [OF d, of k] ih [of k] l show ?thesis by (simp add: escape_count_def)
  next
    case (short e)
    with d have "drop i m = CHR 0x5C # e # (escaped s @ CHR 0x22 # r)" by simp
    from scan_escape [OF this, of k] ih [of "k + 1"] short l show ?thesis by (simp add: escape_count_def)
  next
    case code
    let ?h = "[CHR ''0'', CHR ''0'', hex_char (of_char c div 16), hex_char (of_char c mod 16)]"
    from d code have d2: "drop i m = CHR 0x5C # CHR ''u'' # (?h @ escaped s @ CHR 0x22 # r)" by simp
    then have d3: "drop (i + 2) m = ?h @ escaped s @ CHR 0x22 # r"
      using drop_appD [of i m "[CHR 0x5C, CHR ''u'']"] by simp
    have "\<forall>x \<in> set ?h. x \<noteq> CHR 0x22 \<and> x \<noteq> CHR 0x5C"
      using hex_char_plain [OF char_div_16(1)] hex_char_plain [OF char_div_16(2)] by simp
    from scan_plain [OF d3 this, of "k + 1"] scan_escape [OF d2, of k] ih [of "k + 1"] code l
    show ?thesis by (simp add: escape_count_def)
  qed
qed

lemma utf8_ascii: "(of_char c :: nat) < 32 \<Longrightarrow> utf8_encode (of_char c) = Some [c]"
proof -
  assume c: "(of_char c :: nat) < 32"
  have "(of_char c :: nat) AND 0x7F = take_bit 7 (of_char c)"
    by (simp add: take_bit_eq_mask mask_eq_exp_minus_1)
  also have "\<dots> = of_char c" using c by (simp add: take_bit_eq_mod)
  finally show ?thesis using c by (simp add: utf8_encode_def)
qed

lemma hex4_step: "rd m (p + i) = Ret c \<Longrightarrow> i < 4 \<Longrightarrow> hex_digit c = Some d \<Longrightarrow>
    hex4_loop m p i h = hex4_loop m p (Suc i) (if i < 3 then (h + d) * 16 else h + d)"
  by (subst hex4_loop.simps) simp

lemma short_escapes_pairs: "map_of short_escapes c = Some e \<Longrightarrow> (c, e) \<in> set short_escapes"
  by (rule map_of_SomeD)

lemma escape_step_text:
  assumes "drop i m = escape_text c @ r" "i + length (escape_text c) \<le> e" "c \<noteq> NUL"
  shows "escape_step m i e = Ret (length (escape_text c), [c])"
proof (cases c rule: escape_text_cases)
  case plain
  with rd_drop [of i m c r] assms(1) show ?thesis by (simp add: escape_step_def)
next
  case (short x)
  then have "rd m i = Ret CHR 0x5C" "rd m (i + 1) = Ret x"
    using rd_drop_nth [OF assms(1), of 0] rd_drop_nth [OF assms(1), of 1] by simp_all
  with short_escapes_pairs [OF short(2)] short(1) show ?thesis
    by (auto simp: escape_step_def short_escapes_def)
next
  case code
  let ?a = "of_char c div 16 :: nat" and ?b = "of_char c mod 16 :: nat"
  have nth: "rd m (i + j) = Ret ([CHR 0x5C, CHR ''u'', CHR ''0'', CHR ''0'', hex_char ?a, hex_char ?b] ! j)"
    if "j < 6" for j using rd_drop_nth [OF assms(1), of j] that unfolding code(1) by simp
  have r: "rd m i = Ret CHR 0x5C" "rd m (i + 1) = Ret CHR ''u''" "rd m (i + 2) = Ret CHR ''0''"
    "rd m (i + 3) = Ret CHR ''0''" "rd m (i + 4) = Ret (hex_char ?a)" "rd m (i + 5) = Ret (hex_char ?b)"
    using nth [of 0] nth [of 1] nth [of 2] nth [of 3] nth [of 4] nth [of 5] by simp_all
  have h: "hex_digit (hex_char ?a) = Some ?a" "hex_digit (hex_char ?b) = Some ?b"
    using hex_digit_char char_div_16 by auto
  have z: "hex_digit CHR ''0'' = Some 0" by (simp add: hex_digit_def)
  have suc3: "Suc 3 = 4" by simp
  have p: "i + 2 + 0 = i + 2" "i + 2 + 1 = i + 3" "i + 2 + 2 = i + 4" "i + 2 + 3 = i + 5" by simp_all
  have "parse_hex4 m (i + 2) = hex4_loop m (i + 2) 1 0"
    unfolding parse_hex4_def using hex4_step [of m "i + 2" 0, unfolded p, OF r(3) _ z] by simp
  also have "\<dots> = hex4_loop m (i + 2) 2 0"
    using hex4_step [of m "i + 2" 1, unfolded p, OF r(4) _ z] by (simp add: numeral_2_eq_2)
  also have "\<dots> = hex4_loop m (i + 2) 3 (?a * 16)"
    using hex4_step [of m "i + 2" 2, unfolded p, OF r(5) _ h(1)] by (simp add: numeral_3_eq_3 numeral_2_eq_2)
  also have "\<dots> = hex4_loop m (i + 2) 4 (?a * 16 + ?b)"
    using hex4_step [of m "i + 2" 3, unfolded p, OF r(6) _ h(2)] by (simp add: suc3)
  also have "\<dots> = Ret (?a * 16 + ?b)" by (subst hex4_loop.simps) simp
  finally have "parse_hex4 m (i + 2) = Ret (?a * 16 + ?b)" .
  then have px: "parse_hex4 m (i + 2) = Ret (of_char c)" by simp
  have s: "\<not> e - i < 6" using assms(2) code by simp
  have lt: "(of_char c :: nat) < 32" using code by simp
  have "utf16_literal_to_utf8 m i e = Ret (6, [c])"
    using s px utf8_ascii [OF lt] lt by (simp add: utf16_literal_to_utf8_def)
  with r(1,2) code show ?thesis by (simp add: escape_step_def)
qed

lemma unescape_escaped:
  "drop i m = escaped s @ CHR 0x22 # r \<Longrightarrow> cstring s \<Longrightarrow> length out + length s \<le> cap \<Longrightarrow>
   unescape m i (i + length (escaped s)) cap out = Ret (True, i + length (escaped s), out @ s)"
proof (induction s arbitrary: i out)
  case Nil
  then show ?case by (simp add: escaped_def unescape.simps [of m i])
next
  case (Cons c s)
  have d: "drop i m = escape_text c @ escaped s @ CHR 0x22 # r"
    using Cons.prems(1) by (simp add: escaped_def)
  have l: "length (escaped (c # s)) = length (escape_text c) + length (escaped s)"
    by (simp add: escaped_def)
  have p: "0 < length (escape_text c)" by (cases c rule: escape_text_cases) auto
  have st: "escape_step m i (i + length (escaped (c # s))) = Ret (length (escape_text c), [c])"
    using escape_step_text [OF d] Cons.prems(2) l by simp
  have em: "emit cap out [c] = Ret (out @ [c])" using Cons.prems(3) by (simp add: emit_def)
  have "unescape m i (i + length (escaped (c # s))) cap out =
      unescape m (i + length (escape_text c)) (i + length (escaped (c # s))) cap (out @ [c])"
    using p l by (subst unescape.simps) (simp add: st [unfolded l] em)
  also have "\<dots> = Ret (True, i + length (escaped (c # s)), (out @ [c]) @ s)"
    using Cons.IH [OF drop_appD [OF d], of "out @ [c]"] Cons.prems(2,3) l by (simp add: add.assoc)
  finally show ?case by simp
qed

lemma parse_string_quoted:
  assumes "drop i m = quoted (Some s) @ r" "cstring s" "no_refusals M"
  shows "\<exists>M'. parse_string it (pbuf m i d) M = Ret (True, set_ty cJSON_String (set_valuestring (Some s) it),
    pbuf m (i + length (quoted (Some s))) d, M') \<and> no_refusals M'"
proof -
  let ?E = "length (escaped s)" and ?e = "i + 1 + length (escaped s)"
  have d: "drop i m = [CHR 0x22] @ (escaped s @ CHR 0x22 # r)" using assms(1) by (simp add: quoted_def)
  from drop_appD [OF d] have d1: "drop (i + 1) m = escaped s @ CHR 0x22 # r" by simp
  have i: "?e < length m" using drop_ConsD [OF drop_appD [OF d1]] by simp
  obtain M1 where M1: "alloc M = (True, M1)" "no_refusals M1"
    using assms(3) by (auto simp: alloc_def no_refusals_def)
  have sc: "scan_string m (length m) (i + 1) 0 = Ret (Some (?e, escape_count s))"
    using scan_escaped [OF d1, of 0] by simp
  let ?cap = "?e - i - escape_count s + 1"
  have cap: "length s + 1 \<le> ?cap" using escape_count_bound [of s] by linarith
  have un: "unescape m (i + 1) ?e ?cap [] = Ret (True, ?e, s)"
    using unescape_escaped [OF d1 assms(2), of "[]" ?cap] cap by simp
  have "emit ?cap s [NUL] = Ret (s @ [NUL])" using cap by (simp add: emit_def)
  moreover have "cstr_from (s @ [NUL]) = Ret s" using cstr_from_app [OF assms(2), of "[]"] by simp
  moreover have "buffer_at_offset (pbuf m i d) 0 = Ret CHR 0x22" using at_byte_pbuf d by simp
  ultimately show ?thesis using sc un i M1
    by (simp add: parse_string_def Let_def quoted_def)
qed

section \<open>Trees the parser gives back\<close>

text \<open>The trees without raw items, references, unnamed members or numbers that are not ints: what
  the watcher builds, and more.\<close>

fun plain :: "cjson \<Rightarrow> bool" where
  "plain (Item t vs vi vd nm ch) \<longleftrightarrow>
     (\<forall>s \<in> set_option nm. cstring s) \<and>
     (t \<in> {cJSON_NULL, cJSON_False, cJSON_True} \<or>
      t = cJSON_Number \<and> vd = dbl_of_int vi \<and> INT_MIN \<le> vi \<and> vi \<le> INT_MAX \<or>
      t = cJSON_String \<and> (\<exists>s. vs = Some s \<and> cstring s) \<or>
      t = cJSON_Array \<and> (\<forall>c \<in> set ch. plain c \<and> name c = None) \<or>
      t = cJSON_Object \<and> (\<forall>c \<in> set ch. plain c \<and> name c \<noteq> None))"

text \<open>The fields the parser leaves zero, and the 1 it stores for true.\<close>

fun canon :: "cjson \<Rightarrow> cjson" where
  "canon (Item t vs vi vd nm ch) =
     (if t = cJSON_Number then Item t None vi vd nm []
      else if t = cJSON_String then Item t vs 0 (DNum False 0) nm []
      else if t = cJSON_Array \<or> t = cJSON_Object then Item t None 0 (DNum False 0) nm (map canon ch)
      else if t = cJSON_True then Item t None 1 (DNum False 0) nm []
      else Item t None 0 (DNum False 0) nm [])"

fun height :: "cjson \<Rightarrow> nat" where
  "height (Item t vs vi vd nm ch) =
     (if t = cJSON_Array \<or> t = cJSON_Object then Suc (Max (insert 0 (height ` set ch))) else 0)"

lemma type_distinct [simp]:
  "cJSON_NULL \<noteq> cJSON_False" "cJSON_NULL \<noteq> cJSON_True" "cJSON_NULL \<noteq> cJSON_Number"
  "cJSON_NULL \<noteq> cJSON_String" "cJSON_NULL \<noteq> cJSON_Array" "cJSON_NULL \<noteq> cJSON_Object"
  "cJSON_False \<noteq> cJSON_True" "cJSON_False \<noteq> cJSON_Number" "cJSON_False \<noteq> cJSON_String"
  "cJSON_False \<noteq> cJSON_Array" "cJSON_False \<noteq> cJSON_Object" "cJSON_True \<noteq> cJSON_Number"
  "cJSON_True \<noteq> cJSON_String" "cJSON_True \<noteq> cJSON_Array" "cJSON_True \<noteq> cJSON_Object"
  "cJSON_Number \<noteq> cJSON_String" "cJSON_Number \<noteq> cJSON_Array" "cJSON_Number \<noteq> cJSON_Object"
  "cJSON_String \<noteq> cJSON_Array" "cJSON_String \<noteq> cJSON_Object" "cJSON_Array \<noteq> cJSON_Object"
  "cJSON_Raw \<noteq> cJSON_String" "cJSON_String \<noteq> cJSON_Raw"
  by (simp_all add: type_defs)

lemmas type_distinct_sym [simp] = type_distinct [symmetric]

definition starter :: "char \<Rightarrow> bool" where
  "starter c \<longleftrightarrow> c \<in> {CHR ''n'', CHR ''f'', CHR ''t'', CHR 0x22, CHR ''-'', CHR ''['', CHR ''{''} \<or> is_digit c"

lemma starter_not_space: "starter c \<Longrightarrow> \<not> is_space c"
  by (auto simp: starter_def is_space_def is_digit_def)

lemma number_text_int: "number_text (dbl_of_int i) i = print_int i"
  by (simp add: number_text_def dbl_of_int_def deq_def)

lemma print_int_starts: "\<exists>c u. print_int i = c # u \<and> (c = CHR ''-'' \<or> is_digit c)"
proof (cases "dec_digits (nat i)")
  case Nil
  then show ?thesis by simp
next
  case (Cons c u)
  then have "is_digit c" using dec_digits_all [of "nat i"] by simp
  with Cons show ?thesis by (auto simp: print_int_def)
qed

lemma render_starts: "plain it \<Longrightarrow> render fmt d it = Some t \<Longrightarrow> \<exists>c u. t = c # u \<and> starter c"
proof (induction it)
  case (Item tt vs vi vd nm ch)
  show ?case
  proof (cases "tt = cJSON_Number")
    case True
    with Item.prems have "t = print_int vi"
      by (auto simp: render_scalar_def number_text_int Let_def split: if_splits)
    with print_int_starts [of vi] show ?thesis by (auto simp: starter_def)
  next
    case False
    with Item.prems show ?thesis
      by (auto simp: cat_eq_Some render_scalar_def Let_def quoted_def starter_def split: if_splits)
  qed
qed

section \<open>Literals and numbers\<close>

lemma looking_at_other: "drop i m = c # r \<Longrightarrow> c \<noteq> x \<Longrightarrow> looking_at (pbuf m i d) (x # xs) = Ret False"
  using rd_drop [of i m c r] by (simp add: looking_at_def)

lemma strncmp_drop: "drop i m = lit @ r \<Longrightarrow> strncmp_eq m i lit = Ret True"
proof (induction lit arbitrary: i)
  case (Cons c lit)
  then have "drop i m = c # (lit @ r)" by simp
  with drop_ConsD [OF this] rd_drop [OF this] Cons.IH [of "Suc i"] show ?case by simp
qed simp

lemma looking_at_this:
  assumes "drop i m = lit @ r" "lit \<noteq> []" shows "looking_at (pbuf m i d) lit = Ret True"
proof -
  have "length m - i = length lit + length r" "0 < length lit"
    using arg_cong [OF assms(1), of length] assms(2) by simp_all
  then have "i + length lit \<le> length m" by linarith
  then show ?thesis using strncmp_drop [OF assms(1)] by (simp add: looking_at_def can_read_def)
qed

lemma copy_number_text:
  "drop (off + i) m = s @ r \<Longrightarrow> \<forall>c \<in> set s. num_char c \<Longrightarrow> r \<noteq> [] \<Longrightarrow> \<not> num_char (hd r) \<Longrightarrow>
   i + length s \<le> 63 \<Longrightarrow> copy_number m (length m) off i = Ret s"
proof (induction s arbitrary: i)
  case Nil
  then obtain c r' where "drop (off + i) m = c # r'" "\<not> num_char c" by (cases r) auto
  with drop_ConsD [OF this(1)] rd_drop [OF this(1)] show ?case
    by (simp add: copy_number.simps [of m _ off i])
next
  case (Cons c s)
  then have d: "drop (off + i) m = c # (s @ r)" by simp
  with drop_ConsD [OF d] rd_drop [OF d] Cons.prems Cons.IH [of "Suc i"] show ?case
    by (simp add: copy_number.simps [of m _ off i])
qed

lemma saturate_int_of_int: "INT_MIN \<le> i \<Longrightarrow> i \<le> INT_MAX \<Longrightarrow> saturate_int (dbl_of_int i) = Ret i"
proof -
  assume i: "INT_MIN \<le> i" "i \<le> INT_MAX"
  have v: "dval (j < 0) (rat_of_int \<bar>j\<bar>) = of_int j" for j by simp
  have f: "(if i < 0 then - \<lfloor>rat_of_int \<bar>i\<bar>\<rfloor> else \<lfloor>rat_of_int \<bar>i\<bar>\<rfloor>) = i" by simp
  have "dle (dbl_of_int a) (dbl_of_int b) \<longleftrightarrow> a \<le> b" for a b
    unfolding dbl_of_int_def dle.simps v by (rule of_int_le_iff)
  moreover have "dbl_to_int (dbl_of_int i) = Ret i"
    using i f by (simp add: dbl_of_int_def)
  ultimately show ?thesis using i by (auto simp: saturate_int_def)
qed

lemma parse_number_text:
  assumes "drop i m = print_int v @ r" "r \<noteq> []" "\<not> num_char (hd r)" "length (print_int v) \<le> 25"
    and "INT_MIN \<le> v" "v \<le> INT_MAX"
  shows "parse_number it (pbuf m i d) = Ret (True, set_ty cJSON_Number (set_number v (dbl_of_int v) it),
    pbuf m (i + length (print_int v)) d)"
proof -
  have "\<forall>c \<in> set (print_int v). num_char c"
    using print_int_digits by (auto simp: num_char_def)
  then have c: "copy_number m (length m) i 0 = Ret (print_int v)"
    using copy_number_text [of i 0 m "print_int v" r] assms by simp
  have "\<bar>v\<bar> < 2 ^ 53" using assms(5,6) by (simp add: INT_MIN_def INT_MAX_def)
  then have s: "strtod (print_int v) = (dbl_of_int v, length (print_int v))"
    using strtod_print_int by (simp add: dbl_of_int_def)
  from print_int_starts [of v] have "length (print_int v) \<noteq> 0" by auto
  then show ?thesis using c s saturate_int_of_int [OF assms(5,6)] by (simp add: parse_number_def)
qed

section \<open>Values\<close>

definition blank :: "flags \<Rightarrow> string option \<Rightarrow> cjson" where
  "blank t nm = Item t None 0 (DNum False 0) nm []"

text \<open>The parser, started on the text of \<open>it\<close> with an item that may already have a name, fills
  the item with the tree and stops behind the text.\<close>

definition reads_text :: "value_parser \<Rightarrow> nat \<Rightarrow> cjson \<Rightarrow> bool" where
  "reads_text pv d it \<longleftrightarrow> (\<forall>fmt e t i m r M tt nm. render fmt e it = Some t \<longrightarrow> drop i m = t @ r \<longrightarrow> r \<noteq> [] \<longrightarrow>
     \<not> num_char (hd r) \<longrightarrow> no_refusals M \<longrightarrow>
     (\<exists>M'. pv (blank tt nm) (pbuf m i d) M = Ret (True, set_name nm (canon it), pbuf m (i + length t) d, M') \<and>
       no_refusals M'))"

lemma reads_textD: "reads_text pv d it \<Longrightarrow> render fmt e it = Some t \<Longrightarrow> drop i m = t @ r \<Longrightarrow> r \<noteq> [] \<Longrightarrow>
    \<not> num_char (hd r) \<Longrightarrow> no_refusals M \<Longrightarrow>
    \<exists>M'. pv (blank tt nm) (pbuf m i d) M = Ret (True, set_name nm (canon it), pbuf m (i + length t) d, M') \<and>
       no_refusals M'"
  unfolding reads_text_def by blast

lemma init_item_granted: "no_refusals M \<Longrightarrow> \<exists>M'. init_item M = (Some (blank 0 None), M') \<and> no_refusals M'"
  by (auto simp: init_item_def alloc_def no_refusals_def blank_def zero_item_def)

text \<open>The dispatch on the first character.\<close>

lemma value_body_other:
  assumes "drop i m = c # r" "c \<notin> {CHR ''n'', CHR ''f'', CHR ''t''}"
  shows "value_body pv it (pbuf m i d) M =
    (if c = CHR 0x22 then parse_string it (pbuf m i d) M
     else if c = CHR ''-'' \<or> is_digit c then
       bnd (parse_number it (pbuf m i d)) (\<lambda>(ok, it', b'). Ret (ok, it', b', M))
     else if c = CHR ''['' then parse_array pv it (pbuf m i d) M
     else if c = CHR ''{'' then parse_object pv it (pbuf m i d) M
     else Ret (False, it, pbuf m i d, M))"
  using assms looking_at_other [OF assms(1)] can_access_pbuf [OF assms(1)] at_byte_pbuf [OF assms(1)]
  by (simp add: value_body_def)

lemma value_body_literal:
  assumes "drop i m = t @ r" "t \<in> {''null'', ''false'', ''true''}"
  shows "value_body pv it (pbuf m i d) M =
    (if t = ''null'' then Ret (True, set_ty cJSON_NULL it, pbuf m (i + 4) d, M)
     else if t = ''false'' then Ret (True, set_ty cJSON_False it, pbuf m (i + 5) d, M)
     else Ret (True, set_number 1 (valuedouble it) (set_ty cJSON_True it), pbuf m (i + 4) d, M))"
  using assms(2) looking_at_this [OF assms(1)] assms(1)
    looking_at_other [of i m "CHR ''f''" _ "CHR ''n''" d "''ull''"]
    looking_at_other [of i m "CHR ''t''" _ "CHR ''n''" d "''ull''"]
    looking_at_other [of i m "CHR ''t''" _ "CHR ''f''" d "''alse''"]
  by (auto simp: value_body_def)

lemma reads_scalar:
  assumes "plain it" "child it = [] \<or> ty it \<notin> {cJSON_Array, cJSON_Object}"
    and "ty it \<notin> {cJSON_Array, cJSON_Object}"
  shows "reads_text (value_body pv) d it"
  unfolding reads_text_def
proof (intro allI impI)
  fix fmt e t i m r M tt nm
  assume t: "render fmt e it = Some t" and drp: "drop i m = t @ r" and r: "r \<noteq> []" "\<not> num_char (hd r)"
    and M: "no_refusals M"
  obtain ty vs vi vd nm' ch where it: "it = Item ty vs vi vd nm' ch" by (cases it)
  from assms it consider (lit) "ty \<in> {cJSON_NULL, cJSON_False, cJSON_True}"
    | (num) "ty = cJSON_Number" "vd = dbl_of_int vi" "INT_MIN \<le> vi" "vi \<le> INT_MAX"
    | (str) s where "ty = cJSON_String" "vs = Some s" "cstring s" by auto
  then show "\<exists>M'. value_body pv (blank tt nm) (pbuf m i d) M =
      Ret (True, set_name nm (canon it), pbuf m (i + length t) d, M') \<and> no_refusals M'"
  proof cases
    case lit
    with t it have "t = (if ty = cJSON_NULL then ''null'' else if ty = cJSON_False then ''false'' else ''true'')"
      by (auto simp: render_scalar_def Let_def)
    moreover from this have "t \<in> {''null'', ''false'', ''true''}" by simp
    note value_body_literal [OF drp this, of pv "blank tt nm" d M]
    ultimately show ?thesis using lit it M by (auto simp: blank_def)
  next
    case num
    with t it have "t = print_int vi" "length t \<le> 25"
      by (auto simp: render_scalar_def Let_def number_text_int split: if_splits)
    moreover obtain c u where cu: "print_int vi = c # u" "c = CHR ''-'' \<or> is_digit c"
      using print_int_starts by blast
    moreover have "c \<notin> {CHR ''n'', CHR ''f'', CHR ''t'', CHR 0x22}"
      using cu(2) by (auto simp: is_digit_def)
    ultimately show ?thesis
      using value_body_other [of i m c "u @ r" pv "blank tt nm" d M] drp M num it
        parse_number_text [of i m vi r "blank tt nm" d] r by (simp add: blank_def)
  next
    case str
    with t it have tq: "t = quoted (Some s)" by (auto simp: render_scalar_def Let_def)
    with drp have d2: "drop i m = CHR 0x22 # (escaped s @ CHR 0x22 # r)" by (simp add: quoted_def)
    from parse_string_quoted [of i m s r M "blank tt nm" d] drp tq str M obtain M' where
      "parse_string (blank tt nm) (pbuf m i d) M = Ret (True, set_ty cJSON_String (set_valuestring (Some s) (blank tt nm)),
         pbuf m (i + length t) d, M')" "no_refusals M'" by auto
    with value_body_other [OF d2, of pv "blank tt nm" d M] str it show ?thesis by (simp add: blank_def)
  qed
qed

section \<open>Arrays and objects\<close>

lemma not_num_char [simp]: "\<not> num_char CHR '',''" "\<not> num_char CHR '']''" "\<not> num_char CHR ''}''"
    "\<not> num_char CHR 0x0A" "\<not> num_char NUL"
  by (simp_all add: num_char_def is_digit_def)

lemma spaces [simp]: "is_space CHR 0x0A" "is_space CHR 0x09" "is_space CHR '' ''" "\<not> is_space CHR '',''"
    "\<not> is_space CHR '']''" "\<not> is_space CHR ''}''" "\<not> is_space CHR '':''" "\<not> is_space CHR 0x22"
  by (simp_all add: is_space_def)

lemma set_name_canon: "set_name (name it) (canon it) = canon it"
  by (cases it) simp

text \<open>A value between white space and what follows it.\<close>

lemma reads_after_space:
  assumes "reads_text pv d x" "render fmt e x = Some t" "plain x" "drop i m = ws @ t @ r"
    and "\<forall>c \<in> set ws. is_space c" "r \<noteq> []" "\<not> num_char (hd r)" "no_refusals M"
  shows "\<exists>M'. bnd (buffer_skip_whitespace (pbuf m i d)) (\<lambda>b. pv (blank tt nm) b M) =
      Ret (True, set_name nm (canon x), pbuf m (i + length ws + length t) d, M') \<and> no_refusals M'"
proof -
  obtain c u where c: "t = c # u" "starter c" using render_starts [OF assms(3,2)] by blast
  from assms(4) c(1) have "drop i m = ws @ c # (u @ r)" by simp
  from skip_spaces [OF this assms(5) starter_not_space [OF c(2)], of d]
    reads_textD [OF assms(1,2) drop_appD [OF assms(4)] assms(6-8), of tt nm]
  show ?thesis by auto
qed

lemma array_loop_text:
  "xs \<noteq> [] \<Longrightarrow> \<forall>x \<in> set xs. reads_text pv d x \<and> plain x \<and> name x = None \<Longrightarrow> length xs \<le> fuel \<Longrightarrow>
   render_elements fmt e xs = Some t \<Longrightarrow> drop (i + 1) m = ws @ t @ CHR '']'' # r \<Longrightarrow>
   \<forall>c \<in> set ws. is_space c \<Longrightarrow> no_refusals M \<Longrightarrow>
   \<exists>M'. array_loop pv fuel items (pbuf m i d) M =
     Ret (True, items @ map canon xs, pbuf m (i + 1 + length ws + length t) d, M') \<and> no_refusals M'"
proof (induction xs arbitrary: fuel t i ws items M)
  case (Cons x xs)
  then obtain n where fuel: "fuel = Suc n" by (cases fuel) auto
  let ?sep = "if xs = [] then [] else element_sep fmt"
  from Cons.prems(4) obtain tx ts where t: "render fmt e x = Some tx" "render_elements fmt e xs = Some ts"
    "t = tx @ ?sep @ ts" by (auto simp: cat_eq_Some)
  let ?r = "?sep @ ts @ CHR '']'' # r" and ?j = "i + 1 + length ws + length tx"
  have dt: "drop (i + 1) m = ws @ tx @ ?r" using Cons.prems(5) t(3) by simp
  have r: "?r \<noteq> []" "\<not> num_char (hd ?r)" using t(2) by (auto simp: element_sep_def)
  obtain M1 where M1: "init_item M = (Some (blank 0 None), M1)" "no_refusals M1"
    using init_item_granted [OF Cons.prems(7)] by blast
  from reads_after_space [OF _ t(1) _ dt Cons.prems(6) r M1(2), of pv d 0 None] Cons.prems(2) obtain M2 where
    pv: "bnd (buffer_skip_whitespace (pbuf m (i + 1) d)) (\<lambda>b. pv (blank 0 None) b M1) =
      Ret (True, canon x, pbuf m ?j d, M2)" "no_refusals M2"
    using set_name_canon [of x] by auto
  have dj: "drop ?j m = ?r" using drop_appD [OF drop_appD [OF dt]] by (simp add: add.assoc)
  obtain b where sk: "buffer_skip_whitespace (pbuf m (i + 1) d) = Ret b"
    using pv(1) by (cases "buffer_skip_whitespace (pbuf m (i + 1) d)") auto
  show ?case
  proof (cases "xs = []")
    case True
    with t dj have d2: "drop ?j m = CHR '']'' # r" by simp
    with True M1 pv sk t(2,3) fuel skip_nothing [OF d2] at_char_pbuf [OF d2] show ?thesis
      by simp
  next
    case False
    let ?ws = "if fmt then '' '' else []"
    from False dj have d2: "drop ?j m = CHR '','' # (?ws @ ts @ CHR '']'' # r)"
      by (simp add: element_sep_def)
    have d3: "drop (?j + 1) m = ?ws @ ts @ CHR '']'' # r" using drop_ConsD [OF d2] by simp
    from Cons.IH [OF False _ _ t(2) d3 _ pv(2), of n "items @ [canon x]"] Cons.prems(2,3) fuel obtain M3 where
      "array_loop pv n (items @ [canon x]) (pbuf m ?j d) M2 = Ret (True, (items @ [canon x]) @ map canon xs,
        pbuf m (?j + 1 + length ?ws + length ts) d, M3)" "no_refusals M3" by auto
    moreover have "?j + 1 + length ?ws + length ts = i + 1 + length ws + length t"
      using False t(3) by (simp add: element_sep_def)
    ultimately show ?thesis
      using M1 pv sk fuel skip_nothing [OF d2] at_char_pbuf [OF d2] by simp
  qed
qed simp

lemma parse_member_text:
  assumes "reads_text pv d x" "plain x" "name x = Some s" "render fmt e x = Some t"
    and "drop i m = quoted (name x) @ CHR '':'' # ws @ t @ r" "\<forall>c \<in> set ws. is_space c"
    and "r \<noteq> []" "\<not> num_char (hd r)" "no_refusals M"
  shows "\<exists>M'. parse_member pv (blank tt None) (pbuf m i d) M =
    Ret (True, canon x, pbuf m (i + length (quoted (name x)) + 1 + length ws + length t) d, M') \<and> no_refusals M'"
proof -
  have "cstring s" using assms(2,3) by (cases x) auto
  with parse_string_quoted [of i m s "CHR '':'' # ws @ t @ r" M "blank tt None" d] assms(3,5,9) obtain M1 where
    M1: "parse_string (blank tt None) (pbuf m i d) M = Ret (True, set_ty cJSON_String
      (set_valuestring (Some s) (blank tt None)), pbuf m (i + length (quoted (name x))) d, M1)" "no_refusals M1"
    by auto
  let ?j = "i + length (quoted (name x))"
  have d2: "drop ?j m = CHR '':'' # (ws @ t @ r)" using drop_appD [OF assms(5)] by simp
  have d3: "drop (?j + 1) m = ws @ t @ r" using drop_ConsD [OF d2] by simp
  have b: "set_valuestring None (set_name (Some s) (set_ty cJSON_String (set_valuestring (Some s) (blank tt None)))) =
    blank cJSON_String (name x)" using assms(3) by (simp add: blank_def)
  from reads_after_space [OF assms(1,4,2) d3 assms(6-8) M1(2), of cJSON_String "name x"] M1
    skip_nothing [OF d2] at_char_pbuf [OF d2] b set_name_canon [of x] assms(3)
  show ?thesis by (auto simp: parse_member_def blank_def)
qed

lemma object_loop_text:
  "xs \<noteq> [] \<Longrightarrow> \<forall>x \<in> set xs. reads_text pv d x \<and> plain x \<and> name x \<noteq> None \<Longrightarrow> length xs \<le> fuel \<Longrightarrow>
   render_members fmt e xs = Some t \<Longrightarrow> drop (i + 1) m = ws @ t @ z @ CHR ''}'' # r \<Longrightarrow>
   \<forall>c \<in> set ws \<union> set z. is_space c \<Longrightarrow> no_refusals M \<Longrightarrow>
   \<exists>M'. object_loop pv fuel items (pbuf m i d) M =
     Ret (True, items @ map canon xs, pbuf m (i + 1 + length ws + length t + length z) d, M') \<and> no_refusals M'"
proof (induction xs arbitrary: fuel t i ws items M)
  case (Cons x xs)
  then obtain n where fuel: "fuel = Suc n" by (cases fuel) auto
  let ?nl = "if fmt then [CHR 0x0A] else []" and ?tab = "if fmt then [CHR 0x09] else []"
    and ?in = "if fmt then tabs e else []" and ?c = "if xs \<noteq> [] then '','' else []"
  from Cons.prems(4) obtain tx ts where t: "render fmt e x = Some tx" "render_members fmt e xs = Some ts"
    "t = ?in @ quoted (name x) @ CHR '':'' # ?tab @ tx @ ?c @ ?nl @ ts"
    by (auto simp: cat_eq_Some member_sep_def)
  let ?r = "?c @ ?nl @ ts @ z @ CHR ''}'' # r" and ?p = "i + 1 + length ws + length ?in"
  have dt: "drop (i + 1) m = (ws @ ?in) @ quoted (name x) @ CHR '':'' # ?tab @ tx @ ?r"
    using Cons.prems(5) t(3) by simp
  have sp: "\<forall>c \<in> set (ws @ ?in). is_space c" using Cons.prems(6) by (auto simp: tabs_def)
  have dq: "drop (i + 1) m = (ws @ ?in) @ CHR 0x22 # (tl (quoted (name x)) @ CHR '':'' # ?tab @ tx @ ?r)"
    using dt by (simp add: quoted_def)
  from skip_spaces [OF dq sp, of d] have sk: "buffer_skip_whitespace (pbuf m (i + 1) d) = Ret (pbuf m ?p d)"
    by (simp add: add.assoc)
  have dp: "drop ?p m = quoted (name x) @ CHR '':'' # ?tab @ tx @ ?r"
    using drop_appD [OF dt] by (simp add: add.assoc)
  have z: "z = [] \<or> is_space (hd z)" using Cons.prems(6) by (cases z) auto
  have zn: "\<not> num_char (hd (z @ CHR ''}'' # r))"
  proof (cases z)
    case (Cons a list)
    with z have "is_space a" by simp
    with Cons show ?thesis by (auto simp: num_char_def is_digit_def is_space_def)
  qed simp
  have r: "?r \<noteq> []" "\<not> num_char (hd ?r)" using zn t(2) by auto
  obtain M1 where M1: "init_item M = (Some (blank 0 None), M1)" "no_refusals M1"
    using init_item_granted [OF Cons.prems(7)] by blast
  obtain s where s: "name x = Some s" "reads_text pv d x" "plain x" using Cons.prems(2) by auto
  let ?j = "?p + length (quoted (name x)) + 1 + length ?tab + length tx"
  have "\<forall>c \<in> set ?tab. is_space c" by simp
  from parse_member_text [OF s(2,3,1) t(1) dp this r M1(2), of 0] obtain M2 where
    pm: "parse_member pv (blank 0 None) (pbuf m ?p d) M1 = Ret (True, canon x, pbuf m ?j d, M2)"
      "no_refusals M2" by blast
  have dj: "drop ?j m = ?r"
    using drop_appD [of ?p m "quoted (name x) @ CHR '':'' # ?tab @ tx" ?r] dp by (simp add: add.assoc)
  show ?case
  proof (cases "xs = []")
    case True
    with t dj have d2: "drop ?j m = (?nl @ z) @ CHR ''}'' # r" by simp
    have "\<forall>c \<in> set (?nl @ z). is_space c" using Cons.prems(6) by auto
    from skip_spaces [OF d2 this, of d] have sk2: "buffer_skip_whitespace (pbuf m ?j d) =
        Ret (pbuf m (?j + length (?nl @ z)) d)" by simp
    have l: "?j + length (?nl @ z) = i + 1 + length ws + length t + length z"
      using t True by simp
    have d3: "drop (?j + length (?nl @ z)) m = CHR ''}'' # r" by (rule drop_appD [OF d2])
    show ?thesis using M1 sk pm sk2 at_char_pbuf [OF d3, of d "CHR '',''"] True fuel l by simp
  next
    case False
    with dj have d2: "drop ?j m = CHR '','' # (?nl @ ts @ z @ CHR ''}'' # r)" by simp
    have d3: "drop (?j + 1) m = ?nl @ ts @ z @ CHR ''}'' # r" using drop_ConsD [OF d2] by simp
    have sp2: "\<forall>c \<in> set ?nl \<union> set z. is_space c" using Cons.prems(6) by auto
    from Cons.IH [OF False _ _ t(2) d3 sp2 pm(2), of n "items @ [canon x]"] Cons.prems(2,3) fuel obtain M3 where
      "object_loop pv n (items @ [canon x]) (pbuf m ?j d) M2 = Ret (True, (items @ [canon x]) @ map canon xs,
        pbuf m (?j + 1 + length ?nl + length ts + length z) d, M3)" "no_refusals M3" by auto
    moreover have "?j + 1 + length ?nl + length ts + length z = i + 1 + length ws + length t + length z"
      using False t(3) by simp
    ultimately show ?thesis
      using M1 sk pm fuel skip_nothing [OF d2] at_char_pbuf [OF d2] by simp
  qed
qed simp

section \<open>Trees\<close>

lemma length_elements: "render_elements fmt e xs = Some t \<Longrightarrow> \<forall>x \<in> set xs. plain x \<Longrightarrow> length xs \<le> length t"
proof (induction xs arbitrary: t)
  case (Cons x xs)
  then obtain tx ts u where "render fmt e x = Some tx" "render_elements fmt e xs = Some ts" "t = tx @ u @ ts"
    by (auto simp: cat_eq_Some)
  with render_starts [of x fmt e tx] Cons.IH [of ts] Cons.prems(2) show ?case by auto
qed simp

lemma length_members: "render_members fmt e xs = Some t \<Longrightarrow> length xs \<le> length t"
proof (induction xs arbitrary: t)
  case (Cons x xs)
  then obtain tx ts where "render_members fmt e xs = Some ts"
    "t = (if fmt then tabs e else []) @ quoted (name x) @ (CHR '':'' # (if fmt then [CHR 0x09] else [])) @
      tx @ member_sep fmt (xs \<noteq> []) @ ts" by (auto simp: cat_eq_Some simp del: append.simps)
  then show ?case using Cons.IH [of ts] by simp
qed simp

lemma drop_length: "drop i m = t @ r \<Longrightarrow> length t \<le> length m"
  by (metis diff_le_self le_add1 le_trans length_append length_drop)

text \<open>The loop skips white space first, so it can start anywhere in it.\<close>

lemma object_loop_start:
  "buffer_skip_whitespace (pbuf m (j + 1) d) = buffer_skip_whitespace (pbuf m (i + 1) d) \<Longrightarrow> 0 < fuel \<Longrightarrow>
   no_refusals M \<Longrightarrow> object_loop pv fuel items (pbuf m j d) M = object_loop pv fuel items (pbuf m i d) M"
  using init_item_granted [of M] by (cases fuel) auto

lemma reads_array:
  assumes ch: "\<forall>c \<in> set ch. reads_text pv (Suc d) c \<and> plain c \<and> name c = None" and d: "d < NESTING_LIMIT"
    and es: "render_elements fmt e ch = Some es" and dt: "drop i m = CHR ''['' # es @ CHR '']'' # r"
    and M: "no_refusals M"
  shows "\<exists>M'. parse_array pv it (pbuf m i d) M = Ret (True, set_child (map canon ch) (set_ty cJSON_Array it),
    pbuf m (i + length es + 2) d, M') \<and> no_refusals M'"
proof -
  have d1: "drop (i + 1) m = es @ CHR '']'' # r" using drop_ConsD [OF dt] by simp
  have c0: "buffer_at_offset (pbuf m i (d + 1)) 0 = Ret CHR ''[''" by (rule at_byte_pbuf [OF dt])
  show ?thesis
  proof (cases "ch = []")
    case True
    with es d1 have d2: "drop (i + 1) m = CHR '']'' # r" by simp
    from True es skip_nothing [OF d2] at_char_pbuf [OF d2] c0 d M show ?thesis
      by (simp add: parse_array_def)
  next
    case False
    then obtain x xs where x: "ch = x # xs" by (cases ch) auto
    with es obtain tx u where tx: "render fmt e x = Some tx" "es = tx @ u" by (auto simp: cat_eq_Some)
    obtain c v where c: "tx = c # v" "starter c"
      using render_starts [OF _ tx(1)] ch x by auto
    with tx d1 have d2: "drop (i + 1) m = c # (v @ u @ CHR '']'' # r)" by simp
    have "c \<noteq> CHR '']''" using c(2) by (auto simp: starter_def is_digit_def)
    have "length ch \<le> length m"
      using length_elements [OF es] ch drop_length [OF d1] by fastforce
    from array_loop_text [OF False ch this es, of i m "[]" r M "[]"] d1 M obtain M1 where
      M1: "array_loop pv (length m) [] (pbuf m i (Suc d)) M =
        Ret (True, map canon ch, pbuf m (i + 1 + length es) (Suc d), M1)" "no_refusals M1" by auto
    have d3: "drop (i + 1 + length es) m = CHR '']'' # r" using drop_appD [OF d1] by simp
    from M1 skip_nothing [OF d2 starter_not_space [OF c(2)]] at_char_pbuf [OF d2] can_access_pbuf [OF d2]
      at_char_pbuf [OF d3] c0 d \<open>c \<noteq> CHR '']''\<close>
    show ?thesis by (simp add: parse_array_def)
  qed
qed

lemma reads_object:
  assumes ch: "\<forall>c \<in> set ch. reads_text pv (Suc d) c \<and> plain c \<and> name c \<noteq> None" and d: "d < NESTING_LIMIT"
    and es: "render_members fmt e ch = Some es" and dt: "drop i m = CHR ''{'' # ws @ es @ z @ CHR ''}'' # r"
    and sp: "\<forall>c \<in> set ws \<union> set z. is_space c" and M: "no_refusals M"
  shows "\<exists>M'. parse_object pv it (pbuf m i d) M = Ret (True, set_child (map canon ch) (set_ty cJSON_Object it),
    pbuf m (i + length ws + length es + length z + 2) d, M') \<and> no_refusals M'"
proof -
  have d1: "drop (i + 1) m = ws @ es @ z @ CHR ''}'' # r" using drop_ConsD [OF dt] by simp
  have c0: "at_char (pbuf m i (d + 1)) CHR ''{'' = Ret True" using at_char_pbuf [OF dt] by simp
  show ?thesis
  proof (cases "ch = []")
    case True
    with es d1 have d2: "drop (i + 1) m = (ws @ z) @ CHR ''}'' # r" by simp
    have d3: "drop (i + 1 + length (ws @ z)) m = CHR ''}'' # r" by (rule drop_appD [OF d2])
    from skip_spaces [OF d2, of "Suc d"] sp have
      "buffer_skip_whitespace (pbuf m (i + 1) (Suc d)) = Ret (pbuf m (i + 1 + length (ws @ z)) (Suc d))" by auto
    with True es at_char_pbuf [OF d3] c0 d M show ?thesis by (simp add: parse_object_def)
  next
    case False
    then obtain x xs where x: "ch = x # xs" by (cases ch) auto
    let ?in = "if fmt then tabs e else []"
    from es x obtain u where u: "es = ?in @ CHR 0x22 # u" by (auto simp: cat_eq_Some quoted_def)
    let ?q = "i + 1 + length (ws @ ?in)"
    from u d1 have d2: "drop (i + 1) m = (ws @ ?in) @ CHR 0x22 # (u @ z @ CHR ''}'' # r)" by simp
    have d3: "drop ?q m = CHR 0x22 # (u @ z @ CHR ''}'' # r)" by (rule drop_appD [OF d2])
    have "\<forall>c \<in> set (ws @ ?in). is_space c" using sp by (auto simp: tabs_def)
    from skip_spaces [OF d2 this, of "Suc d"] have sk:
      "buffer_skip_whitespace (pbuf m (i + 1) (Suc d)) = Ret (pbuf m ?q (Suc d))" by simp
    have "length ch \<le> length es" by (rule length_members [OF es])
    also have "\<dots> \<le> length m"
      using drop_length [of "i + 1" m "ws @ es" "z @ CHR ''}'' # r"] d1 by simp
    finally have len: "length ch \<le> length m" .
    then have pos: "0 < length m" using x by auto
    have bk: "object_loop pv (length m) [] (pbuf m (?q - 1) (Suc d)) M =
        object_loop pv (length m) [] (pbuf m i (Suc d)) M"
      by (rule object_loop_start [OF _ pos M]) (use sk skip_nothing [OF d3, of "Suc d"] in simp)
    from object_loop_text [OF False ch len es d1 sp M, of "[]"] obtain M1 where
      M1: "object_loop pv (length m) [] (pbuf m i (Suc d)) M = Ret (True, map canon ch,
        pbuf m (i + 1 + length ws + length es + length z) (Suc d), M1)" "no_refusals M1" by auto
    have d4: "drop (i + 1 + length ws + length es + length z) m = CHR ''}'' # r"
      using drop_appD [of "i + 1" m "ws @ es @ z" "CHR ''}'' # r"] d1 by (simp add: add.assoc)
    from M1 sk bk at_char_pbuf [OF d3] can_access_pbuf [OF d3] at_char_pbuf [OF d4] c0 d
    show ?thesis by (simp add: parse_object_def)
  qed
qed

lemma height_child: "c \<in> set ch \<Longrightarrow> height c \<le> Max (insert 0 (height ` set ch))"
  by (intro Max_ge) auto

lemma reads_tree:
  "plain it \<Longrightarrow> height it < n \<Longrightarrow> d + height it \<le> NESTING_LIMIT \<Longrightarrow> reads_text (parse_value n) d it"
proof (induction it arbitrary: n d)
  case (Item tt vs vi vd nm ch)
  let ?it = "Item tt vs vi vd nm ch"
  obtain k where n: "n = Suc k" using Item.prems(2) by (cases n) auto
  show ?case
  proof (cases "tt = cJSON_Array \<or> tt = cJSON_Object")
    case False
    with Item.prems n reads_scalar [of ?it] show ?thesis by simp
  next
    case True
    then have ch: "reads_text (parse_value k) (Suc d) c" if "c \<in> set ch" for c
    proof -
      have "height ?it = Suc (Max (insert 0 (height ` set ch)))" using True by auto
      with height_child [OF that] Item.prems(2,3) n have "height c < k" "Suc d + height c \<le> NESTING_LIMIT"
        by linarith+
      moreover have "plain c" using Item.prems(1) True that by auto
      ultimately show ?thesis using Item.IH [OF that, of k "Suc d"] by blast
    qed
    have d: "d < NESTING_LIMIT" using Item.prems(3) True by simp
    show ?thesis unfolding reads_text_def
    proof (intro allI impI)
      fix fmt e t i m r M tt' nm'
      assume t: "render fmt e ?it = Some t" and drp: "drop i m = t @ r" and M: "no_refusals M"
      show "\<exists>M'. parse_value n (blank tt' nm') (pbuf m i d) M =
          Ret (True, set_name nm' (canon ?it), pbuf m (i + length t) d, M') \<and> no_refusals M'"
      proof (cases "tt = cJSON_Array")
        case arr: True
        with t obtain es where es: "render_elements fmt (Suc e) ch = Some es" "t = CHR ''['' # es @ '']''"
          by (auto simp: cat_eq_Some)
        with drp have dt: "drop i m = CHR ''['' # es @ CHR '']'' # r" by simp
        from reads_array [OF _ d es(1) dt M, of "parse_value k" "blank tt' nm'"] arr ch Item.prems(1) obtain M' where
          "parse_array (parse_value k) (blank tt' nm') (pbuf m i d) M = Ret (True, set_child (map canon ch)
            (set_ty cJSON_Array (blank tt' nm')), pbuf m (i + length es + 2) d, M')" "no_refusals M'" by auto
        with value_body_other [OF dt, of "parse_value k" "blank tt' nm'" d M] arr es(2) n show ?thesis
          by (simp add: blank_def is_digit_def)
      next
        case False
        with True have obj: "tt = cJSON_Object" by simp
        let ?nl = "if fmt then [CHR 0x0A] else []" and ?z = "if fmt then tabs e else []"
        from obj t obtain es where es: "render_members fmt (Suc e) ch = Some es"
          "t = CHR ''{'' # ?nl @ es @ ?z @ ''}''" by (auto simp: cat_eq_Some)
        with drp have dt: "drop i m = CHR ''{'' # ?nl @ es @ ?z @ CHR ''}'' # r" by simp
        have sp: "\<forall>c \<in> set ?nl \<union> set ?z. is_space c" by (auto simp: tabs_def)
        from reads_object [OF _ d es(1) dt sp M, of "parse_value k" "blank tt' nm'"] obj ch Item.prems(1) obtain M' where
          "parse_object (parse_value k) (blank tt' nm') (pbuf m i d) M = Ret (True, set_child (map canon ch)
            (set_ty cJSON_Object (blank tt' nm')), pbuf m (i + length ?nl + length es + length ?z + 2) d, M')"
          "no_refusals M'" by auto
        with value_body_other [OF dt, of "parse_value k" "blank tt' nm'" d M] obj es(2) n show ?thesis
          by (simp add: blank_def is_digit_def)
      qed
    qed
  qed
qed

section \<open>The round trip\<close>

lemma parse_rendered:
  assumes "plain it" "name it = None" "height it \<le> NESTING_LIMIT" "render fmt 0 it = Some t"
    and M: "no_refusals M"
  shows "\<exists>r. cJSON_Parse (Some t) M = Ret (Some r) \<and> root r = Some (canon it)"
proof -
  let ?m = "t @ [NUL]"
  obtain c u where c: "t = c # u" "starter c" using render_starts [OF assms(1,4)] by blast
  have b: "\<lparr>content = ?m, buf_length = Suc (length t), offset = 0, depth = 0\<rparr> = pbuf ?m 0 0"
    by (simp add: pbuf_def)
  have d0: "drop 0 ?m = c # (u @ [NUL])" "drop 0 ?m = t @ [NUL]" using c by simp_all
  have bom: "c \<noteq> CHR 0xEF" using c(2) by (auto simp: starter_def is_digit_def)
  have sb: "skip_utf8_bom (pbuf ?m 0 0) = Ret (Some (pbuf ?m 0 0))"
    using bom c(1) by (auto simp: skip_utf8_bom_def UTF8_BOM_def can_access_at_index_def)
  obtain M1 where M1: "init_item M = (Some (blank 0 None), M1)" "no_refusals M1"
    using init_item_granted [OF M] by blast
  have "reads_text (parse_value parse_fuel) 0 it"
    by (rule reads_tree) (use assms in \<open>simp_all add: parse_fuel_def\<close>)
  from reads_textD [OF this assms(4) d0(2) _ _ M1(2), of 0 None] obtain M2 where
    "parse_value parse_fuel (blank 0 None) (pbuf ?m 0 0) M1 =
      Ret (True, set_name None (canon it), pbuf ?m (0 + length t) 0, M2)" by auto
  moreover have "set_name None (canon it) = canon it" using assms(2) set_name_canon [of it] by simp
  ultimately show ?thesis
    using M1 sb skip_nothing [OF d0(1) starter_not_space [OF c(2)], of 0]
    by (simp add: cJSON_Parse_def cJSON_ParseWithOpts_def cJSON_ParseWithLengthOpts_def
        b)
qed

text \<open>C3: the round trip. What cJSON_Print writes for a tree of plain items nested at most 1000
  deep, cJSON_Parse reads back as the same tree (with the fields the parser leaves zero), whatever bytes
  the strings hold and in formatted output.\<close>

theorem Parse_Print:
  assumes "plain it" and "name it = None" and "height it \<le> NESTING_LIMIT" and "no_refusals M"
    and "cJSON_Print (Some it) has_realloc m = Ret (Some t, m')" and "texts_ok it"
  shows "\<exists>r. cJSON_Parse (Some t) M = Ret (Some r) \<and> root r = Some (canon it)"
proof (rule parse_rendered [OF assms(1-3) _ assms(4)])
  have "print_result it True m (Ret (Some t, m'))"
    using print_outcome [OF assms(6), of True m has_realloc] assms(5) unfolding cJSON_Print_def by metis
  then obtain s m1 where "Ret (Some t, m') = Ret (s, m1)" "\<forall>t. s = Some t \<longrightarrow> render True 0 it = Some t"
    unfolding print_result_def by blast
  then show "render True 0 it = Some t" by blast
qed

text \<open>An object with a string that needs escapes, an array of numbers and a literal.\<close>

definition sample_tree :: cjson where
  "sample_tree = Item cJSON_Object None 0 (DNum False 0) None
     [Item cJSON_String (Some [CHR 0x22, CHR 0x01, CHR 0xFF]) 0 (DNum False 0) (Some ''s'') [],
      Item cJSON_Array None 0 (DNum False 0) (Some ''a'')
        [Item cJSON_Number None (-12) (dbl_of_int (-12)) None [], Item cJSON_NULL None 0 (DNum False 0) None []]]"

theorem Parse_Print_witness:
  "\<exists>t m' r. cJSON_Print (Some sample_tree) True \<lparr>fails = (\<lambda>_. False), calls = 0, live = 0\<rparr> = Ret (Some t, m') \<and>
    cJSON_Parse (Some t) \<lparr>fails = (\<lambda>_. False), calls = 0, live = 0\<rparr> = Ret (Some r) \<and>
    root r = Some sample_tree"
proof -
  let ?m = "\<lparr>fails = (\<lambda>_. False), calls = 0, live = 0\<rparr> :: amem"
  have p: "plain sample_tree" "name sample_tree = None" "height sample_tree \<le> NESTING_LIMIT"
    "no_refusals ?m" "texts_ok sample_tree" "canon sample_tree = sample_tree"
    by (simp_all add: sample_tree_def NESTING_LIMIT_def no_refusals_def INT_MIN_def INT_MAX_def)
  have n: "number_text (dbl_of_int (-12)) (-12) = ''-12''"
    by (simp add: number_text_int print_int_def dec_digits.simps digit_char_def)
  obtain t where t: "render True 0 sample_tree = Some t" "length t < 100"
    by (simp add: sample_tree_def render_scalar_def n quoted_def escaped_def escape_text_def hex4_text_def
        short_escapes_def tabs_def member_sep_def element_sep_def)
  from print_outcome [OF p(5), of True ?m True] t obtain m' where
    pr: "cJSON_Print (Some sample_tree) True ?m = Ret (Some t, m')"
    unfolding print_result_def cJSON_Print_def by (auto simp: int_max_def)
  from Parse_Print [OF p(1-4) pr p(5)] p(6) pr show ?thesis by auto
qed

section \<open>A text cut off behind a comma\<close>

text \<open>Behind the last comma parse_string reads a byte that is not there.\<close>

lemma object_loop_cut:
  "xs \<noteq> [] \<Longrightarrow> \<forall>x \<in> set xs. reads_text pv d x \<and> plain x \<and> name x \<noteq> None \<Longrightarrow> length xs < fuel \<Longrightarrow>
   render_members False e xs = Some t \<Longrightarrow> drop (i + 1) m = t @ '','' \<Longrightarrow> no_refusals M \<Longrightarrow>
   object_loop pv fuel items (pbuf m i d) M = Undef"
proof (induction xs arbitrary: fuel t i items M)
  case (Cons x xs)
  then obtain n where fuel: "fuel = Suc n" by (cases fuel) auto
  let ?c = "if xs \<noteq> [] then '','' else []"
  from Cons.prems(4) obtain tx ts where t: "render False e x = Some tx" "render_members False e xs = Some ts"
    "t = quoted (name x) @ CHR '':'' # tx @ ?c @ ts"
    by (auto simp: cat_eq_Some member_sep_def)
  let ?r = "?c @ ts @ '',''" and ?j = "i + 1 + length (quoted (name x)) + 1 + length tx"
  have dt: "drop (i + 1) m = quoted (name x) @ CHR '':'' # [] @ tx @ ?r" using Cons.prems(5) t(3) by simp
  then have dq: "drop (i + 1) m = CHR 0x22 # (tl (quoted (name x)) @ CHR '':'' # tx @ ?r)" by (simp add: quoted_def)
  obtain M1 where M1: "init_item M = (Some (blank 0 None), M1)" "no_refusals M1"
    using init_item_granted [OF Cons.prems(6)] by blast
  obtain s where s: "name x = Some s" "reads_text pv d x" "plain x" using Cons.prems(2) by auto
  have r: "?r \<noteq> []" "\<not> num_char (hd ?r)" using t(2) by auto
  from parse_member_text [OF s(2,3,1) t(1) dt _ r M1(2), of 0] obtain M2 where
    pm: "parse_member pv (blank 0 None) (pbuf m (i + 1) d) M1 = Ret (True, canon x, pbuf m ?j d, M2)" "no_refusals M2" by auto
  have dj: "drop ?j m = ?r"
    using drop_appD [of "i + 1" m "quoted (name x) @ CHR '':'' # tx" ?r] dt by (simp add: add.assoc)
  then have d2: "drop ?j m = CHR '','' # (if xs = [] then [] else ts @ '','')" using t(2) by auto
  have d3: "drop (?j + 1) m = (if xs = [] then [] else ts @ '','')" using drop_ConsD [OF d2] by simp
  have "object_loop pv n (items @ [canon x]) (pbuf m ?j d) M2 = Undef"
  proof (cases "xs = []")
    case True
    then obtain k where k: "n = Suc k" using Cons.prems(3) fuel by (cases n) auto
    have l: "length m \<le> ?j + 1" using d3 True by simp
    obtain M3 where "init_item M2 = (Some (blank 0 None), M3)" using init_item_granted [OF pm(2)] by blast
    then show ?thesis using k l
      by (simp add: buffer_skip_whitespace_def can_access_at_index_def parse_member_def parse_string_def buffer_at_offset_def rd_def)
  next
    case False
    with d3 have "drop (?j + 1) m = ts @ '',''" by simp
    from Cons.IH [OF False _ _ t(2) this pm(2)] Cons.prems(2,3) fuel show ?thesis by simp
  qed
  then show ?case using fuel M1 pm(1) skip_nothing [OF dq] skip_nothing [OF d2] at_char_pbuf [OF d2] by simp
qed simp

text \<open>C28: ParseWithLength_safe needs its condition on the last byte. In the text of any object with members, written without
  white space, let a comma stand for the closing brace: cJSON_ParseWithLength, given exactly these bytes, is undefined,
  because parse_object steps over the comma and parse_string reads a byte outside the buffer.\<close>

theorem ParseWithLength_reads_past_end:
  assumes "plain it" and "ty it = cJSON_Object" and "child it \<noteq> []" and "height it \<le> NESTING_LIMIT"
    and "render False 0 it = Some (u @ ''}'')" and "no_refusals M"
  shows "cJSON_ParseWithLength (Some (u @ '','')) (length u + 1) M = Undef"
proof -
  obtain tt vs vi vd nm xs where it: "it = Item tt vs vi vd nm xs" by (cases it)
  with assms(2,3) have x: "tt = cJSON_Object" "xs \<noteq> []" by simp_all
  with assms(5) it obtain t where t: "render_members False (Suc 0) xs = Some t" "u = CHR ''{'' # t" by (auto simp: cat_eq_Some)
  let ?m = "u @ '',''" and ?n = NESTING_LIMIT
  have pv: "reads_text (parse_value ?n) 1 c \<and> plain c \<and> name c \<noteq> None" if c: "c \<in> set xs" for c
  proof -
    have "height it = Suc (Max (insert 0 (height ` set xs)))" using it x by simp
    with height_child [OF c] assms(4) have "height c < ?n" "1 + height c \<le> ?n" by linarith+
    moreover have "plain c" "name c \<noteq> None" using assms(1) it x c by auto
    ultimately show ?thesis using reads_tree [of c ?n 1] by simp
  qed
  obtain y ys where "xs = y # ys" using x(2) by (cases xs) auto
  with t(1) obtain v where v: "t = CHR 0x22 # v" by (auto simp: cat_eq_Some quoted_def)
  have d0: "drop 0 ?m = CHR ''{'' # (t @ '','')" and d1: "drop (0 + 1) ?m = t @ '',''" using t(2) by simp_all
  have d2: "drop (0 + 1) ?m = CHR 0x22 # (v @ '','')" using d1 v by simp
  have b: "\<lparr>content = ?m, buf_length = Suc (length u), offset = 0, depth = 0\<rparr> = pbuf ?m 0 0" by (simp add: pbuf_def)
  have sb: "skip_utf8_bom (pbuf ?m 0 0) = Ret (Some (pbuf ?m 0 0))"
    using t(2) by (auto simp: skip_utf8_bom_def UTF8_BOM_def can_access_at_index_def)
  obtain M1 where M1: "init_item M = (Some (blank 0 None), M1)" "no_refusals M1"
    using init_item_granted [OF assms(6)] by blast
  have "length xs < length ?m" using length_members [OF t(1)] t(2) by simp
  from object_loop_cut [OF x(2) _ this t(1) d1 M1(2)] pv
  have "object_loop (parse_value ?n) (length ?m) [] (pbuf ?m 0 1) M1 = Undef" by blast
  then have "parse_object (parse_value ?n) (blank 0 None) (pbuf ?m 0 0) M1 = Undef"
    using at_char_pbuf [OF d0] at_char_pbuf [OF d2] can_access_pbuf [OF d2] skip_nothing [OF d2]
    by (simp add: parse_object_def NESTING_LIMIT_def)
  then have "parse_value parse_fuel (blank 0 None) (pbuf ?m 0 0) M1 = Undef"
    using value_body_other [OF d0, of "parse_value ?n" "blank 0 None" 0 M1] by (simp add: parse_fuel_def is_digit_def)
  moreover have "buffer_skip_whitespace (pbuf ?m 0 0) = Ret (pbuf ?m 0 0)"
    by (rule skip_nothing [OF d0]) (simp add: is_space_def)
  ultimately show ?thesis using M1(1) sb
    by (simp add: cJSON_ParseWithLength_def cJSON_ParseWithLengthOpts_def b)
qed

theorem ParseWithLength_reads_past_end_witness:
  "cJSON_ParseWithLength (Some ''{\"1\":1,'') 7 \<lparr>fails = (\<lambda>_. False), calls = 0, live = 0\<rparr> = Undef"
proof -
  let ?it = "Item cJSON_Object None 0 (DNum False 0) None [Item cJSON_Number None 1 (dbl_of_int 1) (Some ''1'') []]"
  have "render False 0 ?it = Some (''{\"1\":1'' @ ''}'')"
    by (simp add: render_scalar_def quoted_def escaped_def escape_text_def short_escapes_def number_text_int member_sep_def
      print_int_def dec_digits.simps digit_char_def)
  from ParseWithLength_reads_past_end [OF _ _ _ _ this, of "\<lparr>fails = (\<lambda>_. False), calls = 0, live = 0\<rparr>"] show ?thesis
    by (simp add: no_refusals_def cstring_def NESTING_LIMIT_def INT_MIN_def INT_MAX_def eval_nat_numeral)
qed

end
