(* ===== verification/CJson_Minify.thy ===== *)
theory CJson_Minify
  imports CJson_Roundtrip
begin

text \<open>
  cJSON_Minify (deps/cjson/cJSON.c), which removes white space and comments from a text in place:
  one block of memory with a read position and a write position. \<open>mini\<close> is the list function it
  computes; the last section relates it to the printer.
\<close>

section \<open>The code\<close>

text \<open>The loops of the two comment skippers, started behind the two characters of the opening.\<close>

function oneline_loop :: "string \<Rightarrow> nat \<Rightarrow> nat run" where
  "oneline_loop m i =
     (if length m \<le> i then Undef
      else if m ! i = NUL then Ret i
      else if m ! i = CHR 0x0A then Ret (i + 1)
      else oneline_loop m (i + 1))"
  by pat_completeness auto
termination by (relation "measure (\<lambda>(m, i). length m - i)") auto

definition skip_oneline_comment :: "string \<Rightarrow> nat \<Rightarrow> nat run" where
  "skip_oneline_comment m i = oneline_loop m (i + 2)"

function multiline_loop :: "string \<Rightarrow> nat \<Rightarrow> nat run" where
  "multiline_loop m i =
     (if length m \<le> i then Undef
      else if m ! i = NUL then Ret i
      else if m ! i = CHR ''*'' then
        (if length m \<le> i + 1 then Undef
         else if m ! (i + 1) = CHR ''/'' then Ret (i + 2) else multiline_loop m (i + 1))
      else multiline_loop m (i + 1))"
  by pat_completeness auto
termination by (relation "measure (\<lambda>(m, i). length m - i)") auto

definition skip_multiline_comment :: "string \<Rightarrow> nat \<Rightarrow> nat run" where
  "skip_multiline_comment m i = multiline_loop m (i + 2)"

function string_loop :: "string \<Rightarrow> nat \<Rightarrow> nat \<Rightarrow> (string \<times> nat \<times> nat) run" where
  "string_loop m i out =
     (if length m \<le> i then Undef
      else if m ! i = NUL then Ret (m, i, out)
      else if length m \<le> out then Undef
      else let m1 = m[out := m ! i] in
        if m ! i = CHR 0x22 then Ret (m1[out := CHR 0x22], i + 1, out + 1)
        else if m ! i = CHR 0x5C then
          (if length m \<le> i + 1 then Undef
           else if m1 ! (i + 1) = CHR 0x22 then
             (if length m \<le> out + 1 then Undef
              else string_loop (m1[out + 1 := m1 ! (i + 1)]) (i + 2) (out + 2))
           else string_loop m1 (i + 1) (out + 1))
        else string_loop m1 (i + 1) (out + 1))"
  by pat_completeness auto
termination by (relation "measure (\<lambda>(m, i, out). length m - i)") (auto simp: Let_def)

definition minify_string :: "string \<Rightarrow> nat \<Rightarrow> nat \<Rightarrow> (string \<times> nat \<times> nat) run" where
  "minify_string m i out =
     (if length m \<le> i \<or> length m \<le> out then Undef else string_loop (m[out := m ! i]) (i + 1) (out + 1))"

text \<open>The main loop takes one unit of fuel per character it reads; a text of \<open>n\<close> bytes needs at
  most \<open>n\<close>.\<close>

fun minify_loop :: "nat \<Rightarrow> string \<Rightarrow> nat \<Rightarrow> nat \<Rightarrow> string run" where
  "minify_loop 0 m i into = NoFuel"
| "minify_loop (Suc fuel) m i into =
     (if length m \<le> i then Undef
      else let c = m ! i in
      if c = NUL then (if length m \<le> into then Undef else Ret (m[into := NUL]))
      else if c \<in> {CHR '' '', CHR 0x09, CHR 0x0D, CHR 0x0A} then minify_loop fuel m (i + 1) into
      else if c = CHR ''/'' then
        (if length m \<le> i + 1 then Undef
         else if m ! (i + 1) = CHR ''/'' then
           bnd (skip_oneline_comment m i) (\<lambda>j. minify_loop fuel m j into)
         else if m ! (i + 1) = CHR ''*'' then
           bnd (skip_multiline_comment m i) (\<lambda>j. minify_loop fuel m j into)
         else minify_loop fuel m (i + 1) into)
      else if c = CHR 0x22 then
        bnd (minify_string m i into) (\<lambda>(m1, j, out). minify_loop fuel m1 j out)
      else if length m \<le> into then Undef
      else minify_loop fuel (m[into := c]) (i + 1) (into + 1))"

definition cJSON_Minify :: "string option \<Rightarrow> string option run" where
  "cJSON_Minify json = (case json of None \<Rightarrow> Ret None
     | Some m \<Rightarrow> bnd (minify_loop (Suc (length m)) m 0 0) (\<lambda>m1. Ret (Some m1)))"

declare oneline_loop.simps [simp del] multiline_loop.simps [simp del] string_loop.simps [simp del]

section \<open>What it computes\<close>

fun after_line :: "string \<Rightarrow> string" where
  "after_line [] = []"
| "after_line (c # s) = (if c = CHR 0x0A then s else after_line s)"

fun after_comment :: "string \<Rightarrow> string" where
  "after_comment [] = []"
| "after_comment (c # s) =
     (if c = CHR ''*'' \<and> s \<noteq> [] \<and> hd s = CHR ''/'' then tl s else after_comment s)"

text \<open>The rest of a string literal: what is copied, and what follows.\<close>

fun literal :: "string \<Rightarrow> string \<times> string" where
  "literal [] = ([], [])"
| "literal (c # s) =
     (if c = CHR 0x22 then ([c], s)
      else if c = CHR 0x5C \<and> s \<noteq> [] \<and> hd s = CHR 0x22 then
        (let (out, rest) = literal (tl s) in (c # CHR 0x22 # out, rest))
      else (let (out, rest) = literal s in (c # out, rest)))"

lemma literal_length: "length (fst (literal s)) + length (snd (literal s)) = length s"
  by (induction s rule: literal.induct) (auto split: prod.splits)

lemma literal_append: "fst (literal s) @ snd (literal s) = s"
proof (induction s rule: literal.induct)
  case (2 c s)
  then show ?case by (cases s) (auto split: prod.splits)
qed simp

lemma after_line_length: "length (after_line s) \<le> length s"
  by (induction s) auto

lemma after_comment_length: "length (after_comment s) \<le> length s"
  by (induction s) auto

function mini :: "string \<Rightarrow> string" where
  "mini [] = []"
| "mini (c # s) =
     (if c \<in> {CHR '' '', CHR 0x09, CHR 0x0D, CHR 0x0A} then mini s
      else if c = CHR ''/'' then
        (if s \<noteq> [] \<and> hd s = CHR ''/'' then mini (after_line (tl s))
         else if s \<noteq> [] \<and> hd s = CHR ''*'' then mini (after_comment (tl s))
         else mini s)
      else if c = CHR 0x22 then c # fst (literal s) @ mini (snd (literal s))
      else c # mini s)"
  by pat_completeness auto
termination
proof (relation "measure length", goal_cases)
  case (3 c s)
  then show ?case using after_line_length [of "tl s"] by simp
next
  case (4 c s)
  then show ?case using after_comment_length [of "tl s"] by simp
next
  case (6 c s)
  then show ?case using literal_length [of s] by simp
qed simp_all

declare mini.simps(2) [simp del]

lemma mini_length: "length (mini u) \<le> length u"
proof (induction u rule: mini.induct)
  case (2 c s)
  then show ?case
    using after_line_length [of "tl s"] after_comment_length [of "tl s"] literal_length [of s]
    by (auto simp: mini.simps(2) [of c s])
qed simp

lemma oneline_text:
  "drop i m = u @ NUL # z \<Longrightarrow> cstring u \<Longrightarrow> \<exists>j. oneline_loop m i = Ret j \<and>
     drop j m = after_line u @ NUL # z \<and> i \<le> j \<and> j + length (after_line u) = i + length u"
proof (induction u arbitrary: i)
  case Nil
  then show ?case using drop_ConsD [of i m NUL z] by (simp add: oneline_loop.simps [of m i])
next
  case (Cons c u)
  then have d: "drop i m = c # (u @ NUL # z)" by simp
  from drop_ConsD [OF d] Cons.IH [of "Suc i"] Cons.prems(2) show ?case
    by (auto simp: oneline_loop.simps [of m i])
qed

lemma multiline_text:
  "drop i m = u @ NUL # z \<Longrightarrow> cstring u \<Longrightarrow> \<exists>j. multiline_loop m i = Ret j \<and>
     drop j m = after_comment u @ NUL # z \<and> i \<le> j \<and> j + length (after_comment u) = i + length u"
proof (induction u arbitrary: i)
  case Nil
  then show ?case using drop_ConsD [of i m NUL z] by (simp add: multiline_loop.simps [of m i])
next
  case (Cons c u)
  then have d: "drop i m = c # (u @ NUL # z)" by simp
  obtain c' u' where n: "u @ NUL # z = c' # u'" by (cases u) auto
  from drop_ConsD [OF d] n have d2: "drop (Suc i) m = c' # u'" by simp
  from drop_ConsD [OF d] drop_ConsD [OF d2] n Cons.IH [of "Suc i"] Cons.prems(2) show ?case
    by (cases u) (auto simp: multiline_loop.simps [of m i])
qed

text \<open>Replacing a segment of the block, before the read position.\<close>

definition splice :: "string \<Rightarrow> nat \<Rightarrow> string \<Rightarrow> string" where
  "splice m k u = take k m @ u @ drop (k + length u) m"

lemma splice_length [simp]: "k + length u \<le> length m \<Longrightarrow> length (splice m k u) = length m"
  by (simp add: splice_def)

lemma splice_one: "k < length m \<Longrightarrow> m[k := c] = splice m k [c]"
  by (simp add: splice_def upd_conv_take_nth_drop)

lemma splice_splice: "k + length u + length v \<le> length m \<Longrightarrow>
    splice (splice m k u) (k + length u) v = splice m k (u @ v)"
proof -
  assume le: "k + length u + length v \<le> length m"
  then have "min (length m) k = k" by linarith
  then show ?thesis by (simp add: splice_def ac_simps)
qed

lemma splice_drop: "k + length u \<le> i \<Longrightarrow> k + length u \<le> length m \<Longrightarrow> drop i (splice m k u) = drop i m"
  by (auto simp: splice_def min_def)

lemma splice_nth: "k + length u \<le> i \<Longrightarrow> i < length m \<Longrightarrow> splice m k u ! i = m ! i"
  by (auto simp: splice_def nth_append min_def)

lemma literal_text:
  "drop i m = u @ NUL # z \<Longrightarrow> cstring u \<Longrightarrow> k \<le> i \<Longrightarrow>
   string_loop m i k = Ret (splice m k (fst (literal u)), i + length (fst (literal u)), k + length (fst (literal u)))"
proof (induction u arbitrary: i k m rule: literal.induct)
  case 1
  then show ?case using drop_ConsD [of i m NUL z]
    by (simp add: string_loop.simps [of m i] splice_def)
next
  case (2 c s)
  have d: "drop i m = c # (s @ NUL # z)" using "2.prems"(1) by simp
  obtain c' u' where n: "s @ NUL # z = c' # u'" by (cases s) auto
  from drop_ConsD [OF d] n have d2: "drop (Suc i) m = c' # u'" "i < length m" "m ! i = c" by simp_all
  from drop_ConsD [OF d2(1)] have i: "Suc i < length m" "m ! Suc i = c'" by simp_all
  have k: "k < length m" using "2.prems"(3) d2(2) by simp
  let ?m1 = "m[k := c]"
  have m1: "?m1 = splice m k [c]" by (rule splice_one [OF k])
  have dr1: "drop (Suc i) ?m1 = s @ NUL # z" using drop_ConsD [OF d] "2.prems"(3) by simp
  have l: "length (fst (literal s)) \<le> length s" using literal_length [of s] by simp
  have lm: "Suc i + length s < length m" using arg_cong [OF d, of length] by simp
  consider (close) "c = CHR 0x22" | (esc) "c = CHR 0x5C" "s \<noteq> []" "hd s = CHR 0x22"
    | (other) "c \<noteq> CHR 0x22" "\<not> (c = CHR 0x5C \<and> s \<noteq> [] \<and> hd s = CHR 0x22)" by blast
  then show ?case
  proof cases
    case close
    with d2 k show ?thesis
      by (simp add: string_loop.simps [of m i] Let_def splice_one [symmetric])
  next
    case esc
    then obtain s' where s: "s = CHR 0x22 # s'" by (cases s) auto
    with n have c': "c' = CHR 0x22" by simp
    let ?m2 = "?m1[k + 1 := CHR 0x22]"
    have k1: "k + 1 < length m" using "2.prems"(3) i(1) by simp
    have m2: "?m2 = splice m k [c, CHR 0x22]"
      unfolding m1 using splice_one [of "k + 1" "splice m k [c]"] k1 splice_splice [of k "[c]" "[CHR 0x22]" m]
      by simp
    have "drop (i + 2) ?m2 = tl s @ NUL # z" using dr1 s "2.prems"(3) drop_ConsD [of "Suc i" m "CHR 0x22" "s' @ NUL # z"]
      by (simp add: drop_update_cancel)
    from "2.IH"(1) [OF _ _ this, of "k + 2"] esc s "2.prems"(2,3) c' i d2 k k1
    have r: "string_loop m i k = Ret (splice ?m2 (k + 2) (fst (literal s')),
        i + 2 + length (fst (literal s')), k + 2 + length (fst (literal s')))"
      by (simp add: string_loop.simps [of m i] Let_def)
    have "splice ?m2 (k + 2) (fst (literal s')) = splice m k ([c, CHR 0x22] @ fst (literal s'))"
      unfolding m2 using splice_splice [of k "[c, CHR 0x22]" "fst (literal s')" m]
        literal_length [of s'] s lm "2.prems"(3) by simp
    with r esc s show ?thesis by (simp add: split_beta)
  next
    case other
    then have cn: "c \<noteq> CHR 0x5C \<or> c' \<noteq> CHR 0x22" using n by (cases s) auto
    have cz: "c \<noteq> NUL" using "2.prems"(2) by simp
    have "m[k := c] ! Suc i = c'" using i "2.prems"(3) by simp
    with "2.IH"(2) [OF other(1) _ dr1, of "k + 1"] other "2.prems"(2,3) d2 i k cn cz
    have r: "string_loop m i k = Ret (splice ?m1 (k + 1) (fst (literal s)),
        i + 1 + length (fst (literal s)), k + 1 + length (fst (literal s)))"
      by (auto simp: string_loop.simps [of m i] Let_def)
    have "splice ?m1 (k + 1) (fst (literal s)) = splice m k ([c] @ fst (literal s))"
      unfolding m1 using splice_splice [of k "[c]" "fst (literal s)" m] l lm "2.prems"(3) by simp
    with r other show ?thesis by (auto simp: split_beta)
  qed
qed

text \<open>The block afterwards: the minified text and its null byte over the start of the old text.\<close>

lemma minify_loop_text:
  "drop i m = u @ NUL # z \<Longrightarrow> cstring u \<Longrightarrow> k \<le> i \<Longrightarrow> length u < fuel \<Longrightarrow>
   minify_loop fuel m i k = Ret (splice m k (mini u @ [NUL]))"
proof (induction u arbitrary: i k m fuel rule: mini.induct)
  case 1
  then show ?case using drop_ConsD [of i m NUL z] by (cases fuel) (simp_all add: splice_one)
next
  case (2 c s)
  obtain n where fuel: "fuel = Suc n" using "2.prems"(4) by (cases fuel) auto
  have d: "drop i m = c # (s @ NUL # z)" using "2.prems"(1) by simp
  obtain c' u' where n: "s @ NUL # z = c' # u'" by (cases s) auto
  from drop_ConsD [OF d] n have d2: "drop (i + 1) m = c' # u'" "drop (i + 1) m = s @ NUL # z"
    "i < length m" "m ! i = c" by simp_all
  from drop_ConsD [OF d2(1)] have i: "i + 1 < length m" "m ! (i + 1) = c'" by simp_all
  have k: "k < length m" using "2.prems"(3) d2(3) by simp
  have lm: "i + 1 + length s < length m" using arg_cong [OF d, of length] by simp
  have cs: "c \<noteq> NUL" "cstring s" "cstring (tl s)" using "2.prems"(2) by (simp, simp, cases s, simp_all)
  have ls: "length s < n" using "2.prems"(4) fuel by simp
  have c': "s \<noteq> [] \<Longrightarrow> hd s = c'" "s = [] \<Longrightarrow> c' = NUL" using n by (cases s, auto)
  have tail: "s \<noteq> [] \<Longrightarrow> drop (i + 2) m = tl s @ NUL # z"
    using drop_ConsD [OF d2(1)] n by (cases s) (auto simp: add.commute)
  consider (space) "c \<in> {CHR '' '', CHR 0x09, CHR 0x0D, CHR 0x0A}"
    | (line) "c = CHR ''/''" "s \<noteq> []" "hd s = CHR ''/''"
    | (comment) "c = CHR ''/''" "s \<noteq> []" "hd s = CHR ''*''"
    | (slash) "c = CHR ''/''" "\<not> (s \<noteq> [] \<and> hd s = CHR ''/'')" "\<not> (s \<noteq> [] \<and> hd s = CHR ''*'')"
    | (quote) "c = CHR 0x22"
    | (other) "c \<notin> {CHR '' '', CHR 0x09, CHR 0x0D, CHR 0x0A, CHR ''/'', CHR 0x22}" by auto
  then show ?case
  proof cases
    case space
    with "2.IH"(1) [OF space d2(2) cs(2), of k n] "2.prems"(3) ls d2(3,4) cs(1) fuel show ?thesis
      by (auto simp: mini.simps Let_def)
  next
    case line
    from oneline_text [OF tail [OF line(2)] cs(3)] obtain j where
      j: "oneline_loop m (i + 2) = Ret j" "drop j m = after_line (tl s) @ NUL # z" "i + 2 \<le> j" by blast
    have "cstring (after_line u)" if "cstring u" for u using that by (induction u) auto
    moreover have "length (after_line (tl s)) < n"
      using after_line_length [of "tl s"] ls by (simp add: less_le_trans)
    ultimately have "minify_loop n m j k = Ret (splice m k (mini (after_line (tl s)) @ [NUL]))"
      using "2.IH"(2) [OF _ line(1) _ j(2), of k n] line cs(3) j(3) "2.prems"(3) by simp
    with line d2(3,4) i c' j(1) fuel show ?thesis
      by (simp add: mini.simps Let_def skip_oneline_comment_def)
  next
    case comment
    from multiline_text [OF tail [OF comment(2)] cs(3)] obtain j where
      j: "multiline_loop m (i + 2) = Ret j" "drop j m = after_comment (tl s) @ NUL # z" "i + 2 \<le> j" by blast
    have "cstring (tl u)" if "cstring u" for u using that by (cases u) auto
    then have "cstring (after_comment u)" if "cstring u" for u using that by (induction u) auto
    moreover have "length (after_comment (tl s)) < n"
      using after_comment_length [of "tl s"] ls by (simp add: less_le_trans)
    ultimately have "minify_loop n m j k = Ret (splice m k (mini (after_comment (tl s)) @ [NUL]))"
      using "2.IH"(3) [OF _ comment(1) _ _ j(2), of k n] comment cs(3) j(3) "2.prems"(3) by simp
    with comment d2(3,4) i c' j(1) fuel show ?thesis
      by (simp add: mini.simps Let_def skip_multiline_comment_def)
  next
    case slash
    with "2.IH"(4) [OF _ slash(1-3) d2(2) cs(2), of k n] "2.prems"(3) ls d2(3,4) i c' fuel show ?thesis
      by (cases "s = []") (simp_all add: mini.simps Let_def)
  next
    case quote
    let ?o = "fst (literal s)" and ?r = "snd (literal s)"
    let ?m1 = "m[k := c]"
    have dr1: "drop (i + 1) ?m1 = s @ NUL # z" using d2(2) "2.prems"(3) by simp
    have ll: "length ?o + length ?r = length s" by (rule literal_length)
    have lit: "s = ?o @ ?r" by (simp add: literal_append)
    have st: "string_loop ?m1 (i + 1) (k + 1) = Ret (splice ?m1 (k + 1) ?o, i + 1 + length ?o, k + 1 + length ?o)"
      by (rule literal_text [OF dr1 cs(2)]) (use "2.prems"(3) in simp)
    have m2: "splice ?m1 (k + 1) ?o = splice m k (c # ?o)"
      using splice_splice [of k "[c]" ?o m] splice_one [OF k, of c] ll lm "2.prems"(3) by simp
    have "drop (i + 1) m = ?o @ (?r @ NUL # z)" using d2(2) lit by (metis append.assoc)
    from drop_appD [OF this] have "drop (i + 1 + length ?o) (splice m k (c # ?o)) = ?r @ NUL # z"
      using splice_drop [of k "c # ?o" "i + 1 + length ?o" m] "2.prems"(3) ll lm by simp
    moreover have "cstring ?r" using cs(2) lit by (metis cstring_simps(3))
    moreover have "length ?r < n" using ll ls by linarith
    ultimately have "minify_loop n (splice m k (c # ?o)) (i + 1 + length ?o) (k + 1 + length ?o) =
        Ret (splice (splice m k (c # ?o)) (k + 1 + length ?o) (mini ?r @ [NUL]))"
      using "2.IH"(5) [of "i + 1 + length ?o" "splice m k (c # ?o)" "k + 1 + length ?o" n] quote "2.prems"(3)
      by simp
    moreover have "splice (splice m k (c # ?o)) (k + 1 + length ?o) (mini ?r @ [NUL]) =
        splice m k ((c # ?o) @ (mini ?r @ [NUL]))"
      using splice_splice [of k "c # ?o" "mini ?r @ [NUL]" m] mini_length [of ?r] ll lm "2.prems"(3) by simp
    ultimately show ?thesis using quote d2(3,4) k st m2 fuel
      by (simp add: mini.simps Let_def minify_string_def)
  next
    case other
    let ?m1 = "m[k := c]"
    have dr1: "drop (i + 1) ?m1 = s @ NUL # z" using d2(2) "2.prems"(3) by simp
    from "2.IH"(6) [OF _ _ _ dr1 cs(2), of "k + 1" n] other "2.prems"(3) ls
    have "minify_loop n ?m1 (i + 1) (k + 1) = Ret (splice ?m1 (k + 1) (mini s @ [NUL]))" by simp
    moreover have "splice ?m1 (k + 1) (mini s @ [NUL]) = splice m k ([c] @ (mini s @ [NUL]))"
      using splice_one [OF k, of c] splice_splice [of k "[c]" "mini s @ [NUL]" m] mini_length [of s] lm
        "2.prems"(3) by simp
    ultimately show ?thesis using other d2(3,4) k fuel cs(1) by (auto simp: mini.simps Let_def)
  qed
qed

section \<open>Formatted output\<close>

text \<open>A string literal of the printer is copied whole, unless the string ends in a backslash: the
  escaped backslash and the closing quote look like an escaped quote to the code.\<close>

definition tame_text :: "string \<Rightarrow> bool" where
  "tame_text s \<longleftrightarrow> s = [] \<or> List.last s \<noteq> CHR 0x5C"

fun tame :: "cjson \<Rightarrow> bool" where
  "tame (Item t vs vi vd nm ch) \<longleftrightarrow> (\<forall>s \<in> set_option vs \<union> set_option nm. tame_text s) \<and> (\<forall>c \<in> set ch. tame c)"

lemma literal_plain:
  "\<forall>c \<in> set cs. c \<noteq> CHR 0x22 \<and> c \<noteq> CHR 0x5C \<Longrightarrow>
   literal (cs @ r) = (cs @ fst (literal r), snd (literal r))"
  by (induction cs) (auto simp: split_beta)

lemma escaped_next: "s \<noteq> [] \<Longrightarrow> escaped s \<noteq> [] \<and> hd (escaped s) \<noteq> CHR 0x22"
proof (cases s)
  case (Cons c u)
  then show ?thesis by (cases c rule: escape_text_cases) (simp_all add: escaped_def)
qed simp

text \<open>Whatever the escaped text is followed by, the code reads it in one piece, unless it ends in a backslash and a
  quote follows.\<close>

lemma literal_escaped_then:
  "s = [] \<or> List.last s \<noteq> CHR 0x5C \<or> r = [] \<or> hd r \<noteq> CHR 0x22 \<Longrightarrow>
   literal (escaped s @ r) = (escaped s @ fst (literal r), snd (literal r))"
proof (induction s)
  case Nil
  then show ?case by (simp add: escaped_def)
next
  case (Cons c s)
  let ?r = "escaped s @ r"
  have e: "escaped (c # s) = escape_text c @ escaped s" by (simp add: escaped_def)
  have ih: "literal ?r = (escaped s @ fst (literal r), snd (literal r))"
    using Cons by (cases "s = []") (auto simp: escaped_def)
  show ?case
  proof (cases c rule: escape_text_cases)
    case plain
    then show ?thesis using ih e by (simp add: split_beta)
  next
    case (short x)
    have nx: "x = CHR 0x5C \<Longrightarrow> s \<noteq> [] \<or> r = [] \<or> hd r \<noteq> CHR 0x22"
      using short_escapes_pairs [OF short(2)] Cons.prems by (auto simp: short_escapes_def)
    show ?thesis
    proof (cases "x = CHR 0x22 \<or> x \<noteq> CHR 0x5C")
      case True
      then show ?thesis using short e ih by (auto simp: split_beta)
    next
      case False
      then have "?r = [] \<or> hd ?r \<noteq> CHR 0x22" using nx escaped_next [of s] by (cases "s = []") (auto simp: escaped_def)
      then show ?thesis using False short e ih by (auto simp: split_beta)
    qed
  next
    case code
    let ?h = "[CHR ''u'', CHR ''0'', CHR ''0'', hex_char (of_char c div 16), hex_char (of_char c mod 16)]"
    have "\<forall>x \<in> set ?h. x \<noteq> CHR 0x22 \<and> x \<noteq> CHR 0x5C"
      using hex_char_plain [OF char_div_16(1)] hex_char_plain [OF char_div_16(2)] by simp
    from literal_plain [OF this, of ?r] have "literal (?h @ ?r) = (?h @ escaped s @ fst (literal r), snd (literal r))"
      using ih by simp
    then show ?thesis using e code(1) by (simp add: split_beta)
  qed
qed

lemma literal_escaped: "tame_text s \<Longrightarrow> literal (escaped s @ CHR 0x22 # r) = (escaped s @ [CHR 0x22], r)"
  using literal_escaped_then [of s "CHR 0x22 # r"] by (simp add: tame_text_def)

text \<open>The minifier turns the text \<open>t\<close>, in front of any rest, into \<open>u\<close>.\<close>

definition shrinks :: "string \<Rightarrow> string \<Rightarrow> bool" where
  "shrinks t u \<longleftrightarrow> (\<forall>r. mini (t @ r) = u @ mini r)"

lemma shrinks_app: "shrinks t u \<Longrightarrow> shrinks t' u' \<Longrightarrow> shrinks (t @ t') (u @ u')"
  by (simp add: shrinks_def)

lemma shrinks_nil: "shrinks [] []"
  by (simp add: shrinks_def)

lemma shrinks_quoted: "\<forall>s \<in> set_option x. tame_text s \<Longrightarrow> shrinks (quoted x) (quoted x)"
  using literal_escaped [of "the x"] by (cases x) (auto simp: shrinks_def quoted_def mini.simps)

lemma shrinks_plain:
  "\<forall>c \<in> set t. c \<notin> {CHR '' '', CHR 0x09, CHR 0x0D, CHR 0x0A, CHR ''/'', CHR 0x22} \<Longrightarrow> shrinks t t"
  by (induction t) (auto simp: shrinks_def mini.simps)

lemma shrinks_space: "\<forall>c \<in> set t. c \<in> {CHR '' '', CHR 0x09, CHR 0x0D, CHR 0x0A} \<Longrightarrow> shrinks t []"
  by (induction t) (auto simp: shrinks_def mini.simps)

lemma shrinks_int: "shrinks (print_int v) (print_int v)"
proof (rule shrinks_plain, rule ballI)
  fix c assume "c \<in> set (print_int v)"
  from print_int_digits [OF this]
  show "c \<notin> {CHR '' '', CHR 0x09, CHR 0x0D, CHR 0x0A, CHR ''/'', CHR 0x22}"
    by (elim disjE) (auto simp: is_digit_def)
qed

lemma shrinks_seps:
  "shrinks (element_sep True) (element_sep False)" "shrinks (member_sep True b) (member_sep False b)"
  "shrinks (tabs e) []" "shrinks (CHR '':'' # [CHR 0x09]) '':''" "shrinks ''['' ''[''"
  "shrinks '']'' '']''" "shrinks (CHR ''{'' # [CHR 0x0A]) ''{''" "shrinks ''}'' ''}''"
  by (auto simp: shrinks_def mini.simps element_sep_def member_sep_def)
     (use shrinks_space [of "tabs e"] in \<open>simp add: shrinks_def tabs_def\<close>)

lemma tame_name: "tame x \<Longrightarrow> \<forall>s \<in> set_option (name x). tame_text s"
  by (cases x) simp

lemma shrinks_scalar:
  assumes "plain it" "tame it" "ty it \<notin> {cJSON_Array, cJSON_Object}" "render_scalar it = Some t"
  shows "shrinks t t"
proof -
  obtain tt vs vi vd nm ch where it: "it = Item tt vs vi vd nm ch" by (cases it)
  have l: "shrinks ''null'' ''null''" "shrinks ''true'' ''true''" "shrinks ''false'' ''false''"
    by (rule shrinks_plain; simp)+
  from assms l shrinks_quoted [of vs] shrinks_int [of vi] show ?thesis unfolding it
    by (auto simp: render_scalar_def Let_def number_text_int split: if_splits)
qed

lemma render_shrinks:
  "render fmt e it = Some t \<Longrightarrow> fmt \<Longrightarrow> plain it \<Longrightarrow> tame it \<Longrightarrow> \<forall>e'. \<exists>u. render False e' it = Some u \<and> shrinks t u"
  "render_elements fmt e its = Some t \<Longrightarrow> fmt \<Longrightarrow> \<forall>c \<in> set its. plain c \<and> tame c \<Longrightarrow>
     \<forall>e'. \<exists>u. render_elements False e' its = Some u \<and> shrinks t u"
  "render_members fmt e its = Some t \<Longrightarrow> fmt \<Longrightarrow> \<forall>c \<in> set its. plain c \<and> tame c \<Longrightarrow>
     \<forall>e'. \<exists>u. render_members False e' its = Some u \<and> shrinks t u"
proof (induction fmt e it and fmt e its and fmt e its arbitrary: t and t and t
    rule: render_render_elements_render_members.induct)
  case (1 fmt d tt vs vi vd nm ch)
  let ?it = "Item tt vs vi vd nm ch"
  consider (arr) "tt = cJSON_Array" | (obj) "tt = cJSON_Object"
    | (scalar) "tt \<noteq> cJSON_Array" "tt \<noteq> cJSON_Object" by blast
  then show ?case
  proof cases
    case arr
    with "1.prems" obtain es where es: "render_elements fmt (Suc d) ch = Some es" "t = ''['' @ es @ '']''"
      by (auto simp: cat_eq_Some)
    have ih: "\<forall>e'. \<exists>u. render_elements False e' ch = Some u \<and> shrinks es u"
      using "1.IH"(1) [OF _ es(1)] arr "1.prems" by simp
    show ?thesis
    proof
      fix e'
      from ih obtain u where u: "render_elements False (Suc e') ch = Some u" "shrinks es u" by blast
      have "shrinks t (''['' @ u @ '']'')" unfolding es(2) by (intro shrinks_app shrinks_seps u)
      with u arr show "\<exists>u. render False e' ?it = Some u \<and> shrinks t u" by simp
    qed
  next
    case obj
    with "1.prems" obtain es where es: "render_members fmt (Suc d) ch = Some es"
      "t = (CHR ''{'' # [CHR 0x0A]) @ es @ tabs d @ ''}''" by (auto simp: cat_eq_Some)
    have ih: "\<forall>e'. \<exists>u. render_members False e' ch = Some u \<and> shrinks es u"
      using "1.IH"(2) [OF _ _ es(1)] obj "1.prems" by simp
    show ?thesis
    proof
      fix e'
      from ih obtain u where u: "render_members False (Suc e') ch = Some u" "shrinks es u" by blast
      have "shrinks t (''{'' @ u @ [] @ ''}'')" unfolding es(2) by (intro shrinks_app shrinks_seps u)
      with u obj show "\<exists>u. render False e' ?it = Some u \<and> shrinks t u" by simp
    qed
  next
    case scalar
    with "1.prems" have "render_scalar ?it = Some t" "kind tt \<noteq> cJSON_Array" "kind tt \<noteq> cJSON_Object" by auto
    with shrinks_scalar [of ?it t] "1.prems" scalar show ?thesis by auto
  qed
next
  case (3 fmt d x xs)
  from "3.prems" obtain tx ts where t: "render fmt d x = Some tx" "render_elements fmt d xs = Some ts"
    "t = tx @ (if xs = [] then [] else element_sep True) @ ts" by (auto simp: cat_eq_Some)
  have s: "shrinks (if xs = [] then [] else element_sep True) (if xs = [] then [] else element_sep False)"
    using shrinks_seps(1) shrinks_nil by simp
  from "3.IH"(1) [OF t(1)] "3.IH"(2) [OF t(2)] "3.prems" have ih:
    "\<forall>e'. \<exists>u. render False e' x = Some u \<and> shrinks tx u" "\<forall>e'. \<exists>u. render_elements False e' xs = Some u \<and> shrinks ts u"
    by simp_all
  show ?case
  proof
    fix e'
    from ih obtain ux us where u: "render False e' x = Some ux" "shrinks tx ux"
      "render_elements False e' xs = Some us" "shrinks ts us" by blast
    have "shrinks t (ux @ (if xs = [] then [] else element_sep False) @ us)"
      unfolding t(3) by (intro shrinks_app s u)
    with u(1,3) show "\<exists>u. render_elements False e' (x # xs) = Some u \<and> shrinks t u" by simp
  qed
next
  case (5 fmt d x xs)
  from "5.prems" obtain tx ts where t: "render fmt d x = Some tx" "render_members fmt d xs = Some ts"
    "t = tabs d @ quoted (name x) @ (CHR '':'' # [CHR 0x09]) @ tx @ member_sep True (xs \<noteq> []) @ ts"
    by (auto simp: cat_eq_Some)
  have n: "shrinks (quoted (name x)) (quoted (name x))"
    using "5.prems"(3) by (intro shrinks_quoted tame_name) simp
  from "5.IH"(1) [OF t(1)] "5.IH"(2) [OF t(2)] "5.prems" have ih:
    "\<forall>e'. \<exists>u. render False e' x = Some u \<and> shrinks tx u" "\<forall>e'. \<exists>u. render_members False e' xs = Some u \<and> shrinks ts u"
    by simp_all
  show ?case
  proof
    fix e'
    from ih obtain ux us where u: "render False e' x = Some ux" "shrinks tx ux"
      "render_members False e' xs = Some us" "shrinks ts us" by blast
    have "shrinks t ([] @ quoted (name x) @ '':'' @ ux @ member_sep False (xs \<noteq> []) @ us)"
      unfolding t(3) by (intro shrinks_app n shrinks_seps u)
    with u(1,3) show "\<exists>u. render_members False e' (x # xs) = Some u \<and> shrinks t u" by simp
  qed
qed (auto simp: shrinks_nil)

section \<open>Properties\<close>

text \<open>C33: cJSON_Minify terminates on every block that holds a null byte, reads and writes only up to
  it, and leaves the text that the list function mini computes, with a null byte behind it; the
  bytes behind that keep their value.\<close>

theorem Minify_in_place:
  assumes "cstring u"
  shows "cJSON_Minify (Some (u @ NUL # z)) =
    Ret (Some (mini u @ NUL # drop (length (mini u) + 1) (u @ NUL # z)))"
  using minify_loop_text [of 0 "u @ NUL # z" u z 0 "Suc (length (u @ NUL # z))"] assms
  by (simp add: cJSON_Minify_def splice_def)

theorem Minify_in_place_witness:
  "cJSON_Minify (Some (''[1, 2]'' @ NUL # ''xyz'')) = Ret (Some (''[1,2]'' @ NUL # [NUL] @ ''xyz''))"
  using Minify_in_place [of "''[1, 2]''" "''xyz''"] by (simp add: mini.simps cstring_def)

text \<open>C34: minifying formatted output gives the unformatted output, for every tree of plain items
  none of whose strings ends in a backslash.\<close>

theorem Minify_formatted:
  assumes "plain it" and "tame it" and "texts_ok it"
    and "cJSON_Print (Some it) r m = Ret (Some t, m')"
    and "\<forall>i. \<not> fails M i" and "length t + 2 \<le> int_max"
  shows "\<exists>u M' rest. cJSON_PrintUnformatted (Some it) r M = Ret (Some u, M') \<and>
    cJSON_Minify (Some (t @ [NUL])) = Ret (Some (u @ NUL # rest))"
proof -
  have "print_result it True m (Ret (Some t, m'))"
    using print_outcome [OF assms(3), of True m r] assms(4) unfolding cJSON_Print_def by metis
  then obtain s m1 where "Ret (Some t, m') = Ret (s, m1)" "\<forall>t. s = Some t \<longrightarrow> render True 0 it = Some t"
    unfolding print_result_def by blast
  then have t: "render True 0 it = Some t" by blast
  then obtain u where u: "render False 0 it = Some u" "shrinks t u"
    using render_shrinks(1) [OF t _ assms(1,2)] by blast
  then have mt: "mini t = u" by (simp add: shrinks_def) (metis append_Nil2 mini.simps(1))
  have cs: "cstring t" using cstring_render(1) [OF t assms(3)] .
  have "length u + 2 \<le> int_max" using mini_length [of t] mt assms(6) by simp
  with print_outcome [OF assms(3), of False M r] u(1) assms(5) obtain M' where
    "cJSON_PrintUnformatted (Some it) r M = Ret (Some u, M')"
    unfolding print_result_def cJSON_PrintUnformatted_def by blast
  moreover have "cJSON_Minify (Some (t @ NUL # [])) =
      Ret (Some (mini t @ NUL # drop (length (mini t) + 1) (t @ NUL # [])))"
    using minify_loop_text [of 0 "t @ NUL # []" t "[]" 0 "Suc (length (t @ NUL # []))"] cs
    by (simp add: cJSON_Minify_def splice_def)
  ultimately show ?thesis using mt by blast
qed

theorem Minify_formatted_witness:
  "\<exists>t m' u M' rest. cJSON_Print (Some sample_tree) True \<lparr>fails = (\<lambda>_. False), calls = 0, live = 0\<rparr> = Ret (Some t, m') \<and>
    cJSON_PrintUnformatted (Some sample_tree) True \<lparr>fails = (\<lambda>_. False), calls = 0, live = 0\<rparr> = Ret (Some u, M') \<and>
    cJSON_Minify (Some (t @ [NUL])) = Ret (Some (u @ NUL # rest))"
proof -
  let ?m = "\<lparr>fails = (\<lambda>_. False), calls = 0, live = 0\<rparr> :: amem"
  have p: "plain sample_tree" "tame sample_tree" "texts_ok sample_tree"
    by (simp_all add: sample_tree_def INT_MIN_def INT_MAX_def tame_text_def)
  have n: "number_text (dbl_of_int (-12)) (-12) = ''-12''"
    by (simp add: number_text_int print_int_def dec_digits.simps digit_char_def)
  obtain t where t: "render True 0 sample_tree = Some t" "length t < 100"
    by (simp add: sample_tree_def render_scalar_def n quoted_def escaped_def escape_text_def hex4_text_def
        short_escapes_def tabs_def member_sep_def element_sep_def)
  from print_outcome [OF p(3), of True ?m True] t obtain m' where
    pr: "cJSON_Print (Some sample_tree) True ?m = Ret (Some t, m')"
    unfolding print_result_def cJSON_Print_def by (auto simp: int_max_def)
  have "length t + 2 \<le> int_max" using t(2) by (simp add: int_max_def)
  from Minify_formatted [OF p pr _ this, of ?m] pr show ?thesis by auto
qed

text \<open>Characters that the printer does not escape and that start neither a string nor a comment.\<close>

definition ordinary :: "string \<Rightarrow> bool" where
  "ordinary u \<longleftrightarrow> (\<forall>c \<in> set u. escape_text c = [c] \<and>
     c \<notin> {CHR 0x22, CHR 0x5C, CHR ''/'', CHR 0x09, CHR 0x0A, CHR 0x0D, NUL})"

lemma ordinary_escaped: "ordinary u \<Longrightarrow> escaped u = u"
  by (induction u) (simp_all add: ordinary_def escaped_def)

lemma ordinary_mini: "ordinary u \<Longrightarrow> mini (u @ r) = filter (\<lambda>c. c \<noteq> CHR '' '') u @ mini r"
  by (induction u) (simp_all add: ordinary_def mini.simps(2))

lemma ordinary_cstring: "ordinary u \<Longrightarrow> cstring u"
  by (auto simp: ordinary_def cstring_def)

lemma mini_after_backslash:
  assumes "ordinary u"
  shows "mini (''['' @ quoted (Some (s @ [CHR 0x5C])) @ '','' @ quoted (Some u) @ '']'') =
    ''['' @ quoted (Some (s @ [CHR 0x5C])) @ '','' @ quoted (Some (filter (\<lambda>c. c \<noteq> CHR '' '') u)) @ '']''"
proof -
  let ?f = "filter (\<lambda>c. c \<noteq> CHR '' '') u" and ?rest = "u @ CHR 0x22 # '']''"
  have f: "escaped ?f = ?f" using assms by (intro ordinary_escaped) (auto simp: ordinary_def)
  have e: "escaped (s @ [CHR 0x5C]) = escaped s @ [CHR 0x5C, CHR 0x5C]"
    by (simp add: escaped_def escape_text_def short_escapes_def)
  have l: "literal (escaped s @ CHR 0x5C # CHR 0x5C # CHR 0x22 # '','' @ CHR 0x22 # ?rest) =
      (escaped s @ CHR 0x5C # CHR 0x5C # CHR 0x22 # '','' @ [CHR 0x22], ?rest)"
    by (subst literal_escaped_then) simp_all
  have "mini ?rest = ?f @ CHR 0x22 # '']''" using ordinary_mini [OF assms, of "CHR 0x22 # '']''"] by (simp add: mini.simps)
  then show ?thesis using l by (simp add: quoted_def e f ordinary_escaped [OF assms] mini.simps)
qed

text \<open>C35: a string that ends in a backslash makes the minifier lose its place. In an array of such a string and a second
  one of ordinary characters, as the printer writes it, every blank inside the second string is
  removed: the text denotes other data than before.\<close>

theorem Minify_changes_string:
  assumes "cstring s" and "ordinary u"
  shows "\<exists>rest. cJSON_Minify (Some (''['' @ quoted (Some (s @ [CHR 0x5C])) @ '','' @ quoted (Some u) @ '']'' @ [NUL])) =
    Ret (Some (''['' @ quoted (Some (s @ [CHR 0x5C])) @ '','' @ quoted (Some (filter (\<lambda>c. c \<noteq> CHR '' '') u)) @ '']'' @ NUL # rest))"
proof -
  let ?u = "''['' @ quoted (Some (s @ [CHR 0x5C])) @ '','' @ quoted (Some u) @ '']''"
  have "cstring (s @ [CHR 0x5C])" "cstring u" using assms ordinary_cstring by (simp_all add: cstring_def)
  then have "cstring ?u" using cstring_quoted [of "Some (s @ [CHR 0x5C])"] cstring_quoted [of "Some u"] by simp
  with minify_loop_text [of 0 "?u @ [NUL]" ?u "[]" 0 "Suc (length (?u @ [NUL]))"] mini_after_backslash [OF assms(2), of s]
  show ?thesis by (auto simp: cJSON_Minify_def splice_def)
qed

theorem Minify_changes_string_witness:
  "\<exists>rest. cJSON_Minify (Some (''['' @ quoted (Some [CHR 0x5C]) @ '','' @ quoted (Some ''a b'') @ '']'' @ [NUL])) =
    Ret (Some (''['' @ quoted (Some [CHR 0x5C]) @ '','' @ quoted (Some ''ab'') @ '']'' @ NUL # rest))"
  using Minify_changes_string [of "[]" "''a b''"] 
  by (simp add: ordinary_def cstring_def escape_text_def short_escapes_def)

end
