(* ===== verification/Uv_Queue.thy ===== *)
theory Uv_Queue
  imports Prelude
begin

text \<open>
  libuv's queue.h: rings of two pointers that the loop threads through its handles and watchers.
  A node is an address; the memory of the rings is the pair of its pointer fields. The macros are
  modelled store by store, and each is shown to act on the list of nodes a ring holds; the loop's
  own theories then keep those lists. \<open>node_queue\<close> is the interface of a queue that is emptied
  from the front, with the loop that drains one.
\<close>

section \<open>The macros of queue.h\<close>

record rings =
  nxt :: "nat \<Rightarrow> nat"
  prv :: "nat \<Rightarrow> nat"

definition set_nxt :: "nat \<Rightarrow> nat \<Rightarrow> rings \<Rightarrow> rings" where
  "set_nxt a b r = r\<lparr>nxt := (nxt r)(a := b)\<rparr>"

definition set_prv :: "nat \<Rightarrow> nat \<Rightarrow> rings \<Rightarrow> rings" where
  "set_prv a b r = r\<lparr>prv := (prv r)(a := b)\<rparr>"

lemma rings_simps [simp]:
  "nxt (set_nxt a b r) = (nxt r)(a := b)" "prv (set_nxt a b r) = prv r"
  "nxt (set_prv a b r) = nxt r" "prv (set_prv a b r) = (prv r)(a := b)"
  by (simp_all add: set_nxt_def set_prv_def)

definition QUEUE_INIT :: "nat \<Rightarrow> rings \<Rightarrow> rings" where
  "QUEUE_INIT q r = set_prv q q (set_nxt q q r)"

definition QUEUE_EMPTY :: "nat \<Rightarrow> rings \<Rightarrow> bool" where
  "QUEUE_EMPTY q r \<longleftrightarrow> q = nxt r q"

definition QUEUE_HEAD :: "nat \<Rightarrow> rings \<Rightarrow> nat" where
  "QUEUE_HEAD q r = nxt r q"

definition QUEUE_INSERT_HEAD :: "nat \<Rightarrow> nat \<Rightarrow> rings \<Rightarrow> rings" where
  "QUEUE_INSERT_HEAD h q r =
     (let r1 = set_nxt q (nxt r h) r; r2 = set_prv q h r1; r3 = set_prv (nxt r2 q) q r2
      in set_nxt h q r3)"

definition QUEUE_INSERT_TAIL :: "nat \<Rightarrow> nat \<Rightarrow> rings \<Rightarrow> rings" where
  "QUEUE_INSERT_TAIL h q r =
     (let r1 = set_nxt q h r; r2 = set_prv q (prv r1 h) r1; r3 = set_nxt (prv r2 q) q r2
      in set_prv h q r3)"

definition QUEUE_REMOVE :: "nat \<Rightarrow> rings \<Rightarrow> rings" where
  "QUEUE_REMOVE q r = (let r1 = set_nxt (prv r q) (nxt r q) r in set_prv (nxt r1 q) (prv r1 q) r1)"

definition QUEUE_ADD :: "nat \<Rightarrow> nat \<Rightarrow> rings \<Rightarrow> rings" where
  "QUEUE_ADD h n r =
     (let r1 = set_nxt (prv r h) (nxt r n) r; r2 = set_prv (nxt r1 n) (prv r1 h) r1;
          r3 = set_prv h (prv r2 n) r2
      in set_nxt (prv r3 h) h r3)"

definition QUEUE_SPLIT :: "nat \<Rightarrow> nat \<Rightarrow> nat \<Rightarrow> rings \<Rightarrow> rings" where
  "QUEUE_SPLIT h q n r =
     (let r1 = set_prv n (prv r h) r; r2 = set_nxt (prv r1 n) n r1; r3 = set_nxt n q r2;
          r4 = set_prv h (prv r3 q) r3; r5 = set_nxt (prv r4 h) h r4
      in set_prv q n r5)"

definition QUEUE_MOVE :: "nat \<Rightarrow> nat \<Rightarrow> rings \<Rightarrow> rings" where
  "QUEUE_MOVE h n r = (if QUEUE_EMPTY h r then QUEUE_INIT n r else QUEUE_SPLIT h (QUEUE_HEAD h r) n r)"

text \<open>The nodes QUEUE_FOREACH visits, with a bound on their number.\<close>

fun QUEUE_FOREACH :: "nat \<Rightarrow> nat \<Rightarrow> nat \<Rightarrow> rings \<Rightarrow> nat list run" where
  "QUEUE_FOREACH 0 q h r = NoFuel"
| "QUEUE_FOREACH (Suc fuel) q h r =
     (if q = h then Ret [] else bnd (QUEUE_FOREACH fuel (nxt r q) h r) (\<lambda>xs. Ret (q # xs)))"

section \<open>The list a ring holds\<close>

text \<open>A chain of links from one node to another, through the nodes of a list.\<close>

fun chain :: "rings \<Rightarrow> nat \<Rightarrow> nat list \<Rightarrow> nat \<Rightarrow> bool" where
  "chain r a [] b \<longleftrightarrow> nxt r a = b \<and> prv r b = a"
| "chain r a (x # xs) b \<longleftrightarrow> nxt r a = x \<and> prv r x = a \<and> chain r x xs b"

definition ring :: "rings \<Rightarrow> nat \<Rightarrow> nat list \<Rightarrow> bool" where
  "ring r h xs \<longleftrightarrow> distinct (h # xs) \<and> chain r h xs h"

lemma chain_append [simp]: "chain r a (xs @ y # ys) b \<longleftrightarrow> chain r a xs y \<and> chain r y ys b"
  by (induction xs arbitrary: a) auto

lemma chain_frame:
  "\<lbrakk>chain r a xs b; \<forall>x \<in> insert a (set xs). nxt r' x = nxt r x;
    \<forall>x \<in> insert b (set xs). prv r' x = prv r x\<rbrakk> \<Longrightarrow> chain r' a xs b"
  by (induction xs arbitrary: a) auto

lemma chain_first: "chain r a xs b \<Longrightarrow> nxt r a = (case xs of [] \<Rightarrow> b | x # _ \<Rightarrow> x)"
  by (cases xs) auto

lemma chain_last: "chain r a xs b \<Longrightarrow> prv r b = (if xs = [] then a else last xs)"
  by (induction xs arbitrary: a) auto

lemma ring_frame:
  "\<lbrakk>ring r h xs; \<forall>x \<in> insert h (set xs). nxt r' x = nxt r x \<and> prv r' x = prv r x\<rbrakk> \<Longrightarrow> ring r' h xs"
  unfolding ring_def by (auto intro: chain_frame)

lemma ring_empty: "ring r h xs \<Longrightarrow> QUEUE_EMPTY h r \<longleftrightarrow> xs = []"
  by (cases xs) (auto simp: ring_def QUEUE_EMPTY_def)

lemma ring_head: "ring r h (x # xs) \<Longrightarrow> QUEUE_HEAD h r = x"
  by (simp add: ring_def QUEUE_HEAD_def)

lemma ring_init: "ring (QUEUE_INIT q r) q []"
  by (simp add: ring_def QUEUE_INIT_def)

lemma ring_insert_tail:
  assumes "ring r h xs" and "q \<notin> insert h (set xs)"
  shows "ring (QUEUE_INSERT_TAIL h q r) h (xs @ [q])"
proof (cases xs rule: rev_cases)
  case Nil
  with assms show ?thesis by (auto simp: ring_def QUEUE_INSERT_TAIL_def Let_def)
next
  case (snoc ys l)
  let ?r = "QUEUE_INSERT_TAIL h q r"
  from assms snoc have c: "chain r h ys l" "nxt r l = h" "prv r h = l" and d: "distinct (h # ys @ [l])"
    by (auto simp: ring_def)
  have n: "nxt ?r = (nxt r)(q := h, l := q)" "prv ?r = (prv r)(q := l, h := q)"
    using assms(2) snoc c(3) by (auto simp: QUEUE_INSERT_TAIL_def Let_def)
  have "chain ?r h ys l" using assms(2) snoc d n by (intro chain_frame [OF c(1)]) auto
  with n assms(2) snoc d show ?thesis by (auto simp: ring_def)
qed

lemma ring_insert_head:
  assumes "ring r h xs" and "q \<notin> insert h (set xs)"
  shows "ring (QUEUE_INSERT_HEAD h q r) h (q # xs)"
proof (cases xs)
  case Nil
  with assms show ?thesis by (auto simp: ring_def QUEUE_INSERT_HEAD_def Let_def)
next
  case (Cons f ys)
  let ?r = "QUEUE_INSERT_HEAD h q r"
  from assms Cons have c: "nxt r h = f" "prv r f = h" "chain r f ys h" and d: "distinct (h # f # ys)"
    by (auto simp: ring_def)
  have n: "nxt ?r = (nxt r)(q := f, h := q)" "prv ?r = (prv r)(q := h, f := q)"
    using assms(2) Cons c(1) by (auto simp: QUEUE_INSERT_HEAD_def Let_def)
  have "chain ?r f ys h" using assms(2) Cons d n by (intro chain_frame [OF c(3)]) auto
  with n assms(2) Cons d show ?thesis by (auto simp: ring_def)
qed

lemma chain_split: "chain r a (xs @ ys) b \<longleftrightarrow>
    (case ys of [] \<Rightarrow> chain r a xs b | y # ys' \<Rightarrow> chain r a xs y \<and> chain r y ys' b)"
  by (cases ys) simp_all

text \<open>The two ends of a chain can be moved: what counts at the first node is its next pointer, at
  the last its previous one.\<close>

lemma chain_relink:
  "\<lbrakk>chain r a xs q; q \<notin> set xs; p = (if xs = [] then a else last xs);
    nxt r' p = b; prv r' b = p; distinct (a # xs);
    \<forall>x \<in> insert a (set xs) - {p}. nxt r' x = nxt r x; \<forall>x \<in> set xs. prv r' x = prv r x\<rbrakk>
   \<Longrightarrow> chain r' a xs b"
proof (induction xs arbitrary: a)
  case Nil
  then show ?case by auto
next
  case (Cons x xs)
  have "a \<noteq> p" using Cons.prems by auto
  with Cons show ?case by (auto split: if_splits)
qed

lemma chain_ends:
  assumes "chain r h xs q" and "chain r q ys h"
  shows "prv r q \<in> insert h (set xs)" "nxt r q \<in> insert h (set ys)"
    "prv r q = (if xs = [] then h else last xs)" "nxt r q = (case ys of [] \<Rightarrow> h | y # _ \<Rightarrow> y)"
  using chain_last [OF assms(1)] chain_first [OF assms(2)] by (auto split: list.splits)

lemma ring_remove:
  assumes "ring r h (xs @ q # ys)"
  shows "ring (QUEUE_REMOVE q r) h (xs @ ys)"
proof -
  from assms have c: "chain r h xs q" "chain r q ys h" and d: "distinct (h # xs @ q # ys)"
    by (auto simp: ring_def)
  obtain p n where pn: "prv r q = p" "nxt r q = n" by simp
  note e = chain_ends [OF c, unfolded pn]
  have n: "nxt (QUEUE_REMOVE q r) = (nxt r)(p := n)" "prv (QUEUE_REMOVE q r) = (prv r)(n := p)"
    using d e(1,2) pn by (auto simp: QUEUE_REMOVE_def Let_def)
  have left: "chain (QUEUE_REMOVE q r) h xs n"
  proof (rule chain_relink [OF c(1) _ e(3)])
    show "\<forall>x \<in> set xs. prv (QUEUE_REMOVE q r) x = prv r x" using n(2) e(2) d by auto
  qed (use d n in auto)
  show ?thesis
  proof (cases ys)
    case Nil
    with left d e(4) show ?thesis by (simp add: ring_def)
  next
    case (Cons y ys')
    have "chain (QUEUE_REMOVE q r) y ys' h"
    proof (rule chain_frame [of r y ys' h])
      show "\<forall>x \<in> insert y (set ys'). nxt (QUEUE_REMOVE q r) x = nxt r x"
        using n(1) e(1) d Cons by auto
      show "\<forall>x \<in> insert h (set ys'). prv (QUEUE_REMOVE q r) x = prv r x"
        using n(2) e(4) d Cons by auto
    qed (use c(2) Cons in simp)
    with left d Cons e(4) show ?thesis by (auto simp: ring_def)
  qed
qed

text \<open>Removing a node that is alone in its own ring changes nothing: this is why a watcher that is
  taken out of a queue is initialised again, and may be taken out twice.\<close>

lemma ring_remove_alone: "ring r q [] \<Longrightarrow> QUEUE_REMOVE q r = r"
  by (simp add: ring_def QUEUE_REMOVE_def set_nxt_def set_prv_def fun_upd_idem)

lemma ring_remove_other:
  assumes "ring r h (xs @ q # ys)" and "ring r h' zs" and "set (h # xs @ q # ys) \<inter> set (h' # zs) = {}"
  shows "ring (QUEUE_REMOVE q r) h' zs"
proof -
  from assms(1) have c: "chain r h xs q" "chain r q ys h" by (auto simp: ring_def)
  have "prv r q \<in> set (h # xs)" "nxt r q \<in> set (h # ys)"
    using chain_last [OF c(1)] chain_first [OF c(2)] by (auto split: list.splits)
  then show ?thesis using assms(3)
    by (intro ring_frame [OF assms(2)]) (auto simp: QUEUE_REMOVE_def Let_def)
qed

lemma ring_move:
  assumes "ring r h xs" and "n \<notin> insert h (set xs)"
  shows "ring (QUEUE_MOVE h n r) n xs" "ring (QUEUE_MOVE h n r) h []"
proof -
  have "ring (QUEUE_MOVE h n r) n xs \<and> ring (QUEUE_MOVE h n r) h []"
  proof (cases xs)
    case Nil
    with assms show ?thesis
      by (auto simp: QUEUE_MOVE_def QUEUE_EMPTY_def QUEUE_INIT_def ring_def)
  next
    case (Cons q ys)
    let ?r = "QUEUE_MOVE h n r"
    from assms Cons have c: "nxt r h = q" "prv r q = h" "chain r q ys h" and d: "distinct (h # q # ys)"
      by (auto simp: ring_def)
    obtain l where l: "prv r h = l" "l = (if ys = [] then q else last ys)"
      using chain_last [OF c(3)] by blast
    then have lm: "l \<in> insert q (set ys)" by auto
    then have lh: "l \<noteq> h" "l \<noteq> n" using d assms(2) Cons by auto
    have eq: "?r = QUEUE_SPLIT h q n r"
      using assms(1) Cons ring_head ring_empty by (auto simp: QUEUE_MOVE_def)
    have n: "nxt ?r = (nxt r)(l := n, n := q, h := h)" "prv ?r = (prv r)(n := l, h := h, q := n)"
      unfolding eq using l lh d assms(2) Cons c by (auto simp: QUEUE_SPLIT_def Let_def)
    have "chain ?r q ys n"
    proof (rule chain_relink [OF c(3) _ l(2)])
      show "nxt ?r l = n" using n(1) lh assms(2) Cons by (simp add: fun_upd_def)
      show "prv ?r n = l" using n(2) assms(2) Cons by auto
      show "\<forall>x \<in> insert q (set ys) - {l}. nxt ?r x = nxt r x" using n(1) d assms(2) Cons by auto
      show "\<forall>x \<in> set ys. prv ?r x = prv r x" using n(2) d assms(2) Cons by auto
    qed (use d in auto)
    moreover have "nxt ?r n = q" "prv ?r q = n" "nxt ?r h = h" "prv ?r h = h"
      using n d assms(2) Cons lh by (auto simp: fun_upd_def)
    ultimately show ?thesis using d assms(2) Cons by (auto simp: ring_def)
  qed
  then show "ring (QUEUE_MOVE h n r) n xs" "ring (QUEUE_MOVE h n r) h []" by auto
qed

lemma ring_add:
  assumes "ring r h xs" and "ring r n ys" and "set (h # xs) \<inter> set (n # ys) = {}" and "ys \<noteq> []"
  shows "ring (QUEUE_ADD h n r) h (xs @ ys)"
proof -
  let ?r = "QUEUE_ADD h n r"
  obtain y zs where ys: "ys = y # zs" using assms(4) by (cases ys) auto
  let ?p = "if xs = [] then h else last xs" and ?l = "last ys"
  from assms ys have c: "chain r h xs h" "nxt r n = y" "prv r y = n" "chain r y zs n"
    and d: "distinct (h # xs)" "distinct (n # y # zs)" by (auto simp: ring_def)
  have p: "prv r h = ?p" "prv r n = ?l" using chain_last [OF c(1)] chain_last [OF c(4)] ys by auto
  have pm: "?p \<in> set (h # xs)" by auto
  have lm: "?l \<in> set ys" using assms(4) by (rule last_in_set)
  have ne: "y \<noteq> h" "y \<noteq> n" "?p \<noteq> n" "?l \<noteq> h" "?l \<noteq> ?p" "n \<noteq> h" "n \<noteq> ?l" "?p \<notin> set ys" "h \<notin> set ys" "y \<notin> set xs"
    using d assms(3) ys pm lm by auto
  have n: "nxt ?r = (nxt r)(?p := y, ?l := h)" "prv ?r = (prv r)(y := ?p, h := ?l)"
    unfolding QUEUE_ADD_def Let_def using p c(2) ne by (simp_all add: fun_upd_twist)
  have left: "chain ?r h xs y"
  proof (rule chain_relink [OF c(1)])
    show "\<forall>x \<in> set xs. prv ?r x = prv r x" using n(2) ne d by auto
    show "\<forall>x \<in> insert h (set xs) - {?p}. nxt ?r x = nxt r x" using n(1) lm assms(3) by auto
    show "nxt ?r ?p = y" using n(1) ne(5) by (simp add: fun_upd_def)
    show "prv ?r y = ?p" using n(2) ne(1) by simp
  qed (use d in auto)
  have right: "chain ?r y zs h"
  proof (rule chain_relink [OF c(4)])
    show "?l = (if zs = [] then y else last zs)" using ys by simp
    show "\<forall>x \<in> set zs. prv ?r x = prv r x" using n(2) ne ys d by auto
    show "\<forall>x \<in> insert y (set zs) - {?l}. nxt ?r x = nxt r x" using n(1) ne(8) ys by auto
  qed (use d n ne ys in auto)
  show ?thesis using left right d assms(3) ys by (auto simp: ring_def)
qed

lemma foreach_chain:
  "chain r a xs h \<Longrightarrow> distinct (h # xs) \<Longrightarrow> length xs < fuel \<Longrightarrow>
   QUEUE_FOREACH fuel (nxt r a) h r = Ret xs"
proof (induction xs arbitrary: a fuel)
  case Nil
  then show ?case by (cases fuel) auto
next
  case (Cons x xs)
  then obtain f where f: "fuel = Suc f" by (cases fuel) auto
  from Cons.IH [of x f] Cons.prems f show ?case by auto
qed

section \<open>Walking a queue\<close>

text \<open>The loop uv_walk, uv__run_idle and uv__async_io share: the queue is moved to a local one, and
  each node goes back to its own queue before it is visited. The visited nodes are returned; what a
  visit does is added by the loop's theory. The operations of the queue are arguments.\<close>

fun rotate_nodes :: "(nat \<Rightarrow> 'r \<Rightarrow> bool) \<Rightarrow> (nat \<Rightarrow> 'r \<Rightarrow> nat) \<Rightarrow> (nat \<Rightarrow> 'r \<Rightarrow> 'r) \<Rightarrow>
      (nat \<Rightarrow> nat \<Rightarrow> 'r \<Rightarrow> 'r) \<Rightarrow> nat \<Rightarrow> nat \<Rightarrow> nat \<Rightarrow> 'r \<Rightarrow> (nat list \<times> 'r) run" where
  "rotate_nodes is_empty head remove insert_tail 0 tmp h r = NoFuel"
| "rotate_nodes is_empty head remove insert_tail (Suc fuel) tmp h r =
     (if is_empty tmp r then Ret ([], r)
      else let q = head tmp r in
        bnd (rotate_nodes is_empty head remove insert_tail fuel tmp h (insert_tail h q (remove q r)))
          (\<lambda>(qs, r1). Ret (q # qs, r1)))"

definition walk_nodes :: "nat \<Rightarrow> nat \<Rightarrow> nat \<Rightarrow> rings \<Rightarrow> (nat list \<times> rings) run" where
  "walk_nodes fuel tmp h r =
     rotate_nodes QUEUE_EMPTY QUEUE_HEAD QUEUE_REMOVE QUEUE_INSERT_TAIL fuel tmp h (QUEUE_MOVE h tmp r)"

text \<open>What the loop needs of its queues.\<close>

locale node_queue =
  fixes holds :: "'r \<Rightarrow> nat \<Rightarrow> nat list \<Rightarrow> bool"
    and is_empty :: "nat \<Rightarrow> 'r \<Rightarrow> bool" and head :: "nat \<Rightarrow> 'r \<Rightarrow> nat"
    and remove :: "nat \<Rightarrow> 'r \<Rightarrow> 'r" and insert_tail :: "nat \<Rightarrow> nat \<Rightarrow> 'r \<Rightarrow> 'r"
  assumes empty_iff: "holds r h xs \<Longrightarrow> is_empty h r \<longleftrightarrow> xs = []"
    and head_eq: "holds r h (x # xs) \<Longrightarrow> head h r = x"
    and remove_first: "holds r h (x # xs) \<Longrightarrow> holds (remove x r) h xs"
    and remove_keeps: "\<lbrakk>holds r h (x # xs); holds r h' ys; set (h # x # xs) \<inter> set (h' # ys) = {}\<rbrakk>
      \<Longrightarrow> holds (remove x r) h' ys"
    and insert_last: "\<lbrakk>holds r h xs; q \<notin> set (h # xs)\<rbrakk> \<Longrightarrow> holds (insert_tail h q r) h (xs @ [q])"
    and insert_keeps: "\<lbrakk>holds r h xs; holds r h' ys; set (h # q # xs) \<inter> set (h' # ys) = {}\<rbrakk>
      \<Longrightarrow> holds (insert_tail h q r) h' ys"
    and nodes_distinct: "holds r h xs \<Longrightarrow> distinct (h # xs)"
begin

lemma rotate_visits:
  "\<lbrakk>holds r tmp xs; holds r h ys; set (tmp # xs) \<inter> set (h # ys) = {}; length xs < fuel\<rbrakk> \<Longrightarrow>
   \<exists>r'. rotate_nodes is_empty head remove insert_tail fuel tmp h r = Ret (xs, r') \<and>
     holds r' h (ys @ xs) \<and> holds r' tmp []"
proof (induction xs arbitrary: r ys fuel)
  case Nil
  then obtain f where "fuel = Suc f" by (cases fuel) auto
  with Nil empty_iff [of r tmp "[]"] show ?case by auto
next
  case (Cons x xs)
  then obtain f where f: "fuel = Suc f" by (cases fuel) auto
  let ?r1 = "remove x r" and ?r2 = "insert_tail h x (remove x r)"
  have d: "distinct (tmp # x # xs)" "distinct (h # ys)"
    using nodes_distinct Cons.prems by blast+
  have r1: "holds ?r1 tmp xs" "holds ?r1 h ys"
    using remove_first [OF Cons.prems(1)] remove_keeps [OF Cons.prems(1-3)] by auto
  have r2: "holds ?r2 h (ys @ [x])" "holds ?r2 tmp xs"
    using insert_last [OF r1(2), of x] insert_keeps [OF r1(2,1), of x] Cons.prems(3) d by auto
  from Cons.IH [OF r2(2,1), of f] Cons.prems(3,4) d f obtain r' where
    "rotate_nodes is_empty head remove insert_tail f tmp h ?r2 = Ret (xs, r')"
    "holds r' h ((ys @ [x]) @ xs)" "holds r' tmp []" by auto
  with f empty_iff [OF Cons.prems(1)] head_eq [OF Cons.prems(1)] show ?case by auto
qed

end

lemma insert_tail_other:
  assumes "ring r h xs" and "ring r h' ys" and "set (h # q # xs) \<inter> set (h' # ys) = {}"
  shows "ring (QUEUE_INSERT_TAIL h q r) h' ys"
proof -
  have "prv r h \<in> set (h # xs)" using assms(1) chain_last [of r h xs h] by (auto simp: ring_def)
  then show ?thesis using assms(3)
    by (intro ring_frame [OF assms(2)]) (auto simp: QUEUE_INSERT_TAIL_def Let_def)
qed

interpretation uv_queue: node_queue ring QUEUE_EMPTY QUEUE_HEAD QUEUE_REMOVE QUEUE_INSERT_TAIL
proof
  show "ring (QUEUE_REMOVE x r) h' ys" if "ring r h (x # xs)" "ring r h' ys"
    "set (h # x # xs) \<inter> set (h' # ys) = {}" for r h x xs h' ys
    using ring_remove_other [of r h "[]" x xs h' ys] that by simp
qed (auto simp: ring_empty ring_head insert_tail_other ring_insert_tail
      dest: ring_remove [of _ _ "[]", simplified], simp_all add: ring_def)

text \<open>C37: the walk libuv makes over a ring of handles (uv_walk, uv__run_idle, uv__async_io) visits every
  node of the ring once, in the order of the queue, and leaves the ring as it was.\<close>

theorem walk_visits_all:
  assumes "ring r h xs" and "tmp \<notin> set (h # xs)"
  shows "\<exists>r'. walk_nodes (Suc (length xs)) tmp h r = Ret (xs, r') \<and> ring r' h xs \<and> ring r' tmp []"
proof -
  have "tmp \<notin> insert h (set xs)" using assms(2) by simp
  note m = ring_move [OF assms(1) this]
  have "set (tmp # xs) \<inter> set [h] = {}" using assms by (auto simp: ring_def)
  from uv_queue.rotate_visits [OF m this, of "Suc (length xs)"] show ?thesis
    by (simp add: walk_nodes_def del: rotate_nodes.simps)
qed

text \<open>A ring of three handles, 1, 2 and 3, with the head 0.\<close>

definition three_handles :: rings where
  "three_handles = QUEUE_INSERT_TAIL 0 3 (QUEUE_INSERT_TAIL 0 2 (QUEUE_INSERT_TAIL 0 1
     (QUEUE_INIT 0 \<lparr>nxt = id, prv = id\<rparr>)))"

theorem walk_visits_all_witness:
  "\<exists>r'. walk_nodes 4 9 0 three_handles = Ret ([1, 2, 3], r') \<and> ring r' 0 [1, 2, 3]"
proof -
  have "ring three_handles 0 ((([] @ [1]) @ [2]) @ [3])"
    unfolding three_handles_def
    by (intro ring_insert_tail ring_init) auto
  then have "ring three_handles 0 [1, 2, 3]" by simp
  from walk_visits_all [OF this, of 9] show ?thesis by (auto simp: eval_nat_numeral)
qed

end
