(* ===== verification/Watcher_Sys.thy ===== *)
theory Watcher_Sys
  imports CJson_Node
begin

text \<open>
  What watcher.c and the loop of libuv under it ask of the operating system, and the two functions
  of watcher.c that do nothing else:
  safe_readlink and bind_to_unix_domain_socket. The kernel is a parameter: it answers each call
  from the whole history of calls, so every behaviour of a file system, of other processes and
  of the network is some kernel. Laws of a kernel that a lemma relies on are its hypotheses.
\<close>

section \<open>System calls\<close>

datatype sys_call =
    Lstat string | Readlink string nat | Realpath string | Open_dir string
  | Socket | Bind int string | Connect int string | Listen int nat | Accept int | Send int string
  | Unlink string | Chmod string nat | Close int | Read int nat | Open_by_handle int string
  | Fanotify_init | Fanotify_mark int string
  | Epoll_create | Epoll_ctl nat int nat | Epoll_wait int | Eventfd | Pipe | Sigaction int bool bool
  | Ioctl_nonblock int | Fcntl_getfl int | Fcntl_setfl int int | Clock

text \<open>The return value, errno and the bytes the call stored for its caller.\<close>

record reply =
  rv :: int
  errno :: nat
  bytes :: string

type_synonym history = "sys_call list"
type_synonym kernel = "history \<Rightarrow> reply"

text \<open>The newest call is the head of the history.\<close>

definition sys :: "kernel \<Rightarrow> sys_call \<Rightarrow> history \<Rightarrow> reply \<times> history" where
  "sys k c h = (k (c # h), c # h)"

definition do_close :: "int \<Rightarrow> history \<Rightarrow> history" where
  "do_close fd h = Close fd # h"

fun opens :: "sys_call \<Rightarrow> bool" where
  "opens Socket = True"
| "opens (Accept fd) = True"
| "opens (Open_by_handle fd h) = True"
| "opens (Open_dir p) = True"
| "opens Fanotify_init = True"
| "opens c = False"

text \<open>The descriptors open after a history.\<close>

fun open_fds :: "kernel \<Rightarrow> history \<Rightarrow> int set" where
  "open_fds k [] = {}"
| "open_fds k (c # h) =
     (if opens c \<and> rv (k (c # h)) \<noteq> -1 then insert (rv (k (c # h))) (open_fds k h)
      else case c of Close fd \<Rightarrow> open_fds k h - {fd} | _ \<Rightarrow> open_fds k h)"

text \<open>A documented law: a descriptor the kernel hands out is not an open one.\<close>

definition fresh_fds :: "kernel \<Rightarrow> bool" where
  "fresh_fds k \<longleftrightarrow> (\<forall>c h. opens c \<longrightarrow> rv (k (c # h)) \<notin> open_fds k h)"

lemma open_fds_Close [simp]: "open_fds k (Close fd # h) = open_fds k h - {fd}"
  by simp

section \<open>safe_readlink\<close>

text \<open>The value of a 64-bit size conversion to int.\<close>

definition to_int32 :: "int \<Rightarrow> int" where
  "to_int32 n = (n + 2 ^ 31) mod 2 ^ 32 - 2 ^ 31"

text \<open>One unit of fuel per attempt. \<open>have_buf\<close> says that the buffer of the attempt before is
  still allocated. A refused malloc fails the assertion.\<close>

fun readlink_loop :: "kernel \<Rightarrow> string \<Rightarrow> nat \<Rightarrow> nat \<Rightarrow> bool \<Rightarrow> history \<Rightarrow> amem \<Rightarrow>
      (int \<times> string option \<times> history \<times> amem) run" where
  "readlink_loop k pathname 0 sz have_buf h m = NoFuel"
| "readlink_loop k pathname (Suc fuel) sz have_buf h m =
     (let m1 = (if have_buf then dealloc m else m);
          (ok, m2) = alloc m1 in
      if \<not> ok then Abort
      else let (r, h1) = sys k (Readlink pathname sz) h; linksize = rv r in
        if linksize < 0 then Ret (-1, None, h1, m2)
        else if nat linksize < sz then
          Ret (to_int32 linksize, Some (take (nat linksize) (bytes r)), h1, m2)
        else readlink_loop k pathname fuel ((sz * 2) mod 2 ^ 64) True h1 m2)"

text \<open>The size is a 64-bit size_t that doubles each time.\<close>

definition READLINK_ROUNDS :: nat where
  "READLINK_ROUNDS = 64"

text \<open>The reply to lstat carries st_size as the length of its bytes.\<close>

definition safe_readlink :: "kernel \<Rightarrow> string \<Rightarrow> history \<Rightarrow> amem \<Rightarrow>
      (int \<times> string option \<times> history \<times> amem) run" where
  "safe_readlink k pathname h m =
     (let (r, h1) = sys k (Lstat pathname) h in
      if rv r = -1 then Ret (-1, None, h1, m)
      else readlink_loop k pathname READLINK_ROUNDS (length (bytes r) + 1) False h1 m)"

text \<open>The documented behaviour of readlink on a link whose target is \<open>target\<close>, from the history \<open>h\<close>
  on, as long as only the link is looked at: it stores at most \<open>sz\<close> bytes, without a terminator,
  and returns their number.\<close>

definition looks_at :: "string \<Rightarrow> sys_call \<Rightarrow> bool" where
  "looks_at p c \<longleftrightarrow> c = Lstat p \<or> (\<exists>n. c = Readlink p n)"

definition links_to :: "kernel \<Rightarrow> string \<Rightarrow> string \<Rightarrow> history \<Rightarrow> bool" where
  "links_to k p target h \<longleftrightarrow>
     (\<forall>us n. (\<forall>c \<in> set us. looks_at p c) \<longrightarrow>
        rv (k (Readlink p n # us @ h)) = int (min n (length target)) \<and>
        bytes (k (Readlink p n # us @ h)) = take n target) \<and>
     rv (k (Lstat p # h)) \<noteq> -1"

definition no_alloc_fails :: "amem \<Rightarrow> bool" where
  "no_alloc_fails m \<longleftrightarrow> (\<forall>i. \<not> fails m i)"

lemma alloc_succeeds: "no_alloc_fails m \<Longrightarrow>
    alloc m = (True, m\<lparr>calls := Suc (calls m), live := live m + 1\<rparr>)"
  by (simp add: alloc_def no_alloc_fails_def)

lemma to_int32_small: "0 \<le> n \<Longrightarrow> n < 2 ^ 31 \<Longrightarrow> to_int32 n = n"
  by (simp add: to_int32_def)

lemma readlink_loop_target:
  assumes "links_to k p t h" and "length t < 2 ^ 31"
  shows "\<lbrakk>0 < sz; length t < sz * 2 ^ fuel; sz < 2 ^ 33; no_alloc_fails m;
      \<forall>c \<in> set us. looks_at p c\<rbrakk> \<Longrightarrow>
    \<exists>us' m'. readlink_loop k p (Suc fuel) sz have_buf (us @ h) m =
        Ret (int (length t), Some t, us' @ h, m') \<and> (\<forall>c \<in> set us'. looks_at p c) \<and>
      live m' = live m + (if have_buf then 0 else 1) \<and> fails m' = fails m"
proof (induction fuel arbitrary: sz have_buf us m)
  case 0
  let ?us = "Readlink p sz # us"
  have "rv (k (?us @ h)) = int (length t)" "bytes (k (?us @ h)) = t"
    using assms(1) 0 by (simp_all add: links_to_def)
  moreover have "\<forall>c \<in> set ?us. looks_at p c" using 0 by (auto simp: looks_at_def)
  ultimately show ?case using 0 assms(2)
    by (intro exI [of _ ?us]) (auto simp: sys_def alloc_def no_alloc_fails_def to_int32_small)
next
  case (Suc fuel)
  let ?m1 = "if have_buf then dealloc m else m" and ?us = "Readlink p sz # us"
  have ok: "alloc ?m1 = (True, ?m1\<lparr>calls := Suc (calls m), live := live ?m1 + 1\<rparr>)"
    using Suc.prems(4) by (simp add: alloc_def no_alloc_fails_def)
  have r: "rv (k (?us @ h)) = int (min sz (length t))" "bytes (k (?us @ h)) = take sz t"
    using assms(1) Suc.prems(5) by (simp_all add: links_to_def)
  have look: "\<forall>c \<in> set ?us. looks_at p c" using Suc.prems(5) by (auto simp: looks_at_def)
  show ?case
  proof (cases "length t < sz")
    case True
    with ok r assms(2) look show ?thesis
      by (intro exI [of _ ?us]) (simp add: sys_def to_int32_small)
  next
    case False
    let ?m2 = "?m1\<lparr>calls := Suc (calls m), live := live ?m1 + 1\<rparr>"
    have "sz < 2 ^ 31" using False assms(2) by simp
    then have szs: "(sz * 2) mod 2 ^ 64 = sz * 2" "sz * 2 < 2 ^ 33" by simp_all
    have "no_alloc_fails ?m2" using Suc.prems(4) by (simp add: no_alloc_fails_def)
    with Suc.IH [of "sz * 2" ?m2 ?us True] szs Suc.prems(1,2) look obtain us' m' where
      "readlink_loop k p (Suc fuel) (sz * 2) True (?us @ h) ?m2 =
         Ret (int (length t), Some t, us' @ h, m')" "\<forall>c \<in> set us'. looks_at p c"
      "live m' = live ?m2" "fails m' = fails ?m2"
      by (auto simp: mult.commute mult.left_commute)
    with ok r False szs(1) show ?thesis
      by (subst readlink_loop.simps) (simp add: sys_def del: readlink_loop.simps)
  qed
qed

text \<open>Whatever the kernel answers, a text that is returned is the whole reply of the last call of
  readlink, shorter than the buffer, and when readlink fails the buffer stays allocated.\<close>

lemma readlink_loop_result:
  "readlink_loop k p fuel sz have_buf h m = Ret (n, s, h', m') \<Longrightarrow>
   \<exists>sz' h1. h' = Readlink p sz' # h1 \<and> live m' = live m + (if have_buf then 0 else 1) \<and>
     fails m' = fails m \<and>
     (case s of None \<Rightarrow> n = -1 \<and> rv (k h') < 0
      | Some t \<Rightarrow> 0 \<le> rv (k h') \<and> nat (rv (k h')) < sz' \<and> n = to_int32 (rv (k h')) \<and>
          t = take (nat (rv (k h'))) (bytes (k h')))"
proof (induction fuel arbitrary: sz have_buf h m)
  case 0
  then show ?case by simp
next
  case (Suc fuel)
  let ?m1 = "if have_buf then dealloc m else m"
  obtain ok m2 where a: "alloc ?m1 = (ok, m2)" by (cases "alloc ?m1")
  let ?r = "k (Readlink p sz # h)"
  from Suc.prems a have ok: ok by (auto split: if_splits)
  from alloc_cases [OF a] ok have m2: "live m2 = live m + (if have_buf then 0 else 1)"
      "fails m2 = fails m" by auto
  show ?case
  proof (cases "0 \<le> rv ?r \<and> \<not> nat (rv ?r) < sz")
    case True
    with Suc.prems a ok have "readlink_loop k p fuel ((sz * 2) mod 2 ^ 64) True
        (Readlink p sz # h) m2 = Ret (n, s, h', m')"
      by (auto simp: sys_def)
    from Suc.IH [OF this] m2 show ?thesis by simp
  next
    case False
    with Suc.prems a ok m2 show ?thesis
      by (auto simp: sys_def Let_def split: if_splits)
  qed
qed

lemma readlink_whole:
  assumes "links_to k p t h" and "length t < 2 ^ 31" and "no_alloc_fails m"
    and "length (bytes (k (Lstat p # h))) < 2 ^ 32"
  shows "\<exists>us m'. safe_readlink k p h m = Ret (int (length t), Some t, us @ h, m') \<and>
           (\<forall>c \<in> set us. looks_at p c) \<and> live m' = live m + 1 \<and> fails m' = fails m"
proof -
  let ?sz = "length (bytes (k (Lstat p # h))) + 1"
  have "length t < ?sz * 2 ^ 63" using assms(2) by simp
  with readlink_loop_target [OF assms(1,2), of ?sz 63 m "[Lstat p]" False] assms(3,4)
  obtain us m' where "readlink_loop k p (Suc 63) ?sz False (Lstat p # h) m =
      Ret (int (length t), Some t, us @ h, m')" "\<forall>c \<in> set us. looks_at p c"
      "live m' = live m + 1" "fails m' = fails m"
    by (auto simp: looks_at_def)
  moreover have "rv (k (Lstat p # h)) \<noteq> -1" using assms(1) by (simp add: links_to_def)
  moreover have "READLINK_ROUNDS = Suc 63" by (simp add: READLINK_ROUNDS_def)
  ultimately show ?thesis by (simp add: safe_readlink_def sys_def)
qed

text \<open>C30: on a link whose target fits an int, safe_readlink returns the whole target and its
  length, whatever size below 2 to the 32 lstat reported (a link can grow between the two calls), and leaves its
  caller one block to free.\<close>

theorem safe_readlink_target:
  assumes "links_to k p t h" and "length t < 2 ^ 31" and "no_alloc_fails m"
    and "length (bytes (k (Lstat p # h))) < 2 ^ 32"
  shows "\<exists>us m'. safe_readlink k p h m = Ret (int (length t), Some t, us @ h, m') \<and>
           (\<forall>c \<in> set us. looks_at p c) \<and> live m' = live m + 1 \<and> fails m' = fails m"
  by (rule readlink_whole [OF assms])

text \<open>A kernel on which every link has the same target and lstat reports nothing.\<close>

definition link_kernel :: "string \<Rightarrow> kernel" where
  "link_kernel t h = (case h of
      Readlink p n # _ \<Rightarrow> \<lparr>rv = int (min n (length t)), errno = 0, bytes = take n t\<rparr>
    | _ \<Rightarrow> \<lparr>rv = 0, errno = 0, bytes = []\<rparr>)"

theorem safe_readlink_target_witness:
  "\<exists>us m'. safe_readlink (link_kernel ''/home'') ''/proc/self/fd/7'' []
      \<lparr>fails = (\<lambda>_. False), calls = 0, live = 0\<rparr> = Ret (5, Some ''/home'', us, m') \<and> live m' = 1"
  using safe_readlink_target [of "link_kernel ''/home''" "''/proc/self/fd/7''" "''/home''" "[]"
      "\<lparr>fails = (\<lambda>_. False), calls = 0, live = 0\<rparr>"]
  by (auto simp: links_to_def link_kernel_def no_alloc_fails_def)

text \<open>When lstat succeeds and readlink fails, the buffer of the failed attempt is never
  freed: the function returns -1 without storing the pointer and one block more is allocated.\<close>

theorem safe_readlink_leaks:
  assumes "safe_readlink k p h m = Ret (-1, None, h', m')" and "rv (k (Lstat p # h)) \<noteq> -1"
  shows "live m' = live m + 1"
  using assms readlink_loop_result [of k p READLINK_ROUNDS _ False "Lstat p # h" m "-1" None h' m']
  by (auto simp: safe_readlink_def sys_def)

theorem safe_readlink_leaks_witness:
  "live (\<lparr>fails = (\<lambda>_. False), calls = 1, live = 1\<rparr> :: amem) =
     live (\<lparr>fails = (\<lambda>_. False), calls = 0, live = 0\<rparr> :: amem) + 1"
  by (rule safe_readlink_leaks
       [of "\<lambda>h. \<lparr>rv = (case h of Readlink p n # _ \<Rightarrow> -1 | _ \<Rightarrow> 0), errno = 0, bytes = []\<rparr>" "''x''" "[]"
           _ "[Readlink ''x'' 1, Lstat ''x'']"])
     (simp_all add: safe_readlink_def sys_def READLINK_ROUNDS_def numeral_eq_Suc alloc_def)

section \<open>bind_to_unix_domain_socket\<close>

definition EADDRINUSE :: nat where
  "EADDRINUSE = 98"

text \<open>sun_path holds 108 bytes, and strncpy stores at most 107 of the path.\<close>

definition sun_path :: "string \<Rightarrow> string" where
  "sun_path path = take 107 path"

definition listen_on :: "kernel \<Rightarrow> string \<Rightarrow> int \<Rightarrow> history \<Rightarrow> int \<times> history" where
  "listen_on k path fd h =
     (let (l, h1) = sys k (Listen fd 10) h in
      if rv l = -1 then (-1, do_close fd h1)
      else let (c, h2) = sys k (Chmod path 511) h1 in
        if rv c = -1 then (-1, do_close fd h2) else (fd, h2))"

definition bind_to_unix_domain_socket :: "kernel \<Rightarrow> string \<Rightarrow> history \<Rightarrow> int \<times> history" where
  "bind_to_unix_domain_socket k path h =
     (let (s, h1) = sys k Socket h; fd = rv s in
      if fd = -1 then (-1, h1)
      else let (b, h2) = sys k (Bind fd (sun_path path)) h1 in
        if rv b = -1 then
          (if errno b = EADDRINUSE then
             (let (s2, h3) = sys k Socket h2; client_fd = rv s2 in
              if client_fd = -1 then (-1, do_close fd h3)
              else let (c, h4) = sys k (Connect client_fd (sun_path path)) h3 in
                if rv c = -1 then
                  (let (u, h5) = sys k (Unlink path) h4 in
                   if rv u = -1 then (-1, do_close fd h5)
                   else let (b2, h6) = sys k (Bind fd (sun_path path)) h5 in
                     if rv b2 = -1 then (-1, do_close fd h6) else listen_on k path fd h6)
                else (-1, do_close fd (do_close client_fd h4)))
           else (-1, do_close fd h2))
        else listen_on k path fd h2)"

text \<open>The descriptors that the calls \<open>new\<close>, made after \<open>h\<close>, tried to connect in vain.\<close>

fun failed_connects :: "kernel \<Rightarrow> history \<Rightarrow> history \<Rightarrow> int set" where
  "failed_connects k [] h = {}"
| "failed_connects k (c # new) h =
     (case c of Connect fd p \<Rightarrow>
        (if rv (k (c # new @ h)) = -1 then insert fd (failed_connects k new h)
         else failed_connects k new h)
      | _ \<Rightarrow> failed_connects k new h)"

lemma fresh_fdD: "fresh_fds k \<Longrightarrow> opens c \<Longrightarrow> rv (k (c # h)) \<notin> open_fds k h"
  by (simp add: fresh_fds_def)

text \<open>The calls made between two histories, newest first.\<close>

definition calls_since :: "history \<Rightarrow> history \<Rightarrow> history" where
  "calls_since h h' = take (length h' - length h) h'"

lemmas bind_unfolds = bind_to_unix_domain_socket_def listen_on_def sys_def do_close_def Let_def
  calls_since_def

text \<open>C29: the descriptors. When it returns -1 it has closed every descriptor it opened, and when it
  returns a descriptor that one alone stays open, except for the client socket of a failed
  connect, which stays open on every path.\<close>

theorem bind_descriptors:
  assumes "fresh_fds k" and "bind_to_unix_domain_socket k path h = (r, h')"
  shows "open_fds k h' =
    open_fds k h \<union> (if r = -1 then {} else {r}) \<union> failed_connects k (calls_since h h') h"
proof -
  let ?a = "Socket # h" and ?p = "sun_path path"
  let ?fd = "rv (k ?a)"
  let ?b = "Bind ?fd ?p # ?a"
  have "?fd \<notin> open_fds k h" "rv (k (Socket # ?b)) \<notin> open_fds k ?b"
    using fresh_fdD [OF assms(1), of Socket h] fresh_fdD [OF assms(1), of Socket ?b] by simp_all
  with assms(2) show ?thesis
    by (auto simp: bind_unfolds split: if_split_asm)
qed

text \<open>A kernel on which the path holds a socket that nobody serves: the first bind finds the address
  in use, connecting fails, and after the unlink the second bind succeeds. Descriptors are
  numbered by the length of the history.\<close>

definition stale_socket_kernel :: kernel where
  "stale_socket_kernel h =
     \<lparr>rv = (case h of Connect fd p # _ \<Rightarrow> -1
            | Bind fd p # h0 \<Rightarrow> (case h0 of Unlink q # _ \<Rightarrow> 0 | _ \<Rightarrow> -1)
            | _ \<Rightarrow> int (length h) + 2),
      errno = EADDRINUSE, bytes = []\<rparr>"

lemma stale_socket_fresh: "fresh_fds stale_socket_kernel"
proof -
  have bound: "fd \<in> open_fds stale_socket_kernel h \<Longrightarrow> fd \<le> int (length h) + 2" for fd h
    by (induction h) (auto simp: stale_socket_kernel_def split: sys_call.splits if_splits)
  have "opens c \<Longrightarrow> rv (stale_socket_kernel (c # h)) = int (length h) + 3" for c h
    by (cases c) (simp_all add: stale_socket_kernel_def)
  with bound show ?thesis by (fastforce simp: fresh_fds_def)
qed

theorem bind_descriptors_witness:
  "\<exists>h'. bind_to_unix_domain_socket stale_socket_kernel ''/s'' [] = (3, h') \<and>
        open_fds stale_socket_kernel h' = {3, 5}"
proof -
  have c: "bind_to_unix_domain_socket stale_socket_kernel ''/s'' [] =
      (3, [Chmod ''/s'' 511, Listen 3 10, Bind 3 ''/s'', Unlink ''/s'', Connect 5 ''/s'', Socket,
           Bind 3 ''/s'', Socket])" (is "_ = (3, ?h)")
    by (simp add: bind_unfolds stale_socket_kernel_def sun_path_def)
  from bind_descriptors [OF stale_socket_fresh c]
  have "open_fds stale_socket_kernel ?h = {3, 5}"
    by (auto simp: calls_since_def stale_socket_kernel_def)
  with c show ?thesis by blast
qed



text \<open>C32: on success the descriptor is bound to the path, listens with a backlog of 10 and the file
  mode is 0777.\<close>

theorem bind_success:
  assumes "bind_to_unix_domain_socket k path h = (fd, h')" and "fd \<noteq> -1"
  shows "\<exists>h0. h' = Chmod path 511 # Listen fd 10 # Bind fd (sun_path path) # h0 \<and>
    (\<forall>i < 3. rv (k (drop i h')) \<noteq> -1)"
  using assms by (auto simp: bind_unfolds less_Suc_eq numeral_3_eq_3 split: if_split_asm)

text \<open>A socket that nobody serves is at the path: the second bind succeeds.\<close>

theorem bind_success_witness:
  "fst (bind_to_unix_domain_socket stale_socket_kernel ''/s'' []) = 3 \<and>
    (\<exists>h0. snd (bind_to_unix_domain_socket stale_socket_kernel ''/s'' []) =
      Chmod ''/s'' 511 # Listen 3 10 # Bind 3 ''/s'' # h0 \<and>
    (\<forall>i < 3. rv (stale_socket_kernel (drop i (snd (bind_to_unix_domain_socket stale_socket_kernel ''/s'' [])))) \<noteq> -1))"
proof -
  have f: "fst (bind_to_unix_domain_socket stale_socket_kernel ''/s'' []) = 3"
    by (simp add: bind_unfolds stale_socket_kernel_def sun_path_def)
  have "sun_path ''/s'' = ''/s''" by (simp add: sun_path_def)
  then show ?thesis using bind_success [OF surjective_pairing, of stale_socket_kernel "''/s''" "[]"] f by simp
qed

end
