(* ===== verification/Uv_Core.thy ===== *)
theory Uv_Core
  imports Uv_Queue Watcher_Sys
begin

text \<open>
  The loop of libuv: its state, its handles and its file watchers, and the operations on them
  (uv-common.h, uv-common.c, unix/core.c, unix/loop.c, unix/loop-watcher.c, unix/poll.c,
  unix/signal.c, unix/async.c and the part of unix/linux.c that talks to epoll), for the handles
  the watcher uses and the two others that share their code: poll, idle, prepare, check, signal
  and async handles. The rings of queue.h are the lists of nodes they hold (theory Uv_Queue). A
  callback is a name; what a name does is an argument of the operations that call back, and the
  state of the program is an extension of the record of the loop.
\<close>

unbundle bit_operations_syntax

section \<open>Flags, events and errors\<close>

abbreviation (input) UV_HANDLE_CLOSING :: flags where "UV_HANDLE_CLOSING \<equiv> 0x1"
abbreviation (input) UV_HANDLE_CLOSED :: flags where "UV_HANDLE_CLOSED \<equiv> 0x2"
abbreviation (input) UV_HANDLE_ACTIVE :: flags where "UV_HANDLE_ACTIVE \<equiv> 0x4"
abbreviation (input) UV_HANDLE_REF :: flags where "UV_HANDLE_REF \<equiv> 0x8"
abbreviation (input) UV_HANDLE_INTERNAL :: flags where "UV_HANDLE_INTERNAL \<equiv> 0x10"
abbreviation (input) UV_SIGNAL_ONE_SHOT :: flags where "UV_SIGNAL_ONE_SHOT \<equiv> 0x2000000"

abbreviation (input) POLLIN :: flags where "POLLIN \<equiv> 0x1"
abbreviation (input) POLLPRI :: flags where "POLLPRI \<equiv> 0x2"
abbreviation (input) POLLOUT :: flags where "POLLOUT \<equiv> 0x4"
abbreviation (input) POLLERR :: flags where "POLLERR \<equiv> 0x8"
abbreviation (input) POLLHUP :: flags where "POLLHUP \<equiv> 0x10"
abbreviation (input) POLLRDHUP :: flags where "POLLRDHUP \<equiv> 0x2000"
abbreviation (input) POLL_ALL :: flags where "POLL_ALL \<equiv> 0x2007"

abbreviation (input) UV_READABLE :: flags where "UV_READABLE \<equiv> 1"
abbreviation (input) UV_WRITABLE :: flags where "UV_WRITABLE \<equiv> 2"
abbreviation (input) UV_DISCONNECT :: flags where "UV_DISCONNECT \<equiv> 4"
abbreviation (input) UV_PRIORITIZED :: flags where "UV_PRIORITIZED \<equiv> 8"

abbreviation (input) UV_EBADF :: int where "UV_EBADF \<equiv> -9"
abbreviation (input) UV_EBUSY :: int where "UV_EBUSY \<equiv> -16"
abbreviation (input) UV_EEXIST :: int where "UV_EEXIST \<equiv> -17"
abbreviation (input) UV_EINVAL :: int where "UV_EINVAL \<equiv> -22"

abbreviation (input) EINTR :: nat where "EINTR \<equiv> 4"
abbreviation (input) EAGAIN :: nat where "EAGAIN \<equiv> 11"
abbreviation (input) EEXIST :: nat where "EEXIST \<equiv> 17"
abbreviation (input) ENOTTY :: nat where "ENOTTY \<equiv> 25"

abbreviation (input) EPOLL_CTL_ADD :: nat where "EPOLL_CTL_ADD \<equiv> 1"
abbreviation (input) EPOLL_CTL_DEL :: nat where "EPOLL_CTL_DEL \<equiv> 2"
abbreviation (input) EPOLL_CTL_MOD :: nat where "EPOLL_CTL_MOD \<equiv> 3"

text \<open>A test of a bit mask.\<close>

definition has :: "flags \<Rightarrow> flags \<Rightarrow> bool" where
  "has f m \<longleftrightarrow> f AND m \<noteq> 0"

lemma has_or [simp]: "has (f OR g) m \<longleftrightarrow> has f m \<or> has g m"
  by (auto simp: has_def bit_eq_iff bit_simps)

lemma has_zero [simp]: "has f 0 = False" "has 0 m = False"
  by (simp_all add: has_def)

lemma has_and_not [simp]: "has (f AND NOT g) m \<longleftrightarrow> has f (m AND NOT g)"
  by (simp add: has_def and.assoc and.commute [of "NOT g" m])

lemma has_and_minus [simp]: "has (f AND - numeral a) m \<longleftrightarrow> has f (m AND - numeral a)"
  by (simp add: has_def and.assoc and.commute [of "- numeral a" m])

lemma has_numeral [simp]: "has (numeral a) (numeral b) \<longleftrightarrow> (numeral a :: flags) AND numeral b \<noteq> 0"
    "has 1 (numeral b) \<longleftrightarrow> (1 :: flags) AND numeral b \<noteq> 0"
    "has (numeral a) 1 \<longleftrightarrow> (numeral a :: flags) AND 1 \<noteq> 0" "has 1 1"
  by (simp_all add: has_def)

lemma has_bit: "has f (2 ^ k) \<longleftrightarrow> bit f k"
  by (simp add: has_def and_exp_eq_0_iff_not_bit)

lemma bit_single: "bit (2 ^ k :: flags) n \<longleftrightarrow> n = k \<and> k < 32"
  by (auto simp: bit_simps)

lemma or_absorb: "has f (2 ^ k) \<Longrightarrow> f OR 2 ^ k = f"
  unfolding has_bit by (rule bit_eqI) (auto simp: bit_simps bit_single)

lemma and_not_absorb: "\<not> has f (2 ^ k) \<Longrightarrow> f AND NOT (2 ^ k) = f"
  unfolding has_bit by (rule bit_eqI) (auto simp: bit_simps bit_single)

lemmas flag_absorbs = or_absorb [of _ 0, simplified] or_absorb [of _ 1, simplified]
  or_absorb [of _ 2, simplified] or_absorb [of _ 3, simplified] or_absorb [of _ 4, simplified]
  and_not_absorb [of _ 2, simplified] and_not_absorb [of _ 3, simplified]

text \<open>A failed assertion ends the program.\<close>

definition require :: "bool \<Rightarrow> 'a run \<Rightarrow> 'a run" where
  "require b m = (if b then m else Abort)"

lemma require_simps [simp]: "require True m = m" "require False m = Abort"
  by (simp_all add: require_def)

lemma require_Ret [run_simps]: "require b m = Ret x \<longleftrightarrow> b \<and> m = Ret x"
  by (simp add: require_def)

section \<open>The state\<close>

datatype uv_handle_type =
  UV_ASYNC | UV_CHECK | UV_IDLE | UV_POLL | UV_PREPARE | UV_SIGNAL | UV_TIMER

text \<open>The three kinds of handle the macro UV_LOOP_WATCHER_DEFINE defines.\<close>

datatype loop_watcher = Prepare | Check | Idle

fun watcher_type :: "loop_watcher \<Rightarrow> uv_handle_type" where
  "watcher_type Prepare = UV_PREPARE"
| "watcher_type Check = UV_CHECK"
| "watcher_type Idle = UV_IDLE"

text \<open>A uv__io_t is named by where it is stored: in a poll handle, or in the loop.\<close>

datatype wid = Io nat | Async_watcher | Signal_watcher

datatype io_cb = uv__poll_io | uv__async_io | uv__signal_event

record uv__io_t =
  w_cb :: io_cb
  w_fd :: int
  w_events :: flags
  w_pevents :: flags

record 'cb uv_handle =
  h_type :: uv_handle_type
  h_flags :: flags
  h_cb :: "'cb option"
  close_cb :: "'cb option"
  h_data :: "nat option"
  u_fd :: int
  signum :: int
  caught_signals :: flags
  dispatched_signals :: flags
  pending :: bool
  timeout :: "64 word"
  repeat :: "64 word"
  start_id :: "64 word"

text \<open>The fields of the loop. \<open>watchers\<close> holds the table without its two last slots: while
  events are dispatched those point to the events of the epoll_wait, which are
  \<open>in_flight\<close> here. A queue that a walk has moved to a local one is kept beside it
  (\<open>walk_queue\<close>, \<open>watcher_batch\<close>, \<open>async_batch\<close>, \<open>pending_batch\<close>), because QUEUE_REMOVE takes a
  node out of whichever ring it is in. \<open>signal_tree\<close> is the tree of the active signal handles in
  its order, \<open>signal_pipe\<close> the messages in the signal pipe. \<open>timers\<close> lists the timer heap in the
  order of timer_less_than.\<close>

record 'cb uv_loop =
  trace :: history
  mem :: amem
  handles :: "nat \<rightharpoonup> 'cb uv_handle"
  ios :: "wid \<rightharpoonup> uv__io_t"
  handle_queue :: "nat list"
  walk_queue :: "nat list"
  watcher_handles :: "loop_watcher \<Rightarrow> nat list"
  watcher_batch :: "loop_watcher \<Rightarrow> nat list"
  async_handles :: "nat list"
  async_batch :: "nat list"
  pending_queue :: "wid list"
  pending_batch :: "wid list"
  watcher_queue :: "wid list"
  closing_handles :: "nat list"
  watchers :: "wid option list"
  nfds :: nat
  active_handles :: flags
  active_reqs :: nat
  stop_flag :: bool
  backend_fd :: int
  signal_pipefd :: "int \<times> int"
  signal_tree :: "nat list"
  signal_pipe :: "(nat \<times> int) list"
  in_flight :: "(flags \<times> int) list"
  time :: "64 word"
  timer_counter :: "64 word"
  timers :: "nat list"

type_synonym ('cb, 'm) loop_op = "('cb, 'm) uv_loop_scheme \<Rightarrow> ('cb, 'm) uv_loop_scheme run"

text \<open>Dereferencing a handle or a watcher.\<close>

definition with_handle :: "nat \<Rightarrow> ('cb uv_handle \<Rightarrow> ('cb, 'm) uv_loop_scheme \<Rightarrow> 'a run) \<Rightarrow>
      ('cb, 'm) uv_loop_scheme \<Rightarrow> 'a run" where
  "with_handle h f s = (case handles s h of None \<Rightarrow> Undef | Some x \<Rightarrow> f x s)"

definition with_io :: "wid \<Rightarrow> (uv__io_t \<Rightarrow> ('cb, 'm) uv_loop_scheme \<Rightarrow> 'a run) \<Rightarrow>
      ('cb, 'm) uv_loop_scheme \<Rightarrow> 'a run" where
  "with_io w f s = (case ios s w of None \<Rightarrow> Undef | Some i \<Rightarrow> f i s)"

definition set_handle :: "nat \<Rightarrow> 'cb uv_handle \<Rightarrow> ('cb, 'm) uv_loop_scheme \<Rightarrow> ('cb, 'm) uv_loop_scheme" where
  "set_handle h x s = s\<lparr>handles := (handles s)(h \<mapsto> x)\<rparr>"

definition set_io :: "wid \<Rightarrow> uv__io_t \<Rightarrow> ('cb, 'm) uv_loop_scheme \<Rightarrow> ('cb, 'm) uv_loop_scheme" where
  "set_io w i s = s\<lparr>ios := (ios s)(w \<mapsto> i)\<rparr>"

text \<open>A system call made by the loop.\<close>

definition uv_sys :: "kernel \<Rightarrow> sys_call \<Rightarrow> ('cb, 'm) uv_loop_scheme \<Rightarrow> reply \<times> ('cb, 'm) uv_loop_scheme" where
  "uv_sys k c s = (let (r, h) = sys k c (trace s) in (r, s\<lparr>trace := h\<rparr>))"

text \<open>Memory for a handle that nothing has initialised yet. The program reads none of its fields
  before it stores to them.\<close>

definition raw_handle :: "'cb uv_handle" where
  "raw_handle = \<lparr>h_type = UV_POLL, h_flags = 0, h_cb = None, close_cb = None, h_data = None, u_fd = 0,
     signum = 0, caught_signals = 0, dispatched_signals = 0, pending = False, timeout = 0, repeat = 0,
     start_id = 0\<rparr>"

section \<open>Activity and references (uv-common.h)\<close>

definition uv__is_active :: "'cb uv_handle \<Rightarrow> bool" where
  "uv__is_active x \<longleftrightarrow> has (h_flags x) UV_HANDLE_ACTIVE"

definition uv__is_closing :: "'cb uv_handle \<Rightarrow> bool" where
  "uv__is_closing x \<longleftrightarrow> has (h_flags x) (UV_HANDLE_CLOSING OR UV_HANDLE_CLOSED)"

definition uv__has_ref :: "'cb uv_handle \<Rightarrow> bool" where
  "uv__has_ref x \<longleftrightarrow> has (h_flags x) UV_HANDLE_REF"

definition uv__active_handle_add :: "('cb, 'm) uv_loop_scheme \<Rightarrow> ('cb, 'm) uv_loop_scheme" where
  "uv__active_handle_add s = s\<lparr>active_handles := active_handles s + 1\<rparr>"

definition uv__active_handle_rm :: "('cb, 'm) uv_loop_scheme \<Rightarrow> ('cb, 'm) uv_loop_scheme" where
  "uv__active_handle_rm s = s\<lparr>active_handles := active_handles s - 1\<rparr>"

definition uv__handle_start :: "nat \<Rightarrow> ('cb, 'm) loop_op" where
  "uv__handle_start h = with_handle h (\<lambda>x s.
     if has (h_flags x) UV_HANDLE_ACTIVE then Ret s
     else let x1 = x\<lparr>h_flags := h_flags x OR UV_HANDLE_ACTIVE\<rparr>; s1 = set_handle h x1 s in
       Ret (if has (h_flags x1) UV_HANDLE_REF then uv__active_handle_add s1 else s1))"

definition uv__handle_stop :: "nat \<Rightarrow> ('cb, 'm) loop_op" where
  "uv__handle_stop h = with_handle h (\<lambda>x s.
     if \<not> has (h_flags x) UV_HANDLE_ACTIVE then Ret s
     else let x1 = x\<lparr>h_flags := h_flags x AND NOT UV_HANDLE_ACTIVE\<rparr>; s1 = set_handle h x1 s in
       Ret (if has (h_flags x1) UV_HANDLE_REF then uv__active_handle_rm s1 else s1))"

definition uv__handle_ref :: "nat \<Rightarrow> ('cb, 'm) loop_op" where
  "uv__handle_ref h = with_handle h (\<lambda>x s.
     if has (h_flags x) UV_HANDLE_REF then Ret s
     else let x1 = x\<lparr>h_flags := h_flags x OR UV_HANDLE_REF\<rparr>; s1 = set_handle h x1 s in
       if has (h_flags x1) UV_HANDLE_CLOSING then Ret s1
       else Ret (if has (h_flags x1) UV_HANDLE_ACTIVE then uv__active_handle_add s1 else s1))"

definition uv__handle_unref :: "nat \<Rightarrow> ('cb, 'm) loop_op" where
  "uv__handle_unref h = with_handle h (\<lambda>x s.
     if \<not> has (h_flags x) UV_HANDLE_REF then Ret s
     else let x1 = x\<lparr>h_flags := h_flags x AND NOT UV_HANDLE_REF\<rparr>; s1 = set_handle h x1 s in
       if has (h_flags x1) UV_HANDLE_CLOSING then Ret s1
       else Ret (if has (h_flags x1) UV_HANDLE_ACTIVE then uv__active_handle_rm s1 else s1))"

definition uv__handle_init :: "nat \<Rightarrow> uv_handle_type \<Rightarrow> ('cb, 'm) loop_op" where
  "uv__handle_init h t = with_handle h (\<lambda>x s.
     Ret (set_handle h (x\<lparr>h_type := t, h_flags := UV_HANDLE_REF\<rparr>)
       (s\<lparr>handle_queue := handle_queue s @ [h]\<rparr>)))"

definition uv__has_active_handles :: "('cb, 'm) uv_loop_scheme \<Rightarrow> bool" where
  "uv__has_active_handles s \<longleftrightarrow> active_handles s > 0"

definition uv__has_active_reqs :: "('cb, 'm) uv_loop_scheme \<Rightarrow> bool" where
  "uv__has_active_reqs s \<longleftrightarrow> active_reqs s > 0"

definition uv_ref :: "nat \<Rightarrow> ('cb, 'm) loop_op" where
  "uv_ref = uv__handle_ref"

definition uv_unref :: "nat \<Rightarrow> ('cb, 'm) loop_op" where
  "uv_unref = uv__handle_unref"

definition uv_stop :: "('cb, 'm) uv_loop_scheme \<Rightarrow> ('cb, 'm) uv_loop_scheme" where
  "uv_stop s = s\<lparr>stop_flag := True\<rparr>"

section \<open>File watchers (unix/core.c)\<close>

definition next_power_of_two :: "32 word \<Rightarrow> 32 word" where
  "next_power_of_two v0 =
     (let v1 = v0 - 1; v2 = v1 OR drop_bit 1 v1; v3 = v2 OR drop_bit 2 v2; v4 = v3 OR drop_bit 4 v3;
          v5 = v4 OR drop_bit 8 v4; v6 = v5 OR drop_bit 16 v5
      in v6 + 1)"

text \<open>The table grows in place: uv__reallocf frees the old block when there is one. A request of zero
  bytes returns null.\<close>

definition maybe_resize :: "32 word \<Rightarrow> ('cb, 'm) loop_op" where
  "maybe_resize len s =
     (if unat len \<le> length (watchers s) then Ret s
      else let nwatchers = next_power_of_two (len + 2) - 2;
               (ok, m) = alloc (if watchers s = [] then mem s else dealloc (mem s)) in
        if nwatchers + 2 = 0 \<or> \<not> ok then Abort
        else Ret (s\<lparr>mem := m,
          watchers := watchers s @ replicate (unat nwatchers - length (watchers s)) None\<rparr>))"

definition uv__io_init :: "wid \<Rightarrow> io_cb \<Rightarrow> int \<Rightarrow> ('cb, 'm) loop_op" where
  "uv__io_init w cb fd s = require (-1 \<le> fd)
     (Ret (set_io w \<lparr>w_cb = cb, w_fd = fd, w_events = 0, w_pevents = 0\<rparr> s))"

text \<open>A watcher that is not queued is alone in its ring.\<close>

definition enqueue_watcher :: "wid \<Rightarrow> ('cb, 'm) uv_loop_scheme \<Rightarrow> ('cb, 'm) uv_loop_scheme" where
  "enqueue_watcher w s =
     (if w \<in> set (watcher_queue s) then s else s\<lparr>watcher_queue := watcher_queue s @ [w]\<rparr>)"

definition uv__io_start :: "wid \<Rightarrow> flags \<Rightarrow> ('cb, 'm) loop_op" where
  "uv__io_start w events = with_io w (\<lambda>i s.
     require (events AND NOT POLL_ALL = 0 \<and> events \<noteq> 0 \<and> 0 \<le> w_fd i \<and> w_fd i < 2 ^ 31 - 1)
      (let i1 = i\<lparr>w_pevents := w_pevents i OR events\<rparr> in
       bnd (maybe_resize (word_of_int (w_fd i) + 1) (set_io w i1 s)) (\<lambda>s1.
       if w_events i1 = w_pevents i1 then Ret s1
       else let s2 = enqueue_watcher w s1; fd = nat (w_fd i) in
         bnd (rd (watchers s2) fd) (\<lambda>slot.
         if slot = None then
           Ret (s2\<lparr>watchers := (watchers s2)[fd := Some w], nfds := nfds s2 + 1\<rparr>)
         else Ret s2))))"

definition uv__io_stop :: "wid \<Rightarrow> flags \<Rightarrow> ('cb, 'm) loop_op" where
  "uv__io_stop w events = with_io w (\<lambda>i s.
     require (events AND NOT POLL_ALL = 0 \<and> events \<noteq> 0)
      (if w_fd i = -1 then Ret s
       else require (0 \<le> w_fd i)
        (if length (watchers s) \<le> nat (w_fd i) then Ret s
         else let i1 = i\<lparr>w_pevents := w_pevents i AND NOT events\<rparr>; fd = nat (w_fd i) in
           if w_pevents i1 = 0 then
             let s1 = set_io w (i1\<lparr>w_events := 0\<rparr>) (s\<lparr>watcher_queue := removeAll w (watcher_queue s)\<rparr>) in
             if watchers s1 ! fd = Some w then
               require (0 < nfds s1) (Ret (s1\<lparr>watchers := (watchers s1)[fd := None], nfds := nfds s1 - 1\<rparr>))
             else Ret s1
           else Ret (enqueue_watcher w (set_io w i1 s)))))"

definition uv__io_feed :: "wid \<Rightarrow> ('cb, 'm) uv_loop_scheme \<Rightarrow> ('cb, 'm) uv_loop_scheme" where
  "uv__io_feed w s =
     (if w \<in> set (pending_queue s) \<or> w \<in> set (pending_batch s) then s
      else s\<lparr>pending_queue := pending_queue s @ [w]\<rparr>)"

definition uv__io_active :: "uv__io_t \<Rightarrow> flags \<Rightarrow> bool run" where
  "uv__io_active i events =
     require (events AND NOT POLL_ALL = 0 \<and> events \<noteq> 0) (Ret (0 \<noteq> w_pevents i AND events))"

text \<open>A negative descriptor is compared as an unsigned one.\<close>

definition uv__fd_exists :: "int \<Rightarrow> ('cb, 'm) uv_loop_scheme \<Rightarrow> bool" where
  "uv__fd_exists fd s \<longleftrightarrow> unat (word_of_int fd :: 32 word) < length (watchers s) \<and>
     watchers s ! unat (word_of_int fd :: 32 word) \<noteq> None"

section \<open>The kernel's list of descriptors (unix/linux.c)\<close>

definition uv__platform_invalidate_fd :: "kernel \<Rightarrow> int \<Rightarrow> ('cb, 'm) loop_op" where
  "uv__platform_invalidate_fd k fd s = require (watchers s \<noteq> [] \<and> 0 \<le> fd)
     (let s1 = s\<lparr>in_flight := List.map (\<lambda>(e, f). (e, if f = fd then -1 else f)) (in_flight s)\<rparr> in
      Ret (if 0 \<le> backend_fd s1 then snd (uv_sys k (Epoll_ctl EPOLL_CTL_DEL fd 0) s1) else s1))"

definition uv__io_check_fd :: "kernel \<Rightarrow> int \<Rightarrow> ('cb, 'm) uv_loop_scheme \<Rightarrow> (int \<times> ('cb, 'm) uv_loop_scheme) run" where
  "uv__io_check_fd k fd s =
     (let (r, s1) = uv_sys k (Epoll_ctl EPOLL_CTL_ADD fd (unat POLLIN)) s in
      if rv r \<noteq> 0 \<and> errno r \<noteq> EEXIST then Ret (- int (errno r), s1)
      else let (r2, s2) = uv_sys k (Epoll_ctl EPOLL_CTL_DEL fd (unat POLLIN)) s1 in
        if rv r2 \<noteq> 0 then Abort else Ret (0, s2))"

text \<open>A call that is repeated as long as a signal interrupts it; one unit of fuel per attempt.\<close>

fun retry :: "nat \<Rightarrow> kernel \<Rightarrow> sys_call \<Rightarrow> ('cb, 'm) uv_loop_scheme \<Rightarrow> (reply \<times> ('cb, 'm) uv_loop_scheme) run" where
  "retry 0 k c s = NoFuel"
| "retry (Suc fuel) k c s =
     (let (r, s1) = uv_sys k c s in
      if rv r = -1 \<and> errno r = EINTR then retry fuel k c s1 else Ret (r, s1))"

definition RETRIES :: nat where
  "RETRIES = 1000"

definition uv__nonblock_ioctl :: "kernel \<Rightarrow> int \<Rightarrow> ('cb, 'm) uv_loop_scheme \<Rightarrow> (int \<times> ('cb, 'm) uv_loop_scheme) run" where
  "uv__nonblock_ioctl k fd s = bnd (retry RETRIES k (Ioctl_nonblock fd) s) (\<lambda>(r, s1).
     Ret (if rv r \<noteq> 0 then - int (errno r) else 0, s1))"

definition O_NONBLOCK :: int where "O_NONBLOCK = 0x800"

definition uv__nonblock_fcntl :: "kernel \<Rightarrow> int \<Rightarrow> ('cb, 'm) uv_loop_scheme \<Rightarrow> (int \<times> ('cb, 'm) uv_loop_scheme) run" where
  "uv__nonblock_fcntl k fd s = bnd (retry RETRIES k (Fcntl_getfl fd) s) (\<lambda>(r, s1).
     if rv r = -1 then Ret (- int (errno r), s1)
     else if rv r AND O_NONBLOCK \<noteq> 0 then Ret (0, s1)
     else bnd (retry RETRIES k (Fcntl_setfl fd (rv r OR O_NONBLOCK)) s1) (\<lambda>(r2, s2).
       Ret (if rv r2 \<noteq> 0 then - int (errno r2) else 0, s2)))"

section \<open>Poll handles (unix/poll.c)\<close>

definition uv_poll_init :: "kernel \<Rightarrow> nat \<Rightarrow> int \<Rightarrow> ('cb, 'm) uv_loop_scheme \<Rightarrow> (int \<times> ('cb, 'm) uv_loop_scheme) run" where
  "uv_poll_init k h fd s =
     (if uv__fd_exists fd s then Ret (UV_EEXIST, s)
      else bnd (uv__io_check_fd k fd s) (\<lambda>(err, s1).
        if err \<noteq> 0 then Ret (err, s1)
        else bnd (uv__nonblock_ioctl k fd s1) (\<lambda>(err, s2).
          bnd (if err = - int ENOTTY then uv__nonblock_fcntl k fd s2 else Ret (err, s2)) (\<lambda>(err, s3).
          if err \<noteq> 0 then Ret (err, s3)
          else bnd (uv__handle_init h UV_POLL s3) (\<lambda>s4.
            bnd (uv__io_init (Io h) uv__poll_io fd s4) (\<lambda>s5.
            with_handle h (\<lambda>x s. Ret (0, set_handle h (x\<lparr>h_cb := None\<rparr>) s)) s5))))))"

definition uv__poll_stop :: "kernel \<Rightarrow> nat \<Rightarrow> ('cb, 'm) loop_op" where
  "uv__poll_stop k h s =
     bnd (uv__io_stop (Io h) POLL_ALL s) (\<lambda>s1.
     bnd (uv__handle_stop h s1) (\<lambda>s2.
     with_io (Io h) (\<lambda>i. uv__platform_invalidate_fd k (w_fd i)) s2))"

definition uv_poll_stop :: "kernel \<Rightarrow> nat \<Rightarrow> ('cb, 'm) loop_op" where
  "uv_poll_stop k h = with_handle h (\<lambda>x s. require (\<not> uv__is_closing x) (uv__poll_stop k h s))"

definition poll_events :: "flags \<Rightarrow> flags" where
  "poll_events pevents =
     (if has pevents UV_READABLE then POLLIN else 0) OR (if has pevents UV_PRIORITIZED then POLLPRI else 0) OR
     (if has pevents UV_WRITABLE then POLLOUT else 0) OR (if has pevents UV_DISCONNECT then POLLRDHUP else 0)"

definition uv_poll_start :: "kernel \<Rightarrow> nat \<Rightarrow> flags \<Rightarrow> 'cb option \<Rightarrow> ('cb, 'm) uv_loop_scheme \<Rightarrow> (int \<times> ('cb, 'm) uv_loop_scheme) run" where
  "uv_poll_start k h pevents poll_cb = with_handle h (\<lambda>x s.
     require (pevents AND NOT 0xF = 0 \<and> \<not> uv__is_closing x) (with_io (Io h) (\<lambda>i s.
       if uv__fd_exists (w_fd i) s \<and> watchers s ! nat (w_fd i) \<noteq> Some (Io h) then Ret (UV_EEXIST, s)
       else bnd (uv__poll_stop k h s) (\<lambda>s1.
         if pevents = 0 then Ret (0, s1)
         else bnd (uv__io_start (Io h) (poll_events pevents) s1) (\<lambda>s2.
           bnd (uv__handle_start h s2) (\<lambda>s3.
           with_handle h (\<lambda>x s. Ret (0, set_handle h (x\<lparr>h_cb := poll_cb\<rparr>) s)) s3)))) s))"

section \<open>Idle, prepare and check handles (unix/loop-watcher.c)\<close>

definition uv_watcher_init :: "loop_watcher \<Rightarrow> nat \<Rightarrow> ('cb, 'm) loop_op" where
  "uv_watcher_init n h s = bnd (uv__handle_init h (watcher_type n) s)
     (with_handle h (\<lambda>x s. Ret (set_handle h (x\<lparr>h_cb := None\<rparr>) s)))"

definition uv_watcher_start :: "loop_watcher \<Rightarrow> nat \<Rightarrow> 'cb option \<Rightarrow> ('cb, 'm) uv_loop_scheme \<Rightarrow> (int \<times> ('cb, 'm) uv_loop_scheme) run" where
  "uv_watcher_start n h cb = with_handle h (\<lambda>x s.
     if uv__is_active x then Ret (0, s)
     else if cb = None then Ret (UV_EINVAL, s)
     else let s1 = set_handle h (x\<lparr>h_cb := cb\<rparr>)
                (s\<lparr>watcher_handles := (watcher_handles s)(n := h # watcher_handles s n)\<rparr>) in
       bnd (uv__handle_start h s1) (\<lambda>s2. Ret (0, s2)))"

definition uv_watcher_stop :: "loop_watcher \<Rightarrow> nat \<Rightarrow> ('cb, 'm) loop_op" where
  "uv_watcher_stop n h = with_handle h (\<lambda>x s.
     if \<not> uv__is_active x then Ret s
     else uv__handle_stop h
       (s\<lparr>watcher_handles := (watcher_handles s)(n := removeAll h (watcher_handles s n)),
          watcher_batch := (watcher_batch s)(n := removeAll h (watcher_batch s n))\<rparr>))"

end
