(* ===== verification/Uv_Table.thy ===== *)
theory Uv_Table
  imports Uv_Core
begin

text \<open>
  The size of the loop's table of watchers: next_power_of_two of unix/core.c rounds up, on the words
  it is written for.
\<close>

section \<open>The size of the table of watchers\<close>

text \<open>Smearing: after the shifts by 1, 2, 4, 8 and 16 a bit is set when one at most 31 places above
  it was.\<close>

definition window :: "nat \<Rightarrow> 32 word \<Rightarrow> 32 word \<Rightarrow> bool" where
  "window m x y \<longleftrightarrow> (\<forall>i. bit y i \<longleftrightarrow> (\<exists>d<m. bit x (i + d)))"

lemma window_1: "window 1 x x"
  by (simp add: window_def)

lemma window_double: "window m x y \<Longrightarrow> window (m + m) x (y OR drop_bit m y)"
proof -
  assume w: "window m x y"
  have "(\<exists>d<m. bit x (i + d)) \<or> (\<exists>d<m. bit x (m + i + d)) \<longleftrightarrow> (\<exists>d<m + m. bit x (i + d))" for i
  proof
    assume "\<exists>d<m + m. bit x (i + d)"
    then obtain d where d: "d < m + m" "bit x (i + d)" by blast
    show "(\<exists>d<m. bit x (i + d)) \<or> (\<exists>d<m. bit x (m + i + d))"
    proof (cases "d < m")
      case False
      then have "m + i + (d - m) = i + d" "d - m < m" using d(1) by simp_all
      then show ?thesis using d(2) by metis
    qed (use d in blast)
  next
    assume "(\<exists>d<m. bit x (i + d)) \<or> (\<exists>d<m. bit x (m + i + d))"
    then show "\<exists>d<m + m. bit x (i + d)"
    proof
      assume "\<exists>d<m. bit x (m + i + d)"
      then obtain d where "d < m" "bit x (m + i + d)" by blast
      then show ?thesis by (intro exI [of _ "m + d"]) (simp add: add.commute add.left_commute)
    qed (auto intro: trans_less_add1)
  qed
  then show ?thesis using w by (simp add: window_def bit_simps)
qed

lemma top_bit: "x \<noteq> 0 \<Longrightarrow> \<exists>n<32. bit (x :: 32 word) n \<and> (\<forall>i. n < i \<longrightarrow> \<not> bit x i)"
proof -
  assume "x \<noteq> 0"
  then obtain i where i: "bit x i" by (auto simp: bit_eq_iff)
  define B where "B = {i. bit x i}"
  have fin: "finite B" by (rule finite_subset [of _ "{..<32}"]) (auto simp: B_def dest: bit_imp_le_length)
  obtain n where n: "n = Max B" by simp
  have "n \<in> B" unfolding n using fin i by (intro Max_in) (auto simp: B_def)
  moreover have "\<forall>j. n < j \<longrightarrow> j \<notin> B" unfolding n using Max_ge [OF fin] leD by blast
  ultimately have "bit x n" "\<forall>j. n < j \<longrightarrow> \<not> bit x j" unfolding B_def by simp_all
  moreover have "n < 32" using bit_imp_le_length [OF \<open>bit x n\<close>] by simp
  ultimately show ?thesis by blast
qed

lemma window_mask:
  assumes "window 32 x y" and "n < 32" "bit x n" "\<forall>i. n < i \<longrightarrow> \<not> bit x i"
  shows "y = mask (Suc n)"
proof (rule bit_eqI)
  fix i
  have "bit y i \<longleftrightarrow> i \<le> n"
  proof
    assume "bit y i"
    then obtain d where "bit x (i + d)" using assms(1) by (auto simp: window_def)
    then have "\<not> n < i + d" using assms(4) by blast
    then show "i \<le> n" by simp
  next
    assume "i \<le> n"
    then have "n - i < 32" "bit x (i + (n - i))" using assms(2,3) by auto
    then show "bit y i" using assms(1) unfolding window_def by blast
  qed
  then show "bit y i \<longleftrightarrow> bit (mask (Suc n) :: 32 word) i" using assms(2) by (simp add: bit_simps) linarith
qed

lemma smear_window: "window 32 v (let v2 = v OR drop_bit 1 v; v3 = v2 OR drop_bit 2 v2;
    v4 = v3 OR drop_bit 4 v3; v5 = v4 OR drop_bit 8 v4 in v5 OR drop_bit 16 v5)"
proof -
  define v2 where "v2 = v OR drop_bit 1 v"
  define v3 where "v3 = v2 OR drop_bit 2 v2"
  define v4 where "v4 = v3 OR drop_bit 4 v3"
  define v5 where "v5 = v4 OR drop_bit 8 v4"
  have "window 2 v v2" using window_double [OF window_1, of v] unfolding v2_def one_add_one .
  from window_double [OF this] have "window 4 v v3" by (simp add: v3_def)
  from window_double [OF this] have "window 8 v v4" by (simp add: v4_def)
  from window_double [OF this] have "window 16 v v5" by (simp add: v5_def)
  from window_double [OF this] show ?thesis by (simp add: Let_def v2_def v3_def v4_def v5_def)
qed

lemma high_bits_zero_bound:
  "(\<forall>i. n < i \<longrightarrow> \<not> bit (x :: 32 word) i) \<Longrightarrow> unat x < 2 ^ Suc n"
proof -
  assume "\<forall>i. n < i \<longrightarrow> \<not> bit x i"
  then have "take_bit (Suc n) x = x" by (intro bit_eqI) (auto simp: bit_simps, metis not_less_eq)
  then have "take_bit (Suc n) (unat x) = unat x" by (metis unsigned_take_bit_eq)
  then show ?thesis by (metis take_bit_nat_less_exp)
qed

lemma bit_bound: "bit (x :: 32 word) n \<Longrightarrow> 2 ^ n \<le> unat x"
proof (rule ccontr)
  assume b: "bit x n" and "\<not> 2 ^ n \<le> unat x"
  then have "take_bit n (unat x) = unat x" by (simp add: take_bit_nat_eq_self)
  then have "\<not> bit (unat x) n" by (metis bit_take_bit_iff less_irrefl)
  then show False using b by (simp add: bit_unsigned_iff)
qed

text \<open>C38: on 32-bit words next_power_of_two rounds up: for every value from 2 to 2 to the 31 the
  result is the one power of two that is at least the value and less than twice it.\<close>

theorem next_power_of_two_rounds_up:
  assumes "2 \<le> unat v" and "unat v \<le> 2 ^ 31"
  shows "\<exists>k. unat (next_power_of_two v) = 2 ^ k \<and> unat v \<le> 2 ^ k \<and> 2 ^ k < 2 * unat v"
proof -
  let ?x = "v - 1"
  have v0: "v \<noteq> 0" using assms(1) by auto
  then have ux: "unat ?x = unat v - 1" by (simp add: unat_minus_one)
  then have "unat ?x \<noteq> 0" using assms(1) by simp
  then have "?x \<noteq> 0" by auto
  from top_bit [OF this] obtain n where n: "n < 32" "bit ?x n" "\<forall>i. n < i \<longrightarrow> \<not> bit ?x i" by blast
  have lo: "2 ^ n \<le> unat ?x" and hi: "unat ?x < 2 ^ Suc n"
    using bit_bound [OF n(2)] high_bits_zero_bound [OF n(3)] by auto
  have n31: "n < 31"
  proof (rule ccontr)
    assume "\<not> n < 31"
    then have "(2 :: nat) ^ 31 \<le> 2 ^ n" by (intro power_increasing) simp_all
    with lo ux assms show False by simp
  qed
  have "next_power_of_two v = mask (Suc n) + 1"
    using window_mask [OF smear_window n] by (simp add: next_power_of_two_def Let_def)
  also have "\<dots> = 2 ^ Suc n" by (simp add: mask_eq_exp_minus_1)
  also have "\<dots> = of_nat (2 ^ Suc n)" by simp
  finally have "unat (next_power_of_two v) = take_bit 32 (2 ^ Suc n)"
    by (simp only: unsigned_of_nat) simp
  moreover have "(2 :: nat) ^ Suc n < 2 ^ 32" using n31 by (intro power_strict_increasing) simp_all
  ultimately have "unat (next_power_of_two v) = 2 ^ Suc n" by (simp only: take_bit_nat_eq_self)
  then show ?thesis using lo hi ux assms(1) by (intro exI [of _ "Suc n"]) (simp, linarith)
qed

theorem next_power_of_two_rounds_up_witness:
  "\<exists>k. unat (next_power_of_two 9) = 2 ^ k \<and> 9 \<le> (2 :: nat) ^ k \<and> (2 :: nat) ^ k < 18"
  using next_power_of_two_rounds_up [of 9] by simp

end
