(* ===== verification/Uv_Heap.thy ===== *)
theory Uv_Heap
  imports Prelude "HOL-Library.Tree" "HOL-Library.Multiset"
begin

text \<open>
  The binary heap of heap-inl.h, which holds the timers of a loop: nodes with three pointers, swapped
  in place. The functions are modelled on the pointers. The lemmas show that each is the operation
  on a binary tree a reader expects, and that the tree stays complete and ordered.
\<close>

section \<open>The code\<close>

record heap_node =
  hn_left :: "nat option"
  hn_right :: "nat option"
  hn_parent :: "nat option"

record uv_heap =
  hnodes :: "nat \<rightharpoonup> heap_node"
  hmin :: "nat option"
  nelts :: "32 word"

type_synonym less_fn = "nat \<Rightarrow> nat \<Rightarrow> bool"

definition node_at :: "nat option \<Rightarrow> uv_heap \<Rightarrow> heap_node run" where
  "node_at p H = (case p of None \<Rightarrow> Undef | Some a \<Rightarrow> (case hnodes H a of None \<Rightarrow> Undef | Some n \<Rightarrow> Ret n))"

definition put_node :: "nat \<Rightarrow> heap_node \<Rightarrow> uv_heap \<Rightarrow> uv_heap" where
  "put_node a n H = H\<lparr>hnodes := (hnodes H)(a \<mapsto> n)\<rparr>"

definition upd_node :: "nat \<Rightarrow> (heap_node \<Rightarrow> heap_node) \<Rightarrow> uv_heap \<Rightarrow> uv_heap run" where
  "upd_node a f H = bnd (node_at (Some a) H) (\<lambda>n. Ret (put_node a (f n) H))"

definition heap_init :: "uv_heap \<Rightarrow> uv_heap" where
  "heap_init H = H\<lparr>hmin := None, nelts := 0\<rparr>"

definition heap_min :: "uv_heap \<Rightarrow> nat option" where
  "heap_min H = hmin H"

text \<open>An optional assignment: the pointer is tested for null first.\<close>

definition set_parent :: "nat option \<Rightarrow> nat option \<Rightarrow> uv_heap \<Rightarrow> uv_heap run" where
  "set_parent p q H = (case p of None \<Rightarrow> Ret H | Some a \<Rightarrow> upd_node a (\<lambda>n. n\<lparr>hn_parent := q\<rparr>) H)"

text \<open>The pointer to \<open>old\<close> in its parent, or the root, is redirected.\<close>

definition relink :: "nat option \<Rightarrow> nat \<Rightarrow> nat \<Rightarrow> uv_heap \<Rightarrow> uv_heap run" where
  "relink par old new H = (case par of
      None \<Rightarrow> Ret (H\<lparr>hmin := Some new\<rparr>)
    | Some g \<Rightarrow> upd_node g (\<lambda>n. if hn_left n = Some old then n\<lparr>hn_left := Some new\<rparr> else n\<lparr>hn_right := Some new\<rparr>) H)"

text \<open>Swap parent with child. Child moves closer to the root, parent moves away.\<close>

definition heap_node_swap :: "nat \<Rightarrow> nat \<Rightarrow> uv_heap \<Rightarrow> uv_heap run" where
  "heap_node_swap parent child H =
     bnd (node_at (Some parent) H) (\<lambda>t.
     bnd (node_at (Some child) H) (\<lambda>c.
     let pn = c\<lparr>hn_parent := Some child\<rparr>;
         down = hn_left t = Some child;
         cn = (if down then t\<lparr>hn_left := Some parent\<rparr> else t\<lparr>hn_right := Some parent\<rparr>);
         sibling = (if down then hn_right t else hn_left t);
         H1 = put_node child cn (put_node parent pn H) in
     bnd (set_parent sibling (Some child) H1) (\<lambda>H2.
     bnd (set_parent (hn_left pn) (Some parent) H2) (\<lambda>H3.
     bnd (set_parent (hn_right pn) (Some parent) H3) (\<lambda>H4.
     bnd (node_at (Some child) H4) (\<lambda>c4.
     relink (hn_parent c4) parent child H4))))))"

text \<open>The path from the root to the place of the \<open>n\<close>-th node, its first step in the lowest bit, and its
  length.\<close>

fun heap_path :: "nat \<Rightarrow> nat \<Rightarrow> nat \<Rightarrow> nat \<times> nat" where
  "heap_path path k n = (if 2 \<le> n then heap_path (2 * path + n mod 2) (Suc k) (n div 2) else (path, k))"

declare heap_path.simps [simp del]

text \<open>A pointer to a pointer to a node.\<close>

datatype slot = Root | Left_of nat | Right_of nat

definition deref :: "slot \<Rightarrow> uv_heap \<Rightarrow> nat option run" where
  "deref sl H = (case sl of Root \<Rightarrow> Ret (hmin H)
    | Left_of a \<Rightarrow> bnd (node_at (Some a) H) (\<lambda>n. Ret (hn_left n))
    | Right_of a \<Rightarrow> bnd (node_at (Some a) H) (\<lambda>n. Ret (hn_right n)))"

definition assign :: "slot \<Rightarrow> nat option \<Rightarrow> uv_heap \<Rightarrow> uv_heap run" where
  "assign sl p H = (case sl of Root \<Rightarrow> Ret (H\<lparr>hmin := p\<rparr>)
    | Left_of a \<Rightarrow> upd_node a (\<lambda>n. n\<lparr>hn_left := p\<rparr>) H
    | Right_of a \<Rightarrow> upd_node a (\<lambda>n. n\<lparr>hn_right := p\<rparr>) H)"

fun follow :: "nat \<Rightarrow> nat \<Rightarrow> slot \<Rightarrow> slot \<Rightarrow> uv_heap \<Rightarrow> (slot \<times> slot) run" where
  "follow path 0 par sl H = Ret (par, sl)"
| "follow path (Suc k) par sl H = bnd (deref sl H) (\<lambda>p. case p of None \<Rightarrow> Undef
    | Some a \<Rightarrow> follow (path div 2) k sl (if odd path then Right_of a else Left_of a) H)"

text \<open>The loops up and down the tree, with a bound on the number of rounds.\<close>

fun sift_up :: "less_fn \<Rightarrow> nat \<Rightarrow> nat \<Rightarrow> uv_heap \<Rightarrow> uv_heap run" where
  "sift_up lt a 0 H = NoFuel"
| "sift_up lt a (Suc fuel) H = bnd (node_at (Some a) H) (\<lambda>n. case hn_parent n of
      None \<Rightarrow> Ret H
    | Some p \<Rightarrow> if lt a p then bnd (heap_node_swap p a H) (sift_up lt a fuel) else Ret H)"

definition smaller :: "less_fn \<Rightarrow> nat option \<Rightarrow> nat \<Rightarrow> nat" where
  "smaller lt p smallest = (case p of None \<Rightarrow> smallest
    | Some a \<Rightarrow> if lt a smallest then a else smallest)"

fun sift_down :: "less_fn \<Rightarrow> nat \<Rightarrow> nat \<Rightarrow> uv_heap \<Rightarrow> uv_heap run" where
  "sift_down lt a 0 H = NoFuel"
| "sift_down lt a (Suc fuel) H = bnd (node_at (Some a) H) (\<lambda>n.
     let smallest = smaller lt (hn_right n) (smaller lt (hn_left n) a) in
     if smallest = a then Ret H
     else bnd (heap_node_swap a smallest H) (sift_down lt a fuel))"

definition heap_insert :: "less_fn \<Rightarrow> nat \<Rightarrow> uv_heap \<Rightarrow> uv_heap run" where
  "heap_insert lt newnode H =
     (let H1 = put_node newnode \<lparr>hn_left = None, hn_right = None, hn_parent = None\<rparr> H;
          (path, k) = heap_path 0 0 (unat (1 + nelts H)) in
      bnd (follow path k Root Root H1) (\<lambda>(parent, child).
      bnd (deref parent H1) (\<lambda>p.
      bnd (upd_node newnode (\<lambda>n. n\<lparr>hn_parent := p\<rparr>) H1) (\<lambda>H2.
      bnd (assign child (Some newnode) H2) (\<lambda>H3.
      sift_up lt newnode (Suc (unat (nelts H3 + 1))) (H3\<lparr>nelts := nelts H3 + 1\<rparr>))))))"

text \<open>The node \<open>child\<close> takes the place of \<open>node\<close>.\<close>

definition heap_replace :: "nat \<Rightarrow> nat \<Rightarrow> uv_heap \<Rightarrow> uv_heap run" where
  "heap_replace node child H =
     bnd (node_at (Some node) H) (\<lambda>n.
     bnd (upd_node child (\<lambda>_. \<lparr>hn_left = hn_left n, hn_right = hn_right n, hn_parent = hn_parent n\<rparr>) H) (\<lambda>H3.
     bnd (set_parent (hn_left n) (Some child) H3) (\<lambda>H4.
     bnd (set_parent (hn_right n) (Some child) H4) (\<lambda>H5.
     bnd (node_at (Some node) H5) (\<lambda>n5. relink (hn_parent n5) node child H5)))))"

definition heap_remove :: "less_fn \<Rightarrow> nat option \<Rightarrow> uv_heap \<Rightarrow> uv_heap run" where
  "heap_remove lt ptr H =
     (if nelts H = 0 then Ret H
      else let (path, k) = heap_path 0 0 (unat (nelts H)) in
      bnd (follow path k Root Root H) (\<lambda>(_, max).
      let H1 = H\<lparr>nelts := nelts H - 1\<rparr> in
      bnd (deref max H1) (\<lambda>p.
      bnd (assign max None H1) (\<lambda>H2.
      if p = ptr then Ret (if p = hmin H2 then H2\<lparr>hmin := None\<rparr> else H2)
      else case (p, ptr) of
          (Some child, Some node) \<Rightarrow> bnd (heap_replace node child H2) (\<lambda>H6.
            bnd (sift_down lt child (unat (nelts H)) H6) (sift_up lt child (unat (nelts H))))
        | _ \<Rightarrow> Undef))))"

definition heap_dequeue :: "less_fn \<Rightarrow> uv_heap \<Rightarrow> uv_heap run" where
  "heap_dequeue lt H = heap_remove lt (hmin H) H"

section \<open>The tree in the pointers\<close>

fun root_of :: "nat tree \<Rightarrow> nat option" where
  "root_of \<langle>\<rangle> = None"
| "root_of \<langle>l, a, r\<rangle> = Some a"

fun linked :: "(nat \<rightharpoonup> heap_node) \<Rightarrow> nat option \<Rightarrow> nat tree \<Rightarrow> bool" where
  "linked hs par \<langle>\<rangle> \<longleftrightarrow> True"
| "linked hs par \<langle>l, a, r\<rangle> \<longleftrightarrow> hs a = Some \<lparr>hn_left = root_of l, hn_right = root_of r, hn_parent = par\<rparr> \<and>
     linked hs (Some a) l \<and> linked hs (Some a) r"

text \<open>A place in a tree: the nodes above it, the nearest first, each with the side the place is on and the
  subtree on the other side.\<close>

type_synonym crumbs = "(bool \<times> nat \<times> nat tree) list"

definition branch :: "bool \<Rightarrow> nat \<Rightarrow> nat tree \<Rightarrow> nat tree \<Rightarrow> nat tree" where
  "branch d a u t = (if d then \<langle>u, a, t\<rangle> else \<langle>t, a, u\<rangle>)"

fun plug :: "crumbs \<Rightarrow> nat tree \<Rightarrow> nat tree" where
  "plug [] t = t"
| "plug ((d, a, u) # ctx) t = plug ctx (branch d a u t)"

fun ctx_top :: "crumbs \<Rightarrow> nat option" where
  "ctx_top [] = None"
| "ctx_top ((d, a, u) # ctx) = Some a"

fun ctx_list :: "crumbs \<Rightarrow> nat list" where
  "ctx_list [] = []"
| "ctx_list ((d, a, u) # ctx) = a # inorder u @ ctx_list ctx"

fun ctx_root :: "crumbs \<Rightarrow> nat option \<Rightarrow> nat option" where
  "ctx_root [] p = p"
| "ctx_root ((d, a, u) # ctx) p = ctx_root ctx (Some a)"

fun linked_ctx :: "(nat \<rightharpoonup> heap_node) \<Rightarrow> nat option \<Rightarrow> crumbs \<Rightarrow> bool" where
  "linked_ctx hs p [] \<longleftrightarrow> True"
| "linked_ctx hs p ((d, a, u) # ctx) \<longleftrightarrow>
     hs a = Some (if d then \<lparr>hn_left = root_of u, hn_right = p, hn_parent = ctx_top ctx\<rparr>
       else \<lparr>hn_left = p, hn_right = root_of u, hn_parent = ctx_top ctx\<rparr>) \<and>
     linked hs (Some a) u \<and> linked_ctx hs (Some a) ctx"

text \<open>The heap holds the tree that has \<open>t\<close> at the place \<open>ctx\<close>.\<close>

definition zipped :: "uv_heap \<Rightarrow> crumbs \<Rightarrow> nat tree \<Rightarrow> bool" where
  "zipped H ctx t \<longleftrightarrow> linked (hnodes H) (ctx_top ctx) t \<and> linked_ctx (hnodes H) (root_of t) ctx \<and>
     hmin H = ctx_root ctx (root_of t) \<and> distinct (inorder t @ ctx_list ctx)"

lemma mset_plug: "mset (inorder (plug ctx t)) = mset (inorder t @ ctx_list ctx)"
  by (induction ctx t rule: plug.induct) (auto simp: branch_def)

lemma set_plug: "set_tree (plug ctx t) = set_tree t \<union> set (ctx_list ctx)"
  using arg_cong [OF mset_plug, of set_mset ctx t] by simp

lemma zipped_plug: "zipped H ctx t \<longleftrightarrow> zipped H [] (plug ctx t)"
proof (induction ctx t rule: plug.induct)
  case (2 d a u ctx t)
  have "zipped H ((d, a, u) # ctx) t \<longleftrightarrow> zipped H ctx (branch d a u t)"
    by (auto simp: zipped_def branch_def)
  with 2 show ?case by simp
qed simp

lemma linked_cong: "linked hs par t \<Longrightarrow> (\<forall>x \<in> set_tree t. hs' x = hs x) \<Longrightarrow> linked hs' par t"
  by (induction t arbitrary: par) auto

lemma linked_ctx_cong: "linked_ctx hs p ctx \<Longrightarrow> (\<forall>x \<in> set (ctx_list ctx). hs' x = hs x) \<Longrightarrow> linked_ctx hs' p ctx"
  by (induction hs p ctx rule: linked_ctx.induct) (auto intro: linked_cong)

text \<open>A change of the parent pointer at the top of a subtree.\<close>

lemma set_parent_linked:
  assumes "linked (hnodes H) par t" and "distinct (inorder t)"
  shows "\<exists>H'. set_parent (root_of t) q H = Ret H' \<and> linked (hnodes H') q t \<and> hmin H' = hmin H \<and> nelts H' = nelts H \<and>
    (\<forall>x. x \<notin> set_tree t \<longrightarrow> hnodes H' x = hnodes H x)"
proof (cases t)
  case Leaf
  then show ?thesis by (simp add: set_parent_def)
next
  case (Node l a r)
  let ?n = "\<lparr>hn_left = root_of l, hn_right = root_of r, hn_parent = par\<rparr>"
  let ?H = "put_node a (?n\<lparr>hn_parent := q\<rparr>) H"
  have "a \<notin> set_tree l \<union> set_tree r" using assms(2) Node by auto
  then have "linked (hnodes ?H) (Some a) l" "linked (hnodes ?H) (Some a) r"
    using assms(1) Node by (auto simp: put_node_def intro: linked_cong)
  then show ?thesis using assms(1) Node
    by (intro exI [of _ ?H]) (simp add: set_parent_def upd_node_def node_at_def put_node_def)
qed

text \<open>The pointer to a place is redirected.\<close>

lemma relink_ctx:
  assumes "linked_ctx (hnodes H) (Some old) ctx" and "distinct (ctx_list ctx)" and "old \<notin> set (ctx_list ctx)"
    and "hmin H = ctx_root ctx (Some old')"
  shows "\<exists>H'. relink (ctx_top ctx) old new H = Ret H' \<and> linked_ctx (hnodes H') (Some new) ctx \<and>
    hmin H' = ctx_root ctx (Some new) \<and> nelts H' = nelts H \<and>
    (\<forall>x. x \<notin> set (ctx_list ctx) \<longrightarrow> hnodes H' x = hnodes H x)"
proof (cases ctx)
  case Nil
  then show ?thesis by (simp add: relink_def)
next
  case (Cons c ctx')
  obtain d a u where c: "c = (d, a, u)" by (cases c)
  let ?n = "if d then \<lparr>hn_left = root_of u, hn_right = Some old, hn_parent = ctx_top ctx'\<rparr>
       else \<lparr>hn_left = Some old, hn_right = root_of u, hn_parent = ctx_top ctx'\<rparr>"
  let ?n' = "if d then \<lparr>hn_left = root_of u, hn_right = Some new, hn_parent = ctx_top ctx'\<rparr>
       else \<lparr>hn_left = Some new, hn_right = root_of u, hn_parent = ctx_top ctx'\<rparr>"
  have n: "hnodes H a = Some ?n" using assms(1) Cons c by simp
  have "root_of u \<noteq> Some old" using assms(3) Cons c by (cases u) auto
  then have r: "relink (ctx_top ctx) old new H = Ret (put_node a ?n' H)"
    using n Cons c by (simp add: relink_def upd_node_def node_at_def)
  have "a \<notin> set_tree u \<union> set (ctx_list ctx')" using assms(2) Cons c by auto
  then have "linked (hnodes (put_node a ?n' H)) (Some a) u" "linked_ctx (hnodes (put_node a ?n' H)) (Some a) ctx'"
    using assms(1) Cons c by (auto simp: put_node_def intro: linked_cong linked_ctx_cong)
  then show ?thesis using r assms(4) Cons c by (simp add: put_node_def)
qed

lemma heap_node_swap_zipped:
  assumes z: "zipped H ((d, a, u) # ctx) \<langle>l, c, r\<rangle>"
  shows "\<exists>H'. heap_node_swap a c H = Ret H' \<and> zipped H' ctx (branch d c u \<langle>l, a, r\<rangle>) \<and> nelts H' = nelts H"
proof -
  note zi = z [unfolded zipped_def]
  let ?t = "if d then \<lparr>hn_left = root_of u, hn_right = Some c, hn_parent = ctx_top ctx\<rparr>
       else \<lparr>hn_left = Some c, hn_right = root_of u, hn_parent = ctx_top ctx\<rparr>"
  let ?pn = "\<lparr>hn_left = root_of l, hn_right = root_of r, hn_parent = Some c\<rparr>"
  let ?cn = "if d then \<lparr>hn_left = root_of u, hn_right = Some a, hn_parent = ctx_top ctx\<rparr>
       else \<lparr>hn_left = Some a, hn_right = root_of u, hn_parent = ctx_top ctx\<rparr>"
  have n: "hnodes H a = Some ?t" "hnodes H c = Some \<lparr>hn_left = root_of l, hn_right = root_of r, hn_parent = Some a\<rparr>"
    using zi by simp_all
  have di: "a \<noteq> c" "distinct (inorder u)" "distinct (inorder l)" "distinct (inorder r)" "distinct (ctx_list ctx)"
    "a \<notin> set_tree u \<union> set_tree l \<union> set_tree r \<union> set (ctx_list ctx)"
    "c \<notin> set_tree u \<union> set_tree l \<union> set_tree r \<union> set (ctx_list ctx)"
    "set_tree u \<inter> set_tree l = {}" "set_tree u \<inter> set_tree r = {}" "set_tree l \<inter> set_tree r = {}"
    "set_tree u \<inter> set (ctx_list ctx) = {}" "set_tree l \<inter> set (ctx_list ctx) = {}" "set_tree r \<inter> set (ctx_list ctx) = {}"
    using zi by auto
  have du: "x \<in> set_tree u \<Longrightarrow> x \<notin> set_tree l \<and> x \<notin> set_tree r \<and> x \<notin> set (ctx_list ctx)"
    and dlr: "x \<in> set_tree l \<Longrightarrow> x \<notin> set_tree r \<and> x \<notin> set (ctx_list ctx)"
    and drc: "x \<in> set_tree r \<Longrightarrow> x \<notin> set (ctx_list ctx)" for x using zi by auto
  have dl: "x \<in> set_tree l \<Longrightarrow> x \<noteq> a \<and> x \<noteq> c \<and> x \<notin> set_tree u" for x using zi by auto
  have dr: "x \<in> set_tree r \<Longrightarrow> x \<noteq> a \<and> x \<noteq> c \<and> x \<notin> set_tree u \<and> x \<notin> set_tree l" for x using zi by auto
  have dc: "x \<in> set (ctx_list ctx) \<Longrightarrow> x \<noteq> a \<and> x \<noteq> c \<and> x \<notin> set_tree u \<and> x \<notin> set_tree l \<and> x \<notin> set_tree r" for x
    using zi by auto
  have side: "hn_left ?t = Some c \<longleftrightarrow> \<not> d" using di(7) by (cases u) auto
  let ?H1 = "put_node c ?cn (put_node a ?pn H)"
  have f1: "\<forall>x. x \<noteq> a \<longrightarrow> x \<noteq> c \<longrightarrow> hnodes ?H1 x = hnodes H x" by (simp add: put_node_def)
  have "linked (hnodes ?H1) (Some a) u" by (rule linked_cong [of "hnodes H"]) (use zi di f1 in \<open>auto simp: put_node_def\<close>)
  from set_parent_linked [OF this di(2), of "Some c"] obtain H2 where
    H2: "set_parent (root_of u) (Some c) ?H1 = Ret H2" "linked (hnodes H2) (Some c) u" "hmin H2 = hmin ?H1" "nelts H2 = nelts ?H1"
      "\<forall>x. x \<notin> set_tree u \<longrightarrow> hnodes H2 x = hnodes ?H1 x" by blast
  have f2: "\<forall>x. x \<noteq> a \<longrightarrow> x \<noteq> c \<longrightarrow> x \<notin> set_tree u \<longrightarrow> hnodes H2 x = hnodes H x" using f1 H2(5) by simp
  have "\<forall>x \<in> set_tree l. hnodes H2 x = hnodes H x" using f2 dl by simp
  then have "linked (hnodes H2) (Some c) l" using zi by - (rule linked_cong [of "hnodes H"], simp_all)
  from set_parent_linked [OF this di(3), of "Some a"] obtain H3 where
    H3: "set_parent (root_of l) (Some a) H2 = Ret H3" "linked (hnodes H3) (Some a) l" "hmin H3 = hmin H2" "nelts H3 = nelts H2"
      "\<forall>x. x \<notin> set_tree l \<longrightarrow> hnodes H3 x = hnodes H2 x" by blast
  have f3: "\<forall>x. x \<noteq> a \<longrightarrow> x \<noteq> c \<longrightarrow> x \<notin> set_tree u \<longrightarrow> x \<notin> set_tree l \<longrightarrow> hnodes H3 x = hnodes H x" using f2 H3(5) by simp
  have "\<forall>x \<in> set_tree r. hnodes H3 x = hnodes H x" using f3 dr by simp
  then have "linked (hnodes H3) (Some c) r" using zi by - (rule linked_cong [of "hnodes H"], simp_all)
  from set_parent_linked [OF this di(4), of "Some a"] obtain H4 where
    H4: "set_parent (root_of r) (Some a) H3 = Ret H4" "linked (hnodes H4) (Some a) r" "hmin H4 = hmin H3" "nelts H4 = nelts H3"
      "\<forall>x. x \<notin> set_tree r \<longrightarrow> hnodes H4 x = hnodes H3 x" by blast
  have "\<forall>x \<in> set (ctx_list ctx). hnodes H4 x = hnodes H x" using f3 H4(5) dc by simp
  then have "linked_ctx (hnodes H4) (Some a) ctx" using zi by - (rule linked_ctx_cong [of "hnodes H"], simp_all)
  moreover have "hmin H4 = ctx_root ctx (Some a)" using zi H4(3) H3(3) H2(3) by (simp add: put_node_def)
  ultimately obtain H5 where
    H5: "relink (ctx_top ctx) a c H4 = Ret H5" "linked_ctx (hnodes H5) (Some c) ctx" "hmin H5 = ctx_root ctx (Some c)"
      "nelts H5 = nelts H4" "\<forall>x. x \<notin> set (ctx_list ctx) \<longrightarrow> hnodes H5 x = hnodes H4 x"
    using relink_ctx [of H4 a ctx a c] di by auto
  have c4: "hnodes H4 c = Some ?cn" using H4(5) H3(5) H2(5) di by (simp add: put_node_def)
  have a4: "hnodes H4 a = Some ?pn" using H4(5) H3(5) H2(5) di by (simp add: put_node_def)
  have run: "heap_node_swap a c H = Ret H5"
    using n side H2(1) H3(1) H4(1) H5(1) c4 by (cases d) (simp_all add: heap_node_swap_def node_at_def Let_def)
  have keep: "linked (hnodes H5) q t" if "linked h q t" "set_tree t \<inter> set (ctx_list ctx) = {}"
      "\<forall>x \<in> set_tree t. hnodes H4 x = h x" for h q t
    by (rule linked_cong [OF that(1)]) (use that(2,3) H5(5) in auto)
  have "linked (hnodes H5) (Some c) u" by (rule keep [OF H2(2)]) (use du H3(5) H4(5) in auto)
  moreover have "linked (hnodes H5) (Some a) l" by (rule keep [OF H3(2)]) (use dlr H4(5) in auto)
  moreover have "linked (hnodes H5) (Some a) r" by (rule keep [OF H4(2)]) (use drc in auto)
  moreover have "hnodes H5 c = Some ?cn" "hnodes H5 a = Some ?pn" using c4 a4 H5(5) di by simp_all
  ultimately have "linked (hnodes H5) (ctx_top ctx) (branch d c u \<langle>l, a, r\<rangle>)" by (simp add: branch_def)
  moreover have "distinct (inorder (branch d c u \<langle>l, a, r\<rangle>) @ ctx_list ctx)" using zi by (auto simp: branch_def)
  ultimately have "zipped H5 ctx (branch d c u \<langle>l, a, r\<rangle>)" using H5(2,3) by (simp add: zipped_def) (simp add: branch_def)
  then show ?thesis using run H5(4) H4(4) H3(4) H2(4) by (simp add: put_node_def)
qed

section \<open>The order\<close>

fun ordered :: "(nat \<Rightarrow> 'k::linorder) \<Rightarrow> nat tree \<Rightarrow> bool" where
  "ordered key \<langle>\<rangle> \<longleftrightarrow> True"
| "ordered key \<langle>l, a, r\<rangle> \<longleftrightarrow> (\<forall>x \<in> set_tree l \<union> set_tree r. key a \<le> key x) \<and> ordered key l \<and> ordered key r"

text \<open>Everything around a place is in order when the place holds the elements \<open>S\<close>.\<close>

fun ctx_ord :: "(nat \<Rightarrow> 'k::linorder) \<Rightarrow> crumbs \<Rightarrow> nat set \<Rightarrow> bool" where
  "ctx_ord key [] S \<longleftrightarrow> True"
| "ctx_ord key ((d, a, u) # ctx) S \<longleftrightarrow> ordered key u \<and> (\<forall>x \<in> set_tree u \<union> S. key a \<le> key x) \<and>
     ctx_ord key ctx (insert a (set_tree u \<union> S))"

lemma ordered_plug: "ordered key (plug ctx t) \<longleftrightarrow> ordered key t \<and> ctx_ord key ctx (set_tree t)"
proof (induction ctx t rule: plug.induct)
  case (2 d a u ctx t)
  have "set_tree (branch d a u t) = insert a (set_tree u \<union> set_tree t)" by (auto simp: branch_def)
  moreover have "ordered key (branch d a u t) \<longleftrightarrow> ordered key t \<and> ordered key u \<and> (\<forall>x \<in> set_tree u \<union> set_tree t. key a \<le> key x)"
    by (auto simp: branch_def)
  ultimately show ?case using 2 by auto
qed simp

lemma ctx_ord_mono: "ctx_ord key ctx S \<Longrightarrow> T \<subseteq> S \<Longrightarrow> ctx_ord key ctx T"
proof (induction ctx arbitrary: S T)
  case (Cons c ctx)
  obtain d a u where c: "c = (d, a, u)" by (cases c)
  have "insert a (set_tree u \<union> T) \<subseteq> insert a (set_tree u \<union> S)" using Cons.prems(2) by blast
  with Cons c show ?case by auto
qed simp

text \<open>A further element above one that is there already does not disturb the order.\<close>

lemma ctx_ord_insert: "ctx_ord key ctx S \<Longrightarrow> y \<in> S \<Longrightarrow> key y \<le> key c \<Longrightarrow> ctx_ord key ctx (insert c S)"
proof (induction ctx arbitrary: S)
  case (Cons cr ctx)
  obtain d a u where cr: "cr = (d, a, u)" by (cases cr)
  note o = Cons.prems(1) [unfolded cr, simplified]
  have "key a \<le> key y" using o Cons.prems(2) by blast
  then have "key a \<le> key c" using Cons.prems(3) by (rule order_trans)
  moreover have "ctx_ord key ctx (insert c (insert a (set_tree u \<union> S)))"
    by (rule Cons.IH) (use o Cons.prems in auto)
  ultimately show ?case using o cr by (auto simp: insert_commute)
qed simp

text \<open>The tree without its elements.\<close>

abbreviation shape :: "nat tree \<Rightarrow> unit tree" where
  "shape t \<equiv> map_tree (\<lambda>_. ()) t"

lemma shape_plug: "shape s = shape t \<Longrightarrow> shape (plug ctx s) = shape (plug ctx t)"
proof (induction ctx arbitrary: s t)
  case (Cons c ctx)
  obtain d a u where c: "c = (d, a, u)" by (cases c)
  have "shape (branch d a u s) = shape (branch d a u t)" using Cons.prems by (simp add: branch_def)
  from Cons.IH [OF this] show ?case by (simp add: c)
qed simp

text \<open>What the comparison has to be: the strict order of a key.\<close>

locale keyed =
  fixes lt :: less_fn and key :: "nat \<Rightarrow> 'k::linorder"
  assumes lt_key: "lt a b \<longleftrightarrow> key a < key b"
begin

lemma sift_up_orders:
  "\<lbrakk>zipped H ctx \<langle>l, c, r\<rangle>; ordered key l; ordered key r; \<forall>x \<in> set_tree l \<union> set_tree r. key c \<le> key x;
    ctx_ord key ctx (set_tree l \<union> set_tree r); length ctx < fuel\<rbrakk> \<Longrightarrow>
   \<exists>H' t'. sift_up lt c fuel H = Ret H' \<and> zipped H' [] t' \<and> ordered key t' \<and>
     shape t' = shape (plug ctx \<langle>l, c, r\<rangle>) \<and> set_tree t' = set_tree (plug ctx \<langle>l, c, r\<rangle>) \<and> nelts H' = nelts H"
proof (induction ctx arbitrary: H l r fuel)
  case Nil
  then obtain f where "fuel = Suc f" by (cases fuel) auto
  then show ?case using Nil by (intro exI [of _ H] exI [of _ "\<langle>l, c, r\<rangle>"]) (auto simp: zipped_def node_at_def)
next
  case (Cons cr ctx)
  obtain d a u where cr: "cr = (d, a, u)" by (cases cr)
  obtain f where f: "fuel = Suc f" "length ctx < f" using Cons.prems(6) by (cases fuel) auto
  note z = Cons.prems(1) [unfolded cr] and o = Cons.prems(5) [unfolded cr, simplified]
  have p: "hnodes H c = Some \<lparr>hn_left = root_of l, hn_right = root_of r, hn_parent = Some a\<rparr>" using z by (simp add: zipped_def)
  show ?case
  proof (cases "lt c a")
    case False
    then have "key a \<le> key c" by (simp add: lt_key)
    then have "ctx_ord key (cr # ctx) (insert c (set_tree l \<union> set_tree r))"
      using o cr ctx_ord_insert [of key ctx "insert a (set_tree u \<union> (set_tree l \<union> set_tree r))" a c]
      by (auto simp: insert_commute)
    then have "ordered key (plug (cr # ctx) \<langle>l, c, r\<rangle>)" using Cons.prems(2-4) by (simp add: ordered_plug Un_commute)
    moreover have "zipped H [] (plug (cr # ctx) \<langle>l, c, r\<rangle>)" using Cons.prems(1) zipped_plug by blast
    ultimately show ?thesis using p False f(1)
      by (intro exI [of _ H] exI [of _ "plug (cr # ctx) \<langle>l, c, r\<rangle>"]) (simp add: node_at_def)
  next
    case True
    then have ca: "key c < key a" by (simp add: lt_key)
    from heap_node_swap_zipped [OF z] obtain H1 where
      H1: "heap_node_swap a c H = Ret H1" "zipped H1 ctx (branch d c u \<langle>l, a, r\<rangle>)" "nelts H1 = nelts H" by blast
    let ?l = "if d then u else \<langle>l, a, r\<rangle>" and ?r = "if d then \<langle>l, a, r\<rangle> else u"
    have b: "branch d c u \<langle>l, a, r\<rangle> = \<langle>?l, c, ?r\<rangle>" by (simp add: branch_def)
    have s: "set_tree ?l \<union> set_tree ?r = insert a (set_tree u \<union> (set_tree l \<union> set_tree r))" by auto
    have "ordered key \<langle>l, a, r\<rangle>" using o Cons.prems(2,3) by auto
    then have "ordered key ?l" "ordered key ?r" using o by auto
    moreover have "\<forall>x \<in> set_tree ?l \<union> set_tree ?r. key c \<le> key x" unfolding s using o ca by (auto intro: order_trans less_imp_le)
    moreover have "ctx_ord key ctx (set_tree ?l \<union> set_tree ?r)" unfolding s using o by simp
    ultimately obtain H' t' where H': "sift_up lt c f H1 = Ret H'" "zipped H' [] t'" "ordered key t'"
        "shape t' = shape (plug ctx \<langle>?l, c, ?r\<rangle>)" "set_tree t' = set_tree (plug ctx \<langle>?l, c, ?r\<rangle>)" "nelts H' = nelts H1"
      using Cons.IH [OF H1(2) [unfolded b] _ _ _ _ f(2)] by blast
    have "shape (plug ctx \<langle>?l, c, ?r\<rangle>) = shape (plug (cr # ctx) \<langle>l, c, r\<rangle>)"
      unfolding cr plug.simps by (rule shape_plug) (simp add: branch_def)
    moreover have "set_tree (plug ctx \<langle>?l, c, ?r\<rangle>) = set_tree (plug (cr # ctx) \<langle>l, c, r\<rangle>)"
      by (auto simp: cr set_plug branch_def)
    moreover have "sift_up lt c fuel H = Ret H'" using p True H1(1) H'(1) f(1) by (simp add: node_at_def)
    ultimately show ?thesis using H' H1(3) by auto
  qed
qed

lemma root_least: "ordered key t \<Longrightarrow> root_of t = Some s \<Longrightarrow> x \<in> set_tree t \<Longrightarrow> key s \<le> key x"
  by (cases t) auto

text \<open>The child to swap with, if there is one: it is smaller than the node and not greater than its sibling.\<close>

lemma smaller_cases:
  assumes "ordered key l" and "ordered key r" and s: "s = smaller lt (root_of r) (smaller lt (root_of l) c)"
  shows "s = c \<and> (\<forall>x \<in> set_tree l \<union> set_tree r. key c \<le> key x) \<or>
    (root_of l = Some s \<or> root_of r = Some s) \<and> key s < key c \<and> (\<forall>x \<in> set_tree l \<union> set_tree r. key s \<le> key x)"
proof -
  let ?m = "smaller lt (root_of l) c"
  have m: "(?m = c \<or> root_of l = Some ?m \<and> key ?m < key c) \<and> (\<forall>x \<in> set_tree l. key ?m \<le> key x)"
    using root_least [OF assms(1)]
    by (cases l) (auto simp: smaller_def lt_key not_less intro: order_trans less_imp_le)
  have "(s = ?m \<or> root_of r = Some s \<and> key s < key ?m) \<and> (\<forall>x \<in> set_tree r. key s \<le> key x)"
    using root_least [OF assms(2)] unfolding s
    by (cases r) (auto simp: smaller_def lt_key not_less intro: order_trans less_imp_le)
  then show ?thesis using m by (auto intro: order_trans less_imp_le less_trans less_le_trans)
qed

lemma sift_down_orders:
  "\<lbrakk>zipped H ctx \<langle>l, c, r\<rangle>; ordered key l; ordered key r; ctx_ord key ctx (set_tree l \<union> set_tree r);
    size \<langle>l, c, r\<rangle> \<le> fuel\<rbrakk> \<Longrightarrow>
   \<exists>H' ctx' l' r'. sift_down lt c fuel H = Ret H' \<and> zipped H' ctx' \<langle>l', c, r'\<rangle> \<and> ordered key l' \<and> ordered key r' \<and>
     (\<forall>x \<in> set_tree l' \<union> set_tree r'. key c \<le> key x) \<and> ctx_ord key ctx' (set_tree l' \<union> set_tree r') \<and>
     shape (plug ctx' \<langle>l', c, r'\<rangle>) = shape (plug ctx \<langle>l, c, r\<rangle>) \<and>
     set_tree (plug ctx' \<langle>l', c, r'\<rangle>) = set_tree (plug ctx \<langle>l, c, r\<rangle>) \<and> nelts H' = nelts H"
proof (induction fuel arbitrary: H ctx l r)
  case (Suc f)
  have n: "node_at (Some c) H = Ret \<lparr>hn_left = root_of l, hn_right = root_of r, hn_parent = ctx_top ctx\<rparr>"
    using Suc.prems(1) by (simp add: zipped_def node_at_def)
  define s where "s = smaller lt (root_of r) (smaller lt (root_of l) c)"
  consider (stop) "s = c" "\<forall>x \<in> set_tree l \<union> set_tree r. key c \<le> key x"
    | (swap) "root_of l = Some s \<or> root_of r = Some s" "key s < key c" "\<forall>x \<in> set_tree l \<union> set_tree r. key s \<le> key x"
    using smaller_cases [OF Suc.prems(2,3) s_def] by blast
  then show ?case
  proof cases
    case stop
    then show ?thesis using Suc.prems n s_def by (intro exI [of _ H] exI [of _ ctx] exI [of _ l] exI [of _ r]) simp
  next
    case swap
    then obtain d u t where dut: "branch d c u t = \<langle>l, c, r\<rangle>" "root_of t = Some s" "set_tree l \<union> set_tree r = set_tree u \<union> set_tree t"
      "ordered key u" "ordered key t" "size u + size t = size l + size r"
      using Suc.prems(2,3) by (auto simp: branch_def intro: that [of True l r] that [of False r l])
    then obtain l1 r1 where t: "t = \<langle>l1, s, r1\<rangle>" by (cases t) auto
    have z: "zipped H ((d, c, u) # ctx) \<langle>l1, s, r1\<rangle>"
      using Suc.prems(1) dut(1) t zipped_plug [of H ctx] zipped_plug [of H "(d, c, u) # ctx"] by simp
    from heap_node_swap_zipped [OF z] obtain H1 where
      H1: "heap_node_swap c s H = Ret H1" "zipped H1 ctx (branch d s u \<langle>l1, c, r1\<rangle>)" "nelts H1 = nelts H" by blast
    have z1: "zipped H1 ((d, s, u) # ctx) \<langle>l1, c, r1\<rangle>"
      using H1(2) zipped_plug [of H1 ctx] zipped_plug [of H1 "(d, s, u) # ctx"] by simp
    have ss: "insert s (set_tree u \<union> (set_tree l1 \<union> set_tree r1)) = set_tree l \<union> set_tree r" using dut(3) t by auto
    have "\<forall>x \<in> set_tree u \<union> (set_tree l1 \<union> set_tree r1). key s \<le> key x" using swap(3) ss by blast
    moreover have "ctx_ord key ctx (insert s (set_tree u \<union> (set_tree l1 \<union> set_tree r1)))"
      unfolding ss by (rule Suc.prems(4))
    ultimately have o1: "ctx_ord key ((d, s, u) # ctx) (set_tree l1 \<union> set_tree r1)" using dut(4) by simp
    have "ordered key l1" "ordered key r1" "size \<langle>l1, c, r1\<rangle> \<le> f" using dut(5,6) t Suc.prems(5) by auto
    from Suc.IH [OF z1 this(1,2) o1 this(3)] obtain H' ctx' l' r' where
      H': "sift_down lt c f H1 = Ret H'" "zipped H' ctx' \<langle>l', c, r'\<rangle>" "ordered key l'" "ordered key r'"
        "\<forall>x \<in> set_tree l' \<union> set_tree r'. key c \<le> key x" "ctx_ord key ctx' (set_tree l' \<union> set_tree r')"
        "shape (plug ctx' \<langle>l', c, r'\<rangle>) = shape (plug ((d, s, u) # ctx) \<langle>l1, c, r1\<rangle>)"
        "set_tree (plug ctx' \<langle>l', c, r'\<rangle>) = set_tree (plug ((d, s, u) # ctx) \<langle>l1, c, r1\<rangle>)" "nelts H' = nelts H1" by blast
    have "shape (branch d s u \<langle>l1, c, r1\<rangle>) = shape (branch d c u t)" by (simp add: branch_def t)
    then have "shape (plug ((d, s, u) # ctx) \<langle>l1, c, r1\<rangle>) = shape (plug ctx \<langle>l, c, r\<rangle>)"
      unfolding plug.simps dut(1) by (rule shape_plug)
    moreover have "set_tree (plug ((d, s, u) # ctx) \<langle>l1, c, r1\<rangle>) =
        insert c (insert s (set_tree u \<union> (set_tree l1 \<union> set_tree r1))) \<union> set (ctx_list ctx)" by (auto simp: set_plug branch_def)
    then have "set_tree (plug ((d, s, u) # ctx) \<langle>l1, c, r1\<rangle>) = set_tree (plug ctx \<langle>l, c, r\<rangle>)"
      unfolding ss by (simp add: set_plug)
    moreover have "s \<noteq> c" using swap(2) by auto
    then have "sift_down lt c (Suc f) H = Ret H'" using n H1(1) H'(1) s_def by simp
    ultimately show ?thesis using H' H1(3) by (intro exI [of _ H'] exI [of _ ctx'] exI [of _ l'] exI [of _ r']) simp
  qed
qed simp

end

section \<open>The places of a complete tree\<close>

text \<open>The path to the \<open>n\<close>-th place, counted from 1, and the number of the place at the end of a path.\<close>

fun dirs :: "nat \<Rightarrow> bool list" where
  "dirs n = (if n < 2 then [] else dirs (n div 2) @ [odd n])"

declare dirs.simps [simp del]

definition num :: "bool list \<Rightarrow> nat" where
  "num ds = foldl (\<lambda>n d. 2 * n + of_bool d) 1 ds"

lemma num_simps [simp]: "num [] = 1" "num (ds @ [d]) = 2 * num ds + of_bool d"
  by (simp_all add: num_def)

lemma num_pos: "0 < num ds"
  by (induction ds rule: rev_induct) auto

lemma dirs_num: "dirs (num ds) = ds"
proof (induction ds rule: rev_induct)
  case Nil
  then show ?case by (simp add: dirs.simps)
next
  case (snoc d ds)
  then show ?case using num_pos [of ds] by (subst dirs.simps) simp
qed

lemma num_dirs: "0 < n \<Longrightarrow> num (dirs n) = n"
proof (induction n rule: dirs.induct)
  case (1 n)
  show ?case
  proof (cases "n < 2")
    case True
    with 1 have "n = 1" by simp
    then show ?thesis by (simp add: dirs.simps)
  next
    case False
    with 1 have "num (dirs (n div 2)) = n div 2" by simp
    with False show ?thesis by (subst dirs.simps) (auto simp: of_bool_def)
  qed
qed

lemma dirs_iff: "0 < n \<Longrightarrow> ds = dirs n \<longleftrightarrow> num ds = n"
  using dirs_num num_dirs by metis

lemma butlast_dirs: "butlast (dirs n) = (if n < 2 then [] else dirs (n div 2))"
  by (subst dirs.simps) simp

text \<open>The steps in an integer, the first in the lowest bit.\<close>

fun bits :: "nat \<Rightarrow> nat \<Rightarrow> bool list" where
  "bits path 0 = []"
| "bits path (Suc k) = odd path # bits (path div 2) k"

lemma heap_path_bits: "heap_path path k n = (p', k') \<Longrightarrow> bits p' k' = dirs n @ bits path k"
proof (induction path k n rule: heap_path.induct)
  case (1 path k n)
  show ?case
  proof (cases "2 \<le> n")
    case True
    then have "heap_path (2 * path + n mod 2) (Suc k) (n div 2) = (p', k')" using 1(2) by (subst (asm) heap_path.simps) simp
    from 1(1) [OF True this] True show ?thesis by (subst dirs.simps) simp
  next
    case False
    with 1(2) show ?thesis by (subst (asm) heap_path.simps) (simp add: dirs.simps)
  qed
qed

fun reach :: "bool list \<Rightarrow> 'a tree \<Rightarrow> bool" where
  "reach ds \<langle>\<rangle> \<longleftrightarrow> False"
| "reach [] \<langle>l, a, r\<rangle> \<longleftrightarrow> True"
| "reach (d # ds) \<langle>l, a, r\<rangle> \<longleftrightarrow> reach ds (if d then r else l)"

lemma reach_shape: "reach ds (map_tree f t) = reach ds t"
  by (induction ds t rule: reach.induct) auto

text \<open>The nodes of the tree are the places 1 to \<open>n\<close>.\<close>

definition filled :: "nat \<Rightarrow> 'a tree \<Rightarrow> bool" where
  "filled n t \<longleftrightarrow> (\<forall>ds. reach ds t \<longleftrightarrow> num ds \<le> n)"

lemma filled_shape: "shape s = shape t \<Longrightarrow> filled n s = filled n t"
  unfolding filled_def using reach_shape by metis

lemma reach_plug:
  "(\<And>es. reach es s \<longleftrightarrow> reach es t \<or> es = qs) \<Longrightarrow>
   reach es (plug ctx s) \<longleftrightarrow> reach es (plug ctx t) \<or> es = rev (map fst ctx) @ qs"
proof (induction ctx arbitrary: s t qs)
  case (Cons c ctx)
  obtain d a u where c: "c = (d, a, u)" by (cases c)
  have "reach es (branch d a u s) \<longleftrightarrow> reach es (branch d a u t) \<or> es = d # qs" for es
    using Cons.prems by (cases es) (auto simp: branch_def)
  from Cons.IH [OF this] show ?case by (simp add: c)
qed simp

section \<open>Walking to a place\<close>

fun descend :: "bool list \<Rightarrow> crumbs \<Rightarrow> nat tree \<Rightarrow> crumbs \<times> nat tree" where
  "descend [] ctx t = (ctx, t)"
| "descend (d # ds) ctx \<langle>l, a, r\<rangle> = descend ds ((d, a, if d then l else r) # ctx) (if d then r else l)"
| "descend (d # ds) ctx \<langle>\<rangle> = (ctx, \<langle>\<rangle>)"

lemma descend_plug: "descend ds ctx t = (ctx', t') \<Longrightarrow> plug ctx' t' = plug ctx t"
  by (induction ds ctx t rule: descend.induct) (auto simp: branch_def)

lemma descend_path: "descend ds ctx t = (ctx', t') \<Longrightarrow> ds = [] \<or> reach (butlast ds) t \<Longrightarrow>
    rev (map fst ctx') = rev (map fst ctx) @ ds \<and> (\<forall>es. reach es t' \<longleftrightarrow> reach (ds @ es) t)"
proof (induction ds ctx t rule: descend.induct)
  case (2 d ds ctx l a r)
  have "ds = [] \<or> reach (butlast ds) (if d then r else l)" using 2(3) by (cases ds) auto
  with 2 show ?case by auto
qed auto

definition slot_of :: "crumbs \<Rightarrow> slot" where
  "slot_of ctx = (case ctx of [] \<Rightarrow> Root | (d, a, u) # _ \<Rightarrow> if d then Right_of a else Left_of a)"

lemma deref_slot: "zipped H ctx t \<Longrightarrow> deref (slot_of ctx) H = Ret (root_of t)"
  by (cases ctx) (auto simp: zipped_def slot_of_def deref_def node_at_def)

lemma deref_parent:
  assumes "zipped H ctx t" and "ctx = [] \<longrightarrow> t = \<langle>\<rangle>"
  shows "deref (slot_of (tl ctx)) H = Ret (ctx_top ctx)"
proof (cases ctx)
  case Nil
  with assms show ?thesis by (simp add: zipped_def slot_of_def deref_def)
next
  case (Cons c ctx')
  obtain d a u where c: "c = (d, a, u)" by (cases c)
  have "zipped H ctx' (branch d a u t)" using assms(1) Cons c zipped_plug [of H ctx] zipped_plug [of H ctx'] by simp
  from deref_slot [OF this] show ?thesis using Cons c by (simp add: branch_def)
qed

lemma follow_zipped:
  "\<lbrakk>zipped H ctx t; k = 0 \<or> reach (butlast (bits path k)) t; descend (bits path k) ctx t = (ctx', t')\<rbrakk> \<Longrightarrow>
   follow path k (slot_of (tl ctx)) (slot_of ctx) H = Ret (slot_of (tl ctx'), slot_of ctx') \<and> zipped H ctx' t'"
proof (induction k arbitrary: path ctx t)
  case (Suc k)
  from Suc.prems(2) obtain l a r where t: "t = \<langle>l, a, r\<rangle>" by (cases t) auto
  let ?d = "odd path"
  let ?ctx = "(?d, a, if ?d then l else r) # ctx" and ?t = "if ?d then r else l"
  have z: "zipped H ?ctx ?t"
    using Suc.prems(1) t zipped_plug [of H ctx t] zipped_plug [of H ?ctx ?t] by (simp add: branch_def split: if_splits)
  have b: "k = 0 \<or> reach (butlast (bits (path div 2) k)) ?t" using Suc.prems(2) t by (cases k) auto
  have "descend (bits (path div 2) k) ?ctx ?t = (ctx', t')" using Suc.prems(3) t by simp
  from Suc.IH [OF z b this] show ?case
    using deref_slot [OF Suc.prems(1)] t by (auto simp: slot_of_def split: if_splits)
qed simp

text \<open>A subtree is hung into a place.\<close>

lemma assign_zipped:
  assumes z: "zipped H ctx t" and l: "linked (hnodes H) (ctx_top ctx) s" and d: "distinct (inorder s @ ctx_list ctx)"
  shows "\<exists>H'. assign (slot_of ctx) (root_of s) H = Ret H' \<and> zipped H' ctx s \<and> nelts H' = nelts H \<and>
    (\<forall>x. x \<notin> set (ctx_list ctx) \<longrightarrow> hnodes H' x = hnodes H x)"
proof (cases ctx)
  case Nil
  then show ?thesis using l d by (simp add: slot_of_def assign_def zipped_def)
next
  case (Cons c ctx')
  obtain e a u where c: "c = (e, a, u)" by (cases c)
  note zi = z [unfolded zipped_def Cons c]
  let ?n = "if e then \<lparr>hn_left = root_of u, hn_right = root_of s, hn_parent = ctx_top ctx'\<rparr>
       else \<lparr>hn_left = root_of s, hn_right = root_of u, hn_parent = ctx_top ctx'\<rparr>"
  let ?H = "put_node a ?n H"
  have r: "assign (slot_of ctx) (root_of s) H = Ret ?H"
    using zi Cons c by (auto simp: slot_of_def assign_def upd_node_def node_at_def)
  have "a \<notin> set_tree s" "a \<notin> set_tree u" "a \<notin> set (ctx_list ctx')" using d Cons c by auto
  then have "linked (hnodes ?H) (Some a) s" "linked (hnodes ?H) (Some a) u" "linked_ctx (hnodes ?H) (Some a) ctx'"
    using l zi Cons c by (auto simp: put_node_def intro!: linked_cong [of "hnodes H"] linked_ctx_cong [of "hnodes H"])
  then have "zipped ?H ctx s" using zi d Cons c by (simp add: zipped_def) (simp add: put_node_def)
  with r Cons c show ?thesis by (simp add: put_node_def)
qed

text \<open>A node that is in no tree takes the place of another.\<close>

lemma heap_replace_zipped:
  assumes z: "zipped H ctx \<langle>l, a, r\<rangle>" and c: "hnodes H c \<noteq> None" "c \<notin> set_tree (plug ctx \<langle>l, a, r\<rangle>)"
  shows "\<exists>H'. heap_replace a c H = Ret H' \<and> zipped H' ctx \<langle>l, c, r\<rangle> \<and> nelts H' = nelts H"
proof -
  note zi = z [unfolded zipped_def]
  let ?n = "\<lparr>hn_left = root_of l, hn_right = root_of r, hn_parent = ctx_top ctx\<rparr>" and ?C = "set (ctx_list ctx)"
  have nc: "c \<noteq> a" "c \<notin> set_tree l" "c \<notin> set_tree r" "c \<notin> ?C" using c(2) by (auto simp: set_plug)
  have na: "a \<notin> set_tree l" "a \<notin> set_tree r" "a \<notin> ?C" using zi by auto
  have dl: "x \<in> set_tree l \<Longrightarrow> x \<notin> set_tree r \<and> x \<notin> ?C" and dr: "x \<in> set_tree r \<Longrightarrow> x \<notin> set_tree l \<and> x \<notin> ?C"
    and dc: "x \<in> ?C \<Longrightarrow> x \<notin> set_tree l \<and> x \<notin> set_tree r" for x using zi by auto
  have d: "distinct (inorder l)" "distinct (inorder r)" "distinct (ctx_list ctx)" using zi by auto
  let ?H3 = "put_node c ?n H"
  have "linked (hnodes ?H3) (Some a) l" "linked (hnodes ?H3) (Some a) r"
    using zi nc by (auto simp: put_node_def intro!: linked_cong [of "hnodes H"])
  from set_parent_linked [OF this(1) d(1), of "Some c"] this(2) obtain H4 where
    H4: "set_parent (root_of l) (Some c) ?H3 = Ret H4" "linked (hnodes H4) (Some c) l" "hmin H4 = hmin ?H3" "nelts H4 = nelts ?H3"
      "\<forall>x. x \<notin> set_tree l \<longrightarrow> hnodes H4 x = hnodes ?H3 x" and r3: "linked (hnodes ?H3) (Some a) r" by blast
  have "linked (hnodes H4) (Some a) r" by (rule linked_cong [OF r3]) (use H4(5) dr in simp)
  from set_parent_linked [OF this d(2), of "Some c"] obtain H5 where
    H5: "set_parent (root_of r) (Some c) H4 = Ret H5" "linked (hnodes H5) (Some c) r" "hmin H5 = hmin H4" "nelts H5 = nelts H4"
      "\<forall>x. x \<notin> set_tree r \<longrightarrow> hnodes H5 x = hnodes H4 x" by blast
  have f5: "\<forall>x. x \<notin> set_tree l \<longrightarrow> x \<notin> set_tree r \<longrightarrow> x \<noteq> c \<longrightarrow> hnodes H5 x = hnodes H x"
    using H4(5) H5(5) by (simp add: put_node_def)
  have ca: "hnodes H5 c = Some ?n" "hnodes H5 a = Some ?n" using H4(5) H5(5) nc na zi by (simp_all add: put_node_def)
  have "linked_ctx (hnodes H5) (Some a) ctx"
    by (rule linked_ctx_cong [of "hnodes H"]) (use zi f5 dc nc in auto)
  from relink_ctx [OF this d(3) na(3), of a c] zi H4(3) H5(3) obtain H6 where
    H6: "relink (ctx_top ctx) a c H5 = Ret H6" "linked_ctx (hnodes H6) (Some c) ctx" "hmin H6 = ctx_root ctx (Some c)"
      "nelts H6 = nelts H5" "\<forall>x. x \<notin> ?C \<longrightarrow> hnodes H6 x = hnodes H5 x" by (auto simp: put_node_def)
  have n: "hnodes H a = Some ?n" using zi by simp
  have run: "heap_replace a c H = Ret H6"
    using n c(1) H4(1) H5(1) H6(1) ca(2) by (auto simp: heap_replace_def node_at_def upd_node_def)
  have "linked (hnodes H6) (Some c) l" by (rule linked_cong [OF H4(2)]) (use H5(5) H6(5) dl in simp)
  moreover have "linked (hnodes H6) (Some c) r" by (rule linked_cong [OF H5(2)]) (use H6(5) dr in simp)
  moreover have "hnodes H6 c = Some ?n" using H6(5) ca(1) nc(4) by simp
  ultimately have "zipped H6 ctx \<langle>l, c, r\<rangle>" using H6(2,3) zi nc by (auto simp: zipped_def)
  then show ?thesis using run H6(4) H5(4) H4(4) by (simp add: put_node_def)
qed

section \<open>The operations\<close>

text \<open>The heap holds the tree: linked, ordered, filled, and counted.\<close>

definition heap_holds :: "(nat \<Rightarrow> 'k::linorder) \<Rightarrow> uv_heap \<Rightarrow> nat tree \<Rightarrow> bool" where
  "heap_holds key H t \<longleftrightarrow> zipped H [] t \<and> ordered key t \<and> filled (size t) t \<and> size t = unat (nelts H)"

lemma length_inorder_size: "length (inorder t) = size t"
  by (induction t) auto

lemma size_plug: "size (plug ctx t) = size t + length (ctx_list ctx)"
  using mset_eq_length [OF mset_plug, of ctx t] by (simp add: length_inorder_size)

lemma length_ctx_list: "length ctx \<le> length (ctx_list ctx)"
  by (induction ctx rule: ctx_list.induct) auto

lemma size_shape: "shape s = shape t \<Longrightarrow> size s = size t"
  by (metis size_map_tree)

lemma reach_here: "reach [] t \<longleftrightarrow> t \<noteq> \<langle>\<rangle>"
  by (cases t) auto

lemma reach_at: "reach (rev (map fst ctx) @ qs) (plug ctx s) \<longleftrightarrow> reach qs s"
proof (induction ctx arbitrary: qs s)
  case (Cons c ctx)
  obtain d a u where c: "c = (d, a, u)" by (cases c)
  show ?case using Cons.IH [of "d # qs" "branch d a u s"] by (simp add: c branch_def)
qed simp

lemma locate: "a \<in> set_tree t \<Longrightarrow> \<exists>ctx' l r. plug ctx' \<langle>l, a, r\<rangle> = plug ctx t"
proof (induction t arbitrary: ctx)
  case (Node l b r)
  consider "a = b" | "a \<in> set_tree l" | "a \<in> set_tree r" using Node.prems by auto
  then show ?case
  proof cases
    case 1
    then show ?thesis by blast
  next
    case 2
    from Node.IH(1) [OF this, of "(False, b, r) # ctx"] show ?thesis by (simp add: branch_def)
  next
    case 3
    from Node.IH(2) [OF this, of "(True, b, l) # ctx"] show ?thesis by (simp add: branch_def)
  qed
qed simp

text \<open>The place with number \<open>m\<close> in a tree of at least \<open>m - 1\<close> nodes.\<close>

lemma to_place:
  assumes z: "zipped H [] t" and c: "filled n t" and m: "0 < m" "m \<le> Suc n" and p: "heap_path 0 0 m = (path, k)"
  obtains ctx t' where "follow path k Root Root H = Ret (slot_of (tl ctx), slot_of ctx)" "zipped H ctx t'" "plug ctx t' = t"
    "rev (map fst ctx) = dirs m" "\<And>es. reach es t' \<longleftrightarrow> reach (dirs m @ es) t"
proof -
  have b: "bits path k = dirs m" using heap_path_bits [OF p] by simp
  have k: "k = 0 \<or> reach (butlast (bits path k)) t"
  proof (cases "m < 2")
    case True
    then have "bits path k = []" by (simp add: b dirs.simps)
    then show ?thesis by (cases k) auto
  next
    case False
    then have "num (dirs (m div 2)) \<le> n" using m by (subst num_dirs) auto
    then show ?thesis using False c by (simp add: b butlast_dirs filled_def)
  qed
  obtain ctx t' where d: "descend (bits path k) [] t = (ctx, t')" by (cases "descend (bits path k) [] t")
  have "bits path k = [] \<or> reach (butlast (bits path k)) t" using k by (cases k) auto
  from descend_path [OF d this] descend_plug [OF d] follow_zipped [OF z k d] show thesis
    using that [of ctx t'] by (auto simp: slot_of_def b)
qed

lemma zipped_nelts [simp]: "zipped (H\<lparr>nelts := n\<rparr>) ctx t = zipped H ctx t"
  by (simp add: zipped_def)

lemma zipped_other: "zipped H ctx t \<Longrightarrow> a \<notin> set_tree (plug ctx t) \<Longrightarrow> zipped (put_node a n H) ctx t"
  by (auto simp: zipped_def put_node_def set_plug intro!: linked_cong [of "hnodes H"] linked_ctx_cong [of "hnodes H"])

context keyed
begin

lemma heap_insert_holds:
  assumes h: "heap_holds key H t" and a: "a \<notin> set_tree t" and n: "size t < 2 ^ 32 - 1"
  shows "\<exists>H' t'. heap_insert lt a H = Ret H' \<and> heap_holds key H' t' \<and> set_tree t' = insert a (set_tree t)"
proof -
  note ho = h [unfolded heap_holds_def]
  let ?n = "size t" and ?H1 = "put_node a \<lparr>hn_left = None, hn_right = None, hn_parent = None\<rparr> H"
  have u: "unat (1 + nelts H) = Suc ?n" using ho n by (simp add: unat_word_ariths)
  have z1: "zipped ?H1 [] t" using zipped_other [of H "[]" t a] ho a by simp
  obtain path k where p: "heap_path 0 0 (Suc ?n) = (path, k)" by (cases "heap_path 0 0 (Suc ?n)")
  have co: "filled ?n t" using ho by blast
  from to_place [OF z1 co _ _ p] obtain ctx t' where
    f: "follow path k Root Root ?H1 = Ret (slot_of (tl ctx), slot_of ctx)" "zipped ?H1 ctx t'" "plug ctx t' = t"
      "rev (map fst ctx) = dirs (Suc ?n)" "\<And>es. reach es t' \<longleftrightarrow> reach (dirs (Suc ?n) @ es) t" by auto
  have "\<not> reach (dirs (Suc ?n)) t" using co num_dirs [of "Suc ?n"] by (simp add: filled_def)
  then have t': "t' = \<langle>\<rangle>" using f(5) [of "[]"] reach_here [of t'] by simp
  let ?s = "\<langle>\<langle>\<rangle>, a, \<langle>\<rangle>\<rangle>" and ?x = "\<lparr>hn_left = None, hn_right = None, hn_parent = ctx_top ctx\<rparr>"
  let ?H2 = "put_node a ?x ?H1"
  have ac: "a \<notin> set_tree (plug ctx t')" using a f(3) by simp
  have z2: "zipped ?H2 ctx t'" by (rule zipped_other [OF f(2) ac])
  have "linked (hnodes ?H2) (ctx_top ctx) ?s" by (simp add: put_node_def)
  moreover have "distinct (inorder ?s @ ctx_list ctx)" using z2 ac by (simp add: zipped_def set_plug)
  ultimately obtain H3 where
    H3: "assign (slot_of ctx) (Some a) ?H2 = Ret H3" "zipped H3 ctx ?s" "nelts H3 = nelts H"
    using assign_zipped [OF z2, of ?s] by (auto simp: put_node_def)
  let ?H4 = "H3\<lparr>nelts := nelts H3 + 1\<rparr>"
  have "ctx_ord key ctx {}" using ho f(3) t' ordered_plug [of key ctx "\<langle>\<rangle>"] by simp
  moreover have u4: "unat (nelts H3 + 1) = Suc ?n" using u H3(3) by (simp add: add.commute)
  moreover have sz: "?n = length (ctx_list ctx)" using f(3) t' size_plug [of ctx "\<langle>\<rangle>"] by simp
  ultimately obtain H' t2 where
    H': "sift_up lt a (Suc (unat (nelts H3 + 1))) ?H4 = Ret H'" "zipped H' [] t2" "ordered key t2"
      "shape t2 = shape (plug ctx ?s)" "set_tree t2 = set_tree (plug ctx ?s)" "nelts H' = nelts ?H4"
    using sift_up_orders [of ?H4 ctx "\<langle>\<rangle>" a "\<langle>\<rangle>" "Suc (unat (nelts H3 + 1))"] H3(2) length_ctx_list [of ctx] by auto
  have "deref (slot_of (tl ctx)) ?H1 = Ret (ctx_top ctx)" using deref_parent [OF f(2)] t' by simp
  then have run: "heap_insert lt a H = Ret H'"
    using f(1) H3(1) H'(1) p u by (simp add: heap_insert_def upd_node_def node_at_def put_node_def)
  have e: "reach es ?s \<longleftrightarrow> reach es \<langle>\<rangle> \<or> es = []" for es by (cases es) auto
  have "reach es (plug ctx ?s) \<longleftrightarrow> num es \<le> Suc ?n" for es
  proof -
    have "reach es (plug ctx ?s) \<longleftrightarrow> reach es t \<or> es = dirs (Suc ?n)"
      using reach_plug [of ?s "\<langle>\<rangle>" "[]" es ctx, OF e] f(3,4) t' by simp
    moreover have "reach es t \<longleftrightarrow> num es \<le> ?n" using co unfolding filled_def by blast
    ultimately show ?thesis by (auto simp: dirs_iff le_Suc_eq)
  qed
  then have "filled (Suc ?n) t2" using filled_shape [OF H'(4)] by (simp add: filled_def)
  moreover have "size t2 = Suc ?n" using size_shape [OF H'(4)] sz by (simp add: size_plug)
  moreover have "unat (nelts H') = Suc ?n" using H'(6) u4 by simp
  ultimately have "heap_holds key H' t2" using H'(2,3) by (simp add: heap_holds_def)
  moreover have "set_tree t = set (ctx_list ctx)" using set_plug [of ctx "\<langle>\<rangle>"] f(3) t' by simp
  then have "set_tree t2 = insert a (set_tree t)" unfolding H'(5) set_plug by simp
  ultimately show ?thesis using run by blast
qed

text \<open>The last node is unlinked.\<close>

lemma unlink_last:
  assumes h: "heap_holds key H t" and t: "t \<noteq> \<langle>\<rangle>"
  obtains path k ctx c H2 t2 where "heap_path 0 0 (unat (nelts H)) = (path, k)"
    "follow path k Root Root H = Ret (slot_of (tl ctx), slot_of ctx)"
    "deref (slot_of ctx) (H\<lparr>nelts := nelts H - 1\<rparr>) = Ret (Some c)"
    "assign (slot_of ctx) None (H\<lparr>nelts := nelts H - 1\<rparr>) = Ret H2" "heap_holds key H2 t2"
    "set_tree t = insert c (set_tree t2)" "c \<notin> set_tree t2" "hnodes H2 c \<noteq> None" "unat (nelts H) = Suc (size t2)"
proof -
  note ho = h [unfolded heap_holds_def]
  define n where "n = size t"
  have n: "0 < n" "unat (nelts H) = n" using t ho by (cases t; auto simp: n_def)+
  have z: "zipped H [] t" and co: "filled n t" using ho unfolding n_def by blast+
  obtain path k where p: "heap_path 0 0 n = (path, k)" by (cases "heap_path 0 0 n")
  from to_place [OF z co n(1) _ p] obtain ctx t' where
    f: "follow path k Root Root H = Ret (slot_of (tl ctx), slot_of ctx)" "zipped H ctx t'" "plug ctx t' = t"
      "rev (map fst ctx) = dirs n" "\<And>es. reach es t' \<longleftrightarrow> reach (dirs n @ es) t" by auto
  have re: "reach es t \<longleftrightarrow> num es \<le> n" for es using co unfolding filled_def by blast
  have "reach [] t'" using f(5) [of "[]"] re num_dirs [OF n(1)] by simp
  then obtain l c r where lcr: "t' = \<langle>l, c, r\<rangle>" by (cases t') auto
  have "\<not> reach [d] t'" for d using f(5) [of "[d]"] re num_dirs [OF n(1)] n(1) by simp
  from this [of False] this [of True] have t': "t' = \<langle>\<langle>\<rangle>, c, \<langle>\<rangle>\<rangle>" using lcr reach_here [of l] reach_here [of r] by simp
  let ?H1 = "H\<lparr>nelts := nelts H - 1\<rparr>"
  have z1: "zipped ?H1 ctx t'" using f(2) by simp
  have di: "distinct (inorder t' @ ctx_list ctx)" using f(2) by (simp add: zipped_def)
  obtain H2 where H2: "assign (slot_of ctx) None ?H1 = Ret H2" "zipped H2 ctx \<langle>\<rangle>" "nelts H2 = nelts H - 1"
      "\<forall>x. x \<notin> set (ctx_list ctx) \<longrightarrow> hnodes H2 x = hnodes H x"
    using assign_zipped [OF z1, of "\<langle>\<rangle>"] di by auto
  define t2 where "t2 = plug ctx \<langle>\<rangle>"
  have st: "set_tree t = insert c (set_tree t2)" "c \<notin> set_tree t2"
    using di t' by (auto simp: f(3) [symmetric] t2_def set_plug)
  have sz: "size t2 = n - 1" by (simp add: n_def f(3) [symmetric] t2_def size_plug t')
  have e: "reach es \<langle>\<langle>\<rangle>, c, \<langle>\<rangle>\<rangle> \<longleftrightarrow> reach es \<langle>\<rangle> \<or> es = []" for es by (cases es) auto
  have "reach es t2 \<longleftrightarrow> num es \<le> n - 1" for es
  proof -
    have "reach es t \<longleftrightarrow> reach es t2 \<or> es = dirs n"
      using reach_plug [OF e, of es ctx] f(3,4) by (simp add: t' t2_def)
    moreover have "\<not> reach (dirs n) t2" using reach_at [of ctx "[]" "\<langle>\<rangle>"] f(4) by (simp add: t2_def)
    ultimately show ?thesis using re [of es] dirs_iff [OF n(1), of es] n(1) by auto
  qed
  then have "filled (n - 1) t2" by (simp add: filled_def)
  moreover have "ordered key t2"
    using ho ordered_plug [of key ctx t'] ctx_ord_mono [of key ctx "set_tree t'" "{}"] ordered_plug [of key ctx "\<langle>\<rangle>"]
    by (simp add: f(3) t2_def)
  moreover have "zipped H2 [] t2" using H2(2) zipped_plug by (simp add: t2_def)
  moreover have "unat (nelts H - 1) = n - 1" using n by (metis unat_0 unat_minus_one less_irrefl)
  ultimately have "heap_holds key H2 t2" using sz H2(3) by (simp add: heap_holds_def)
  moreover have "deref (slot_of ctx) ?H1 = Ret (Some c)" using deref_slot [OF z1] t' by simp
  moreover have "hnodes H2 c \<noteq> None" using H2(4) st(2) f(2) t' by (simp add: t2_def set_plug zipped_def)
  ultimately show thesis using that p f(1) H2(1) st n sz by simp
qed

text \<open>The node \<open>c\<close> takes the place of \<open>a\<close> and is moved to where it belongs.\<close>

lemma move_into:
  assumes h: "heap_holds key H t" and a: "a \<in> set_tree t" and c: "c \<notin> set_tree t" "hnodes H c \<noteq> None" and n: "n = Suc (size t)"
  shows "\<exists>H' t'. bnd (heap_replace a c H) (\<lambda>H1. bnd (sift_down lt c n H1) (sift_up lt c n)) = Ret H' \<and>
    heap_holds key H' t' \<and> set_tree t' = insert c (set_tree t - {a})"
proof -
  note ho = h [unfolded heap_holds_def]
  from locate [OF a, of "[]"] obtain cx l r where lo: "plug cx \<langle>l, a, r\<rangle> = t" by auto
  have z: "zipped H cx \<langle>l, a, r\<rangle>" using ho zipped_plug [of H cx] lo by simp
  from heap_replace_zipped [OF z c(2)] c(1) lo obtain H3 where
    H3: "heap_replace a c H = Ret H3" "zipped H3 cx \<langle>l, c, r\<rangle>" "nelts H3 = nelts H" by auto
  have o: "ordered key l" "ordered key r" "ctx_ord key cx (set_tree l \<union> set_tree r)"
    using ho ordered_plug [of key cx "\<langle>l, a, r\<rangle>"] ctx_ord_mono [of key cx "set_tree \<langle>l, a, r\<rangle>" "set_tree l \<union> set_tree r"]
    by (auto simp: lo)
  have "size \<langle>l, c, r\<rangle> \<le> n" using n size_plug [of cx "\<langle>l, a, r\<rangle>"] lo by simp
  from sift_down_orders [OF H3(2) o this] obtain H4 cx' l' r' where
    H4: "sift_down lt c n H3 = Ret H4" "zipped H4 cx' \<langle>l', c, r'\<rangle>" "ordered key l'" "ordered key r'"
      "\<forall>x \<in> set_tree l' \<union> set_tree r'. key c \<le> key x" "ctx_ord key cx' (set_tree l' \<union> set_tree r')"
      "shape (plug cx' \<langle>l', c, r'\<rangle>) = shape (plug cx \<langle>l, c, r\<rangle>)"
      "set_tree (plug cx' \<langle>l', c, r'\<rangle>) = set_tree (plug cx \<langle>l, c, r\<rangle>)" "nelts H4 = nelts H3" by blast
  have sh: "shape (plug cx \<langle>l, c, r\<rangle>) = shape t" unfolding lo [symmetric] by (rule shape_plug) simp
  have "size (plug cx' \<langle>l', c, r'\<rangle>) = size t" using size_shape [of "plug cx' \<langle>l', c, r'\<rangle>" t] H4(7) sh by simp
  then have "length cx' < n" using size_plug [of cx' "\<langle>l', c, r'\<rangle>"] length_ctx_list [of cx'] n by simp
  from sift_up_orders [OF H4(2-6) this] obtain H5 t5 where
    H5: "sift_up lt c n H4 = Ret H5" "zipped H5 [] t5" "ordered key t5" "shape t5 = shape (plug cx' \<langle>l', c, r'\<rangle>)"
      "set_tree t5 = set_tree (plug cx' \<langle>l', c, r'\<rangle>)" "nelts H5 = nelts H4" by blast
  have s5: "shape t5 = shape t" using H5(4) H4(7) sh by simp
  have run: "bnd (heap_replace a c H) (\<lambda>H1. bnd (sift_down lt c n H1) (sift_up lt c n)) = Ret H5"
    using H3(1) H4(1) H5(1) by simp
  have "filled (size t5) t5" using size_shape [OF s5] filled_shape [OF s5] ho by metis
  then have "heap_holds key H5 t5"
    using H5(2,3,6) H4(9) H3(3) size_shape [OF s5] ho by (simp add: heap_holds_def)
  moreover have "a \<notin> set_tree l \<union> set_tree r \<union> set (ctx_list cx)" using z by (auto simp: zipped_def)
  then have "set_tree t5 = insert c (set_tree t - {a})" unfolding H5(5) H4(8) lo [symmetric] by (auto simp: set_plug)
  ultimately show ?thesis using run by blast
qed

lemma heap_remove_holds:
  assumes h: "heap_holds key H t" and a: "a \<in> set_tree t"
  shows "\<exists>H' t'. heap_remove lt (Some a) H = Ret H' \<and> heap_holds key H' t' \<and> set_tree t' = set_tree t - {a}"
proof -
  have "t \<noteq> \<langle>\<rangle>" using a by auto
  from unlink_last [OF h this] obtain path k ctx c H2 t2 where
    p: "heap_path 0 0 (unat (nelts H)) = (path, k)" "follow path k Root Root H = Ret (slot_of (tl ctx), slot_of ctx)"
      "deref (slot_of ctx) (H\<lparr>nelts := nelts H - 1\<rparr>) = Ret (Some c)"
      "assign (slot_of ctx) None (H\<lparr>nelts := nelts H - 1\<rparr>) = Ret H2"
    and h2: "heap_holds key H2 t2" and c: "set_tree t = insert c (set_tree t2)" "c \<notin> set_tree t2" "hnodes H2 c \<noteq> None"
    and n: "unat (nelts H) = Suc (size t2)" .
  have nz: "nelts H \<noteq> 0" using n by auto
  show ?thesis
  proof (cases "c = a")
    case True
    have "hmin H2 = root_of t2" using h2 by (simp add: heap_holds_def zipped_def)
    then have "hmin H2 \<noteq> Some c" using c(2) by (cases t2) auto
    then have "heap_remove lt (Some a) H = Ret H2" using nz p True by (simp add: heap_remove_def Let_def)
    then show ?thesis using h2 c True by auto
  next
    case False
    from move_into [OF h2 _ c(2,3) n, of a] a c(1) False obtain H' t' where
      m: "bnd (heap_replace a c H2) (\<lambda>H1. bnd (sift_down lt c (unat (nelts H)) H1) (sift_up lt c (unat (nelts H)))) = Ret H'"
        "heap_holds key H' t'" "set_tree t' = insert c (set_tree t2 - {a})" by auto
    have "heap_remove lt (Some a) H = Ret H'" using nz p False m(1) by (simp add: heap_remove_def Let_def)
    moreover have "set_tree t' = set_tree t - {a}" unfolding m(3) c(1) using False by blast
    ultimately show ?thesis using m(2) by blast
  qed
qed

lemma heap_min_holds:
  assumes "heap_holds key H t"
  shows "heap_min H = None \<longleftrightarrow> t = \<langle>\<rangle>" "heap_min H = Some a \<Longrightarrow> a \<in> set_tree t \<and> (\<forall>x \<in> set_tree t. key a \<le> key x)"
proof -
  have m: "heap_min H = root_of t" and o: "ordered key t" using assms by (simp_all add: heap_holds_def zipped_def heap_min_def)
  show "heap_min H = None \<longleftrightarrow> t = \<langle>\<rangle>" using m by (cases t) auto
  show "heap_min H = Some a \<Longrightarrow> a \<in> set_tree t \<and> (\<forall>x \<in> set_tree t. key a \<le> key x)"
    using m o by (cases t) auto
qed

end

end
