(* ===== verification/Uv_Close.thy ===== *)
theory Uv_Close
  imports Uv_Core
begin

text \<open>
  Signal handles (unix/signal.c), async handles (unix/async.c), timers (timer.c), closing
  (uv_close and uv__run_closing_handles of unix/core.c), the walk over all handles, and the life of
  the loop itself (unix/loop.c and uv-common.c). Signals are masked and locked around the tree of
  handles in the C code, which no definition here needs: a signal arrives between two operations.
\<close>

section \<open>Signal handles\<close>

text \<open>The order of the tree, on one loop: the signal, then one-shot handles last, then the address.\<close>

definition uv__signal_compare :: "nat \<Rightarrow> 'cb uv_handle \<Rightarrow> nat \<Rightarrow> 'cb uv_handle \<Rightarrow> int" where
  "uv__signal_compare a x b y =
     (if signum x < signum y then -1 else if signum x > signum y then 1
      else let f1 = h_flags x AND UV_SIGNAL_ONE_SHOT; f2 = h_flags y AND UV_SIGNAL_ONE_SHOT in
        if f1 < f2 then -1 else if f1 > f2 then 1
        else if a < b then -1 else if a > b then 1 else 0)"

fun tree_insert :: "(nat \<rightharpoonup> 'cb uv_handle) \<Rightarrow> nat \<Rightarrow> 'cb uv_handle \<Rightarrow> nat list \<Rightarrow> nat list run" where
  "tree_insert hs a x [] = Ret [a]"
| "tree_insert hs a x (b # bs) = (case hs b of None \<Rightarrow> Undef
    | Some y \<Rightarrow> if uv__signal_compare a x b y < 0 then Ret (a # b # bs)
        else if uv__signal_compare a x b y = 0 then Ret (b # bs)
        else bnd (tree_insert hs a x bs) (\<lambda>cs. Ret (b # cs)))"

text \<open>The lookup key has no flags and no loop, so it precedes every handle of its signal.\<close>

fun tree_nfind :: "(nat \<rightharpoonup> 'cb uv_handle) \<Rightarrow> int \<Rightarrow> nat list \<Rightarrow> nat list run" where
  "tree_nfind hs sig [] = Ret []"
| "tree_nfind hs sig (b # bs) = (case hs b of None \<Rightarrow> Undef
    | Some y \<Rightarrow> if sig \<le> signum y then Ret (b # bs) else tree_nfind hs sig bs)"

definition uv__signal_first_handle :: "int \<Rightarrow> ('cb, 'm) uv_loop_scheme \<Rightarrow> 'cb uv_handle option run" where
  "uv__signal_first_handle sig s = bnd (tree_nfind (handles s) sig (signal_tree s)) (\<lambda>bs.
     case bs of [] \<Rightarrow> Ret None
     | b # _ \<Rightarrow> with_handle b (\<lambda>y s. Ret (if signum y = sig then Some y else None)) s)"

definition uv__signal_register_handler :: "kernel \<Rightarrow> int \<Rightarrow> bool \<Rightarrow> ('cb, 'm) uv_loop_scheme \<Rightarrow> int \<times> ('cb, 'm) uv_loop_scheme" where
  "uv__signal_register_handler k sig oneshot s =
     (let (r, s1) = uv_sys k (Sigaction sig True oneshot) s in
      (if rv r \<noteq> 0 then - int (errno r) else 0, s1))"

definition uv__signal_unregister_handler :: "kernel \<Rightarrow> int \<Rightarrow> ('cb, 'm) loop_op" where
  "uv__signal_unregister_handler k sig s =
     (let (r, s1) = uv_sys k (Sigaction sig False False) s in if rv r \<noteq> 0 then Abort else Ret s1)"

text \<open>The system's handler after the handle \<open>x\<close> has left the tree: none when nobody is left for the
  signal, a one-shot one when only one-shot handles are.\<close>

definition signal_rehook :: "kernel \<Rightarrow> 'cb uv_handle \<Rightarrow> 'cb uv_handle option \<Rightarrow> ('cb, 'm) loop_op" where
  "signal_rehook k x first s = (case first of
      None \<Rightarrow> uv__signal_unregister_handler k (signum x) s
    | Some y \<Rightarrow>
        if has (h_flags y) UV_SIGNAL_ONE_SHOT \<and> \<not> has (h_flags x) UV_SIGNAL_ONE_SHOT then
          let (ret, s1) = uv__signal_register_handler k (signum x) True s in require (ret = 0) (Ret s1)
        else Ret s)"

definition uv__signal_stop :: "kernel \<Rightarrow> nat \<Rightarrow> ('cb, 'm) loop_op" where
  "uv__signal_stop k h = with_handle h (\<lambda>x s.
     if signum x = 0 then Ret s
     else require (h \<in> set (signal_tree s))
      (let s1 = s\<lparr>signal_tree := removeAll h (signal_tree s)\<rparr> in
       bnd (uv__signal_first_handle (signum x) s1) (\<lambda>first.
       bnd (signal_rehook k x first s1) (\<lambda>s2.
       uv__handle_stop h (set_handle h (x\<lparr>signum := 0\<rparr>) s2)))))"

definition uv_signal_stop :: "kernel \<Rightarrow> nat \<Rightarrow> ('cb, 'm) loop_op" where
  "uv_signal_stop k h = with_handle h (\<lambda>x s. require (\<not> uv__is_closing x) (uv__signal_stop k h s))"

text \<open>The pipe of the signals is made once per loop; its two descriptors come back in memory.\<close>

definition uv__make_pipe :: "kernel \<Rightarrow> ('cb, 'm) uv_loop_scheme \<Rightarrow> int \<times> ('cb, 'm) uv_loop_scheme" where
  "uv__make_pipe k s =
     (let (r, s1) = uv_sys k Pipe s in
      if rv r \<noteq> 0 then (- int (errno r), s1)
      else (0, s1\<lparr>signal_pipefd := (signed32 (le (take 4 (bytes r))), signed32 (le (take 4 (drop 4 (bytes r)))))\<rparr>))"

definition uv__signal_loop_once_init :: "kernel \<Rightarrow> ('cb, 'm) uv_loop_scheme \<Rightarrow> (int \<times> ('cb, 'm) uv_loop_scheme) run" where
  "uv__signal_loop_once_init k s =
     (if fst (signal_pipefd s) \<noteq> -1 then Ret (0, s)
      else let (err, s1) = uv__make_pipe k s in
        if err \<noteq> 0 then Ret (err, s1)
        else bnd (uv__io_init Signal_watcher uv__signal_event (fst (signal_pipefd s1)) s1) (\<lambda>s2.
          bnd (uv__io_start Signal_watcher POLLIN s2) (\<lambda>s3. Ret (0, s3))))"

definition uv_signal_init :: "kernel \<Rightarrow> nat \<Rightarrow> ('cb, 'm) uv_loop_scheme \<Rightarrow> (int \<times> ('cb, 'm) uv_loop_scheme) run" where
  "uv_signal_init k h s = bnd (uv__signal_loop_once_init k s) (\<lambda>(err, s1).
     if err \<noteq> 0 then Ret (err, s1)
     else bnd (uv__handle_init h UV_SIGNAL s1) (with_handle h (\<lambda>x s.
       Ret (0, set_handle h (x\<lparr>signum := 0, caught_signals := 0, dispatched_signals := 0\<rparr>) s))))"

definition uv__signal_start :: "kernel \<Rightarrow> nat \<Rightarrow> 'cb option \<Rightarrow> int \<Rightarrow> bool \<Rightarrow> ('cb, 'm) uv_loop_scheme \<Rightarrow> (int \<times> ('cb, 'm) uv_loop_scheme) run" where
  "uv__signal_start k h signal_cb sig oneshot = with_handle h (\<lambda>x s.
     require (\<not> uv__is_closing x)
      (if sig = 0 then Ret (UV_EINVAL, s)
       else if sig = signum x then Ret (0, set_handle h (x\<lparr>h_cb := signal_cb\<rparr>) s)
       else bnd (if signum x \<noteq> 0 then uv__signal_stop k h s else Ret s) (\<lambda>s1.
         bnd (uv__signal_first_handle sig s1) (\<lambda>first.
         let (err, s2) = (if first = None \<or> (\<not> oneshot \<and> has (h_flags (the first)) UV_SIGNAL_ONE_SHOT)
                          then uv__signal_register_handler k sig oneshot s1 else (0, s1)) in
         if err \<noteq> 0 then Ret (err, s2)
         else with_handle h (\<lambda>x s.
           let x1 = x\<lparr>signum := sig,
                      h_flags := if oneshot then h_flags x OR UV_SIGNAL_ONE_SHOT else h_flags x\<rparr> in
           bnd (tree_insert (handles s) h x1 (signal_tree s)) (\<lambda>tree.
           bnd (uv__handle_start h (set_handle h (x1\<lparr>h_cb := signal_cb\<rparr>) (s\<lparr>signal_tree := tree\<rparr>))) (\<lambda>s3.
           Ret (0, s3)))) s2))))"

definition uv_signal_start :: "kernel \<Rightarrow> nat \<Rightarrow> 'cb option \<Rightarrow> int \<Rightarrow> ('cb, 'm) uv_loop_scheme \<Rightarrow> (int \<times> ('cb, 'm) uv_loop_scheme) run" where
  "uv_signal_start k h signal_cb sig = uv__signal_start k h signal_cb sig False"

text \<open>A signal arrives: the handler writes a message to the pipe for each handle of the signal. A
  message that does not fit the pipe is lost.\<close>

definition SIGNAL_PIPE_CAPACITY :: nat where
  "SIGNAL_PIPE_CAPACITY = 4096"

fun signal_messages :: "int \<Rightarrow> nat list \<Rightarrow> ('cb, 'm) loop_op" where
  "signal_messages sig [] s = Ret s"
| "signal_messages sig (h # hs) s = with_handle h (\<lambda>x s.
     if signum x \<noteq> sig then Ret s
     else signal_messages sig hs
       (if length (signal_pipe s) < SIGNAL_PIPE_CAPACITY then
          set_handle h (x\<lparr>caught_signals := caught_signals x + 1\<rparr>)
            (s\<lparr>signal_pipe := signal_pipe s @ [(h, sig)]\<rparr>)
        else s)) s"

definition uv__signal_handler :: "int \<Rightarrow> ('cb, 'm) loop_op" where
  "uv__signal_handler sig s =
     bnd (tree_nfind (handles s) sig (signal_tree s)) (\<lambda>bs. signal_messages sig bs s)"

section \<open>Async handles\<close>

definition uv__async_start :: "kernel \<Rightarrow> ('cb, 'm) uv_loop_scheme \<Rightarrow> (int \<times> ('cb, 'm) uv_loop_scheme) run" where
  "uv__async_start k = with_io Async_watcher (\<lambda>i s.
     if w_fd i \<noteq> -1 then Ret (0, s)
     else let (r, s1) = uv_sys k Eventfd s in
       if rv r < 0 then Ret (- int (errno r), s1)
       else bnd (uv__io_init Async_watcher uv__async_io (rv r) s1) (\<lambda>s2.
         bnd (uv__io_start Async_watcher POLLIN s2) (\<lambda>s3. Ret (0, s3))))"

definition uv_async_init :: "kernel \<Rightarrow> nat \<Rightarrow> 'cb option \<Rightarrow> ('cb, 'm) uv_loop_scheme \<Rightarrow> (int \<times> ('cb, 'm) uv_loop_scheme) run" where
  "uv_async_init k h cb s = bnd (uv__async_start k s) (\<lambda>(err, s1).
     if err \<noteq> 0 then Ret (err, s1)
     else bnd (uv__handle_init h UV_ASYNC s1) (with_handle h (\<lambda>x s.
       bnd (uv__handle_start h (set_handle h (x\<lparr>h_cb := cb, pending := False, u_fd := 0\<rparr>)
         (s\<lparr>async_handles := async_handles s @ [h]\<rparr>))) (\<lambda>s2. Ret (0, s2)))))"

text \<open>The busy flag of an async handle is raised by other threads only; waiting for it to fall
  never ends when nothing runs beside the loop.\<close>

definition uv__async_spin :: "nat \<Rightarrow> ('cb, 'm) loop_op" where
  "uv__async_spin h = with_handle h (\<lambda>x s.
     if u_fd x = 0 then Ret (set_handle h (x\<lparr>pending := True\<rparr>) s) else NoFuel)"

definition uv__async_close :: "nat \<Rightarrow> ('cb, 'm) loop_op" where
  "uv__async_close h s = bnd (uv__async_spin h s) (\<lambda>s1.
     uv__handle_stop h (s1\<lparr>async_handles := removeAll h (async_handles s1),
       async_batch := removeAll h (async_batch s1)\<rparr>))"

section \<open>Timers\<close>

text \<open>uv__hrtime counts nanoseconds, the loop milliseconds.\<close>

definition uv__update_time :: "kernel \<Rightarrow> ('cb, 'm) uv_loop_scheme \<Rightarrow> ('cb, 'm) uv_loop_scheme" where
  "uv__update_time k s = (let (r, s1) = uv_sys k Clock s in s1\<lparr>time := word_of_int (rv r) div 1000000\<rparr>)"

definition timer_less_than :: "'cb uv_handle \<Rightarrow> 'cb uv_handle \<Rightarrow> bool" where
  "timer_less_than a b =
     (if timeout a < timeout b then True else if timeout b < timeout a then False
      else start_id a < start_id b)"

fun timer_insert :: "(nat \<rightharpoonup> 'cb uv_handle) \<Rightarrow> nat \<Rightarrow> 'cb uv_handle \<Rightarrow> nat list \<Rightarrow> nat list run" where
  "timer_insert hs a x [] = Ret [a]"
| "timer_insert hs a x (b # bs) = (case hs b of None \<Rightarrow> Undef
    | Some y \<Rightarrow> if timer_less_than x y then Ret (a # b # bs)
        else bnd (timer_insert hs a x bs) (\<lambda>cs. Ret (b # cs)))"

definition uv_timer_init :: "nat \<Rightarrow> ('cb, 'm) loop_op" where
  "uv_timer_init h s = bnd (uv__handle_init h UV_TIMER s) (with_handle h (\<lambda>x s.
     Ret (set_handle h (x\<lparr>h_cb := None, timeout := 0, repeat := 0\<rparr>) s)))"

definition uv_timer_stop :: "nat \<Rightarrow> ('cb, 'm) loop_op" where
  "uv_timer_stop h = with_handle h (\<lambda>x s.
     if \<not> uv__is_active x then Ret s
     else uv__handle_stop h (s\<lparr>timers := removeAll h (timers s)\<rparr>))"

definition uv_timer_start :: "nat \<Rightarrow> 'cb option \<Rightarrow> 64 word \<Rightarrow> 64 word \<Rightarrow> ('cb, 'm) uv_loop_scheme \<Rightarrow> (int \<times> ('cb, 'm) uv_loop_scheme) run" where
  "uv_timer_start h cb tmo rep = with_handle h (\<lambda>x s.
     if uv__is_closing x \<or> cb = None then Ret (UV_EINVAL, s)
     else bnd (if uv__is_active x then uv_timer_stop h s else Ret s) (with_handle h (\<lambda>x s.
       let clamped_timeout = (if time s + tmo < tmo then -1 else time s + tmo);
           x1 = x\<lparr>h_cb := cb, timeout := clamped_timeout, repeat := rep, start_id := timer_counter s\<rparr> in
       bnd (timer_insert (handles s) h x1 (timers s)) (\<lambda>heap.
       bnd (uv__handle_start h (set_handle h x1 (s\<lparr>timer_counter := timer_counter s + 1, timers := heap\<rparr>)))
         (\<lambda>s2. Ret (0, s2))))))"

definition uv_timer_again :: "nat \<Rightarrow> ('cb, 'm) uv_loop_scheme \<Rightarrow> (int \<times> ('cb, 'm) uv_loop_scheme) run" where
  "uv_timer_again h = with_handle h (\<lambda>x s.
     if h_cb x = None then Ret (UV_EINVAL, s)
     else if repeat x \<noteq> 0 then
       bnd (uv_timer_stop h s) (\<lambda>s1. bnd (uv_timer_start h (h_cb x) (repeat x) (repeat x) s1)
         (\<lambda>(_, s2). Ret (0, s2)))
     else Ret (0, s))"

definition uv_timer_set_repeat :: "nat \<Rightarrow> 64 word \<Rightarrow> ('cb, 'm) loop_op" where
  "uv_timer_set_repeat h rep = with_handle h (\<lambda>x s. Ret (set_handle h (x\<lparr>repeat := rep\<rparr>) s))"

definition uv_timer_get_repeat :: "'cb uv_handle \<Rightarrow> 64 word" where
  "uv_timer_get_repeat x = repeat x"

definition uv__timer_close :: "nat \<Rightarrow> ('cb, 'm) loop_op" where
  "uv__timer_close h = uv_timer_stop h"

definition uv_timer_get_due_in :: "'cb uv_handle \<Rightarrow> ('cb, 'm) uv_loop_scheme \<Rightarrow> 64 word" where
  "uv_timer_get_due_in x s = (if timeout x \<le> time s then 0 else timeout x - time s)"

text \<open>The result is an int; -1 stands for no limit.\<close>

definition uv__next_timeout :: "('cb, 'm) uv_loop_scheme \<Rightarrow> int run" where
  "uv__next_timeout s = (case timers s of [] \<Rightarrow> Ret (-1)
    | h # _ \<Rightarrow> with_handle h (\<lambda>x s.
        if timeout x \<le> time s then Ret 0
        else Ret (min (uint (timeout x - time s)) (2 ^ 31 - 1))) s)"

section \<open>Closing\<close>

definition uv__make_close_pending :: "nat \<Rightarrow> ('cb, 'm) loop_op" where
  "uv__make_close_pending h = with_handle h (\<lambda>x s.
     require (has (h_flags x) UV_HANDLE_CLOSING \<and> \<not> has (h_flags x) UV_HANDLE_CLOSED)
       (Ret (s\<lparr>closing_handles := h # closing_handles s\<rparr>)))"

definition close_by_type :: "kernel \<Rightarrow> uv_handle_type \<Rightarrow> nat \<Rightarrow> ('cb, 'm) loop_op" where
  "close_by_type k t h = (case t of
      UV_PREPARE \<Rightarrow> uv_watcher_stop Prepare h
    | UV_CHECK \<Rightarrow> uv_watcher_stop Check h
    | UV_IDLE \<Rightarrow> uv_watcher_stop Idle h
    | UV_ASYNC \<Rightarrow> uv__async_close h
    | UV_TIMER \<Rightarrow> uv__timer_close h
    | UV_POLL \<Rightarrow> uv__poll_stop k h
    | UV_SIGNAL \<Rightarrow> uv__signal_stop k h)"

definition uv_close :: "kernel \<Rightarrow> nat \<Rightarrow> 'cb option \<Rightarrow> ('cb, 'm) loop_op" where
  "uv_close k h cb = with_handle h (\<lambda>x s. require (\<not> uv__is_closing x)
     (bnd (close_by_type k (h_type x) h
            (set_handle h (x\<lparr>h_flags := h_flags x OR UV_HANDLE_CLOSING, close_cb := cb\<rparr>) s))
       (uv__make_close_pending h)))"

text \<open>A callback is called with the handle and two numbers (a status, events or a signal).\<close>

type_synonym ('cb, 'm) dispatcher = "'cb \<Rightarrow> nat \<Rightarrow> int \<Rightarrow> int \<Rightarrow> ('cb, 'm) loop_op"

definition uv__finish_close :: "('cb, 'm) dispatcher \<Rightarrow> nat \<Rightarrow> ('cb, 'm) loop_op" where
  "uv__finish_close call h = with_handle h (\<lambda>x s.
     require (has (h_flags x) UV_HANDLE_CLOSING \<and> \<not> has (h_flags x) UV_HANDLE_CLOSED)
      (let x1 = x\<lparr>h_flags := h_flags x OR UV_HANDLE_CLOSED\<rparr>; s1 = set_handle h x1 s in
       if h_type x = UV_SIGNAL \<and> caught_signals x > dispatched_signals x then
         uv__make_close_pending h (set_handle h (x1\<lparr>h_flags := h_flags x1 XOR UV_HANDLE_CLOSED\<rparr>) s1)
       else bnd (uv__handle_unref h s1) (\<lambda>s2.
         let s3 = s2\<lparr>handle_queue := removeAll h (handle_queue s2), walk_queue := removeAll h (walk_queue s2)\<rparr> in
         case close_cb x of None \<Rightarrow> Ret s3 | Some cb \<Rightarrow> call cb h 0 0 s3)))"

fun finish_all :: "('cb, 'm) dispatcher \<Rightarrow> nat list \<Rightarrow> ('cb, 'm) loop_op" where
  "finish_all call [] s = Ret s"
| "finish_all call (h # hs) s = bnd (uv__finish_close call h s) (finish_all call hs)"

definition uv__run_closing_handles :: "('cb, 'm) dispatcher \<Rightarrow> ('cb, 'm) loop_op" where
  "uv__run_closing_handles call s = finish_all call (closing_handles s) (s\<lparr>closing_handles := []\<rparr>)"

section \<open>The walk over the handles\<close>

fun walk_loop :: "(nat \<Rightarrow> ('cb, 'm) loop_op) \<Rightarrow> nat \<Rightarrow> ('cb, 'm) loop_op" where
  "walk_loop visit 0 s = NoFuel"
| "walk_loop visit (Suc fuel) s = (case walk_queue s of [] \<Rightarrow> Ret s
    | h # hs \<Rightarrow> with_handle h (\<lambda>x s.
        let s1 = s\<lparr>walk_queue := hs, handle_queue := handle_queue s @ [h]\<rparr> in
        if has (h_flags x) UV_HANDLE_INTERNAL then walk_loop visit fuel s1
        else bnd (visit h s1) (walk_loop visit fuel)) s)"

definition uv_walk :: "(nat \<Rightarrow> ('cb, 'm) loop_op) \<Rightarrow> ('cb, 'm) loop_op" where
  "uv_walk visit s = walk_loop visit (Suc (length (handle_queue s)))
     (s\<lparr>walk_queue := handle_queue s, handle_queue := []\<rparr>)"

section \<open>The life of the loop\<close>

definition set_flag :: "nat \<Rightarrow> flags \<Rightarrow> ('cb, 'm) loop_op" where
  "set_flag h f = with_handle h (\<lambda>x s. Ret (set_handle h (x\<lparr>h_flags := h_flags x OR f\<rparr>) s))"

text \<open>The two handles inside the loop. \<open>wq_cb\<close> and \<open>chld_cb\<close> name uv__work_done and uv__chld.\<close>

definition child_watcher :: nat where "child_watcher = 0"
definition wq_async :: nat where "wq_async = 1"

definition uv__process_init :: "kernel \<Rightarrow> ('cb, 'm) uv_loop_scheme \<Rightarrow> (int \<times> ('cb, 'm) uv_loop_scheme) run" where
  "uv__process_init k s = bnd (uv_signal_init k child_watcher s) (\<lambda>(err, s1).
     if err \<noteq> 0 then Ret (err, s1)
     else bnd (uv__handle_unref child_watcher s1) (\<lambda>s2.
       bnd (set_flag child_watcher UV_HANDLE_INTERNAL s2) (\<lambda>s3. Ret (0, s3))))"

definition uv__close :: "kernel \<Rightarrow> int \<Rightarrow> ('cb, 'm) loop_op" where
  "uv__close k fd s = require (2 < fd) (Ret (snd (uv_sys k (Close fd) s)))"

definition close_if :: "kernel \<Rightarrow> int \<Rightarrow> ('cb, 'm) loop_op" where
  "close_if k fd s = (if fd \<noteq> -1 then uv__close k fd s else Ret s)"

fun stop_signals :: "kernel \<Rightarrow> nat list \<Rightarrow> ('cb, 'm) loop_op" where
  "stop_signals k [] s = Ret s"
| "stop_signals k (h # hs) s = with_handle h (\<lambda>x s.
     bnd (if h_type x = UV_SIGNAL then uv__signal_stop k h s else Ret s) (stop_signals k hs)) s"

definition uv__signal_loop_cleanup :: "kernel \<Rightarrow> ('cb, 'm) loop_op" where
  "uv__signal_loop_cleanup k s = bnd (stop_signals k (handle_queue s) s) (\<lambda>s1.
     bnd (close_if k (fst (signal_pipefd s1)) s1) (\<lambda>s2.
     bnd (close_if k (snd (signal_pipefd s2)) s2) (\<lambda>s3. Ret (s3\<lparr>signal_pipefd := (-1, -1)\<rparr>))))"

definition zero_loop :: "('cb, 'm) uv_loop_scheme \<Rightarrow> ('cb, 'm) uv_loop_scheme" where
  "zero_loop s = s\<lparr>
     handles := (handles s)(child_watcher \<mapsto> raw_handle, wq_async \<mapsto> raw_handle),
     ios := (ios s)(Async_watcher \<mapsto> \<lparr>w_cb = uv__async_io, w_fd = -1, w_events = 0, w_pevents = 0\<rparr>,
                    Signal_watcher \<mapsto> \<lparr>w_cb = uv__signal_event, w_fd = 0, w_events = 0, w_pevents = 0\<rparr>),
     handle_queue := [], walk_queue := [], watcher_handles := (\<lambda>_. []), watcher_batch := (\<lambda>_. []),
     async_handles := [], async_batch := [], pending_queue := [], pending_batch := [], watcher_queue := [],
     closing_handles := [], watchers := [], nfds := 0, active_handles := 0, active_reqs := 0,
     stop_flag := False, backend_fd := -1, signal_pipefd := (-1, -1), signal_tree := [], signal_pipe := [],
     in_flight := [], time := 0, timer_counter := 0, timers := []\<rparr>"

abbreviation (input) UV_ENOMEM :: int where "UV_ENOMEM \<equiv> -12"

text \<open>The mutexes and the lock of the loop are not modelled: nothing else runs.\<close>

definition uv_loop_init :: "kernel \<Rightarrow> 'cb option \<Rightarrow> ('cb, 'm) uv_loop_scheme \<Rightarrow> (int \<times> ('cb, 'm) uv_loop_scheme) run" where
  "uv_loop_init k wq_cb s =
     (let (ok, m) = alloc (mem s) in
      if \<not> ok then Ret (UV_ENOMEM, s\<lparr>mem := m\<rparr>)
      else let s1 = uv__update_time k (zero_loop (s\<lparr>mem := m\<rparr>));
               (r, s2) = uv_sys k Epoll_create s1; s3 = s2\<lparr>backend_fd := rv r\<rparr>;
               fail = (\<lambda>s. let m = dealloc (mem s) in
                 s\<lparr>mem := if watchers s = [] then m else dealloc m, watchers := []\<rparr>) in
        if rv r = -1 then Ret (- int (errno r), fail s3)
        else bnd (uv__process_init k s3) (\<lambda>(err, s4).
          if err \<noteq> 0 then Ret (err, fail s4)
          else bnd (uv_async_init k wq_async wq_cb s4) (\<lambda>(err, s5).
            if err \<noteq> 0 then bnd (uv__signal_loop_cleanup k s5) (\<lambda>s6. Ret (err, fail s6))
            else bnd (uv__handle_unref wq_async s5) (\<lambda>s6.
              bnd (set_flag wq_async UV_HANDLE_INTERNAL s6) (\<lambda>s7. Ret (0, s7))))))"

definition uv_loop_new :: "kernel \<Rightarrow> 'cb option \<Rightarrow> ('cb, 'm) uv_loop_scheme \<Rightarrow> (bool \<times> ('cb, 'm) uv_loop_scheme) run" where
  "uv_loop_new k wq_cb s =
     (let (ok, m) = alloc (mem s); s1 = s\<lparr>mem := m\<rparr> in
      if \<not> ok then Ret (False, s1)
      else bnd (uv_loop_init k wq_cb s1) (\<lambda>(err, s2).
        Ret (if err \<noteq> 0 then (False, s2\<lparr>mem := dealloc (mem s2)\<rparr>) else (True, s2))))"

fun spin_all :: "nat list \<Rightarrow> ('cb, 'm) loop_op" where
  "spin_all [] s = Ret s"
| "spin_all (h # hs) s = bnd (uv__async_spin h s) (spin_all hs)"

definition uv__async_stop :: "kernel \<Rightarrow> ('cb, 'm) loop_op" where
  "uv__async_stop k = with_io Async_watcher (\<lambda>i s.
     if w_fd i = -1 then Ret s
     else bnd (spin_all (async_handles s) s) (\<lambda>s1.
       bnd (uv__io_stop Async_watcher POLLIN s1) (\<lambda>s2.
       bnd (uv__close k (w_fd i) s2) (with_io Async_watcher (\<lambda>i s.
         Ret (set_io Async_watcher (i\<lparr>w_fd := -1\<rparr>) s))))))"

text \<open>In the child of a fork the flags of every async handle are cleared and the eventfd is made anew.\<close>

fun clear_all :: "nat list \<Rightarrow> ('cb, 'm) loop_op" where
  "clear_all [] s = Ret s"
| "clear_all (h # hs) s = bnd (with_handle h (\<lambda>x s. Ret (set_handle h (x\<lparr>pending := False, u_fd := 0\<rparr>) s)) s) (clear_all hs)"

definition uv__async_fork :: "kernel \<Rightarrow> ('cb, 'm) uv_loop_scheme \<Rightarrow> (int \<times> ('cb, 'm) uv_loop_scheme) run" where
  "uv__async_fork k = with_io Async_watcher (\<lambda>i s.
     if w_fd i = -1 then Ret (0, s)
     else bnd (clear_all (async_handles s) s) (\<lambda>s1.
       bnd (uv__io_stop Async_watcher POLLIN s1) (\<lambda>s2.
       bnd (uv__close k (w_fd i) s2) (with_io Async_watcher (\<lambda>i s.
         uv__async_start k (set_io Async_watcher (i\<lparr>w_fd := -1\<rparr>) s))))))"

definition uv__loop_close :: "kernel \<Rightarrow> ('cb, 'm) loop_op" where
  "uv__loop_close k s =
     bnd (uv__signal_loop_cleanup k s) (\<lambda>s1.
     bnd (uv__async_stop k s1) (\<lambda>s2.
     bnd (close_if k (backend_fd s2) s2) (\<lambda>s3.
     require (\<not> uv__has_active_reqs s3)
       (let m = dealloc (mem s3) in
        Ret (s3\<lparr>backend_fd := -1, mem := if watchers s3 = [] then m else dealloc m, watchers := []\<rparr>)))))"

definition is_internal :: "nat \<Rightarrow> ('cb, 'm) uv_loop_scheme \<Rightarrow> bool run" where
  "is_internal h = with_handle h (\<lambda>x s. Ret (has (h_flags x) UV_HANDLE_INTERNAL))"

fun all_internal :: "nat list \<Rightarrow> ('cb, 'm) uv_loop_scheme \<Rightarrow> bool run" where
  "all_internal [] s = Ret True"
| "all_internal (h # hs) s = bnd (is_internal h s) (\<lambda>b. if b then all_internal hs s else Ret False)"

definition uv_loop_close :: "kernel \<Rightarrow> ('cb, 'm) uv_loop_scheme \<Rightarrow> (int \<times> ('cb, 'm) uv_loop_scheme) run" where
  "uv_loop_close k s =
     (if uv__has_active_reqs s then Ret (UV_EBUSY, s)
      else bnd (all_internal (handle_queue s) s) (\<lambda>ok.
        if \<not> ok then Ret (UV_EBUSY, s) else bnd (uv__loop_close k s) (\<lambda>s1. Ret (0, s1))))"

end
