(* ===== verification/Uv_Run.thy ===== *)
theory Uv_Run
  imports Uv_Close
begin

text \<open>
  The event loop: uv_run of unix/core.c, uv__io_poll of unix/linux.c, and the functions that call
  back from it. \<open>arrives\<close> gives the signals the process receives while epoll_wait, the newest call
  of a history, is under way. Loops that the C code does not bound take fuel.
\<close>

section \<open>Callbacks of the watchers\<close>

text \<open>Calling a null pointer is undefined.\<close>

definition call_back :: "('cb, 'm) dispatcher \<Rightarrow> 'cb option \<Rightarrow> nat \<Rightarrow> int \<Rightarrow> int \<Rightarrow> ('cb, 'm) loop_op" where
  "call_back call cb h a b s = (case cb of None \<Rightarrow> Undef | Some c \<Rightarrow> call c h a b s)"

definition pevents_of :: "flags \<Rightarrow> flags" where
  "pevents_of events =
     (if has events POLLIN then UV_READABLE else 0) OR (if has events POLLPRI then UV_PRIORITIZED else 0) OR
     (if has events POLLOUT then UV_WRITABLE else 0) OR (if has events POLLRDHUP then UV_DISCONNECT else 0)"

definition poll_io :: "('cb, 'm) dispatcher \<Rightarrow> nat \<Rightarrow> flags \<Rightarrow> ('cb, 'm) loop_op" where
  "poll_io call h events s =
     (if has events POLLERR \<and> \<not> has events POLLPRI then
        bnd (uv__io_stop (Io h) POLL_ALL s) (\<lambda>s1.
        bnd (uv__handle_stop h s1) (with_handle h (\<lambda>x. call_back call (h_cb x) h UV_EBADF 0)))
      else with_handle h (\<lambda>x. call_back call (h_cb x) h 0 (uint (pevents_of events))) s)"

fun signal_msgs :: "kernel \<Rightarrow> ('cb, 'm) dispatcher \<Rightarrow> (nat \<times> int) list \<Rightarrow> ('cb, 'm) loop_op" where
  "signal_msgs k call [] s = Ret s"
| "signal_msgs k call ((h, sig) # ms) s = with_handle h (\<lambda>x s.
     bnd (if sig = signum x then
            require (\<not> has (h_flags x) UV_HANDLE_CLOSING) (call_back call (h_cb x) h (signum x) 0 s)
          else Ret s)
      (with_handle h (\<lambda>x s.
        let s1 = set_handle h (x\<lparr>dispatched_signals := dispatched_signals x + 1\<rparr>) s in
        bnd (if has (h_flags x) UV_SIGNAL_ONE_SHOT then uv__signal_stop k h s1 else Ret s1)
          (signal_msgs k call ms)))) s"

text \<open>The pipe is read 32 messages at a time, until a read is not full.\<close>

fun signal_event :: "kernel \<Rightarrow> ('cb, 'm) dispatcher \<Rightarrow> nat \<Rightarrow> ('cb, 'm) loop_op" where
  "signal_event k call 0 s = NoFuel"
| "signal_event k call (Suc fuel) s =
     (let ms = take 32 (signal_pipe s) in
      bnd (signal_msgs k call ms (s\<lparr>signal_pipe := drop 32 (signal_pipe s)\<rparr>))
        (\<lambda>s1. if length ms = 32 then signal_event k call fuel s1 else Ret s1))"

fun async_drain :: "kernel \<Rightarrow> int \<Rightarrow> nat \<Rightarrow> ('cb, 'm) loop_op" where
  "async_drain k fd 0 s = NoFuel"
| "async_drain k fd (Suc fuel) s =
     (let (r, s1) = uv_sys k (Read fd 1024) s in
      if rv r = 1024 then async_drain k fd fuel s1
      else if rv r \<noteq> -1 then Ret s1
      else if errno r = EAGAIN then Ret s1
      else if errno r = EINTR then async_drain k fd fuel s1
      else Abort)"

fun async_loop :: "('cb, 'm) dispatcher \<Rightarrow> nat \<Rightarrow> ('cb, 'm) loop_op" where
  "async_loop call 0 s = NoFuel"
| "async_loop call (Suc fuel) s = (case async_batch s of [] \<Rightarrow> Ret s
    | h # hs \<Rightarrow> with_handle h (\<lambda>x s.
        let s1 = set_handle h (x\<lparr>pending := False\<rparr>)
                   (s\<lparr>async_batch := hs, async_handles := async_handles s @ [h]\<rparr>) in
        bnd (if pending x \<and> h_cb x \<noteq> None then call_back call (h_cb x) h 0 0 s1 else Ret s1)
          (async_loop call fuel)) s)"

definition async_io :: "kernel \<Rightarrow> ('cb, 'm) dispatcher \<Rightarrow> ('cb, 'm) loop_op" where
  "async_io k call = with_io Async_watcher (\<lambda>i s.
     bnd (async_drain k (w_fd i) RETRIES s) (\<lambda>s1.
     async_loop call (Suc (length (async_handles s1)))
       (s1\<lparr>async_batch := async_handles s1, async_handles := []\<rparr>)))"

definition run_io :: "kernel \<Rightarrow> ('cb, 'm) dispatcher \<Rightarrow> wid \<Rightarrow> flags \<Rightarrow> ('cb, 'm) loop_op" where
  "run_io k call w events = with_io w (\<lambda>i s. case w_cb i of
      uv__poll_io \<Rightarrow> (case w of Io h \<Rightarrow> poll_io call h events s | _ \<Rightarrow> Undef)
    | uv__async_io \<Rightarrow> require (w = Async_watcher) (async_io k call s)
    | uv__signal_event \<Rightarrow> signal_event k call (Suc (length (signal_pipe s))) s)"

section \<open>Polling\<close>

definition arm :: "kernel \<Rightarrow> wid \<Rightarrow> ('cb, 'm) loop_op" where
  "arm k w = with_io w (\<lambda>i s.
     require (w_pevents i \<noteq> 0 \<and> 0 \<le> w_fd i \<and> nat (w_fd i) < length (watchers s))
      (let op = (if w_events i = 0 then EPOLL_CTL_ADD else EPOLL_CTL_MOD);
           (r, s1) = uv_sys k (Epoll_ctl op (w_fd i) (unat (w_pevents i))) s;
           done = Ret (set_io w (i\<lparr>w_events := w_pevents i\<rparr>) s1) in
       if rv r = 0 then done
       else if errno r \<noteq> EEXIST \<or> op \<noteq> EPOLL_CTL_ADD then Abort
       else let (r2, s2) = uv_sys k (Epoll_ctl EPOLL_CTL_MOD (w_fd i) (unat (w_pevents i))) s1 in
         if rv r2 \<noteq> 0 then Abort else Ret (set_io w (i\<lparr>w_events := w_pevents i\<rparr>) s2)))"

fun arm_all :: "kernel \<Rightarrow> wid list \<Rightarrow> ('cb, 'm) loop_op" where
  "arm_all k [] s = Ret s"
| "arm_all k (w # ws) s = bnd (arm k w (s\<lparr>watcher_queue := ws\<rparr>)) (arm_all k ws)"

fun receive :: "int list \<Rightarrow> ('cb, 'm) loop_op" where
  "receive [] s = Ret s"
| "receive (sig # sigs) s = bnd (uv__signal_handler sig s) (receive sigs)"

text \<open>struct epoll_event is packed: four bytes of events and eight of data, which hold the
  descriptor.\<close>

definition epoll_events :: "reply \<Rightarrow> (flags \<times> int) list" where
  "epoll_events r = List.map (\<lambda>i. let b = drop (12 * i) (bytes r) in
     (of_nat (le (take 4 b)), signed32 (le (take 4 (drop 4 b))))) [0..<nat (rv r)]"

definition MAX_EVENTS :: nat where "MAX_EVENTS = 1024"

text \<open>One reported event: whether the signal watcher is due, whether the event counts, and the
  state after its callback. An event whose descriptor was invalidated has descriptor -1.\<close>

definition wanted :: "uv__io_t \<Rightarrow> flags \<Rightarrow> flags" where
  "wanted i e =
     (let e1 = e AND (w_pevents i OR POLLERR OR POLLHUP) in
      if e1 = POLLERR \<or> e1 = POLLHUP then e1 OR (w_pevents i AND POLL_ALL) else e1)"

definition one_poll_event :: "kernel \<Rightarrow> ('cb, 'm) dispatcher \<Rightarrow> flags \<Rightarrow> int \<Rightarrow> ('cb, 'm) uv_loop_scheme \<Rightarrow>
    (bool \<times> bool \<times> ('cb, 'm) uv_loop_scheme) run" where
  "one_poll_event k call e fd s =
     (if fd = -1 then Ret (False, False, s)
      else require (0 \<le> fd \<and> nat fd < length (watchers s))
       (case watchers s ! nat fd of
          None \<Rightarrow> Ret (False, False, snd (uv_sys k (Epoll_ctl EPOLL_CTL_DEL fd 0) s))
        | Some w \<Rightarrow> with_io w (\<lambda>i s.
            if wanted i e = 0 then Ret (False, False, s)
            else if w = Signal_watcher then Ret (True, True, s)
            else bnd (run_io k call w (wanted i e) s) (\<lambda>s1. Ret (False, True, s1))) s))"

fun poll_events_loop :: "kernel \<Rightarrow> ('cb, 'm) dispatcher \<Rightarrow> nat list \<Rightarrow> bool \<Rightarrow> nat \<Rightarrow> ('cb, 'm) uv_loop_scheme \<Rightarrow>
    (bool \<times> nat \<times> ('cb, 'm) uv_loop_scheme) run" where
  "poll_events_loop k call [] have_signals nevents s = Ret (have_signals, nevents, s)"
| "poll_events_loop k call (i # is) have_signals nevents s =
     bnd (rd (in_flight s) i) (\<lambda>(e, fd).
     bnd (one_poll_event k call e fd s) (\<lambda>(sg, counts, s1).
     poll_events_loop k call is (have_signals \<or> sg) (if counts then Suc nevents else nevents) s1))"

text \<open>What a round of epoll_wait leads to: return, or another wait with a new timeout.\<close>

datatype round = Finished | Again int int nat

definition update_timeout :: "64 word \<Rightarrow> 64 word \<Rightarrow> int \<Rightarrow> int \<Rightarrow> nat \<Rightarrow> round run" where
  "update_timeout now base tmo real_timeout count = require (0 < tmo)
     (let rt = signed32 (unat ((word_of_int real_timeout - (now - base)) AND 0xFFFFFFFF :: 64 word)) in
      Ret (if rt \<le> 0 then Finished else Again rt rt count))"

definition poll_round :: "kernel \<Rightarrow> (history \<Rightarrow> int list) \<Rightarrow> ('cb, 'm) dispatcher \<Rightarrow> 64 word \<Rightarrow> int \<Rightarrow> int \<Rightarrow> nat \<Rightarrow>
    ('cb, 'm) uv_loop_scheme \<Rightarrow> (round \<times> ('cb, 'm) uv_loop_scheme) run" where
  "poll_round k arrives call base tmo real_timeout count s =
     (let (r, s1) = uv_sys k (Epoll_wait tmo) s in
      bnd (receive (arrives (trace s1)) s1) (\<lambda>s2.
      let s3 = uv__update_time k s2 in
      if rv r = 0 then
        require (tmo \<noteq> -1)
         (if tmo = 0 then Ret (Finished, s3)
          else bnd (update_timeout (time s3) base tmo real_timeout count) (\<lambda>n. Ret (n, s3)))
      else if rv r = -1 then
        (if errno r \<noteq> EINTR then Abort
         else if tmo = -1 then Ret (Again tmo real_timeout count, s3)
         else if tmo = 0 then Ret (Finished, s3)
         else bnd (update_timeout (time s3) base tmo real_timeout count) (\<lambda>n. Ret (n, s3)))
      else
        require (watchers s3 \<noteq> [])
         (bnd (poll_events_loop k call [0..<nat (rv r)] False 0 (s3\<lparr>in_flight := epoll_events r\<rparr>))
           (\<lambda>(have_signals, nevents, s4).
          bnd (if have_signals then run_io k call Signal_watcher POLLIN s4 else Ret s4) (\<lambda>s5.
          let s6 = s5\<lparr>in_flight := []\<rparr> in
          if have_signals then Ret (Finished, s6)
          else if nevents \<noteq> 0 then
            (if nat (rv r) = MAX_EVENTS \<and> count - 1 \<noteq> 0 then Ret (Again 0 real_timeout (count - 1), s6)
             else Ret (Finished, s6))
          else if tmo = 0 then Ret (Finished, s6)
          else if tmo = -1 then Ret (Again tmo real_timeout count, s6)
          else bnd (update_timeout (time s6) base tmo real_timeout count) (\<lambda>n. Ret (n, s6)))))))"

fun poll_rounds :: "kernel \<Rightarrow> (history \<Rightarrow> int list) \<Rightarrow> ('cb, 'm) dispatcher \<Rightarrow> 64 word \<Rightarrow> nat \<Rightarrow> int \<Rightarrow> int \<Rightarrow> nat \<Rightarrow>
    ('cb, 'm) loop_op" where
  "poll_rounds k arrives call base 0 tmo real_timeout count s = NoFuel"
| "poll_rounds k arrives call base (Suc fuel) tmo real_timeout count s =
     bnd (poll_round k arrives call base tmo real_timeout count s) (\<lambda>(n, s1). case n of
         Finished \<Rightarrow> Ret s1
       | Again t rt c \<Rightarrow> poll_rounds k arrives call base fuel t rt c s1)"

definition uv__io_poll :: "kernel \<Rightarrow> (history \<Rightarrow> int list) \<Rightarrow> ('cb, 'm) dispatcher \<Rightarrow> nat \<Rightarrow> int \<Rightarrow> ('cb, 'm) loop_op" where
  "uv__io_poll k arrives call fuel tmo s =
     (if nfds s = 0 then require (watcher_queue s = []) (Ret s)
      else bnd (arm_all k (watcher_queue s) s) (\<lambda>s1.
        require (-1 \<le> tmo) (poll_rounds k arrives call (time s1) fuel tmo tmo 48 s1)))"

section \<open>The phases of an iteration\<close>

fun pending_loop :: "kernel \<Rightarrow> ('cb, 'm) dispatcher \<Rightarrow> nat \<Rightarrow> ('cb, 'm) loop_op" where
  "pending_loop k call 0 s = NoFuel"
| "pending_loop k call (Suc fuel) s = (case pending_batch s of [] \<Rightarrow> Ret s
    | w # ws \<Rightarrow> bnd (run_io k call w POLLOUT (s\<lparr>pending_batch := ws\<rparr>)) (pending_loop k call fuel))"

definition uv__run_pending :: "kernel \<Rightarrow> ('cb, 'm) dispatcher \<Rightarrow> ('cb, 'm) loop_op" where
  "uv__run_pending k call s = pending_loop k call (Suc (length (pending_queue s)))
     (s\<lparr>pending_batch := pending_queue s, pending_queue := []\<rparr>)"

fun watcher_loop :: "('cb, 'm) dispatcher \<Rightarrow> loop_watcher \<Rightarrow> nat \<Rightarrow> ('cb, 'm) loop_op" where
  "watcher_loop call n 0 s = NoFuel"
| "watcher_loop call n (Suc fuel) s = (case watcher_batch s n of [] \<Rightarrow> Ret s
    | h # hs \<Rightarrow> with_handle h (\<lambda>x s.
        let s1 = s\<lparr>watcher_batch := (watcher_batch s)(n := hs),
                   watcher_handles := (watcher_handles s)(n := watcher_handles s n @ [h])\<rparr> in
        bnd (call_back call (h_cb x) h 0 0 s1) (watcher_loop call n fuel)) s)"

definition uv__run_watchers :: "('cb, 'm) dispatcher \<Rightarrow> loop_watcher \<Rightarrow> ('cb, 'm) loop_op" where
  "uv__run_watchers call n s = watcher_loop call n (Suc (length (watcher_handles s n)))
     (s\<lparr>watcher_batch := (watcher_batch s)(n := watcher_handles s n),
        watcher_handles := (watcher_handles s)(n := [])\<rparr>)"

fun uv__run_timers :: "('cb, 'm) dispatcher \<Rightarrow> nat \<Rightarrow> ('cb, 'm) loop_op" where
  "uv__run_timers call 0 s = NoFuel"
| "uv__run_timers call (Suc fuel) s = (case timers s of [] \<Rightarrow> Ret s
    | h # _ \<Rightarrow> with_handle h (\<lambda>x s.
        if timeout x > time s then Ret s
        else bnd (uv_timer_stop h s) (\<lambda>s1. bnd (uv_timer_again h s1) (\<lambda>(_, s2).
          bnd (with_handle h (\<lambda>x. call_back call (h_cb x) h 0 0) s2) (uv__run_timers call fuel)))) s)"

definition uv__loop_alive :: "('cb, 'm) uv_loop_scheme \<Rightarrow> bool" where
  "uv__loop_alive s \<longleftrightarrow> uv__has_active_handles s \<or> uv__has_active_reqs s \<or> pending_queue s \<noteq> [] \<or>
     closing_handles s \<noteq> []"

definition uv__backend_timeout :: "('cb, 'm) uv_loop_scheme \<Rightarrow> int run" where
  "uv__backend_timeout s =
     (if \<not> stop_flag s \<and> (uv__has_active_handles s \<or> uv__has_active_reqs s) \<and> pending_queue s = [] \<and>
         watcher_handles s Idle = [] \<and> closing_handles s = []
      then uv__next_timeout s else Ret 0)"

datatype uv_run_mode = UV_RUN_DEFAULT | UV_RUN_ONCE | UV_RUN_NOWAIT

fun pending_rounds :: "kernel \<Rightarrow> ('cb, 'm) dispatcher \<Rightarrow> nat \<Rightarrow> ('cb, 'm) loop_op" where
  "pending_rounds k call 0 s = Ret s"
| "pending_rounds k call (Suc r) s =
     (if pending_queue s = [] then Ret s else bnd (uv__run_pending k call s) (pending_rounds k call r))"

definition iteration :: "kernel \<Rightarrow> (history \<Rightarrow> int list) \<Rightarrow> ('cb, 'm) dispatcher \<Rightarrow> nat \<Rightarrow> uv_run_mode \<Rightarrow> ('cb, 'm) loop_op" where
  "iteration k arrives call fuel mode s =
     (let can_sleep = (pending_queue s = [] \<and> watcher_handles s Idle = []) in
      bnd (uv__run_pending k call s) (\<lambda>s1.
      bnd (uv__run_watchers call Idle s1) (\<lambda>s2.
      bnd (uv__run_watchers call Prepare s2) (\<lambda>s3.
      bnd (if mode = UV_RUN_ONCE \<and> can_sleep \<or> mode = UV_RUN_DEFAULT then uv__backend_timeout s3 else Ret 0)
        (\<lambda>timeout.
      bnd (uv__io_poll k arrives call fuel timeout s3) (\<lambda>s4.
      bnd (pending_rounds k call 8 s4) (\<lambda>s5.
      bnd (uv__run_watchers call Check s5) (\<lambda>s6.
      bnd (uv__run_closing_handles call s6) (\<lambda>s7.
      uv__run_timers call fuel (uv__update_time k s7))))))))))"

fun run_loop :: "kernel \<Rightarrow> (history \<Rightarrow> int list) \<Rightarrow> ('cb, 'm) dispatcher \<Rightarrow> nat \<Rightarrow> uv_run_mode \<Rightarrow> bool \<Rightarrow> ('cb, 'm) uv_loop_scheme \<Rightarrow>
    (bool \<times> ('cb, 'm) uv_loop_scheme) run" where
  "run_loop k arrives call 0 mode r s = NoFuel"
| "run_loop k arrives call (Suc fuel) mode r s =
     (if r \<and> \<not> stop_flag s then
        bnd (iteration k arrives call fuel mode s) (\<lambda>s1.
          if mode = UV_RUN_ONCE \<or> mode = UV_RUN_NOWAIT then Ret (uv__loop_alive s1, s1)
          else run_loop k arrives call fuel mode (uv__loop_alive s1) s1)
      else Ret (r, s))"

definition uv_run :: "kernel \<Rightarrow> (history \<Rightarrow> int list) \<Rightarrow> ('cb, 'm) dispatcher \<Rightarrow> nat \<Rightarrow> uv_run_mode \<Rightarrow> ('cb, 'm) uv_loop_scheme \<Rightarrow>
    (bool \<times> ('cb, 'm) uv_loop_scheme) run" where
  "uv_run k arrives call fuel mode s =
     (let r = uv__loop_alive s; s1 = (if r then s else uv__update_time k s) in
      bnd (if mode = UV_RUN_DEFAULT then uv__run_timers call fuel (if r then uv__update_time k s1 else s1)
           else Ret s1) (\<lambda>s2.
      bnd (run_loop k arrives call fuel mode r s2) (\<lambda>(r2, s3).
      Ret (r2, s3\<lparr>stop_flag := False\<rparr>))))"

end
