(* ===== verification/Uv_Timers.thy ===== *)
theory Uv_Timers
  imports Uv_Heap Uv_Run "HOL-Library.Product_Lexorder"
begin

text \<open>
  The timers of a loop. The model of the loop keeps them as a list in the order of timer_less_than;
  the code keeps them in the heap of heap-inl.h. The heap refines the list: inserting and removing a
  timer does the same to both, and the minimum of the heap is the head of the list.
\<close>

section \<open>The order of the timers\<close>

definition timer_of :: "(nat \<rightharpoonup> 'cb uv_handle) \<Rightarrow> nat \<Rightarrow> 'cb uv_handle" where
  "timer_of hs a = (case hs a of Some x \<Rightarrow> x | None \<Rightarrow> raw_handle)"

definition timer_lt :: "(nat \<rightharpoonup> 'cb uv_handle) \<Rightarrow> less_fn" where
  "timer_lt hs a b = timer_less_than (timer_of hs a) (timer_of hs b)"

definition timer_key :: "(nat \<rightharpoonup> 'cb uv_handle) \<Rightarrow> nat \<Rightarrow> 64 word \<times> 64 word" where
  "timer_key hs a = (timeout (timer_of hs a), start_id (timer_of hs a))"

interpretation timer_heap: keyed "timer_lt hs" "timer_key hs" for hs
  by unfold_locales (auto simp: timer_lt_def timer_key_def timer_less_than_def)

section \<open>The heap and the list\<close>

text \<open>No two timers compare equal: start_id differs.\<close>

definition heap_list :: "(nat \<rightharpoonup> 'cb uv_handle) \<Rightarrow> uv_heap \<Rightarrow> nat list \<Rightarrow> bool" where
  "heap_list hs H xs \<longleftrightarrow> (\<exists>t. heap_holds (timer_key hs) H t \<and> set_tree t = set xs) \<and>
     distinct xs \<and> sorted (map (timer_key hs) xs) \<and> inj_on (timer_key hs) (set xs) \<and> (\<forall>a \<in> set xs. hs a \<noteq> None)"

definition list_min :: "nat list \<Rightarrow> nat option" where
  "list_min xs = (case xs of [] \<Rightarrow> None | a # _ \<Rightarrow> Some a)"

lemma heap_list_min:
  assumes "heap_list hs H xs"
  shows "heap_min H = list_min xs"
proof -
  from assms obtain t where t: "heap_holds (timer_key hs) H t" "set_tree t = set xs" and s: "sorted (map (timer_key hs) xs)"
      "inj_on (timer_key hs) (set xs)" by (auto simp: heap_list_def)
  show ?thesis
  proof (cases xs)
    case Nil
    with t timer_heap.heap_min_holds(1) [OF t(1)] show ?thesis by (simp add: list_min_def)
  next
    case (Cons a ys)
    with t timer_heap.heap_min_holds(1) [OF t(1)] obtain b where b: "heap_min H = Some b" by fastforce
    note m = timer_heap.heap_min_holds(2) [OF t(1) b]
    then have "timer_key hs b \<le> timer_key hs a" "b \<in> set xs" using t(2) Cons by auto
    moreover have "timer_key hs a \<le> timer_key hs b" using s(1) calculation(2) Cons by auto
    ultimately have "b = a" using s(2) Cons by (auto simp: inj_on_def)
    then show ?thesis using b Cons by (simp add: list_min_def)
  qed
qed

lemma timer_insert_sorted:
  assumes "sorted (map (timer_key hs) xs)" and "\<forall>b \<in> set xs. hs b \<noteq> None" and "hs a = Some x"
  shows "\<exists>ys. timer_insert hs a x xs = Ret ys \<and> mset ys = add_mset a (mset xs) \<and> sorted (map (timer_key hs) ys)"
  using assms
proof (induction xs)
  case (Cons b xs)
  from Cons.prems obtain y where y: "hs b = Some y" by auto
  have lt: "timer_less_than x y \<longleftrightarrow> timer_key hs a < timer_key hs b"
    using timer_heap.lt_key [of hs a b] Cons.prems(3) y by (simp add: timer_lt_def timer_of_def)
  show ?case
  proof (cases "timer_less_than x y")
    case True
    then show ?thesis using Cons.prems y lt by (auto intro: order_trans less_imp_le)
  next
    case False
    from Cons.IH Cons.prems obtain ys where ys: "timer_insert hs a x xs = Ret ys" "mset ys = add_mset a (mset xs)"
      "sorted (map (timer_key hs) ys)" by auto
    have "set ys = insert a (set xs)" using arg_cong [OF ys(2), of set_mset] by simp
    then show ?thesis using Cons.prems y lt False ys by auto
  qed
qed simp

section \<open>Refinement\<close>

text \<open>Inserting a timer. On a heap that holds the timers of the list, heap_insert returns a heap that holds the
  timers of the list timer_insert makes; both are complete and in order, and the minimum of the heap is
  the head of the list, the timer that is due first.\<close>

lemma insert_heap_list:
  assumes h: "heap_list hs H xs" and a: "a \<notin> set xs" "hs a = Some x" "timer_key hs a \<notin> timer_key hs ` set xs"
    and n: "length xs < 2 ^ 32 - 1"
  shows "\<exists>H' ys. heap_insert (timer_lt hs) a H = Ret H' \<and> timer_insert hs a x xs = Ret ys \<and> heap_list hs H' ys \<and>
    heap_min H' = list_min ys"
proof -
  from h obtain t where t: "heap_holds (timer_key hs) H t" "set_tree t = set xs"
    and l: "distinct xs" "sorted (map (timer_key hs) xs)" "inj_on (timer_key hs) (set xs)" "\<forall>a \<in> set xs. hs a \<noteq> None"
    by (auto simp: heap_list_def)
  have "distinct (inorder t)" using t(1) by (simp add: heap_holds_def zipped_def)
  then have "size t = length xs"
    using t(2) l(1) distinct_card [of "inorder t"] distinct_card [of xs] by (simp add: length_inorder_size)
  with timer_heap.heap_insert_holds [OF t(1), of a] a(1) t(2) n obtain H' t' where
    H': "heap_insert (timer_lt hs) a H = Ret H'" "heap_holds (timer_key hs) H' t'" "set_tree t' = insert a (set xs)" by auto
  from timer_insert_sorted [OF l(2,4) a(2)] obtain ys where
    ys: "timer_insert hs a x xs = Ret ys" "mset ys = add_mset a (mset xs)" "sorted (map (timer_key hs) ys)" by blast
  have s: "set ys = insert a (set xs)" using arg_cong [OF ys(2), of set_mset] by simp
  have "distinct ys" using l(1) a(1) ys(2) by (metis distinct.simps(2) mset.simps(2) mset_eq_imp_distinct_iff)
  then have "heap_list hs H' ys" unfolding heap_list_def s using H'(2,3) ys(3) l(3,4) a by auto
  with heap_list_min [OF this] H'(1) ys(1) show ?thesis by blast
qed

text \<open>C16: Removing a timer, wherever it is in the heap. heap_remove returns a heap that holds the other timers of the
  list, complete and in order, with the head of that list as its minimum.\<close>

theorem timer_heap_remove_refines:
  assumes h: "heap_list hs H xs" and a: "a \<in> set xs"
  shows "\<exists>H'. heap_remove (timer_lt hs) (Some a) H = Ret H' \<and> heap_list hs H' (removeAll a xs) \<and>
    heap_min H' = list_min (removeAll a xs)"
proof -
  from h obtain t where t: "heap_holds (timer_key hs) H t" "set_tree t = set xs"
    and l: "distinct xs" "sorted (map (timer_key hs) xs)" "inj_on (timer_key hs) (set xs)" "\<forall>a \<in> set xs. hs a \<noteq> None"
    by (auto simp: heap_list_def)
  from timer_heap.heap_remove_holds [OF t(1), of a] a t(2) obtain H' t' where
    H': "heap_remove (timer_lt hs) (Some a) H = Ret H'" "heap_holds (timer_key hs) H' t'" "set_tree t' = set xs - {a}" by auto
  have "sorted (map (timer_key hs) (removeAll a xs))" using l(2) by (simp add: removeAll_filter_not_eq sorted_filter)
  moreover have "distinct (removeAll a xs)" using l(1) by (simp add: distinct_removeAll)
  moreover have "inj_on (timer_key hs) (set xs - {a})" using l(3) by (rule inj_on_subset) blast
  ultimately have "heap_list hs H' (removeAll a xs)" using H'(2,3) l(4) by (auto simp: heap_list_def)
  with heap_list_min [OF this] H'(1) show ?thesis by blast
qed

section \<open>Three timers\<close>

definition a_timer :: "nat \<Rightarrow> nat \<Rightarrow> nat uv_handle" where
  "a_timer tmo n = raw_handle\<lparr>timeout := of_nat tmo, start_id := of_nat n\<rparr>"

definition three_timers :: "nat \<rightharpoonup> nat uv_handle" where
  "three_timers = [7 \<mapsto> a_timer 30 0, 8 \<mapsto> a_timer 10 1, 9 \<mapsto> a_timer 20 2]"

definition empty_heap :: uv_heap where
  "empty_heap = heap_init \<lparr>hnodes = Map.empty, hmin = None, nelts = 0\<rparr>"

lemma empty_heap_list: "heap_list hs empty_heap []"
proof -
  have "heap_holds (timer_key hs) empty_heap \<langle>\<rangle>"
    using num_pos by (auto simp: heap_holds_def zipped_def empty_heap_def heap_init_def filled_def)
  then show ?thesis unfolding heap_list_def by fastforce
qed

lemma three_keys: "timer_key three_timers 7 = (30, 0)" "timer_key three_timers 8 = (10, 1)" "timer_key three_timers 9 = (20, 2)"
  by (simp_all add: timer_key_def timer_of_def three_timers_def a_timer_def)

lemma three_inserts: "timer_insert three_timers 7 (a_timer 30 0) [] = Ret [7]"
    "timer_insert three_timers 8 (a_timer 10 1) [7] = Ret [8, 7]"
    "timer_insert three_timers 9 (a_timer 20 2) [8, 7] = Ret [8, 9, 7]"
  by (simp_all add: three_timers_def a_timer_def timer_less_than_def)

definition heap_after :: "uv_heap run \<Rightarrow> uv_heap" where
  "heap_after r = (case r of Ret H \<Rightarrow> H | _ \<Rightarrow> empty_heap)"

definition heap_1 :: uv_heap where "heap_1 = heap_after (heap_insert (timer_lt three_timers) 7 empty_heap)"
definition heap_2 :: uv_heap where "heap_2 = heap_after (heap_insert (timer_lt three_timers) 8 heap_1)"
definition heap_3 :: uv_heap where "heap_3 = heap_after (heap_insert (timer_lt three_timers) 9 heap_2)"

lemma three_present: "three_timers 7 = Some (a_timer 30 0)" "three_timers 8 = Some (a_timer 10 1)" "three_timers 9 = Some (a_timer 20 2)"
  by (simp_all add: three_timers_def)

lemma heap_2_list: "heap_list three_timers heap_2 [8, 7]"
proof -
  from insert_heap_list [OF empty_heap_list [of three_timers] _ three_present(1)] three_inserts(1)
  have 1: "heap_list three_timers heap_1 [7]" by (auto simp: heap_1_def heap_after_def simp del: timer_insert.simps)
  from insert_heap_list [OF this _ three_present(2)] three_inserts(2) show ?thesis
    by (auto simp: heap_2_def heap_after_def three_keys simp del: timer_insert.simps)
qed

lemma heap_3_list: "heap_list three_timers heap_3 [8, 9, 7]"
  using insert_heap_list [OF heap_2_list _ three_present(3)] three_inserts(3)
  by (auto simp: heap_3_def heap_after_def three_keys simp del: timer_insert.simps)

theorem timer_heap_remove_refines_witness:
  "\<exists>H'. heap_remove (timer_lt three_timers) (Some 8) heap_3 = Ret H' \<and> heap_list three_timers H' [9, 7] \<and> heap_min H' = Some 9"
  using timer_heap_remove_refines [OF heap_3_list, of 8] by (auto simp: list_min_def)

end
