(* ===== verification/Uv_Async.thy ===== *)
theory Uv_Async
  imports Prelude
begin

text \<open>
  Sending to an async handle from other threads (unix/async.c). The other theories run one thread;
  here the steps of any number of threads inside uv_async_send, one for each atomic operation,
  interleave with the steps of the thread of the loop inside uv__async_io and uv__async_spin. The
  loop is woken by an eventfd: a counter a write adds one to and a read resets. Atomic operations
  are sequentially consistent; that the first read of uv_async_send is relaxed is not modelled.
\<close>

section \<open>The state\<close>

text \<open>Where a thread is in uv_async_send: before the cheap read, the raising of the busy flag, the
  exchange of the pending flag, the write, and the lowering of the busy flag.\<close>

datatype send_pc = Off | Test nat | Enter nat | Mark nat | Wake nat | Leave nat

text \<open>Where the thread of the loop is: in user code or waiting in epoll_wait, before the read of
  uv__async_io, before its next round with the handles still in the local queue, in the callback
  of a handle, or spinning on the busy flag of a handle that user code closes.\<close>

datatype loop_pc = In_poll | In_read | In_scan "nat list" | In_call nat "nat list" | Spin nat loop_pc

record async_sys =
  flag :: "nat \<Rightarrow> bool"
  busy :: "nat \<Rightarrow> int"
  has_cb :: "nat \<Rightarrow> bool"
  wakeups :: nat
  senders :: "nat \<Rightarrow> send_pc"
  loop_at :: loop_pc
  ring :: "nat list"
  gone :: "nat set"

section \<open>The senders\<close>

text \<open>One atomic operation of uv_async_send, apart from the write.\<close>

fun send_step :: "send_pc \<Rightarrow> async_sys \<Rightarrow> send_pc \<times> async_sys" where
  "send_step (Test h) s = (if flag s h then (Off, s) else (Enter h, s))"
| "send_step (Enter h) s = (Mark h, s\<lparr>busy := (busy s)(h := busy s h + 1)\<rparr>)"
| "send_step (Mark h) s = (if flag s h then Leave h else Wake h, s\<lparr>flag := (flag s)(h := True)\<rparr>)"
| "send_step (Leave h) s = (Off, s\<lparr>busy := (busy s)(h := busy s h - 1)\<rparr>)"
| "send_step pc s = (pc, s)"

text \<open>What write can answer on the eventfd. Its counter stays below 2 to the 64 minus 1.\<close>

datatype write_reply = Wrote | Interrupted | Would_block

definition EFD_MAX :: nat where "EFD_MAX = 2 ^ 64 - 2"

fun eventfd_write :: "write_reply \<Rightarrow> nat \<Rightarrow> nat option" where
  "eventfd_write Wrote n = (if n < EFD_MAX then Some (Suc n) else None)"
| "eventfd_write Would_block n = (if n < EFD_MAX then None else Some n)"
| "eventfd_write Interrupted n = Some n"

text \<open>One round of the loop of uv__async_send, with the answer of write.\<close>

fun wake_step :: "write_reply \<Rightarrow> nat \<Rightarrow> send_pc" where
  "wake_step Wrote h = Leave h"
| "wake_step Interrupted h = Wake h"
| "wake_step Would_block h = Leave h"

definition set_sender :: "nat \<Rightarrow> send_pc \<times> async_sys \<Rightarrow> async_sys" where
  "set_sender t p = (case p of (pc, s) \<Rightarrow> s\<lparr>senders := (senders s)(t := pc)\<rparr>)"

section \<open>The thread of the loop\<close>

text \<open>The round of uv__async_io for the first handle of the local queue.\<close>

definition scan_step :: "nat \<Rightarrow> nat list \<Rightarrow> async_sys \<Rightarrow> async_sys" where
  "scan_step h hs s =
     (let s1 = s\<lparr>ring := ring s @ [h], flag := (flag s)(h := False)\<rparr> in
      if \<not> flag s h then s1\<lparr>loop_at := In_scan hs\<rparr>
      else if \<not> has_cb s h then s1\<lparr>loop_at := In_scan hs\<rparr>
      else s1\<lparr>loop_at := In_call h hs\<rparr>)"

text \<open>The end of the reading loop: 8 bytes were read, or there was nothing to read; the ring moves to
  the local queue.\<close>

definition drain_step :: "async_sys \<Rightarrow> async_sys" where
  "drain_step s = s\<lparr>wakeups := 0, loop_at := In_scan (ring s), ring := []\<rparr>"

fun leave_queue :: "nat \<Rightarrow> loop_pc \<Rightarrow> loop_pc" where
  "leave_queue h (In_scan hs) = In_scan (removeAll h hs)"
| "leave_queue h (In_call g hs) = In_call g (removeAll h hs)"
| "leave_queue h pc = pc"

text \<open>uv__async_close: the store at the start of uv__async_spin, and what follows once the busy flag is
  zero.\<close>

definition spin_start :: "nat \<Rightarrow> async_sys \<Rightarrow> async_sys" where
  "spin_start h s = s\<lparr>flag := (flag s)(h := True), loop_at := Spin h (loop_at s)\<rparr>"

definition spin_step :: "nat \<Rightarrow> loop_pc \<Rightarrow> async_sys \<Rightarrow> async_sys" where
  "spin_step h after s = (if busy s h = 0
     then s\<lparr>loop_at := leave_queue h after, ring := removeAll h (ring s), gone := insert h (gone s)\<rparr>
     else s)"

text \<open>The step the thread of the loop takes when user code does nothing and epoll_wait reports the
  eventfd when it is readable.\<close>

definition loop_next :: "async_sys \<Rightarrow> async_sys" where
  "loop_next s = (case loop_at s of
      In_poll \<Rightarrow> if 0 < wakeups s then s\<lparr>loop_at := In_read\<rparr> else s
    | In_read \<Rightarrow> drain_step s
    | In_scan [] \<Rightarrow> s\<lparr>loop_at := In_poll\<rparr>
    | In_scan (h # hs) \<Rightarrow> scan_step h hs s
    | In_call h hs \<Rightarrow> s\<lparr>loop_at := In_scan hs\<rparr>
    | Spin h after \<Rightarrow> spin_step h after s)"

text \<open>User code runs between the iterations and in callbacks. There it can open and close handles.\<close>

fun user_code :: "loop_pc \<Rightarrow> bool" where
  "user_code In_poll = True"
| "user_code (In_call h hs) = True"
| "user_code _ = False"

fun queued :: "loop_pc \<Rightarrow> nat list" where
  "queued (In_scan hs) = hs"
| "queued (In_call h hs) = hs"
| "queued (Spin h pc) = queued pc"
| "queued _ = []"

definition open_handles :: "async_sys \<Rightarrow> nat set" where
  "open_handles s = set (ring s) \<union> set (queued (loop_at s))"

text \<open>The part of uv_async_init that concerns the flags and the ring.\<close>

definition open_step :: "nat \<Rightarrow> bool \<Rightarrow> async_sys \<Rightarrow> async_sys" where
  "open_step h cb s = s\<lparr>flag := (flag s)(h := False), busy := (busy s)(h := 0), has_cb := (has_cb s)(h := cb),
     ring := ring s @ [h]\<rparr>"

section \<open>Interleavings\<close>

text \<open>A thread may call uv_async_send for an open handle, and for one that was closed whose memory is
  still there. A handle that is closed is not opened again under the same name.\<close>

inductive async_step :: "async_sys \<Rightarrow> async_sys \<Rightarrow> bool" where
  call_send: "senders s t = Off \<Longrightarrow> h \<in> open_handles s \<union> gone s \<Longrightarrow> async_step s (set_sender t (Test h, s))"
| in_send: "senders s t = pc \<Longrightarrow> pc \<noteq> Off \<Longrightarrow> (\<forall>h. pc \<noteq> Wake h) \<Longrightarrow> async_step s (set_sender t (send_step pc s))"
| in_write: "senders s t = Wake h \<Longrightarrow> eventfd_write r (wakeups s) = Some n \<Longrightarrow>
    async_step s (set_sender t (wake_step r h, s\<lparr>wakeups := n\<rparr>))"
| in_loop: "async_step s (loop_next s)"
| open_handle: "user_code (loop_at s) \<Longrightarrow> h \<notin> open_handles s \<union> gone s \<Longrightarrow> async_step s (open_step h cb s)"
| close_handle: "user_code (loop_at s) \<Longrightarrow> h \<in> open_handles s \<Longrightarrow> async_step s (spin_start h s)"

definition async_start :: async_sys where
  "async_start = \<lparr>flag = \<lambda>_. False, busy = \<lambda>_. 0, has_cb = \<lambda>_. False, wakeups = 0, senders = \<lambda>_. Off,
     loop_at = In_poll, ring = [], gone = {}\<rparr>"

definition async_reachable :: "async_sys \<Rightarrow> bool" where
  "async_reachable = async_step\<^sup>*\<^sup>* async_start"

section \<open>The invariant\<close>

fun target :: "send_pc \<Rightarrow> nat option" where
  "target Off = None"
| "target (Test h) = Some h"
| "target (Enter h) = Some h"
| "target (Mark h) = Some h"
| "target (Wake h) = Some h"
| "target (Leave h) = Some h"

text \<open>Between the raising of the busy flag and its lowering.\<close>

fun inside :: "nat \<Rightarrow> send_pc \<Rightarrow> bool" where
  "inside h (Mark g) = (g = h)"
| "inside h (Wake g) = (g = h)"
| "inside h (Leave g) = (g = h)"
| "inside h _ = False"

definition busy_threads :: "nat \<Rightarrow> async_sys \<Rightarrow> nat set" where
  "busy_threads h s = {t. inside h (senders s t)}"

text \<open>A set pending flag that is not lost: the loop will be woken, or has not come to the handle yet.\<close>

definition awaited :: "nat \<Rightarrow> async_sys \<Rightarrow> bool" where
  "awaited h s \<longleftrightarrow> 0 < wakeups s \<or> (\<exists>t. senders s t = Wake h) \<or> h \<in> set (queued (loop_at s)) \<or>
     (\<exists>after. loop_at s = Spin h after)"

definition spin_ok :: "async_sys \<Rightarrow> bool" where
  "spin_ok s \<longleftrightarrow> (\<forall>h after. loop_at s = Spin h after \<longrightarrow> user_code after \<and> h \<in> open_handles s \<and> flag s h)"

definition senders_ok :: "async_sys \<Rightarrow> bool" where
  "senders_ok s \<longleftrightarrow> finite {t. senders s t \<noteq> Off} \<and> (\<forall>h. busy s h = int (card (busy_threads h s))) \<and>
     (\<forall>t h. target (senders s t) = Some h \<longrightarrow> h \<in> open_handles s \<union> gone s)"

definition flags_ok :: "async_sys \<Rightarrow> bool" where
  "flags_ok s \<longleftrightarrow> (\<forall>h \<in> open_handles s. flag s h \<longrightarrow> awaited h s) \<and>
     (\<forall>h \<in> gone s. flag s h \<and> (\<forall>t. senders s t \<noteq> Wake h))"

definition async_ok :: "async_sys \<Rightarrow> bool" where
  "async_ok s \<longleftrightarrow> senders_ok s \<and> flags_ok s \<and> spin_ok s \<and> distinct (ring s @ queued (loop_at s)) \<and>
     open_handles s \<inter> gone s = {}"

lemma sender_simps [simp]:
  "senders (set_sender t (pc, s)) = (senders s)(t := pc)" "flag (set_sender t (pc, s)) = flag s"
  "busy (set_sender t (pc, s)) = busy s" "wakeups (set_sender t (pc, s)) = wakeups s"
  "loop_at (set_sender t (pc, s)) = loop_at s" "ring (set_sender t (pc, s)) = ring s"
  "gone (set_sender t (pc, s)) = gone s" "has_cb (set_sender t (pc, s)) = has_cb s"
  "open_handles (set_sender t (pc, s)) = open_handles s"
  by (simp_all add: set_sender_def open_handles_def)

lemma inside_target: "inside h pc \<Longrightarrow> target pc = Some h"
  by (cases pc) auto

lemma target_Off: "target pc = None \<longleftrightarrow> pc = Off"
  by (cases pc) auto

lemma busy_threads_finite: "senders_ok s \<Longrightarrow> finite (busy_threads h s)"
  by (rule finite_subset [of _ "{t. senders s t \<noteq> Off}"]) (auto simp: senders_ok_def busy_threads_def)

lemma busy_threads_set [simp]: "busy_threads h (set_sender t (pc, s)) =
    (if inside h pc then insert t (busy_threads h s) else busy_threads h s - {t})"
  by (auto simp: busy_threads_def)

lemma senders_finite: "finite {u. senders s u \<noteq> Off} \<Longrightarrow> finite {u. u \<noteq> t \<longrightarrow> senders s u \<noteq> Off}"
  by (rule finite_subset [of _ "insert t {u. senders s u \<noteq> Off}"]) auto

text \<open>A thread moves from one place to another: the busy flags follow.\<close>

lemma senders_ok_move:
  assumes "senders_ok s" and "open_handles s' = open_handles s" "gone s' = gone s" "senders s' = (senders s)(t := pc)"
    and "\<forall>h. busy s' h = busy s h + (if inside h pc \<and> \<not> inside h (senders s t) then 1 else 0) -
      (if inside h (senders s t) \<and> \<not> inside h pc then 1 else 0)"
    and "\<forall>h. target pc = Some h \<longrightarrow> h \<in> open_handles s \<union> gone s"
  shows "senders_ok s'"
proof -
  have f: "finite (busy_threads h s)" for h using assms(1) by (rule busy_threads_finite)
  have h: "busy_threads h s' = (if inside h pc then insert t (busy_threads h s) else busy_threads h s - {t})" for h
    using assms(4) by (auto simp: busy_threads_def)
  have "busy s' h = int (card (busy_threads h s'))" for h
  proof -
    have b: "busy s h = int (card (busy_threads h s))" using assms(1) by (simp add: senders_ok_def)
    have m: "t \<in> busy_threads h s \<longleftrightarrow> inside h (senders s t)" by (simp add: busy_threads_def)
    show ?thesis
    proof (cases "t \<in> busy_threads h s")
      case True
      then have "0 < card (busy_threads h s)" using f card_gt_0_iff by blast
      then show ?thesis using True m h f b assms(5) by (auto simp: insert_absorb of_nat_diff)
    next
      case False
      then show ?thesis using m h f b assms(5) by auto
    qed
  qed
  moreover have "finite {u. senders s' u \<noteq> Off}"
    by (rule finite_subset [of _ "insert t {u. senders s u \<noteq> Off}"]) (use assms(1,4) in \<open>auto simp: senders_ok_def\<close>)
  ultimately show ?thesis using assms by (auto simp: senders_ok_def)
qed

lemma async_ok_send:
  assumes ok: "async_ok s" and pc: "senders s t = pc" "pc \<noteq> Off" "\<forall>h. pc \<noteq> Wake h"
  shows "async_ok (set_sender t (send_step pc s))"
proof -
  obtain pc' s' where st: "send_step pc s = (pc', s')" by (metis surj_pair)
  have fr: "wakeups s' = wakeups s" "senders s' = senders s" "loop_at s' = loop_at s" "ring s' = ring s" "gone s' = gone s"
    using st pc(2,3) by (cases pc; auto split: if_splits)+
  have o: "open_handles s' = open_handles s" by (simp add: open_handles_def fr)
  have "senders_ok (set_sender t (pc', s'))"
  proof (rule senders_ok_move [of s])
    have "target pc' = Some h \<Longrightarrow> target pc = Some h" for h using st pc(2,3) by (cases pc) (auto split: if_splits)
    then show "\<forall>h. target pc' = Some h \<longrightarrow> h \<in> open_handles s \<union> gone s"
      using ok pc(1) unfolding async_ok_def senders_ok_def by blast
    show "\<forall>h. busy (set_sender t (pc', s')) h = busy s h + (if inside h pc' \<and> \<not> inside h (senders s t) then 1 else 0) -
      (if inside h (senders s t) \<and> \<not> inside h pc' then 1 else 0)"
      using pc st by (cases pc) (auto split: if_splits)
  qed (use ok o fr in \<open>auto simp: async_ok_def\<close>)
  moreover have "flags_ok (set_sender t (pc', s'))"
  proof -
    have fl: "flag s' g \<longleftrightarrow> flag s g \<or> pc = Mark g" for g using st pc(2,3) by (cases pc) (auto split: if_splits)
    have wk: "pc' = Wake g \<longleftrightarrow> pc = Mark g \<and> \<not> flag s g" for g using st pc(2,3) by (cases pc) (auto split: if_splits)
    have keep: "\<exists>u. ((senders s)(t := pc')) u = Wake g" if "\<exists>u. senders s u = Wake g" for g
      using that pc by (metis fun_upd_other)
    have "awaited g (set_sender t (pc', s'))" if "g \<in> open_handles s" "flag s' g" for g
    proof (cases "flag s g")
      case True
      then have "awaited g s" using ok that(1) by (simp add: async_ok_def flags_ok_def)
      then show ?thesis using keep [of g] unfolding awaited_def sender_simps fr by blast
    next
      case False
      then show ?thesis using that(2) fl wk by (auto simp: awaited_def)
    qed
    then show ?thesis using ok fl wk by (auto simp: async_ok_def flags_ok_def fr o)
  qed
  moreover have "spin_ok (set_sender t (pc', s'))"
  proof -
    have "flag s g \<Longrightarrow> flag s' g" for g using st pc(2,3) by (cases pc) (auto split: if_splits)
    then show ?thesis using ok by (simp add: async_ok_def spin_ok_def fr o)
  qed
  ultimately show ?thesis using ok by (simp add: async_ok_def st o fr)
qed

lemma async_ok_write:
  assumes ok: "async_ok s" and w: "senders s t = Wake h" "eventfd_write r (wakeups s) = Some n"
  shows "async_ok (set_sender t (wake_step r h, s\<lparr>wakeups := n\<rparr>))" (is "async_ok ?s")
proof -
  have o: "open_handles (s\<lparr>wakeups := n\<rparr>) = open_handles s" by (simp add: open_handles_def)
  have i: "inside g (wake_step r h) = inside g (Wake h)" "target (wake_step r h) = Some h" for g by (cases r; simp)+
  have h: "h \<in> open_handles s \<union> gone s"
    using ok w(1) by (simp add: async_ok_def senders_ok_def) (metis target.simps(5))
  have "senders_ok ?s"
    by (rule senders_ok_move [of s _ t "wake_step r h"]) (use ok w o i h in \<open>auto simp: async_ok_def\<close>)
  moreover have "flags_ok ?s"
  proof (cases "r = Interrupted")
    case True
    then have "?s = s" using w by (cases s) (auto simp: set_sender_def)
    then show ?thesis using ok by (simp add: async_ok_def)
  next
    case False
    then have "0 < n" using w(2) by (cases r) (auto simp: EFD_MAX_def split: if_splits)
    moreover have "wake_step r h \<noteq> Wake g" for g using False by (cases r) auto
    ultimately show ?thesis using ok by (auto simp: async_ok_def flags_ok_def awaited_def o)
  qed
  moreover have "spin_ok ?s" using ok by (auto simp: async_ok_def spin_ok_def o)
  ultimately show ?thesis using ok by (simp add: async_ok_def o)
qed

lemma senders_ok_same:
  assumes "senders_ok s" "senders s' = senders s" "busy s' = busy s" "open_handles s \<union> gone s \<subseteq> open_handles s' \<union> gone s'"
  shows "senders_ok s'"
  using assms unfolding senders_ok_def busy_threads_def by (metis subsetD)

lemma async_ok_scan:
  assumes ok: "async_ok s" and l: "loop_at s = In_scan (h # hs)"
  shows "async_ok (scan_step h hs s)"
proof -
  let ?s = "scan_step h hs s"
  have fr: "wakeups ?s = wakeups s" "senders ?s = senders s" "busy ?s = busy s" "ring ?s = ring s @ [h]" "gone ?s = gone s"
    "flag ?s = (flag s)(h := False)" "queued (loop_at ?s) = hs" "\<And>g after. loop_at ?s \<noteq> Spin g after"
    by (simp_all add: scan_step_def Let_def)
  have o: "open_handles ?s = open_handles s" by (auto simp: open_handles_def fr l)
  have "senders_ok ?s" by (rule senders_ok_same [of s]) (use ok fr o in \<open>auto simp: async_ok_def\<close>)
  moreover have "flags_ok ?s"
  proof -
    have "awaited g ?s" if "g \<in> open_handles s" "flag s g" "g \<noteq> h" for g
      using ok that l by (auto simp: async_ok_def flags_ok_def awaited_def fr)
    moreover have "h \<notin> gone s" using ok l by (auto simp: async_ok_def open_handles_def)
    ultimately show ?thesis using ok by (auto simp: async_ok_def flags_ok_def o fr)
  qed
  moreover have "spin_ok ?s" using fr(8) by (simp add: spin_ok_def)
  ultimately show ?thesis using ok by (auto simp: async_ok_def o fr l)
qed

lemma leave_queue_user:
  assumes "user_code after"
  shows "queued (leave_queue h after) = removeAll h (queued after)" "leave_queue h after \<noteq> Spin g b"
  using assms by (cases after; simp)+

lemma spin_opens:
  assumes "busy s h = 0" "user_code after" "loop_at s = Spin h after"
  shows "open_handles (spin_step h after s) = open_handles s - {h}"
  using assms leave_queue_user(1) [OF assms(2), of h] by (simp add: spin_step_def open_handles_def) blast

lemma async_ok_spin:
  assumes ok: "async_ok s" and l: "loop_at s = Spin h after"
  shows "async_ok (spin_step h after s)"
proof (cases "busy s h = 0")
  case True
  let ?s = "spin_step h after s"
  have u: "user_code after" and f: "flag s h" and h: "h \<in> open_handles s"
    using ok l by (auto simp: async_ok_def spin_ok_def)
  note q = leave_queue_user [OF u, of h]
  have fr: "wakeups ?s = wakeups s" "senders ?s = senders s" "busy ?s = busy s" "ring ?s = removeAll h (ring s)"
    "gone ?s = insert h (gone s)" "flag ?s = flag s" "loop_at ?s = leave_queue h after"
    using True by (simp_all add: spin_step_def)
  have o: "open_handles ?s = open_handles s - {h}" by (rule spin_opens [OF True u l])
  have sk: "senders_ok s" using ok by (simp add: async_ok_def)
  have "busy_threads h s = {}"
    using sk True busy_threads_finite [OF sk, of h] by (auto simp: senders_ok_def)
  then have "\<not> inside h (senders s t)" for t by (auto simp: busy_threads_def)
  then have w: "senders s t \<noteq> Wake h" for t by (metis inside.simps(2))
  have "senders_ok ?s" by (rule senders_ok_same [OF sk]) (auto simp: fr o)
  moreover have "flags_ok ?s"
  proof -
    have "awaited g ?s" if "g \<in> open_handles s" "flag s g" "g \<noteq> h" for g
      using ok that l q by (auto simp: async_ok_def flags_ok_def awaited_def fr)
    then show ?thesis using ok w f by (auto simp: async_ok_def flags_ok_def o fr)
  qed
  moreover have "spin_ok ?s" using q(2) by (simp add: spin_ok_def fr)
  ultimately show ?thesis using ok by (auto simp: async_ok_def o fr q l distinct_removeAll)
qed (use assms in \<open>simp add: spin_step_def\<close>)

lemma async_ok_goto:
  assumes ok: "async_ok s" and q: "queued pc = queued (loop_at s)" "\<And>g b. pc \<noteq> Spin g b"
    and n: "\<And>g b. loop_at s \<noteq> Spin g b"
  shows "async_ok (s\<lparr>loop_at := pc\<rparr>)"
proof -
  have o: "open_handles (s\<lparr>loop_at := pc\<rparr>) = open_handles s" by (simp add: open_handles_def q)
  have "senders_ok (s\<lparr>loop_at := pc\<rparr>)" by (rule senders_ok_same [of s]) (use ok o in \<open>auto simp: async_ok_def\<close>)
  then show ?thesis using ok n q by (auto simp: async_ok_def flags_ok_def awaited_def spin_ok_def o)
qed

lemma async_ok_drain:
  assumes ok: "async_ok s" and l: "loop_at s = In_read"
  shows "async_ok (drain_step s)"
proof -
  have o: "open_handles (drain_step s) = open_handles s" by (simp add: open_handles_def drain_step_def l)
  have "senders_ok (drain_step s)" by (rule senders_ok_same [of s]) (use ok o in \<open>auto simp: async_ok_def drain_step_def\<close>)
  then show ?thesis using ok l by (auto simp: async_ok_def flags_ok_def awaited_def spin_ok_def o drain_step_def open_handles_def)
qed

lemma async_ok_loop: "async_ok s \<Longrightarrow> async_ok (loop_next s)"
  by (auto simp: loop_next_def async_ok_drain async_ok_scan async_ok_spin intro!: async_ok_goto
    split: loop_pc.splits list.splits)

lemma async_ok_call:
  assumes ok: "async_ok s" and t: "senders s t = Off" "h \<in> open_handles s \<union> gone s"
  shows "async_ok (set_sender t (Test h, s))"
proof -
  have "senders_ok (set_sender t (Test h, s))"
    by (rule senders_ok_move [of s _ t "Test h"]) (use ok t in \<open>auto simp: async_ok_def\<close>)
  moreover have "flags_ok (set_sender t (Test h, s))"
  proof -
    have "\<exists>u. ((senders s)(t := Test h)) u = Wake g" if "\<exists>u. senders s u = Wake g" for g
      using that t(1) by (metis fun_upd_other send_pc.distinct(7))
    then have "awaited g (set_sender t (Test h, s))" if "awaited g s" for g
      using that unfolding awaited_def sender_simps by blast
    then show ?thesis using ok by (auto simp: async_ok_def flags_ok_def)
  qed
  ultimately show ?thesis using ok by (auto simp: async_ok_def spin_ok_def)
qed

lemma async_ok_open:
  assumes ok: "async_ok s" and h: "user_code (loop_at s)" "h \<notin> open_handles s \<union> gone s"
  shows "async_ok (open_step h cb s)"
proof -
  have o: "open_handles (open_step h cb s) = insert h (open_handles s)" by (auto simp: open_handles_def open_step_def)
  have sk: "senders_ok s" using ok by (simp add: async_ok_def)
  have "busy_threads h s = {}"
  proof -
    have "\<not> inside h (senders s t)" for t
      using sk h(2) inside_target [of h "senders s t"] by (auto simp: senders_ok_def)
    then show ?thesis by (simp add: busy_threads_def)
  qed
  then have "busy s h = 0" using sk by (simp add: senders_ok_def)
  then have "senders_ok (open_step h cb s)"
    by (intro senders_ok_same [OF sk]) (auto simp: o, auto simp: open_step_def)
  moreover have "flags_ok (open_step h cb s)" using ok h(2)
    by (auto simp: async_ok_def flags_ok_def o, auto simp: open_step_def awaited_def split: if_splits)
  moreover have "spin_ok (open_step h cb s)" using h(1) by (auto simp: spin_ok_def open_step_def)
  ultimately show ?thesis using ok h(2) by (auto simp: async_ok_def o, auto simp: open_step_def open_handles_def)
qed

lemma async_ok_close:
  assumes ok: "async_ok s" and h: "user_code (loop_at s)" "h \<in> open_handles s"
  shows "async_ok (spin_start h s)"
proof -
  have o: "open_handles (spin_start h s) = open_handles s" by (simp add: open_handles_def spin_start_def)
  have "senders_ok (spin_start h s)" by (rule senders_ok_same [of s]) (use ok o in \<open>auto simp: async_ok_def spin_start_def\<close>)
  moreover have "flags_ok (spin_start h s)" using ok h(1)
    by (auto simp: async_ok_def flags_ok_def o, auto simp: spin_start_def awaited_def)
  moreover have "spin_ok (spin_start h s)" using h by (auto simp: spin_ok_def o, auto simp: spin_start_def)
  ultimately show ?thesis using ok by (auto simp: async_ok_def o, auto simp: spin_start_def)
qed

lemma async_step_ok: "async_step s s' \<Longrightarrow> async_ok s \<Longrightarrow> async_ok s'"
  by (induction rule: async_step.induct)
    (auto intro: async_ok_call async_ok_send async_ok_write async_ok_loop async_ok_open async_ok_close)

lemma async_start_ok: "async_ok async_start"
  by (simp add: async_ok_def senders_ok_def flags_ok_def spin_ok_def async_start_def open_handles_def busy_threads_def)

lemma async_reachable_ok: "async_reachable s \<Longrightarrow> async_ok s"
  unfolding async_reachable_def by (induction rule: rtranclp_induct) (auto intro: async_start_ok async_step_ok)

section \<open>No wake-up is lost\<close>

text \<open>The thread of the loop on its own.\<close>

abbreviation loop_steps :: "nat \<Rightarrow> async_sys \<Rightarrow> async_sys" where
  "loop_steps n \<equiv> loop_next ^^ n"

lemma loop_steps_Suc: "loop_steps (Suc n) s = loop_steps n (loop_next s)"
  by (simp add: funpow_swap1)

lemma loop_steps_add: "loop_steps (m + n) s = loop_steps n (loop_steps m s)"
  by (simp add: funpow_add add.commute [of m])

definition calls :: "nat \<Rightarrow> async_sys \<Rightarrow> bool" where
  "calls h s \<longleftrightarrow> (\<exists>n hs. 0 < n \<and> loop_at (loop_steps n s) = In_call h hs)"

lemma calls_later: "calls h (loop_steps m s) \<Longrightarrow> calls h s"
  unfolding calls_def by (metis loop_steps_add add_gr_0)

lemma calls_next: "calls h (loop_next s) \<Longrightarrow> calls h s"
  using calls_later [of h 1 s] by simp

lemma scan_calls: "loop_at s = In_scan hs \<Longrightarrow> h \<in> set hs \<Longrightarrow> flag s h \<Longrightarrow> has_cb s h \<Longrightarrow> calls h s"
proof (induction hs arbitrary: s)
  case (Cons g gs)
  let ?s = "scan_step g gs s"
  have n: "loop_next s = ?s" using Cons.prems(1) by (simp add: loop_next_def)
  show ?case
  proof (cases "g = h")
    case True
    then have "loop_at (loop_steps 1 s) = In_call h gs" using Cons.prems n by (simp add: scan_step_def)
    then show ?thesis unfolding calls_def by (metis zero_less_one)
  next
    case False
    then have m: "h \<in> set gs" "flag ?s h" "has_cb ?s h" using Cons.prems by (auto simp: scan_step_def Let_def)
    have "loop_at ?s = In_scan gs \<or> loop_at ?s = In_call g gs" by (simp add: scan_step_def Let_def)
    then show ?thesis
    proof
      assume "loop_at ?s = In_scan gs"
      from Cons.IH [OF this m] n show ?thesis by (metis calls_next)
    next
      assume "loop_at ?s = In_call g gs"
      then have "loop_next ?s = ?s\<lparr>loop_at := In_scan gs\<rparr>" by (simp add: loop_next_def)
      with Cons.IH [of "?s\<lparr>loop_at := In_scan gs\<rparr>"] m have "calls h (loop_next ?s)" by simp
      then show ?thesis using n by (metis calls_next)
    qed
  qed
qed simp

text \<open>The loop comes to the end of the local queue, and leaves what it does not visit alone.\<close>

lemma scan_ends: "loop_at s = In_scan hs \<Longrightarrow> h \<notin> set hs \<Longrightarrow>
  \<exists>n. let s' = loop_steps n s in loop_at s' = In_poll \<and> flag s' h = flag s h \<and> has_cb s' h = has_cb s h \<and>
    wakeups s' = wakeups s \<and> set (ring s) \<subseteq> set (ring s')"
proof (induction hs arbitrary: s)
  case Nil
  then have "loop_steps 1 s = s\<lparr>loop_at := In_poll\<rparr>" by (simp add: loop_next_def)
  then show ?case by (intro exI [of _ 1]) simp
next
  case (Cons g gs)
  define s1 where "s1 = (scan_step g gs s)\<lparr>loop_at := In_scan gs\<rparr>"
  have f: "flag s1 h = flag s h" "has_cb s1 h = has_cb s h" "wakeups s1 = wakeups s" "set (ring s) \<subseteq> set (ring s1)"
    using Cons.prems(2) by (auto simp: s1_def scan_step_def Let_def)
  have "loop_next s = scan_step g gs s" using Cons.prems(1) by (simp add: loop_next_def)
  moreover have "scan_step g gs s = s1 \<or> loop_next (scan_step g gs s) = s1"
    by (auto simp: s1_def scan_step_def Let_def loop_next_def)
  ultimately have "\<exists>m. loop_steps m s = s1"
    by (metis funpow_0 loop_steps_Suc)
  then obtain m where m: "loop_steps m s = s1" by blast
  have "loop_at s1 = In_scan gs" by (simp add: s1_def)
  from Cons.IH [OF this, of] Cons.prems(2) obtain n where
    n: "let s' = loop_steps n s1 in loop_at s' = In_poll \<and> flag s' h = flag s1 h \<and> has_cb s' h = has_cb s1 h \<and>
      wakeups s' = wakeups s1 \<and> set (ring s1) \<subseteq> set (ring s')" by auto
  show ?case
    by (rule exI [of _ "m + n"]) (use n m f in \<open>auto simp: Let_def loop_steps_add\<close>)
qed

lemma poll_calls:
  assumes "loop_at s = In_poll" "0 < wakeups s" "h \<in> set (ring s)" "flag s h" "has_cb s h"
  shows "calls h s"
proof -
  have "loop_next (loop_next s) = drain_step (s\<lparr>loop_at := In_read\<rparr>)" using assms by (simp add: loop_next_def)
  moreover have "calls h (drain_step (s\<lparr>loop_at := In_read\<rparr>))"
    by (rule scan_calls [of _ "ring s"]) (use assms in \<open>simp_all add: drain_step_def\<close>)
  ultimately show ?thesis by (metis calls_next)
qed

lemma scanning_calls:
  assumes l: "loop_at s = In_scan hs" and h: "h \<in> open_handles s" "flag s h" "has_cb s h"
    and w: "0 < wakeups s \<or> h \<in> set hs"
  shows "calls h s"
proof (cases "h \<in> set hs")
  case False
  from scan_ends [OF l False] obtain n where n: "let s' = loop_steps n s in loop_at s' = In_poll \<and> flag s' h = flag s h \<and>
    has_cb s' h = has_cb s h \<and> wakeups s' = wakeups s \<and> set (ring s) \<subseteq> set (ring s')" by blast
  have "h \<in> set (ring s)" using h(1) l False by (simp add: open_handles_def)
  then have "calls h (loop_steps n s)" using n w h False by (intro poll_calls) (auto simp: Let_def)
  then show ?thesis by (rule calls_later)
qed (use scan_calls l h in blast)

lemma awaited_calls:
  assumes ok: "async_ok s" and off: "\<forall>t. senders s t = Off" and h: "h \<in> open_handles s" "flag s h" "has_cb s h"
    and ns: "\<And>g after. loop_at s \<noteq> Spin g after"
  shows "calls h s"
proof -
  have w: "0 < wakeups s \<or> h \<in> set (queued (loop_at s))"
    using ok off h ns by (auto simp: async_ok_def flags_ok_def awaited_def)
  show ?thesis
  proof (cases "loop_at s")
    case In_poll
    then show ?thesis using h w by (intro poll_calls) (auto simp: open_handles_def)
  next
    case In_read
    have "calls h (drain_step s)"
      by (rule scan_calls [of _ "ring s"]) (use In_read h in \<open>simp_all add: drain_step_def open_handles_def\<close>)
    then show ?thesis using In_read calls_next [of h s] by (simp add: loop_next_def)
  next
    case (In_scan hs)
    then show ?thesis using h w by (intro scanning_calls) auto
  next
    case (In_call g hs)
    have "calls h (s\<lparr>loop_at := In_scan hs\<rparr>)"
      by (rule scanning_calls [of _ hs]) (use In_call h w in \<open>simp_all add: open_handles_def\<close>)
    then show ?thesis using In_call calls_next [of h s] by (simp add: loop_next_def)
  next
    case (Spin g after)
    then show ?thesis using ns by blast
  qed
qed

section \<open>One handle and one thread\<close>

lemma reach_step: "async_reachable s \<Longrightarrow> async_step s s' \<Longrightarrow> async_reachable s'"
  unfolding async_reachable_def by (rule rtranclp.rtrancl_into_rtrancl)

definition opened :: async_sys where "opened = open_step 5 True async_start"
definition tested :: async_sys where "tested = set_sender 1 (send_step (Test 5) (set_sender 1 (Test 5, opened)))"
definition entered :: async_sys where "entered = set_sender 1 (send_step (Enter 5) tested)"
definition marked :: async_sys where "marked = set_sender 1 (send_step (Mark 5) entered)"
definition woken :: async_sys where "woken = set_sender 1 (wake_step Wrote 5, marked\<lparr>wakeups := 1\<rparr>)"
definition left :: async_sys where "left = set_sender 1 (send_step (Leave 5) woken)"

lemmas demo_defs = opened_def tested_def entered_def marked_def woken_def left_def async_start_def open_step_def

lemma tested_reachable: "async_reachable tested"
proof -
  have "async_reachable async_start" by (simp add: async_reachable_def)
  then have "async_reachable opened"
    by (rule reach_step) (auto simp: opened_def intro!: open_handle, simp_all add: async_start_def open_handles_def)
  then have "async_reachable (set_sender 1 (Test 5, opened))"
    by (rule reach_step) (auto intro!: call_send, simp_all add: demo_defs open_handles_def)
  then show ?thesis unfolding tested_def by (rule reach_step) (rule in_send, simp_all)
qed

lemma left_reachable: "async_reachable left"
proof -
  note tested_reachable
  then have "async_reachable entered" unfolding entered_def
    by (rule reach_step) (rule in_send, simp_all add: demo_defs)
  then have "async_reachable marked" unfolding marked_def
    by (rule reach_step) (rule in_send, simp_all add: demo_defs)
  then have "async_reachable woken" unfolding woken_def
    by (rule reach_step) (rule in_write, simp_all add: demo_defs EFD_MAX_def)
  then show ?thesis unfolding left_def
    by (rule reach_step) (rule in_send, simp_all add: demo_defs)
qed

text \<open>The thread has found the flag clear when user code closes the handle.\<close>

definition quiet :: async_sys where "quiet = loop_next (spin_start 5 tested)"

lemma quiet_reachable: "async_reachable quiet"
proof -
  have "async_reachable (spin_start 5 tested)"
    using tested_reachable by (rule reach_step) (rule close_handle, simp_all add: demo_defs open_handles_def)
  then show ?thesis unfolding quiet_def by (rule reach_step) (rule in_loop)
qed

section \<open>Properties\<close>

text \<open>C8: No call of uv_async_send is lost. Whatever steps the threads have taken before, once every call has returned the
  thread of the loop alone comes to the callback of each open handle that has a callback, is not
  being closed and has its pending flag set, and a set flag is one no callback has answered.\<close>

theorem async_send_answered:
  assumes "async_reachable s" and "\<forall>t. senders s t = Off" and "h \<in> open_handles s" and "flag s h" and "has_cb s h"
    and "\<forall>after. loop_at s \<noteq> Spin h after"
  shows "\<exists>n hs. 0 < n \<and> loop_at (loop_steps n s) = In_call h hs"
proof -
  note ok = async_reachable_ok [OF assms(1)]
  have "calls h s"
  proof (cases "\<exists>g after. loop_at s = Spin g after")
    case True
    then obtain g after where g: "loop_at s = Spin g after" by blast
    have b: "busy s g = 0" using ok assms(2) by (simp add: async_ok_def senders_ok_def busy_threads_def)
    have u: "user_code after" using ok g by (auto simp: async_ok_def spin_ok_def)
    have "g \<noteq> h" using g assms(6) by auto
    have n: "loop_next s = spin_step g after s" using g by (simp add: loop_next_def)
    have "calls h (spin_step g after s)"
    proof (rule awaited_calls)
      show "async_ok (spin_step g after s)" by (rule async_ok_spin [OF ok g])
      show "h \<in> open_handles (spin_step g after s)"
        using spin_opens [OF b u g] assms(3) \<open>g \<noteq> h\<close> by simp
      show "loop_at (spin_step g after s) \<noteq> Spin f a" for f a
        using leave_queue_user(2) [OF u] b by (simp add: spin_step_def)
    qed (use assms b in \<open>simp_all add: spin_step_def\<close>)
    then show ?thesis using n by (metis calls_next)
  next
    case False
    then show ?thesis using awaited_calls [OF ok] assms by blast
  qed
  then show ?thesis by (simp add: calls_def)
qed

theorem async_send_answered_witness: "flag left 5 \<and> (\<exists>n hs. 0 < n \<and> loop_at (loop_steps n left) = In_call 5 hs)"
  using async_send_answered [OF left_reachable, of 5] by (simp add: demo_defs open_handles_def)

text \<open>C24: After uv__async_close has returned, the handle is quiet: no thread writes to the eventfd of the loop for it any
  more, although threads may still be inside uv_async_send, and the loop does not visit it again. So
  uv__async_stop, which spins on every handle first, can close the descriptor.\<close>

theorem async_closed_quiet:
  assumes "async_reachable s" and "h \<in> gone s"
  shows "(\<forall>t. senders s t \<noteq> Wake h) \<and> h \<notin> open_handles s \<and> flag s h"
  using async_reachable_ok [OF assms(1)] assms(2) by (auto simp: async_ok_def flags_ok_def)

theorem async_closed_quiet_witness: "senders quiet 1 = Enter 5 \<and> (\<forall>t. senders quiet t \<noteq> Wake 5) \<and> flag quiet 5"
  using async_closed_quiet [OF quiet_reachable, of 5]
  by (simp add: quiet_def spin_start_def loop_next_def spin_step_def demo_defs)

end
