(* ===== verification/Uv_Pool.thy ===== *)
theory Uv_Pool
  imports Prelude "HOL-Library.Multiset"
begin

text \<open>
  The thread pool (threadpool.c): workers that take requests from a shared queue, at most half of them
  slow ones, and requests that are submitted, cancelled, and handed back to the loop. What a thread
  does while it holds the mutex is one step; a thread that waits for the condition can wake at any
  time, so a signal changes nothing here. That uv_async_send wakes the loop is the subject of Uv_Async.
  Shown: request_ok says where a request can be and what its fields then hold, pool_ok and announced are
  invariants of every interleaving, and thread_pool_sound is what follows for the users of the pool.
\<close>

section \<open>The state\<close>

text \<open>The nodes of the shared queue: the request with a number, and the two messages.\<close>

datatype work_node = Work nat | Run_slow_work | Exit_message

text \<open>The field work of a request: a function, uv__cancelled, or null (None).\<close>

datatype work_fn = Func | Cancelled

text \<open>A worker is at the start of an iteration, waits, executes a request or has executed it (slow or
  not), has handed it back, or has left.\<close>

datatype worker_pc = Ready | Waiting | Executing nat bool | Executed nat bool | Handed_back bool | Left

text \<open>\<open>linked\<close> says of a request that QUEUE_EMPTY is false for its node: QUEUE_INIT makes it empty,
  QUEUE_REMOVE alone does not. \<open>ran\<close> and \<open>finished\<close> record the calls of work and of done.\<close>

record pool =
  wq :: "work_node list"
  slow_io_pending_wq :: "nat list"
  idle_threads :: nat
  slow_io_work_running :: nat
  nthreads :: nat
  pcs :: "nat \<Rightarrow> worker_pc"
  w_work :: "nat \<Rightarrow> work_fn option"
  linked :: "nat \<Rightarrow> bool"
  loop_wq :: "nat list"
  local_wq :: "nat list"
  in_flight :: "nat set"
  ran :: "nat list"
  finished :: "(nat \<times> int) list"

abbreviation (input) UV_ECANCELED :: int where "UV_ECANCELED \<equiv> -125"
abbreviation (input) UV_EBUSY :: int where "UV_EBUSY \<equiv> -16"

definition slow_work_thread_threshold :: "pool \<Rightarrow> nat" where
  "slow_work_thread_threshold s = (nthreads s + 1) div 2"

definition at_threshold :: "pool \<Rightarrow> bool" where
  "at_threshold s \<longleftrightarrow> slow_work_thread_threshold s \<le> slow_io_work_running s"

definition set_pc :: "nat \<Rightarrow> worker_pc \<Rightarrow> pool \<Rightarrow> pool" where
  "set_pc t pc s = s\<lparr>pcs := (pcs s)(t := pc)\<rparr>"

section \<open>The workers\<close>

definition must_wait :: "pool \<Rightarrow> bool" where
  "must_wait s \<longleftrightarrow> wq s = [] \<or> (wq s = [Run_slow_work] \<and> at_threshold s)"

text \<open>An iteration from its start until the mutex is released, the thread waits, or the loop continues.\<close>

definition worker_take :: "nat \<Rightarrow> pool \<Rightarrow> pool" where
  "worker_take t s =
     (if must_wait s then set_pc t Waiting (s\<lparr>idle_threads := idle_threads s + 1\<rparr>)
      else case hd (wq s) of
        Exit_message \<Rightarrow> set_pc t Left s
      | Work w \<Rightarrow> set_pc t (Executing w False) (s\<lparr>wq := tl (wq s), linked := (linked s)(w := False)\<rparr>)
      | Run_slow_work \<Rightarrow>
          let s1 = s\<lparr>wq := tl (wq s)\<rparr> in
          if at_threshold s then s1\<lparr>wq := wq s1 @ [Run_slow_work]\<rparr>
          else (case slow_io_pending_wq s of
            [] \<Rightarrow> s1
          | w # ws \<Rightarrow> set_pc t (Executing w True) (s1\<lparr>slow_io_work_running := slow_io_work_running s + 1,
              slow_io_pending_wq := ws, linked := (linked s)(w := False),
              wq := (if ws = [] then wq s1 else wq s1 @ [Run_slow_work])\<rparr>)))"

definition worker_wakes :: "nat \<Rightarrow> pool \<Rightarrow> pool" where
  "worker_wakes t s = set_pc t Ready (s\<lparr>idle_threads := idle_threads s - 1\<rparr>)"

text \<open>The call of work: uv__cancelled aborts, and calling null is undefined.\<close>

definition worker_executes :: "nat \<Rightarrow> nat \<Rightarrow> bool \<Rightarrow> pool \<Rightarrow> pool run" where
  "worker_executes t w slow s = (case w_work s w of
      Some Func \<Rightarrow> Ret (set_pc t (Executed w slow) (s\<lparr>ran := ran s @ [w]\<rparr>))
    | Some Cancelled \<Rightarrow> Abort
    | None \<Rightarrow> Undef)"

definition worker_hands_back :: "nat \<Rightarrow> nat \<Rightarrow> bool \<Rightarrow> pool \<Rightarrow> pool" where
  "worker_hands_back t w slow s = set_pc t (Handed_back slow)
     (s\<lparr>w_work := (w_work s)(w := None), loop_wq := loop_wq s @ [w], linked := (linked s)(w := True)\<rparr>)"

definition worker_retakes :: "nat \<Rightarrow> bool \<Rightarrow> pool \<Rightarrow> pool" where
  "worker_retakes t slow s = set_pc t Ready
     (if slow then s\<lparr>slow_io_work_running := slow_io_work_running s - 1\<rparr> else s)"

section \<open>Requests\<close>

definition post :: "nat \<Rightarrow> bool \<Rightarrow> pool \<Rightarrow> pool" where
  "post w slow s =
     (let s1 = s\<lparr>linked := (linked s)(w := True)\<rparr> in
      if slow then
        let s2 = s1\<lparr>slow_io_pending_wq := slow_io_pending_wq s @ [w]\<rparr> in
        if Run_slow_work \<in> set (wq s) then s2 else s2\<lparr>wq := wq s @ [Run_slow_work]\<rparr>
      else s1\<lparr>wq := wq s @ [Work w]\<rparr>)"

definition uv__work_submit :: "nat \<Rightarrow> bool \<Rightarrow> pool \<Rightarrow> pool" where
  "uv__work_submit w slow s = post w slow (s\<lparr>w_work := (w_work s)(w := Some Func), in_flight := insert w (in_flight s)\<rparr>)"

text \<open>uv__threadpool_cleanup until it joins the threads: they leave when they see the message, which stays.\<close>

definition uv__threadpool_cleanup :: "pool \<Rightarrow> pool" where
  "uv__threadpool_cleanup s = (if nthreads s = 0 then s else s\<lparr>wq := wq s @ [Exit_message]\<rparr>)"

text \<open>The assignment of uv__cancelled and the second critical section follow the first without the mutexes
  between them; the request is in no queue then, so no worker can see it, and uv_cancel is called by the
  loop's thread only. The removal from whichever queue holds the node is QUEUE_REMOVE.\<close>

definition uv__work_cancel :: "nat \<Rightarrow> pool \<Rightarrow> int \<times> pool" where
  "uv__work_cancel w s =
     (if \<not> (linked s w \<and> w_work s w \<noteq> None) then (UV_EBUSY, s)
      else let s1 = s\<lparr>wq := removeAll (Work w) (wq s), slow_io_pending_wq := removeAll w (slow_io_pending_wq s),
          loop_wq := removeAll w (loop_wq s), local_wq := removeAll w (local_wq s)\<rparr> in
        (0, s1\<lparr>w_work := (w_work s)(w := Some Cancelled), loop_wq := loop_wq s1 @ [w]\<rparr>))"

text \<open>uv__work_done: the queue of the loop moves to a local one, and done is called for each request in it.\<close>

definition work_done_start :: "pool \<Rightarrow> pool" where
  "work_done_start s = s\<lparr>local_wq := loop_wq s, loop_wq := []\<rparr>"

definition work_done_next :: "nat \<Rightarrow> nat list \<Rightarrow> pool \<Rightarrow> pool" where
  "work_done_next w ws s = s\<lparr>local_wq := ws, in_flight := in_flight s - {w},
     finished := finished s @ [(w, if w_work s w = Some Cancelled then UV_ECANCELED else 0)]\<rparr>"

section \<open>Interleavings\<close>

text \<open>A request is not submitted again before its done was called, and cancelled only while it is in flight.\<close>

inductive pool_step :: "pool \<Rightarrow> pool \<Rightarrow> bool" where
  take: "t < nthreads s \<Longrightarrow> pcs s t = Ready \<Longrightarrow> pool_step s (worker_take t s)"
| wake: "t < nthreads s \<Longrightarrow> pcs s t = Waiting \<Longrightarrow> pool_step s (worker_wakes t s)"
| execute: "t < nthreads s \<Longrightarrow> pcs s t = Executing w slow \<Longrightarrow> worker_executes t w slow s = Ret s' \<Longrightarrow> pool_step s s'"
| hand_back: "t < nthreads s \<Longrightarrow> pcs s t = Executed w slow \<Longrightarrow> pool_step s (worker_hands_back t w slow s)"
| retake: "t < nthreads s \<Longrightarrow> pcs s t = Handed_back slow \<Longrightarrow> pool_step s (worker_retakes t slow s)"
| submit: "w \<notin> in_flight s \<Longrightarrow> pool_step s (uv__work_submit w slow s)"
| cancel: "w \<in> in_flight s \<Longrightarrow> pool_step s (snd (uv__work_cancel w s))"
| cleanup: "Exit_message \<notin> set (wq s) \<Longrightarrow> pool_step s (uv__threadpool_cleanup s)"
| finish_start: "local_wq s = [] \<Longrightarrow> pool_step s (work_done_start s)"
| finish_next: "local_wq s = w # ws \<Longrightarrow> pool_step s (work_done_next w ws s)"

text \<open>After init_threads: \<open>n\<close> workers before their first iteration.\<close>

definition pool_start :: "nat \<Rightarrow> pool" where
  "pool_start n = \<lparr>wq = [], slow_io_pending_wq = [], idle_threads = 0, slow_io_work_running = 0, nthreads = n,
     pcs = \<lambda>_. Ready, w_work = \<lambda>_. None, linked = \<lambda>_. False, loop_wq = [], local_wq = [], in_flight = {}, ran = [], finished = []\<rparr>"

definition pool_reachable :: "nat \<Rightarrow> pool \<Rightarrow> bool" where
  "pool_reachable n = pool_step\<^sup>*\<^sup>* (pool_start n)"

text \<open>The number of threads init_threads chooses from UV_THREADPOOL_SIZE, and whether its malloc succeeds.\<close>

definition init_threads :: "32 word option \<Rightarrow> bool \<Rightarrow> 32 word" where
  "init_threads val malloc_ok =
     (let n1 = (case val of None \<Rightarrow> 4 | Some v \<Rightarrow> v); n2 = (if n1 = 0 then 1 else n1);
          n3 = (if 1024 < n2 then 1024 else n2) in
      if 4 < n3 \<and> \<not> malloc_ok then 4 else n3)"

section \<open>Where a request is\<close>

fun works :: "work_node list \<Rightarrow> nat list" where
  "works [] = []"
| "works (Work w # qs) = w # works qs"
| "works (_ # qs) = works qs"

lemma works_append [simp]: "works (ps @ qs) = works ps @ works qs"
  by (induction ps rule: works.induct) simp_all

lemma works_remove: "works (removeAll (Work w) qs) = removeAll w (works qs)"
  by (induction qs rule: works.induct) auto

fun held :: "nat \<Rightarrow> worker_pc \<Rightarrow> nat" where
  "held w (Executing v _) = of_bool (v = w)"
| "held w (Executed v _) = of_bool (v = w)"
| "held w _ = 0"

fun executed :: "nat \<Rightarrow> worker_pc \<Rightarrow> nat" where
  "executed w (Executed v _) = of_bool (v = w)"
| "executed w _ = 0"

fun slow_of :: "worker_pc \<Rightarrow> nat" where
  "slow_of (Executing _ b) = of_bool b"
| "slow_of (Executed _ b) = of_bool b"
| "slow_of (Handed_back b) = of_bool b"
| "slow_of _ = 0"

text \<open>The number of threads at a place, weighted.\<close>

definition threads :: "(worker_pc \<Rightarrow> nat) \<Rightarrow> pool \<Rightarrow> nat" where
  "threads f s = (\<Sum>t<nthreads s. f (pcs s t))"

definition queued :: "nat \<Rightarrow> pool \<Rightarrow> nat" where
  "queued w s = count_list (works (wq s)) w + count_list (slow_io_pending_wq s) w"

definition returned :: "nat \<Rightarrow> pool \<Rightarrow> nat" where
  "returned w s = count_list (loop_wq s) w + count_list (local_wq s) w"

definition succeeded :: "pool \<Rightarrow> nat list" where
  "succeeded s = map fst (filter (\<lambda>x. snd x = 0) (finished s))"

definition request_ok :: "pool \<Rightarrow> nat \<Rightarrow> bool" where
  "request_ok s w \<longleftrightarrow> queued w s + threads (held w) s + returned w s = of_bool (w \<in> in_flight s) \<and>
     (0 < queued w s \<longrightarrow> linked s w \<and> w_work s w = Some Func) \<and>
     (0 < threads (held w) s \<longrightarrow> \<not> linked s w \<and> w_work s w = Some Func) \<and>
     (0 < returned w s \<longrightarrow> linked s w \<and> w_work s w \<noteq> Some Func) \<and>
     count_list (ran s) w = count_list (succeeded s) w + threads (executed w) s + (if w_work s w = None then returned w s else 0)"

definition pool_ok :: "nat \<Rightarrow> pool \<Rightarrow> bool" where
  "pool_ok n s \<longleftrightarrow> nthreads s = n \<and> slow_io_work_running s = threads slow_of s \<and>
     slow_io_work_running s \<le> (n + 1) div 2 \<and> (\<forall>w. request_ok s w)"

lemma threads_move:
  assumes "t < nthreads s" "pcs s' = (pcs s)(t := pc)" "nthreads s' = nthreads s"
  shows "threads f s' + f (pcs s t) = threads f s + f pc"
proof -
  have "(\<Sum>i<n. f ((g(t := pc)) i)) + f (g t) = (\<Sum>i<n. f (g i)) + f pc" if "t < n" for g n
  proof -
    have s: "(\<Sum>i<n. h i) = h t + (\<Sum>i \<in> {..<n} - {t}. h i)" for h :: "nat \<Rightarrow> nat" by (rule sum.remove) (use that in auto)
    have "(\<Sum>i \<in> {..<n} - {t}. f ((g(t := pc)) i)) = (\<Sum>i \<in> {..<n} - {t}. f (g i))" by (rule sum.cong) auto
    then show ?thesis using s [of "\<lambda>i. f ((g(t := pc)) i)"] s [of "\<lambda>i. f (g i)"] by simp
  qed
  from this [OF assms(1), of "pcs s"] show ?thesis using assms(2,3) by (simp add: threads_def)
qed

lemma threads_keep: "pcs s' = pcs s \<Longrightarrow> nthreads s' = nthreads s \<Longrightarrow> threads f s' = threads f s"
  by (simp add: threads_def)

lemma threads_least: "t < nthreads s \<Longrightarrow> f (pcs s t) \<le> threads f s"
  unfolding threads_def by (rule member_le_sum) simp_all

lemma executed_held: "threads (executed w) s \<le> threads (held w) s"
  unfolding threads_def by (rule sum_mono) (metis executed.elims held.simps(2) le_refl zero_le)

lemma set_pc_simps [simp]: "pcs (set_pc t pc s) = (pcs s)(t := pc)" "nthreads (set_pc t pc s) = nthreads s" "wq (set_pc t pc s) = wq s"
    "slow_io_pending_wq (set_pc t pc s) = slow_io_pending_wq s" "loop_wq (set_pc t pc s) = loop_wq s" "local_wq (set_pc t pc s) = local_wq s"
    "slow_io_work_running (set_pc t pc s) = slow_io_work_running s" "linked (set_pc t pc s) = linked s" "w_work (set_pc t pc s) = w_work s"
    "in_flight (set_pc t pc s) = in_flight s" "ran (set_pc t pc s) = ran s" "finished (set_pc t pc s) = finished s"
  by (simp_all add: set_pc_def)

lemmas place_defs = queued_def returned_def succeeded_def

section \<open>Every step keeps it\<close>

text \<open>A thread that holds no request moves to a place where it holds none, with as much slow work.\<close>

lemma idle_move_ok:
  assumes ok: "pool_ok n s" and t: "t < nthreads s" and s': "pcs s' = (pcs s)(t := pc)" "nthreads s' = nthreads s"
      "works (wq s') = works (wq s)" "slow_io_pending_wq s' = slow_io_pending_wq s" "loop_wq s' = loop_wq s" "local_wq s' = local_wq s"
      "linked s' = linked s" "w_work s' = w_work s" "in_flight s' = in_flight s" "ran s' = ran s" "finished s' = finished s"
    and h: "\<And>w. held w (pcs s t) = 0 \<and> held w pc = 0"
    and r: "slow_io_work_running s' + slow_of (pcs s t) = slow_io_work_running s + slow_of pc" "slow_of pc \<le> slow_of (pcs s t)"
  shows "pool_ok n s'"
proof -
  note mv = threads_move [OF t s'(1,2)]
  have e: "executed w pc \<le> held w pc" for w pc by (cases pc) simp_all
  have "threads (held w) s' = threads (held w) s" "threads (executed w) s' = threads (executed w) s" for w
    using mv [of "held w"] mv [of "executed w"] h [of w] e [of w pc] e [of w "pcs s t"] by simp_all
  moreover have "slow_io_work_running s' = threads slow_of s'" using mv [of slow_of] r ok by (simp add: pool_ok_def)
  moreover have "slow_io_work_running s' \<le> (n + 1) div 2" using r ok by (simp add: pool_ok_def)
  ultimately show ?thesis using ok s' by (simp add: pool_ok_def request_ok_def place_defs)
qed

lemma request_ok_same:
  assumes "request_ok s w" and "queued w s' = queued w s" "returned w s' = returned w s" "linked s' w = linked s w" "w_work s' w = w_work s w"
    "w \<in> in_flight s' \<longleftrightarrow> w \<in> in_flight s" "count_list (ran s') w = count_list (ran s) w" "count_list (succeeded s') w = count_list (succeeded s) w"
    "threads (held w) s' = threads (held w) s" "threads (executed w) s' = threads (executed w) s"
  shows "request_ok s' w"
  using assms by (simp add: request_ok_def)


lemma count_removeAll: "count_list (removeAll w xs) v = (if v = w then 0 else count_list xs v)"
  by (induction xs) auto

lemma grab_ok:
  assumes ok: "pool_ok n s" and t: "t < nthreads s" "pcs s t = Ready" and s': "pcs s' = (pcs s)(t := Executing w b)" "nthreads s' = nthreads s"
    and q: "\<And>v. queued v s' + of_bool (v = w) = queued v s" "loop_wq s' = loop_wq s" "local_wq s' = local_wq s"
    and f: "linked s' = (linked s)(w := False)" "w_work s' = w_work s" "in_flight s' = in_flight s" "ran s' = ran s" "finished s' = finished s"
    and r: "slow_io_work_running s' = slow_io_work_running s + of_bool b" "slow_io_work_running s' \<le> slow_work_thread_threshold s"
  shows "pool_ok n s'"
proof -
  note mv = threads_move [OF t(1) s']
  have "request_ok s' v" for v
  proof -
    have o: "request_ok s v" using ok by (simp add: pool_ok_def)
    have m: "threads (held v) s' = threads (held v) s + of_bool (v = w)" "threads (executed v) s' = threads (executed v) s"
      using mv [of "held v"] mv [of "executed v"] t(2) by auto
    have b: "returned v s' = returned v s" "succeeded s' = succeeded s" using q(2,3) f(5) by (simp_all add: returned_def succeeded_def)
    show ?thesis
    proof (cases "v = w")
      case True
      then show ?thesis using o q(1) [of v] m b f unfolding request_ok_def by (auto simp: of_bool_def split: if_splits)
    next
      case False
      with o q(1) [of v] m b f show ?thesis by (intro request_ok_same [OF o]) auto
    qed
  qed
  moreover have "slow_io_work_running s' = threads slow_of s'" using mv [of slow_of] t(2) r(1) ok by (simp add: pool_ok_def)
  ultimately show ?thesis using ok s'(2) r(2) by (simp add: pool_ok_def slow_work_thread_threshold_def)
qed

lemma take_ok:
  assumes ok: "pool_ok n s" and t: "t < nthreads s" "pcs s t = Ready"
  shows "pool_ok n (worker_take t s)"
proof (cases "must_wait s")
  case True
  then show ?thesis using t by (intro idle_move_ok [OF ok t(1), of _ Waiting]) (simp_all add: worker_take_def)
next
  case False
  then obtain q qs where w: "wq s = q # qs" by (cases "wq s") (auto simp: must_wait_def)
  show ?thesis
  proof (cases q)
    case (Work w)
    have "slow_io_work_running s \<le> slow_work_thread_threshold s" using ok by (simp add: pool_ok_def slow_work_thread_threshold_def)
    then show ?thesis using False w Work t
      by (intro grab_ok [OF ok t, of _ w False]) (simp_all add: worker_take_def queued_def)
  next
    case Exit_message
    then show ?thesis using False w t by (intro idle_move_ok [OF ok t(1), of _ Left]) (simp_all add: worker_take_def)
  next
    case Run_slow_work
    show ?thesis
    proof (cases "at_threshold s \<or> slow_io_pending_wq s = []")
      case True
      then show ?thesis using False w Run_slow_work t
        by (intro idle_move_ok [OF ok t(1), of _ Ready]) (auto simp: worker_take_def Let_def fun_upd_idem)
    next
      case n: False
      then obtain v vs where v: "slow_io_pending_wq s = v # vs" by (cases "slow_io_pending_wq s") auto
      have "slow_io_work_running s + 1 \<le> slow_work_thread_threshold s" using n by (simp add: at_threshold_def)
      then show ?thesis using False w Run_slow_work n v t
        by (intro grab_ok [OF ok t, of _ v True]) (simp_all add: worker_take_def queued_def Let_def)
    qed
  qed
qed

lemma execute_ok:
  assumes ok: "pool_ok n s" and t: "t < nthreads s" "pcs s t = Executing w b" and e: "worker_executes t w b s = Ret s'"
  shows "pool_ok n s'"
proof -
  have s': "s' = set_pc t (Executed w b) (s\<lparr>ran := ran s @ [w]\<rparr>)"
    using e by (auto simp: worker_executes_def split: option.splits work_fn.splits)
  have p: "pcs s' = (pcs s)(t := Executed w b)" "nthreads s' = nthreads s" by (simp_all add: s')
  note mv = threads_move [OF t(1) p]
  have "request_ok s' v" for v
  proof -
    have o: "request_ok s v" using ok by (simp add: pool_ok_def)
    have m: "threads (held v) s' = threads (held v) s" "threads (executed v) s' = threads (executed v) s + of_bool (v = w)"
      using mv [of "held v"] mv [of "executed v"] t(2) by auto
    then show ?thesis using o by (auto simp: request_ok_def place_defs s')
  qed
  moreover have "threads slow_of s' = threads slow_of s" using mv [of slow_of] t(2) by simp
  ultimately show ?thesis using ok by (simp add: pool_ok_def s' slow_work_thread_threshold_def)
qed

lemma hand_back_ok:
  assumes ok: "pool_ok n s" and t: "t < nthreads s" "pcs s t = Executed w b"
  shows "pool_ok n (worker_hands_back t w b s)"
proof -
  let ?s = "worker_hands_back t w b s"
  have p: "pcs ?s = (pcs s)(t := Handed_back b)" "nthreads ?s = nthreads s" by (simp_all add: worker_hands_back_def)
  note mv = threads_move [OF t(1) p]
  have "request_ok ?s v" for v
  proof -
    have o: "request_ok s v" using ok by (simp add: pool_ok_def)
    have m: "threads (held v) ?s + of_bool (v = w) = threads (held v) s" "threads (executed v) ?s + of_bool (v = w) = threads (executed v) s"
      using mv [of "held v"] mv [of "executed v"] t(2) by auto
    have f: "returned v ?s = returned v s + of_bool (v = w)" "queued v ?s = queued v s" "succeeded ?s = succeeded s" "ran ?s = ran s"
      "in_flight ?s = in_flight s" "linked ?s = (linked s)(w := True)" "w_work ?s = (w_work s)(w := None)"
      by (auto simp: worker_hands_back_def place_defs)
    show ?thesis
    proof (cases "v = w")
      case True
      then show ?thesis using o m f unfolding request_ok_def by (auto simp: of_bool_def split: if_splits)
    next
      case False
      with o m f show ?thesis by (intro request_ok_same [OF o]) auto
    qed
  qed
  moreover have "threads slow_of ?s = threads slow_of s" using mv [of slow_of] t(2) by simp
  ultimately show ?thesis using ok by (simp add: pool_ok_def worker_hands_back_def slow_work_thread_threshold_def)
qed

lemma retake_ok:
  assumes ok: "pool_ok n s" and t: "t < nthreads s" "pcs s t = Handed_back b"
  shows "pool_ok n (worker_retakes t b s)"
proof -
  have "of_bool b \<le> slow_io_work_running s" using threads_least [OF t(1), of slow_of] t(2) ok by (simp add: pool_ok_def)
  then show ?thesis using t by (intro idle_move_ok [OF ok t(1), of _ Ready]) (auto simp: worker_retakes_def)
qed

text \<open>A step that moves no thread.\<close>

lemma request_step_ok:
  assumes ok: "pool_ok n s" and s': "pcs s' = pcs s" "nthreads s' = nthreads s" "slow_io_work_running s' = slow_io_work_running s"
    and r: "\<And>v. request_ok s v \<Longrightarrow> threads (held v) s' = threads (held v) s \<Longrightarrow> threads (executed v) s' = threads (executed v) s \<Longrightarrow>
      threads (executed v) s \<le> threads (held v) s \<Longrightarrow> request_ok s' v"
  shows "pool_ok n s'"
  using assms threads_keep [OF s'(1,2)] executed_held [of _ s] by (simp add: pool_ok_def slow_work_thread_threshold_def)

lemma submit_ok: "pool_ok n s \<Longrightarrow> w \<notin> in_flight s \<Longrightarrow> pool_ok n (uv__work_submit w slow s)"
proof (rule request_step_ok [of n s])
  fix v
  let ?s = "uv__work_submit w slow s"
  assume w: "w \<notin> in_flight s" and o: "request_ok s v" and m: "threads (held v) ?s = threads (held v) s" "threads (executed v) ?s = threads (executed v) s"
    "threads (executed v) s \<le> threads (held v) s"
  have f: "queued v ?s = queued v s + of_bool (v = w)" "returned v ?s = returned v s" "linked ?s = (linked s)(w := True)"
    "w_work ?s = (w_work s)(w := Some Func)" "in_flight ?s = insert w (in_flight s)" "ran ?s = ran s" "succeeded ?s = succeeded s"
    by (auto simp: uv__work_submit_def post_def place_defs Let_def)
  show "request_ok ?s v"
  proof (cases "v = w")
    case True
    then show ?thesis using o m f w unfolding request_ok_def by auto
  next
    case False
    with o m f show ?thesis by (intro request_ok_same [OF o]) auto
  qed
qed (simp_all add: uv__work_submit_def post_def Let_def)

lemma cancel_ok: "pool_ok n s \<Longrightarrow> w \<in> in_flight s \<Longrightarrow> pool_ok n (snd (uv__work_cancel w s))"
proof (cases "linked s w \<and> w_work s w \<noteq> None")
  case True
  assume ok: "pool_ok n s" and w: "w \<in> in_flight s"
  let ?s = "snd (uv__work_cancel w s)"
  show ?thesis
  proof (rule request_step_ok [OF ok])
    fix v
    assume o: "request_ok s v" and m: "threads (held v) ?s = threads (held v) s" "threads (executed v) ?s = threads (executed v) s"
      "threads (executed v) s \<le> threads (held v) s"
    have f: "queued v ?s = (if v = w then 0 else queued v s)" "returned v ?s = (if v = w then 1 else returned v s)" "linked ?s = linked s"
      "w_work ?s = (w_work s)(w := Some Cancelled)" "in_flight ?s = in_flight s" "ran ?s = ran s" "succeeded ?s = succeeded s"
      using True by (simp_all add: uv__work_cancel_def place_defs Let_def works_remove count_removeAll)
    show "request_ok ?s v"
    proof (cases "v = w")
      case True': True
      then show ?thesis using o m f w True unfolding request_ok_def by auto
    next
      case False
      with o m f show ?thesis by (intro request_ok_same [OF o]) auto
    qed
  qed (use True in \<open>simp_all add: uv__work_cancel_def Let_def\<close>)
qed (simp add: uv__work_cancel_def)

lemma finish_ok:
  assumes ok: "pool_ok n s" and l: "local_wq s = w # ws"
  shows "pool_ok n (work_done_next w ws s)"
proof (rule request_step_ok [OF ok])
  fix v
  let ?s = "work_done_next w ws s"
  assume o: "request_ok s v" and m: "threads (held v) ?s = threads (held v) s" "threads (executed v) ?s = threads (executed v) s"
    "threads (executed v) s \<le> threads (held v) s"
  have f: "queued v ?s = queued v s" "returned v ?s + of_bool (v = w) = returned v s" "linked ?s = linked s" "w_work ?s = w_work s"
    "in_flight ?s = in_flight s - {w}" "ran ?s = ran s"
    "count_list (succeeded ?s) v = count_list (succeeded s) v + of_bool (v = w \<and> w_work s w \<noteq> Some Cancelled)"
    using l by (simp_all add: work_done_next_def place_defs)
  show "request_ok ?s v"
  proof (cases "v = w")
    case True
    have "w_work s w = None \<or> w_work s w = Some Cancelled" using o f(2) True
      by (cases "w_work s w") (auto simp: request_ok_def, metis work_fn.exhaust)
    then show ?thesis using o m f True unfolding request_ok_def by (auto simp: of_bool_def split: if_splits)
  next
    case False
    with o m f show ?thesis by (intro request_ok_same [OF o]) auto
  qed
qed (simp_all add: work_done_next_def)

lemma pool_step_ok: "pool_step s s' \<Longrightarrow> pool_ok n s \<Longrightarrow> pool_ok n s'"
proof (induction rule: pool_step.induct)
  case (wake t s)
  then show ?case by - (rule idle_move_ok [of n s t _ Ready]; simp add: worker_wakes_def)
next
  case (cleanup s)
  then show ?case by - (rule request_step_ok [of n s], auto simp: uv__threadpool_cleanup_def place_defs request_ok_def)
next
  case (finish_start s)
  then show ?case by - (rule request_step_ok [of n s], auto simp: work_done_start_def place_defs request_ok_def)
qed (rule take_ok execute_ok hand_back_ok retake_ok submit_ok cancel_ok finish_ok; assumption)+

lemma pool_start_ok: "pool_ok n (pool_start n)"
  by (simp add: pool_ok_def request_ok_def pool_start_def threads_def place_defs slow_work_thread_threshold_def)

lemma pool_reachable_ok: "pool_reachable n s \<Longrightarrow> pool_ok n s"
  unfolding pool_reachable_def by (induction rule: rtranclp_induct) (auto intro: pool_start_ok pool_step_ok)

section \<open>Slow work is not forgotten\<close>

text \<open>The message that announces slow work is in the queue once while slow work is pending, and never twice.\<close>

definition announced :: "pool \<Rightarrow> bool" where
  "announced s \<longleftrightarrow> count_list (wq s) Run_slow_work \<le> 1 \<and> (slow_io_pending_wq s \<noteq> [] \<longrightarrow> Run_slow_work \<in> set (wq s))"

lemma take_announced: "announced s \<Longrightarrow> announced (worker_take t s)"
proof (cases "wq s")
  case (Cons q qs)
  assume "announced s"
  with Cons show ?thesis
    by (cases q; cases "slow_io_pending_wq s") (auto simp: worker_take_def announced_def Let_def count_list_0_iff)
qed (simp add: worker_take_def must_wait_def announced_def)

lemma cancel_announced: "announced s \<Longrightarrow> announced (snd (uv__work_cancel w s))"
  by (auto simp: uv__work_cancel_def announced_def Let_def count_removeAll)

lemma submit_announced: "announced s \<Longrightarrow> announced (uv__work_submit w slow s)"
  by (auto simp: uv__work_submit_def post_def announced_def Let_def count_list_0_iff)

lemma step_announced: "pool_step s s' \<Longrightarrow> announced s \<Longrightarrow> announced s'"
proof (induction rule: pool_step.induct)
  case (execute t s w slow s')
  then show ?case by (auto simp: worker_executes_def announced_def split: option.splits work_fn.splits)
qed (simp_all add: take_announced submit_announced cancel_announced, simp_all add: announced_def worker_wakes_def worker_hands_back_def
  worker_retakes_def uv__threadpool_cleanup_def work_done_start_def work_done_next_def count_list_0_iff)

lemma start_announced: "announced (pool_start n)"
  by (simp add: announced_def pool_start_def)

lemma reachable_announced: "pool_reachable n s \<Longrightarrow> announced s"
  unfolding pool_reachable_def by (induction rule: rtranclp_induct) (auto intro: start_announced step_announced)

section \<open>What the pool promises\<close>

lemma threads_held:
  assumes "t < nthreads s" "held w (pcs s t) = 1" shows "0 < threads (held w) s"
  using threads_least [of t s "held w"] assms by simp

lemma init_threads_bounds: "1 \<le> init_threads val ok \<and> init_threads val ok \<le> 1024"
  by (auto simp: init_threads_def Let_def word_le_nat_alt word_less_nat_alt Suc_le_eq unat_gt_0 split: option.splits)

lemma slow_of_le: "slow_of pc \<le> 1"
  by (cases pc) simp_all

lemma held_le: "held w pc \<le> 1"
  by (cases pc) simp_all

lemma threads_card:
  assumes "\<And>pc. f pc \<le> (1::nat)" shows "threads f s = card {t. t < nthreads s \<and> f (pcs s t) = 1}"
proof -
  have b: "f pc = of_bool (f pc = 1)" for pc using assms [of pc] by (cases "f pc") auto
  have "threads f s = (\<Sum>t<nthreads s. of_bool (f (pcs s t) = 1))"
    unfolding threads_def by (rule sum.cong [OF refl]) (rule b)
  also have "\<dots> = card {t \<in> {..<nthreads s}. f (pcs s t) = 1}" by (simp add: of_bool_def flip: sum.inter_filter)
  finally show ?thesis by simp
qed

text \<open>C17: In every interleaving of the workers, of submissions, cancellations and of uv__work_done: a worker that calls
  the function of its request never calls uv__cancelled (which aborts) or null; a request in flight is in exactly one
  of the queues or held by exactly one worker; a request that is not in flight had its function called once
  for each time done was told that it succeeded, so a cancelled request never ran; at most half of the
  threads, rounded up, do slow work; and the announcement of pending slow work is in the queue exactly once.\<close>

theorem thread_pool_sound:
  assumes "pool_reachable n s"
  shows "(\<forall>t w slow. t < n \<longrightarrow> pcs s t = Executing w slow \<longrightarrow> (\<exists>s'. worker_executes t w slow s = Ret s')) \<and>
    (\<forall>w \<in> in_flight s. queued w s + returned w s + card {t. t < n \<and> held w (pcs s t) = 1} = 1) \<and>
    (\<forall>w. w \<notin> in_flight s \<longrightarrow> count_list (ran s) w = count_list (succeeded s) w) \<and>
    card {t. t < n \<and> slow_of (pcs s t) = 1} = slow_io_work_running s \<and> slow_io_work_running s \<le> (n + 1) div 2 \<and>
    count_list (wq s) Run_slow_work \<le> 1 \<and> (slow_io_pending_wq s \<noteq> [] \<longrightarrow> Run_slow_work \<in> set (wq s))"
proof -
  note ok = pool_reachable_ok [OF assms] and a = reachable_announced [OF assms]
  have r: "request_ok s w" for w using ok by (simp add: pool_ok_def)
  have n: "nthreads s = n" using ok by (simp add: pool_ok_def)
  have "\<exists>s'. worker_executes t w slow s = Ret s'" if "t < n" "pcs s t = Executing w slow" for t w slow
    using r [of w] threads_held [of t s w] that n by (simp add: request_ok_def worker_executes_def)
  moreover have "queued w s + returned w s + card {t. t < n \<and> held w (pcs s t) = 1} = 1" if "w \<in> in_flight s" for w
    using r [of w] threads_card [of "held w" s] held_le that n by (simp add: request_ok_def)
  moreover have "count_list (ran s) w = count_list (succeeded s) w" if "w \<notin> in_flight s" for w
    using r [of w] executed_held [of w s] that by (simp add: request_ok_def)
  ultimately show ?thesis using a ok threads_card [of slow_of s] slow_of_le n by (simp add: pool_ok_def announced_def)
qed

text \<open>One thread has taken a slow request; a second one waits, because only one thread may do slow work.\<close>

lemma thread_pool_sound_witness:
  "let s = worker_take 0 (uv__work_submit 1 True (uv__work_submit 0 True (pool_start 1))) in
     pcs s 0 = Executing 0 True \<and> fst (uv__work_cancel 0 s) = UV_EBUSY \<and> (\<exists>s'. worker_executes 0 0 True s = Ret s') \<and>
     slow_io_pending_wq s = [1] \<and> Run_slow_work \<in> set (wq s) \<and> slow_io_work_running s \<le> 1"
proof -
  let ?s1 = "uv__work_submit 0 True (pool_start 1)"
  let ?s2 = "uv__work_submit 1 True ?s1"
  have s2: "?s2 = (pool_start 1)\<lparr>wq := [Run_slow_work], slow_io_pending_wq := [0, 1], w_work := (\<lambda>_. None)(0 := Some Func, 1 := Some Func),
      linked := (\<lambda>_. False)(0 := True, 1 := True), in_flight := {0, 1}\<rparr>"
    by (auto simp: uv__work_submit_def post_def pool_start_def)
  have s3: "pcs (worker_take 0 ?s2) 0 = Executing 0 True" "fst (uv__work_cancel 0 (worker_take 0 ?s2)) = UV_EBUSY"
      "slow_io_pending_wq (worker_take 0 ?s2) = [1]"
    unfolding s2 by (simp_all add: worker_take_def must_wait_def at_threshold_def slow_work_thread_threshold_def pool_start_def
      Let_def uv__work_cancel_def)
  have "pool_step (pool_start 1) ?s1" by (rule pool_step.submit) (simp add: pool_start_def)
  moreover have "pool_step ?s1 ?s2" by (rule pool_step.submit) (simp add: pool_start_def uv__work_submit_def post_def)
  moreover have "pool_step ?s2 (worker_take 0 ?s2)" unfolding s2 by (rule pool_step.take) (simp_all add: pool_start_def)
  ultimately have "pool_reachable 1 (worker_take 0 ?s2)"
    unfolding pool_reachable_def by (meson rtranclp.rtrancl_refl rtranclp.rtrancl_into_rtrancl)
  note p = thread_pool_sound [OF this]
  have "\<exists>s'. worker_executes 0 0 True (worker_take 0 ?s2) = Ret s'"
    using conjunct1 [OF p, rule_format, of 0 0 True] s3(1) by simp
  moreover have "Run_slow_work \<in> set (wq (worker_take 0 ?s2)) \<and> slow_io_work_running (worker_take 0 ?s2) \<le> 1"
    using p s3(3) by simp
  ultimately show ?thesis using s3 by (simp add: Let_def)
qed

end
