(* ===== verification/Uv_Inet.thy ===== *)
theory Uv_Inet
  imports Prelude
begin

text \<open>
  Addresses as text (inet.c) and the bounded copy of strings they end with (strscpy.c). A byte is a
  number below 256, an object in memory a list, and a C string the list of its bytes without the
  null byte; the text snprintf writes for a number is the list of its digits.
\<close>

abbreviation (input) AF_INET :: int where "AF_INET \<equiv> 2"
abbreviation (input) AF_INET6 :: int where "AF_INET6 \<equiv> 10"
abbreviation (input) UV_EINVAL :: int where "UV_EINVAL \<equiv> -22"
abbreviation (input) UV_ENOSPC :: int where "UV_ENOSPC \<equiv> -28"
abbreviation (input) UV_E2BIG :: int where "UV_E2BIG \<equiv> -7"
abbreviation (input) UV_EAFNOSUPPORT :: int where "UV_EAFNOSUPPORT \<equiv> -97"

abbreviation (input) UV__INET_ADDRSTRLEN :: nat where "UV__INET_ADDRSTRLEN \<equiv> 16"
abbreviation (input) UV__INET6_ADDRSTRLEN :: nat where "UV__INET6_ADDRSTRLEN \<equiv> 46"

section \<open>The copy of a string\<close>

definition wr :: "'a list \<Rightarrow> nat \<Rightarrow> 'a \<Rightarrow> 'a list run" where
  "wr xs i x = (if i < length xs then Ret (xs[i := x]) else Undef)"

function strscpy_loop :: "nat \<Rightarrow> char list \<Rightarrow> char list \<Rightarrow> nat \<Rightarrow> (int \<times> char list) run" where
  "strscpy_loop i d s n =
     (if i < n then bnd (rd s i) (\<lambda>c. bnd (wr d i c) (\<lambda>d.
        if c = NUL then Ret (if 2 ^ 63 - 1 < int i then UV_E2BIG else int i, d)
        else strscpy_loop (Suc i) d s n))
      else if i = 0 then Ret (0, d)
      else bnd (wr d (i - 1) NUL) (\<lambda>d. Ret (UV_E2BIG, d)))"
  by pat_completeness auto
termination by (relation "measure (\<lambda>(i, d, s, n). n - i)") auto

declare strscpy_loop.simps [simp del]

definition uv__strscpy :: "char list \<Rightarrow> char list \<Rightarrow> nat \<Rightarrow> (int \<times> char list) run" where
  "uv__strscpy d s n = strscpy_loop 0 d s n"

section \<open>From bytes to text\<close>

fun hex_digits :: "nat \<Rightarrow> string" where
  "hex_digits n = (if n < 16 then [hex_char n] else hex_digits (n div 16) @ [hex_char (n mod 16)])"

declare hex_digits.simps [simp del]

definition dotted :: "nat list \<Rightarrow> string" where
  "dotted src = dec_digits (src ! 0) @ ''.'' @ dec_digits (src ! 1) @ ''.'' @ dec_digits (src ! 2) @ ''.'' @
     dec_digits (src ! 3)"

definition inet_ntop4 :: "nat list \<Rightarrow> char list \<Rightarrow> nat \<Rightarrow> (int \<times> char list) run" where
  "inet_ntop4 src dst sz =
     (if length src < 4 then Undef
      else let l = length (dotted src); tmp = take (UV__INET_ADDRSTRLEN - 1) (dotted src) @ [NUL] in
        if l = 0 \<or> sz \<le> l then Ret (UV_ENOSPC, dst)
        else bnd (uv__strscpy dst tmp sz) (\<lambda>(_, dst). Ret (0, dst)))"

text \<open>The bytes in pairs.\<close>

fun words_of :: "nat list \<Rightarrow> nat list" where
  "words_of (a # b # bs) = (256 * a + b) # words_of bs"
| "words_of _ = []"

record zeros =
  base :: int
  len :: int

abbreviation (input) no_zeros :: zeros where "no_zeros \<equiv> \<lparr>base = -1, len = 0\<rparr>"

definition better :: "zeros \<Rightarrow> zeros \<Rightarrow> zeros" where
  "better best cur = (if base best = -1 \<or> len best < len cur then cur else best)"

text \<open>The longest run of zeros. \<open>i\<close> counts the words.\<close>

fun zeros_loop :: "int \<Rightarrow> zeros \<Rightarrow> zeros \<Rightarrow> nat list \<Rightarrow> zeros" where
  "zeros_loop i best cur [] = (if base cur \<noteq> -1 then better best cur else best)"
| "zeros_loop i best cur (w # ws) =
     (if w = 0 then zeros_loop (i + 1) best
        (if base cur = -1 then \<lparr>base = i, len = 1\<rparr> else cur\<lparr>len := len cur + 1\<rparr>) ws
      else if base cur \<noteq> -1 then zeros_loop (i + 1) (better best cur) (cur\<lparr>base := -1\<rparr>) ws
      else zeros_loop (i + 1) best cur ws)"

definition find_zeros :: "nat list \<Rightarrow> zeros" where
  "find_zeros ws = (let best = zeros_loop 0 no_zeros no_zeros ws in
     if base best \<noteq> -1 \<and> len best < 2 then best\<lparr>base := -1\<rparr> else best)"

text \<open>Writing to the buffer of 46 bytes, of which \<open>t\<close> are written. snprintf never has to cut its text.\<close>

definition putc :: "char \<Rightarrow> string \<Rightarrow> string run" where
  "putc c t = (if length t < UV__INET6_ADDRSTRLEN then Ret (t @ [c]) else Undef)"

definition puts :: "string \<Rightarrow> string \<Rightarrow> string run" where
  "puts x t = (if length t + length x < UV__INET6_ADDRSTRLEN then Ret (t @ x) else Undef)"

definition encapsulated :: "zeros \<Rightarrow> nat list \<Rightarrow> int \<Rightarrow> bool" where
  "encapsulated best ws i \<longleftrightarrow> i = 6 \<and> base best = 0 \<and>
     (len best = 6 \<or> (len best = 7 \<and> ws ! 7 \<noteq> 1) \<or> (len best = 5 \<and> ws ! 5 = 0xffff))"

text \<open>The loop over the words. Its result is the buffer, or the error of inet_ntop4.\<close>

function format_loop :: "nat list \<Rightarrow> zeros \<Rightarrow> nat list \<Rightarrow> int \<Rightarrow> string \<Rightarrow> (int \<times> string) run" where
  "format_loop src best ws i t =
     (if int (length ws) \<le> i then Ret (0, t)
      else if base best \<noteq> -1 \<and> base best \<le> i \<and> i < base best + len best then
        bnd (if i = base best then putc CHR '':'' t else Ret t) (format_loop src best ws (i + 1))
      else bnd (if i \<noteq> 0 then putc CHR '':'' t else Ret t) (\<lambda>t.
        if encapsulated best ws i then
          let room = UV__INET6_ADDRSTRLEN - length t in
          bnd (inet_ntop4 (drop 12 src) (replicate room NUL) room) (\<lambda>(err, text).
            if err \<noteq> 0 then Ret (err, t) else bnd (cstr_from text) (\<lambda>s. Ret (0, t @ s)))
        else bnd (puts (hex_digits (ws ! nat i)) t) (format_loop src best ws (i + 1))))"
  by pat_completeness auto
termination by (relation "measure (\<lambda>(src, best, ws, i, t). nat (int (length ws) - i))") auto

declare format_loop.simps [simp del]

definition inet_ntop6 :: "nat list \<Rightarrow> char list \<Rightarrow> nat \<Rightarrow> (int \<times> char list) run" where
  "inet_ntop6 src dst sz =
     (if length src < 16 then Undef
      else let ws = words_of (take 16 src); best = find_zeros ws in
        bnd (format_loop src best ws 0 []) (\<lambda>(err, t).
        if err \<noteq> 0 then Ret (err, dst)
        else bnd (if base best \<noteq> -1 \<and> base best + len best = int (length ws) then putc CHR '':'' t else Ret t) (\<lambda>t.
          bnd (putc NUL t) (\<lambda>tmp.
          if sz < length tmp then Ret (UV_ENOSPC, dst)
          else bnd (uv__strscpy dst tmp sz) (\<lambda>(_, dst). Ret (0, dst))))))"

definition uv_inet_ntop :: "int \<Rightarrow> nat list \<Rightarrow> char list \<Rightarrow> nat \<Rightarrow> (int \<times> char list) run" where
  "uv_inet_ntop af src dst sz =
     (if af = AF_INET then inet_ntop4 src dst sz
      else if af = AF_INET6 then inet_ntop6 src dst sz
      else Ret (UV_EAFNOSUPPORT, dst))"

section \<open>From text to bytes\<close>

text \<open>The place of a character in a string of digits, as strchr finds it.\<close>

fun place :: "string \<Rightarrow> char \<Rightarrow> nat option" where
  "place [] c = None"
| "place (d # ds) c = (if d = c then Some 0 else map_option Suc (place ds c))"

definition dec_place :: "char \<Rightarrow> nat option" where
  "dec_place ch = place ''0123456789'' ch"

text \<open>\<open>tp\<close> is the place of the current octet in the four bytes.\<close>

fun pton4_loop :: "string \<Rightarrow> bool \<Rightarrow> nat \<Rightarrow> nat list \<Rightarrow> nat \<Rightarrow> (int \<times> nat list) run" where
  "pton4_loop [] saw octets tmp tp = Ret (if octets < 4 then UV_EINVAL else 0, tmp)"
| "pton4_loop (ch # src) saw octets tmp tp = bnd (rd tmp tp) (\<lambda>cur.
     case dec_place ch of
       Some k \<Rightarrow> let nw = cur * 10 + k in
         if saw \<and> cur = 0 then Ret (UV_EINVAL, tmp)
         else if 255 < nw then Ret (UV_EINVAL, tmp)
         else bnd (wr tmp tp nw) (\<lambda>tmp.
           if \<not> saw then (if 4 < octets + 1 then Ret (UV_EINVAL, tmp) else pton4_loop src True (octets + 1) tmp tp)
           else pton4_loop src saw octets tmp tp)
     | None \<Rightarrow>
         if ch = CHR ''.'' \<and> saw then
           if octets = 4 then Ret (UV_EINVAL, tmp)
           else bnd (wr tmp (tp + 1) 0) (\<lambda>tmp. pton4_loop src False octets tmp (tp + 1))
         else Ret (UV_EINVAL, tmp))"

definition inet_pton4 :: "string \<Rightarrow> nat list \<Rightarrow> (int \<times> nat list) run" where
  "inet_pton4 src dst = bnd (pton4_loop src False 0 [0, 0, 0, 0] 0) (\<lambda>(err, tmp).
     if err \<noteq> 0 then Ret (err, dst)
     else if length dst < 4 then Undef else Ret (0, tmp @ drop 4 dst))"

record pton6 =
  p_tmp :: "nat list"
  p_tp :: nat
  p_colon :: "nat option"
  p_seen :: nat
  p_val :: nat
  p_tok :: string

definition hex_place :: "char \<Rightarrow> nat option" where
  "hex_place ch = (case place ''0123456789abcdef'' ch of Some k \<Rightarrow> Some k
     | None \<Rightarrow> place ''0123456789ABCDEF'' ch)"

text \<open>The two bytes of the group that was read.\<close>

definition put_group :: "pton6 \<Rightarrow> pton6 run" where
  "put_group p = bnd (wr (p_tmp p) (p_tp p) (p_val p div 256 mod 256)) (\<lambda>tmp.
     bnd (wr tmp (p_tp p + 1) (p_val p mod 256)) (\<lambda>tmp. Ret (p\<lparr>p_tmp := tmp, p_tp := p_tp p + 2\<rparr>)))"

fun pton6_loop :: "string \<Rightarrow> pton6 \<Rightarrow> (int \<times> pton6) run" where
  "pton6_loop [] p = Ret (0, p)"
| "pton6_loop (ch # src) p = (case hex_place ch of
     Some k \<Rightarrow> let p = p\<lparr>p_val := p_val p * 16 + k, p_seen := p_seen p + 1\<rparr> in
       if 4 < p_seen p then Ret (UV_EINVAL, p) else pton6_loop src p
   | None \<Rightarrow>
       if ch = CHR '':'' then
         let p = p\<lparr>p_tok := src\<rparr> in
         if p_seen p = 0 then
           (if p_colon p \<noteq> None then Ret (UV_EINVAL, p) else pton6_loop src (p\<lparr>p_colon := Some (p_tp p)\<rparr>))
         else if src = [] then Ret (UV_EINVAL, p)
         else if 16 < p_tp p + 2 then Ret (UV_EINVAL, p)
         else bnd (put_group p) (\<lambda>p. pton6_loop src (p\<lparr>p_seen := 0, p_val := 0\<rparr>))
       else if ch = CHR ''.'' \<and> p_tp p + 4 \<le> 16 then
         bnd (inet_pton4 (p_tok p) (drop (p_tp p) (p_tmp p))) (\<lambda>(err, bs).
           let p = p\<lparr>p_tmp := take (p_tp p) (p_tmp p) @ bs\<rparr> in
           if err = 0 then Ret (0, p\<lparr>p_tp := p_tp p + 4, p_seen := 0\<rparr>) else Ret (UV_EINVAL, p))
       else Ret (UV_EINVAL, p))"

text \<open>The bytes after the place of the double colon move to the end.\<close>

function shift_loop :: "nat \<Rightarrow> nat \<Rightarrow> nat \<Rightarrow> nat list \<Rightarrow> nat list run" where
  "shift_loop i n colonp tmp =
     (if i \<le> n then bnd (rd tmp (colonp + n - i)) (\<lambda>b. bnd (wr tmp (16 - i) b) (\<lambda>tmp.
        bnd (wr tmp (colonp + n - i) 0) (shift_loop (i + 1) n colonp)))
      else Ret tmp)"
  by pat_completeness auto
termination by (relation "measure (\<lambda>(i, n, c, t). Suc n - i)") auto

declare shift_loop.simps [simp del]

definition pton6_finish :: "pton6 \<Rightarrow> nat list \<Rightarrow> (int \<times> nat list) run" where
  "pton6_finish p dst =
     (if p_seen p \<noteq> 0 \<and> 16 < p_tp p + 2 then Ret (UV_EINVAL, dst)
      else bnd (if p_seen p \<noteq> 0 then put_group p else Ret p) (\<lambda>p.
      case p_colon p of
        Some c \<Rightarrow> if p_tp p = 16 then Ret (UV_EINVAL, dst)
          else bnd (shift_loop 1 (p_tp p - c) c (p_tmp p)) (\<lambda>tmp.
            if length dst < 16 then Undef else Ret (0, tmp @ drop 16 dst))
      | None \<Rightarrow> if p_tp p \<noteq> 16 then Ret (UV_EINVAL, dst)
          else if length dst < 16 then Undef else Ret (0, p_tmp p @ drop 16 dst)))"

text \<open>A leading double colon: the first of the two is skipped.\<close>

definition skip_colon :: "string \<Rightarrow> string option" where
  "skip_colon src = (if src \<noteq> [] \<and> hd src = CHR '':'' then
      if tl src \<noteq> [] \<and> hd (tl src) = CHR '':'' then Some (tl src) else None
    else Some src)"

definition inet_pton6 :: "string \<Rightarrow> nat list \<Rightarrow> (int \<times> nat list) run" where
  "inet_pton6 src dst = (case skip_colon src of
      None \<Rightarrow> Ret (UV_EINVAL, dst)
    | Some src \<Rightarrow> bnd (pton6_loop src
          \<lparr>p_tmp = replicate 16 0, p_tp = 0, p_colon = None, p_seen = 0, p_val = 0, p_tok = src\<rparr>)
        (\<lambda>(err, p). if err \<noteq> 0 then Ret (err, dst) else pton6_finish p dst))"

definition uv_inet_pton :: "int \<Rightarrow> string option \<Rightarrow> nat list option \<Rightarrow> (int \<times> nat list option) run" where
  "uv_inet_pton af src dst = (case (src, dst) of
     (Some s, Some d) \<Rightarrow>
       if af = AF_INET then bnd (inet_pton4 s d) (\<lambda>(err, d). Ret (err, Some d))
       else if af = AF_INET6 then
         let zone = takeWhile (\<lambda>c. c \<noteq> CHR ''%'') s in
         if zone \<noteq> s \<and> UV__INET6_ADDRSTRLEN - 1 < length zone then Ret (UV_EINVAL, dst)
         else bnd (inet_pton6 zone d) (\<lambda>(err, d). Ret (err, Some d))
       else Ret (UV_EAFNOSUPPORT, dst)
   | _ \<Rightarrow> Ret (UV_EINVAL, dst))"

section \<open>The copy\<close>

lemma strscpy_loop_copies:
  assumes "cstring s" "length s < n" "n \<le> length d" "length s < 2 ^ 63" "i \<le> length s"
  shows "strscpy_loop i (take i s @ drop i d) (s @ NUL # t) n = Ret (int (length s), s @ NUL # drop (Suc (length s)) d)"
  using assms(5)
proof (induction "length s - i" arbitrary: i)
  case 0
  then have i: "i = length s" by simp
  have d: "(s @ drop (length s) d)[length s := NUL] = s @ NUL # drop (Suc (length s)) d"
    using assms(2,3) by (simp add: list_update_append Cons_nth_drop_Suc [symmetric])
  then show ?case using assms by (simp add: i strscpy_loop.simps [of "length s"] wr_def d)
next
  case (Suc k)
  then have i: "i < length s" by simp
  have c: "s ! i \<noteq> NUL" using assms(1) i by (metis cstring_def nth_mem)
  have "(take i s @ drop i d)[i := s ! i] = take (Suc i) s @ drop (Suc i) d"
    using i assms(2,3) by (simp add: list_update_append take_Suc_conv_app_nth Cons_nth_drop_Suc [symmetric])
  then show ?case using Suc.hyps(1) [of "Suc i"] Suc.hyps(2) i c assms
    by (simp add: strscpy_loop.simps [of i] wr_def nth_append)
qed

lemma strscpy_copies:
  assumes "cstring s" "length s < n" "n \<le> length d" "length s < 2 ^ 63"
  shows "uv__strscpy d (s @ NUL # t) n = Ret (int (length s), s @ NUL # drop (Suc (length s)) d)"
  using strscpy_loop_copies [OF assms, of 0] by (simp add: uv__strscpy_def)

section \<open>Dotted addresses\<close>

lemma all_places:
  "\<forall>k \<in> set [0..<10]. dec_place (digit_char k) = Some k \<and> hex_place (digit_char k) = Some k"
  "\<forall>k \<in> set [0..<16]. hex_place (hex_char k) = Some k \<and> hex_char k \<noteq> NUL \<and> hex_char k \<noteq> CHR '':'' \<and> hex_char k \<noteq> CHR ''%''"
  by code_simp+

lemma place_digit [simp]: "k < 10 \<Longrightarrow> dec_place (digit_char k) = Some k" "k < 10 \<Longrightarrow> hex_place (digit_char k) = Some k"
    "k < 16 \<Longrightarrow> hex_place (hex_char k) = Some k"
  using all_places by (auto simp del: upt.simps upt_rec_numeral)

lemma place_others [simp]: "dec_place CHR ''.'' = None" "hex_place CHR '':'' = None" "hex_place CHR ''.'' = None"
  by (simp_all add: hex_place_def dec_place_def)

lemma dec_one: "n < 10 \<Longrightarrow> dec_digits n = [digit_char n]"
  by (simp add: dec_digits.simps [of n])

lemma dec_two: "10 \<le> n \<Longrightarrow> n < 100 \<Longrightarrow> dec_digits n = [digit_char (n div 10), digit_char (n mod 10)]"
  by (simp add: dec_digits.simps [of n] dec_one)

lemma dec_three: "100 \<le> n \<Longrightarrow> n < 1000 \<Longrightarrow>
    dec_digits n = [digit_char (n div 100), digit_char (n div 10 mod 10), digit_char (n mod 10)]"
  by (simp add: dec_digits.simps [of n] dec_two div_mult2_eq [symmetric])

lemma digits_lengths:
  assumes "n < 256"
  shows "length (dec_digits n) \<le> 3" "cstring (dec_digits n)"
proof -
  consider "n < 10" | "10 \<le> n" "n < 100" | "100 \<le> n" "n < 1000" using assms by linarith
  then show "length (dec_digits n) \<le> 3" by cases (simp_all add: dec_one dec_two dec_three)
  show "cstring (dec_digits n)" using dec_digits_all [of n] is_digit_neq(4) unfolding cstring_def by blast
qed

text \<open>An octet of at most three digits, read at a place that holds zero.\<close>

lemma pton4_octet:
  assumes "x < 256" "tp < length tmp" "tmp ! tp = 0" "octets < 4"
  shows "pton4_loop (dec_digits x @ rest) False octets tmp tp = pton4_loop rest True (Suc octets) (tmp[tp := x]) tp"
proof -
  consider "x < 10" | "10 \<le> x" "x < 100" | "100 \<le> x" "x < 1000" using assms by linarith
  then show ?thesis
  proof cases
    case 1
    then show ?thesis using assms by (simp add: dec_one wr_def)
  next
    case 2
    have "x div 10 * 10 + x mod 10 = x" "x div 10 \<noteq> 0" "x div 10 \<le> 255" using 2 by auto
    then show ?thesis using 2 assms by (simp add: dec_two wr_def Let_def)
  next
    case 3
    have a: "x div 100 * 10 + x div 10 mod 10 = x div 10" by (simp add: div_mult2_eq [of x 10 10, simplified])
    have "x div 10 * 10 + x mod 10 = x" "x div 10 \<noteq> 0" "x div 100 \<noteq> 0" "x div 100 < 10" "x div 10 \<le> 255" using 3 assms by auto
    then show ?thesis using 3 assms a by (simp add: dec_three wr_def Let_def)
  qed
qed

lemma pton4_dotted:
  assumes "a < 256" "b < 256" "c < 256" "d < 256" and "4 \<le> length dst"
  shows "inet_pton4 (dotted [a, b, c, d]) dst = Ret (0, [a, b, c, d] @ drop 4 dst)"
proof -
  note e = pton4_octet [where rest = "[]", simplified]
  show ?thesis using assms
    by (simp add: inet_pton4_def dotted_def pton4_octet e wr_def)
qed

section \<open>Groups of hexadecimal digits\<close>

definition bytes :: "nat list \<Rightarrow> nat list" where
  "bytes ws = concat (map (\<lambda>w. [w div 256, w mod 256]) ws)"

lemma bytes_simps [simp]: "bytes [] = []" "bytes (w # ws) = w div 256 # w mod 256 # bytes ws" "bytes (us @ ws) = bytes us @ bytes ws"
    "length (bytes ws) = 2 * length ws"
  by (simp_all add: bytes_def length_concat o_def sum_list_const_mult sum_list_triv)

definition groups :: "nat list \<Rightarrow> string" where
  "groups ws = concat (map (\<lambda>w. hex_digits w @ '':'') ws)"

lemma groups_simps [simp]: "groups [] = []" "groups (w # ws) = hex_digits w @ CHR '':'' # groups ws"
    "groups (us @ ws) = groups us @ groups ws"
  by (simp_all add: groups_def)

text \<open>The state of the parser after the bytes \<open>bs\<close>.\<close>

definition parsed :: "nat list \<Rightarrow> nat option \<Rightarrow> nat \<Rightarrow> nat \<Rightarrow> string \<Rightarrow> pton6" where
  "parsed bs c k v tok = \<lparr>p_tmp = bs @ replicate (16 - length bs) 0, p_tp = length bs, p_colon = c, p_seen = k, p_val = v, p_tok = tok\<rparr>"

lemma hex_one: "n < 16 \<Longrightarrow> hex_digits n = [hex_char n]"
  by (simp add: hex_digits.simps [of n])

lemma hex_two: "16 \<le> n \<Longrightarrow> n < 256 \<Longrightarrow> hex_digits n = [hex_char (n div 16), hex_char (n mod 16)]"
  by (simp add: hex_digits.simps [of n] hex_one)

lemma hex_three: "256 \<le> n \<Longrightarrow> n < 4096 \<Longrightarrow>
    hex_digits n = [hex_char (n div 256), hex_char (n div 16 mod 16), hex_char (n mod 16)]"
  by (simp add: hex_digits.simps [of n] hex_two div_mult2_eq [symmetric])

lemma hex_four: "4096 \<le> n \<Longrightarrow> n < 65536 \<Longrightarrow>
    hex_digits n = [hex_char (n div 4096), hex_char (n div 256 mod 16), hex_char (n div 16 mod 16), hex_char (n mod 16)]"
  by (simp add: hex_digits.simps [of n] hex_three div_mult2_eq [symmetric])

lemma hex_group_cases:
  assumes "w < (65536 :: nat)"
  obtains "w < 16" | "16 \<le> w" "w < 256" | "256 \<le> w" "w < 4096" | "4096 \<le> w" "w < 65536"
  using assms by linarith

lemma hex_digits_lengths:
  assumes "w < 65536"
  shows "length (hex_digits w) \<le> 4" "hex_digits w \<noteq> []"
  using assms by (cases rule: hex_group_cases; simp add: hex_one hex_two hex_three hex_four)+

lemma hex_digits_chars: "\<forall>c \<in> set (hex_digits w). \<exists>k < 16. c = hex_char k"
proof (induction w rule: hex_digits.induct)
  case (1 n)
  have "\<exists>k < 16. hex_char (n mod 16) = hex_char k" by (rule exI [of _ "n mod 16"]) simp
  with 1 show ?case by (cases "n < 16") (auto simp: hex_digits.simps [of n])
qed

lemma hex_digits_safe: "NUL \<notin> set (hex_digits w)" "CHR '':'' \<notin> set (hex_digits w)" "CHR ''%'' \<notin> set (hex_digits w)"
  using hex_digits_chars [of w] all_places(2) by (auto simp del: upt.simps upt_rec_numeral) force+

lemma pton6_group:
  assumes "w < 65536"
  shows "pton6_loop (hex_digits w @ rest) (parsed bs c 0 0 tok) = pton6_loop rest (parsed bs c (length (hex_digits w)) w tok)"
  using assms
proof (cases rule: hex_group_cases)
  case 1
  then show ?thesis by (simp add: hex_one parsed_def Let_def)
next
  case 2
  have "w div 16 * 16 + w mod 16 = w" "w div 16 < 16" using 2 by auto
  then show ?thesis using 2 by (simp add: hex_two parsed_def Let_def)
next
  case 3
  have "w div 256 * 16 + w div 16 mod 16 = w div 16" by (simp add: div_mult2_eq [of w 16 16, simplified])
  moreover have "w div 16 * 16 + w mod 16 = w" "w div 256 < 16" using 3 by auto
  ultimately show ?thesis using 3 by (simp add: hex_three parsed_def Let_def)
next
  case 4
  have "w div 256 * 16 + w div 16 mod 16 = w div 16" by (simp add: div_mult2_eq [of w 16 16, simplified])
  moreover have "w div 4096 * 16 + w div 256 mod 16 = w div 256" by (simp add: div_mult2_eq [of w 256 16, simplified])
  moreover have "w div 16 * 16 + w mod 16 = w" "w div 4096 < 16" using 4 by auto
  ultimately show ?thesis using 4 by (simp add: hex_four parsed_def Let_def)
qed

lemma put_group_parsed:
  assumes "v < 65536" "length bs + 2 \<le> 16"
  shows "put_group (parsed bs c k v tok) = Ret (parsed (bs @ [v div 256, v mod 256]) c k v tok)"
proof -
  have "replicate (16 - length bs) (0 :: nat) = 0 # 0 # replicate (16 - length bs - 2) 0"
    using assms(2) by (cases "16 - length bs"; cases "16 - length bs - 1") auto
  then show ?thesis using assms by (simp add: put_group_def parsed_def wr_def list_update_append)
qed

lemma pton6_groups:
  assumes "\<forall>w \<in> set ws. w < 65536" "length bs + 2 * length ws \<le> 16" "rest \<noteq> []"
  shows "pton6_loop (groups ws @ rest) (parsed bs c 0 0 tok) =
    pton6_loop rest (parsed (bs @ bytes ws) c 0 0 (if ws = [] then tok else rest))"
  using assms
proof (induction ws arbitrary: bs tok)
  case (Cons w ws)
  have s: "p_seen (parsed bs c (length (hex_digits w)) w tok) \<noteq> 0"
    using hex_digits_lengths [of w] Cons.prems(1) by (simp add: parsed_def)
  have t: "(parsed bs c k v tok)\<lparr>p_tok := r\<rparr> = parsed bs c k v r" "(parsed bs c k v tok)\<lparr>p_seen := 0, p_val := 0\<rparr> = parsed bs c 0 0 tok"
    for bs k v tok r by (simp_all add: parsed_def)
  have "groups ws @ rest \<noteq> []" using Cons.prems(3) by simp
  moreover have "p_tp (parsed bs c k v r) = length bs" "p_seen (parsed bs c k v r) = k" for k v r by (simp_all add: parsed_def)
  ultimately show ?case
    using Cons.prems Cons.IH [of "bs @ [w div 256, w mod 256]" "groups ws @ rest"] hex_digits_lengths [of w]
    by (auto simp: pton6_group put_group_parsed Let_def t)
qed simp

lemma pton6_colons:
  "pton6_loop (CHR '':'' # rest) (parsed bs None 0 0 tok) = pton6_loop rest (parsed bs (Some (length bs)) 0 0 rest)"
  by (simp add: parsed_def Let_def)

text \<open>The first octet of a dotted address is read as a group first.\<close>

lemma pton6_digits:
  assumes "x < 256"
  shows "\<exists>v. pton6_loop (dec_digits x @ rest) (parsed bs c 0 0 tok) = pton6_loop rest (parsed bs c (length (dec_digits x)) v tok)"
proof -
  consider "x < 10" | "10 \<le> x" "x < 100" | "100 \<le> x" "x < 1000" using assms by linarith
  then show ?thesis by cases (auto simp: dec_one dec_two dec_three parsed_def Let_def)
qed

lemma pton6_dotted:
  assumes "\<forall>x \<in> {a, b, e, d}. x < 256" "length bs + 4 \<le> 16" "tok = dotted [a, b, e, d]"
  shows "\<exists>v. pton6_loop (dotted [a, b, e, d]) (parsed bs c 0 0 tok) = Ret (0, parsed (bs @ [a, b, e, d]) c 0 v tok)"
proof -
  let ?rest = "''.'' @ dec_digits b @ ''.'' @ dec_digits e @ ''.'' @ dec_digits d"
  from assms(1) obtain v where "pton6_loop (dec_digits a @ ?rest) (parsed bs c 0 0 tok) =
      pton6_loop ?rest (parsed bs c (length (dec_digits a)) v tok)" using pton6_digits [of a] by blast
  then have v: "pton6_loop (dotted [a, b, e, d]) (parsed bs c 0 0 tok) = pton6_loop ?rest (parsed bs c (length (dec_digits a)) v tok)"
    by (simp only: dotted_def) simp
  have "drop 4 (replicate (16 - length bs) (0 :: nat)) = replicate (16 - length bs - 4) 0" by simp
  then show ?thesis unfolding v
    using assms by (intro exI [of _ v]) (simp add: parsed_def pton4_dotted)
qed

section \<open>The double colon\<close>

lemma parsed_fields: "p_tmp (parsed bs c k v tok) = bs @ replicate (16 - length bs) 0" "p_tp (parsed bs c k v tok) = length bs"
    "p_colon (parsed bs c k v tok) = c" "p_seen (parsed bs c k v tok) = k" "p_val (parsed bs c k v tok) = v"
  by (simp_all add: parsed_def)

lemma shift_moves:
  assumes "n = length B + length C" "length A + n + z = 16" "0 < z"
  shows "shift_loop (Suc (length C)) n (length A) (A @ B @ replicate z 0 @ C) = Ret (A @ replicate z 0 @ B @ C)"
  using assms
proof (induction B arbitrary: C rule: rev_induct)
  case Nil
  then show ?case by (simp add: shift_loop.simps [of "Suc (length C)"])
next
  case (snoc b B)
  then obtain z' where z: "z = Suc z'" by (cases z) auto
  have r: "replicate z (0 :: nat) = replicate z' 0 @ [0]" by (simp add: z replicate_append_same)
  have i: "length A + n - Suc (length C) = length A + length B" "16 - Suc (length C) = length A + length B + 1 + z'"
    using snoc.prems z by simp_all
  let ?n = "length A + length B" and ?t = "A @ (B @ [b]) @ replicate z 0 @ C"
  have t: "?t = (A @ B @ b # replicate z' 0) @ 0 # C" by (simp add: r)
  have l: "length ?t = 16" "?n + 1 + z' < 16" "?n < 16" using snoc.prems z by simp_all
  have "?t ! ?n = b" by (simp add: nth_append)
  then have 1: "rd ?t ?n = Ret b" using l(3) by (simp add: rd_def l(1))
  have "?t[?n + 1 + z' := b] = (A @ B @ b # replicate z' 0) @ b # C"
    unfolding t by (subst list_update_append) simp
  then have 2: "wr ?t (?n + 1 + z') b = Ret ((A @ B) @ b # replicate z' 0 @ b # C)" using l(2) z by (simp add: wr_def l(1))
  have 3: "wr ((A @ B) @ b # replicate z' 0 @ b # C) ?n 0 = Ret (A @ B @ replicate z 0 @ b # C)"
    unfolding wr_def z by (subst list_update_append) simp
  have "shift_loop (Suc (length C)) n (length A) ?t = shift_loop (Suc (length (b # C))) n (length A) (A @ B @ replicate z 0 @ b # C)"
    using snoc.prems(1) by (subst shift_loop.simps) (simp only: i 1 2 3 bnd.simps, simp add: 2 [simplified] 3 [simplified])
  also have "\<dots> = Ret (A @ replicate z 0 @ B @ (b # C))"
    by (rule snoc.IH) (use snoc.prems in simp_all)
  finally show ?case by simp
qed

lemma finish_exact:
  assumes "length bs = 16" "16 \<le> length dst"
  shows "pton6_finish (parsed bs None 0 v tok) dst = Ret (0, bs @ drop 16 dst)"
  using assms by (simp add: pton6_finish_def parsed_def)

lemma finish_zeros:
  assumes "length bs + length cs < 16" "16 \<le> length dst"
  shows "pton6_finish (parsed (bs @ cs) (Some (length bs)) 0 v tok) dst =
    Ret (0, bs @ replicate (16 - length bs - length cs) 0 @ cs @ drop 16 dst)"
  using assms shift_moves [of "length cs" cs "[]" bs "16 - length bs - length cs"]
  by (simp add: pton6_finish_def parsed_def)

lemma finish_group:
  assumes "w < 65536" "length bs + 2 \<le> 16" "0 < k"
  shows "pton6_finish (parsed bs c k w tok) dst = pton6_finish (parsed (bs @ [w div 256, w mod 256]) c 0 w tok) dst"
  using assms by (cases c) (simp_all add: pton6_finish_def put_group_parsed parsed_fields)

text \<open>The text after the double colon, or the whole text: groups, with a dotted address at the end or not.\<close>

definition tail_text :: "nat list \<Rightarrow> nat list \<Rightarrow> string" where
  "tail_text ws v4 = (if v4 \<noteq> [] then groups ws @ dotted v4
     else if ws = [] then [] else groups (butlast ws) @ hex_digits (last ws))"

definition byte_list :: "nat list \<Rightarrow> bool" where
  "byte_list bs \<longleftrightarrow> (\<forall>b \<in> set bs. b < 256)"

lemma tail_parsed:
  assumes "\<forall>w \<in> set ws. w < 65536" "v4 = [] \<or> length v4 = 4 \<and> byte_list v4"
    and "length bs + 2 * length ws + length v4 \<le> 16" and "tok = tail_text ws v4 \<or> v4 = []"
  shows "\<exists>p. pton6_loop (tail_text ws v4) (parsed bs c 0 0 tok) = Ret (0, p) \<and>
    (\<exists>v tok'. pton6_finish p dst = pton6_finish (parsed (bs @ bytes ws @ v4) c 0 v tok') dst)"
proof (cases "v4 = []")
  case True
  show ?thesis
  proof (cases ws rule: rev_cases)
    case Nil
    then show ?thesis using True by (auto simp: tail_text_def)
  next
    case (snoc us w)
    have w: "w < 65536" "length (bs @ bytes us) + 2 \<le> 16" using assms(1,3) snoc by auto
    have n: "hex_digits w \<noteq> []" using w(1) by (rule hex_digits_lengths)
    have "pton6_loop (groups us @ hex_digits w) (parsed bs c 0 0 tok) =
        pton6_loop (hex_digits w @ []) (parsed (bs @ bytes us) c 0 0 (if us = [] then tok else hex_digits w))"
      using pton6_groups [OF _ _ n, of us bs] assms(1,3) snoc by simp
    also have "\<dots> = Ret (0, parsed (bs @ bytes us) c (length (hex_digits w)) w (if us = [] then tok else hex_digits w))"
      by (subst pton6_group [OF w(1)]) simp
    finally show ?thesis using True snoc n finish_group [OF w] by (auto simp: tail_text_def)
  qed
next
  case False
  then obtain a b e d where v: "v4 = [a, b, e, d]" using assms(2) by (auto simp: numeral_eq_Suc length_Suc_conv)
  have n: "dotted v4 \<noteq> []" by (simp add: dotted_def)
  have "pton6_loop (groups ws @ dotted v4) (parsed bs c 0 0 tok) =
      pton6_loop (dotted v4) (parsed (bs @ bytes ws) c 0 0 (if ws = [] then tok else dotted v4))"
    using pton6_groups [OF _ _ n, of ws bs] assms(1,3) by simp
  moreover have "(if ws = [] then tok else dotted v4) = dotted v4" using assms(4) False by (auto simp: tail_text_def)
  moreover have "\<exists>y. pton6_loop (dotted v4) (parsed (bs @ bytes ws) c 0 0 (dotted v4)) =
      Ret (0, parsed ((bs @ bytes ws) @ v4) c 0 y (dotted v4))"
    using assms(2,3) pton6_dotted [of a b e d "bs @ bytes ws" "dotted v4" c] by (simp add: v byte_list_def)
  ultimately show ?thesis using False by (auto simp: tail_text_def)
qed

section \<open>The run of zeros\<close>

definition run_ok :: "nat list \<Rightarrow> int \<Rightarrow> zeros \<Rightarrow> bool" where
  "run_ok ws i r \<longleftrightarrow> base r = -1 \<or> (0 \<le> base r \<and> base r + len r \<le> i \<and>
     (\<forall>j. base r \<le> int j \<and> int j < base r + len r \<longrightarrow> ws ! j = 0))"

lemma zeros_loop_ok:
  assumes "run_ok (pre @ ws) (int (length pre)) best" "run_ok (pre @ ws) (int (length pre)) cur"
    and "base cur = -1 \<or> base cur + len cur = int (length pre)"
  shows "run_ok (pre @ ws) (int (length (pre @ ws))) (zeros_loop (int (length pre)) best cur ws)"
  using assms
proof (induction ws arbitrary: pre best cur)
  case Nil
  then show ?case by (auto simp: better_def)
next
  case (Cons w ws)
  have m: "run_ok us (i + 1) r" if "run_ok us i r" for us i r using that by (auto simp: run_ok_def)
  let ?pre = "pre @ [w]"
  have s: "int (length ?pre) = int (length pre) + 1" "?pre @ ws = pre @ w # ws" by simp_all
  note IH = Cons.IH [of ?pre, unfolded s]
  have better: "run_ok us i (better best cur)" if "run_ok us i best" "run_ok us i cur" for us i
    using that by (simp add: better_def)
  show ?case
  proof (cases "w = 0")
    case True
    let ?cur = "if base cur = -1 then \<lparr>base = int (length pre), len = 1\<rparr> else cur\<lparr>len := len cur + 1\<rparr>"
    have "(pre @ w # ws) ! j = 0" if "base cur \<noteq> -1" "base cur \<le> int j" "int j < base cur + len cur + 1" for j
    proof (cases "j = length pre")
      case False
      then have "int j < base cur + len cur" using that Cons.prems(3) by auto
      then show ?thesis using that Cons.prems(2) by (auto simp: run_ok_def)
    qed (simp add: True)
    then have "run_ok (pre @ w # ws) (int (length pre) + 1) ?cur"
      using Cons.prems(2,3) True by (auto simp: run_ok_def nth_append)
    with IH [of best ?cur] Cons.prems m True show ?thesis by auto
  next
    case False
    then show ?thesis using IH [of "better best cur" "cur\<lparr>base := -1\<rparr>"] IH [of best cur] Cons.prems m better
      by (auto simp: run_ok_def [of _ _ "cur\<lparr>base := -1\<rparr>"])
  qed
qed

lemma find_zeros_ok:
  assumes "length ws = 8"
  obtains "base (find_zeros ws) = -1"
  | b l where "find_zeros ws = \<lparr>base = int b, len = int l\<rparr>" "2 \<le> l" "b + l \<le> 8" "\<forall>j. b \<le> j \<and> j < b + l \<longrightarrow> ws ! j = 0"
proof (cases "base (find_zeros ws) = -1")
  case True
  then show ?thesis by (rule that(1))
next
  case False
  let ?r = "zeros_loop 0 no_zeros no_zeros ws"
  have r: "run_ok ws 8 ?r" using zeros_loop_ok [of "[]" ws no_zeros no_zeros] assms by (simp add: run_ok_def)
  have f: "find_zeros ws = ?r" "2 \<le> len ?r" "base ?r \<noteq> -1" using False by (auto simp: find_zeros_def Let_def split: if_splits)
  have "0 \<le> base ?r" "base ?r + len ?r \<le> 8" using r f(3) by (simp_all add: run_ok_def)
  then obtain b l where bl: "base ?r = int b" "len ?r = int l" using f(2) by (metis nonneg_int_cases order_trans zero_le_numeral)
  then have "?r = \<lparr>base = int b, len = int l\<rparr>" by (cases ?r) simp
  moreover have "\<forall>j. b \<le> j \<and> j < b + l \<longrightarrow> ws ! j = 0" using r f(3) unfolding run_ok_def bl by auto
  ultimately show ?thesis using r f that(2) [of b l] bl by (simp add: run_ok_def)
qed

section \<open>The text of an address\<close>

lemma words_of_bytes:
  assumes "length src = 2 * n" "byte_list src"
  shows "length (words_of src) = n \<and> (\<forall>w \<in> set (words_of src). w < 65536) \<and> bytes (words_of src) = src"
  using assms
proof (induction n arbitrary: src)
  case (Suc n)
  then have "length src = Suc (Suc (2 * n))" by simp
  then obtain a b bs where s: "src = a # b # bs" by (metis length_Suc_conv)
  have "a < 256" "b < 256" using Suc.prems(2) s by (auto simp: byte_list_def)
  then have "256 * a + b < 65536" "(256 * a + b) div 256 = a" "(256 * a + b) mod 256 = b" by auto
  then show ?case using Suc.IH [of bs] Suc.prems s by (simp add: byte_list_def)
qed simp

definition eight :: "nat list \<Rightarrow> bool" where
  "eight ws \<longleftrightarrow> length ws = 8 \<and> (\<forall>w \<in> set ws. w < 65536)"

lemma eight_hex: "eight ws \<Longrightarrow> j < 8 \<Longrightarrow> length (hex_digits (ws ! j)) \<le> 4"
  by (simp add: eight_def hex_digits_lengths)

text \<open>The words from \<open>k\<close> to \<open>m\<close>, with a colon before each that is not the first.\<close>

definition pieces :: "nat list \<Rightarrow> nat \<Rightarrow> nat \<Rightarrow> string" where
  "pieces ws k m = concat (map (\<lambda>j. (if j \<noteq> 0 then '':'' else []) @ hex_digits (ws ! j)) [k..<m])"

lemma pieces_first: "k < m \<Longrightarrow> pieces ws k m = (if k \<noteq> 0 then '':'' else []) @ hex_digits (ws ! k) @ pieces ws (Suc k) m"
  by (simp add: pieces_def upt_conv_Cons)

lemma pieces_last: "k \<le> m \<Longrightarrow> pieces ws k (Suc m) = pieces ws k m @ (if m \<noteq> 0 then '':'' else []) @ hex_digits (ws ! m)"
  by (simp add: pieces_def)

lemma pieces_inner: "0 < k \<Longrightarrow> k \<le> m \<Longrightarrow> m \<le> length ws \<Longrightarrow> pieces ws k m @ '':'' = CHR '':'' # groups (drop k (take m ws))"
proof (induction m)
  case (Suc m)
  show ?case
  proof (cases "k = Suc m")
    case False
    then have "pieces ws k (Suc m) @ '':'' = (pieces ws k m @ '':'') @ hex_digits (ws ! m) @ '':''"
      using Suc.prems by (simp add: pieces_last)
    then show ?thesis using Suc False by (simp add: take_Suc_conv_app_nth)
  qed (simp add: pieces_def)
qed simp

lemma pieces_outer: "0 < m \<Longrightarrow> m \<le> length ws \<Longrightarrow> pieces ws 0 m @ '':'' = groups (take m ws)"
proof -
  assume m: "0 < m" "m \<le> length ws"
  then obtain w us where ws: "ws = w # us" by (cases ws) auto
  have "pieces ws 0 m @ '':'' = hex_digits w @ (pieces ws 1 m @ '':'')" using m ws by (simp add: pieces_first)
  then show ?thesis using m pieces_inner [of 1 m ws] ws by (cases m) simp_all
qed

lemma tail_text_colon: "us \<noteq> [] \<Longrightarrow> tail_text us [] @ '':'' = groups us"
  by (cases us rule: rev_cases) (simp_all add: tail_text_def)

lemma pieces_tail:
  assumes "k < m" "m \<le> length ws"
  shows "pieces ws k m = (if k = 0 then [] else '':'') @ tail_text (drop k (take m ws)) []"
proof -
  have "drop k (take m ws) \<noteq> []" using assms by simp
  then have "((if k = 0 then [] else '':'') @ tail_text (drop k (take m ws)) []) @ '':'' = pieces ws k m @ '':''"
    using assms tail_text_colon [of "drop k (take m ws)"] pieces_outer [of m ws] pieces_inner [of k m ws] by auto
  then show ?thesis unfolding append_same_eq by (rule sym)
qed

definition in_run :: "zeros \<Rightarrow> int \<Rightarrow> bool" where
  "in_run best i \<longleftrightarrow> base best \<noteq> -1 \<and> base best \<le> i \<and> i < base best + len best"

lemma format_pieces:
  assumes "eight ws" "m \<le> 8" and "\<forall>j. k \<le> j \<and> j < m \<longrightarrow> \<not> in_run best (int j) \<and> \<not> encapsulated best ws (int j)"
    and "length t + 5 * (m - k) < 46" "k \<le> m"
  shows "format_loop src best ws (int k) t = format_loop src best ws (int m) (t @ pieces ws k m)"
  using assms(3-5)
proof (induction "m - k" arbitrary: k t)
  case 0
  then show ?case by (simp add: pieces_def)
next
  case (Suc n)
  then have k: "k < m" by simp
  let ?t = "t @ (if k \<noteq> 0 then '':'' else []) @ hex_digits (ws ! k)"
  have h: "length (hex_digits (ws ! k)) \<le> 4" using assms(1,2) k by (simp add: eight_hex)
  have "\<not> in_run best (int k)" "\<not> encapsulated best ws (int k)" using Suc.prems(1) k by auto
  then have "format_loop src best ws (int k) t = format_loop src best ws (int (Suc k)) ?t"
    using assms(1,2) k h Suc.prems(2)
    by (subst format_loop.simps) (auto simp: in_run_def eight_def putc_def puts_def add.commute)
  also have "\<dots> = format_loop src best ws (int m) (?t @ pieces ws (Suc k) m)"
    using Suc.hyps(1) [of "Suc k" ?t] Suc.hyps(2) Suc.prems k h by auto
  finally show ?case using pieces_first [OF k, of ws] by simp
qed

lemma format_skip:
  assumes "eight ws" "b + l \<le> 8" "b < k" "k \<le> b + l"
  shows "format_loop src \<lparr>base = int b, len = int l\<rparr> ws (int k) t =
    format_loop src \<lparr>base = int b, len = int l\<rparr> ws (int (b + l)) t"
  using assms(3,4)
proof (induction "b + l - k" arbitrary: k)
  case (Suc n)
  then have "format_loop src \<lparr>base = int b, len = int l\<rparr> ws (int k) t =
      format_loop src \<lparr>base = int b, len = int l\<rparr> ws (int (Suc k)) t"
    using assms(1,2) by (subst format_loop.simps) (auto simp: eight_def add.commute)
  then show ?case using Suc.hyps(1) [of "Suc k"] Suc.hyps(2) Suc.prems by simp
qed simp

lemma format_plain:
  assumes "eight ws" "base best = -1"
  shows "format_loop src best ws 0 [] = Ret (0, tail_text ws [])"
proof -
  have "format_loop src best ws (int 0) [] = format_loop src best ws (int 8) ([] @ pieces ws 0 8)"
    by (rule format_pieces) (use assms in \<open>simp_all add: in_run_def encapsulated_def\<close>)
  also have "\<dots> = Ret (0, tail_text ws [])"
    using assms(1) pieces_tail [of 0 8 ws] by (simp add: format_loop.simps [of _ _ _ 8] eight_def)
  finally show ?thesis by simp
qed

text \<open>Up to the end of the run.\<close>

lemma format_run:
  assumes "eight ws" "b + l \<le> 8" "2 \<le> l"
  shows "format_loop src \<lparr>base = int b, len = int l\<rparr> ws 0 [] = format_loop src \<lparr>base = int b, len = int l\<rparr> ws (int (b + l))
    ((if b = 0 then '':'' else []) @ groups (take b ws))"
proof -
  let ?f = "format_loop src \<lparr>base = int b, len = int l\<rparr> ws"
  have "?f (int 0) [] = ?f (int b) ([] @ pieces ws 0 b)"
    by (rule format_pieces) (use assms in \<open>auto simp: in_run_def encapsulated_def\<close>)
  also have "\<dots> = ?f (int (Suc b)) (pieces ws 0 b @ '':'')"
  proof -
    have "length (pieces ws 0 n) \<le> 5 * n" if "n \<le> 8" for n using that
    proof (induction n)
      case (Suc n)
      then show ?case using eight_hex [OF assms(1), of n] by (cases "n = 0") (simp_all add: pieces_last pieces_def)
    qed (simp add: pieces_def)
    from this [of b] show ?thesis using assms by (subst format_loop.simps) (simp add: eight_def putc_def add.commute)
  qed
  also have "\<dots> = ?f (int (b + l)) (pieces ws 0 b @ '':'')"
    using assms by (intro format_skip) simp_all
  also have "pieces ws 0 b @ '':'' = (if b = 0 then '':'' else []) @ groups (take b ws)"
    using pieces_outer [of b ws] assms by (auto simp: pieces_def eight_def)
  finally show ?thesis by simp
qed

text \<open>The text of an address whose words \<open>b\<close> to \<open>b + l\<close> are left out, with its last four bytes dotted or not.\<close>

definition text6 :: "nat list \<Rightarrow> nat \<Rightarrow> nat \<Rightarrow> nat list \<Rightarrow> string" where
  "text6 ws b l v4 = (if b = 0 then '':'' else []) @ groups (take b ws) @ '':'' @
     tail_text (drop (b + l) (take (8 - length v4 div 2) ws)) v4"

definition closing_colon :: "zeros \<Rightarrow> nat list \<Rightarrow> string \<Rightarrow> string run" where
  "closing_colon best ws t = (if base best \<noteq> -1 \<and> base best + len best = int (length ws) then putc CHR '':'' t else Ret t)"

lemma groups_length: "eight ws \<Longrightarrow> k \<le> 8 \<Longrightarrow> length (groups (take k ws)) \<le> 5 * k"
proof (induction k)
  case (Suc k)
  then show ?case using eight_hex [of ws k] by (simp add: take_Suc_conv_app_nth eight_def)
qed simp

lemma format_zeros:
  assumes "eight ws" "b + l \<le> 8" "2 \<le> l" "\<not> (encapsulated \<lparr>base = int b, len = int l\<rparr> ws 6 \<and> l \<le> 6)"
  shows "bnd (format_loop src \<lparr>base = int b, len = int l\<rparr> ws 0 []) (\<lambda>(err, t). if err \<noteq> 0 then Ret (err, d)
      else bnd (closing_colon \<lparr>base = int b, len = int l\<rparr> ws t) g) = g (text6 ws b l [])"
proof -
  let ?t = "(if b = 0 then '':'' else []) @ groups (take b ws)"
  have t: "length ?t \<le> 5 * b + 1" using groups_length [OF assms(1), of b] assms by simp
  have n: "length ws = 8" using assms(1) by (simp add: eight_def)
  show ?thesis
  proof (cases "b + l = 8")
    case True
    then show ?thesis using format_run [OF assms(1-3), of src] assms t n
      by (simp add: format_loop.simps [of _ _ _ 8] closing_colon_def putc_def text6_def tail_text_def)
  next
    case False
    have "format_loop src \<lparr>base = int b, len = int l\<rparr> ws (int (b + l)) ?t =
        format_loop src \<lparr>base = int b, len = int l\<rparr> ws (int 8) (?t @ pieces ws (b + l) 8)"
      by (rule format_pieces) (use assms t False in \<open>auto simp: in_run_def encapsulated_def\<close>)
    then show ?thesis using format_run [OF assms(1-3), of src] assms n False pieces_tail [of "b + l" 8 ws]
      by (simp add: format_loop.simps [of _ _ _ 8] closing_colon_def text6_def)
  qed
qed

lemma dotted_text:
  assumes "length v4 = 4" "byte_list v4"
  shows "length (dotted v4) \<le> 15" "cstring (dotted v4)" "dotted v4 \<noteq> []"
proof -
  from assms(1) have "length v4 = Suc (Suc (Suc (Suc 0)))" by simp
  then obtain a b c d where v: "v4 = [a, b, c, d]" by (auto simp: length_Suc_conv)
  have "x < 256" if "x \<in> {a, b, c, d}" for x using assms(2) that v by (auto simp: byte_list_def)
  then show "length (dotted v4) \<le> 15" "cstring (dotted v4)" using digits_lengths [of a] digits_lengths [of b] digits_lengths [of c] digits_lengths [of d]
    by (simp_all add: v dotted_def)
  show "dotted v4 \<noteq> []" by (simp add: dotted_def)
qed

lemma ntop4_text:
  assumes "length src = 4" "byte_list src" "16 \<le> sz" "sz \<le> length dst"
  shows "inet_ntop4 src dst sz = Ret (0, dotted src @ NUL # drop (Suc (length (dotted src))) dst)"
  using assms dotted_text [OF assms(1,2)] strscpy_copies [of "dotted src" sz dst "[]"]
  by (simp add: inet_ntop4_def Let_def)

lemma format_dotted:
  assumes "eight ws" "l \<le> 6" "2 \<le> l" "encapsulated \<lparr>base = 0, len = int l\<rparr> ws 6" "length src = 16" "byte_list src"
  shows "bnd (format_loop src \<lparr>base = 0, len = int l\<rparr> ws 0 []) (\<lambda>(err, t). if err \<noteq> 0 then Ret (err, d)
      else bnd (closing_colon \<lparr>base = 0, len = int l\<rparr> ws t) g) = g (text6 ws 0 l (drop 12 src))"
proof -
  let ?v = "drop 12 src"
  have n: "length ws = 8" using assms(1) by (simp add: eight_def)
  have v: "length ?v = 4" "byte_list ?v" using assms(5,6) by (auto simp: byte_list_def dest: in_set_dropD)
  have l: "l = 5 \<or> l = 6" using assms(2,4) by (auto simp: encapsulated_def)
  let ?f = "format_loop src \<lparr>base = 0, len = int l\<rparr> ws" and ?t = "'':'' @ pieces ws l 6"
  have "?f (int l) '':'' = ?f (int 6) ?t"
    by (rule format_pieces) (use assms l in \<open>auto simp: in_run_def encapsulated_def\<close>)
  then have "?f 0 [] = ?f 6 ?t" using format_run [OF assms(1), of 0 l src] assms by simp
  moreover have "length ?t \<le> 6" using l eight_hex [OF assms(1), of 5] by (auto simp: pieces_def)
  moreover have "?t @ '':'' = '':'' @ '':'' @ groups (drop l (take 6 ws))" using l pieces_inner [of l 6 ws] n by auto
  moreover define gs where "gs = groups (drop l (take 6 ws))"
  ultimately have f: "?f 0 [] = ?f 6 ?t" "length ?t \<le> 6" "?t @ '':'' = '':'' @ '':'' @ gs" by blast+
  then have "length (?t @ '':'') = length ('':'' @ '':'' @ gs)" by (simp only:)
  then have "length gs \<le> 5" using f(2) by simp
  have "?f 6 ?t = Ret (0, '':'' @ '':'' @ gs @ dotted ?v)"
    using assms(4) n f(2,3) \<open>length gs \<le> 5\<close> dotted_text [OF v] ntop4_text [OF v]
    by (subst format_loop.simps) (use l assms(2) in \<open>simp add: putc_def Let_def\<close>)
  then show ?thesis using f(1) l n assms(5) by (auto simp: closing_colon_def text6_def tail_text_def gs_def)
qed

section \<open>Round trip\<close>

definition word_list :: "nat list \<Rightarrow> bool" where
  "word_list ws \<longleftrightarrow> (\<forall>w \<in> set ws. w < 65536)"

text \<open>Characters that the parser takes for digits and colons.\<close>

definition safe_text :: "string \<Rightarrow> bool" where
  "safe_text s \<longleftrightarrow> cstring s \<and> CHR ''%'' \<notin> set s"

lemma safe_simps [simp]: "safe_text []" "safe_text (s @ t) \<longleftrightarrow> safe_text s \<and> safe_text t"
    "safe_text (c # s) \<longleftrightarrow> c \<noteq> NUL \<and> c \<noteq> CHR ''%'' \<and> safe_text s"
  by (auto simp: safe_text_def)

lemma safe_hex [simp]: "safe_text (hex_digits w)"
  using hex_digits_safe [of w] by (simp add: safe_text_def cstring_def)

lemma safe_groups [simp]: "safe_text (groups us)"
  by (induction us) simp_all

lemma safe_dotted: "length v4 = 4 \<Longrightarrow> byte_list v4 \<Longrightarrow> safe_text (dotted v4)"
proof -
  have "CHR ''%'' \<notin> set (dec_digits x)" for x using dec_digits_all [of x] by (auto simp: is_digit_def)
  then show "length v4 = 4 \<Longrightarrow> byte_list v4 \<Longrightarrow> safe_text (dotted v4)"
    using dotted_text(2) [of v4] by (auto simp: safe_text_def dotted_def)
qed

lemma groups_size: "word_list us \<Longrightarrow> length (groups us) \<le> 5 * length us"
proof (induction us)
  case (Cons w us)
  then show ?case using hex_digits_lengths(1) [of w] by (simp add: word_list_def)
qed simp

lemma tail_text_good:
  assumes "word_list us" "v4 = [] \<or> length v4 = 4 \<and> byte_list v4"
  shows "safe_text (tail_text us v4)" "length (tail_text us v4) \<le> 5 * length us + 4 * length v4"
proof -
  show "safe_text (tail_text us v4)" using assms(2) by (auto simp: tail_text_def safe_dotted)
  show "length (tail_text us v4) \<le> 5 * length us + 4 * length v4"
  proof (cases "v4 = []")
    case True
    show ?thesis
    proof (cases "us = []")
      case False
      then show ?thesis using True groups_size [OF assms(1)] tail_text_colon [OF False, THEN arg_cong [of _ _ length]] by simp
    qed (simp add: True tail_text_def)
  next
    case False
    then show ?thesis using assms groups_size [OF assms(1)] dotted_text(1) [of v4] by (simp add: tail_text_def)
  qed
qed

text \<open>The texts of an address: all groups, or a run of zeros left out.\<close>

inductive address_text :: "nat list \<Rightarrow> string \<Rightarrow> bool" where
  all_groups: "address_text src (tail_text (words_of src) [])"
| zeros_out: "b + l \<le> 8 \<Longrightarrow> 2 \<le> l \<Longrightarrow> \<forall>j. b \<le> j \<and> j < b + l \<longrightarrow> words_of src ! j = 0 \<Longrightarrow>
    v4 = [] \<or> v4 = drop 12 src \<and> b + l \<le> 6 \<Longrightarrow> address_text src (text6 (words_of src) b l v4)"

lemma address_text_good:
  assumes "address_text src tx" "length src = 16" "byte_list src"
  shows "safe_text tx" "length tx < 46"
proof -
  have w: "length (words_of src) = 8" "word_list (words_of src)"
    using words_of_bytes [of src 8] assms(2,3) by (simp_all add: word_list_def)
  have sub: "word_list us" if "set us \<subseteq> set (words_of src)" for us using w(2) that by (auto simp: word_list_def)
  have v: "length (drop 12 src) = 4" "byte_list (drop 12 src)" using assms(2,3) by (auto simp: byte_list_def dest: in_set_dropD)
  from assms(1) have "safe_text tx \<and> length tx < 46"
  proof cases
    case all_groups
    then show ?thesis using tail_text_good [OF w(2), of "[]"] w(1) by simp
  next
    case (zeros_out b l v4)
    let ?us = "drop (b + l) (take (8 - length v4 div 2) (words_of src))"
    have "set ?us \<subseteq> set (words_of src)" by (meson set_drop_subset set_take_subset subset_trans)
    note u = sub [OF this]
    have "set (take b (words_of src)) \<subseteq> set (words_of src)" by (rule set_take_subset)
    note g = groups_size [OF sub [OF this]]
    have v4: "v4 = [] \<or> length v4 = 4 \<and> byte_list v4" using zeros_out(5) v by blast
    have "length (tail_text ?us v4) \<le> 5 * length ?us + 4 * length v4" "safe_text (tail_text ?us v4)"
      using tail_text_good [OF u v4] by simp_all
    then show ?thesis using zeros_out(1-3,5) g w(1) v(1) by (auto simp: text6_def)
  qed
  then show "safe_text tx" "length tx < 46" by simp_all
qed

lemma ntop6_text:
  assumes "length src = 16" "byte_list src" "46 \<le> sz" "sz \<le> length dst"
  obtains tx where "address_text src tx" "inet_ntop6 src dst sz = Ret (0, tx @ NUL # drop (Suc (length tx)) dst)"
proof -
  define ws where "ws = words_of src"
  have w: "eight ws" "length ws = 8" using words_of_bytes [of src 8] assms(1,2) by (simp_all add: eight_def ws_def)
  have t: "take 16 src = src" using assms(1) by simp
  let ?g = "\<lambda>t. bnd (putc NUL t) (\<lambda>tmp. if sz < length tmp then Ret (UV_ENOSPC, dst)
          else bnd (uv__strscpy dst tmp sz) (\<lambda>(_, dst). Ret (0, dst)))"
  have n: "inet_ntop6 src dst sz = bnd (format_loop src (find_zeros ws) ws 0 []) (\<lambda>(err, t). if err \<noteq> 0 then Ret (err, dst)
      else bnd (closing_colon (find_zeros ws) ws t) ?g)"
    using assms(1) unfolding inet_ntop6_def closing_colon_def Let_def t ws_def by simp
  have "\<exists>tx. address_text src tx \<and> inet_ntop6 src dst sz = ?g tx"
  proof (rule find_zeros_ok [OF w(2)])
    assume "base (find_zeros ws) = -1"
    then have "inet_ntop6 src dst sz = ?g (tail_text ws [])"
      unfolding n using format_plain [OF w(1)] by (simp add: closing_colon_def)
    then show ?thesis using all_groups [of src] by (auto simp: ws_def)
  next
    fix b l
    assume z: "find_zeros ws = \<lparr>base = int b, len = int l\<rparr>" "2 \<le> l" "b + l \<le> 8" "\<forall>j. b \<le> j \<and> j < b + l \<longrightarrow> ws ! j = 0"
    show ?thesis
    proof (cases "encapsulated \<lparr>base = int b, len = int l\<rparr> ws 6 \<and> l \<le> 6")
      case True
      then have b: "b = 0" by (simp add: encapsulated_def)
      then have fz: "find_zeros ws = \<lparr>base = 0, len = int l\<rparr>" using z(1) by simp
      have "inet_ntop6 src dst sz = ?g (text6 ws 0 l (drop 12 src))"
        using format_dotted [OF w(1) _ z(2), of src dst ?g] True assms(1,2) b unfolding n fz by simp
      then show ?thesis using zeros_out [of 0 l src "drop 12 src"] z True b by (auto simp: ws_def)
    next
      case False
      then have "inet_ntop6 src dst sz = ?g (text6 ws b l [])"
        using format_zeros [OF w(1) z(3,2), of src dst ?g] unfolding n z(1) by simp
      then show ?thesis using zeros_out [of b l src "[]"] z by (auto simp: ws_def)
    qed
  qed
  then obtain tx where tx: "address_text src tx" "inet_ntop6 src dst sz = ?g tx" by blast
  have "?g tx = Ret (0, tx @ NUL # drop (Suc (length tx)) dst)"
    using address_text_good [OF tx(1) assms(1,2)] assms(3,4) strscpy_copies [of tx sz dst "[]"]
    by (simp add: putc_def safe_text_def)
  then show ?thesis using that [OF tx(1)] tx(2) by simp
qed

section \<open>Reading the text\<close>

lemma run_bytes:
  assumes "\<forall>j. b \<le> j \<and> j < b + l \<longrightarrow> ws ! j = 0" "b + l \<le> m" "m \<le> length ws"
  shows "bytes (take b ws) @ replicate (2 * l) 0 @ bytes (drop (b + l) (take m ws)) = bytes (take m ws)"
proof -
  have "take l (drop b ws) = replicate l 0"
    by (rule nth_equalityI) (use assms in auto)
  moreover have "bytes (replicate l 0) = replicate (2 * l) 0" by (induction l) simp_all
  moreover have "take m ws = take b ws @ take l (drop b ws) @ drop (b + l) (take m ws)"
    using append_take_drop_id [of "b + l" "take m ws"] assms(2) by (simp add: take_add min_absorb1)
  ultimately show ?thesis by (metis bytes_simps(3))
qed

lemma take_bytes: "take (2 * k) (bytes ws) = bytes (take k ws)"
proof (induction k arbitrary: ws)
  case (Suc k)
  then show ?case by (cases ws) simp_all
qed simp

lemma hex_not_colon: "w < 65536 \<Longrightarrow> hd (hex_digits w) \<noteq> CHR '':''"
  using hex_digits_safe(2) [of w] hex_digits_lengths(2) [of w] hd_in_set [of "hex_digits w"] by metis

lemma pton6_text:
  assumes "address_text src tx" "length src = 16" "byte_list src" "16 \<le> length dst"
  shows "inet_pton6 tx dst = Ret (0, src @ drop 16 dst)"
proof -
  define ws where "ws = words_of src"
  have w: "length ws = 8" "\<forall>w \<in> set ws. w < 65536" "bytes ws = src"
    using words_of_bytes [of src 8] assms(2,3) by (simp_all add: ws_def)
  then obtain w0 us where c: "ws = w0 # us" "w0 < 65536" by (cases ws) auto
  have v: "length (drop 12 src) = 4" "byte_list (drop 12 src)" using assms(2,3) by (auto simp: byte_list_def dest: in_set_dropD)
  have st: "\<lparr>p_tmp = replicate 16 0, p_tp = 0, p_colon = None, p_seen = 0, p_val = 0, p_tok = s\<rparr> = parsed [] None 0 0 s" for s
    by (simp add: parsed_def)
  from assms(1) show ?thesis
  proof cases
    case all_groups
    have "skip_colon tx = Some tx"
      using all_groups c hex_not_colon [OF c(2)] hex_digits_lengths(2) [OF c(2)]
      by (auto simp: skip_colon_def tail_text_def ws_def [symmetric] hd_append)
    then show ?thesis using tail_parsed [of ws "[]" "[]" tx None dst] w finish_exact [OF assms(2,4)] assms(2) all_groups
      by (auto simp: inet_pton6_def st ws_def [symmetric])
  next
    case (zeros_out b l v4)
    let ?us = "drop (b + l) (take (8 - length v4 div 2) ws)"
    let ?tail = "tail_text ?us v4" and ?bs = "bytes (take b ws)"
    have tx: "tx = (if b = 0 then '':'' else []) @ groups (take b ws) @ '':'' @ ?tail"
      using zeros_out(1) by (simp add: text6_def ws_def)
    have "hd tx \<noteq> CHR '':''" "tx \<noteq> []" if "b \<noteq> 0"
      using that c hex_not_colon [OF c(2)] hex_digits_lengths(2) [OF c(2)] by (cases b; auto simp: tx hd_append)+
    then have skip: "skip_colon tx = Some (groups (take b ws) @ CHR '':'' # ?tail)"
      by (cases "b = 0") (auto simp: skip_colon_def tx)
    have v4: "v4 = [] \<or> length v4 = 4 \<and> byte_list v4" using zeros_out(5) v by blast
    have b: "b + l \<le> 8 - length v4 div 2" "length v4 = 0 \<or> length v4 = 4" using zeros_out(2,5) v by auto
    have us: "\<forall>w \<in> set ?us. w < 65536" "length ?us = 8 - length v4 div 2 - (b + l)"
      using w(1,2) by (auto dest: in_set_dropD in_set_takeD)
    obtain tok where 1: "pton6_loop (groups (take b ws) @ CHR '':'' # ?tail) (parsed [] None 0 0 (groups (take b ws) @ CHR '':'' # ?tail)) =
        pton6_loop (CHR '':'' # ?tail) (parsed ?bs None 0 0 tok)"
      using pton6_groups [of "take b ws" "[]" "CHR '':'' # ?tail" None] w(1,2) zeros_out(2) by (auto dest: in_set_takeD)
    have lb: "length ?bs = 2 * b" using w(1) zeros_out(2) by simp
    have room: "length ?bs + 2 * length ?us + length v4 \<le> 16" using lb us(2) b by auto
    from tail_parsed [OF us(1) v4 room disjI1 [OF refl], of "Some (length ?bs)" dst] obtain p vl tok' where
      2: "pton6_loop ?tail (parsed ?bs (Some (length ?bs)) 0 0 ?tail) = Ret (0, p)"
        "pton6_finish p dst = pton6_finish (parsed (?bs @ (bytes ?us @ v4)) (Some (length ?bs)) 0 vl tok') dst"
      by blast
    have "bytes (take (8 - length v4 div 2) ws) @ v4 = src"
      using zeros_out(5) w v take_bytes [of 6 ws] assms(2) by (auto simp: take_bytes [symmetric])
    then have "?bs @ replicate (2 * l) 0 @ bytes ?us @ v4 = src"
      using run_bytes [of b l ws "8 - length v4 div 2"] zeros_out(4) b(1) w(1) unfolding ws_def [symmetric]
      by (metis append.assoc diff_le_self)
    moreover have "16 - length ?bs - length (bytes ?us @ v4) = 2 * l" using lb us(2) b by auto
    moreover have "length ?bs + length (bytes ?us @ v4) < 16" using lb us(2) b zeros_out(3) by auto
    ultimately have "pton6_finish p dst = Ret (0, src @ drop 16 dst)"
      unfolding 2(2) using finish_zeros [of ?bs "bytes ?us @ v4" dst] assms(4) by (metis append.assoc)
    then show ?thesis using 1 [unfolded pton6_colons] 2(1)
      by (simp only: inet_pton6_def skip option.case st bnd.simps) simp
  qed
qed

section \<open>Properties\<close>

text \<open>C12: Addresses survive the round trip through text. For each of the two families, every address and every buffer of at
  least 16 or 46 bytes, uv_inet_ntop stays inside its buffers and writes a C string, and uv_inet_pton
  reads that string back as the same bytes.\<close>

theorem inet_roundtrip:
  assumes "af = AF_INET \<and> length src = 4 \<and> 16 \<le> sz \<or> af = AF_INET6 \<and> length src = 16 \<and> 46 \<le> sz"
    and "byte_list src" and "sz \<le> length buf" and "length src \<le> length dst"
  shows "\<exists>buf' s. uv_inet_ntop af src buf sz = Ret (0, buf') \<and> cstr_from buf' = Ret s \<and>
    uv_inet_pton af (Some s) (Some dst) = Ret (0, Some (src @ drop (length src) dst))"
  using assms(1)
proof
  assume a: "af = AF_INET \<and> length src = 4 \<and> 16 \<le> sz"
  then have "length src = Suc (Suc (Suc (Suc 0)))" by simp
  then obtain a b c d where s: "src = [a, b, c, d]" by (auto simp: length_Suc_conv)
  have "inet_pton4 (dotted src) dst = Ret (0, src @ drop 4 dst)"
    using pton4_dotted [of a b c d dst] assms(2,4) by (simp add: s byte_list_def)
  then show ?thesis using ntop4_text [of src sz buf] dotted_text(2) [of src] a assms
    by (auto simp: uv_inet_ntop_def uv_inet_pton_def)
next
  assume a: "af = AF_INET6 \<and> length src = 16 \<and> 46 \<le> sz"
  with ntop6_text [of src sz buf] assms(2,3) obtain s where s: "address_text src s"
    "inet_ntop6 src buf sz = Ret (0, s @ NUL # drop (Suc (length s)) buf)" by blast
  then have "safe_text s" using address_text_good(1) a assms(2) by blast
  then have g: "cstring s" "CHR ''%'' \<notin> set s" unfolding safe_text_def by blast+
  have t: "takeWhile (\<lambda>c. c \<noteq> CHR ''%'') s = s" using g(2) unfolding takeWhile_eq_all_conv by blast
  have "inet_pton6 s dst = Ret (0, src @ drop 16 dst)" using pton6_text [OF s(1)] a assms(2,4) by simp
  then have "uv_inet_pton af (Some s) (Some dst) = Ret (0, Some (src @ drop (length src) dst))"
    using a by (simp add: uv_inet_pton_def t)
  moreover have "uv_inet_ntop af src buf sz = Ret (0, s @ NUL # drop (Suc (length s)) buf)"
    using a s(2) by (simp add: uv_inet_ntop_def)
  moreover have "cstr_from (s @ NUL # drop (Suc (length s)) buf) = Ret s" using g(1) by simp
  ultimately show ?thesis by blast
qed

text \<open>The address 2001:db8::1.\<close>

theorem inet_roundtrip_witness:
  "\<exists>buf s. uv_inet_ntop AF_INET6 [0x20, 1, 0xd, 0xb8, 0, 0, 0, 0, 0, 0, 0, 0, 0, 0, 0, 1] (replicate 46 NUL) 46 = Ret (0, buf) \<and>
    cstr_from buf = Ret s \<and>
    uv_inet_pton AF_INET6 (Some s) (Some (replicate 16 0)) = Ret (0, Some [0x20, 1, 0xd, 0xb8, 0, 0, 0, 0, 0, 0, 0, 0, 0, 0, 0, 1])"
  using inet_roundtrip [of AF_INET6 "[0x20, 1, 0xd, 0xb8, 0, 0, 0, 0, 0, 0, 0, 0, 0, 0, 0, 1]" 46 "replicate 46 NUL" "replicate 16 0"]
  by (simp add: byte_list_def)

end
