(* ===== verification/Uv_Idna.thy ===== *)
theory Uv_Idna
  imports Prelude
begin

text \<open>
  Host names (idna.c): decoding UTF-8, and writing a name with other than ASCII characters as ASCII.
  A byte is a number below 256, a stretch of memory the list of its bytes, and an unsigned number
  one below 2 to the 32, with the wrap-around written out: h, todo, x and delta wrap, a division by
  h + 1 = 0 is undefined, and the unsigned h a label returns is converted to int.
\<close>

abbreviation (input) UV_EINVAL :: int where "UV_EINVAL \<equiv> -22"
abbreviation (input) UV_E2BIG :: int where "UV_E2BIG \<equiv> -7"

section \<open>UTF-8\<close>

definition UINT_MAX :: nat where "UINT_MAX = 2 ^ 32 - 1"

text \<open>What follows the switch: \<open>a\<close> holds the highest bits.\<close>

definition utf8_check :: "nat \<Rightarrow> nat \<Rightarrow> nat \<Rightarrow> nat \<Rightarrow> nat \<Rightarrow> nat" where
  "utf8_check a b c d mn =
     (if 0x80 \<noteq> (0xC0 AND (b XOR c XOR d)) then UINT_MAX
      else let v = push_bit 18 a OR (push_bit 12 (b AND 63) OR (push_bit 6 (c AND 63) OR (d AND 63))) in
        if v < mn then UINT_MAX
        else if 0x10FFFF < v then UINT_MAX
        else if 0xD800 \<le> v \<and> v \<le> 0xDFFF then UINT_MAX
        else v)"

text \<open>The cases of the switch fall through to the next shorter sequence. \<open>p\<close> are the bytes up to the end.\<close>

definition uv__utf8_decode1_slow :: "nat list \<Rightarrow> nat \<Rightarrow> nat \<times> nat list" where
  "uv__utf8_decode1_slow p a =
     (if 0xF7 < a then (UINT_MAX, p)
      else if 3 \<le> length p \<and> 0xEF < a then (utf8_check (a AND 7) (p ! 0) (p ! 1) (p ! 2) 0x10000, drop 3 p)
      else if 2 \<le> length p \<and> 0xDF < a then (utf8_check 0 (0x80 OR (a AND 15)) (p ! 0) (p ! 1) 0x800, drop 2 p)
      else if 1 \<le> length p \<and> 0xBF < a then (utf8_check 0 0x80 (0x80 OR (a AND 31)) (p ! 0) 0x80, drop 1 p)
      else (UINT_MAX, p))"

fun uv__utf8_decode1 :: "nat list \<Rightarrow> (nat \<times> nat list) run" where
  "uv__utf8_decode1 [] = Abort"
| "uv__utf8_decode1 (a # p) = Ret (if a < 128 then (a, p) else uv__utf8_decode1_slow p a)"

lemma decode_shorter: "uv__utf8_decode1 p = Ret (c, q) \<Longrightarrow> length q < length p"
  by (cases p) (auto simp: uv__utf8_decode1_slow_def split: if_splits)

section \<open>A label\<close>

text \<open>A loop over the characters of a label, which is decoded in every pass. Its body goes on, leaves the
  loop, fails an assertion, or divides by zero.\<close>

datatype 'st loop_end = Go 'st | Stop 'st | Die | Div0

function chars_loop :: "(nat \<Rightarrow> 'st \<Rightarrow> 'st loop_end) \<Rightarrow> nat list \<Rightarrow> 'st \<Rightarrow> 'st run" where
  "chars_loop body s st = (if s = [] then Ret st
     else case uv__utf8_decode1 s of
       Ret (c, q) \<Rightarrow> (case body c st of Go st1 \<Rightarrow> chars_loop body q st1 | Stop st1 \<Rightarrow> Ret st1 | Die \<Rightarrow> Abort | Div0 \<Rightarrow> Undef)
     | Undef \<Rightarrow> Undef | Abort \<Rightarrow> Abort | NoFuel \<Rightarrow> NoFuel)"
  by pat_completeness auto
termination by (relation "measure (\<lambda>(body, s, st). length s)") (auto intro: decode_shorter)

declare chars_loop.simps [simp del]

record label =
  l_out :: "nat list"
  l_h :: nat
  l_todo :: nat
  l_x :: nat
  l_m :: nat
  l_n :: nat
  l_delta :: nat
  l_bias :: nat
  l_first :: bool
  l_err :: int

text \<open>An unsigned number plus one, and one converted to int.\<close>

definition plus1 :: "nat \<Rightarrow> nat" where
  "plus1 n = (n + 1) mod 2 ^ 32"

definition to_int :: "nat \<Rightarrow> int" where
  "to_int n = (if n < 2 ^ 31 then int n else int n - 2 ^ 32)"

lemma plus1_small [simp]: "n + 1 < 2 ^ 32 \<Longrightarrow> plus1 n = n + 1"
  by (simp add: plus1_def)

text \<open>A byte of output, when there is room; \<open>cap\<close> is the size of the output.\<close>

definition emit :: "nat \<Rightarrow> nat \<Rightarrow> nat list \<Rightarrow> nat list" where
  "emit cap b out = (if length out < cap then out @ [b] else out)"

fun emits :: "nat \<Rightarrow> nat list \<Rightarrow> nat list \<Rightarrow> nat list" where
  "emits cap [] out = out"
| "emits cap (b # bs) out = emits cap bs (emit cap b out)"

definition count_char :: "nat \<Rightarrow> label \<Rightarrow> label loop_end" where
  "count_char c st =
     (if c = UINT_MAX then Stop (st\<lparr>l_err := UV_EINVAL\<rparr>)
      else if c < 128 then Go (st\<lparr>l_h := plus1 (l_h st)\<rparr>)
      else Go (st\<lparr>l_todo := plus1 (l_todo st)\<rparr>))"

definition ascii_char :: "nat \<Rightarrow> nat \<Rightarrow> label \<Rightarrow> label loop_end" where
  "ascii_char cap c st =
     (if c = UINT_MAX then Die
      else if 127 < c then Go st
      else let st1 = st\<lparr>l_out := emit cap c (l_out st), l_x := plus1 (l_x st)\<rparr> in
        if l_x st1 = l_h st then Stop st1 else Go st1)"

definition least_char :: "nat \<Rightarrow> label \<Rightarrow> label loop_end" where
  "least_char c st =
     (if c = UINT_MAX then Die
      else if l_n st \<le> c \<and> c < l_m st then Go (st\<lparr>l_m := c\<rparr>) else Go st)"

definition alphabet :: "nat list" where
  "alphabet = map of_char ''abcdefghijklmnopqrstuvwxyz0123456789''"

definition threshold :: "nat \<Rightarrow> nat \<Rightarrow> nat" where
  "threshold k bias = (let t = (if bias < k then k - bias else 1) in if 26 < t then 26 else t)"

lemma threshold_range: "1 \<le> threshold k bias \<and> threshold k bias \<le> 26"
  by (auto simp: threshold_def Let_def)

function digits_loop :: "nat \<Rightarrow> nat \<Rightarrow> nat \<Rightarrow> nat \<Rightarrow> nat list \<Rightarrow> nat \<times> nat list" where
  "digits_loop cap bias k q out =
     (let t = threshold k bias in
      if q < t then (q, out)
      else digits_loop cap bias (k + 36) ((q - t) div (36 - t)) (emit cap (alphabet ! (t + (q - t) mod (36 - t))) out))"
  by pat_completeness auto
termination
proof (relation "measure (\<lambda>(cap, bias, k, q, out). q)", simp_all)
  fix k q bias
  show "(q - threshold k bias) div (36 - threshold k bias) < q" if "\<not> q < threshold k bias"
    using that threshold_range [of k bias] by (meson div_le_dividend diff_less le_less_trans less_le_trans not_le zero_less_one)
qed

declare digits_loop.simps [simp del]

function bias_loop :: "nat \<Rightarrow> nat \<Rightarrow> nat \<times> nat" where
  "bias_loop bias delta = (if 35 * 26 div 2 < delta then bias_loop (bias + 36) (delta div 35) else (bias, delta))"
  by pat_completeness auto
termination by (relation "measure snd") auto

declare bias_loop.simps [simp del]

text \<open>What follows the digits of a character, when h + 1 is not 0.\<close>

definition adapt :: "label \<Rightarrow> label" where
  "adapt st =
     (let d1 = l_delta st div 2; d2 = (if l_first st then d1 div 350 else d1); h = plus1 (l_h st);
          d3 = (d2 + d2 div h) mod 2 ^ 32; (bias, d4) = bias_loop 0 d3 in
      st\<lparr>l_first := False, l_h := h, l_bias := bias + 36 * d4 div (d4 + 38), l_delta := 0, l_todo := (l_todo st + 2 ^ 32 - 1) mod 2 ^ 32\<rparr>)"

definition encode_char :: "nat \<Rightarrow> nat \<Rightarrow> label \<Rightarrow> label loop_end" where
  "encode_char cap c st =
     (if c = UINT_MAX then Die
      else let st1 = (if c < l_n st then st\<lparr>l_delta := (l_delta st + 1) mod 2 ^ 32\<rparr> else st) in
        if c < l_n st \<and> l_delta st1 = 0 then Stop (st1\<lparr>l_err := UV_E2BIG\<rparr>)
        else if c \<noteq> l_n st then Go st1
        else if plus1 (l_h st1) = 0 then Div0
        else let (q, out) = digits_loop cap (l_bias st1) 36 (l_delta st1) (l_out st1) in
          Go (adapt (st1\<lparr>l_out := emit cap (alphabet ! q) out\<rparr>)))"

text \<open>The loop that inserts the characters in the order of their numbers.\<close>

fun points_loop :: "nat \<Rightarrow> nat \<Rightarrow> nat list \<Rightarrow> label \<Rightarrow> label run" where
  "points_loop 0 cap s st = NoFuel"
| "points_loop (Suc fuel) cap s st =
     (if l_todo st = 0 then Ret st
      else bnd (chars_loop least_char s (st\<lparr>l_m := UINT_MAX\<rparr>)) (\<lambda>st1.
        let x = (l_m st1 + 2 ^ 32 - l_n st1) mod 2 ^ 32; y = plus1 (l_h st1) in
        if y = 0 then Undef
        else if (UINT_MAX - l_delta st1) div y < x then Ret (st1\<lparr>l_err := UV_E2BIG\<rparr>)
        else bnd (chars_loop (encode_char cap) s (st1\<lparr>l_delta := (l_delta st1 + x * y) mod 2 ^ 32, l_n := l_m st1\<rparr>))
          (\<lambda>st2. if l_err st2 \<noteq> 0 then Ret st2
            else points_loop fuel cap s (st2\<lparr>l_delta := (l_delta st2 + 1) mod 2 ^ 32, l_n := (l_n st2 + 1) mod 2 ^ 32\<rparr>))))"

definition new_label :: "nat list \<Rightarrow> label" where
  "new_label out = \<lparr>l_out = out, l_h = 0, l_todo = 0, l_x = 0, l_m = 0, l_n = 128, l_delta = 0, l_bias = 72,
     l_first = True, l_err = 0\<rparr>"

definition uv__idna_toascii_label :: "nat \<Rightarrow> nat list \<Rightarrow> nat list \<Rightarrow> (int \<times> nat list) run" where
  "uv__idna_toascii_label cap s out =
     bnd (chars_loop count_char s (new_label out)) (\<lambda>st.
     if l_err st \<noteq> 0 then Ret (l_err st, l_out st)
     else bnd (chars_loop (ascii_char cap) s
         (if 0 < l_todo st then st\<lparr>l_out := emits cap (map of_char ''xn--'') (l_out st)\<rparr> else st)) (\<lambda>st.
       if l_todo st = 0 then Ret (to_int (l_h st), l_out st)
       else bnd (points_loop (Suc (l_todo st)) cap s
           (if 0 < l_h st then st\<lparr>l_out := emit cap (of_char CHR ''-'') (l_out st)\<rparr> else st)) (\<lambda>st.
         Ret (l_err st, l_out st))))"

section \<open>A host name\<close>

definition separator :: "nat \<Rightarrow> bool" where
  "separator c \<longleftrightarrow> c = of_char CHR ''.'' \<or> c = 0x3002 \<or> c = 0xFF0E \<or> c = 0xFF61"

text \<open>\<open>s\<close> is what follows the last separator, \<open>si\<close> what is not decoded yet.\<close>

function toascii_loop :: "nat \<Rightarrow> nat list \<Rightarrow> nat list \<Rightarrow> nat list \<Rightarrow> (int \<times> nat list) run" where
  "toascii_loop cap s si out = (if si = [] then
       bnd (if s \<noteq> [] then uv__idna_toascii_label cap s out else Ret (0, out)) (\<lambda>(rc, out).
       if rc < 0 then Ret (rc, out)
       else let out = emit cap 0 out in Ret (int (length out), out))
     else case uv__utf8_decode1 si of
       Ret (c, sj) \<Rightarrow>
         if c = UINT_MAX then Ret (UV_EINVAL, out)
         else if \<not> separator c then toascii_loop cap s sj out
         else (case uv__idna_toascii_label cap (take (length s - length si) s) out of
             Ret (rc, out) \<Rightarrow> if rc < 0 then Ret (rc, out)
               else toascii_loop cap sj sj (emit cap (of_char CHR ''.'') out)
           | Undef \<Rightarrow> Undef | Abort \<Rightarrow> Abort | NoFuel \<Rightarrow> NoFuel)
     | Undef \<Rightarrow> Undef | Abort \<Rightarrow> Abort | NoFuel \<Rightarrow> NoFuel)"
  by pat_completeness auto
termination by (relation "measure (\<lambda>(cap, s, si, out). length si)") (auto intro: decode_shorter)

declare toascii_loop.simps [simp del]

definition uv__idna_toascii :: "nat list \<Rightarrow> nat \<Rightarrow> (int \<times> nat list) run" where
  "uv__idna_toascii s cap = toascii_loop cap s s []"

section \<open>Bits\<close>

lemma and_63: "n AND 63 = n mod (64 :: nat)" and and_31: "n AND 31 = n mod (32 :: nat)"
    and and_15: "n AND 15 = n mod (16 :: nat)" and and_7: "n AND 7 = n mod (8 :: nat)"
proof -
  have "(63 :: nat) = mask 6" "(31 :: nat) = mask 5" "(15 :: nat) = mask 4" "(7 :: nat) = mask 3"
    by (simp_all add: mask_eq_exp_minus_1)
  then show "n AND 63 = n mod (64 :: nat)" "n AND 31 = n mod (32 :: nat)" "n AND 15 = n mod (16 :: nat)" "n AND 7 = n mod (8 :: nat)"
    by (simp_all only: take_bit_eq_mask [symmetric] take_bit_eq_mod) simp_all
qed

lemma or_sum: "d < 2 ^ n \<Longrightarrow> push_bit n c OR d = c * 2 ^ n + (d :: nat)"
proof -
  assume "d < 2 ^ n"
  then have "take_bit n d = d" by (simp add: take_bit_nat_eq_self_iff)
  then have "\<not> bit (push_bit n c) k \<or> \<not> bit d k" for k
    by (metis bit_push_bit_iff bit_take_bit_iff not_le)
  then have "push_bit n c + d = push_bit n c OR d" by (simp add: disjunctive_add)
  then show ?thesis by (simp add: push_bit_eq_mult)
qed

text \<open>The two highest bits of a byte.\<close>

definition top2 :: "nat \<Rightarrow> nat" where
  "top2 b = take_bit 2 (drop_bit 6 b)"

lemma top2_eq: "top2 b = b div 64 mod 4"
  by (simp add: top2_def take_bit_eq_mod drop_bit_eq_div)

lemma and_c0: "0xC0 AND y = push_bit 6 (top2 y)"
proof -
  have "(0xC0 :: nat) = push_bit 6 (mask 2)" by (simp add: mask_eq_exp_minus_1 push_bit_eq_mult)
  moreover have "bit (push_bit 6 (mask 2) :: nat) n \<longleftrightarrow> 6 \<le> n \<and> n - 6 < 2" for n
    by (auto simp: bit_push_bit_iff bit_mask_iff)
  ultimately have "bit (0xC0 :: nat) n \<longleftrightarrow> 6 \<le> n \<and> n - 6 < 2" for n by metis
  then show ?thesis
    by (intro bit_eqI) (auto simp: bit_and_iff top2_def bit_push_bit_iff bit_take_bit_iff bit_drop_bit_eq)
qed

lemma top2_xor: "top2 (b XOR c) = top2 b XOR top2 c"
  by (simp add: top2_def)

lemma and_c0_xor: "0x80 = (0xC0 AND (b XOR c XOR d)) \<longleftrightarrow> top2 b XOR (top2 c XOR top2 d) = 2"
  by (auto simp: and_c0 top2_xor push_bit_eq_mult xor.assoc)

definition scalar :: "nat \<Rightarrow> bool" where
  "scalar v \<longleftrightarrow> v \<le> 0x10FFFF \<and> \<not> (0xD800 \<le> v \<and> v \<le> 0xDFFF)"

lemma check_eq:
  assumes "b < 256" "c < 256" "d < 256"
  shows "utf8_check a b c d mn = (let v = a * 2 ^ 18 + (b mod 64 * 2 ^ 12 + (c mod 64 * 2 ^ 6 + d mod 64)) in
    if top2 b XOR (top2 c XOR top2 d) = 2 \<and> mn \<le> v \<and> scalar v then v else UINT_MAX)"
proof -
  have 1: "push_bit 6 (c mod 64) OR (d mod 64) = c mod 64 * 2 ^ 6 + d mod 64" by (rule or_sum) simp
  have "c mod 64 * 2 ^ 6 + d mod 64 < 2 ^ 12"
    using mod_less_divisor [of 64 c] mod_less_divisor [of 64 d] by simp
  then have 2: "push_bit 12 (b mod 64) OR (c mod 64 * 2 ^ 6 + d mod 64) = b mod 64 * 2 ^ 12 + (c mod 64 * 2 ^ 6 + d mod 64)" by (rule or_sum)
  have "b mod 64 * 2 ^ 12 + (c mod 64 * 2 ^ 6 + d mod 64) < 2 ^ 18"
    using mod_less_divisor [of 64 b] mod_less_divisor [of 64 c] mod_less_divisor [of 64 d] by simp
  then have 3: "push_bit 18 a OR (b mod 64 * 2 ^ 12 + (c mod 64 * 2 ^ 6 + d mod 64)) =
      a * 2 ^ 18 + (b mod 64 * 2 ^ 12 + (c mod 64 * 2 ^ 6 + d mod 64))" by (rule or_sum)
  show ?thesis unfolding utf8_check_def and_63 1 2 3 and_c0_xor
    by (auto simp: Let_def scalar_def)
qed

text \<open>The encoding of RFC 3629.\<close>

definition utf8 :: "nat \<Rightarrow> nat list" where
  "utf8 v = (if v < 0x80 then [v]
     else if v < 0x800 then [0xC0 + v div 64, 0x80 + v mod 64]
     else if v < 0x10000 then [0xE0 + v div 4096, 0x80 + v div 64 mod 64, 0x80 + v mod 64]
     else [0xF0 + v div 262144, 0x80 + v div 4096 mod 64, 0x80 + v div 64 mod 64, 0x80 + v mod 64])"

lemma add_128_mod: "x < 64 \<Longrightarrow> (128 + x) mod 64 = (x :: nat)"
  using mod_add_left_eq [of 128 64 x] by simp

lemma lead_mods: "x < 32 \<Longrightarrow> (192 + x) mod 32 = x" "x < 16 \<Longrightarrow> (224 + x) mod 16 = x" "x < 8 \<Longrightarrow> (240 + x) mod 8 = (x :: nat)"
  using mod_add_left_eq [of 192 32 x] mod_add_left_eq [of 224 16 x] mod_add_left_eq [of 240 8 x] by simp_all

lemma tail_byte: "x < 64 \<Longrightarrow> top2 (0x80 + x) = 2" "x < 64 \<Longrightarrow> (0x80 + x) mod 64 = x" "x < 64 \<Longrightarrow> 0x80 + x < (256 :: nat)"
  by (simp_all add: top2_eq add_128_mod)

lemma xor_2: "(2 :: nat) XOR (2 XOR 2) = 2"
  by simp

lemma or_80: "x < 64 \<Longrightarrow> 0x80 OR x = 0x80 + (x :: nat)"
  using or_sum [of x 7 1] by (simp add: push_bit_eq_mult)

lemma check_tails:
  assumes "x < 64" "y < 64" "z < 64"
  shows "utf8_check a (0x80 + x) (0x80 + y) (0x80 + z) mn = (let v = a * 262144 + (x * 4096 + (y * 64 + z)) in
    if mn \<le> v \<and> scalar v then v else UINT_MAX)"
  using assms by (simp add: check_eq tail_byte xor_2 Let_def)

lemma split_64: "v div 4096 * 4096 + (v div 64 mod 64 * 64 + v mod 64) = (v :: nat)"
    "v div 262144 * 262144 + (v div 4096 mod 64 * 4096 + (v div 64 mod 64 * 64 + v mod 64)) = v"
proof -
  have d: "v div 64 div 64 = v div 4096" "v div 4096 div 64 = v div 262144" by (simp_all add: div_mult2_eq [symmetric])
  have "v div 64 * 64 + v mod 64 = v" "v div 4096 * 64 + v div 64 mod 64 = v div 64"
    "v div 262144 * 64 + v div 4096 mod 64 = v div 4096"
    using div_mult_mod_eq [of v 64] div_mult_mod_eq [of "v div 64" 64] div_mult_mod_eq [of "v div 4096" 64] by (simp_all only: d)
  then show "v div 4096 * 4096 + (v div 64 mod 64 * 64 + v mod 64) = v"
    "v div 262144 * 262144 + (v div 4096 mod 64 * 4096 + (v div 64 mod 64 * 64 + v mod 64)) = v" by linarith+
qed

lemma utf8_decodes:
  assumes "scalar v"
  shows "uv__utf8_decode1 (utf8 v @ rest) = Ret (v, rest)"
proof -
  consider "v < 0x80" | "0x80 \<le> v" "v < 0x800" | "0x800 \<le> v" "v < 0x10000" | "0x10000 \<le> v" "v < 0x110000"
    using assms unfolding scalar_def by linarith
  then show ?thesis
  proof cases
    case 1
    then show ?thesis by (simp add: utf8_def)
  next
    case 2
    have e: "v div 64 * 64 + v mod 64 = v" "v div 64 < 32" using 2 by auto
    have o: "0x80 OR ((0xC0 + v div 64) AND 31) = 0x80 + v div 64" using e(2) or_80 [of "v div 64"] by (simp add: and_31 lead_mods)
    show ?thesis using 2 e assms check_tails [of 0 "v div 64" "v mod 64" 0 "0x80"] o
      by (simp add: utf8_def uv__utf8_decode1_slow_def)
  next
    case 3
    have e: "v div 4096 * 4096 + (v div 64 mod 64 * 64 + v mod 64) = v" "v div 4096 < 16" using 3 split_64(1) by auto
    have o: "0x80 OR ((0xE0 + v div 4096) AND 15) = 0x80 + v div 4096" using e(2) or_80 [of "v div 4096"] by (simp add: and_15 lead_mods)
    show ?thesis using 3 e assms check_tails [of "v div 4096" "v div 64 mod 64" "v mod 64" 0 "0x800"] o
      by (simp add: utf8_def uv__utf8_decode1_slow_def)
  next
    case 4
    have e: "v div 262144 * 262144 + (v div 4096 mod 64 * 4096 + (v div 64 mod 64 * 64 + v mod 64)) = v" "v div 262144 < 8"
      using 4 split_64(2) by auto
    have o: "(0xF0 + v div 262144) AND 7 = v div 262144" using e(2) by (simp add: and_7 lead_mods)
    show ?thesis using 4 e assms check_tails [of "v div 4096 mod 64" "v div 64 mod 64" "v mod 64" "v div 262144" "0x10000"] o
      by (simp add: utf8_def uv__utf8_decode1_slow_def)
  qed
qed

section \<open>What the decoder accepts\<close>

lemma decode_three:
  assumes "1 \<le> x" "x \<le> 12" "b < 256" "c < 256" "b div 64 = c div 64"
  shows "uv__utf8_decode1 ((0xE0 + x) # b # c # rest) = Ret (x * 4096 + (b mod 64 * 64 + c mod 64), rest)"
proof -
  have o: "0x80 OR ((0xE0 + x) AND 15) = 0x80 + x" using assms(1,2) or_80 [of x] by (simp add: and_15 lead_mods)
  have t: "top2 (0x80 + x) XOR (top2 b XOR top2 c) = 2" using assms(2,5) by (simp add: tail_byte top2_eq)
  have v: "b mod 64 < 64" "c mod 64 < 64" by simp_all
  have "scalar (x * 4096 + (b mod 64 * 64 + c mod 64))" using assms(2) v unfolding scalar_def by linarith
  moreover have "(0x80 + x) mod 64 = x" "0x80 + x < 256" using assms(2) by (simp_all add: add_128_mod)
  ultimately show ?thesis using assms o t
    by (simp add: uv__utf8_decode1_slow_def check_eq Let_def)
qed

lemma decode_cut:
  assumes "1 \<le> x" "x < 8" "y < 64" "z < 64"
  shows "uv__utf8_decode1 [0xF0 + x, 0x80 + y, 0x80 + z] = Ret (x * 4096 + (y * 64 + z), [])"
proof -
  have o: "0x80 OR ((0xF0 + x) AND 15) = 0x80 + x"
    using assms(2) or_80 [of x] mod_add_left_eq [of 240 16 x] by (simp add: and_15)
  have "scalar (x * 4096 + (y * 64 + z))" using assms unfolding scalar_def by linarith
  then show ?thesis using assms o check_tails [of x y z 0 "0x800"] by (simp add: uv__utf8_decode1_slow_def Let_def)
qed

section \<open>ASCII names\<close>

lemma emit_take: "emit cap b (take cap out) = take cap (out @ [b])"
  by (auto simp: emit_def)

lemma emits_take: "emits cap bs (take cap out) = take cap (out @ bs)"
  by (induction bs arbitrary: out) (simp_all add: emit_take del: take_append)

lemma count_ascii: "\<forall>b \<in> set s. b < 128 \<Longrightarrow> l_h st + length s < 2 ^ 32 \<Longrightarrow> chars_loop count_char s st = Ret (st\<lparr>l_h := l_h st + length s\<rparr>)"
  by (induction s arbitrary: st) (simp_all add: chars_loop.simps [of _ "_ # _"] chars_loop.simps [of _ "[]"] count_char_def UINT_MAX_def)

lemma write_ascii:
  "\<forall>b \<in> set s. b < 128 \<Longrightarrow> l_h st = l_x st + length s \<Longrightarrow> l_h st < 2 ^ 32 \<Longrightarrow>
    chars_loop (ascii_char cap) s st = Ret (st\<lparr>l_out := emits cap s (l_out st), l_x := l_h st\<rparr>)"
proof (induction s arbitrary: st)
  case (Cons b s)
  show ?case
  proof (cases "s = []")
    case True
    then show ?thesis using Cons.prems by (simp add: chars_loop.simps [of _ "_ # _"] ascii_char_def UINT_MAX_def Let_def)
  next
    case False
    then have "l_h st \<noteq> Suc (l_x st)" using Cons.prems by simp
    then show ?thesis using Cons.prems
      by (simp add: chars_loop.simps [of _ "_ # _"] ascii_char_def [of cap b] UINT_MAX_def Let_def Cons.IH)
  qed
qed (simp add: chars_loop.simps [of _ "[]"])

lemma label_ascii:
  "\<forall>b \<in> set s. b < 128 \<Longrightarrow> length s < 2 ^ 31 \<Longrightarrow> uv__idna_toascii_label cap s out = Ret (int (length s), emits cap s out)"
  by (simp add: uv__idna_toascii_label_def count_ascii write_ascii new_label_def to_int_def)

lemma toascii_ascii:
  assumes "\<forall>b \<in> set (pre @ si). b < 128" and "length (pre @ si) < 2 ^ 31"
  shows "toascii_loop cap (pre @ si) si (take cap out) =
    Ret (int (min cap (length (out @ pre @ si @ [0]))), take cap (out @ pre @ si @ [0]))"
  using assms
proof (induction si arbitrary: pre out)
  case Nil
  then show ?case
    by (cases "pre = []") (simp_all add: toascii_loop.simps [of _ _ "[]"] label_ascii emits_take emit_take min.commute Let_def
      del: take_append)
next
  case (Cons c si)
  have c: "c < 128" "\<forall>b \<in> set pre. b < 128" using Cons.prems by auto
  show ?case
  proof (cases "separator c")
    case True
    then have "c = 46" using c(1) by (simp add: separator_def)
    moreover have "take (length pre) (pre @ 46 # si) = pre" by simp
    ultimately show ?thesis using True c Cons.prems Cons.IH [of "[]" "out @ pre @ [c]"]
      by (simp add: toascii_loop.simps [of _ _ "_ # _"] label_ascii emits_take emit_take UINT_MAX_def del: take_append)
  next
    case False
    then show ?thesis using c Cons.prems Cons.IH [of "pre @ [c]" out]
      by (simp add: toascii_loop.simps [of _ _ "_ # _"] UINT_MAX_def)
  qed
qed

section \<open>Every name\<close>

text \<open>The characters of a stretch of bytes.\<close>

function chars_of :: "nat list \<Rightarrow> nat list" where
  "chars_of s = (if s = [] then [] else case uv__utf8_decode1 s of Ret (c, q) \<Rightarrow> c # chars_of q | _ \<Rightarrow> [])"
  by pat_completeness auto
termination by (relation "measure length") (auto intro: decode_shorter)

declare chars_of.simps [simp del]

fun each :: "(nat \<Rightarrow> 'st \<Rightarrow> 'st loop_end) \<Rightarrow> nat list \<Rightarrow> 'st \<Rightarrow> 'st run" where
  "each body [] st = Ret st"
| "each body (c # cs) st = (case body c st of Go st1 \<Rightarrow> each body cs st1 | Stop st1 \<Rightarrow> Ret st1 | Die \<Rightarrow> Abort | Div0 \<Rightarrow> Undef)"

lemma decode_Ret: "s \<noteq> [] \<Longrightarrow> \<exists>c q. uv__utf8_decode1 s = Ret (c, q)"
  by (cases s) (auto simp: uv__utf8_decode1_slow_def)

lemma chars_loop_each: "chars_loop body s st = each body (chars_of s) st"
proof (induction s arbitrary: st rule: length_induct)
  case (1 s)
  show ?case
  proof (cases "s = []")
    case False
    then obtain c q where d: "uv__utf8_decode1 s = Ret (c, q)" using decode_Ret by blast
    then show ?thesis using 1 False decode_shorter [OF d]
      by (simp add: chars_loop.simps [of _ s] chars_of.simps [of s] split: loop_end.split)
  qed (simp add: chars_loop.simps [of _ "[]"] chars_of.simps [of "[]"])
qed

lemma decode_range: "uv__utf8_decode1 s = Ret (c, q) \<Longrightarrow> c = UINT_MAX \<or> c \<le> 0x10FFFF"
  by (cases s) (auto simp: uv__utf8_decode1_slow_def utf8_check_def Let_def split: if_splits)

lemma chars_range: "c \<in> set (chars_of s) \<Longrightarrow> c = UINT_MAX \<or> c \<le> 0x10FFFF"
proof (induction s rule: length_induct)
  case (1 s)
  show ?case
  proof (cases "s = []")
    case False
    then obtain d q where d: "uv__utf8_decode1 s = Ret (d, q)" using decode_Ret by blast
    then show ?thesis using 1 False decode_shorter [OF d] decode_range [OF d] by (auto simp: chars_of.simps [of s])
  qed (use 1 in \<open>simp add: chars_of.simps [of "[]"]\<close>)
qed

definition legal :: "nat list \<Rightarrow> bool" where
  "legal cs \<longleftrightarrow> (\<forall>c \<in> set cs. c \<le> 0x10FFFF)"

text \<open>The characters that are not written yet.\<close>

definition left_over :: "nat \<Rightarrow> nat list \<Rightarrow> nat" where
  "left_over n cs = length (filter (\<lambda>c. n \<le> c) cs)"

lemma legal_max: "legal cs \<Longrightarrow> UINT_MAX \<notin> set cs"
  by (auto simp: legal_def UINT_MAX_def)

lemma legal_Cons [simp]: "legal (c # cs) \<longleftrightarrow> c \<le> 0x10FFFF \<and> legal cs"
  by (simp add: legal_def)

lemma legal_neq: "c \<le> 0x10FFFF \<Longrightarrow> c \<noteq> UINT_MAX"
  by (simp add: UINT_MAX_def)

lemma count_good:
  "UINT_MAX \<notin> set cs \<Longrightarrow> l_h st + l_todo st + length cs < 2 ^ 32 \<Longrightarrow>
    \<exists>st1. each count_char cs st = Ret st1 \<and> l_out st1 = l_out st \<and> l_n st1 = l_n st \<and> l_err st1 = l_err st \<and>
     l_todo st1 = l_todo st + left_over 128 cs \<and> l_h st1 + l_todo st1 = l_h st + l_todo st + length cs"
proof (induction cs arbitrary: st)
  case (Cons c cs)
  then show ?case using Cons.IH [of "st\<lparr>l_h := l_h st + 1\<rparr>"] Cons.IH [of "st\<lparr>l_todo := l_todo st + 1\<rparr>"]
    by (auto simp: count_char_def left_over_def)
qed (simp add: left_over_def)

lemma count_bad:
  "UINT_MAX \<in> set cs \<Longrightarrow> \<exists>st1. each count_char cs st = Ret st1 \<and> l_out st1 = l_out st \<and> l_err st1 = UV_EINVAL"
proof (induction cs arbitrary: st)
  case (Cons c cs)
  then show ?case using Cons.IH [of "st\<lparr>l_h := plus1 (l_h st)\<rparr>"] Cons.IH [of "st\<lparr>l_todo := plus1 (l_todo st)\<rparr>"]
    by (auto simp: count_char_def)
qed simp

lemma ascii_each:
  "legal cs \<Longrightarrow> \<exists>st1. each (ascii_char cap) cs st = Ret st1 \<and> l_err st1 = l_err st \<and> l_todo st1 = l_todo st \<and> l_n st1 = l_n st \<and> l_h st1 = l_h st \<and>
     (length (l_out st) \<le> cap \<longrightarrow> length (l_out st1) \<le> cap)"
proof (induction cs arbitrary: st)
  case (Cons c cs)
  then have c: "c \<noteq> UINT_MAX" "legal cs" using legal_neq by auto
  have e: "length (emit cap c out) \<le> cap" if "length out \<le> cap" for out using that by (simp add: emit_def)
  show ?case
  proof (cases "127 < c")
    case True
    then show ?thesis using Cons.IH [OF c(2), of st] c by (simp add: ascii_char_def [of cap c])
  next
    case False
    let ?st = "st\<lparr>l_out := emit cap c (l_out st), l_x := plus1 (l_x st)\<rparr>"
    show ?thesis
    proof (cases "plus1 (l_x st) = l_h st")
      case True
      then show ?thesis using False c e by (simp add: ascii_char_def Let_def)
    next
      case n: False
      from Cons.IH [OF c(2), of ?st] show ?thesis using False n c e by (auto simp: ascii_char_def [of cap c] Let_def)
    qed
  qed
qed simp

lemma least_each:
  "legal cs \<Longrightarrow> \<exists>st1. each least_char cs st = Ret st1 \<and> l_err st1 = l_err st \<and> l_todo st1 = l_todo st \<and> l_n st1 = l_n st \<and> l_h st1 = l_h st \<and>
     l_out st1 = l_out st \<and> l_m st1 = Min (insert (l_m st) {c \<in> set cs. l_n st \<le> c})"
proof (induction cs arbitrary: st)
  case (Cons c cs)
  then have c: "c \<noteq> UINT_MAX" "legal cs" using legal_neq by auto
  have s: "{d \<in> set (c # cs). l_n st \<le> d} = (if l_n st \<le> c then insert c else id) {d \<in> set cs. l_n st \<le> d}" by auto
  have m: "Min (insert a (insert c A)) = Min (insert (if c < a then c else a) A)" if "finite A" for a A
    using that by (cases "A = {}") (auto simp: min_def)
  have f: "finite {d \<in> set cs. l_n st \<le> d}" by simp
  show ?case
    using Cons.IH [OF c(2), of st] Cons.IH [OF c(2), of "st\<lparr>l_m := c\<rparr>"] c(1) m [OF f, of "l_m st"]
    unfolding s by (auto simp: least_char_def)
qed simp

lemma emit_bound: "length out \<le> cap \<Longrightarrow> length (emit cap b out) \<le> cap"
  by (simp add: emit_def)

lemma digits_bound: "length out \<le> cap \<Longrightarrow> length (snd (digits_loop cap bias k q out)) \<le> cap"
proof (induction cap bias k q out rule: digits_loop.induct)
  case (1 cap bias k q out)
  then show ?case by (simp add: digits_loop.simps [of cap bias k q out] Let_def emit_bound)
qed

text \<open>The indices into the alphabet.\<close>

lemma digits_index:
  "\<not> q < threshold k bias \<Longrightarrow> threshold k bias + (q - threshold k bias) mod (36 - threshold k bias) < length alphabet"
  "fst (digits_loop cap bias k q out) < length alphabet"
proof -
  have a: "length alphabet = 36" by (simp add: alphabet_def)
  have t: "1 \<le> threshold k bias" "threshold k bias \<le> 26" for k bias using threshold_range by blast+
  show "\<not> q < threshold k bias \<Longrightarrow> threshold k bias + (q - threshold k bias) mod (36 - threshold k bias) < length alphabet"
    using mod_less_divisor [of "36 - threshold k bias" "q - threshold k bias"] t [of k bias] unfolding a by linarith
  show "fst (digits_loop cap bias k q out) < length alphabet"
  proof (induction cap bias k q out rule: digits_loop.induct)
    case (1 cap bias k q out)
    have "q < 36" if "q < threshold k bias" using that t(2) [of k bias] by linarith
    with 1 show ?case using a by (simp add: digits_loop.simps [of cap bias k q out] Let_def)
  qed
qed

lemma encode_each:
  "legal cs \<Longrightarrow> l_err st = 0 \<Longrightarrow> length (l_out st) \<le> cap \<Longrightarrow> length (filter (\<lambda>c. c = l_n st) cs) \<le> l_todo st \<Longrightarrow>
    l_h st + l_todo st + 1 < 2 ^ 32 \<Longrightarrow>
    \<exists>st1. each (encode_char cap) cs st = Ret st1 \<and> l_n st1 = l_n st \<and> length (l_out st1) \<le> cap \<and>
      (l_err st1 = UV_E2BIG \<or> l_err st1 = 0 \<and> l_todo st1 = l_todo st - length (filter (\<lambda>c. c = l_n st) cs) \<and>
        l_h st1 + l_todo st1 = l_h st + l_todo st)"
proof (induction cs arbitrary: st)
  case (Cons c cs)
  then have c: "c \<noteq> UINT_MAX" "legal cs" using legal_neq by auto
  show ?case
  proof (cases "c = l_n st")
    case True
    obtain q out where d: "digits_loop cap (l_bias st) 36 (l_delta st) (l_out st) = (q, out)" by (metis surj_pair)
    let ?st = "adapt (st\<lparr>l_out := emit cap (alphabet ! q) out\<rparr>)"
    have o: "length out \<le> cap" using digits_bound [OF Cons.prems(3), of "l_bias st" 36 "l_delta st"] d by simp
    have p: "0 < l_todo st" "l_todo st < 2 ^ 32" "plus1 (l_h st) = l_h st + 1" using Cons.prems(4,5) True by auto
    have "(l_todo st + 2 ^ 32 - 1) mod 2 ^ 32 = l_todo st - 1" using p(1,2)
      by (metis Nat.add_diff_assoc2 Suc_leI One_nat_def less_imp_diff_less mod_add_self2 mod_less)
    then have a: "l_n ?st = l_n st" "l_err ?st = l_err st" "l_todo ?st = l_todo st - 1" "length (l_out ?st) \<le> cap" "l_h ?st = l_h st + 1"
      using emit_bound [OF o] p(3) by (simp_all add: adapt_def Let_def split: prod.splits)
    have "encode_char cap c st = Go ?st" using True c(1) d p(3) by (simp add: encode_char_def)
    with Cons.IH [OF c(2), of ?st] a Cons.prems True show ?thesis by auto
  next
    case False
    let ?st = "if c < l_n st then st\<lparr>l_delta := (l_delta st + 1) mod 2 ^ 32\<rparr> else st"
    have a: "l_n ?st = l_n st" "l_err ?st = l_err st" "l_todo ?st = l_todo st" "l_out ?st = l_out st" "l_h ?st = l_h st" by simp_all
    have "encode_char cap c st = Stop (?st\<lparr>l_err := UV_E2BIG\<rparr>) \<or> encode_char cap c st = Go ?st"
      using False c(1) by (auto simp: encode_char_def Let_def)
    with Cons.IH [OF c(2), of ?st] a Cons.prems False show ?thesis by auto
  qed
qed simp

text \<open>Each round of the outer loop writes a character that was not written before.\<close>

lemma points_returns:
  assumes "legal (chars_of s)" "l_err st = 0" "length (l_out st) \<le> cap" "l_todo st = left_over (l_n st) (chars_of s)"
    and "l_todo st < fuel" "l_n st \<le> 0x110000" "l_h st + l_todo st + 1 < 2 ^ 32"
  shows "\<exists>st1. points_loop fuel cap s st = Ret st1 \<and> length (l_out st1) \<le> cap"
  using assms(2-)
proof (induction fuel arbitrary: st)
  case (Suc fuel)
  let ?cs = "chars_of s"
  show ?case
  proof (cases "l_todo st = 0")
    case False
    let ?A = "{c \<in> set ?cs. l_n st \<le> c}"
    from least_each [OF assms(1), of "st\<lparr>l_m := UINT_MAX\<rparr>"] obtain st1 where
      1: "each least_char ?cs (st\<lparr>l_m := UINT_MAX\<rparr>) = Ret st1" "l_err st1 = 0" "l_todo st1 = l_todo st" "l_n st1 = l_n st"
        "l_out st1 = l_out st" "l_h st1 = l_h st" "l_m st1 = Min (insert UINT_MAX ?A)" using Suc.prems(1) by auto
    have "filter (\<lambda>c. l_n st \<le> c) ?cs \<noteq> []" using False Suc.prems(3) by (auto simp: left_over_def)
    then have A: "?A \<noteq> {}" "finite ?A" by (auto simp: filter_empty_conv)
    moreover have "Min ?A < UINT_MAX" using Min_in [OF A(2,1)] assms(1) legal_neq by (force simp: legal_def UINT_MAX_def)
    ultimately have m: "l_m st1 = Min ?A" using 1(7) by simp
    then have mA: "l_m st1 \<in> ?A" "\<And>c. c \<in> ?A \<Longrightarrow> l_m st1 \<le> c" using Min_in [OF A(2,1)] Min_le [OF A(2)] by auto
    let ?x = "(l_m st1 + 2 ^ 32 - l_n st1) mod 2 ^ 32"
    let ?st = "st1\<lparr>l_delta := (l_delta st1 + ?x * (l_h st1 + 1)) mod 2 ^ 32, l_n := l_m st1\<rparr>"
    have f: "length (filter (\<lambda>c. c = l_m st1) ?cs) \<le> l_todo st"
    proof -
      have "length (filter (\<lambda>c. c = m) cs) \<le> length (filter (\<lambda>c. n \<le> c) cs)" if "n \<le> m" for m n :: nat and cs
        using that by (induction cs) auto
      then show ?thesis using mA(1) Suc.prems(3) by (simp add: left_over_def)
    qed
    from encode_each [OF assms(1), of ?st cap] 1 f Suc.prems obtain st2 where
      2: "each (encode_char cap) ?cs ?st = Ret st2" "l_n st2 = l_m st1" "length (l_out st2) \<le> cap"
        "l_err st2 = UV_E2BIG \<or> l_err st2 = 0 \<and> l_todo st2 = l_todo st - length (filter (\<lambda>c. c = l_m st1) ?cs) \<and>
          l_h st2 + l_todo st2 = l_h st + l_todo st" by auto
    let ?st2 = "st2\<lparr>l_delta := (l_delta st2 + 1) mod 2 ^ 32, l_n := (l_n st2 + 1) mod 2 ^ 32\<rparr>"
    have "\<exists>st3. points_loop fuel cap s ?st2 = Ret st3 \<and> length (l_out st3) \<le> cap" if e: "l_err st2 = 0"
    proof (rule Suc.IH)
      have n: "l_m st1 \<le> 0x10FFFF" using mA(1) assms(1) by (auto simp: legal_def)
      have "left_over (l_n st) ?cs = left_over (l_m st1 + 1) ?cs + length (filter (\<lambda>c. c = l_m st1) ?cs)"
      proof -
        have "l_n st \<le> c \<longleftrightarrow> l_m st1 + 1 \<le> c \<or> c = l_m st1" if "c \<in> set ?cs" for c
          using mA(1) mA(2) [of c] that by auto
        then have "filter (\<lambda>c. l_n st \<le> c) ?cs = filter (\<lambda>c. l_m st1 + 1 \<le> c \<or> c = l_m st1) ?cs" by (rule filter_cong [OF refl])
        moreover have "length (filter (\<lambda>c. m + 1 \<le> c \<or> c = m) cs) = length (filter (\<lambda>c. m + 1 \<le> c) cs) + length (filter (\<lambda>c. c = m) cs)"
          for m :: nat and cs by (induction cs) auto
        ultimately show ?thesis by (simp add: left_over_def)
      qed
      moreover have "length (filter (\<lambda>c. c = l_m st1) ?cs) \<noteq> 0" using mA(1) by (auto simp: filter_empty_conv)
      moreover define k where "k = length (filter (\<lambda>c. c = l_m st1) ?cs)"
      ultimately have k: "left_over (l_n st) ?cs = left_over (l_m st1 + 1) ?cs + k" "k \<noteq> 0" by simp_all
      have "l_todo st2 = l_todo st - k" using 2(4) e k_def by simp
      then show "l_todo ?st2 = left_over (l_n ?st2) ?cs" "l_todo ?st2 < fuel" "l_n ?st2 \<le> 0x110000"
        using 2(2) k n Suc.prems(3,4) by simp_all
      show "l_h ?st2 + l_todo ?st2 + 1 < 2 ^ 32" using 2(4) e Suc.prems(6) by simp
    qed (use 2 e in simp_all)
    moreover have "plus1 (l_h st1) = l_h st1 + 1" using 1(6) Suc.prems(6) by simp
    moreover have "2 ^ 32 \<noteq> (0 :: nat)" by simp
    moreover have "length (l_out st1) \<le> cap" using 1(5) Suc.prems(2) by simp
    ultimately show ?thesis using 1(1,3) 2(1,3) False by (cases "l_err st2 = 0") (simp_all add: chars_loop_each Let_def)
  qed (use Suc.prems in simp)
qed simp

lemma emits_bound: "length out \<le> cap \<Longrightarrow> length (emits cap bs out) \<le> cap"
  by (induction bs arbitrary: out) (simp_all add: emit_bound)

lemma length_chars_of: "length (chars_of s) \<le> length s"
proof (induction s rule: length_induct)
  case (1 s)
  show ?case
  proof (cases "s = []")
    case False
    then obtain d q where d: "uv__utf8_decode1 s = Ret (d, q)" using decode_Ret by blast
    then show ?thesis using 1 False decode_shorter [OF d] by (fastforce simp: chars_of.simps [of s])
  qed (simp add: chars_of.simps [of "[]"])
qed

lemma label_returns:
  assumes "length out \<le> cap" and len: "length s + 1 < 2 ^ 32"
  shows "\<exists>rc out1. uv__idna_toascii_label cap s out = Ret (rc, out1) \<and> length out1 \<le> cap"
proof (cases "UINT_MAX \<in> set (chars_of s)")
  case True
  from count_bad [OF True, of "new_label out"] assms show ?thesis
    by (auto simp: uv__idna_toascii_label_def chars_loop_each new_label_def)
next
  case False
  then have l: "legal (chars_of s)" using chars_range by (auto simp: legal_def)
  from count_good [OF False, of "new_label out"] obtain st1 where
    1: "each count_char (chars_of s) (new_label out) = Ret st1" "l_out st1 = out" "l_n st1 = 128" "l_err st1 = 0"
      "l_todo st1 = left_over 128 (chars_of s)" "l_h st1 + l_todo st1 = length (chars_of s)"
    using len length_chars_of [of s] by (auto simp: new_label_def)
  let ?st1 = "if 0 < l_todo st1 then st1\<lparr>l_out := emits cap (map of_char ''xn--'') (l_out st1)\<rparr> else st1"
  have o: "length (l_out ?st1) \<le> cap" using assms 1(2) by (simp add: emit_bound)
  from ascii_each [OF l, of cap ?st1] o obtain st2 where
    2: "each (ascii_char cap) (chars_of s) ?st1 = Ret st2" "l_err st2 = l_err ?st1" "l_todo st2 = l_todo ?st1" "l_n st2 = l_n ?st1"
      "l_h st2 = l_h ?st1" "length (l_out st2) \<le> cap" by blast
  let ?st2 = "if 0 < l_h st2 then st2\<lparr>l_out := emit cap (of_char CHR ''-'') (l_out st2)\<rparr> else st2"
  have "\<exists>st3. points_loop (Suc (l_todo st2)) cap s ?st2 = Ret st3 \<and> length (l_out st3) \<le> cap"
    by (rule points_returns [OF l]) (use 1 2 emit_bound len length_chars_of [of s] in auto)
  then show ?thesis using 1 2 by (auto simp: uv__idna_toascii_label_def chars_loop_each simp del: points_loop.simps)
qed

lemma toascii_loop_returns:
  "length out \<le> cap \<Longrightarrow> length s + 1 < 2 ^ 32 \<Longrightarrow> length si + 1 < 2 ^ 32 \<Longrightarrow> \<exists>rc out1. toascii_loop cap s si out = Ret (rc, out1) \<and> length out1 \<le> cap"
proof (induction si arbitrary: s out rule: length_induct)
  case (1 si)
  have e: "\<exists>rc out1. uv__idna_toascii_label cap l out = Ret (rc, out1) \<and> length out1 \<le> cap" if "length l \<le> length s" for l
    using label_returns [OF 1(2), of l] 1(3) that by simp
  show ?case
  proof (cases "si = []")
    case True
    then show ?thesis using e [of s] 1(2) emit_bound by (cases "s = []") (auto simp: toascii_loop.simps [of _ _ "[]"] Let_def)
  next
    case False
    then obtain c sj where d: "uv__utf8_decode1 si = Ret (c, sj)" using decode_Ret by blast
    then have IH: "\<exists>rc out1. toascii_loop cap t sj o1 = Ret (rc, out1) \<and> length out1 \<le> cap"
      if "length o1 \<le> cap" "length t + 1 < 2 ^ 32" for t o1
      using 1(1,4) decode_shorter [OF d] that by (meson add_less_mono1 less_trans)
    obtain rc o1 where l: "uv__idna_toascii_label cap (take (length s - length si) s) out = Ret (rc, o1)" "length o1 \<le> cap"
      using e [of "take (length s - length si) s"] by auto
    show ?thesis using False d IH [OF 1(2,3)] IH [OF emit_bound [OF l(2)], of sj] l 1(2,4) decode_shorter [OF d]
      by (simp add: toascii_loop.simps [of _ _ si])
  qed
qed

section \<open>Properties\<close>

text \<open>C11: Every host name of less than 2 to the 32 minus 1 bytes is dealt with. Whatever the bytes and however small the
  output, uv__idna_toascii returns: its loops end, no assertion fails, nothing is divided by zero, no
  byte outside the name is read, and at most as many bytes are written as fit.\<close>

theorem toascii_returns:
  assumes "length s < 2 ^ 32 - 1"
  shows "\<exists>rc out. uv__idna_toascii s cap = Ret (rc, out) \<and> length out \<le> cap"
  using toascii_loop_returns [of "[]" cap s s] assms by (simp add: uv__idna_toascii_def)

text \<open>A name with a character of two bytes.\<close>

theorem toascii_returns_witness: "\<exists>rc out. uv__idna_toascii [0xC3, 0xA9, 46, 98] 3 = Ret (rc, out) \<and> length out \<le> 3"
  using toascii_returns [of "[0xC3, 0xA9, 46, 98]" 3] by simp

text \<open>C19: An ASCII name of less than 2 to the 31 bytes is copied. Its copy ends in a null byte only when there is room for one
  more byte than the name has: a name that fills the output is cut and left without its null byte, and
  the result is the size of the output, no error.\<close>

theorem toascii_of_ascii:
  assumes "\<forall>b \<in> set s. 0 < b \<and> b < 128" and "length s < 2 ^ 31"
  shows "uv__idna_toascii s cap = Ret (int (min cap (length s + 1)), take cap (s @ [0])) \<and>
    (0 \<in> set (take cap (s @ [0])) \<longleftrightarrow> length s < cap)"
proof
  show "uv__idna_toascii s cap = Ret (int (min cap (length s + 1)), take cap (s @ [0]))"
    using toascii_ascii [of "[]" s cap "[]"] assms by (simp add: uv__idna_toascii_def)
  have "0 \<notin> set (take cap s)" using assms by (auto dest: in_set_takeD)
  then show "0 \<in> set (take cap (s @ [0])) \<longleftrightarrow> length s < cap" by (cases "cap - length s") auto
qed

text \<open>Three characters do not leave room for a null byte in three bytes.\<close>

theorem toascii_of_ascii_witness:
  "uv__idna_toascii [97, 46, 98] 3 = Ret (3, [97, 46, 98]) \<and> 0 \<notin> set [97, 46, 98 :: nat]"
  using toascii_of_ascii [of "[97, 46, 98]" 3] by simp

text \<open>C18: What RFC 3629 encodes is decoded: for every Unicode scalar value and whatever follows, uv__utf8_decode1 reads exactly the
  bytes of its encoding and returns the value.\<close>

theorem utf8_roundtrip:
  assumes "v \<le> 0x10FFFF" and "\<not> (0xD800 \<le> v \<and> v \<le> 0xDFFF)"
  shows "uv__utf8_decode1 (utf8 v @ rest) = Ret (v, rest)"
  using utf8_decodes [of v rest] assms by (simp add: scalar_def)

theorem utf8_roundtrip_witness: "uv__utf8_decode1 [0xE2, 0x82, 0xAC, 0x2E] = Ret (0x20AC, [0x2E])"
  using utf8_roundtrip [of "0x20AC" "[0x2E]"] by (simp add: utf8_def)

text \<open>C25: What is no encoding is accepted too. The check of the continuation bytes looks at the exclusive or of their two highest
  bits: in a sequence of three any two bytes that agree in them pass, letters and dots included. And at
  the end of the name the first three bytes of a sequence of four pass as a sequence of three.\<close>

theorem utf8_accepts_invalid:
  assumes "1 \<le> x" and "x < 8" and "y < 64" and "z < 64" and "t < 4"
  shows "uv__utf8_decode1 ((0xE0 + x) # (64 * t + y) # (64 * t + z) # rest) = Ret (x * 4096 + (y * 64 + z), rest) \<and>
    uv__utf8_decode1 [0xF0 + x, 0x80 + y, 0x80 + z] = Ret (x * 4096 + (y * 64 + z), [])"
proof
  have "(64 * t + y) mod 64 = y" "(64 * t + y) div 64 = t" "(64 * t + z) mod 64 = z" "(64 * t + z) div 64 = t"
    "64 * t + y < 256" "64 * t + z < 256" using assms by auto
  then show "uv__utf8_decode1 ((0xE0 + x) # (64 * t + y) # (64 * t + z) # rest) = Ret (x * 4096 + (y * 64 + z), rest)"
    using decode_three [of x "64 * t + y" "64 * t + z" rest] assms by simp
  show "uv__utf8_decode1 [0xF0 + x, 0x80 + y, 0x80 + z] = Ret (x * 4096 + (y * 64 + z), [])"
    by (rule decode_cut [OF assms(1-4)])
qed

text \<open>Two dots, which separate labels, are swallowed.\<close>

theorem utf8_accepts_invalid_witness: "uv__utf8_decode1 [0xE2, 0x2E, 0x2E] = Ret (0x2BAE, [])"
  using utf8_accepts_invalid [of 2 46 46 0 "[]"] by simp

end
