(* ===== verification/CJson_Store.thy ===== *)
theory CJson_Store
  imports CJson_Node
begin

text \<open>
  The operations of cJSON.c that build and change items, on an explicit store: a node has an
  address and carries the pointers next, prev and child, a string has an address, and the
  allocator hands out addresses that were never used. Using an address that is null, was never
  allocated or has been freed is undefined behaviour, and so is freeing it twice.
\<close>

section \<open>The store\<close>

text \<open>A char pointer: a block of the store, or constant text of the caller (a literal, a buffer)
  that the library may read and must not free or write.\<close>

datatype sptr = Heap nat | Lit string

record node =
  n_next :: "nat option"
  n_prev :: "nat option"
  n_child :: "nat option"
  n_ty :: flags
  n_vs :: "sptr option"
  n_vi :: int
  n_vd :: dbl
  n_name :: "sptr option"

record store =
  nodes :: "nat \<rightharpoonup> node"
  strs :: "nat \<rightharpoonup> char list"
  brk :: nat
  refuse :: "nat \<Rightarrow> bool"
  asked :: nat

text \<open>Operations change the store and return a value; \<open>sbind\<close> runs one after the other.\<close>

type_synonym 'a op = "store \<Rightarrow> ('a \<times> store) run"

definition sret :: "'a \<Rightarrow> 'a op" where
  "sret x s = Ret (x, s)"

definition sbind :: "'a op \<Rightarrow> ('a \<Rightarrow> 'b op) \<Rightarrow> 'b op" where
  "sbind f g s = bnd (f s) (\<lambda>(x, s1). g x s1)"

definition sfail :: "'a op" where
  "sfail s = Undef"

text \<open>Reading and writing through a pointer that may be null.\<close>

definition get :: "nat option \<Rightarrow> node op" where
  "get p s = (case p of None \<Rightarrow> Undef
    | Some a \<Rightarrow> (case nodes s a of None \<Rightarrow> Undef | Some n \<Rightarrow> Ret (n, s)))"

definition upd :: "nat option \<Rightarrow> (node \<Rightarrow> node) \<Rightarrow> unit op" where
  "upd p f s = (case p of None \<Rightarrow> Undef
    | Some a \<Rightarrow> (case nodes s a of None \<Rightarrow> Undef
        | Some n \<Rightarrow> Ret ((), s\<lparr>nodes := (nodes s)(a \<mapsto> f n)\<rparr>)))"

definition set_next :: "nat option \<Rightarrow> nat option \<Rightarrow> unit op" where
  "set_next p q = upd p (\<lambda>n. n\<lparr>n_next := q\<rparr>)"

definition set_prev :: "nat option \<Rightarrow> nat option \<Rightarrow> unit op" where
  "set_prev p q = upd p (\<lambda>n. n\<lparr>n_prev := q\<rparr>)"

definition set_head :: "nat option \<Rightarrow> nat option \<Rightarrow> unit op" where
  "set_head p q = upd p (\<lambda>n. n\<lparr>n_child := q\<rparr>)"

text \<open>The text a char pointer shows.\<close>

definition text_at :: "sptr \<Rightarrow> string op" where
  "text_at p s = (case p of Lit t \<Rightarrow> Ret (t, s)
    | Heap a \<Rightarrow> (case strs s a of None \<Rightarrow> Undef | Some bs \<Rightarrow> bnd (cstr_from bs) (\<lambda>t. Ret (t, s))))"

text \<open>A null pointer is not text: reading it is undefined.\<close>

definition text_of :: "sptr option \<Rightarrow> string op" where
  "text_of p = (case p of None \<Rightarrow> sfail | Some q \<Rightarrow> text_at q)"

section \<open>Allocation and deletion\<close>

definition zero_node :: node where
  "zero_node = \<lparr>n_next = None, n_prev = None, n_child = None, n_ty = 0, n_vs = None, n_vi = 0,
     n_vd = DNum False 0, n_name = None\<rparr>"

definition cJSON_New_Item :: "nat option op" where
  "cJSON_New_Item s =
     (if refuse s (asked s) then Ret (None, s\<lparr>asked := Suc (asked s)\<rparr>)
      else Ret (Some (brk s), s\<lparr>nodes := (nodes s)(brk s \<mapsto> zero_node), brk := Suc (brk s),
                               asked := Suc (asked s)\<rparr>))"

definition cJSON_strdup :: "sptr option \<Rightarrow> sptr option op" where
  "cJSON_strdup p = (case p of None \<Rightarrow> sret None
    | Some q \<Rightarrow> sbind (text_at q) (\<lambda>t s.
        if refuse s (asked s) then Ret (None, s\<lparr>asked := Suc (asked s)\<rparr>)
        else Ret (Some (Heap (brk s)), s\<lparr>strs := (strs s)(brk s \<mapsto> t @ [NUL]), brk := Suc (brk s),
                                       asked := Suc (asked s)\<rparr>)))"

definition free_str :: "sptr \<Rightarrow> unit op" where
  "free_str p s = (case p of Lit t \<Rightarrow> Undef
    | Heap a \<Rightarrow> (case strs s a of None \<Rightarrow> Undef | Some bs \<Rightarrow> Ret ((), s\<lparr>strs := (strs s)(a := None)\<rparr>)))"

definition free_node :: "nat \<Rightarrow> unit op" where
  "free_node a s = (case nodes s a of None \<Rightarrow> Undef
    | Some n \<Rightarrow> Ret ((), s\<lparr>nodes := (nodes s)(a := None)\<rparr>))"

definition free_if :: "bool \<Rightarrow> sptr option \<Rightarrow> unit op" where
  "free_if c p = (if c then (case p of None \<Rightarrow> sret () | Some q \<Rightarrow> free_str q) else sret ())"

text \<open>cJSON_Delete: a loop over the siblings that calls itself on the children. One unit of fuel
  per node visited, nested or not; \<open>brk\<close> bounds the number of nodes.\<close>

fun delete_items :: "nat \<Rightarrow> nat option \<Rightarrow> unit op" where
  "delete_items 0 p s = NoFuel"
| "delete_items (Suc fuel) None s = Ret ((), s)"
| "delete_items (Suc fuel) (Some a) s =
     bnd (get (Some a) s) (\<lambda>(n, s0).
     bnd (if \<not> is_reference (n_ty n) \<and> n_child n \<noteq> None then delete_items fuel (n_child n) s0
          else Ret ((), s0)) (\<lambda>(_, s1).
     bnd (free_if (\<not> is_reference (n_ty n)) (n_vs n) s1) (\<lambda>(_, s2).
     bnd (free_if (\<not> string_is_const (n_ty n)) (n_name n) s2) (\<lambda>(_, s3).
     bnd (free_node a s3) (\<lambda>(_, s4). delete_items fuel (n_next n) s4)))))"

definition delete_item :: "nat option \<Rightarrow> unit op" where
  "delete_item p s = delete_items (Suc (brk s)) p s"

section \<open>Reading lists\<close>

fun count_from :: "nat \<Rightarrow> nat option \<Rightarrow> store \<Rightarrow> nat run" where
  "count_from 0 p s = NoFuel"
| "count_from (Suc fuel) None s = Ret 0"
| "count_from (Suc fuel) (Some a) s =
     bnd (get (Some a) s) (\<lambda>(n, _). bnd (count_from fuel (n_next n) s) (\<lambda>k. Ret (Suc k)))"

text \<open>A size_t converted to int.\<close>

definition size_to_int :: "nat \<Rightarrow> int" where
  "size_to_int n = (int n + 2 ^ 31) mod 2 ^ 32 - 2 ^ 31"

definition cJSON_GetArraySize :: "nat option \<Rightarrow> int op" where
  "cJSON_GetArraySize array = (case array of None \<Rightarrow> sret 0
     | Some a \<Rightarrow> sbind (get array) (\<lambda>n s.
         bnd (count_from (Suc (brk s)) (n_child n) s) (\<lambda>k. Ret (size_to_int k, s))))"

fun item_from :: "nat \<Rightarrow> nat option \<Rightarrow> nat \<Rightarrow> store \<Rightarrow> nat option run" where
  "item_from 0 p i s = NoFuel"
| "item_from (Suc fuel) None i s = Ret None"
| "item_from (Suc fuel) (Some a) 0 s = Ret (Some a)"
| "item_from (Suc fuel) (Some a) (Suc i) s =
     bnd (get (Some a) s) (\<lambda>(n, _). item_from fuel (n_next n) i s)"

definition get_array_item :: "nat option \<Rightarrow> nat \<Rightarrow> nat option op" where
  "get_array_item array index = (case array of None \<Rightarrow> sret None
     | Some a \<Rightarrow> sbind (get array) (\<lambda>n s.
         bnd (item_from (Suc (brk s)) (n_child n) index s) (\<lambda>r. Ret (r, s))))"

definition cJSON_GetArrayItem :: "nat option \<Rightarrow> int \<Rightarrow> nat option op" where
  "cJSON_GetArrayItem array index =
     (if index < 0 then sret None else get_array_item array (nat index))"

text \<open>tolower in the C locale.\<close>

definition lower :: "char \<Rightarrow> char" where
  "lower c = (let n = of_char c :: nat in if 65 \<le> n \<and> n \<le> 90 then char_of (n + 32) else c)"

text \<open>Whether the comparison finds the texts equal; null strings are never equal.\<close>

fun same_lower :: "string \<Rightarrow> string \<Rightarrow> bool" where
  "same_lower [] [] \<longleftrightarrow> True"
| "same_lower (c # cs) (d # ds) \<longleftrightarrow> lower c = lower d \<and> same_lower cs ds"
| "same_lower _ _ \<longleftrightarrow> False"

definition case_insensitive_eq :: "sptr option \<Rightarrow> sptr option \<Rightarrow> store \<Rightarrow> bool run" where
  "case_insensitive_eq p q s = (case (p, q) of
      (Some p', Some q') \<Rightarrow>
        if p' = q' then Ret True
        else bnd (text_at p' s) (\<lambda>(t, _). bnd (text_at q' s) (\<lambda>(u, _). Ret (same_lower t u)))
    | _ \<Rightarrow> Ret False)"

fun find_from :: "nat \<Rightarrow> sptr \<Rightarrow> bool \<Rightarrow> nat option \<Rightarrow> store \<Rightarrow> nat option run" where
  "find_from 0 nm cs p s = NoFuel"
| "find_from (Suc fuel) nm cs None s = Ret None"
| "find_from (Suc fuel) nm cs (Some a) s =
     bnd (get (Some a) s) (\<lambda>(n, _).
       if cs then
         (case n_name n of None \<Rightarrow> Ret None
          | Some q \<Rightarrow> bnd (text_at nm s) (\<lambda>(t, _). bnd (text_at q s) (\<lambda>(u, _).
              if t = u then Ret (Some a) else find_from fuel nm cs (n_next n) s)))
       else bnd (case_insensitive_eq (Some nm) (n_name n) s) (\<lambda>eq.
              if eq then Ret (Some a) else find_from fuel nm cs (n_next n) s))"

definition get_object_item :: "nat option \<Rightarrow> sptr option \<Rightarrow> bool \<Rightarrow> nat option op" where
  "get_object_item object nm case_sensitive = (case (object, nm) of
      (Some a, Some q) \<Rightarrow> sbind (get object) (\<lambda>n s.
        bnd (find_from (Suc (brk s)) q case_sensitive (n_child n) s) (\<lambda>r. Ret (r, s)))
    | _ \<Rightarrow> sret None)"

definition cJSON_GetObjectItem :: "nat option \<Rightarrow> sptr option \<Rightarrow> nat option op" where
  "cJSON_GetObjectItem object string = get_object_item object string False"

definition cJSON_GetObjectItemCaseSensitive :: "nat option \<Rightarrow> sptr option \<Rightarrow> nat option op" where
  "cJSON_GetObjectItemCaseSensitive object string = get_object_item object string True"

definition cJSON_HasObjectItem :: "nat option \<Rightarrow> sptr option \<Rightarrow> bool op" where
  "cJSON_HasObjectItem object string =
     sbind (cJSON_GetObjectItem object string) (\<lambda>r. sret (r \<noteq> None))"

section \<open>Adding to lists\<close>

definition suffix_object :: "nat option \<Rightarrow> nat option \<Rightarrow> unit op" where
  "suffix_object prev item = sbind (set_next prev item) (\<lambda>_. set_prev item prev)"

text \<open>When the first element has no prev pointer the item is not linked, and the result is still
  true.\<close>

definition add_item_to_array :: "nat option \<Rightarrow> nat option \<Rightarrow> bool op" where
  "add_item_to_array array item =
     (if item = None \<or> array = None \<or> array = item then sret False
      else sbind (get array) (\<lambda>a. case n_child a of
          None \<Rightarrow> sbind (set_head array item) (\<lambda>_. sbind (set_prev item item) (\<lambda>_.
                    sbind (set_next item None) (\<lambda>_. sret True)))
        | Some head \<Rightarrow> sbind (get (Some head)) (\<lambda>c. case n_prev c of
              None \<Rightarrow> sret True
            | Some tail \<Rightarrow> sbind (suffix_object (Some tail) item) (\<lambda>_.
                sbind (get array) (\<lambda>a'. sbind (set_prev (n_child a') item) (\<lambda>_. sret True))))))"

definition cJSON_AddItemToArray :: "nat option \<Rightarrow> nat option \<Rightarrow> bool op" where
  "cJSON_AddItemToArray array item = add_item_to_array array item"

definition create_reference :: "nat option \<Rightarrow> nat option op" where
  "create_reference item = (case item of None \<Rightarrow> sret None
     | Some a \<Rightarrow> sbind cJSON_New_Item (\<lambda>r. case r of None \<Rightarrow> sret None
         | Some reference \<Rightarrow> sbind (get item) (\<lambda>n.
             sbind (upd r (\<lambda>_. n\<lparr>n_name := None, n_ty := n_ty n OR cJSON_IsReference,
                                 n_next := None, n_prev := None\<rparr>)) (\<lambda>_. sret r))))"

definition add_item_to_object :: "nat option \<Rightarrow> sptr option \<Rightarrow> nat option \<Rightarrow> bool \<Rightarrow> bool op" where
  "add_item_to_object object string item constant_key =
     (if object = None \<or> string = None \<or> item = None \<or> object = item then sret False
      else sbind (if constant_key then sret string else cJSON_strdup string) (\<lambda>new_key.
        if new_key = None then sret False
        else sbind (get item) (\<lambda>n.
          let new_type = (if constant_key then n_ty n OR cJSON_StringIsConst
                          else n_ty n AND NOT cJSON_StringIsConst) in
          sbind (free_if (\<not> string_is_const (n_ty n)) (n_name n)) (\<lambda>_.
          sbind (upd item (\<lambda>n. n\<lparr>n_name := new_key, n_ty := new_type\<rparr>)) (\<lambda>_.
          add_item_to_array object item)))))"

definition cJSON_AddItemToObject :: "nat option \<Rightarrow> sptr option \<Rightarrow> nat option \<Rightarrow> bool op" where
  "cJSON_AddItemToObject object string item = add_item_to_object object string item False"

definition cJSON_AddItemToObjectCS :: "nat option \<Rightarrow> sptr option \<Rightarrow> nat option \<Rightarrow> bool op" where
  "cJSON_AddItemToObjectCS object string item = add_item_to_object object string item True"

definition cJSON_AddItemReferenceToArray :: "nat option \<Rightarrow> nat option \<Rightarrow> bool op" where
  "cJSON_AddItemReferenceToArray array item =
     (if array = None then sret False
      else sbind (create_reference item) (\<lambda>r. add_item_to_array array r))"

definition cJSON_AddItemReferenceToObject ::
  "nat option \<Rightarrow> sptr option \<Rightarrow> nat option \<Rightarrow> bool op" where
  "cJSON_AddItemReferenceToObject object string item =
     (if object = None \<or> string = None then sret False
      else sbind (create_reference item) (\<lambda>r. add_item_to_object object string r False))"

section \<open>Creating items\<close>

text \<open>A new item whose fields are set by \<open>f\<close>.\<close>

definition new_with :: "(node \<Rightarrow> node) \<Rightarrow> nat option op" where
  "new_with f = sbind cJSON_New_Item (\<lambda>item. case item of None \<Rightarrow> sret None
     | Some a \<Rightarrow> sbind (upd item f) (\<lambda>_. sret item))"

definition cJSON_CreateNull :: "nat option op" where
  "cJSON_CreateNull = new_with (\<lambda>n. n\<lparr>n_ty := cJSON_NULL\<rparr>)"

definition cJSON_CreateTrue :: "nat option op" where
  "cJSON_CreateTrue = new_with (\<lambda>n. n\<lparr>n_ty := cJSON_True\<rparr>)"

definition cJSON_CreateFalse :: "nat option op" where
  "cJSON_CreateFalse = new_with (\<lambda>n. n\<lparr>n_ty := cJSON_False\<rparr>)"

definition cJSON_CreateBool :: "bool \<Rightarrow> nat option op" where
  "cJSON_CreateBool boolean = new_with (\<lambda>n. n\<lparr>n_ty := if boolean then cJSON_True else cJSON_False\<rparr>)"

definition cJSON_CreateNumber :: "dbl \<Rightarrow> nat option op" where
  "cJSON_CreateNumber num = sbind cJSON_New_Item (\<lambda>item. case item of None \<Rightarrow> sret None
     | Some a \<Rightarrow> (\<lambda>s. bnd (saturate_int num) (\<lambda>i.
         sbind (upd item (\<lambda>n. n\<lparr>n_ty := cJSON_Number, n_vd := num, n_vi := i\<rparr>)) (\<lambda>_. sret item) s)))"

text \<open>The items that own a copy of a text.\<close>

definition new_text_item :: "flags \<Rightarrow> sptr option \<Rightarrow> nat option op" where
  "new_text_item t string = sbind cJSON_New_Item (\<lambda>item. case item of None \<Rightarrow> sret None
     | Some a \<Rightarrow> sbind (upd item (\<lambda>n. n\<lparr>n_ty := t\<rparr>)) (\<lambda>_.
         sbind (cJSON_strdup string) (\<lambda>copy.
         sbind (upd item (\<lambda>n. n\<lparr>n_vs := copy\<rparr>)) (\<lambda>_.
         if copy = None then sbind (delete_item item) (\<lambda>_. sret None) else sret item))))"

definition cJSON_CreateString :: "sptr option \<Rightarrow> nat option op" where
  "cJSON_CreateString string = new_text_item cJSON_String string"

definition cJSON_CreateRaw :: "sptr option \<Rightarrow> nat option op" where
  "cJSON_CreateRaw raw = new_text_item cJSON_Raw raw"

definition cJSON_CreateStringReference :: "sptr option \<Rightarrow> nat option op" where
  "cJSON_CreateStringReference string =
     new_with (\<lambda>n. n\<lparr>n_ty := cJSON_String OR cJSON_IsReference, n_vs := string\<rparr>)"

definition cJSON_CreateObjectReference :: "nat option \<Rightarrow> nat option op" where
  "cJSON_CreateObjectReference head =
     new_with (\<lambda>n. n\<lparr>n_ty := cJSON_Object OR cJSON_IsReference, n_child := head\<rparr>)"

definition cJSON_CreateArrayReference :: "nat option \<Rightarrow> nat option op" where
  "cJSON_CreateArrayReference head =
     new_with (\<lambda>n. n\<lparr>n_ty := cJSON_Array OR cJSON_IsReference, n_child := head\<rparr>)"

definition cJSON_CreateArray :: "nat option op" where
  "cJSON_CreateArray = new_with (\<lambda>n. n\<lparr>n_ty := cJSON_Array\<rparr>)"

definition cJSON_CreateObject :: "nat option op" where
  "cJSON_CreateObject = new_with (\<lambda>n. n\<lparr>n_ty := cJSON_Object\<rparr>)"

text \<open>The constructors of arrays from a C array of values: the i-th element is made by \<open>mk\<close> and
  linked behind the one before. A failed element gives up the array.\<close>

fun fill_array :: "('a \<Rightarrow> nat option op) \<Rightarrow> nat option \<Rightarrow> 'a list \<Rightarrow> nat option \<Rightarrow> nat option op" where
  "fill_array mk a [] p = sbind (get a) (\<lambda>n. case n_child n of None \<Rightarrow> sret a
     | Some head \<Rightarrow> sbind (set_prev (Some head) p) (\<lambda>_. sret a))"
| "fill_array mk a (x # xs) p = sbind (mk x) (\<lambda>n. case n of
      None \<Rightarrow> sbind (delete_item a) (\<lambda>_. sret None)
    | Some _ \<Rightarrow> sbind (if p = None then set_head a n else suffix_object p n) (\<lambda>_.
        fill_array mk a xs n))"

text \<open>The count may be smaller than the C array.\<close>

definition create_array :: "('a \<Rightarrow> nat option op) \<Rightarrow> 'a list option \<Rightarrow> int \<Rightarrow> nat option op" where
  "create_array mk numbers count = (case numbers of None \<Rightarrow> sret None
     | Some xs \<Rightarrow> if count < 0 then sret None
       else if length xs < nat count then sfail
       else sbind cJSON_CreateArray (\<lambda>a. case a of None \<Rightarrow> sret None
         | Some _ \<Rightarrow> fill_array mk a (take (nat count) xs) None))"

definition cJSON_CreateIntArray :: "int list option \<Rightarrow> int \<Rightarrow> nat option op" where
  "cJSON_CreateIntArray numbers count =
     create_array (\<lambda>i. cJSON_CreateNumber (dbl_of_int i)) numbers count"

text \<open>A float is a double here; the conversion is exact.\<close>

definition cJSON_CreateFloatArray :: "dbl list option \<Rightarrow> int \<Rightarrow> nat option op" where
  "cJSON_CreateFloatArray numbers count = create_array cJSON_CreateNumber numbers count"

definition cJSON_CreateDoubleArray :: "dbl list option \<Rightarrow> int \<Rightarrow> nat option op" where
  "cJSON_CreateDoubleArray numbers count = create_array cJSON_CreateNumber numbers count"

definition cJSON_CreateStringArray :: "sptr option list option \<Rightarrow> int \<Rightarrow> nat option op" where
  "cJSON_CreateStringArray strings count = create_array cJSON_CreateString strings count"

text \<open>The functions that create an item and add it to an object under a name.\<close>

definition add_created :: "nat option op \<Rightarrow> nat option \<Rightarrow> sptr option \<Rightarrow> nat option op" where
  "add_created create object nm = sbind create (\<lambda>item.
     sbind (add_item_to_object object nm item False) (\<lambda>ok.
     if ok then sret item else sbind (delete_item item) (\<lambda>_. sret None)))"

definition cJSON_AddNullToObject :: "nat option \<Rightarrow> sptr option \<Rightarrow> nat option op" where
  "cJSON_AddNullToObject object nm = add_created cJSON_CreateNull object nm"

definition cJSON_AddTrueToObject :: "nat option \<Rightarrow> sptr option \<Rightarrow> nat option op" where
  "cJSON_AddTrueToObject object nm = add_created cJSON_CreateTrue object nm"

definition cJSON_AddFalseToObject :: "nat option \<Rightarrow> sptr option \<Rightarrow> nat option op" where
  "cJSON_AddFalseToObject object nm = add_created cJSON_CreateFalse object nm"

definition cJSON_AddBoolToObject :: "nat option \<Rightarrow> sptr option \<Rightarrow> bool \<Rightarrow> nat option op" where
  "cJSON_AddBoolToObject object nm boolean = add_created (cJSON_CreateBool boolean) object nm"

definition cJSON_AddNumberToObject :: "nat option \<Rightarrow> sptr option \<Rightarrow> dbl \<Rightarrow> nat option op" where
  "cJSON_AddNumberToObject object nm number = add_created (cJSON_CreateNumber number) object nm"

definition cJSON_AddStringToObject ::
  "nat option \<Rightarrow> sptr option \<Rightarrow> sptr option \<Rightarrow> nat option op" where
  "cJSON_AddStringToObject object nm string = add_created (cJSON_CreateString string) object nm"

definition cJSON_AddRawToObject :: "nat option \<Rightarrow> sptr option \<Rightarrow> sptr option \<Rightarrow> nat option op" where
  "cJSON_AddRawToObject object nm raw = add_created (cJSON_CreateRaw raw) object nm"

definition cJSON_AddObjectToObject :: "nat option \<Rightarrow> sptr option \<Rightarrow> nat option op" where
  "cJSON_AddObjectToObject object nm = add_created cJSON_CreateObject object nm"

definition cJSON_AddArrayToObject :: "nat option \<Rightarrow> sptr option \<Rightarrow> nat option op" where
  "cJSON_AddArrayToObject object nm = add_created cJSON_CreateArray object nm"

section \<open>Removing, inserting and replacing\<close>

text \<open>The fields of item and parent are read again after each write, as the code does.\<close>

definition cJSON_DetachItemViaPointer :: "nat option \<Rightarrow> nat option \<Rightarrow> nat option op" where
  "cJSON_DetachItemViaPointer parent item =
     (if parent = None \<or> item = None then sret None
      else sbind (get parent) (\<lambda>p.
        sbind (if item \<noteq> n_child p then sbind (get item) (\<lambda>i. set_next (n_prev i) (n_next i))
               else sret ()) (\<lambda>_.
        sbind (get item) (\<lambda>i.
        sbind (if n_next i \<noteq> None then set_prev (n_next i) (n_prev i) else sret ()) (\<lambda>_.
        sbind (get parent) (\<lambda>p. sbind (get item) (\<lambda>i.
        sbind (if item = n_child p then set_head parent (n_next i)
               else if n_next i = None then set_prev (n_child p) (n_prev i) else sret ()) (\<lambda>_.
        sbind (set_prev item None) (\<lambda>_.
        sbind (set_next item None) (\<lambda>_. sret item))))))))))"

definition cJSON_DetachItemFromArray :: "nat option \<Rightarrow> int \<Rightarrow> nat option op" where
  "cJSON_DetachItemFromArray array which =
     (if which < 0 then sret None
      else sbind (get_array_item array (nat which)) (\<lambda>item. cJSON_DetachItemViaPointer array item))"

definition cJSON_DeleteItemFromArray :: "nat option \<Rightarrow> int \<Rightarrow> unit op" where
  "cJSON_DeleteItemFromArray array which =
     sbind (cJSON_DetachItemFromArray array which) delete_item"

definition cJSON_DetachItemFromObject :: "nat option \<Rightarrow> sptr option \<Rightarrow> nat option op" where
  "cJSON_DetachItemFromObject object string =
     sbind (cJSON_GetObjectItem object string) (\<lambda>item. cJSON_DetachItemViaPointer object item)"

definition cJSON_DetachItemFromObjectCaseSensitive ::
  "nat option \<Rightarrow> sptr option \<Rightarrow> nat option op" where
  "cJSON_DetachItemFromObjectCaseSensitive object string =
     sbind (cJSON_GetObjectItemCaseSensitive object string) (\<lambda>item.
       cJSON_DetachItemViaPointer object item)"

definition cJSON_DeleteItemFromObject :: "nat option \<Rightarrow> sptr option \<Rightarrow> unit op" where
  "cJSON_DeleteItemFromObject object string =
     sbind (cJSON_DetachItemFromObject object string) delete_item"

definition cJSON_DeleteItemFromObjectCaseSensitive :: "nat option \<Rightarrow> sptr option \<Rightarrow> unit op" where
  "cJSON_DeleteItemFromObjectCaseSensitive object string =
     sbind (cJSON_DetachItemFromObjectCaseSensitive object string) delete_item"

definition cJSON_InsertItemInArray :: "nat option \<Rightarrow> int \<Rightarrow> nat option \<Rightarrow> bool op" where
  "cJSON_InsertItemInArray array which newitem =
     (if which < 0 then sret False
      else sbind (get_array_item array (nat which)) (\<lambda>after_inserted.
        if after_inserted = None then add_item_to_array array newitem
        else sbind (set_next newitem after_inserted) (\<lambda>_.
          sbind (get after_inserted) (\<lambda>a.
          sbind (set_prev newitem (n_prev a)) (\<lambda>_.
          sbind (set_prev after_inserted newitem) (\<lambda>_.
          sbind (get array) (\<lambda>p.
          sbind (if after_inserted = n_child p then set_head array newitem
                 else sbind (get newitem) (\<lambda>n. set_next (n_prev n) newitem)) (\<lambda>_.
          sret True))))))))"

definition cJSON_ReplaceItemViaPointer :: "nat option \<Rightarrow> nat option \<Rightarrow> nat option \<Rightarrow> bool op" where
  "cJSON_ReplaceItemViaPointer parent item replacement =
     (if parent = None \<or> replacement = None \<or> item = None then sret False
      else if replacement = item then sret True
      else sbind (get item) (\<lambda>i.
        sbind (upd replacement (\<lambda>r. r\<lparr>n_next := n_next i, n_prev := n_prev i\<rparr>)) (\<lambda>_.
        sbind (if n_next i \<noteq> None then set_prev (n_next i) replacement else sret ()) (\<lambda>_.
        sbind (get parent) (\<lambda>p.
        sbind (if n_child p = item then
                 sbind (get (n_child p)) (\<lambda>c.
                 sbind (if n_prev c = n_child p then set_prev replacement replacement else sret ()) (\<lambda>_.
                 set_head parent replacement))
               else sbind (get replacement) (\<lambda>r.
                 sbind (if n_prev r \<noteq> None then set_next (n_prev r) replacement else sret ()) (\<lambda>_.
                 sbind (get replacement) (\<lambda>r. if n_next r = None
                   then sbind (get parent) (\<lambda>p. set_prev (n_child p) replacement) else sret ())))) (\<lambda>_.
        sbind (set_next item None) (\<lambda>_.
        sbind (set_prev item None) (\<lambda>_.
        sbind (delete_item item) (\<lambda>_. sret True)))))))))"

definition cJSON_ReplaceItemInArray :: "nat option \<Rightarrow> int \<Rightarrow> nat option \<Rightarrow> bool op" where
  "cJSON_ReplaceItemInArray array which newitem =
     (if which < 0 then sret False
      else sbind (get_array_item array (nat which)) (\<lambda>item.
        cJSON_ReplaceItemViaPointer array item newitem))"

definition replace_item_in_object ::
  "nat option \<Rightarrow> sptr option \<Rightarrow> nat option \<Rightarrow> bool \<Rightarrow> bool op" where
  "replace_item_in_object object string replacement case_sensitive =
     (if replacement = None \<or> string = None then sret False
      else sbind (get replacement) (\<lambda>r.
        sbind (free_if (\<not> string_is_const (n_ty r)) (n_name r)) (\<lambda>_.
        sbind (cJSON_strdup string) (\<lambda>copy.
        sbind (upd replacement (\<lambda>n. n\<lparr>n_name := copy\<rparr>)) (\<lambda>_.
        if copy = None then sret False
        else sbind (upd replacement (\<lambda>n. n\<lparr>n_ty := n_ty n AND NOT cJSON_StringIsConst\<rparr>)) (\<lambda>_.
          sbind (get_object_item object string case_sensitive) (\<lambda>item.
          cJSON_ReplaceItemViaPointer object item replacement)))))))"

definition cJSON_ReplaceItemInObject :: "nat option \<Rightarrow> sptr option \<Rightarrow> nat option \<Rightarrow> bool op" where
  "cJSON_ReplaceItemInObject object string newitem =
     replace_item_in_object object string newitem False"

definition cJSON_ReplaceItemInObjectCaseSensitive ::
  "nat option \<Rightarrow> sptr option \<Rightarrow> nat option \<Rightarrow> bool op" where
  "cJSON_ReplaceItemInObjectCaseSensitive object string newitem =
     replace_item_in_object object string newitem True"

section \<open>Setting a text, copying an item\<close>

text \<open>A text that is not longer is copied over the old one, in place.\<close>

definition cJSON_SetValuestring :: "nat option \<Rightarrow> sptr option \<Rightarrow> sptr option op" where
  "cJSON_SetValuestring object str = sbind (get object) (\<lambda>n.
     if n_ty n AND cJSON_String = 0 \<or> is_reference (n_ty n) then sret None
     else sbind (text_of str) (\<lambda>new. sbind (text_of (n_vs n)) (\<lambda>old.
       if length new \<le> length old then
         (case n_vs n of Some (Heap a) \<Rightarrow>
            if str = n_vs n then sfail
            else (\<lambda>s. Ret (n_vs n, s\<lparr>strs := (strs s)(a := map_option
                   (\<lambda>bs. new @ NUL # drop (Suc (length new)) bs) (strs s a))\<rparr>))
          | _ \<Rightarrow> sfail)
       else sbind (cJSON_strdup str) (\<lambda>copy.
         if copy = None then sret None
         else sbind (free_if True (n_vs n)) (\<lambda>_.
           sbind (upd object (\<lambda>n. n\<lparr>n_vs := copy\<rparr>)) (\<lambda>_. sret copy))))))"

text \<open>cJSON_Duplicate, one unit of fuel per node. \<open>dup_children\<close> is the loop over the children;
  \<open>tail\<close> is the variable next, the copy made before.\<close>

definition dup_shell :: "nat \<Rightarrow> (bool \<times> nat option) op" where
  "dup_shell item = sbind cJSON_New_Item (\<lambda>newitem. case newitem of None \<Rightarrow> sret (False, None)
     | Some _ \<Rightarrow> sbind (get (Some item)) (\<lambda>n.
       sbind (upd newitem (\<lambda>m. m\<lparr>n_ty := n_ty n AND NOT cJSON_IsReference, n_vi := n_vi n,
                                n_vd := n_vd n\<rparr>)) (\<lambda>_.
       sbind (cJSON_strdup (n_vs n)) (\<lambda>vs.
       sbind (upd newitem (\<lambda>m. m\<lparr>n_vs := vs\<rparr>)) (\<lambda>_.
       if n_vs n \<noteq> None \<and> vs = None then sret (False, newitem)
       else sbind (if string_is_const (n_ty n) then sret (n_name n) else cJSON_strdup (n_name n)) (\<lambda>nm.
         sbind (upd newitem (\<lambda>m. m\<lparr>n_name := nm\<rparr>)) (\<lambda>_.
         sret (\<not> (n_name n \<noteq> None \<and> nm = None), newitem))))))))"

fun dup_children :: "(nat \<Rightarrow> nat option op) \<Rightarrow> nat \<Rightarrow> nat option \<Rightarrow> nat option \<Rightarrow> nat option \<Rightarrow> bool op"
where
  "dup_children dup 0 newitem head tail s = NoFuel"
| "dup_children dup (Suc fuel) newitem None tail s =
     sbind (get newitem) (\<lambda>n. if n_child n = None then sret True
       else sbind (set_prev (n_child n) tail) (\<lambda>_. sret True)) s"
| "dup_children dup (Suc fuel) newitem (Some head) tail s =
     sbind (dup head) (\<lambda>newchild. case newchild of None \<Rightarrow> sret False
       | Some _ \<Rightarrow> sbind (if tail \<noteq> None
             then sbind (set_next tail newchild) (\<lambda>_. set_prev newchild tail)
             else set_head newitem newchild) (\<lambda>_.
           sbind (get (Some head)) (\<lambda>c. dup_children dup fuel newitem (n_next c) newchild))) s"

fun duplicate :: "nat \<Rightarrow> bool \<Rightarrow> nat \<Rightarrow> nat option op" where
  "duplicate 0 recurse item s = NoFuel"
| "duplicate (Suc fuel) recurse item s =
     sbind (dup_shell item) (\<lambda>(ok, newitem).
       if \<not> ok then sbind (delete_item newitem) (\<lambda>_. sret None)
       else if \<not> recurse then sret newitem
       else sbind (get (Some item)) (\<lambda>n.
         sbind (\<lambda>s. dup_children (duplicate fuel True) (Suc (brk s)) newitem (n_child n) None s) (\<lambda>ok.
         if \<not> ok then sbind (delete_item newitem) (\<lambda>_. sret None) else sret newitem))) s"

definition cJSON_Duplicate :: "nat option \<Rightarrow> bool \<Rightarrow> nat option op" where
  "cJSON_Duplicate item recurse = (case item of None \<Rightarrow> sret None
     | Some a \<Rightarrow> (\<lambda>s. duplicate (Suc (brk s)) recurse a s))"

end
