(* ===== verification/CJson_Lists.thy ===== *)
theory CJson_Lists
  imports CJson_Store
begin

text \<open>
  The children of an item as a list of addresses: the invariant of the pointer chain (next runs
  through the list and ends in null, prev runs back, and the prev of the first element is the
  last), and for every operation on it the operation on the list that it performs.
\<close>

section \<open>The chain of children\<close>

definition chained :: "store \<Rightarrow> nat list \<Rightarrow> bool" where
  "chained s xs \<longleftrightarrow> distinct xs \<and> (\<forall>i < length xs. \<exists>n. nodes s (xs ! i) = Some n \<and>
     n_next n = (if Suc i < length xs then Some (xs ! Suc i) else None) \<and>
     n_prev n = Some (if i = 0 then last xs else xs ! (i - 1)))"

definition first :: "nat list \<Rightarrow> nat option" where
  "first xs = (case xs of [] \<Rightarrow> None | x # _ \<Rightarrow> Some x)"

text \<open>\<open>xs\<close> are the children of \<open>a\<close>.\<close>

definition items_of :: "store \<Rightarrow> nat \<Rightarrow> nat list \<Rightarrow> bool" where
  "items_of s a xs \<longleftrightarrow> (\<exists>n. nodes s a = Some n \<and> n_child n = first xs) \<and> chained s xs \<and> a \<notin> set xs"

text \<open>Addresses not handed out yet are not in use, and no address holds both a node and a text.\<close>

definition kinds :: "store \<Rightarrow> bool" where
  "kinds s \<longleftrightarrow> (\<forall>x. nodes s x = None \<or> strs s x = None)"

definition wf_store :: "store \<Rightarrow> bool" where
  "wf_store s \<longleftrightarrow> (\<forall>a \<ge> brk s. nodes s a = None \<and> strs s a = None) \<and> kinds s"

text \<open>What a node holds besides its links; for the parent \<open>p\<close> of the list the link is its child
  pointer.\<close>

definition payload :: "nat \<Rightarrow> nat \<Rightarrow> node \<Rightarrow> node" where
  "payload p x n = (if x = p then n\<lparr>n_child := None\<rparr> else n\<lparr>n_next := None, n_prev := None\<rparr>)"

text \<open>From \<open>s\<close> to \<open>s'\<close> only links have changed, and only those of nodes in \<open>A\<close>.\<close>

definition relinked :: "nat \<Rightarrow> nat set \<Rightarrow> store \<Rightarrow> store \<Rightarrow> bool" where
  "relinked p A s s' \<longleftrightarrow> strs s' = strs s \<and> brk s' = brk s \<and> refuse s' = refuse s \<and>
     asked s' = asked s \<and> (\<forall>x. x \<notin> A \<longrightarrow> nodes s' x = nodes s x) \<and>
     (\<forall>x. map_option (payload p x) (nodes s' x) = map_option (payload p x) (nodes s x))"

text \<open>A root: an item that is in no list.\<close>

definition detached :: "store \<Rightarrow> nat \<Rightarrow> bool" where
  "detached s y \<longleftrightarrow> (\<exists>n. nodes s y = Some n \<and> n_next n = None)"

lemma first_simps [simp]: "first [] = None" "first (x # xs) = Some x" "first xs = None \<longleftrightarrow> xs = []"
  by (auto simp: first_def split: list.splits)

lemma first_append: "first (xs @ ys) = (if xs = [] then first ys else first xs)"
  by (cases xs) auto

lemma first_nth: "xs \<noteq> [] \<Longrightarrow> first xs = Some (xs ! 0)"
  by (cases xs) auto

text \<open>The store operations on addresses in use.\<close>

lemma get_Some [simp]: "nodes s a = Some n \<Longrightarrow> get (Some a) s = Ret (n, s)"
  by (simp add: get_def)

lemma get_None [simp]: "get None s = Undef"
  by (simp add: get_def)

lemma upd_Some [simp]: "nodes s a = Some n \<Longrightarrow>
    upd (Some a) f s = Ret ((), s\<lparr>nodes := (nodes s)(a \<mapsto> f n)\<rparr>)"
  by (simp add: upd_def)

lemma sbind_Ret [simp]: "f s = Ret (x, s1) \<Longrightarrow> sbind f g s = g x s1"
  by (simp add: sbind_def)

lemma sret_simp [simp]: "sret x s = Ret (x, s)"
  by (simp add: sret_def)

lemmas set_links = set_next_def set_prev_def set_head_def suffix_object_def

lemma sbind_assoc: "sbind (sbind f g) h = sbind f (\<lambda>x. sbind (g x) h)"
  by (rule ext) (simp add: sbind_def bnd_assoc split_def)

lemma chained_node: "chained s xs \<Longrightarrow> i < length xs \<Longrightarrow> \<exists>n. nodes s (xs ! i) = Some n \<and>
     n_next n = (if Suc i < length xs then Some (xs ! Suc i) else None) \<and>
     n_prev n = Some (if i = 0 then last xs else xs ! (i - 1))"
  by (simp add: chained_def)

lemma chained_in_use: "chained s xs \<Longrightarrow> x \<in> set xs \<Longrightarrow> nodes s x \<noteq> None"
  by (auto simp: chained_def in_set_conv_nth)

lemma wf_in_use: "wf_store s \<Longrightarrow> nodes s a \<noteq> None \<Longrightarrow> a < brk s"
  by (auto simp: wf_store_def not_le [symmetric])

text \<open>A chain is never longer than the addresses handed out, so \<open>brk\<close> bounds every walk.\<close>

lemma chained_length:
  assumes "wf_store s" and "chained s xs"
  shows "length xs \<le> brk s"
proof -
  have "set xs \<subseteq> {..<brk s}"
    using wf_in_use [OF assms(1)] chained_in_use [OF assms(2)] by auto
  then have "card (set xs) \<le> brk s" using card_mono [of "{..<brk s}" "set xs"] by simp
  then show ?thesis using assms(2) by (simp add: chained_def distinct_card)
qed

section \<open>Walking the chain\<close>

fun path :: "store \<Rightarrow> nat option \<Rightarrow> nat list \<Rightarrow> bool" where
  "path s p [] \<longleftrightarrow> p = None"
| "path s p (x # xs) \<longleftrightarrow> p = Some x \<and> (\<exists>n. nodes s x = Some n \<and> path s (n_next n) xs)"

lemma chained_path_from:
  assumes "chained s xs"
  shows "i \<le> length xs \<Longrightarrow> path s (first (drop i xs)) (drop i xs)"
proof (induction "length xs - i" arbitrary: i)
  case 0
  then show ?case by simp
next
  case (Suc k)
  then have i: "i < length xs" by simp
  then have d: "drop i xs = xs ! i # drop (Suc i) xs" by (simp add: Cons_nth_drop_Suc)
  have "path s (first (drop (Suc i) xs)) (drop (Suc i) xs)" using Suc i by simp
  moreover have "first (drop (Suc i) xs) = (if Suc i < length xs then Some (xs ! Suc i) else None)"
    by (simp add: first_nth)
  ultimately show ?case using chained_node [OF assms i] unfolding d by auto
qed

lemma chained_path: "chained s xs \<Longrightarrow> path s (first xs) xs"
  using chained_path_from [of s xs 0] by simp

lemma count_from_path: "path s p xs \<Longrightarrow> length xs < fuel \<Longrightarrow> count_from fuel p s = Ret (length xs)"
  by (induction xs arbitrary: p fuel) (case_tac fuel; auto simp: get_def)+

lemma item_from_path: "path s p xs \<Longrightarrow> length xs < fuel \<Longrightarrow>
    item_from fuel p i s = Ret (if i < length xs then Some (xs ! i) else None)"
proof (induction xs arbitrary: p fuel i)
  case Nil
  then show ?case by (cases fuel) auto
next
  case (Cons x xs)
  then show ?case by (cases fuel; cases i) auto
qed

text \<open>The name of a node as text.\<close>

definition name_text :: "store \<Rightarrow> nat \<Rightarrow> string option" where
  "name_text s a = (case nodes s a of None \<Rightarrow> None
     | Some n \<Rightarrow> (case n_name n of None \<Rightarrow> None
        | Some q \<Rightarrow> (case text_at q s of Ret (t, _) \<Rightarrow> Some t | _ \<Rightarrow> None)))"

text \<open>Every node of the list has a name that can be read.\<close>

definition named :: "store \<Rightarrow> nat list \<Rightarrow> bool" where
  "named s xs \<longleftrightarrow> (\<forall>x \<in> set xs. name_text s x \<noteq> None)"

lemma text_at_state: "text_at q s = Ret (t, s') \<Longrightarrow> s' = s"
  by (auto simp: text_at_def split: sptr.splits option.splits simp: bnd_eq_Ret)

lemma name_text_Some: "name_text s x = Some u \<longleftrightarrow>
    (\<exists>n q. nodes s x = Some n \<and> n_name n = Some q \<and> text_at q s = Ret (u, s))"
  by (auto simp: name_text_def split: option.splits run.splits dest: text_at_state)

lemma find_from_path:
  assumes "text_at nm s = Ret (t, s)"
  shows "\<lbrakk>path s p xs; length xs < fuel; named s xs\<rbrakk> \<Longrightarrow>
    find_from fuel nm cs p s = Ret (List.find (\<lambda>x. case name_text s x of None \<Rightarrow> False
      | Some u \<Rightarrow> if cs then t = u else same_lower t u) xs)"
proof (induction xs arbitrary: p fuel)
  case Nil
  then show ?case by (cases fuel) auto
next
  case (Cons x xs)
  then obtain n where n: "p = Some x" "nodes s x = Some n" "path s (n_next n) xs" by auto
  from Cons.prems(3) obtain u where u: "name_text s x = Some u" by (auto simp: named_def)
  then obtain q where q: "n_name n = Some q" "text_at q s = Ret (u, s)"
    using n(2) by (auto simp: name_text_Some)
  have same: "same_lower v v" for v by (induction v) auto
  obtain f where f: "fuel = Suc f" "length xs < f" using Cons.prems(2) by (cases fuel) auto
  have "named s xs" using Cons.prems(3) by (simp add: named_def)
  with Cons.IH [OF n(3) f(2)] show ?case
    using n(1,2) q u f(1) assms same by (auto simp: case_insensitive_eq_def)
qed

section \<open>The operations on the list\<close>

lemma GetArraySize_list:
  assumes "wf_store s" and "items_of s a xs" and "length xs < 2 ^ 31"
  shows "cJSON_GetArraySize (Some a) s = Ret (int (length xs), s)"
proof -
  from assms(2) obtain n where n: "nodes s a = Some n" "n_child n = first xs" "chained s xs"
    by (auto simp: items_of_def)
  have "count_from (Suc (brk s)) (first xs) s = Ret (length xs)"
    using count_from_path [OF chained_path [OF n(3)]] chained_length [OF assms(1) n(3)] by simp
  moreover have "size_to_int (length xs) = int (length xs)"
    using assms(3) by (simp add: size_to_int_def)
  ultimately show ?thesis using n by (simp add: cJSON_GetArraySize_def)
qed

lemma get_array_item_list:
  assumes "wf_store s" and "items_of s a xs"
  shows "get_array_item (Some a) i s = Ret (if i < length xs then Some (xs ! i) else None, s)"
proof -
  from assms(2) obtain n where n: "nodes s a = Some n" "n_child n = first xs" "chained s xs"
    by (auto simp: items_of_def)
  have "item_from (Suc (brk s)) (first xs) i s = Ret (if i < length xs then Some (xs ! i) else None)"
    using item_from_path [OF chained_path [OF n(3)]] chained_length [OF assms(1) n(3)] by simp
  then show ?thesis using n by (simp add: get_array_item_def)
qed

lemma get_object_item_list:
  assumes "wf_store s" and "items_of s a xs" and "named s xs" and "text_at q s = Ret (t, s)"
  shows "get_object_item (Some a) (Some q) cs s =
    Ret (List.find (\<lambda>x. case name_text s x of None \<Rightarrow> False
           | Some u \<Rightarrow> if cs then t = u else same_lower t u) xs, s)"
proof -
  from assms(2) obtain n where n: "nodes s a = Some n" "n_child n = first xs" "chained s xs"
    by (auto simp: items_of_def)
  note find_from_path [OF assms(4) chained_path [OF n(3)], of "Suc (brk s)" cs]
  with n assms(3) chained_length [OF assms(1) n(3)] show ?thesis
    by (simp add: get_object_item_def)
qed

lemma hd_last_nth: "xs \<noteq> [] \<Longrightarrow> hd xs = xs ! 0 \<and> last xs = xs ! (length xs - 1)"
  by (simp add: hd_conv_nth last_conv_nth)

lemma relinked_refl [simp]: "relinked p A s s"
  by (simp add: relinked_def)

lemma relinked_trans: "relinked p A s s1 \<Longrightarrow> relinked p B s1 s2 \<Longrightarrow> relinked p (A \<union> B) s s2"
  by (simp add: relinked_def)

text \<open>One write of a link.\<close>

lemma relinked_step:
  assumes "relinked p A s s1" and "nodes s1 x = Some n" and "x \<in> A"
    and "payload p x (f n) = payload p x n"
  shows "relinked p A s (s1\<lparr>nodes := (nodes s1)(x \<mapsto> f n)\<rparr>)"
  using assms by (auto simp: relinked_def dest: spec [of _ x])

lemma link_payload [simp]:
  "x \<noteq> p \<Longrightarrow> payload p x (n\<lparr>n_next := v\<rparr>) = payload p x n"
  "x \<noteq> p \<Longrightarrow> payload p x (n\<lparr>n_prev := v\<rparr>) = payload p x n"
  "payload p p (n\<lparr>n_child := v\<rparr>) = payload p p n"
  by (simp_all add: payload_def)

lemma add_item_to_array_list:
  assumes "items_of s a xs" and "detached s y" and "y \<notin> set xs" and "y \<noteq> a"
  shows "\<exists>s'. add_item_to_array (Some a) (Some y) s = Ret (True, s') \<and>
    items_of s' a (xs @ [y]) \<and> relinked a ({a, y} \<union> set xs) s s'"
proof -
  from assms(1) obtain na where a: "nodes s a = Some na" "n_child na = first xs"
    and ch: "chained s xs" and anot: "a \<notin> set xs" by (auto simp: items_of_def)
  from assms(2) obtain ny where y: "nodes s y = Some ny" "n_next ny = None"
    by (auto simp: detached_def)
  show ?thesis
  proof (cases "xs = []")
    case True
    let ?s = "s\<lparr>nodes := (nodes s)(a \<mapsto> na\<lparr>n_child := Some y\<rparr>,
        y \<mapsto> ny\<lparr>n_prev := Some y, n_next := None\<rparr>)\<rparr>"
    have "add_item_to_array (Some a) (Some y) s = Ret (True, ?s)"
      using True a y assms(4) by (simp add: add_item_to_array_def set_links)
    moreover have "items_of ?s a [y]" using assms(4) by (simp add: items_of_def chained_def)
    moreover have "relinked a {a, y} s ?s"
      using y a assms(4) by (auto simp: relinked_def)
    ultimately show ?thesis using True by auto
  next
    case False
    then have len: "0 < length xs" by simp
    let ?h = "xs ! 0" and ?l = "xs ! (length xs - 1)"
    from chained_node [OF ch len] False obtain nh where h: "nodes s ?h = Some nh" "n_prev nh = Some ?l"
      by (auto simp: last_conv_nth)
    from chained_node [OF ch, of "length xs - 1"] len obtain nl where l: "nodes s ?l = Some nl" by auto
    have d: "distinct xs" using ch by (simp add: chained_def)
    have mem: "?h \<in> set xs" "?l \<in> set xs" using len by simp_all
    with anot assms(3) have ne: "a \<noteq> ?h" "a \<noteq> ?l" "y \<noteq> ?h" "y \<noteq> ?l" by auto
    let ?s1 = "s\<lparr>nodes := (nodes s)(?l \<mapsto> nl\<lparr>n_next := Some y\<rparr>, y \<mapsto> ny\<lparr>n_prev := Some ?l\<rparr>)\<rparr>"
    let ?nh = "if ?h = ?l then nl\<lparr>n_next := Some y\<rparr> else nh"
    let ?s = "?s1\<lparr>nodes := (nodes ?s1)(?h \<mapsto> ?nh\<lparr>n_prev := Some y\<rparr>)\<rparr>"
    have fx: "first xs = Some ?h" using False by (rule first_nth)
    have run: "add_item_to_array (Some a) (Some y) s = Ret (True, ?s)"
      using a y h l ne assms(4) fx by (simp add: add_item_to_array_def set_links)
    have idx: "xs ! i = ?h \<longleftrightarrow> i = 0" "xs ! i = ?l \<longleftrightarrow> i = length xs - 1" "xs ! i \<noteq> y" "xs ! i \<noteq> a"
      if "i < length xs" for i
      using that d len assms(3) anot by (auto simp: nth_eq_iff_index_eq)
    have first_is_last: "Suc 0 - length xs = 0" using len by (cases xs) simp_all
    have "chained ?s (xs @ [y])" unfolding chained_def
    proof (intro conjI allI impI)
      show "distinct (xs @ [y])" using d assms(3) by simp
      fix i assume "i < length (xs @ [y])"
      then consider "i = length xs" | "i < length xs" by force
      then show "\<exists>n. nodes ?s ((xs @ [y]) ! i) = Some n \<and>
         n_next n = (if Suc i < length (xs @ [y]) then Some ((xs @ [y]) ! Suc i) else None) \<and>
         n_prev n = Some (if i = 0 then last (xs @ [y]) else (xs @ [y]) ! (i - 1))"
      proof cases
        case 1
        then show ?thesis using y ne len by (auto simp: nth_append)
      next
        case 2
        from chained_node [OF ch 2] obtain n where n: "nodes s (xs ! i) = Some n"
          "n_next n = (if Suc i < length xs then Some (xs ! Suc i) else None)"
          "n_prev n = Some (if i = 0 then last xs else xs ! (i - 1))" by auto
        have "Suc i < length xs \<or> i = length xs - 1" using 2 by auto
        then show ?thesis using n 2 idx [OF 2] h l
            first_is_last by (cases "i = 0"; cases "i = length xs - 1") (auto simp: nth_append)
      qed
    qed
    moreover have "relinked a ({a, y} \<union> set xs) s ?s"
      using y l h ne mem assms(4) by (auto simp: relinked_def)
    ultimately have "items_of ?s a (xs @ [y])"
      using a ne assms(4) anot False fx by (auto simp: items_of_def first_append)
    with run \<open>relinked _ _ s ?s\<close> show ?thesis by blast
  qed
qed


section \<open>Removing an element\<close>

text \<open>Removing the k-th element: its predecessor takes over its next, its successor (the first
  element, when it was the last) its prev.\<close>

definition without :: "nat \<Rightarrow> 'a list \<Rightarrow> 'a list" where
  "without k xs = take k xs @ drop (Suc k) xs"

lemma without_nth: "k < length xs \<Longrightarrow> i < length xs - 1 \<Longrightarrow>
    without k xs ! i = xs ! (if i < k then i else Suc i)"
  by (auto simp: without_def nth_append min_def)

lemma length_without [simp]: "k < length xs \<Longrightarrow> length (without k xs) = length xs - 1"
  by (simp add: without_def)

lemma set_without:
  assumes "distinct xs" and "k < length xs"
  shows "set (without k xs) = set xs - {xs ! k}" and "distinct (without k xs)"
proof -
  have x: "xs = take k xs @ xs ! k # drop (Suc k) xs" by (rule id_take_nth_drop [OF assms(2)])
  have "distinct (take k xs @ xs ! k # drop (Suc k) xs)" by (fold x) (rule assms(1))
  moreover have "set xs = set (take k xs) \<union> insert (xs ! k) (set (drop (Suc k) xs))"
    using arg_cong [OF x, of set] by simp
  ultimately show "set (without k xs) = set xs - {xs ! k}" "distinct (without k xs)"
    by (auto simp: without_def)
qed

definition unlinked :: "store \<Rightarrow> store \<Rightarrow> nat list \<Rightarrow> nat \<Rightarrow> node \<Rightarrow> bool" where
  "unlinked s s' xs k x \<longleftrightarrow> (\<forall>i < length xs. i \<noteq> k \<longrightarrow> (\<exists>n n'. nodes s (xs ! i) = Some n \<and>
     nodes s' (xs ! i) = Some n' \<and>
     n_next n' = (if Suc i = k then n_next x else n_next n) \<and>
     n_prev n' = (if i = (if Suc k < length xs then Suc k else 0) then n_prev x else n_prev n)))"

lemma chained_without:
  assumes ch: "chained s xs" and k: "k < length xs" and x: "nodes s (xs ! k) = Some x"
    and u: "unlinked s s' xs k x"
  shows "chained s' (without k xs)"
  unfolding chained_def
proof (intro conjI allI impI)
  have d: "distinct xs" using ch by (simp add: chained_def)
  then show "distinct (without k xs)" using set_without(2) [OF _ k] by simp
  fix i assume "i < length (without k xs)"
  then have i: "i < length xs - 1" using k by simp
  let ?j = "if i < k then i else Suc i"
  have j: "?j < length xs" "?j \<noteq> k" using i k by auto
  from u j obtain n n' where n: "nodes s (xs ! ?j) = Some n" "nodes s' (xs ! ?j) = Some n'"
     "n_next n' = (if Suc ?j = k then n_next x else n_next n)"
     "n_prev n' = (if ?j = (if Suc k < length xs then Suc k else 0) then n_prev x else n_prev n)"
    unfolding unlinked_def by blast
  from chained_node [OF ch j(1)] n(1) have
    old: "n_next n = (if Suc ?j < length xs then Some (xs ! Suc ?j) else None)"
      "n_prev n = Some (if ?j = 0 then last xs else xs ! (?j - 1))" by auto
  from chained_node [OF ch k] x have
    gone: "n_next x = (if Suc k < length xs then Some (xs ! Suc k) else None)"
      "n_prev x = Some (if k = 0 then last xs else xs ! (k - 1))" by auto
  have ne: "without k xs \<noteq> []" using i k by (metis length_without list.size(3) not_less_zero)
  have w: "without k xs ! m = xs ! (if m < k then m else Suc m)" if "m < length xs - 1" for m
    using that without_nth [OF k] by blast
  have lw: "last (without k xs) = xs ! (if Suc k < length xs then length xs - 1 else k - 1)"
  proof -
    have "last (without k xs) = without k xs ! (length xs - 2)"
      using ne k by (simp add: last_conv_nth numeral_2_eq_2)
    also have "\<dots> = xs ! (if length xs - 2 < k then length xs - 2 else Suc (length xs - 2))"
      using i k by (intro w) simp
    also have "(if length xs - 2 < k then length xs - 2 else Suc (length xs - 2)) =
        (if Suc k < length xs then length xs - 1 else k - 1)" using i k by auto
    finally show ?thesis .
  qed
  have lx: "last xs = xs ! (length xs - 1)" using k by (intro last_conv_nth) auto
  show "\<exists>n. nodes s' (without k xs ! i) = Some n \<and>
       n_next n = (if Suc i < length (without k xs) then Some (without k xs ! Suc i) else None) \<and>
       n_prev n = Some (if i = 0 then last (without k xs) else without k xs ! (i - 1))"
  proof (intro exI conjI)
    show "nodes s' (without k xs ! i) = Some n'" using w [OF i] n(2) by simp
    show "n_next n' = (if Suc i < length (without k xs) then Some (without k xs ! Suc i) else None)"
      using n(3) old(1) gone(1) i k w [of "Suc i"] by (auto split: if_splits)
    show "n_prev n' = Some (if i = 0 then last (without k xs) else without k xs ! (i - 1))"
      using n(4) old(2) gone(2) i k w [of "i - 1"] lw lx by (auto split: if_splits)
  qed
qed

lemma fun_upd_node: "(nodes s)(a \<mapsto> n, b \<mapsto> m) = (\<lambda>x. if x = b then Some m else if x = a then Some n else nodes s x)"
  by auto

lemma detach_list:
  assumes "items_of s a xs" and k: "k < length xs"
  shows "\<exists>s'. cJSON_DetachItemViaPointer (Some a) (Some (xs ! k)) s = Ret (Some (xs ! k), s') \<and>
    items_of s' a (without k xs) \<and> detached s' (xs ! k) \<and> relinked a (insert a (set xs)) s s'"
proof -
  let ?x = "xs ! k"
  from assms(1) obtain na where a: "nodes s a = Some na" "n_child na = first xs"
    and ch: "chained s xs" and anot: "a \<notin> set xs" by (auto simp: items_of_def)
  have d: "distinct xs" using ch by (simp add: chained_def)
  have fx: "first xs = Some (xs ! 0)" using k by (intro first_nth) auto
  have idx: "xs ! i = xs ! j \<longleftrightarrow> i = j" if "i < length xs" "j < length xs" for i j
    using that d by (simp add: nth_eq_iff_index_eq)
  have inx: "xs ! i \<in> set xs" "xs ! i \<noteq> a" "a \<noteq> xs ! i" if "i < length xs" for i
    using that anot by (metis nth_mem)+
  from chained_node [OF ch k] obtain nx where x: "nodes s ?x = Some nx"
    "n_next nx = (if Suc k < length xs then Some (xs ! Suc k) else None)"
    "n_prev nx = Some (if k = 0 then last xs else xs ! (k - 1))" by auto
  have "\<exists>s'. cJSON_DetachItemViaPointer (Some a) (Some ?x) s = Ret (Some ?x, s') \<and>
      relinked a (insert a (set xs)) s s' \<and> detached s' ?x \<and> unlinked s s' xs k nx \<and>
      (\<exists>n. nodes s' a = Some n \<and> n_child n = (if k = 0 then n_next nx else first xs))"
  proof (cases "k = 0")
    case k0: True
    show ?thesis
    proof (cases "Suc k < length xs")
      case False
      let ?s = "s\<lparr>nodes := (nodes s)(a \<mapsto> na\<lparr>n_child := None\<rparr>, ?x \<mapsto> nx\<lparr>n_prev := None, n_next := None\<rparr>)\<rparr>"
      have "cJSON_DetachItemViaPointer (Some a) (Some ?x) s = Ret (Some ?x, ?s)"
        using a x k0 False fx inx [OF k] by (simp add: cJSON_DetachItemViaPointer_def set_links)
      moreover have "relinked a (insert a (set xs)) s ?s" using a x inx [OF k]
        by (auto simp: relinked_def)
      moreover have "unlinked s ?s xs k nx" using False k0 by (auto simp: unlinked_def)
      ultimately show ?thesis using a x k0 False inx [OF k] by (auto simp: detached_def)
    next
      case True
      let ?q = "xs ! Suc k"
      from chained_node [OF ch True] obtain nq where q: "nodes s ?q = Some nq" by auto
      let ?s = "s\<lparr>nodes := (nodes s)(?q \<mapsto> nq\<lparr>n_prev := n_prev nx\<rparr>, a \<mapsto> na\<lparr>n_child := Some ?q\<rparr>,
          ?x \<mapsto> nx\<lparr>n_prev := None, n_next := None\<rparr>)\<rparr>"
      have "cJSON_DetachItemViaPointer (Some a) (Some ?x) s = Ret (Some ?x, ?s)"
        using a x q k0 True fx inx [OF k] inx [OF True] idx [OF k True]
        by (simp add: cJSON_DetachItemViaPointer_def set_links)
      moreover have "relinked a (insert a (set xs)) s ?s" using a x q inx [OF k] inx [OF True] idx [OF k True]
        by (auto simp: relinked_def)
      moreover have "unlinked s ?s xs k nx" unfolding unlinked_def
      proof (intro allI impI)
        fix i assume i: "i < length xs" "i \<noteq> k"
        from chained_node [OF ch i(1)] obtain n where n: "nodes s (xs ! i) = Some n" by auto
        have e: "xs ! i = ?q \<longleftrightarrow> i = Suc k" "xs ! i \<noteq> ?x" "xs ! i \<noteq> a"
          using idx [OF i(1) True] idx [OF i(1) k] i(2) inx [OF i(1)] by auto
        show "\<exists>n n'. nodes s (xs ! i) = Some n \<and> nodes ?s (xs ! i) = Some n' \<and>
            n_next n' = (if Suc i = k then n_next nx else n_next n) \<and>
            n_prev n' = (if i = (if Suc k < length xs then Suc k else 0) then n_prev nx else n_prev n)"
          using n e q True k0 by (cases "i = Suc k") simp_all
      qed
      ultimately show ?thesis using a x k0 True inx [OF k] inx [OF True] by (auto simp: detached_def)
    qed
  next
    case kp: False
    let ?p = "xs ! (k - 1)"
    have pk: "k - 1 < length xs" "k - 1 \<noteq> k" "0 < length xs" "k - 1 \<noteq> Suc k" using k kp by auto
    from chained_node [OF ch pk(1)] obtain np where p: "nodes s ?p = Some np" by auto
    show ?thesis
    proof (cases "Suc k < length xs")
      case True
      let ?q = "xs ! Suc k"
      from chained_node [OF ch True] obtain nq where q: "nodes s ?q = Some nq" by auto
      let ?s = "s\<lparr>nodes := (nodes s)(?p \<mapsto> np\<lparr>n_next := Some ?q\<rparr>, ?q \<mapsto> nq\<lparr>n_prev := Some ?p\<rparr>,
          ?x \<mapsto> nx\<lparr>n_prev := None, n_next := None\<rparr>)\<rparr>"
      note I = idx [OF k True] idx [OF pk(1) True] idx [OF pk(1) k] idx [OF k pk(3)] inx [OF k] inx [OF True] inx [OF pk(1)]
      have "cJSON_DetachItemViaPointer (Some a) (Some ?x) s = Ret (Some ?x, ?s)"
        using a x p q kp True fx I pk
        by (simp add: cJSON_DetachItemViaPointer_def set_links)
      moreover have "relinked a (insert a (set xs)) s ?s" using a x p q I pk
        by (auto simp: relinked_def)
      moreover have "unlinked s ?s xs k nx" unfolding unlinked_def
      proof (intro allI impI)
        fix i assume i: "i < length xs" "i \<noteq> k"
        from chained_node [OF ch i(1)] obtain n where n: "nodes s (xs ! i) = Some n" by auto
        have e: "xs ! i = ?p \<longleftrightarrow> Suc i = k" "xs ! i = ?q \<longleftrightarrow> i = Suc k" "xs ! i \<noteq> ?x"
          using idx [OF i(1) pk(1)] idx [OF i(1) True] idx [OF i(1) k] i(2) kp by auto
        show "\<exists>n n'. nodes s (xs ! i) = Some n \<and> nodes ?s (xs ! i) = Some n' \<and>
            n_next n' = (if Suc i = k then n_next nx else n_next n) \<and>
            n_prev n' = (if i = (if Suc k < length xs then Suc k else 0) then n_prev nx else n_prev n)"
          using n e p q x(2,3) True kp by (cases "Suc i = k"; cases "i = Suc k") simp_all
      qed
      ultimately show ?thesis using a x kp I by (auto simp: detached_def)
    next
      case False
      let ?h = "xs ! 0"
      from chained_node [OF ch pk(3)] obtain nh where h: "nodes s ?h = Some nh" by auto
      let ?nh = "if ?h = ?p then np\<lparr>n_next := None\<rparr> else nh"
      let ?s = "s\<lparr>nodes := (nodes s)(?p \<mapsto> np\<lparr>n_next := None\<rparr>, ?h \<mapsto> ?nh\<lparr>n_prev := Some ?p\<rparr>,
          ?x \<mapsto> nx\<lparr>n_prev := None, n_next := None\<rparr>)\<rparr>"
      note I = idx [OF pk(3) k] idx [OF pk(1) k] idx [OF k pk(3)] inx [OF k] inx [OF pk(3)] inx [OF pk(1)]
      have "cJSON_DetachItemViaPointer (Some a) (Some ?x) s = Ret (Some ?x, ?s)"
        using a x p h kp False fx I pk
        by (auto simp: cJSON_DetachItemViaPointer_def set_links)
      moreover have "relinked a (insert a (set xs)) s ?s" using a x p h I pk
        by (auto simp: relinked_def)
      moreover have "unlinked s ?s xs k nx" unfolding unlinked_def
      proof (intro allI impI)
        fix i assume i: "i < length xs" "i \<noteq> k"
        from chained_node [OF ch i(1)] obtain n where n: "nodes s (xs ! i) = Some n" by auto
        have e: "xs ! i = ?p \<longleftrightarrow> Suc i = k" "xs ! i = ?h \<longleftrightarrow> i = 0" "xs ! i \<noteq> ?x"
          using idx [OF i(1) pk(1)] idx [OF i(1) pk(3)] idx [OF i(1) k] i(2) kp by auto
        show "\<exists>n n'. nodes s (xs ! i) = Some n \<and> nodes ?s (xs ! i) = Some n' \<and>
            n_next n' = (if Suc i = k then n_next nx else n_next n) \<and>
            n_prev n' = (if i = (if Suc k < length xs then Suc k else 0) then n_prev nx else n_prev n)"
          using n e p h x(2,3) False kp by (cases "Suc i = k"; cases "i = 0") simp_all
      qed
      ultimately show ?thesis using a x kp I by (auto simp: detached_def)
    qed
  qed
  then obtain s' n where s': "cJSON_DetachItemViaPointer (Some a) (Some ?x) s = Ret (Some ?x, s')"
      "relinked a (insert a (set xs)) s s'" "detached s' ?x" "unlinked s s' xs k nx"
      "nodes s' a = Some n" "n_child n = (if k = 0 then n_next nx else first xs)" by blast
  have "first (without k xs) = (if k = 0 then n_next nx else first xs)"
    using x(2) k fx by (auto simp: without_def first_append first_nth)
  moreover have "a \<notin> set (without k xs)" using anot set_without(1) [OF d k] by simp
  ultimately have "items_of s' a (without k xs)"
    using s' chained_without [OF ch k x(1) s'(4)] by (auto simp: items_of_def)
  with s' show ?thesis by blast
qed

end
