(* ===== verification/CJson_Trees.thy ===== *)
theory CJson_Trees
  imports CJson_Lists
begin

text \<open>
  The trees that the store holds. \<open>rep s a t F\<close> says that the item at address \<open>a\<close>, with everything
  it owns, is the tree \<open>t\<close>, and that \<open>F\<close> is the set of addresses it owns (nodes and texts). Each
  operation is shown to do to the tree what the reader of cJSON.h expects, and to leave
  every address outside the footprints alone.
\<close>

section \<open>Representation\<close>

definition str_foot :: "sptr option \<Rightarrow> nat set" where
  "str_foot p = (case p of Some (Heap a) \<Rightarrow> {a} | _ \<Rightarrow> {})"

definition shows_text :: "store \<Rightarrow> sptr option \<Rightarrow> string option \<Rightarrow> bool" where
  "shows_text s p t \<longleftrightarrow> (case p of None \<Rightarrow> t = None
     | Some q \<Rightarrow> \<exists>u. t = Some u \<and> text_at q s = Ret (u, s))"

definition is_lit :: "sptr option \<Rightarrow> bool" where
  "is_lit p \<longleftrightarrow> (case p of Some (Lit t) \<Rightarrow> True | _ \<Rightarrow> False)"

definition is_heap :: "sptr option \<Rightarrow> bool" where
  "is_heap p \<longleftrightarrow> (case p of Some (Heap t) \<Rightarrow> True | _ \<Rightarrow> False)"

text \<open>What an item owns itself: its node, its value text and, unless it is constant, its key.\<close>

definition own_foot :: "nat \<Rightarrow> node \<Rightarrow> nat set" where
  "own_foot a n = insert a (str_foot (n_vs n) \<union> str_foot (n_name n))"

text \<open>A node that owns all it points to, with its texts.\<close>

definition node_ok :: "store \<Rightarrow> nat \<Rightarrow> node \<Rightarrow> string option \<Rightarrow> string option \<Rightarrow> bool" where
  "node_ok s a n vs nm \<longleftrightarrow> \<not> is_reference (n_ty n) \<and> \<not> is_lit (n_vs n) \<and>
     (if string_is_const (n_ty n) then \<not> is_heap (n_name n) else \<not> is_lit (n_name n)) \<and>
     shows_text s (n_vs n) vs \<and> shows_text s (n_name n) nm \<and>
     a \<notin> str_foot (n_vs n) \<and> a \<notin> str_foot (n_name n) \<and> str_foot (n_vs n) \<inter> str_foot (n_name n) = {}"

inductive rep :: "store \<Rightarrow> nat \<Rightarrow> cjson \<Rightarrow> nat set \<Rightarrow> bool"
  and reps :: "store \<Rightarrow> nat list \<Rightarrow> cjson list \<Rightarrow> nat set \<Rightarrow> bool" where
  rep_item: "\<lbrakk>nodes s a = Some n; node_ok s a n vs nm; items_of s a xs; reps s xs ts F;
    own_foot a n \<inter> F = {}\<rbrakk> \<Longrightarrow>
    rep s a (Item (n_ty n) vs (n_vi n) (n_vd n) nm ts) (own_foot a n \<union> F)"
| reps_nil: "reps s [] [] {}"
| reps_cons: "\<lbrakk>rep s x t F; reps s xs ts G; F \<inter> G = {}\<rbrakk> \<Longrightarrow> reps s (x # xs) (t # ts) (F \<union> G)"

inductive_cases rep_E: "rep s a t F"
inductive_cases reps_nilE: "reps s [] ts F"
inductive_cases reps_consE: "reps s (x # xs) ts F"
inductive_simps reps_nil_iff [simp]: "reps s [] ts F"

lemma rep_in_foot: "rep s a t F \<Longrightarrow> a \<in> F"
  by (erule rep_E) (simp add: own_foot_def)

lemma reps_in_foot: "reps s xs ts F \<Longrightarrow> set xs \<subseteq> F"
proof (induction xs arbitrary: ts F)
  case (Cons x xs)
  from Cons.prems show ?case
    by (rule reps_consE) (use rep_in_foot Cons.IH in fastforce)
qed simp

lemma reps_length: "reps s xs ts F \<Longrightarrow> length ts = length xs"
  by (induction xs arbitrary: ts F) (auto elim: reps_consE reps_nilE)

text \<open>Only addresses in use belong to a footprint.\<close>

definition in_use :: "store \<Rightarrow> nat set" where
  "in_use s = {x. nodes s x \<noteq> None \<or> strs s x \<noteq> None}"

lemma in_use_below: "wf_store s \<Longrightarrow> in_use s \<subseteq> {..<brk s}"
  by (auto simp: in_use_def wf_store_def not_less [symmetric])

lemma shows_in_use: "shows_text s p t \<Longrightarrow> str_foot p \<subseteq> in_use s"
  by (auto simp: shows_text_def str_foot_def in_use_def text_at_def split: option.splits sptr.splits)

lemma rep_in_use:
  "rep s a t F \<Longrightarrow> F \<subseteq> in_use s"
  "reps s xs ts F \<Longrightarrow> F \<subseteq> in_use s"
  by (induction rule: rep_reps.inducts)
     (auto simp: own_foot_def node_ok_def in_use_def dest!: shows_in_use)

text \<open>Two stores that agree on a set of addresses.\<close>

definition agree_strs :: "nat set \<Rightarrow> store \<Rightarrow> store \<Rightarrow> bool" where
  "agree_strs A s s' \<longleftrightarrow> (\<forall>x \<in> A. strs s' x = strs s x)"

definition agree :: "nat set \<Rightarrow> store \<Rightarrow> store \<Rightarrow> bool" where
  "agree A s s' \<longleftrightarrow> agree_strs A s s' \<and> (\<forall>x \<in> A. nodes s' x = nodes s x)"

lemma agree_strs_mono: "agree_strs B s s' \<Longrightarrow> A \<subseteq> B \<Longrightarrow> agree_strs A s s'"
  by (auto simp: agree_strs_def)

lemma agree_mono: "agree B s s' \<Longrightarrow> A \<subseteq> B \<Longrightarrow> agree A s s'"
  unfolding agree_def by (meson agree_strs_mono subsetD)

lemma agree_node: "agree A s s' \<Longrightarrow> x \<in> A \<Longrightarrow> nodes s' x = nodes s x"
  by (simp add: agree_def)

lemma agree_refl [simp]: "agree A s s"
  by (simp add: agree_def agree_strs_def)

lemma agree_trans: "agree A s s1 \<Longrightarrow> agree A s1 s2 \<Longrightarrow> agree A s s2"
  by (simp add: agree_def agree_strs_def)

lemma shows_text_cong:
  assumes "shows_text s p t" and "agree_strs (str_foot p) s s'"
  shows "shows_text s' p t"
proof (cases p)
  case None
  with assms(1) show ?thesis by (simp add: shows_text_def)
next
  case (Some q)
  with assms(1) obtain u where u: "t = Some u" "text_at q s = Ret (u, s)"
    by (auto simp: shows_text_def)
  have "text_at q s' = Ret (u, s')"
  proof (cases q)
    case (Lit v)
    with u show ?thesis by (simp add: text_at_def)
  next
    case (Heap a)
    with Some assms(2) have "strs s' a = strs s a" by (simp add: agree_strs_def str_foot_def)
    with Heap u(2) show ?thesis by (auto simp: text_at_def bnd_eq_Ret split: option.splits)
  qed
  with Some u(1) show ?thesis by (simp add: shows_text_def)
qed

lemma node_ok_cong:
  assumes "node_ok s a n vs nm" and "agree_strs (own_foot a n) s s'"
  shows "node_ok s' a n vs nm"
proof -
  have "agree_strs (str_foot (n_vs n)) s s'" "agree_strs (str_foot (n_name n)) s s'"
    using assms(2) by (auto simp: agree_strs_def own_foot_def)
  with assms(1) shows_text_cong show ?thesis unfolding node_ok_def by blast
qed

lemma chained_cong: "chained s xs \<Longrightarrow> (\<forall>x \<in> set xs. nodes s' x = nodes s x) \<Longrightarrow> chained s' xs"
  by (simp add: chained_def)

lemma items_of_cong: "items_of s a xs \<Longrightarrow> (\<forall>x \<in> set xs. nodes s' x = nodes s x) \<Longrightarrow>
    nodes s a = Some n \<Longrightarrow> nodes s' a = Some n' \<Longrightarrow> n_child n' = n_child n \<Longrightarrow> items_of s' a xs"
  unfolding items_of_def using chained_cong [of s xs s'] by auto

text \<open>The frame rule: a store that agrees on the footprint represents the same tree.\<close>

lemma rep_frame:
  "rep s a t F \<Longrightarrow> agree F s s' \<Longrightarrow> rep s' a t F"
  "reps s xs ts F \<Longrightarrow> agree F s s' \<Longrightarrow> reps s' xs ts F"
proof (induction rule: rep_reps.inducts)
  case (rep_item s a n vs nm xs ts F)
  have ag: "agree (own_foot a n) s s'" "agree F s s'" "a \<in> own_foot a n"
    using rep_item.prems agree_mono by (blast, blast, simp add: own_foot_def)
  have "node_ok s' a n vs nm" using rep_item(2) ag(1) node_ok_cong by (simp add: agree_def)
  moreover have a: "nodes s' a = Some n" using rep_item(1) agree_node [OF ag(1,3)] by simp
  moreover have "items_of s' a xs"
    using items_of_cong [OF rep_item(3) _ rep_item(1) a] reps_in_foot [OF rep_item(4)]
      agree_node [OF ag(2)] by blast
  ultimately show ?case using rep_item(5,6) ag(2) by (intro rep_reps.rep_item) simp_all
next
  case reps_nil
  then show ?case by simp
next
  case (reps_cons s x t F xs ts G)
  then show ?case by (intro rep_reps.reps_cons) (simp_all add: agree_mono [OF reps_cons.prems])
qed

text \<open>The links of the root itself are not part of the tree.\<close>

definition same_but_links :: "node \<Rightarrow> node \<Rightarrow> bool" where
  "same_but_links n n' \<longleftrightarrow> n_ty n' = n_ty n \<and> n_vs n' = n_vs n \<and> n_vi n' = n_vi n \<and>
     n_vd n' = n_vd n \<and> n_name n' = n_name n \<and> n_child n' = n_child n"

lemma own_foot_cong: "same_but_links n n' \<Longrightarrow> own_foot a n' = own_foot a n"
  by (simp add: own_foot_def same_but_links_def)

lemma rep_relink:
  assumes "rep s a t F" and "nodes s a = Some n" and "nodes s' a = Some n'"
    and "same_but_links n n'" and "agree (F - {a}) s s'" and "strs s' a = strs s a"
  shows "rep s' a t F"
  using assms(1)
proof (cases rule: rep.cases)
  case (rep_item m vs nm xs ts G)
  have mn: "m = n" using rep_item(3) assms(2) by simp
  have eq: "n_ty n' = n_ty n" "n_vs n' = n_vs n" "n_vi n' = n_vi n" "n_vd n' = n_vd n"
      "n_name n' = n_name n" "n_child n' = n_child n"
    using assms(4) by (simp_all add: same_but_links_def)
  have own: "own_foot a n' = own_foot a n" using own_foot_cong [OF assms(4)] .
  have aG: "a \<notin> G" using rep_item(7) by (auto simp: own_foot_def)
  have G: "agree G s s'" using rep_item(2) aG by (intro agree_mono [OF assms(5)]) auto
  have "agree_strs F s s'" using assms(5,6) by (auto simp: agree_def agree_strs_def)
  then have "agree_strs (own_foot a n) s s'" using rep_item(2) mn by (auto intro: agree_strs_mono)
  with rep_item(4) mn have "node_ok s' a n vs nm" using node_ok_cong by blast
  then have "node_ok s' a n' vs nm" using eq by (simp add: node_ok_def)
  moreover have "items_of s' a xs"
    using items_of_cong [OF rep_item(5) _ assms(2,3) eq(6)] agree_node [OF G]
      reps_in_foot [OF rep_item(6)] by blast
  moreover have "reps s' xs ts G" using rep_frame(2) [OF rep_item(6) G] .
  ultimately have "rep s' a (Item (n_ty n') vs (n_vi n') (n_vd n') nm ts) (own_foot a n' \<union> G)"
    using assms(3) rep_item(7) own mn by (intro rep_reps.rep_item) simp_all
  then show ?thesis using rep_item(1,2) eq own mn by simp
qed

section \<open>Creating items\<close>

text \<open>The allocator grants the next \<open>n\<close> requests.\<close>

definition grants :: "nat \<Rightarrow> store \<Rightarrow> bool" where
  "grants n s \<longleftrightarrow> (\<forall>i < n. \<not> refuse s (asked s + i))"

text \<open>What every creating operation keeps: what was in use stays as it was, the allocator's answers
  are the same, and nothing beyond the new limit is in use.\<close>

definition grows :: "nat \<Rightarrow> store \<Rightarrow> store \<Rightarrow> bool" where
  "grows k s s' \<longleftrightarrow> wf_store s' \<and> agree (in_use s) s s' \<and> brk s \<le> brk s' \<and>
     refuse s' = refuse s \<and> asked s' = asked s + k \<and> in_use s' \<subseteq> in_use s \<union> {brk s..<brk s'}"

lemma grants_first: "grants (Suc n) s \<Longrightarrow> \<not> refuse s (asked s)"
  by (auto simp: grants_def)

lemma grants_mono: "grants n s \<Longrightarrow> m \<le> n \<Longrightarrow> grants m s"
  by (auto simp: grants_def)

lemma grants_after: "grants (k + n) s \<Longrightarrow> refuse s' = refuse s \<Longrightarrow> asked s' = asked s + k \<Longrightarrow> grants n s'"
  by (simp add: grants_def add.assoc)

lemma in_use_fresh: "wf_store s \<Longrightarrow> x \<in> in_use s \<Longrightarrow> x < brk s"
  using in_use_below by blast

lemma agree_fresh_node: "wf_store s \<Longrightarrow> agree (in_use s) s
    (s\<lparr>nodes := (nodes s)(brk s \<mapsto> n), brk := Suc (brk s), asked := k\<rparr>)"
  by (auto simp: agree_def agree_strs_def dest: in_use_fresh)

lemma agree_fresh_str: "wf_store s \<Longrightarrow> agree (in_use s) s
    (s\<lparr>strs := (strs s)(brk s \<mapsto> t), brk := Suc (brk s), asked := k\<rparr>)"
  by (auto simp: agree_def agree_strs_def dest: in_use_fresh)

lemma new_with_grows:
  assumes "wf_store s" and "grants (Suc n) s"
  shows "\<exists>s'. new_with f s = Ret (Some (brk s), s') \<and> grows 1 s s' \<and>
    nodes s' = (nodes s)(brk s \<mapsto> f zero_node) \<and> strs s' = strs s \<and> brk s' = Suc (brk s)"
proof -
  let ?s = "s\<lparr>nodes := (nodes s)(brk s \<mapsto> f zero_node), brk := Suc (brk s), asked := Suc (asked s)\<rparr>"
  have "new_with f s = Ret (Some (brk s), ?s)"
    using grants_first [OF assms(2)] by (simp add: new_with_def cJSON_New_Item_def sbind_def)
  moreover have "grows 1 s ?s"
    using assms(1) agree_fresh_node [OF assms(1), of "Suc (asked s)" "f zero_node"]
    by (auto simp: grows_def wf_store_def in_use_def kinds_def)
  ultimately show ?thesis by auto
qed

lemma strdup_grows:
  assumes "wf_store s" and "grants (Suc n) s" and "text_at q s = Ret (t, s)" and "cstring t"
  shows "\<exists>s'. cJSON_strdup (Some q) s = Ret (Some (Heap (brk s)), s') \<and> grows 1 s s' \<and>
    nodes s' = nodes s \<and> brk s' = Suc (brk s) \<and> strs s' = (strs s)(brk s \<mapsto> t @ [NUL]) \<and>
    shows_text s' (Some (Heap (brk s))) (Some t)"
proof -
  let ?s = "s\<lparr>strs := (strs s)(brk s \<mapsto> t @ [NUL]), brk := Suc (brk s), asked := Suc (asked s)\<rparr>"
  have "cJSON_strdup (Some q) s = Ret (Some (Heap (brk s)), ?s)"
    using grants_first [OF assms(2)] assms(3) by (simp add: cJSON_strdup_def)
  moreover have "grows 1 s ?s"
    using assms(1) agree_fresh_str [OF assms(1), of "Suc (asked s)" "t @ [NUL]"]
    by (auto simp: grows_def wf_store_def in_use_def kinds_def)
  ultimately show ?thesis using cstr_from_app [OF assms(4), of "[]"]
    by (auto simp: shows_text_def text_at_def)
qed

text \<open>An item without texts and children.\<close>

lemma rep_leaf:
  assumes "nodes s a = Some n" and "n_vs n = None" and "n_name n = None" and "n_child n = None"
    and "\<not> is_reference (n_ty n)"
  shows "rep s a (Item (n_ty n) None (n_vi n) (n_vd n) None []) {a}"
proof -
  have "items_of s a []" using assms by (simp add: items_of_def chained_def)
  moreover have "node_ok s a n None None"
    using assms by (simp add: node_ok_def is_lit_def is_heap_def shows_text_def str_foot_def)
  moreover have "own_foot a n = {a}" using assms by (simp add: own_foot_def str_foot_def)
  ultimately show ?thesis
    using rep_reps.rep_item [OF assms(1), of None None "[]" "[]" "{}"] by simp
qed

lemma CreateObject_rep:
  assumes "wf_store s" and "grants (Suc n) s"
  shows "\<exists>s'. cJSON_CreateObject s = Ret (Some (brk s), s') \<and> grows 1 s s' \<and>
    rep s' (brk s) (Item cJSON_Object None 0 (DNum False 0) None []) {brk s} \<and> detached s' (brk s)"
proof -
  from new_with_grows [OF assms, of "\<lambda>n. n\<lparr>n_ty := cJSON_Object\<rparr>"] obtain s' where
    s': "cJSON_CreateObject s = Ret (Some (brk s), s')" "grows 1 s s'"
      "nodes s' (brk s) = Some (zero_node\<lparr>n_ty := cJSON_Object\<rparr>)"
    by (auto simp: cJSON_CreateObject_def)
  from rep_leaf [OF s'(3)] s' show ?thesis by (simp add: zero_node_def detached_def)
qed

lemma CreateArray_rep:
  assumes "wf_store s" and "grants (Suc n) s"
  shows "\<exists>s'. cJSON_CreateArray s = Ret (Some (brk s), s') \<and> grows 1 s s' \<and>
    rep s' (brk s) (Item cJSON_Array None 0 (DNum False 0) None []) {brk s} \<and> detached s' (brk s)"
proof -
  from new_with_grows [OF assms, of "\<lambda>n. n\<lparr>n_ty := cJSON_Array\<rparr>"] obtain s' where
    s': "cJSON_CreateArray s = Ret (Some (brk s), s')" "grows 1 s s'"
      "nodes s' (brk s) = Some (zero_node\<lparr>n_ty := cJSON_Array\<rparr>)"
    by (auto simp: cJSON_CreateArray_def)
  from rep_leaf [OF s'(3)] s' show ?thesis by (simp add: zero_node_def detached_def)
qed

lemma in_use_agree: "agree (in_use s) s s' \<Longrightarrow> in_use s \<subseteq> in_use s'"
  by (auto simp: agree_def agree_strs_def in_use_def)

lemma grows_trans:
  assumes "grows j s s1" and "grows k s1 s2"
  shows "grows (j + k) s s2"
proof -
  have a: "agree (in_use s) s s1" "agree (in_use s1) s1 s2" using assms by (simp_all add: grows_def)
  then have "agree (in_use s) s s2"
    using agree_mono [OF a(2) in_use_agree [OF a(1)]] agree_trans by blast
  moreover have "in_use s2 \<subseteq> in_use s \<union> {brk s..<brk s2}"
    using assms unfolding grows_def by fastforce
  ultimately show ?thesis using assms by (simp add: grows_def)
qed

lemma grows_write:
  assumes "grows k s s1" and "wf_store s" and "brk s \<le> a" and "nodes s1 a = Some m"
  shows "grows k s (s1\<lparr>nodes := (nodes s1)(a \<mapsto> n)\<rparr>)"
proof -
  have w1: "wf_store s1" using assms(1) by (simp add: grows_def)
  then have a: "a < brk s1" using assms(4) by (auto simp: wf_store_def not_less [symmetric])
  have "strs s1 a = None" using w1 assms(4) unfolding wf_store_def kinds_def by (metis option.distinct(1))
  have "a \<notin> in_use s" using assms(2,3) in_use_fresh by fastforce
  with assms(1,3) a \<open>strs s1 a = None\<close> show ?thesis
    by (auto simp: grows_def agree_def agree_strs_def wf_store_def in_use_def kinds_def)
qed

lemma grows_frame: "grows k s s' \<Longrightarrow> rep s a t F \<Longrightarrow> rep s' a t F"
  by (auto simp: grows_def intro: rep_frame(1) agree_mono dest: rep_in_use(1))

lemma new_text_item_eq: "new_with (\<lambda>n. n\<lparr>n_ty := t\<rparr>) s = Ret (Some a, s1) \<Longrightarrow>
    new_text_item t string s = sbind (cJSON_strdup string) (\<lambda>copy.
       sbind (upd (Some a) (\<lambda>n. n\<lparr>n_vs := copy\<rparr>)) (\<lambda>_.
       if copy = None then sbind (delete_item (Some a)) (\<lambda>_. sret None) else sret (Some a))) s1"
  by (auto simp: new_text_item_def new_with_def cJSON_New_Item_def sbind_def sret_def
      split: if_splits)

lemma new_text_item_rep:
  assumes "wf_store s" and "grants (Suc (Suc n)) s" and "text_at q s = Ret (t, s)" and "cstring t"
    and "\<not> is_reference tt" and "\<not> string_is_const tt"
  shows "\<exists>s'. new_text_item tt (Some q) s = Ret (Some (brk s), s') \<and> grows 2 s s' \<and>
    rep s' (brk s) (Item tt (Some t) 0 (DNum False 0) None []) {brk s, Suc (brk s)} \<and>
    detached s' (brk s)"
proof -
  let ?b = "brk s" and ?z = "zero_node\<lparr>n_ty := tt\<rparr>"
  from new_with_grows [OF assms(1,2), of "\<lambda>n. n\<lparr>n_ty := tt\<rparr>"] obtain s1 where
    s1: "new_with (\<lambda>n. n\<lparr>n_ty := tt\<rparr>) s = Ret (Some ?b, s1)" "grows 1 s s1"
      "nodes s1 = (nodes s)(?b \<mapsto> ?z)" "strs s1 = strs s" "brk s1 = Suc ?b" by blast
  have q: "text_at q s1 = Ret (t, s1)"
    using assms(3) s1(4) by (auto simp: text_at_def bnd_eq_Ret split: sptr.splits option.splits)
  have g: "wf_store s1" "grants (Suc n) s1"
    using s1(2) grants_after [of 1 "Suc n" s s1] assms(2) by (simp_all add: grows_def)
  from strdup_grows [OF g q assms(4)] s1(5) obtain s2 where
    s2: "cJSON_strdup (Some q) s1 = Ret (Some (Heap (Suc ?b)), s2)" "grows 1 s1 s2"
      "nodes s2 = nodes s1" "brk s2 = Suc (Suc ?b)" "strs s2 = (strs s1)(Suc ?b \<mapsto> t @ [NUL])"
      "shows_text s2 (Some (Heap (Suc ?b))) (Some t)" by auto
  let ?n = "?z\<lparr>n_vs := Some (Heap (Suc ?b))\<rparr>"
  let ?s = "s2\<lparr>nodes := (nodes s2)(?b \<mapsto> ?n)\<rparr>"
  have nb: "nodes s2 ?b = Some ?z" using s2(3) s1(3) by simp
  have "new_text_item tt (Some q) s = Ret (Some ?b, ?s)"
    using new_text_item_eq [OF s1(1)] s2(1) nb by simp
  moreover have "grows 2 s ?s"
    using grows_write [OF grows_trans [OF s1(2) s2(2)] assms(1) _ nb] by (simp add: numeral_2_eq_2)
  moreover have "rep ?s ?b (Item tt (Some t) 0 (DNum False 0) None []) {?b, Suc ?b}"
  proof -
    have "items_of ?s ?b []" by (simp add: items_of_def chained_def zero_node_def)
    moreover have "shows_text ?s (Some (Heap (Suc ?b))) (Some t)"
      using shows_text_cong [OF s2(6), of ?s] by (simp add: agree_strs_def)
    then have "node_ok ?s ?b ?n (Some t) None" using assms(5,6)
      by (simp add: node_ok_def is_lit_def str_foot_def zero_node_def)
        (simp add: shows_text_def)
    moreover have "own_foot ?b ?n = {?b, Suc ?b}"
      by (auto simp: own_foot_def str_foot_def zero_node_def)
    ultimately show ?thesis
      using rep_reps.rep_item [of ?s ?b ?n "Some t" None "[]" "[]" "{}"] by (simp add: zero_node_def)
  qed
  moreover have "detached ?s ?b" by (simp add: detached_def zero_node_def)
  ultimately show ?thesis by blast
qed

section \<open>Adding items\<close>

text \<open>Adding one tree to another: outside the two footprints, and at the parent's own links, the
  store is unchanged.\<close>

definition added :: "nat \<Rightarrow> nat set \<Rightarrow> store \<Rightarrow> store \<Rightarrow> bool" where
  "added a A s s' \<longleftrightarrow> agree (- A) s s' \<and> strs s' = strs s \<and> brk s' = brk s \<and>
     refuse s' = refuse s \<and> asked s' = asked s \<and> dom (nodes s') = dom (nodes s) \<and>
     (\<exists>n c. nodes s a = Some n \<and> nodes s' a = Some (n\<lparr>n_child := c\<rparr>))"

lemma relinked_same_but_links:
  assumes "relinked p A s s'" and "nodes s x = Some n" and "x \<noteq> p"
  shows "\<exists>n'. nodes s' x = Some n' \<and> same_but_links n n'"
proof -
  have m: "map_option (payload p x) (nodes s' x) = Some (payload p x n)"
    using assms(1,2) by (simp add: relinked_def)
  then obtain n' where n': "nodes s' x = Some n'" by auto
  with m assms(3) have "n'\<lparr>n_next := None, n_prev := None\<rparr> = n\<lparr>n_next := None, n_prev := None\<rparr>"
    by (simp add: payload_def)
  then have "same_but_links n n'"
    by (cases n; cases n') (simp add: same_but_links_def)
  with n' show ?thesis by blast
qed

lemma relinked_parent:
  assumes "relinked p A s s'" and "nodes s p = Some n"
  shows "\<exists>c. nodes s' p = Some (n\<lparr>n_child := c\<rparr>)"
proof -
  have m: "map_option (payload p p) (nodes s' p) = Some (payload p p n)"
    using assms by (simp add: relinked_def)
  then obtain n' where n': "nodes s' p = Some n'" by auto
  with m have "n'\<lparr>n_child := None\<rparr> = n\<lparr>n_child := None\<rparr>" by (simp add: payload_def)
  then have "n' = n\<lparr>n_child := n_child n'\<rparr>" by (cases n; cases n') simp
  with n' show ?thesis by metis
qed

lemma relinked_dom: "relinked p A s s' \<Longrightarrow> dom (nodes s') = dom (nodes s)"
  unfolding relinked_def dom_def by (metis (no_types, lifting) option.map_disc_iff)

text \<open>The children keep their trees when only links in the list change.\<close>

lemma reps_relinked:
  assumes "relinked p A s s'"
  shows "reps s xs ts F \<Longrightarrow> p \<notin> F \<Longrightarrow> A \<inter> F \<subseteq> set xs \<Longrightarrow> reps s' xs ts F"
proof (induction xs arbitrary: ts F)
  case Nil
  then show ?case by simp
next
  case (Cons x xs)
  from Cons.prems(1) obtain t ts' F1 F2 where c: "ts = t # ts'" "F = F1 \<union> F2" "rep s x t F1"
      "reps s xs ts' F2" "F1 \<inter> F2 = {}" by (auto elim: reps_consE)
  have sub: "x \<in> F1" "set xs \<subseteq> F2" using rep_in_foot [OF c(3)] reps_in_foot [OF c(4)] by auto
  have A: "A \<inter> F1 \<subseteq> {x}" "A \<inter> F2 \<subseteq> set xs" using Cons.prems(3) c(2,5) sub by auto
  obtain n where n: "nodes s x = Some n" using c(3) by (auto elim: rep_E)
  have "x \<noteq> p" using Cons.prems(2) c(2) sub by auto
  from relinked_same_but_links [OF assms n this] obtain n' where
    n': "nodes s' x = Some n'" "same_but_links n n'" by blast
  have "agree (F1 - {x}) s s'" "strs s' x = strs s x"
    using assms A(1) by (auto simp: agree_def agree_strs_def relinked_def)
  then have "rep s' x t F1" using rep_relink [OF c(3) n n'] by blast
  moreover have "reps s' xs ts' F2" using Cons.IH [OF c(4)] Cons.prems(2) c(2) A(2) by blast
  ultimately show ?case using c by (auto intro: rep_reps.reps_cons)
qed

lemma reps_snoc: "reps s xs ts F \<Longrightarrow> rep s y t G \<Longrightarrow> F \<inter> G = {} \<Longrightarrow> reps s (xs @ [y]) (ts @ [t]) (F \<union> G)"
proof (induction xs arbitrary: ts F)
  case Nil
  then have "reps s [y] [t] (G \<union> {})" by (intro rep_reps.intros) auto
  with Nil show ?case by simp
next
  case (Cons x xs)
  from Cons.prems(1) obtain t' ts' F1 F2 where c: "ts = t' # ts'" "F = F1 \<union> F2" "rep s x t' F1"
      "reps s xs ts' F2" "F1 \<inter> F2 = {}" by (auto elim: reps_consE)
  have "reps s (xs @ [y]) (ts' @ [t]) (F2 \<union> G)" using Cons.IH [OF c(4) Cons.prems(2)] Cons.prems(3) c(2) by blast
  then have "reps s (x # (xs @ [y])) (t' # (ts' @ [t])) (F1 \<union> (F2 \<union> G))"
    using c Cons.prems(3) by (intro rep_reps.reps_cons) auto
  then show ?case using c by (simp add: Un_assoc)
qed

lemma wf_store_cong: "wf_store s \<Longrightarrow> dom (nodes s') = dom (nodes s) \<Longrightarrow> strs s' = strs s \<Longrightarrow>
    brk s' = brk s \<Longrightarrow> wf_store s'"
  unfolding wf_store_def kinds_def by (metis domIff)

lemma in_use_cong: "dom (nodes s') = dom (nodes s) \<Longrightarrow> strs s' = strs s \<Longrightarrow> in_use s' = in_use s"
  unfolding in_use_def by (metis domIff)

lemma rep_iff: "rep s a (Item t vs vi vd nm ts) F \<longleftrightarrow>
    (\<exists>n xs G. nodes s a = Some n \<and> n_ty n = t \<and> n_vi n = vi \<and> n_vd n = vd \<and>
       node_ok s a n vs nm \<and> items_of s a xs \<and> reps s xs ts G \<and> own_foot a n \<inter> G = {} \<and>
       F = own_foot a n \<union> G)"
  by (subst rep.simps) auto

lemma relinked_agree: "relinked p A s s' \<Longrightarrow> B \<inter> A = {} \<Longrightarrow> agree B s s'"
  by (simp add: relinked_def agree_def agree_strs_def disjoint_iff)

text \<open>The chain determines the list, and the children lie in the footprint.\<close>

lemma path_unique: "path s p xs \<Longrightarrow> path s p ys \<Longrightarrow> xs = ys"
proof (induction xs arbitrary: p ys)
  case Nil
  then show ?case by (cases ys) auto
next
  case (Cons x xs)
  then show ?case by (cases ys) auto
qed

lemma items_unique:
  assumes "items_of s a xs" and "items_of s a ys"
  shows "xs = ys"
proof -
  have "first xs = first ys" "chained s xs" "chained s ys" using assms by (auto simp: items_of_def)
  then have "path s (first ys) xs" "path s (first ys) ys" using chained_path by (metis, blast)
  then show ?thesis by (rule path_unique)
qed

lemma rep_children:
  assumes "rep s a (Item t vs vi vd nm ts) F" and "items_of s a xs"
  shows "set xs \<subseteq> F - {a}"
proof -
  from assms(1) obtain n ys G where g: "items_of s a ys" "reps s ys ts G" "own_foot a n \<inter> G = {}"
      "F = own_foot a n \<union> G" by (auto simp: rep_iff)
  have "xs = ys" by (rule items_unique [OF assms(2) g(1)])
  with reps_in_foot [OF g(2)] g(3,4) show ?thesis by (auto simp: own_foot_def)
qed

lemma add_item_to_array_rep:
  assumes p: "rep s a (Item pt pv pj pd pn ts) F" and c: "rep s y t G" and d: "F \<inter> G = {}"
    and "detached s y"
  shows "\<exists>s'. add_item_to_array (Some a) (Some y) s = Ret (True, s') \<and>
    rep s' a (Item pt pv pj pd pn (ts @ [t])) (F \<union> G) \<and> added a (F \<union> G) s s' \<and>
    (\<forall>xs. items_of s a xs \<longrightarrow> items_of s' a (xs @ [y]))"
proof -
  from p obtain n xs F' where n: "nodes s a = Some n" "n_ty n = pt" "n_vi n = pj" "n_vd n = pd"
      "node_ok s a n pv pn" and xs: "items_of s a xs" "reps s xs ts F'"
    and F: "own_foot a n \<inter> F' = {}" "F = own_foot a n \<union> F'"
    by (auto simp: rep_iff)
  have sub: "set xs \<subseteq> F'" using reps_in_foot [OF xs(2)] .
  have aF: "a \<in> own_foot a n" "a \<in> F" "y \<in> G" using rep_in_foot p c by (auto simp: own_foot_def)
  have ys: "y \<notin> set xs" "y \<noteq> a" "a \<notin> F'" using aF sub F d by auto
  from add_item_to_array_list [OF xs(1) assms(4) ys(1,2)] obtain s' where
    s': "add_item_to_array (Some a) (Some y) s = Ret (True, s')" "items_of s' a (xs @ [y])"
      "relinked a ({a, y} \<union> set xs) s s'" by blast
  have st: "strs s' = strs s" using s'(3) by (simp add: relinked_def)
  have "reps s' xs ts F'"
    by (rule reps_relinked [OF s'(3) xs(2) ys(3)]) (use ys(3) aF(3) F(2) d in auto)
  moreover have "rep s' y t G"
  proof -
    obtain m where m: "nodes s y = Some m" using c by (auto elim: rep_E)
    from relinked_same_but_links [OF s'(3) m ys(2)] obtain m' where
      m': "nodes s' y = Some m'" "same_but_links m m'" by blast
    have "(G - {y}) \<inter> ({a, y} \<union> set xs) = {}" using F(2) d sub aF by blast
    from relinked_agree [OF s'(3) this] have "agree (G - {y}) s s'" .
    from rep_relink [OF c m m' this] st show ?thesis by simp
  qed
  ultimately have kids: "reps s' (xs @ [y]) (ts @ [t]) (F' \<union> G)"
    using F(2) d by (intro reps_snoc) auto
  from relinked_parent [OF s'(3) n(1)] obtain h where
    h: "nodes s' a = Some (n\<lparr>n_child := h\<rparr>)" by blast
  have own: "own_foot a (n\<lparr>n_child := h\<rparr>) = own_foot a n" by (simp add: own_foot_def)
  have "node_ok s' a n pv pn" using node_ok_cong [OF n(5)] st by (simp add: agree_strs_def)
  then have "node_ok s' a (n\<lparr>n_child := h\<rparr>) pv pn" by (simp add: node_ok_def)
  moreover have "own_foot a n \<inter> (F' \<union> G) = {}" using F d by auto
  ultimately have "rep s' a (Item pt pv pj pd pn (ts @ [t])) (own_foot a n \<union> (F' \<union> G))"
    using h own s'(2) kids n(2-4) unfolding rep_iff by fastforce
  then have "rep s' a (Item pt pv pj pd pn (ts @ [t])) (F \<union> G)" using F(2) by (simp add: Un_assoc)
  moreover have "agree (- (F \<union> G)) s s'"
    using F(2) sub aF by (intro relinked_agree [OF s'(3)]) auto
  then have "added a (F \<union> G) s s'"
    using s'(3) n(1) relinked_dom [OF s'(3)] h by (auto simp: added_def relinked_def)
  moreover have "\<forall>xs. items_of s a xs \<longrightarrow> items_of s' a (xs @ [y])"
    using items_unique [OF xs(1)] s'(2) by blast
  ultimately show ?thesis using s'(1) by blast
qed

text \<open>Naming an item that has no name yet.\<close>

lemma and_not_disjoint:
  fixes x c :: "32 word"
  assumes "x AND c = 0"
  shows "x AND NOT c = x"
proof (rule bit_eqI)
  fix i
  have "\<not> bit (x AND c) i" using assms by simp
  then show "bit (x AND NOT c) i = bit x i" if "possible_bit TYPE(32 word) i"
    using that by (auto simp: bit_simps)
qed

lemma rename_rep:
  assumes r: "rep s y (Item t vs vi vd None ts) G" and c: "\<not> string_is_const t"
    and "strs s k = Some (u @ [NUL])" and "cstring u" and "k \<notin> G"
    and "nodes s y = Some n"
  defines "s' \<equiv> s\<lparr>nodes := (nodes s)(y \<mapsto>
    n\<lparr>n_name := Some (Heap k), n_ty := n_ty n AND NOT cJSON_StringIsConst\<rparr>)\<rparr>"
  shows "rep s' y (Item t vs vi vd (Some u) ts) (insert k G)"
proof -
  let ?m = "n\<lparr>n_name := Some (Heap k), n_ty := n_ty n AND NOT cJSON_StringIsConst\<rparr>"
  from r obtain xs F where n: "n_ty n = t" "n_vi n = vi" "n_vd n = vd" "node_ok s y n vs None"
    and xs: "items_of s y xs" "reps s xs ts F"
    and F: "own_foot y n \<inter> F = {}" "G = own_foot y n \<union> F"
    using assms(6) by (auto simp: rep_iff)
  have nn: "n_name n = None" using n(4) by (auto simp: node_ok_def shows_text_def split: option.splits)
  have ty: "n_ty n AND NOT cJSON_StringIsConst = n_ty n"
    using c n(1) by (intro and_not_disjoint) (simp add: string_is_const_def)
  have yF: "y \<notin> F" "y \<in> G" using F by (auto simp: own_foot_def)
  have st: "strs s' = strs s" and ny: "nodes s' y = Some ?m" by (simp_all add: s'_def)
  have rest: "agree F s s'" using yF(1) by (auto simp: agree_def agree_strs_def s'_def)
  have "items_of s' y xs"
    using items_of_cong [OF xs(1) _ assms(6) ny] agree_node [OF rest] reps_in_foot [OF xs(2)] by auto
  moreover have "reps s' xs ts F" using rep_frame(2) [OF xs(2) rest] .
  moreover have own: "own_foot y ?m = insert k (own_foot y n)"
    using nn by (auto simp: own_foot_def str_foot_def)
  moreover have "node_ok s' y ?m vs (Some u)"
  proof -
    have "shows_text s' (n_vs n) vs"
      using shows_text_cong [of s "n_vs n" vs s'] n(4) st by (simp add: node_ok_def agree_strs_def)
    moreover have "shows_text s' (Some (Heap k)) (Some u)"
      using assms(3) st cstr_from_app [OF assms(4), of "[]"] by (simp add: shows_text_def text_at_def)
    moreover have "k \<notin> str_foot (n_vs n)" "y \<noteq> k" using F(2) yF(2) assms(5) by (auto simp: own_foot_def)
    ultimately show ?thesis
      using n(1,4) ty c by (simp add: node_ok_def) (simp add: is_lit_def str_foot_def)
  qed
  moreover have "own_foot y ?m \<inter> F = {}" using own F assms(5) by auto
  moreover have "insert k G = own_foot y ?m \<union> F" using own F(2) by auto
  ultimately show ?thesis using ny n(1-3) ty unfolding rep_iff by fastforce
qed

text \<open>What an operation that may also change the addresses in \<open>W\<close> keeps.\<close>

definition touches :: "nat set \<Rightarrow> nat \<Rightarrow> store \<Rightarrow> store \<Rightarrow> bool" where
  "touches W k s s' \<longleftrightarrow> wf_store s' \<and> agree (in_use s - W) s s' \<and> brk s \<le> brk s' \<and>
     refuse s' = refuse s \<and> asked s' = asked s + k \<and> in_use s' \<subseteq> in_use s \<union> {brk s..<brk s'}"

lemma grows_touches: "grows k s s' \<Longrightarrow> touches {} k s s'"
  by (simp add: grows_def touches_def)

lemma added_touches:
  assumes "wf_store s" and "added a A s s'"
  shows "touches A 0 s s'"
proof -
  have a: "dom (nodes s') = dom (nodes s)" "strs s' = strs s" "brk s' = brk s" "agree (- A) s s'"
    using assms(2) by (auto simp: added_def)
  have "agree (in_use s - A) s s'" by (rule agree_mono [OF a(4)]) auto
  then show ?thesis using assms a in_use_cong [OF a(1,2)] wf_store_cong [OF assms(1) a(1-3)]
    by (simp add: touches_def added_def)
qed

lemma touches_mono: "touches V k s s' \<Longrightarrow> V \<subseteq> W \<Longrightarrow> touches W k s s'"
  by (auto simp: touches_def intro: agree_mono)

lemma touches_grants: "touches W k s s' \<Longrightarrow> grants (k + n) s \<Longrightarrow> grants n s'"
  by (auto simp: touches_def intro: grants_after)

lemma touches_frame:
  assumes "touches W k s s'" and "rep s a t F" and "F \<inter> W = {}"
  shows "rep s' a t F"
proof (rule rep_frame(1) [OF assms(2)])
  have "F \<subseteq> in_use s - W" using rep_in_use(1) [OF assms(2)] assms(3) by blast
  with assms(1) show "agree F s s'" by (auto simp: touches_def intro: agree_mono)
qed

lemma touches_trans:
  assumes "touches V j s s1" and "touches W k s1 s2" and "wf_store s"
  shows "touches (V \<union> (W \<inter> in_use s)) (j + k) s s2"
proof -
  have a: "agree (in_use s - V) s s1" "agree (in_use s1 - W) s1 s2"
    using assms by (simp_all add: touches_def)
  have "in_use s - V \<subseteq> in_use s1"
    using a(1) by (auto simp: agree_def agree_strs_def in_use_def)
  then have "agree (in_use s - (V \<union> (W \<inter> in_use s))) s1 s2" by (intro agree_mono [OF a(2)]) auto
  moreover have "agree (in_use s - (V \<union> (W \<inter> in_use s))) s s1" by (intro agree_mono [OF a(1)]) auto
  ultimately have "agree (in_use s - (V \<union> (W \<inter> in_use s))) s s2" using agree_trans by blast
  moreover have "in_use s2 \<subseteq> in_use s \<union> {brk s..<brk s2}"
    using assms unfolding touches_def by fastforce
  ultimately show ?thesis using assms(1,2) by (simp add: touches_def)
qed

text \<open>The next and prev pointers of an item.\<close>

definition links_kept :: "nat \<Rightarrow> store \<Rightarrow> store \<Rightarrow> bool" where
  "links_kept a s s' \<longleftrightarrow> map_option (\<lambda>n. (n_next n, n_prev n)) (nodes s' a) =
     map_option (\<lambda>n. (n_next n, n_prev n)) (nodes s a)"

lemma add_item_to_object_rep:
  assumes wf: "wf_store s" and g: "grants (Suc k) s"
    and a: "rep s a (Item pt pv pj pd pn ts) F" and y: "rep s y (Item t vs vi vd None us) G"
    and d: "F \<inter> G = {}" and "detached s y" and c: "\<not> string_is_const t"
    and q: "text_at q s = Ret (u, s)" "cstring u"
  shows "\<exists>s'. add_item_to_object (Some a) (Some q) (Some y) False s = Ret (True, s') \<and>
    rep s' a (Item pt pv pj pd pn (ts @ [Item t vs vi vd (Some u) us])) (F \<union> insert (brk s) G) \<and>
    touches (F \<union> G) 1 s s' \<and> links_kept a s s' \<and>
    (\<forall>xs. items_of s a xs \<longrightarrow> items_of s' a (xs @ [y]))"
proof -
  let ?k = "brk s"
  from strdup_grows [OF wf g q] obtain s1 where
    s1: "cJSON_strdup (Some q) s = Ret (Some (Heap ?k), s1)" "grows 1 s s1" "nodes s1 = nodes s"
      "strs s1 = (strs s)(?k \<mapsto> u @ [NUL])" "brk s1 = Suc ?k" by blast
  have a1: "rep s1 a (Item pt pv pj pd pn ts) F" and y1: "rep s1 y (Item t vs vi vd None us) G"
    using grows_frame [OF s1(2)] a y by blast+
  from y obtain n where n: "nodes s y = Some n" "n_ty n = t" "node_ok s y n vs None"
    by (auto simp: rep_iff)
  have nn: "n_name n = None" using n(3) by (auto simp: node_ok_def shows_text_def split: option.splits)
  have kin: "?k \<notin> in_use s" using wf in_use_fresh by blast
  have kF: "?k \<notin> F" "?k \<notin> G" using kin rep_in_use(1) a y by blast+
  have ya: "y \<noteq> a" using rep_in_foot a y d by blast
  define s2 where "s2 = s1\<lparr>nodes := (nodes s1)(y \<mapsto>
      n\<lparr>n_name := Some (Heap ?k), n_ty := n_ty n AND NOT cJSON_StringIsConst\<rparr>)\<rparr>"
  have y2: "rep s2 y (Item t vs vi vd (Some u) us) (insert ?k G)"
    unfolding s2_def by (rule rename_rep [OF y1 c]) (use s1(3,4) q(2) kF n(1) in simp_all)
  have yF: "y \<notin> F" using rep_in_foot [OF y] d by blast
  then have "agree F s1 s2" by (auto simp: agree_def agree_strs_def s2_def)
  from rep_frame(1) [OF a1 this] have a2: "rep s2 a (Item pt pv pj pd pn ts) F" .
  have "detached s2 y" using assms(6) n(1) by (auto simp: detached_def s2_def)
  with add_item_to_array_rep [OF a2 y2] d kF obtain s' where
    s': "add_item_to_array (Some a) (Some y) s2 = Ret (True, s')"
      "rep s' a (Item pt pv pj pd pn (ts @ [Item t vs vi vd (Some u) us])) (F \<union> insert ?k G)"
      "added a (F \<union> insert ?k G) s2 s'"
      "\<And>xs. items_of s2 a xs \<Longrightarrow> items_of s' a (xs @ [y])" by auto
  have y1': "nodes s1 y = Some n" using n(1) s1(3) by simp
  have nc: "n_ty n AND cJSON_StringIsConst = 0" using c n(2) by (simp add: string_is_const_def)
  have run: "add_item_to_object (Some a) (Some q) (Some y) False s = Ret (True, s')"
    using ya s1(1) y1' nn s'(1) by (simp add: add_item_to_object_def free_if_def s2_def)
  have wf1: "wf_store s1" using s1(2) by (simp add: grows_def)
  have d2: "dom (nodes s2) = dom (nodes s1)" "strs s2 = strs s1" "brk s2 = brk s1"
    using y1' by (auto simp: s2_def)
  have i2: "in_use s2 = in_use s1" by (rule in_use_cong [OF d2(1,2)])
  have "wf_store s2" by (rule wf_store_cong [OF wf1 d2])
  moreover have "agree (in_use s1 - {y}) s1 s2" by (auto simp: agree_def agree_strs_def s2_def)
  ultimately have "touches {y} 0 s1 s2" using i2 by (simp add: touches_def s2_def)
  from touches_trans [OF touches_trans [OF grows_touches [OF s1(2)] this wf]
      added_touches [OF \<open>wf_store s2\<close> s'(3)] wf]
  have "touches ({} \<union> {y} \<inter> in_use s \<union> (F \<union> insert ?k G) \<inter> in_use s) (1 + 0 + 0) s s'" .
  then have "touches ({} \<union> {y} \<inter> in_use s \<union> (F \<union> insert ?k G) \<inter> in_use s) 1 s s'" by simp
  then have "touches (F \<union> G) 1 s s'"
    by (rule touches_mono) (use kin rep_in_foot [OF y] in auto)
  moreover have "links_kept a s s'"
    using s'(3) ya s1(3) by (auto simp: added_def links_kept_def s2_def)
  moreover have "items_of s' a (xs @ [y])" if i: "items_of s a xs" for xs
  proof (rule s'(4))
    have xy: "\<forall>x \<in> set xs. nodes s2 x = nodes s x"
      using rep_children [OF a i] yF s1(3) by (auto simp: s2_def)
    obtain m where "nodes s a = Some m" using a by (auto simp: rep_iff)
    then show "items_of s2 a xs" using items_of_cong [OF i xy] ya s1(3) by (simp add: s2_def)
  qed
  ultimately show ?thesis using run s'(2) by blast
qed

lemma AddStringToObject_rep:
  assumes wf: "wf_store s" and g: "grants 3 s"
    and a: "rep s a (Item pt pv pj pd pn ts) F"
    and q: "cstring u" and v: "cstring v"
  shows "\<exists>s' F'. cJSON_AddStringToObject (Some a) (Some (Lit u)) (Some (Lit v)) s = Ret (Some (brk s), s') \<and>
    rep s' a (Item pt pv pj pd pn (ts @ [Item cJSON_String (Some v) 0 (DNum False 0) (Some u) []])) F' \<and>
    F' \<subseteq> F \<union> {brk s..<brk s'} \<and> touches F 3 s s' \<and> links_kept a s s'"
proof -
  have g2: "grants (Suc (Suc 1)) s" using g by (simp add: numeral_3_eq_3)
  have tv: "text_at (Lit v) s = Ret (v, s)" by (simp add: text_at_def)
  from new_text_item_rep [OF wf g2 tv v, of cJSON_String] obtain s1 where
    s1: "cJSON_CreateString (Some (Lit v)) s = Ret (Some (brk s), s1)" "grows 2 s s1"
      "rep s1 (brk s) (Item cJSON_String (Some v) 0 (DNum False 0) None []) {brk s, Suc (brk s)}"
      "detached s1 (brk s)" by (auto simp: cJSON_CreateString_def)
  have t1: "touches {} 2 s s1" using grows_touches [OF s1(2)] .
  have wf1: "wf_store s1" using s1(2) by (simp add: grows_def)
  have g3: "grants (Suc 0) s1" using touches_grants [OF t1, of "Suc 0"] g by (simp add: numeral_3_eq_3 numeral_2_eq_2)
  have a1: "rep s1 a (Item pt pv pj pd pn ts) F" using grows_frame [OF s1(2) a] .
  have Fb: "x \<in> F \<Longrightarrow> x < brk s" for x using rep_in_use(1) [OF a] in_use_fresh [OF wf] by blast
  then have d: "F \<inter> {brk s, Suc (brk s)} = {}" by fastforce
  have tu: "text_at (Lit u) s1 = Ret (u, s1)" by (simp add: text_at_def)
  from add_item_to_object_rep [OF wf1 g3 a1 s1(3) d s1(4) _ tu q] obtain s' where
    s': "add_item_to_object (Some a) (Some (Lit u)) (Some (brk s)) False s1 = Ret (True, s')"
      "rep s' a (Item pt pv pj pd pn (ts @ [Item cJSON_String (Some v) 0 (DNum False 0) (Some u) []]))
         (F \<union> insert (brk s1) {brk s, Suc (brk s)})"
      "touches (F \<union> {brk s, Suc (brk s)}) 1 s1 s'" "links_kept a s1 s'" by auto
  have "cJSON_AddStringToObject (Some a) (Some (Lit u)) (Some (Lit v)) s = Ret (Some (brk s), s')"
    using s1(1) s'(1) by (simp add: cJSON_AddStringToObject_def add_created_def)
  moreover have tt: "touches F 3 s s'"
  proof (rule touches_mono)
    show "touches ({} \<union> (F \<union> {brk s, Suc (brk s)}) \<inter> in_use s) 3 s s'"
      using touches_trans [OF t1 s'(3) wf] by simp
    have "brk s \<notin> in_use s" "Suc (brk s) \<notin> in_use s" using in_use_fresh [OF wf] by fastforce+
    then show "{} \<union> (F \<union> {brk s, Suc (brk s)}) \<inter> in_use s \<subseteq> F" by blast
  qed
  moreover have "links_kept a s s'"
  proof -
    have "a \<in> in_use s" using rep_in_use(1) [OF a] rep_in_foot [OF a] by blast
    then have "nodes s1 a = nodes s a" using s1(2) by (simp add: grows_def agree_def)
    then show ?thesis using s'(4) by (simp add: links_kept_def)
  qed
  moreover have "F \<union> insert (brk s1) {brk s, Suc (brk s)} \<subseteq> F \<union> {brk s..<brk s'}"
  proof -
    have "F \<union> insert (brk s1) {brk s, Suc (brk s)} \<subseteq> in_use s'" using rep_in_use(1) [OF s'(2)] .
    moreover have "wf_store s'" using tt by (simp add: touches_def)
    moreover have "brk s \<le> brk s1" using s1(2) by (simp add: grows_def)
    ultimately show ?thesis using in_use_fresh by fastforce
  qed
  ultimately show ?thesis using s'(2) by blast
qed

section \<open>Deleting\<close>

text \<open>The store without the addresses of a set.\<close>

definition clear :: "nat set \<Rightarrow> store \<Rightarrow> store" where
  "clear F s = s\<lparr>nodes := (\<lambda>x. if x \<in> F then None else nodes s x),
                 strs := (\<lambda>x. if x \<in> F then None else strs s x)\<rparr>"

fun node_count :: "cjson \<Rightarrow> nat" where
  "node_count (Item t vs vi vd nm ts) = Suc (sum_list (map node_count ts))"

lemma clear_simps [simp]: "brk (clear F s) = brk s" "clear {} s = s"
  by (simp_all add: clear_def)

lemma clear_clear: "clear G (clear F s) = clear (F \<union> G) s"
  by (rule store.equality) (auto simp: clear_def)

lemma free_str_clear: "strs s b \<noteq> None \<Longrightarrow> b \<notin> F \<Longrightarrow> nodes s b = None \<Longrightarrow>
    free_str (Heap b) (clear F s) = Ret ((), clear (insert b F) s)"
  by (auto simp: free_str_def clear_def fun_eq_iff intro!: store.equality)

lemma free_node_clear: "nodes s a \<noteq> None \<Longrightarrow> a \<notin> F \<Longrightarrow> strs s a = None \<Longrightarrow>
    free_node a (clear F s) = Ret ((), clear (insert a F) s)"
  by (auto simp: free_node_def clear_def fun_eq_iff intro!: store.equality)

lemma kinds_clear: "kinds s \<Longrightarrow> kinds (clear F s)"
  by (auto simp: kinds_def clear_def)

lemma agree_clear: "G \<inter> F = {} \<Longrightarrow> agree G s (clear F s)"
  by (auto simp: agree_def agree_strs_def clear_def)

lemma path_cong: "path s p xs \<Longrightarrow> (\<forall>x \<in> set xs. nodes s' x = nodes s x) \<Longrightarrow> path s' p xs"
  by (induction xs arbitrary: p) auto

lemma shows_block: "shows_text s (Some (Heap b)) t \<Longrightarrow> strs s b \<noteq> None"
  by (auto simp: shows_text_def text_at_def split: option.splits)

text \<open>Freeing what a node owns itself, once its children are gone.\<close>

lemma free_own:
  assumes n: "nodes s a = Some n" and ok: "node_ok s a n vs nm" and k: "kinds s"
    and F: "own_foot a n \<inter> F = {}"
  shows "bnd (free_if (\<not> is_reference (n_ty n)) (n_vs n) (clear F s)) (\<lambda>(_, s2).
     bnd (free_if (\<not> string_is_const (n_ty n)) (n_name n) s2) (\<lambda>(_, s3).
     bnd (free_node a s3) g)) = g ((), clear (own_foot a n \<union> F) s)"
proof -
  let ?A = "str_foot (n_vs n)" and ?B = "str_foot (n_name n)"
  have sub: "?A \<inter> F = {}" "?B \<inter> F = {}" "a \<notin> F" using F by (auto simp: own_foot_def)
  have d: "?A \<inter> ?B = {}" "a \<notin> ?A" "a \<notin> ?B" using ok by (auto simp: node_ok_def)
  have nn: "nodes s x = None" if "x \<in> ?A \<union> ?B" for x
  proof -
    have "strs s x \<noteq> None" using that ok shows_block
      by (auto simp: node_ok_def str_foot_def split: option.splits sptr.splits)
    then show ?thesis using k by (auto simp: kinds_def)
  qed
  have sa: "strs s a = None" using k n unfolding kinds_def by (metis option.distinct(1))
  have 1: "free_if (\<not> is_reference (n_ty n)) (n_vs n) (clear F s) = Ret ((), clear (?A \<union> F) s)"
  proof (cases "n_vs n")
    case None
    then show ?thesis by (simp add: free_if_def str_foot_def)
  next
    case (Some q)
    then obtain b where q: "q = Heap b" using ok by (cases q) (auto simp: node_ok_def is_lit_def)
    then have A: "?A = {b}" using Some by (simp add: str_foot_def)
    have "strs s b \<noteq> None" using ok Some q shows_block by (auto simp: node_ok_def)
    moreover have "b \<notin> F" "nodes s b = None" using A sub nn by auto
    ultimately show ?thesis using ok Some q A free_str_clear [of s b F]
      by (simp add: free_if_def node_ok_def)
  qed
  have 2: "free_if (\<not> string_is_const (n_ty n)) (n_name n) (clear (?A \<union> F) s) =
      Ret ((), clear (?B \<union> ?A \<union> F) s)"
  proof (cases "n_name n")
    case None
    then show ?thesis by (simp add: free_if_def str_foot_def)
  next
    case (Some q)
    show ?thesis
    proof (cases q)
      case (Lit l)
      then show ?thesis using Some ok
        by (auto simp: free_if_def str_foot_def node_ok_def is_lit_def split: if_splits)
    next
      case (Heap b)
      then have B: "?B = {b}" using Some by (simp add: str_foot_def)
      have "strs s b \<noteq> None" using ok Some Heap shows_block by (auto simp: node_ok_def)
      moreover have "b \<notin> ?A \<union> F" "nodes s b = None" using B d sub nn by auto
      moreover have "\<not> string_is_const (n_ty n)"
        using ok Some Heap by (auto simp: node_ok_def is_heap_def)
      ultimately show ?thesis using Some Heap B free_str_clear [of s b "?A \<union> F"]
        by (simp add: free_if_def)
    qed
  qed
  have 3: "free_node a (clear (?B \<union> ?A \<union> F) s) = Ret ((), clear (own_foot a n \<union> F) s)"
    using free_node_clear [of s a "?B \<union> ?A \<union> F"] n d sub sa by (simp add: own_foot_def Un_commute)
  show ?thesis by (simp add: 1 2 3)
qed

lemma delete_items_rep:
  "\<lbrakk>path s p xs; reps s xs ts F; kinds s; sum_list (map node_count ts) < fuel\<rbrakk> \<Longrightarrow>
   delete_items fuel p s = Ret ((), clear F s)"
proof (induction fuel arbitrary: s p xs ts F)
  case 0
  then show ?case by simp
next
  case (Suc fuel)
  show ?case
  proof (cases xs)
    case Nil
    with Suc.prems show ?thesis by simp
  next
    case (Cons a rest)
    with Suc.prems(2) obtain t ts' F1 F2 where c: "ts = t # ts'" "F = F1 \<union> F2" "rep s a t F1"
      "reps s rest ts' F2" "F1 \<inter> F2 = {}" by (auto elim: reps_consE)
    obtain tt vs vi vd nm us where t: "t = Item tt vs vi vd nm us" by (cases t)
    with c(3) obtain n ys G where n: "nodes s a = Some n" "n_ty n = tt" "node_ok s a n vs nm"
      and ys: "items_of s a ys" "reps s ys us G"
      and G: "own_foot a n \<inter> G = {}" "F1 = own_foot a n \<union> G" by (auto simp: rep_iff)
    from Cons Suc.prems(1) n(1) have p: "p = Some a" "path s (n_next n) rest" by auto
    have size: "sum_list (map node_count us) < fuel" "sum_list (map node_count ts') < fuel"
      using Suc.prems(4) c(1) t by auto
    have pc: "path s (n_child n) ys" using ys(1) n(1) chained_path by (auto simp: items_of_def)
    have kids: "(if \<not> is_reference (n_ty n) \<and> n_child n \<noteq> None then delete_items fuel (n_child n) s
        else Ret ((), s)) = Ret ((), clear G s)"
    proof (cases "n_child n = None")
      case True
      then have "ys = []" using pc by (cases ys) auto
      then show ?thesis using True ys(2) by simp
    next
      case False
      then show ?thesis using Suc.IH [OF pc ys(2) Suc.prems(3) size(1)] n(3) by (simp add: node_ok_def)
    qed
    let ?s = "clear F1 s"
    have rest: "delete_items fuel (n_next n) ?s = Ret ((), clear F2 ?s)"
    proof (rule Suc.IH)
      have ag: "agree F2 s ?s" using c(5) by (intro agree_clear) auto
      then show "path ?s (n_next n) rest"
        using path_cong [OF p(2)] agree_node reps_in_foot [OF c(4)] by blast
      show "reps ?s rest ts' F2" using rep_frame(2) [OF c(4) ag] .
    qed (use kinds_clear Suc.prems(3) size in auto)
    have "delete_items (Suc fuel) p s = delete_items fuel (n_next n) (clear (own_foot a n \<union> G) s)"
      using p(1) n(1) kids free_own [OF n(1,3) Suc.prems(3) G(1),
          of "\<lambda>(_, s4). delete_items fuel (n_next n) s4"] by simp
    then show ?thesis using rest c(2) G(2) clear_clear by simp
  qed
qed

text \<open>The number of nodes is bounded by the addresses handed out.\<close>

lemma foot_finite: "wf_store s \<Longrightarrow> F \<subseteq> in_use s \<Longrightarrow> finite F"
  using in_use_below finite_subset [of F "{..<brk s}"] by blast

lemma rep_count:
  "rep s a t F \<Longrightarrow> wf_store s \<Longrightarrow> node_count t \<le> card F"
  "reps s xs ts F \<Longrightarrow> wf_store s \<Longrightarrow> sum_list (map node_count ts) \<le> card F"
proof (induction rule: rep_reps.inducts)
  case (rep_item s a n vs nm xs ts F)
  have r: "rep s a (Item (n_ty n) vs (n_vi n) (n_vd n) nm ts) (own_foot a n \<union> F)"
    by (rule rep_reps.rep_item [OF rep_item(1-5)])
  have fin: "finite (own_foot a n \<union> F)"
    by (rule foot_finite [OF rep_item.prems rep_in_use(1) [OF r]])
  have "a \<notin> F" using rep_item(5) by (auto simp: own_foot_def)
  then have "Suc (card F) = card (insert a F)" using fin by simp
  also have "\<dots> \<le> card (own_foot a n \<union> F)" using fin by (intro card_mono) (auto simp: own_foot_def)
  finally show ?case using rep_item.IH rep_item.prems by simp
next
  case reps_nil
  then show ?case by simp
next
  case (reps_cons s x t F xs ts G)
  have "finite F" "finite G"
    using foot_finite [OF reps_cons.prems rep_in_use(1) [OF reps_cons(1)]]
      foot_finite [OF reps_cons.prems rep_in_use(2) [OF reps_cons(2)]] .
  then have "card (F \<union> G) = card F + card G" using reps_cons(3) by (rule card_Un_disjoint)
  then show ?case using reps_cons.IH reps_cons.prems by simp
qed

lemma delete_whole:
  assumes "wf_store s" and "rep s a t F" and "detached s a"
  shows "delete_item (Some a) s = Ret ((), clear F s)"
proof -
  from assms(3) obtain n where "nodes s a = Some n" "n_next n = None" by (auto simp: detached_def)
  then have p: "path s (Some a) [a]" by simp
  have r: "reps s [a] [t] F" using rep_reps.reps_cons [OF assms(2), of "[]" "[]" "{}"] by simp
  have "card F \<le> brk s"
    using card_mono [of "{..<brk s}" F] rep_in_use(1) [OF assms(2)] in_use_below [OF assms(1)] by auto
  then have "node_count t < Suc (brk s)" using rep_count(1) [OF assms(2,1)] by simp
  then show ?thesis using delete_items_rep [OF p r, of "Suc (brk s)"] assms(1) by (simp add: delete_item_def wf_store_def)
qed

text \<open>C23: cJSON_Delete frees exactly what the item owns: its nodes, its value texts and its own keys,
  each once, and nothing else.\<close>

theorem delete_item_rep:
  assumes "wf_store s" and "rep s a t F" and "detached s a"
  shows "delete_item (Some a) s = Ret ((), clear F s)"
  by (rule delete_whole [OF assms])

theorem delete_item_rep_witness:
  "\<exists>s. cJSON_CreateObject \<lparr>nodes = Map.empty, strs = Map.empty, brk = 0, refuse = (\<lambda>_. False), asked = 0\<rparr>
       = Ret (Some 0, s) \<and> delete_item (Some 0) s = Ret ((), clear {0} s)"
proof -
  let ?s0 = "\<lparr>nodes = Map.empty, strs = Map.empty, brk = 0, refuse = (\<lambda>_. False), asked = 0\<rparr> :: store"
  have "wf_store ?s0" "grants (Suc 0) ?s0" by (simp_all add: wf_store_def grants_def kinds_def)
  from CreateObject_rep [OF this] obtain s where
    s: "cJSON_CreateObject ?s0 = Ret (Some 0, s)" "grows 1 ?s0 s" "detached s 0"
      "rep s 0 (Item cJSON_Object None 0 (DNum False 0) None []) {0}" by auto
  with delete_item_rep [OF _ s(4,3)] show ?thesis by (auto simp: grows_def)
qed

end
