(* ===== verification/Watcher_Event.thy ===== *)
theory Watcher_Event
  imports Watcher_Sys CJson_Trees
begin

text \<open>
  The fanotify events of watcher.c: the layout of the records the kernel writes into the buffer of
  on_fs_event, filepath_from_fanotify_even_metadata, the classification of an event, and the loop
  over the buffer that turns the events into a JSON object. Reads of the buffer are bounded: a read
  outside its 256 bytes is undefined.
\<close>

section \<open>The records in the buffer\<close>

text \<open>A block of \<open>n\<close> bytes of an object, and the little-endian number in it.\<close>

definition load :: "char list \<Rightarrow> nat \<Rightarrow> nat \<Rightarrow> char list run" where
  "load mem off n = (if off + n \<le> length mem then Ret (take n (drop off mem)) else Undef)"

definition load_le :: "char list \<Rightarrow> nat \<Rightarrow> nat \<Rightarrow> nat run" where
  "load_le mem off n = bnd (load mem off n) (\<lambda>bs. Ret (le bs))"

record fanotify_event_metadata =
  event_len :: nat
  vers :: nat
  mask :: nat
  meta_fd :: int

definition METADATA_LEN :: nat where "METADATA_LEN = 24"

text \<open>The copy of the 24 bytes of a record header. The fields reserved, metadata_len and pid are
  not used.\<close>

definition read_metadata :: "char list \<Rightarrow> nat \<Rightarrow> fanotify_event_metadata run" where
  "read_metadata mem off = bnd (load mem off METADATA_LEN) (\<lambda>bs.
     Ret \<lparr>event_len = le (take 4 bs), vers = of_char (bs ! 4), mask = le (take 8 (drop 8 bs)),
          meta_fd = signed32 (le (take 4 (drop 16 bs)))\<rparr>)"

definition FAN_EVENT_OK :: "fanotify_event_metadata \<Rightarrow> int \<Rightarrow> bool" where
  "FAN_EVENT_OK meta len \<longleftrightarrow> int METADATA_LEN \<le> len \<and> METADATA_LEN \<le> event_len meta \<and>
     int (event_len meta) \<le> len"

definition FAN_EVENT_INFO_TYPE_FID :: nat where "FAN_EVENT_INFO_TYPE_FID = 1"
definition FAN_EVENT_INFO_TYPE_DFID_NAME :: nat where "FAN_EVENT_INFO_TYPE_DFID_NAME = 2"
definition FANOTIFY_METADATA_VERSION :: nat where "FANOTIFY_METADATA_VERSION = 3"
definition FAN_NOFD :: int where "FAN_NOFD = -1"

text \<open>The offsets in an information record: header and file system id take 12 bytes, the size and
  type of the file handle 8 more.\<close>

definition INFO_LEN :: nat where "INFO_LEN = 12"
definition HANDLE_LEN :: nat where "HANDLE_LEN = 8"

section \<open>The path of an event\<close>

definition fd_link :: "int \<Rightarrow> string" where
  "fd_link fd = ''/proc/self/fd/'' @ print_int fd"

text \<open>The record that names a directory entry: the path of the directory, a slash and the name.
  \<open>None\<close> in the result is the early return when the handle cannot be opened. A refused malloc or
  strdup leads to the use of a null pointer.\<close>

definition dfid_name :: "kernel \<Rightarrow> char list \<Rightarrow> int \<Rightarrow> nat \<Rightarrow> history \<Rightarrow> amem \<Rightarrow>
      (string option \<times> history \<times> amem) run" where
  "dfid_name k mem mount_fd info h m =
     (let file_handle = info + INFO_LEN in
      bnd (load_le mem file_handle 4) (\<lambda>handle_bytes.
      let (r, h1) = sys k (Open_by_handle mount_fd
            (take (HANDLE_LEN + handle_bytes) (drop file_handle mem))) h; fd = rv r in
      if fd = -1 then Ret (None, h1, m)
      else bnd (safe_readlink k (fd_link fd) h1 m) (\<lambda>(linksize, path, h2, m2).
        let (path', m3) = (if linksize = -1
              then (let (ok, m3) = alloc m2 in (if ok then Some ''???'' else None, m3))
              else (path, m2));
            h3 = do_close fd h2 in
        bnd (cstr_from (drop (file_handle + HANDLE_LEN + handle_bytes) mem)) (\<lambda>nm.
        case path' of None \<Rightarrow> Undef
        | Some p \<Rightarrow> (let (ok, m4) = alloc m3 in
            if \<not> ok then Undef else Ret (Some (p @ ''/'' @ nm), h3, dealloc m4))))))"

text \<open>One unit of fuel per record. A record of length 0 makes the loop run forever; any other moves
  on, and the reads end with the buffer.\<close>

fun filepath_loop :: "kernel \<Rightarrow> char list \<Rightarrow> int \<Rightarrow> nat \<Rightarrow> nat \<Rightarrow> nat \<Rightarrow> string option \<Rightarrow> history \<Rightarrow>
      amem \<Rightarrow> (string option \<times> history \<times> amem) run" where
  "filepath_loop k mem mount_fd next_metadata 0 info full_path h m = NoFuel"
| "filepath_loop k mem mount_fd next_metadata (Suc fuel) info full_path h m =
     (if info < next_metadata then
        bnd (load_le mem info 1) (\<lambda>info_type.
        if info_type = FAN_EVENT_INFO_TYPE_DFID_NAME then
          bnd (dfid_name k mem mount_fd info h m) (\<lambda>(full, h1, m1).
          case full of None \<Rightarrow> Ret (None, h1, m1)
          | Some p \<Rightarrow> bnd (load_le mem (info + 2) 2) (\<lambda>len.
              filepath_loop k mem mount_fd next_metadata fuel (info + len) (Some p) h1 m1))
        else bnd (load_le mem (info + 2) 2) (\<lambda>len.
          filepath_loop k mem mount_fd next_metadata fuel (info + len) full_path h m))
      else Ret (full_path, h, m))"

definition filepath_from_fanotify_even_metadata ::
  "kernel \<Rightarrow> char list \<Rightarrow> nat \<Rightarrow> int \<Rightarrow> history \<Rightarrow> amem \<Rightarrow> (string option \<times> history \<times> amem) run" where
  "filepath_from_fanotify_even_metadata k mem metadata mount_fd h m =
     bnd (read_metadata mem metadata) (\<lambda>meta.
       filepath_loop k mem mount_fd (metadata + event_len meta) (Suc (length mem))
         (metadata + METADATA_LEN) None h m)"

section \<open>The kind of an event\<close>

datatype operation_type_t = OP_CLOSE_FOR_WRITE | OP_REMOVE | OP_MOVE_FROM | OP_MOVE_TO | OP_UNKNOWN

fun operation_type_to_string :: "operation_type_t \<Rightarrow> string" where
  "operation_type_to_string OP_CLOSE_FOR_WRITE = ''close_for_write''"
| "operation_type_to_string OP_REMOVE = ''remove''"
| "operation_type_to_string OP_MOVE_FROM = ''move_from''"
| "operation_type_to_string OP_MOVE_TO = ''move_to''"
| "operation_type_to_string OP_UNKNOWN = ''unknown''"

definition FAN_CLOSE_WRITE :: nat where "FAN_CLOSE_WRITE = 0x08"
definition FAN_MOVED_FROM :: nat where "FAN_MOVED_FROM = 0x40"
definition FAN_MOVED_TO :: nat where "FAN_MOVED_TO = 0x80"
definition FAN_DELETE :: nat where "FAN_DELETE = 0x200"

text \<open>Each test overwrites the answer of the ones before it.\<close>

definition classify :: "nat \<Rightarrow> operation_type_t" where
  "classify msk =
     (let op0 = OP_UNKNOWN;
          op1 = (if msk AND FAN_CLOSE_WRITE \<noteq> 0 then OP_CLOSE_FOR_WRITE else op0);
          op2 = (if msk AND FAN_MOVED_TO \<noteq> 0 then OP_MOVE_TO else op1);
          op3 = (if msk AND FAN_DELETE \<noteq> 0 then OP_REMOVE else op2)
      in if msk AND FAN_MOVED_FROM \<noteq> 0 then OP_MOVE_FROM else op3)"

text \<open>strncmp with the length of the second string: a prefix test on C strings.\<close>

definition below :: "string \<Rightarrow> string \<Rightarrow> bool" where
  "below compare_path filepath \<longleftrightarrow> take (length compare_path) filepath = compare_path"

section \<open>The loop over the buffer\<close>

text \<open>The three stores an event is processed in: the calls made, the allocations of the program
  itself, and the JSON items.\<close>

record ctx =
  hist :: history
  heap :: amem
  items :: store

definition add_event :: "nat option \<Rightarrow> string \<Rightarrow> operation_type_t \<Rightarrow> unit op" where
  "add_event json_events filepath op =
     sbind cJSON_CreateObject (\<lambda>json_event.
     sbind (cJSON_AddStringToObject json_event (Some (Lit ''path'')) (Some (Lit filepath))) (\<lambda>_.
     sbind (cJSON_AddStringToObject json_event (Some (Lit ''operation''))
              (Some (Lit (operation_type_to_string op)))) (\<lambda>_.
     sbind (cJSON_AddItemToArray json_events json_event) (\<lambda>_. sret ()))))"

text \<open>One event: False asks for the termination of the loop (a wrong version).\<close>

definition one_event :: "kernel \<Rightarrow> char list \<Rightarrow> int \<Rightarrow> string \<Rightarrow> nat option \<Rightarrow> nat \<Rightarrow>
      fanotify_event_metadata \<Rightarrow> ctx \<Rightarrow> (bool \<times> ctx) run" where
  "one_event k mem fs_fd compare_path json_events off metadata c =
     (if vers metadata \<noteq> FANOTIFY_METADATA_VERSION then Ret (False, c)
      else if meta_fd metadata \<noteq> FAN_NOFD then Abort
      else bnd (filepath_from_fanotify_even_metadata k mem off fs_fd (hist c) (heap c)) (\<lambda>(filepath, h1, m1).
        let c1 = c\<lparr>hist := h1, heap := m1\<rparr> in
        case filepath of None \<Rightarrow> Ret (True, c1)
        | Some p \<Rightarrow>
          if \<not> below compare_path p then Ret (True, c1\<lparr>heap := dealloc m1\<rparr>)
          else bnd (add_event json_events p (classify (mask metadata)) (items c1)) (\<lambda>(_, s).
            Ret (True, c1\<lparr>heap := dealloc m1, items := s\<rparr>))))"

text \<open>One unit of fuel per event; an event takes at least the 24 bytes of its header.\<close>

fun events_loop :: "kernel \<Rightarrow> char list \<Rightarrow> int \<Rightarrow> string \<Rightarrow> nat option \<Rightarrow> nat \<Rightarrow> nat \<Rightarrow> int \<Rightarrow> ctx \<Rightarrow>
      (bool \<times> ctx) run" where
  "events_loop k mem fs_fd compare_path json_events 0 off buflen c = NoFuel"
| "events_loop k mem fs_fd compare_path json_events (Suc fuel) off buflen c =
     bnd (read_metadata mem off) (\<lambda>metadata.
     if FAN_EVENT_OK metadata buflen then
       bnd (one_event k mem fs_fd compare_path json_events off metadata c) (\<lambda>(go_on, c1).
       if \<not> go_on then Ret (False, c1)
       else events_loop k mem fs_fd compare_path json_events fuel (off + event_len metadata)
              (buflen - int (event_len metadata)) c1)
     else Ret (True, c))"

definition BUF_SIZE :: nat where
  "BUF_SIZE = 256"

text \<open>What on_fs_event does before it talks to the loop: nothing to send, a message to queue, or a
  request to end. \<open>stack\<close> is what the buffer held before the read.\<close>

datatype fs_outcome = Nothing | Terminate | Queue "nat option"

definition read_events :: "kernel \<Rightarrow> char list \<Rightarrow> int \<Rightarrow> int \<Rightarrow> string \<Rightarrow> ctx \<Rightarrow> (fs_outcome \<times> ctx) run" where
  "read_events k stack event_fd fs_fd compare_path c =
     (let (r, h1) = sys k (Read event_fd BUF_SIZE) (hist c);
          buflen = rv r;
          mem = take BUF_SIZE (bytes r @ drop (length (bytes r)) stack);
          c1 = c\<lparr>hist := h1\<rparr> in
      bnd (cJSON_CreateObject (items c1)) (\<lambda>(json, s1).
      bnd (cJSON_CreateArray s1) (\<lambda>(json_events, s2).
      bnd (cJSON_AddItemToObject json (Some (Lit ''events'')) json_events s2) (\<lambda>(_, s3).
      bnd (events_loop k mem fs_fd compare_path json_events (Suc BUF_SIZE) 0 buflen (c1\<lparr>items := s3\<rparr>))
        (\<lambda>(go_on, c2).
        if \<not> go_on then Ret (Terminate, c2)
        else bnd (cJSON_GetArraySize json_events (items c2)) (\<lambda>(n, s4).
          if n = 0 then bnd (delete_item json s4) (\<lambda>(_, s5). Ret (Nothing, c2\<lparr>items := s5\<rparr>))
          else Ret (Queue json, c2\<lparr>items := s4\<rparr>)))))))"

section \<open>The JSON of the events\<close>

definition event_tree :: "string \<Rightarrow> operation_type_t \<Rightarrow> cjson" where
  "event_tree p op = Item cJSON_Object None 0 (DNum False 0) None
     [Item cJSON_String (Some p) 0 (DNum False 0) (Some ''path'') [],
      Item cJSON_String (Some (operation_type_to_string op)) 0 (DNum False 0) (Some ''operation'') []]"

definition events_array :: "cjson list \<Rightarrow> cjson" where
  "events_array ts = Item cJSON_Array None 0 (DNum False 0) (Some ''events'') ts"

definition message_tree :: "cjson list \<Rightarrow> cjson" where
  "message_tree ts = Item cJSON_Object None 0 (DNum False 0) None [events_array ts]"

definition no_refusal :: "store \<Rightarrow> bool" where
  "no_refusal s \<longleftrightarrow> wf_store s \<and> (\<forall>i. \<not> refuse s i)"

text \<open>The message under construction: the object \<open>j\<close> whose only child \<open>e\<close> is the array of events.\<close>

definition building :: "store \<Rightarrow> nat \<Rightarrow> nat \<Rightarrow> cjson list \<Rightarrow> bool" where
  "building s j e ts \<longleftrightarrow> (\<exists>n F. nodes s j = Some n \<and> node_ok s j n None None \<and> detached s j \<and>
     n_ty n = cJSON_Object \<and> n_vi n = 0 \<and> n_vd n = DNum False 0 \<and> own_foot j n = {j} \<and>
     items_of s j [e] \<and> rep s e (events_array ts) F \<and> j \<notin> F)"

lemma building_rep: "building s j e ts \<Longrightarrow> \<exists>F. rep s j (message_tree ts) F \<and> detached s j"
proof -
  assume "building s j e ts"
  then obtain n F where b: "nodes s j = Some n" "node_ok s j n None None" "n_ty n = cJSON_Object"
      "n_vi n = 0" "n_vd n = DNum False 0" "own_foot j n = {j}" "items_of s j [e]"
      "rep s e (events_array ts) F" "j \<notin> F" "detached s j" by (auto simp: building_def)
  have "reps s [e] [events_array ts] F"
    using rep_reps.reps_cons [OF b(8), of "[]" "[]" "{}"] by simp
  from rep_reps.rep_item [OF b(1,2,7) this] b show ?thesis by (auto simp: message_tree_def)
qed

lemma no_refusal_grants: "no_refusal s \<Longrightarrow> wf_store s \<and> grants n s"
  by (simp add: no_refusal_def grants_def)

lemma touches_no_refusal: "no_refusal s \<Longrightarrow> touches W k s s' \<Longrightarrow> no_refusal s'"
  by (simp add: no_refusal_def touches_def)

lemma op_string_ok: "cstring (operation_type_to_string op)"
  by (cases op) (simp_all add: cstring_def)

text \<open>The object of one event, as a fresh tree.\<close>

lemma event_object:
  assumes n: "no_refusal s" and p: "cstring p"
  shows "\<exists>s1 s2 s3 F a b. cJSON_CreateObject s = Ret (Some (brk s), s1) \<and>
    cJSON_AddStringToObject (Some (brk s)) (Some (Lit ''path'')) (Some (Lit p)) s1 = Ret (a, s2) \<and>
    cJSON_AddStringToObject (Some (brk s)) (Some (Lit ''operation''))
      (Some (Lit (operation_type_to_string op))) s2 = Ret (b, s3) \<and>
    rep s3 (brk s) (event_tree p op) F \<and> F \<inter> in_use s = {} \<and> detached s3 (brk s) \<and>
    touches {} 7 s s3"
proof -
  let ?y = "brk s"
  have wf: "wf_store s" using n by (simp add: no_refusal_def)
  from CreateObject_rep [of s 0] no_refusal_grants [OF n] obtain s1 where
    s1: "cJSON_CreateObject s = Ret (Some ?y, s1)" "grows 1 s s1"
      "rep s1 ?y (Item cJSON_Object None 0 (DNum False 0) None []) {?y}" "detached s1 ?y" by blast
  have t1: "touches {} 1 s s1" using grows_touches [OF s1(2)] .
  have n1: "no_refusal s1" using touches_no_refusal [OF n t1] .
  have c: "cstring ''path''" "cstring ''operation''" by (simp_all add: cstring_def)
  from AddStringToObject_rep [OF _ _ s1(3) c(1) p] no_refusal_grants [OF n1] obtain s2 F2 where
    s2: "cJSON_AddStringToObject (Some ?y) (Some (Lit ''path'')) (Some (Lit p)) s1 = Ret (Some (brk s1), s2)"
      "rep s2 ?y (Item cJSON_Object None 0 (DNum False 0) None
         [Item cJSON_String (Some p) 0 (DNum False 0) (Some ''path'') []]) F2"
      "F2 \<subseteq> {?y} \<union> {brk s1..<brk s2}" "touches {?y} 3 s1 s2" "links_kept ?y s1 s2" by force
  have n2: "no_refusal s2" using touches_no_refusal [OF n1 s2(4)] .
  from AddStringToObject_rep [OF _ _ s2(2) c(2) op_string_ok [of op]] no_refusal_grants [OF n2]
  obtain s3 F3 where
    s3: "cJSON_AddStringToObject (Some ?y) (Some (Lit ''operation''))
           (Some (Lit (operation_type_to_string op))) s2 = Ret (Some (brk s2), s3)"
      "rep s3 ?y (event_tree p op) F3" "F3 \<subseteq> F2 \<union> {brk s2..<brk s3}" "touches F2 3 s2 s3"
      "links_kept ?y s2 s3" by (force simp: event_tree_def)
  have le: "?y \<le> brk s1" "brk s1 \<le> brk s2" "brk s2 \<le> brk s3"
    using s1(2) s2(4) s3(4) by (simp_all add: grows_def touches_def)
  have fr: "x \<in> F2 \<Longrightarrow> x \<notin> in_use s" "x \<in> F3 \<Longrightarrow> x \<notin> in_use s" "?y \<notin> in_use s" for x
    using in_use_fresh [OF wf] s2(3) s3(3) le by fastforce+
  have "touches ({} \<union> {?y} \<inter> in_use s \<union> F2 \<inter> in_use s) (1 + 3 + 3) s s3"
    by (rule touches_trans [OF touches_trans [OF t1 s2(4) wf] s3(4) wf])
  moreover have "{} \<union> {?y} \<inter> in_use s \<union> F2 \<inter> in_use s = {}" using fr by blast
  ultimately have "touches {} 7 s s3" by simp
  moreover have "detached s3 ?y"
    using s1(4) s2(5) s3(5) by (auto simp: detached_def links_kept_def)
  moreover have "F3 \<inter> in_use s = {}" using fr(2) by blast
  ultimately show ?thesis using s1(1) s2(1) s3(1,2) by blast
qed

lemma add_event_building:
  assumes b: "building s j e ts" and n: "no_refusal s" and p: "cstring p"
  shows "\<exists>s'. add_event (Some e) p op s = Ret ((), s') \<and> no_refusal s' \<and>
    building s' j e (ts @ [event_tree p op])"
proof -
  let ?y = "brk s"
  from b obtain nj F where j: "nodes s j = Some nj" "node_ok s j nj None None" "detached s j"
      "n_ty nj = cJSON_Object" "n_vi nj = 0" "n_vd nj = DNum False 0" "own_foot j nj = {j}"
      "items_of s j [e]" and e: "rep s e (events_array ts) F" "j \<notin> F"
    by (auto simp: building_def)
  from event_object [OF n p, of op] obtain s1 s2 s3 G a b' where
    o: "cJSON_CreateObject s = Ret (Some ?y, s1)"
    "cJSON_AddStringToObject (Some ?y) (Some (Lit ''path'')) (Some (Lit p)) s1 = Ret (a, s2)"
    "cJSON_AddStringToObject (Some ?y) (Some (Lit ''operation''))
      (Some (Lit (operation_type_to_string op))) s2 = Ret (b', s3)"
    and y: "rep s3 ?y (event_tree p op) G" "G \<inter> in_use s = {}" "detached s3 ?y" "touches {} 7 s s3"
    by blast
  have e3: "rep s3 e (events_array ts) F" using touches_frame [OF y(4) e(1)] by simp
  have FG: "F \<inter> G = {}" using rep_in_use(1) [OF e(1)] y(2) by blast
  from add_item_to_array_rep [OF e3 [unfolded events_array_def] y(1) FG y(3)] obtain s' where
    s': "add_item_to_array (Some e) (Some ?y) s3 = Ret (True, s')"
      "rep s' e (events_array (ts @ [event_tree p op])) (F \<union> G)" "added e (F \<union> G) s3 s'"
    by (auto simp: events_array_def)
  have run: "add_event (Some e) p op s = Ret ((), s')"
    using o s'(1) by (simp add: add_event_def cJSON_AddItemToArray_def)
  have n3: "no_refusal s3" using touches_no_refusal [OF n y(4)] .
  then have "touches (F \<union> G) 0 s3 s'" using added_touches [OF _ s'(3)] by (simp add: no_refusal_def)
  from touches_no_refusal [OF n3 this] have n': "no_refusal s'" .
  have ju: "j \<in> in_use s" using j(1) by (simp add: in_use_def)
  then have jG: "j \<notin> F \<union> G" using e(2) y(2) by blast
  have ag: "agree (in_use s) s s3" using y(4) by (simp add: touches_def)
  have jn: "nodes s' j = Some nj"
    using ju jG ag s'(3) j(1) by (simp add: added_def agree_def)
  have eu: "e \<in> in_use s" using rep_in_use(1) [OF e(1)] rep_in_foot [OF e(1)] by blast
  obtain ne c where ne: "nodes s3 e = Some ne" "nodes s' e = Some (ne\<lparr>n_child := c\<rparr>)"
    using s'(3) by (auto simp: added_def)
  have "nodes s e = Some ne" using ag eu ne(1) by (simp add: agree_def)
  with j(1,8) jn ne(2) have "items_of s' j [e]" by (auto simp: items_of_def chained_def)
  moreover have "node_ok s' j nj None None"
    using j(2) by (auto simp: node_ok_def shows_text_def split: option.splits)
  moreover have "detached s' j" using j(1,3) jn by (auto simp: detached_def)
  ultimately have "building s' j e (ts @ [event_tree p op])"
    using jn j s'(2) jG unfolding building_def by blast
  with run n' show ?thesis by blast
qed

lemma start_building:
  assumes n: "no_refusal s"
  shows "\<exists>j e s1 s2 s3. cJSON_CreateObject s = Ret (Some j, s1) \<and>
    cJSON_CreateArray s1 = Ret (Some e, s2) \<and>
    cJSON_AddItemToObject (Some j) (Some (Lit ''events'')) (Some e) s2 = Ret (True, s3) \<and>
    no_refusal s3 \<and> building s3 j e []"
proof -
  let ?j = "brk s"
  from CreateObject_rep [of s 0] no_refusal_grants [OF n] obtain s1 where
    s1: "cJSON_CreateObject s = Ret (Some ?j, s1)" "grows 1 s s1"
      "rep s1 ?j (Item cJSON_Object None 0 (DNum False 0) None []) {?j}" "detached s1 ?j" by blast
  have n1: "no_refusal s1" using touches_no_refusal [OF n grows_touches [OF s1(2)]] .
  let ?e = "brk s1"
  from CreateArray_rep [of s1 0] no_refusal_grants [OF n1] obtain s2 where
    s2: "cJSON_CreateArray s1 = Ret (Some ?e, s2)" "grows 1 s1 s2"
      "rep s2 ?e (Item cJSON_Array None 0 (DNum False 0) None []) {?e}" "detached s2 ?e" by blast
  have n2: "no_refusal s2" using touches_no_refusal [OF n1 grows_touches [OF s2(2)]] .
  have j2: "rep s2 ?j (Item cJSON_Object None 0 (DNum False 0) None []) {?j}"
    using grows_frame [OF s2(2) s1(3)] .
  have ju: "?j \<in> in_use s1" using rep_in_use(1) [OF s1(3)] by blast
  then have je: "?j \<noteq> ?e" using in_use_fresh [OF _ ju] n1 by (simp add: no_refusal_def)
  have dj: "detached s2 ?j" using s1(4) s2(2) ju by (auto simp: detached_def grows_def agree_def)
  from add_item_to_object_rep [OF _ _ j2 s2(3) _ s2(4), of 0 "Lit ''events''" "''events''"]
    no_refusal_grants [OF n2] je
  obtain s3 where s3: "add_item_to_object (Some ?j) (Some (Lit ''events'')) (Some ?e) False s2 = Ret (True, s3)"
      "rep s3 ?j (message_tree []) ({?j} \<union> insert (brk s2) {?e})" "touches ({?j} \<union> {?e}) 1 s2 s3"
      "links_kept ?j s2 s3" "\<And>xs. items_of s2 ?j xs \<Longrightarrow> items_of s3 ?j (xs @ [?e])"
    by (auto simp: text_at_def message_tree_def events_array_def)
  have n3: "no_refusal s3" using touches_no_refusal [OF n2 s3(3)] .
  from s3(2) obtain nj xs F where nj: "nodes s3 ?j = Some nj" "n_ty nj = cJSON_Object" "n_vi nj = 0"
      "n_vd nj = DNum False 0" "node_ok s3 ?j nj None None" "items_of s3 ?j xs"
      "reps s3 xs [events_array []] F" "own_foot ?j nj \<inter> F = {}"
    by (auto simp: rep_iff message_tree_def)
  have "length xs = 1" using reps_length [OF nj(7)] by simp
  then obtain e' where e': "xs = [e']" by (cases xs) auto
  with nj(7) have e'': "rep s3 e' (events_array []) F" by (auto elim!: reps_consE)
  have own: "own_foot ?j nj = {?j}"
    using nj(5) by (auto simp: node_ok_def own_foot_def str_foot_def shows_text_def split: option.splits)
  have "items_of s2 ?j []" using j2 by (auto simp: rep_iff elim: reps.cases)
  from items_unique [OF s3(5) [OF this] nj(6)] e'(1) have "?e = e'" by simp
  then have "building s3 ?j ?e []"
    unfolding building_def using nj own e' e'' dj s3(4) by (auto simp: detached_def links_kept_def)
  then show ?thesis using s1(1) s2(1) s3(1) n3 by (auto simp: cJSON_AddItemToObject_def)
qed

section \<open>What the kernel writes\<close>

text \<open>The documented layout of an event with directory and name: the header, a record with the
  handle of the directory and the name of the entry, padded, and further records of other types
  (the handle of the object itself).\<close>

fun le_bytes :: "nat \<Rightarrow> nat \<Rightarrow> char list" where
  "le_bytes 0 v = []"
| "le_bytes (Suc n) v = char_of (v mod 256) # le_bytes n (v div 256)"

record fs_event =
  ev_mask :: nat
  ev_pid :: nat
  ev_fsid :: "char list"
  ev_htype :: "char list"
  ev_handle :: "char list"
  ev_name :: string
  ev_pad :: nat
  ev_others :: "(char \<times> char list) list"

definition handle_bytes_of :: "fs_event \<Rightarrow> char list" where
  "handle_bytes_of ev = le_bytes 4 (length (ev_handle ev)) @ ev_htype ev @ ev_handle ev"

definition name_body :: "fs_event \<Rightarrow> char list" where
  "name_body ev = ev_fsid ev @ handle_bytes_of ev @ ev_name ev @ [NUL] @ replicate (ev_pad ev) NUL"

definition encode_name :: "fs_event \<Rightarrow> char list" where
  "encode_name ev = [CHR 0x02, CHR 0x00] @ le_bytes 2 (4 + length (name_body ev)) @ name_body ev"

definition encode_other :: "char \<times> char list \<Rightarrow> char list" where
  "encode_other r = [fst r, CHR 0x00] @ le_bytes 2 (4 + length (snd r)) @ snd r"

definition encode_infos :: "fs_event \<Rightarrow> char list" where
  "encode_infos ev = encode_name ev @ concat (map encode_other (ev_others ev))"

definition encode_event :: "fs_event \<Rightarrow> char list" where
  "encode_event ev = le_bytes 4 (24 + length (encode_infos ev)) @ [CHR 0x03, CHR 0x00] @ le_bytes 2 24 @
     le_bytes 8 (ev_mask ev) @ le_bytes 4 (2 ^ 32 - 1) @ le_bytes 4 (ev_pid ev) @ encode_infos ev"

definition wf_event :: "fs_event \<Rightarrow> bool" where
  "wf_event ev \<longleftrightarrow> ev_mask ev < 2 ^ 64 \<and> length (ev_fsid ev) = 8 \<and> length (ev_htype ev) = 4 \<and>
     cstring (ev_name ev) \<and> length (encode_event ev) < 2 ^ 16 \<and>
     (\<forall>r \<in> set (ev_others ev). fst r \<noteq> CHR 0x02)"

text \<open>The bytes \<open>bs\<close> lie at offset \<open>off\<close> of the object \<open>mem\<close>.\<close>

definition placed :: "char list \<Rightarrow> nat \<Rightarrow> char list \<Rightarrow> bool" where
  "placed mem off bs \<longleftrightarrow> off + length bs \<le> length mem \<and> take (length bs) (drop off mem) = bs"

lemma length_le_bytes [simp]: "length (le_bytes n v) = n"
  by (induction n arbitrary: v) auto

lemma le_le_bytes: "le (le_bytes n v) = v mod 256 ^ n"
proof (induction n arbitrary: v)
  case (Suc n)
  have "v mod 256 ^ Suc n = v mod 256 + 256 * (v div 256 mod 256 ^ n)"
    by (simp add: mod_mult2_eq)
  with Suc show ?case by simp
qed simp

lemma le_bytes_le [simp]: "v < 256 ^ n \<Longrightarrow> le (le_bytes n v) = v"
  by (simp add: le_le_bytes)

lemma placed_append: "placed mem off (xs @ ys) \<longleftrightarrow> placed mem off xs \<and> placed mem (off + length xs) ys"
proof
  assume a: "placed mem off (xs @ ys)"
  then have l: "off + (length xs + length ys) \<le> length mem"
    and t: "take (length xs + length ys) (drop off mem) = xs @ ys" by (auto simp: placed_def)
  from t have "take (length xs) (take (length xs + length ys) (drop off mem)) = xs" by simp
  then have "take (length xs) (drop off mem) = xs" by (simp add: min_def)
  moreover from t have "drop (length xs) (take (length xs + length ys) (drop off mem)) = ys" by simp
  then have "take (length ys) (drop (off + length xs) mem) = ys" by (simp add: drop_take add.commute)
  ultimately show "placed mem off xs \<and> placed mem (off + length xs) ys" using l by (simp add: placed_def)
next
  assume "placed mem off xs \<and> placed mem (off + length xs) ys"
  then show "placed mem off (xs @ ys)" by (auto simp: placed_def take_add add.commute)
qed

lemma placed_Nil [simp]: "placed mem off [] \<longleftrightarrow> off \<le> length mem"
  by (simp add: placed_def)

lemma placed_Cons: "placed mem off (x # xs) \<longleftrightarrow> off < length mem \<and> mem ! off = x \<and> placed mem (Suc off) xs"
proof -
  have "placed mem off [x] \<longleftrightarrow> off < length mem \<and> mem ! off = x"
    by (auto simp: placed_def take_Suc_conv_app_nth hd_drop_conv_nth take_Suc)
  then show ?thesis using placed_append [of mem off "[x]" xs] by simp
qed

lemma load_placed: "placed mem off bs \<Longrightarrow> length bs = n \<Longrightarrow> load mem off n = Ret bs"
  by (auto simp: placed_def load_def)

lemma load_le_placed: "placed mem off bs \<Longrightarrow> length bs = n \<Longrightarrow> load_le mem off n = Ret (le bs)"
  by (simp add: load_le_def load_placed)

lemma cstr_placed:
  assumes "placed mem off (s @ [NUL])" and "cstring s"
  shows "cstr_from (drop off mem) = Ret s"
proof -
  have "drop off mem = take (length s + 1) (drop off mem) @ drop (length s + 1) (drop off mem)"
    by (rule append_take_drop_id [symmetric])
  also have "take (length s + 1) (drop off mem) = s @ [NUL]" using assms(1) by (simp add: placed_def)
  finally have "drop off mem = s @ NUL # drop (length s + 1) (drop off mem)" by simp
  then show ?thesis using assms(2) by (metis cstr_from_app)
qed

text \<open>The kernel opens the handle and the descriptor's link names the directory \<open>d\<close>.\<close>

definition resolves :: "kernel \<Rightarrow> int \<Rightarrow> char list \<Rightarrow> string \<Rightarrow> bool" where
  "resolves k mount_fd handle d \<longleftrightarrow> cstring d \<and> length d < 2 ^ 31 \<and>
     (\<forall>h. let h1 = Open_by_handle mount_fd handle # h; p = fd_link (rv (k h1)) in
        rv (k h1) \<noteq> -1 \<and> links_to k p d h1 \<and> length (bytes (k (Lstat p # h1))) < 2 ^ 32)"

lemma dfid_name_decodes:
  assumes pl: "placed mem info (encode_name ev)" and wf: "wf_event ev"
    and r: "resolves k mfd (handle_bytes_of ev) d" and m: "no_alloc_fails m"
  shows "\<exists>h' m'. dfid_name k mem mfd info h m = Ret (Some (d @ ''/'' @ ev_name ev), h', m') \<and>
    live m' = live m + 1 \<and> fails m' = fails m"
proof -
  let ?h1 = "Open_by_handle mfd (handle_bytes_of ev) # h"
  let ?fd = "rv (k ?h1)" and ?n = "length (ev_handle ev)"
  have lens: "length (ev_fsid ev) = 8" "length (ev_htype ev) = 4" "cstring (ev_name ev)" "?n < 2 ^ 16"
    using wf by (auto simp: wf_event_def encode_event_def encode_infos_def encode_name_def
        name_body_def handle_bytes_of_def)
  have hl: "length (handle_bytes_of ev) = 8 + ?n" using lens by (simp add: handle_bytes_of_def)
  have hp: "placed mem (info + 12) (handle_bytes_of ev)"
    and np: "placed mem (info + 12 + (8 + ?n)) (ev_name ev @ [NUL])"
    using pl lens hl by (simp_all add: encode_name_def name_body_def placed_append placed_Cons ac_simps)
  have "placed mem (info + 12) (le_bytes 4 ?n)"
    using hp by (simp add: handle_bytes_of_def placed_append)
  from load_le_placed [OF this] lens(4) have b: "load_le mem (info + 12) 4 = Ret ?n" by simp
  have t: "take (8 + ?n) (drop (info + 12) mem) = handle_bytes_of ev"
    using hp hl by (simp add: placed_def)
  have c: "cstr_from (drop (info + 12 + 8 + ?n) mem) = Ret (ev_name ev)"
    using cstr_placed [OF np lens(3)] by (simp add: add.assoc)
  have rr: "?fd \<noteq> -1" "links_to k (fd_link ?fd) d ?h1" "length d < 2 ^ 31"
      "length (bytes (k (Lstat (fd_link ?fd) # ?h1))) < 2 ^ 32"
    using r unfolding resolves_def Let_def by blast+
  from readlink_whole [OF rr(2,3) m rr(4)] obtain us m2 where
    s: "safe_readlink k (fd_link ?fd) ?h1 m = Ret (int (length d), Some d, us @ ?h1, m2)"
      "live m2 = live m + 1" "fails m2 = fails m" by blast
  have m2: "no_alloc_fails m2" using m s(3) by (simp add: no_alloc_fails_def)
  show ?thesis
    using b t c rr(1) s alloc_succeeds [OF m2]
    by (simp add: dfid_name_def INFO_LEN_def HANDLE_LEN_def sys_def Let_def)
qed

lemma byte_at: "placed mem off (c # rest) \<Longrightarrow> load_le mem off 1 = Ret (of_char c)"
  using load_le_placed [of mem off "[c]" 1] by (simp add: placed_Cons)

lemma filepath_others:
  "\<lbrakk>placed mem info (concat (map encode_other rs)); \<forall>r \<in> set rs. fst r \<noteq> CHR 0x02;
    length (concat (map encode_other rs)) < 2 ^ 16; length rs < fuel\<rbrakk> \<Longrightarrow>
   filepath_loop k mem mfd (info + length (concat (map encode_other rs))) fuel info full h m =
     Ret (full, h, m)"
proof (induction rs arbitrary: info fuel)
  case Nil
  then show ?case by (cases fuel) auto
next
  case (Cons r rs)
  obtain f where f: "fuel = Suc f" "length rs < f" using Cons.prems(4) by (cases fuel) auto
  let ?l = "4 + length (snd r)"
  have lr: "length (encode_other r) = ?l" by (simp add: encode_other_def)
  have "placed mem info (encode_other r)" "placed mem (info + ?l) (concat (map encode_other rs))"
    using Cons.prems(1) lr by (simp_all add: placed_append)
  then have pl: "placed mem info (fst r # CHR 0x00 # le_bytes 2 ?l @ snd r)"
      "placed mem (info + ?l) (concat (map encode_other rs))"
    by (simp_all add: encode_other_def)
  have ty: "load_le mem info 1 = Ret (of_char (fst r))" using byte_at [OF pl(1)] .
  have "placed mem (info + 2) (le_bytes 2 ?l)" using pl(1) by (simp add: placed_append placed_Cons)
  from load_le_placed [OF this] have len: "load_le mem (info + 2) 2 = Ret ?l"
    using Cons.prems(3) by (simp add: encode_other_def)
  have "fst r \<noteq> CHR 0x02" using Cons.prems(2) by simp
  then have nt: "of_char (fst r) \<noteq> (2 :: nat)"
    using of_char_eqI [of "fst r" "CHR 0x02", where ?'a = nat] by auto
  have lim: "length (concat (map encode_other rs)) < 2 ^ 16" using Cons.prems(3) by simp
  show ?case
    using f ty len nt Cons.IH [OF pl(2) _ lim f(2)] Cons.prems(2)
    by (simp add: FAN_EVENT_INFO_TYPE_DFID_NAME_def lr ac_simps)
qed


lemma header_fields:
  assumes "length A = 4" and "length B = 2" and "length C = 8" and "length D = 4"
  shows "take 4 (A @ [x, y] @ B @ C @ D @ E) = A" and "(A @ [x, y] @ B @ C @ D @ E) ! 4 = x"
    and "take 8 (drop 8 (A @ [x, y] @ B @ C @ D @ E)) = C"
    and "take 4 (drop 16 (A @ [x, y] @ B @ C @ D @ E)) = D"
  using assms by (simp_all add: nth_append)

lemma header_decodes:
  assumes "placed mem off (encode_event ev)" and "wf_event ev"
  shows "read_metadata mem off = Ret \<lparr>event_len = length (encode_event ev), vers = 3,
    mask = ev_mask ev, meta_fd = -1\<rparr>"
proof -
  let ?len = "length (encode_event ev)"
  let ?bs = "le_bytes 4 ?len @ [CHR 0x03, CHR 0x00] @ le_bytes 2 24 @ le_bytes 8 (ev_mask ev) @
     le_bytes 4 (2 ^ 32 - 1) @ le_bytes 4 (ev_pid ev)"
  have e: "encode_event ev = ?bs @ encode_infos ev" by (simp add: encode_event_def)
  have "placed mem off (?bs @ encode_infos ev)" using assms(1) by (subst (asm) e)
  then have "placed mem off ?bs" by (rule placed_append [THEN iffD1, THEN conjunct1])
  then have l: "load mem off METADATA_LEN = Ret ?bs" by (rule load_placed) (simp add: METADATA_LEN_def)
  have b: "?len < 256 ^ 4" "ev_mask ev < 256 ^ 8" using assms(2) by (simp_all add: wf_event_def)
  note f = header_fields [of "le_bytes 4 ?len" "le_bytes 2 24" "le_bytes 8 (ev_mask ev)"
      "le_bytes 4 (2 ^ 32 - 1)" "CHR 0x03" "CHR 0x00" "le_bytes 4 (ev_pid ev)"]
  have v: "le (le_bytes 4 (2 ^ 32 - 1)) = 2 ^ 32 - 1" by (rule le_bytes_le) simp
  show ?thesis using b
    by (simp only: read_metadata_def l bnd.simps f length_le_bytes le_bytes_le v)
      (simp add: signed32_def)
qed

text \<open>The path that the program computes for an event of the kernel.\<close>

definition path_of :: "(char list \<Rightarrow> string) \<Rightarrow> fs_event \<Rightarrow> string" where
  "path_of dir ev = dir (handle_bytes_of ev) @ ''/'' @ ev_name ev"

lemma others_length: "length rs \<le> length (concat (map encode_other rs))"
  by (induction rs) (auto simp: encode_other_def)

lemma filepath_decodes:
  assumes pl: "placed mem off (encode_event ev)" and wf: "wf_event ev"
    and r: "resolves k mfd (handle_bytes_of ev) (dir (handle_bytes_of ev))" and m: "no_alloc_fails m"
  shows "\<exists>h' m'. filepath_from_fanotify_even_metadata k mem off mfd h m =
      Ret (Some (path_of dir ev), h', m') \<and> live m' = live m + 1 \<and> fails m' = fails m"
proof -
  let ?os = "concat (map encode_other (ev_others ev))"
  let ?nl = "length (encode_name ev)"
  have el: "length (encode_event ev) = 24 + (?nl + length ?os)"
    by (simp add: encode_event_def encode_infos_def)
  have small: "length (encode_event ev) < 2 ^ 16" using wf by (simp add: wf_event_def)
  have "placed mem (off + 24) (encode_name ev @ ?os)"
    using pl by (simp add: encode_event_def encode_infos_def placed_append placed_Cons ac_simps)
  then have np: "placed mem (off + 24) (encode_name ev)" and op: "placed mem (off + 24 + ?nl) ?os"
    by (simp_all add: placed_append)
  obtain h1 m1 where
    d: "dfid_name k mem mfd (off + 24) h m = Ret (Some (path_of dir ev), h1, m1)"
       "live m1 = live m + 1" "fails m1 = fails m"
    unfolding path_of_def using dfid_name_decodes [OF np wf r m, of h] by blast
  have nb: "?nl = 4 + length (name_body ev)" by (simp add: encode_name_def)
  have "encode_name ev = CHR 0x02 # CHR 0x00 # le_bytes 2 ?nl @ name_body ev"
    by (simp only: nb) (simp only: encode_name_def append_Cons append_Nil)
  then have np': "placed mem (off + 24) (CHR 0x02 # CHR 0x00 # le_bytes 2 ?nl @ name_body ev)"
    using np by metis
  have ty: "load_le mem (off + 24) 1 = Ret 2" using byte_at [OF np'] by simp
  have "placed mem (off + 24 + 2) (le_bytes 2 ?nl)" using np' by (simp add: placed_append placed_Cons)
  from load_le_placed [OF this] have len: "load_le mem (off + 24 + 2) 2 = Ret ?nl"
    using small el by simp
  have fl: "length (ev_others ev) < length mem"
    using others_length [of "ev_others ev"] op nb by (simp add: placed_def)
  have "filepath_loop k mem mfd (off + 24 + ?nl + length ?os) (length mem) (off + 24 + ?nl)
      (Some (path_of dir ev)) h1 m1 = Ret (Some (path_of dir ev), h1, m1)"
    using small el wf fl by (intro filepath_others op) (auto simp: wf_event_def)
  moreover have "0 < ?nl" using nb by simp
  ultimately have "filepath_loop k mem mfd (off + 24 + (?nl + length ?os)) (Suc (length mem)) (off + 24)
      None h m = Ret (Some (path_of dir ev), h1, m1)"
    using ty len d(1) by (simp add: FAN_EVENT_INFO_TYPE_DFID_NAME_def ac_simps)
  then have "filepath_from_fanotify_even_metadata k mem off mfd h m =
      Ret (Some (path_of dir ev), h1, m1)"
    using header_decodes [OF pl wf] el
    by (simp add: filepath_from_fanotify_even_metadata_def METADATA_LEN_def ac_simps
        del: filepath_loop.simps)
  with d show ?thesis by blast
qed

section \<open>From the events to the message\<close>

text \<open>What the message must contain: the events whose path lies below the watched directory, in
  order, each with its path and its kind.\<close>

definition reported :: "(char list \<Rightarrow> string) \<Rightarrow> string \<Rightarrow> fs_event list \<Rightarrow> cjson list" where
  "reported dir compare_path evs =
     map (\<lambda>ev. event_tree (path_of dir ev) (classify (ev_mask ev)))
       (filter (\<lambda>ev. below compare_path (path_of dir ev)) evs)"

definition all_resolve :: "kernel \<Rightarrow> int \<Rightarrow> (char list \<Rightarrow> string) \<Rightarrow> fs_event list \<Rightarrow> bool" where
  "all_resolve k mfd dir evs \<longleftrightarrow> (\<forall>ev \<in> set evs. wf_event ev \<and>
     resolves k mfd (handle_bytes_of ev) (dir (handle_bytes_of ev)))"

lemma one_event_step:
  assumes pl: "placed mem off (encode_event ev)" and wf: "wf_event ev"
    and r: "resolves k mfd (handle_bytes_of ev) (dir (handle_bytes_of ev))"
    and m: "no_alloc_fails (heap c)" and n: "no_refusal (items c)" and b: "building (items c) j e ts"
  shows "\<exists>c'. one_event k mem mfd cp (Some e) off \<lparr>event_len = length (encode_event ev), vers = 3,
      mask = ev_mask ev, meta_fd = -1\<rparr> c = Ret (True, c') \<and>
    building (items c') j e (ts @ reported dir cp [ev]) \<and> no_refusal (items c') \<and>
    no_alloc_fails (heap c') \<and> live (heap c') = live (heap c)"
proof -
  from filepath_decodes [where dir = dir, OF pl wf r m, of "hist c"] obtain h1 m1 where
    f: "filepath_from_fanotify_even_metadata k mem off mfd (hist c) (heap c) =
          Ret (Some (path_of dir ev), h1, m1)" "live m1 = live (heap c) + 1" "fails m1 = fails (heap c)"
    by blast
  have m1: "no_alloc_fails (dealloc m1)" using m f(3) by (simp add: no_alloc_fails_def)
  show ?thesis
  proof (cases "below cp (path_of dir ev)")
    case False
    then show ?thesis using f m1 n b
      by (simp add: one_event_def FANOTIFY_METADATA_VERSION_def FAN_NOFD_def reported_def Let_def)
  next
    case True
    have "cstring (path_of dir ev)" using r wf by (simp add: path_of_def resolves_def wf_event_def)
    from add_event_building [OF b n this, of "classify (ev_mask ev)"] obtain s' where
      "add_event (Some e) (path_of dir ev) (classify (ev_mask ev)) (items c) = Ret ((), s')"
      "no_refusal s'" "building s' j e (ts @ [event_tree (path_of dir ev) (classify (ev_mask ev))])"
      by blast
    then show ?thesis using f m1 True
      by (simp add: one_event_def FANOTIFY_METADATA_VERSION_def FAN_NOFD_def reported_def Let_def)
  qed
qed

lemma events_loop_decodes:
  "\<lbrakk>placed mem off (concat (map encode_event evs)); all_resolve k mfd dir evs;
    off + length (concat (map encode_event evs)) + METADATA_LEN \<le> length mem; length evs < fuel;
    no_alloc_fails (heap c); no_refusal (items c); building (items c) j e ts\<rbrakk> \<Longrightarrow>
   \<exists>c'. events_loop k mem mfd cp (Some e) fuel off (int (length (concat (map encode_event evs)))) c =
      Ret (True, c') \<and> building (items c') j e (ts @ reported dir cp evs) \<and> no_refusal (items c') \<and>
      no_alloc_fails (heap c') \<and> live (heap c') = live (heap c)"
proof (induction evs arbitrary: off fuel c ts)
  case Nil
  then obtain f where "fuel = Suc f" by (cases fuel) auto
  then show ?case using Nil
    by (auto simp: read_metadata_def load_def FAN_EVENT_OK_def METADATA_LEN_def reported_def)
next
  case (Cons ev evs)
  obtain f where f: "fuel = Suc f" "length evs < f" using Cons.prems(4) by (cases fuel) auto
  let ?n = "length (encode_event ev)" and ?rest = "concat (map encode_event evs)"
  have pl: "placed mem off (encode_event ev)" "placed mem (off + ?n) ?rest"
    using Cons.prems(1) by (simp_all add: placed_append)
  have wf: "wf_event ev" "resolves k mfd (handle_bytes_of ev) (dir (handle_bytes_of ev))"
      "all_resolve k mfd dir evs" using Cons.prems(2) by (simp_all add: all_resolve_def)
  let ?meta = "\<lparr>event_len = ?n, vers = 3, mask = ev_mask ev, meta_fd = -1\<rparr>"
  have n24: "24 \<le> ?n" by (simp add: encode_event_def)
  have ok: "FAN_EVENT_OK ?meta (int (length (concat (map encode_event (ev # evs)))))"
    using n24 by (simp add: FAN_EVENT_OK_def METADATA_LEN_def)
  from one_event_step [where dir = dir, OF pl(1) wf(1,2) Cons.prems(5-7), of cp] obtain c1 where
    c1: "one_event k mem mfd cp (Some e) off ?meta c = Ret (True, c1)"
      "building (items c1) j e (ts @ reported dir cp [ev])" "no_refusal (items c1)"
      "no_alloc_fails (heap c1)" "live (heap c1) = live (heap c)" by blast
  have len: "off + ?n + length ?rest + METADATA_LEN \<le> length mem" using Cons.prems(3) by simp
  from Cons.IH [OF pl(2) wf(3) len f(2) c1(4,3,2)] obtain c' where
    c': "events_loop k mem mfd cp (Some e) f (off + ?n) (int (length ?rest)) c1 = Ret (True, c')"
      "building (items c') j e ((ts @ reported dir cp [ev]) @ reported dir cp evs)"
      "no_refusal (items c')" "no_alloc_fails (heap c')" "live (heap c') = live (heap c1)" by blast
  have "(ts @ reported dir cp [ev]) @ reported dir cp evs = ts @ reported dir cp (ev # evs)"
    by (simp add: reported_def)
  then show ?case
    using f(1) header_decodes [OF pl(1) wf(1)] ok c1(1,5) c' by simp
qed

text \<open>The number of children shows in the size of the array.\<close>

lemma building_size:
  assumes "building s j e ts" and "wf_store s" and "length ts < 2 ^ 31"
  shows "cJSON_GetArraySize (Some e) s = Ret (int (length ts), s)"
proof -
  from assms(1) obtain F where "rep s e (events_array ts) F" by (auto simp: building_def)
  then obtain xs G where xs: "items_of s e xs" "reps s xs ts G" by (auto simp: events_array_def rep_iff)
  have "length xs = length ts" using reps_length [OF xs(2)] by simp
  then show ?thesis using GetArraySize_list [OF assms(2) xs(1)] assms(3) by simp
qed

text \<open>A read of the descriptor that delivers these events.\<close>

definition delivers :: "kernel \<Rightarrow> int \<Rightarrow> fs_event list \<Rightarrow> history \<Rightarrow> bool" where
  "delivers k event_fd evs h \<longleftrightarrow> (let r = k (Read event_fd BUF_SIZE # h) in
     bytes r = concat (map encode_event evs) \<and> rv r = int (length (bytes r)))"

lemma read_events_decodes:
  assumes "delivers k event_fd evs (hist c)" and "all_resolve k fs_fd dir evs"
    and "length (concat (map encode_event evs)) + METADATA_LEN \<le> BUF_SIZE"
    and "BUF_SIZE \<le> length stack" and "no_alloc_fails (heap c)" and "no_refusal (items c)"
  shows "\<exists>out c'. read_events k stack event_fd fs_fd compare_path c = Ret (out, c') \<and>
    live (heap c') = live (heap c) \<and> no_alloc_fails (heap c') \<and>
    (if reported dir compare_path evs = [] then out = Nothing
     else \<exists>j F. out = Queue (Some j) \<and> rep (items c') j (message_tree (reported dir compare_path evs)) F \<and>
       detached (items c') j \<and> wf_store (items c'))"
proof -
  let ?r = "k (Read event_fd BUF_SIZE # hist c)" and ?all = "concat (map encode_event evs)"
  let ?mem = "take BUF_SIZE (bytes ?r @ drop (length (bytes ?r)) stack)"
  let ?c1 = "c\<lparr>hist := Read event_fd BUF_SIZE # hist c\<rparr>"
  have r: "bytes ?r = ?all" "rv ?r = int (length ?all)"
    using assms(1) by (simp_all add: delivers_def Let_def)
  have ml: "length ?mem = BUF_SIZE" using r(1) assms(3,4) by (simp add: METADATA_LEN_def)
  have fits: "length ?all \<le> BUF_SIZE" using assms(3) by simp
  have pl: "placed ?mem 0 ?all" using r(1) fits ml by (simp add: placed_def min_def)
  have many: "length evs \<le> length ?all"
    by (induction evs) (auto simp: encode_event_def)
  from start_building [OF assms(6)] obtain j e s1 s2 s3 where
    s: "cJSON_CreateObject (items c) = Ret (Some j, s1)" "cJSON_CreateArray s1 = Ret (Some e, s2)"
      "cJSON_AddItemToObject (Some j) (Some (Lit ''events'')) (Some e) s2 = Ret (True, s3)"
    and b: "no_refusal s3" "building s3 j e []" by blast
  have room: "0 + length ?all + METADATA_LEN \<le> length ?mem" using ml assms(3) by simp
  have fuel: "length evs < Suc BUF_SIZE" using many fits by simp
  from events_loop_decodes [OF pl assms(2) room fuel, of "?c1\<lparr>items := s3\<rparr>" j e "[]" compare_path]
    assms(5) b obtain c' where
    c': "events_loop k ?mem fs_fd compare_path (Some e) (Suc BUF_SIZE) 0 (int (length ?all)) (?c1\<lparr>items := s3\<rparr>)
           = Ret (True, c')"
      "building (items c') j e (reported dir compare_path evs)" "no_refusal (items c')"
      "no_alloc_fails (heap c')" "live (heap c') = live (heap c)" by auto
  have "length (reported dir compare_path evs) \<le> length evs" by (simp add: reported_def)
  then have "length (reported dir compare_path evs) < 2 ^ 31"
    using many fits by (simp add: BUF_SIZE_def)
  from building_size [OF c'(2) _ this] c'(3) have
    size: "cJSON_GetArraySize (Some e) (items c') = Ret (int (length (reported dir compare_path evs)), items c')"
    by (simp add: no_refusal_def)
  from building_rep [OF c'(2)] obtain F where
    F: "rep (items c') j (message_tree (reported dir compare_path evs)) F" "detached (items c') j" by blast
  have del: "delete_item (Some j) (items c') = Ret ((), clear F (items c'))"
    using delete_whole [OF _ F] c'(3) by (simp add: no_refusal_def)
  have rd: "sys k (Read event_fd BUF_SIZE) (hist c) = (?r, Read event_fd BUF_SIZE # hist c)"
    by (simp add: sys_def)
  have run: "read_events k stack event_fd fs_fd compare_path c =
      (if reported dir compare_path evs = [] then Ret (Nothing, c'\<lparr>items := clear F (items c')\<rparr>)
       else Ret (Queue (Some j), c'\<lparr>items := items c'\<rparr>))"
    unfolding read_events_def rd using s c'(1) size del r(2)
    by (simp add: Let_def del: events_loop.simps take_append)
  show ?thesis unfolding run using c'(3-5) F by (auto simp: no_refusal_def)
qed

text \<open>C22: the whole path from the kernel's bytes to the message. When the events of a read leave
  the last 24 bytes of the buffer free, every handle can be resolved and memory suffices, the
  message queued is the object whose member events lists exactly the events below the watched
  directory, in the order of the kernel, each with the path made of the directory and the name
  and with its operation; when there is none, nothing is queued. The
  program's own allocations are balanced.\<close>

theorem read_events_message:
  assumes "delivers k event_fd evs (hist c)" and "all_resolve k fs_fd dir evs"
    and "length (concat (map encode_event evs)) + METADATA_LEN \<le> BUF_SIZE"
    and "BUF_SIZE \<le> length stack" and "no_alloc_fails (heap c)" and "no_refusal (items c)"
  shows "\<exists>out c'. read_events k stack event_fd fs_fd compare_path c = Ret (out, c') \<and>
    live (heap c') = live (heap c) \<and>
    (if reported dir compare_path evs = [] then out = Nothing
     else \<exists>j F. out = Queue (Some j) \<and> rep (items c') j (message_tree (reported dir compare_path evs)) F)"
  using read_events_decodes [OF assms, of compare_path] by (auto split: if_splits)

text \<open>A kernel that reports one event, a file f written in the directory d.\<close>

definition written_f :: fs_event where
  "written_f = \<lparr>ev_mask = 8, ev_pid = 0, ev_fsid = replicate 8 NUL, ev_htype = replicate 4 NUL,
     ev_handle = [], ev_name = ''f'', ev_pad = 0, ev_others = []\<rparr>"

definition one_write_kernel :: kernel where
  "one_write_kernel h = (case h of
      Read _ _ # _ \<Rightarrow> \<lparr>rv = int (length (encode_event written_f)), errno = 0, bytes = encode_event written_f\<rparr>
    | Open_by_handle _ _ # _ \<Rightarrow> \<lparr>rv = 7, errno = 0, bytes = []\<rparr>
    | Readlink _ n # _ \<Rightarrow> \<lparr>rv = int (min n (length ''/d'')), errno = 0, bytes = take n ''/d''\<rparr>
    | _ \<Rightarrow> \<lparr>rv = 0, errno = 0, bytes = []\<rparr>)"

definition first_ctx :: ctx where
  "first_ctx = \<lparr>hist = [], heap = \<lparr>fails = (\<lambda>_. False), calls = 0, live = 0\<rparr>,
     items = \<lparr>nodes = Map.empty, strs = Map.empty, brk = 0, refuse = (\<lambda>_. False), asked = 0\<rparr>\<rparr>"

lemma written_f_event: "length (encode_event written_f) = 46" "wf_event written_f"
    "reported (\<lambda>_. ''/d'') ''/d/'' [written_f] = [event_tree ''/d/f'' OP_CLOSE_FOR_WRITE]"
  by (simp_all add: wf_event_def encode_event_def encode_infos_def encode_name_def name_body_def
      handle_bytes_of_def written_f_def reported_def path_of_def below_def classify_def
      FAN_CLOSE_WRITE_def FAN_MOVED_TO_def FAN_DELETE_def FAN_MOVED_FROM_def)

lemma one_write_resolves: "resolves one_write_kernel 4 x ''/d''"
  by (simp add: resolves_def Let_def one_write_kernel_def links_to_def)

theorem read_events_message_witness:
  "\<exists>j F c'. read_events one_write_kernel (replicate 256 NUL) 3 4 ''/d/'' first_ctx = Ret (Queue (Some j), c') \<and>
     rep (items c') j (message_tree [event_tree ''/d/f'' OP_CLOSE_FOR_WRITE]) F"
proof -
  have "delivers one_write_kernel 3 [written_f] (hist first_ctx)"
    by (simp add: delivers_def one_write_kernel_def)
  moreover have "all_resolve one_write_kernel 4 (\<lambda>_. ''/d'') [written_f]"
    using one_write_resolves written_f_event(2) by (simp add: all_resolve_def)
  moreover have "no_refusal (items first_ctx)"
    by (simp add: no_refusal_def first_ctx_def wf_store_def kinds_def)
  ultimately show ?thesis
    using read_events_message [of one_write_kernel 3 "[written_f]" first_ctx 4 "\<lambda>_. ''/d''"
        "replicate 256 NUL" "''/d/''"] written_f_event
    by (auto simp: METADATA_LEN_def BUF_SIZE_def no_alloc_fails_def first_ctx_def)
qed

lemma events_loop_overruns:
  "\<lbrakk>placed mem off (concat (map encode_event evs)); all_resolve k mfd dir evs;
    length mem < off + length (concat (map encode_event evs)) + METADATA_LEN; length evs < fuel;
    no_alloc_fails (heap c); no_refusal (items c); building (items c) j e ts\<rbrakk> \<Longrightarrow>
   events_loop k mem mfd cp (Some e) fuel off (int (length (concat (map encode_event evs)))) c = Undef"
proof (induction evs arbitrary: off fuel c ts)
  case Nil
  then obtain f where "fuel = Suc f" by (cases fuel) auto
  then show ?case using Nil by (simp add: read_metadata_def load_def METADATA_LEN_def)
next
  case (Cons ev evs)
  obtain f where f: "fuel = Suc f" "length evs < f" using Cons.prems(4) by (cases fuel) auto
  let ?n = "length (encode_event ev)" and ?rest = "concat (map encode_event evs)"
  have pl: "placed mem off (encode_event ev)" "placed mem (off + ?n) ?rest"
    using Cons.prems(1) by (simp_all add: placed_append)
  have wf: "wf_event ev" "resolves k mfd (handle_bytes_of ev) (dir (handle_bytes_of ev))"
      "all_resolve k mfd dir evs" using Cons.prems(2) by (simp_all add: all_resolve_def)
  let ?meta = "\<lparr>event_len = ?n, vers = 3, mask = ev_mask ev, meta_fd = -1\<rparr>"
  have n24: "24 \<le> ?n" by (simp add: encode_event_def)
  have ok: "FAN_EVENT_OK ?meta (int (length (concat (map encode_event (ev # evs)))))"
    using n24 by (simp add: FAN_EVENT_OK_def METADATA_LEN_def)
  from one_event_step [where dir = dir, OF pl(1) wf(1,2) Cons.prems(5-7), of cp] obtain c1 where
    c1: "one_event k mem mfd cp (Some e) off ?meta c = Ret (True, c1)"
      "building (items c1) j e (ts @ reported dir cp [ev])" "no_refusal (items c1)"
      "no_alloc_fails (heap c1)" by blast
  have len: "length mem < off + ?n + length ?rest + METADATA_LEN" using Cons.prems(3) by simp
  from Cons.IH [OF pl(2) wf(3) len f(2) c1(4,3,2)] show ?case
    using f(1) header_decodes [OF pl(1) wf(1)] ok c1(1) by simp
qed

text \<open>C26: the copy of the next header is made before the remaining length is tested, so after the
  last event 24 bytes are read whatever is left: whenever the events of a read fill more than 232
  of the 256 bytes, the copy reads beyond the buffer.\<close>

theorem read_events_overruns:
  assumes "delivers k event_fd evs (hist c)" and "all_resolve k fs_fd dir evs"
    and "BUF_SIZE < length (concat (map encode_event evs)) + METADATA_LEN"
    and "length (concat (map encode_event evs)) \<le> BUF_SIZE"
    and "BUF_SIZE \<le> length stack" and "no_alloc_fails (heap c)" and "no_refusal (items c)"
  shows "read_events k stack event_fd fs_fd compare_path c = Undef"
proof -
  let ?r = "k (Read event_fd BUF_SIZE # hist c)" and ?all = "concat (map encode_event evs)"
  let ?mem = "take BUF_SIZE (bytes ?r @ drop (length (bytes ?r)) stack)"
  let ?c1 = "c\<lparr>hist := Read event_fd BUF_SIZE # hist c\<rparr>"
  have r: "bytes ?r = ?all" "rv ?r = int (length ?all)"
    using assms(1) by (simp_all add: delivers_def Let_def)
  have ml: "length ?mem = BUF_SIZE" using r(1) assms(4,5) by simp
  have pl: "placed ?mem 0 ?all" using r(1) assms(4) ml by (simp add: placed_def min_def)
  have "length evs \<le> length ?all" by (induction evs) (auto simp: encode_event_def)
  then have fuel: "length evs < Suc BUF_SIZE" using assms(4) by simp
  from start_building [OF assms(7)] obtain j e s1 s2 s3 where
    s: "cJSON_CreateObject (items c) = Ret (Some j, s1)" "cJSON_CreateArray s1 = Ret (Some e, s2)"
      "cJSON_AddItemToObject (Some j) (Some (Lit ''events'')) (Some e) s2 = Ret (True, s3)"
    and b: "no_refusal s3" "building s3 j e []" by blast
  have room: "length ?mem < 0 + length ?all + METADATA_LEN" using ml assms(3) by simp
  from events_loop_overruns [OF pl assms(2) room fuel, of "?c1\<lparr>items := s3\<rparr>" j e "[]" compare_path]
    assms(6) b have "events_loop k ?mem fs_fd compare_path (Some e) (Suc BUF_SIZE) 0 (int (length ?all))
        (?c1\<lparr>items := s3\<rparr>) = Undef" by simp
  moreover have rd: "sys k (Read event_fd BUF_SIZE) (hist c) = (?r, Read event_fd BUF_SIZE # hist c)"
    by (simp add: sys_def)
  ultimately show ?thesis unfolding read_events_def rd using s r(2)
    by (simp add: Let_def del: events_loop.simps take_append)
qed

text \<open>A single event with a name of 190 characters takes 235 bytes.\<close>

definition long_name_event :: fs_event where
  "long_name_event = written_f\<lparr>ev_name := replicate 190 CHR ''a''\<rparr>"

definition long_name_kernel :: kernel where
  "long_name_kernel h = (case h of
      Read _ _ # _ \<Rightarrow> \<lparr>rv = int (length (encode_event long_name_event)), errno = 0,
                       bytes = encode_event long_name_event\<rparr>
    | _ \<Rightarrow> one_write_kernel h)"

lemma long_name_event_length: "length (encode_event long_name_event) = 235" "wf_event long_name_event"
  by (simp_all add: wf_event_def encode_event_def encode_infos_def encode_name_def name_body_def
      handle_bytes_of_def written_f_def long_name_event_def cstring_def)

theorem read_events_overruns_witness:
  "read_events long_name_kernel (replicate 256 NUL) 3 4 ''/d/'' first_ctx = Undef"
proof -
  have "delivers long_name_kernel 3 [long_name_event] (hist first_ctx)"
    by (simp add: delivers_def long_name_kernel_def)
  moreover have "resolves long_name_kernel 4 x ''/d''" for x
    by (simp add: resolves_def Let_def long_name_kernel_def one_write_kernel_def links_to_def)
  then have "all_resolve long_name_kernel 4 (\<lambda>_. ''/d'') [long_name_event]"
    using long_name_event_length(2) by (simp add: all_resolve_def)
  moreover have "no_refusal (items first_ctx)"
    by (simp add: no_refusal_def first_ctx_def wf_store_def kinds_def)
  ultimately show ?thesis
    using read_events_overruns [of long_name_kernel 3 "[long_name_event]" first_ctx 4 "\<lambda>_. ''/d''"
        "replicate 256 NUL" "''/d/''"] long_name_event_length(1)
    by (simp add: METADATA_LEN_def BUF_SIZE_def no_alloc_fails_def first_ctx_def)
qed

end
