(* ===== verification/Watcher_Loop.thy ===== *)
theory Watcher_Loop
  imports Watcher_Event CJson_Print Uv_Run
begin

text \<open>
  The event side of watcher.c: the state the callbacks share, the array of clients, the queue of
  messages, the reference-counted buffers, every callback and main. The state extends the record of
  the loop, so a callback is an operation on the loop. A malloc of the program gives an address that
  was never used (\<open>next_block\<close>); a handle, a buffer and a request are named by their address.
\<close>

section \<open>The state\<close>

text \<open>The callbacks the program hands to libuv. \<open>Work_done\<close> is uv__work_done of the thread pool of
  libuv, which the program never uses.\<close>

datatype watcher_cb = On_fs_event | On_connection | On_writeable | Send_jsons | On_sigint | Free_handle
  | Work_done

record refcounted_uv_buffer_t =
  refcount :: int
  base :: string

text \<open>\<open>clients\<close> is the array with its capacity, -1 a free slot; an array of length 0 is a null
  pointer. A queued message is a pointer to its JSON object. \<open>sigpipe_ignored\<close> says whether the parent
  of the process had SIGPIPE ignored, which the process inherits.\<close>

record watcher = "watcher_cb uv_loop" +
  exit_code :: int
  fs_fd :: int
  compare_path :: string
  clients :: "int list"
  clients_count :: nat
  json_queue :: "nat option list"
  json_items :: store
  buffers :: "nat \<rightharpoonup> refcounted_uv_buffer_t"
  next_block :: nat
  sigpipe_ignored :: bool

type_synonym watcher_op = "watcher \<Rightarrow> watcher run"

text \<open>The addresses of the handles on the stack of main.\<close>

definition idle_handle :: nat where "idle_handle = 2"
definition poll_handle :: nat where "poll_handle = 3"
definition unix_domain_poll_handle :: nat where "unix_domain_poll_handle = 4"
definition sigint_handle :: nat where "sigint_handle = 5"
definition FIRST_BLOCK :: nat where "FIRST_BLOCK = 6"

lemmas addresses = idle_handle_def poll_handle_def unix_domain_poll_handle_def sigint_handle_def FIRST_BLOCK_def

section \<open>Reference-counted buffers\<close>

text \<open>The buffer takes over the string.\<close>

definition refcounted_uv_buffer_from_string :: "string \<Rightarrow> watcher \<Rightarrow> (nat \<times> watcher) run" where
  "refcounted_uv_buffer_from_string str s =
     (let (ok, m) = alloc (mem s); a = next_block s in
      require ok (Ret (a, s\<lparr>mem := m, next_block := Suc a,
        buffers := (buffers s)(a \<mapsto> \<lparr>refcount = 1, base = str\<rparr>)\<rparr>)))"

definition with_buffer :: "nat \<Rightarrow> (refcounted_uv_buffer_t \<Rightarrow> watcher \<Rightarrow> 'a run) \<Rightarrow> watcher \<Rightarrow> 'a run" where
  "with_buffer a f s = (case buffers s a of None \<Rightarrow> Undef | Some b \<Rightarrow> f b s)"

definition refcounted_uv_buffer_ref :: "nat \<Rightarrow> watcher_op" where
  "refcounted_uv_buffer_ref a = with_buffer a (\<lambda>b s.
     Ret (s\<lparr>buffers := (buffers s)(a \<mapsto> b\<lparr>refcount := refcount b + 1\<rparr>)\<rparr>))"

definition refcounted_uv_buffer_unref :: "nat \<Rightarrow> watcher_op" where
  "refcounted_uv_buffer_unref a = with_buffer a (\<lambda>b s.
     if refcount b - 1 = 0 then Ret (s\<lparr>buffers := (buffers s)(a := None), mem := dealloc (dealloc (mem s))\<rparr>)
     else Ret (s\<lparr>buffers := (buffers s)(a \<mapsto> b\<lparr>refcount := refcount b - 1\<rparr>)\<rparr>))"

section \<open>The queue of messages\<close>

definition loop_push_json :: "nat option \<Rightarrow> watcher_op" where
  "loop_push_json json s =
     (let (ok, m) = alloc (mem s) in
      if \<not> ok then Undef else Ret (s\<lparr>mem := m, json_queue := json_queue s @ [json]\<rparr>))"

definition loop_pop_json :: "watcher \<Rightarrow> nat option \<times> watcher" where
  "loop_pop_json s = (case json_queue s of [] \<Rightarrow> (None, s)
    | json # js \<Rightarrow> (json, s\<lparr>json_queue := js, mem := dealloc (mem s)\<rparr>))"

definition loop_has_jsons :: "watcher \<Rightarrow> bool" where
  "loop_has_jsons s \<longleftrightarrow> json_queue s \<noteq> []"

section \<open>The array of clients\<close>

text \<open>The search for the first slot that holds \<open>old\<close>, which is overwritten. \<open>None\<close>: there is none.\<close>

fun replace_first :: "int \<Rightarrow> int \<Rightarrow> int list \<Rightarrow> int list option" where
  "replace_first old new [] = None"
| "replace_first old new (c # cs) =
     (if c = old then Some (new # cs) else map_option (Cons c) (replace_first old new cs))"

definition CLIENTS_CAPACITY :: nat where "CLIENTS_CAPACITY = 4"

definition grow_clients :: "watcher_op" where
  "grow_clients s =
     (if clients s = [] then
        (let (ok, m) = alloc (mem s) in
         if \<not> ok then Undef else Ret (s\<lparr>mem := m, clients := replicate CLIENTS_CAPACITY (-1)\<rparr>))
      else if clients_count s = length (clients s) then
        (let (ok, m) = realloc (mem s) in
         if \<not> ok then Undef
         else Ret (s\<lparr>mem := m, clients := clients s @ replicate (length (clients s)) (-1)\<rparr>))
      else Ret s)"

definition loop_add_client :: "int \<Rightarrow> watcher_op" where
  "loop_add_client client s = bnd (grow_clients s) (\<lambda>s1.
     Ret (case replace_first (-1) client (clients s1) of
         Some cs \<Rightarrow> s1\<lparr>clients := cs, clients_count := clients_count s1 + 1\<rparr>
       | None \<Rightarrow> s1))"

definition loop_remove_client :: "int \<Rightarrow> watcher \<Rightarrow> watcher" where
  "loop_remove_client client s = (case replace_first client (-1) (clients s) of
       Some cs \<Rightarrow> s\<lparr>clients := cs, clients_count := clients_count s - 1\<rparr>
     | None \<Rightarrow> s)"

section \<open>Callbacks\<close>

text \<open>The memory of a handle and of the watcher inside it.\<close>

definition free_handle :: "nat \<Rightarrow> watcher_op" where
  "free_handle h = with_handle h (\<lambda>x s.
     Ret (s\<lparr>handles := (handles s)(h := None), ios := (ios s)(Io h := None), mem := dealloc (mem s)\<rparr>))"

definition UV_TERMINATE_LOOP :: "int \<Rightarrow> watcher \<Rightarrow> watcher" where
  "UV_TERMINATE_LOOP reason s = uv_stop (s\<lparr>exit_code := reason\<rparr>)"

abbreviation (input) EPIPE :: nat where "EPIPE \<equiv> 32"
abbreviation (input) SIGINT :: int where "SIGINT \<equiv> 2"

text \<open>send without MSG_NOSIGNAL: with EPIPE comes SIGPIPE, which ends a process that does not ignore
  it.\<close>

definition on_client_writeable :: "kernel \<Rightarrow> nat \<Rightarrow> watcher_op" where
  "on_client_writeable k h = with_handle h (\<lambda>x s. case h_data x of None \<Rightarrow> Undef
    | Some a \<Rightarrow> with_buffer a (\<lambda>buf s.
        let (r, s1) = uv_sys k (Send (u_fd x) (base buf)) s;
            s2 = (if rv r = -1 then loop_remove_client (u_fd x) (snd (uv_sys k (Close (u_fd x)) s1)) else s1) in
        if rv r = -1 \<and> errno r = EPIPE \<and> \<not> sigpipe_ignored s1 then Abort
        else bnd (refcounted_uv_buffer_unref a s2) (\<lambda>s3.
          bnd (uv_poll_stop k h s3) (uv_close k h (Some Free_handle)))) s)"

text \<open>The tree cJSON_Print reads, for a pointer to the first of its items. One unit of fuel per item.\<close>

definition text_opt :: "sptr option \<Rightarrow> store \<Rightarrow> string option run" where
  "text_opt p s = (case p of None \<Rightarrow> Ret None | Some q \<Rightarrow> bnd (text_at q s) (\<lambda>(t, _). Ret (Some t)))"

fun trees_at :: "nat \<Rightarrow> nat option \<Rightarrow> store \<Rightarrow> cjson list run" where
  "trees_at 0 p s = NoFuel"
| "trees_at (Suc fuel) None s = Ret []"
| "trees_at (Suc fuel) (Some a) s =
     bnd (get (Some a) s) (\<lambda>(n, _).
     bnd (text_opt (n_vs n) s) (\<lambda>vs.
     bnd (text_opt (n_name n) s) (\<lambda>nm.
     bnd (trees_at fuel (n_child n) s) (\<lambda>ts.
     bnd (trees_at fuel (n_next n) s) (\<lambda>us.
     Ret (Item (n_ty n) vs (n_vi n) (n_vd n) nm ts # us))))))"

text \<open>cJSON_Print and cJSON_Delete of a queued object: the string printed, None for a null pointer.\<close>

definition print_message :: "nat \<Rightarrow> watcher \<Rightarrow> (string option \<times> watcher) run" where
  "print_message j s =
     bnd (trees_at (Suc (brk (json_items s))) (Some j) (json_items s)) (\<lambda>ts. case ts of [] \<Rightarrow> Undef
       | t # _ \<Rightarrow> bnd (cJSON_Print (Some t) True (mem s)) (\<lambda>(str, m).
           bnd (delete_item (Some j) (json_items s)) (\<lambda>(_, items).
           Ret (str, s\<lparr>mem := m, json_items := items\<rparr>))))"

text \<open>The next client from the pointer on, which is the rest of the array from the slot it points to:
  the client and the pointer after it. The pointer is read before it is compared with the end.\<close>

fun next_client :: "int list \<Rightarrow> (int \<times> int list) run" where
  "next_client [] = Undef"
| "next_client (c # cs) = (if c = -1 then next_client cs else Ret (c, cs))"

definition send_to_client :: "kernel \<Rightarrow> nat \<Rightarrow> int \<Rightarrow> watcher_op" where
  "send_to_client k buf client s =
     (let (ok, m) = alloc (mem s); req = next_block s in
      if \<not> ok then Undef
      else bnd (uv_poll_init k req client (s\<lparr>mem := m, next_block := Suc req,
                 handles := (handles s)(req \<mapsto> raw_handle)\<rparr>)) (\<lambda>(pollret, s1).
        if pollret \<noteq> 0 then Abort
        else bnd (with_handle req (\<lambda>x s. Ret (set_handle req (x\<lparr>u_fd := client, h_data := Some buf\<rparr>) s)) s1) (\<lambda>s2.
          bnd (refcounted_uv_buffer_ref buf s2) (\<lambda>s3.
          bnd (uv_poll_start k req UV_WRITABLE (Some On_writeable) s3) (\<lambda>(_, s4). Ret s4)))))"

text \<open>The count of clients does not change in the loop.\<close>

fun send_to_clients :: "kernel \<Rightarrow> nat \<Rightarrow> nat \<Rightarrow> int list \<Rightarrow> watcher_op" where
  "send_to_clients k buf 0 cs s = Ret s"
| "send_to_clients k buf (Suc n) cs s =
     bnd (next_client cs) (\<lambda>(client, rest).
     bnd (send_to_client k buf client s) (send_to_clients k buf n rest))"

definition send_jsons :: "kernel \<Rightarrow> nat \<Rightarrow> watcher_op" where
  "send_jsons k h s = (case loop_pop_json s of
      (None, s1) \<Rightarrow> Ret s1
    | (Some json, s1) \<Rightarrow> bnd (print_message json s1) (\<lambda>(str, s2). case str of None \<Rightarrow> Undef
        | Some json_string \<Rightarrow>
          bnd (refcounted_uv_buffer_from_string json_string s2) (\<lambda>(buf, s3).
          bnd (send_to_clients k buf (clients_count s3) (clients s3) s3) (\<lambda>s4.
          bnd (refcounted_uv_buffer_unref buf s4) (\<lambda>s5.
          if loop_has_jsons s5 then Ret s5 else uv_watcher_stop Idle h s5)))))"

definition on_unix_domain_connection_attempt :: "kernel \<Rightarrow> nat \<Rightarrow> watcher_op" where
  "on_unix_domain_connection_attempt k h = with_handle h (\<lambda>x s.
     let (r, s1) = uv_sys k (Accept (u_fd x)) s; fd = to_int32 (rv r) in
     if fd = -1 then Ret (UV_TERMINATE_LOOP 1 s1) else loop_add_client fd s1)"

text \<open>\<open>stack\<close> is what the buffer of the function holds before the read.\<close>

definition on_fs_event :: "kernel \<Rightarrow> (history \<Rightarrow> char list) \<Rightarrow> nat \<Rightarrow> watcher_op" where
  "on_fs_event k stack h = with_handle h (\<lambda>x s.
     bnd (read_events k (stack (trace s)) (u_fd x) (fs_fd s) (compare_path s)
            \<lparr>hist = trace s, heap = mem s, items = json_items s\<rparr>) (\<lambda>(out, c).
     let s1 = s\<lparr>trace := hist c, mem := heap c, json_items := items c\<rparr> in
     case out of
       Nothing \<Rightarrow> Ret s1
     | Terminate \<Rightarrow> Ret (UV_TERMINATE_LOOP 1 s1)
     | Queue json \<Rightarrow> bnd (loop_push_json json s1) (\<lambda>s2.
         bnd (uv_watcher_start Idle idle_handle (Some Send_jsons) s2) (\<lambda>(_, s3). Ret s3))))"

definition open_handles_cb :: "kernel \<Rightarrow> nat \<Rightarrow> watcher_op" where
  "open_handles_cb k h = with_handle h (\<lambda>x s.
     if uv__is_closing x then Ret s
     else case h_type x of
       UV_POLL \<Rightarrow> bnd (uv_poll_stop k h s) (\<lambda>s1.
         if h_cb x = Some On_writeable then
           bnd (case h_data x of None \<Rightarrow> Ret s1 | Some a \<Rightarrow> refcounted_uv_buffer_unref a s1)
             (uv_close k h (Some Free_handle))
         else uv_close k h None s1)
     | UV_IDLE \<Rightarrow> bnd (uv_watcher_stop Idle h s) (uv_close k h None)
     | _ \<Rightarrow> Ret s)"

definition sigint_handler :: "kernel \<Rightarrow> nat \<Rightarrow> watcher_op" where
  "sigint_handler k h s =
     bnd (uv_signal_stop k h s) (\<lambda>s1.
     bnd (uv_close k h None s1) (uv_walk (open_handles_cb k)))"

definition run_callback :: "kernel \<Rightarrow> (history \<Rightarrow> char list) \<Rightarrow> watcher_cb \<Rightarrow> nat \<Rightarrow> int \<Rightarrow> int \<Rightarrow> watcher_op" where
  "run_callback k stack cb h a b = (case cb of
      On_fs_event \<Rightarrow> on_fs_event k stack h
    | On_connection \<Rightarrow> on_unix_domain_connection_attempt k h
    | On_writeable \<Rightarrow> on_client_writeable k h
    | Send_jsons \<Rightarrow> send_jsons k h
    | On_sigint \<Rightarrow> sigint_handler k h
    | Free_handle \<Rightarrow> free_handle h
    | Work_done \<Rightarrow> (\<lambda>_. Undef))"

section \<open>main\<close>

abbreviation (input) DEFAULT_UNIX_DOMAIN_SOCKET_PATH :: string where
  "DEFAULT_UNIX_DOMAIN_SOCKET_PATH \<equiv> ''/tmp/fswatcher.sock''"

definition make_compare_path :: "string \<Rightarrow> string" where
  "make_compare_path canonical_path = (if 1 < length canonical_path then canonical_path @ ''/'' else canonical_path)"

text \<open>What main does before it has a loop: the paths and the fanotify group. \<open>Inl\<close> is a return of
  main.\<close>

definition open_watch :: "kernel \<Rightarrow> string \<Rightarrow> watcher \<Rightarrow> (int + int \<times> int \<times> string \<times> watcher) run" where
  "open_watch k watched s =
     (let (p, s1) = uv_sys k (Realpath watched) s in
      if rv p = -1 then Ret (Inl 1)
      else let (ok, m) = alloc (mem s1); cmp = make_compare_path (bytes p) in
        if \<not> ok then Undef
        else let (d, s2) = uv_sys k (Open_dir watched) (s1\<lparr>mem := m\<rparr>) in
          if rv d = -1 then Ret (Inl 1)
          else let (f, s3) = uv_sys k Fanotify_init s2 in
            if rv f = -1 then Ret (Inl 1)
            else let (w, s4) = uv_sys k (Fanotify_mark (rv f) watched) s3 in
              if rv w \<noteq> 0 then Ret (Inl 1) else Ret (Inr (rv d, rv f, cmp, s4)))"

text \<open>A handle on the stack of main.\<close>

definition stack_handle :: "nat \<Rightarrow> watcher \<Rightarrow> watcher" where
  "stack_handle h s = s\<lparr>handles := (handles s)(h \<mapsto> raw_handle)\<rparr>"

definition set_fd :: "nat \<Rightarrow> int \<Rightarrow> watcher_op" where
  "set_fd h fd = with_handle h (\<lambda>x s. Ret (set_handle h (x\<lparr>u_fd := fd\<rparr>) s))"

definition start_watch :: "kernel \<Rightarrow> int \<Rightarrow> watcher_op" where
  "start_watch k fd s =
     bnd (uv_watcher_init Idle idle_handle (stack_handle idle_handle s)) (\<lambda>s1.
     bnd (uv_poll_init k poll_handle fd (stack_handle poll_handle s1)) (\<lambda>(_, s2).
     bnd (set_fd poll_handle fd s2) (\<lambda>s3.
     bnd (uv_poll_start k poll_handle UV_READABLE (Some On_fs_event) s3) (\<lambda>(_, s4). Ret s4))))"

definition start_clients :: "kernel \<Rightarrow> int \<Rightarrow> watcher_op" where
  "start_clients k listenfd s =
     bnd (set_fd unix_domain_poll_handle listenfd (stack_handle unix_domain_poll_handle s)) (\<lambda>s1.
     bnd (uv_poll_init k unix_domain_poll_handle listenfd s1) (\<lambda>(_, s2).
     bnd (uv_poll_start k unix_domain_poll_handle UV_READABLE (Some On_connection) s2) (\<lambda>(_, s3).
     bnd (uv_signal_init k sigint_handle (stack_handle sigint_handle s3)) (\<lambda>(_, s4).
     bnd (uv_signal_start k sigint_handle (Some On_sigint) SIGINT s4) (\<lambda>(_, s5). Ret s5)))))"

fun close_clients :: "kernel \<Rightarrow> int list \<Rightarrow> watcher \<Rightarrow> watcher" where
  "close_clients k [] s = s"
| "close_clients k (c # cs) s =
     close_clients k cs (if c \<noteq> -1 then snd (uv_sys k (Close c) s) else s)"

fun drop_jsons :: "nat option list \<Rightarrow> watcher_op" where
  "drop_jsons [] s = Ret s"
| "drop_jsons (j # js) s = bnd (delete_item j (json_items s)) (\<lambda>(_, items).
     drop_jsons js (s\<lparr>json_items := items, json_queue := js, mem := dealloc (mem s)\<rparr>))"

definition shut_down :: "kernel \<Rightarrow> int \<Rightarrow> int \<Rightarrow> watcher \<Rightarrow> (int \<times> watcher) run" where
  "shut_down k listenfd fd s =
     (let s1 = snd (uv_sys k (Unlink DEFAULT_UNIX_DOMAIN_SOCKET_PATH) s);
          s2 = close_clients k (clients s1) s1;
          s3 = s2\<lparr>clients := [], mem := if clients s2 = [] then mem s2 else dealloc (mem s2)\<rparr> in
      bnd (drop_jsons (json_queue s3) s3) (\<lambda>s4.
      let s5 = s4\<lparr>mem := dealloc (mem s4)\<rparr>;
          s6 = snd (uv_sys k (Close listenfd) s5);
          s7 = snd (uv_sys k (Close fd) s6);
          s8 = snd (uv_sys k (Close (fs_fd s7)) s7) in
      bnd (uv_loop_close k s8) (\<lambda>(err, s9).
      if err \<noteq> 0 then Ret (1, s9) else Ret (0, s9\<lparr>mem := dealloc (mem s9)\<rparr>))))"

text \<open>\<open>argv\<close> are the arguments after the name of the program. uv_loop_new gives a null pointer when it
  fails, which main writes through.\<close>

definition main_program :: "kernel \<Rightarrow> (history \<Rightarrow> int list) \<Rightarrow> (history \<Rightarrow> char list) \<Rightarrow> nat \<Rightarrow> string list \<Rightarrow>
    watcher \<Rightarrow> int run" where
  "main_program k arrives stack fuel argv s = (case argv of
      [watched] \<Rightarrow> bnd (open_watch k watched s) (\<lambda>r. case r of Inl e \<Rightarrow> Ret e
        | Inr (dir_fd, fd, cmp, s1) \<Rightarrow>
          bnd (uv_loop_new k (Some Work_done) s1) (\<lambda>(ok, s2).
          if \<not> ok then Undef
          else bnd (start_watch k fd (s2\<lparr>exit_code := 0, fs_fd := dir_fd, compare_path := cmp, clients := [],
                 clients_count := 0, json_queue := []\<rparr>)) (\<lambda>s3.
            let (listenfd, h) = bind_to_unix_domain_socket k DEFAULT_UNIX_DOMAIN_SOCKET_PATH (trace s3) in
            if listenfd = -1 then Ret 1
            else bnd (start_clients k listenfd (s3\<lparr>trace := h\<rparr>)) (\<lambda>s4.
              bnd (uv_run k arrives (run_callback k stack) fuel UV_RUN_DEFAULT s4) (\<lambda>(_, s5).
              bnd (shut_down k listenfd fd s5) (\<lambda>(code, _). Ret code))))))
    | _ \<Rightarrow> Ret 1)"

end
