(* ===== verification/Watcher_Clients.thy ===== *)
theory Watcher_Clients
  imports Watcher_Loop "HOL-Library.Multiset"
begin

text \<open>
  The array of clients of watcher.c as a multiset of descriptors: what loop_add_client and
  loop_remove_client do to it, and the walk of send_jsons over it.
\<close>

section \<open>The multiset of clients\<close>

definition connected :: "watcher \<Rightarrow> int multiset" where
  "connected s = mset (filter (\<lambda>c. c \<noteq> -1) (clients s))"

text \<open>The count is the number of slots in use. A descriptor is an int.\<close>

definition clients_ok :: "watcher \<Rightarrow> bool" where
  "clients_ok s \<longleftrightarrow> clients_count s = size (connected s) \<and> (\<forall>c \<in> set (clients s). c < 2 ^ 31)"

lemma replace_first_Some: "replace_first old new cs = Some ds \<Longrightarrow>
    \<exists>as bs. cs = as @ old # bs \<and> old \<notin> set as \<and> ds = as @ new # bs"
proof (induction cs arbitrary: ds)
  case (Cons c cs)
  show ?case
  proof (cases "c = old")
    case True
    with Cons.prems show ?thesis by (intro exI [of _ "[]"] exI [of _ cs]) simp
  next
    case False
    with Cons.prems obtain es where es: "replace_first old new cs = Some es" "ds = c # es" by auto
    from Cons.IH [OF es(1)] obtain as bs where "cs = as @ old # bs" "old \<notin> set as" "es = as @ new # bs" by blast
    with es(2) False show ?thesis by (intro exI [of _ "c # as"] exI [of _ bs]) auto
  qed
qed simp

lemma replace_first_None: "replace_first old new cs = None \<longleftrightarrow> old \<notin> set cs"
  by (induction cs) auto

lemma filter_all_length: "length (filter P xs) = length xs \<longleftrightarrow> (\<forall>x \<in> set xs. P x)"
  using length_filter_less [of _ xs P] by (metis filter_True less_irrefl)

text \<open>After grow_clients a slot is free, and the clients are those before.\<close>

lemma grow_clients_Ret:
  assumes "clients_ok s" and "grow_clients s = Ret s'"
  shows "\<exists>cs m. s' = s\<lparr>mem := m, clients := cs\<rparr> \<and> -1 \<in> set cs \<and>
    filter (\<lambda>c. c \<noteq> -1) cs = filter (\<lambda>c. c \<noteq> -1) (clients s) \<and> (\<forall>c \<in> set cs. c < 2 ^ 31)"
proof (cases "clients s = [] \<or> clients_count s = length (clients s)")
  case True
  then obtain m n where s': "s' = s\<lparr>mem := m, clients := clients s @ replicate (Suc n) (-1)\<rparr>"
  proof (cases "clients s")
    case Nil
    then show thesis using assms(2) that [where n = 3]
      by (auto simp: grow_clients_def CLIENTS_CAPACITY_def eval_nat_numeral split: prod.splits if_splits)
  next
    case (Cons c cs)
    then show thesis using assms(2) True that [where n = "length cs"]
      by (auto simp: grow_clients_def split: prod.splits if_splits)
  qed
  have "filter (\<lambda>c. c \<noteq> -1) (replicate n (-1 :: int)) = []" by simp
  then show ?thesis using assms(1) unfolding clients_ok_def
    by (intro exI [of _ "clients s @ replicate (Suc n) (-1)"] exI [of _ m]) (auto simp: s')
next
  case False
  moreover have "size (connected s) = length (filter (\<lambda>c. c \<noteq> -1) (clients s))"
    unfolding connected_def by (rule size_mset)
  ultimately have "length (filter (\<lambda>c. c \<noteq> -1) (clients s)) \<noteq> length (clients s)"
    using assms(1) by (simp only: clients_ok_def) simp
  then have "-1 \<in> set (clients s)" by (auto simp: filter_all_length)
  moreover have "s' = s" using assms(2) False by (simp add: grow_clients_def split: if_splits)
  then have "s' = s\<lparr>mem := mem s, clients := clients s\<rparr>" by simp
  ultimately show ?thesis using assms(1) unfolding clients_ok_def by blast
qed

text \<open>The change of the array, the rest of the state as it was.\<close>

definition with_clients :: "amem \<Rightarrow> int list \<Rightarrow> nat \<Rightarrow> watcher \<Rightarrow> watcher" where
  "with_clients m cs n s = s\<lparr>mem := m, clients := cs, clients_count := n\<rparr>"

lemma add_client_Ret:
  assumes ok: "clients_ok s" and c: "client \<noteq> -1" "client < 2 ^ 31" and r: "loop_add_client client s = Ret s'"
  shows "\<exists>m cs. s' = with_clients m cs (clients_count s + 1) s" "connected s' = add_mset client (connected s)"
    "clients_ok s'"
proof -
  from r obtain s1 where g: "grow_clients s = Ret s1"
    and s': "s' = (case replace_first (-1) client (clients s1) of
         Some cs \<Rightarrow> s1\<lparr>clients := cs, clients_count := clients_count s1 + 1\<rparr> | None \<Rightarrow> s1)"
    by (auto simp: loop_add_client_def run_simps)
  from grow_clients_Ret [OF ok g] obtain cs m where s1: "s1 = s\<lparr>mem := m, clients := cs\<rparr>" "-1 \<in> set cs"
    "filter (\<lambda>c. c \<noteq> -1) cs = filter (\<lambda>c. c \<noteq> -1) (clients s)" "\<forall>c \<in> set cs. c < 2 ^ 31" by blast
  from s1(2) obtain ds where ds: "replace_first (-1) client cs = Some ds"
    by (metis replace_first_None option.exhaust)
  from replace_first_Some [OF ds] obtain as bs where e: "cs = as @ -1 # bs" "ds = as @ client # bs" by blast
  have s'e: "s' = with_clients m ds (clients_count s + 1) s" using s' ds by (simp add: s1(1) with_clients_def)
  then show "\<exists>m cs. s' = with_clients m cs (clients_count s + 1) s" by blast
  have "mset (filter (\<lambda>c. c \<noteq> -1) ds) = add_mset client (mset (filter (\<lambda>c. c \<noteq> -1) cs))"
    using c(1) by (simp add: e)
  then show con: "connected s' = add_mset client (connected s)"
    using s1(3) by (simp add: connected_def s'e with_clients_def)
  have "\<forall>c \<in> set ds. c < 2 ^ 31" using s1(4) c(2) by (auto simp: e)
  then show "clients_ok s'" using ok con by (simp add: clients_ok_def s'e with_clients_def)
qed

lemma remove_client:
  assumes ok: "clients_ok s" and c: "client \<noteq> -1"
  shows "connected (loop_remove_client client s) = connected s - {#client#}"
    "clients_ok (loop_remove_client client s)"
    "\<exists>cs n. loop_remove_client client s = with_clients (mem s) cs n s"
proof -
  have "connected (loop_remove_client client s) = connected s - {#client#} \<and>
    clients_ok (loop_remove_client client s) \<and> (\<exists>cs n. loop_remove_client client s = with_clients (mem s) cs n s)"
  proof (cases "replace_first client (-1) (clients s)")
    case None
    then have "client \<notin># connected s" by (simp add: replace_first_None connected_def)
    moreover have "loop_remove_client client s = with_clients (mem s) (clients s) (clients_count s) s"
      using None by (simp add: loop_remove_client_def with_clients_def)
    ultimately show ?thesis using ok None
      by (auto simp: loop_remove_client_def diff_single_trivial)
  next
    case (Some ds)
    from replace_first_Some [OF Some] obtain as bs where e: "clients s = as @ client # bs" "ds = as @ -1 # bs" by blast
    have r: "loop_remove_client client s = with_clients (mem s) ds (clients_count s - 1) s"
      using Some by (simp add: loop_remove_client_def with_clients_def)
    have "connected (loop_remove_client client s) = connected s - {#client#}"
      using c unfolding r connected_def with_clients_def by (simp add: e)
    moreover have "client \<in># connected s" using c by (simp add: connected_def e)
    then have "size (connected s - {#client#}) = size (connected s) - 1" by (simp add: size_Diff_singleton)
    moreover have "\<forall>x \<in> set ds. x < 2 ^ 31" using ok unfolding clients_ok_def e by auto
    ultimately show ?thesis using ok unfolding clients_ok_def r by (auto simp: with_clients_def)
  qed
  then show "connected (loop_remove_client client s) = connected s - {#client#}"
    "clients_ok (loop_remove_client client s)"
    "\<exists>cs n. loop_remove_client client s = with_clients (mem s) cs n s" by blast+
qed

section \<open>The walk over the array\<close>

lemma next_client_Ret: "next_client cs = Ret (c, ds) \<longleftrightarrow>
    (\<exists>as. cs = as @ c # ds \<and> (\<forall>a \<in> set as. a = -1)) \<and> c \<noteq> -1"
proof (induction cs)
  case (Cons d cs)
  show ?case
  proof (cases "d = -1")
    case True
    have "(\<exists>as. d # cs = as @ c # ds \<and> (\<forall>a \<in> set as. a = -1)) \<and> c \<noteq> -1 \<longleftrightarrow>
        (\<exists>as. cs = as @ c # ds \<and> (\<forall>a \<in> set as. a = -1)) \<and> c \<noteq> -1"
      using True by (auto simp: Cons_eq_append_conv)
    then show ?thesis using Cons.IH True by simp
  next
    case False
    then show ?thesis by (auto simp: Cons_eq_append_conv)
  qed
qed simp

lemma next_client_filter: "filter (\<lambda>c. c \<noteq> -1) cs = c # ds \<Longrightarrow>
    \<exists>es. next_client cs = Ret (c, es) \<and> filter (\<lambda>c. c \<noteq> -1) es = ds"
  by (induction cs) (auto split: if_splits)

end
