(* ===== verification/Uv_Inv.thy ===== *)
theory Uv_Inv
  imports Uv_Close
begin

text \<open>
  What the loop of libuv keeps true: the number active_handles counts exactly the handles that are
  active and referenced, the queue of handles holds every active one, the list of closing handles
  holds handles that are closing, and the table of watchers agrees with the watchers in it. Each
  operation of the API keeps it.
\<close>

section \<open>The invariant\<close>

text \<open>The handles a walk can meet, and those active_handles counts.\<close>

definition listed :: "('cb, 'm) uv_loop_scheme \<Rightarrow> nat set" where
  "listed s = set (handle_queue s) \<union> set (walk_queue s)"

definition counts :: "'cb uv_handle \<Rightarrow> bool" where
  "counts x \<longleftrightarrow> uv__is_active x \<and> uv__has_ref x"

definition counted :: "('cb, 'm) uv_loop_scheme \<Rightarrow> nat set" where
  "counted s = {h. \<exists>x. handles s h = Some x \<and> counts x}"

definition handles_ok :: "('cb, 'm) uv_loop_scheme \<Rightarrow> bool" where
  "handles_ok s \<longleftrightarrow> distinct (handle_queue s @ walk_queue s) \<and> listed s \<subseteq> dom (handles s) \<and>
     (\<forall>h x. handles s h = Some x \<and> uv__is_active x \<longrightarrow> h \<in> listed s) \<and>
     active_handles s = of_nat (card (counted s))"

text \<open>A handle that is closing is not active, and is in the list of closing handles (or in the part of
  it, \<open>batch\<close>, that is being worked off) until it is closed and leaves the queue.\<close>

definition closing_ok :: "nat list \<Rightarrow> ('cb, 'm) uv_loop_scheme \<Rightarrow> bool" where
  "closing_ok batch s \<longleftrightarrow> distinct (closing_handles s @ batch) \<and>
     (\<forall>h x. handles s h = Some x \<and> has (h_flags x) UV_HANDLE_CLOSED \<longrightarrow> has (h_flags x) UV_HANDLE_CLOSING) \<and>
     (\<forall>h x. handles s h = Some x \<and> has (h_flags x) UV_HANDLE_CLOSING \<longrightarrow>
        \<not> uv__is_active x \<and> (has (h_flags x) UV_HANDLE_CLOSED \<longrightarrow> h \<notin> listed s)) \<and>
     (\<forall>h. h \<in> set (closing_handles s @ batch) \<longleftrightarrow> (\<exists>x. handles s h = Some x \<and> h \<in> listed s \<and>
        has (h_flags x) UV_HANDLE_CLOSING))"

definition ios_ok :: "('cb, 'm) uv_loop_scheme \<Rightarrow> bool" where
  "ios_ok s \<longleftrightarrow> (\<forall>w i. ios s w = Some i \<longrightarrow> w_pevents i AND NOT POLL_ALL = 0 \<and>
        (w_events i \<noteq> 0 \<longrightarrow> w_pevents i \<noteq> 0) \<and>
        (w_pevents i \<noteq> 0 \<longrightarrow> 0 \<le> w_fd i \<and> nat (w_fd i) < length (watchers s) \<and>
           watchers s ! nat (w_fd i) = Some w)) \<and>
     (\<forall>fd w. fd < length (watchers s) \<and> watchers s ! fd = Some w \<longrightarrow>
        (\<exists>i. ios s w = Some i \<and> w_fd i = int fd \<and> w_pevents i \<noteq> 0)) \<and>
     nfds s = card {fd. fd < length (watchers s) \<and> watchers s ! fd \<noteq> None} \<and>
     distinct (watcher_queue s) \<and> (\<forall>w \<in> set (watcher_queue s). \<exists>i. ios s w = Some i \<and> w_pevents i \<noteq> 0)"

definition polls_ok :: "('cb, 'm) uv_loop_scheme \<Rightarrow> bool" where
  "polls_ok s \<longleftrightarrow> (\<forall>h x. handles s h = Some x \<and> h \<in> listed s \<and> h_type x = UV_POLL \<longrightarrow>
     (\<exists>i. ios s (Io h) = Some i \<and> w_cb i = uv__poll_io \<and> 0 \<le> w_fd i \<and>
       (w_pevents i \<noteq> 0 \<longleftrightarrow> uv__is_active x))) \<and>
     (\<forall>h i. ios s (Io h) = Some i \<and> w_pevents i \<noteq> 0 \<longrightarrow>
       (\<exists>x. handles s h = Some x \<and> h_type x = UV_POLL \<and> uv__is_active x))"

text \<open>The idle, prepare and check handles that run are those that are active.\<close>

definition kinds_ok :: "('cb, 'm) uv_loop_scheme \<Rightarrow> bool" where
  "kinds_ok s \<longleftrightarrow> (\<forall>n. distinct (watcher_handles s n @ watcher_batch s n) \<and>
     set (watcher_handles s n @ watcher_batch s n) =
       {h. \<exists>x. handles s h = Some x \<and> h_type x = watcher_type n \<and> uv__is_active x})"

text \<open>The tree holds the signal handles that watch a signal, which are the active ones. A message in the
  pipe names a signal.\<close>

definition signals_ok :: "('cb, 'm) uv_loop_scheme \<Rightarrow> bool" where
  "signals_ok s \<longleftrightarrow> distinct (signal_tree s) \<and>
     (\<forall>h x. handles s h = Some x \<longrightarrow> (signum x \<noteq> 0 \<longleftrightarrow> h_type x = UV_SIGNAL \<and> uv__is_active x)) \<and>
     (\<forall>h. h \<in> set (signal_tree s) \<longleftrightarrow> (\<exists>x. handles s h = Some x \<and> signum x \<noteq> 0)) \<and>
     (\<forall>m \<in> set (signal_pipe s). snd m \<noteq> 0)"

definition loop_ok :: "nat list \<Rightarrow> ('cb, 'm) uv_loop_scheme \<Rightarrow> bool" where
  "loop_ok batch s \<longleftrightarrow> handles_ok s \<and> closing_ok batch s \<and> ios_ok s \<and> polls_ok s \<and> kinds_ok s \<and> signals_ok s"

lemma uv_sys_eq [simp]: "uv_sys k c s = (k (c # trace s), s\<lparr>trace := c # trace s\<rparr>)"
  by (simp add: uv_sys_def sys_def)

lemma with_handle_Ret [run_simps]:
  "with_handle h f s = Ret y \<longleftrightarrow> (\<exists>x. handles s h = Some x \<and> f x s = Ret y)"
  by (simp add: with_handle_def split: option.split)

lemma with_io_Ret [run_simps]:
  "with_io w f s = Ret y \<longleftrightarrow> (\<exists>i. ios s w = Some i \<and> f i s = Ret y)"
  by (simp add: with_io_def split: option.split)

lemma set_handle_simps [simp]:
  "handles (set_handle h x s) = (handles s)(h \<mapsto> x)" "ios (set_handle h x s) = ios s"
  "handle_queue (set_handle h x s) = handle_queue s" "walk_queue (set_handle h x s) = walk_queue s"
  "active_handles (set_handle h x s) = active_handles s" "closing_handles (set_handle h x s) = closing_handles s"
  "watchers (set_handle h x s) = watchers s" "nfds (set_handle h x s) = nfds s"
  "watcher_queue (set_handle h x s) = watcher_queue s" "watcher_handles (set_handle h x s) = watcher_handles s"
  "watcher_batch (set_handle h x s) = watcher_batch s" "signal_tree (set_handle h x s) = signal_tree s"
  "trace (set_handle h x s) = trace s" "signal_pipe (set_handle h x s) = signal_pipe s"
  "backend_fd (set_handle h x s) = backend_fd s" "in_flight (set_handle h x s) = in_flight s"
  "stop_flag (set_handle h x s) = stop_flag s" "active_reqs (set_handle h x s) = active_reqs s"
  "mem (set_handle h x s) = mem s" "pending_queue (set_handle h x s) = pending_queue s"
  "async_handles (set_handle h x s) = async_handles s" "async_batch (set_handle h x s) = async_batch s"
  "timers (set_handle h x s) = timers s" "time (set_handle h x s) = time s"
  "signal_pipefd (set_handle h x s) = signal_pipefd s"
  "pending_batch (set_handle h x s) = pending_batch s" "timer_counter (set_handle h x s) = timer_counter s" "uv_loop.more (set_handle h x s) = uv_loop.more s"
  by (simp_all add: set_handle_def)

lemma set_io_simps [simp]:
  "ios (set_io w i s) = (ios s)(w \<mapsto> i)" "handles (set_io w i s) = handles s"
  "handle_queue (set_io w i s) = handle_queue s" "walk_queue (set_io w i s) = walk_queue s"
  "active_handles (set_io w i s) = active_handles s" "closing_handles (set_io w i s) = closing_handles s"
  "watchers (set_io w i s) = watchers s" "nfds (set_io w i s) = nfds s"
  "watcher_queue (set_io w i s) = watcher_queue s" "watcher_handles (set_io w i s) = watcher_handles s"
  "watcher_batch (set_io w i s) = watcher_batch s" "signal_tree (set_io w i s) = signal_tree s"
  "trace (set_io w i s) = trace s" "signal_pipe (set_io w i s) = signal_pipe s"
  "backend_fd (set_io w i s) = backend_fd s" "in_flight (set_io w i s) = in_flight s"
  "stop_flag (set_io w i s) = stop_flag s" "active_reqs (set_io w i s) = active_reqs s"
  "mem (set_io w i s) = mem s" "pending_queue (set_io w i s) = pending_queue s"
  "async_handles (set_io w i s) = async_handles s" "async_batch (set_io w i s) = async_batch s"
  "timers (set_io w i s) = timers s" "time (set_io w i s) = time s"
  "signal_pipefd (set_io w i s) = signal_pipefd s"
  "pending_batch (set_io w i s) = pending_batch s" "timer_counter (set_io w i s) = timer_counter s" "uv_loop.more (set_io w i s) = uv_loop.more s"
  by (simp_all add: set_io_def)

section \<open>Handles\<close>

lemma counted_set: "counted (set_handle h x s) = (if counts x then insert h (counted s) else counted s - {h})"
  by (auto simp: counted_def)

lemma counted_listed: "handles_ok s \<Longrightarrow> counted s \<subseteq> listed s"
  by (auto simp: handles_ok_def counted_def counts_def)

lemma counted_finite: "handles_ok s \<Longrightarrow> finite (counted s)"
  using counted_listed by (rule finite_subset) (simp_all add: listed_def)

text \<open>A change of the flags of one handle, with the matching change of the counter.\<close>

lemma handles_ok_set:
  assumes "handles_ok s" and "handles s h = Some x" and "uv__is_active x' \<longrightarrow> h \<in> listed s"
  shows "handles_ok (set_handle h x' (s\<lparr>active_handles := active_handles s +
           (if counts x' then 1 else 0) - (if counts x then 1 else 0)\<rparr>))"
proof -
  let ?C = "counted s"
  have fin: "finite ?C" using assms(1) by (rule counted_finite)
  have mem: "h \<in> ?C \<longleftrightarrow> counts x" using assms(2) by (simp add: counted_def)
  have "of_nat (card (if counts x' then insert h ?C else ?C - {h})) =
      (of_nat (card ?C) + (if counts x' then 1 else 0) - (if counts x then 1 else 0) :: flags)"
  proof (cases "h \<in> ?C")
    case True
    then have "card ?C = Suc (card (?C - {h}))" using fin by (metis card.remove)
    then show ?thesis using True mem by (simp add: insert_absorb)
  next
    case False
    then show ?thesis using fin mem by simp
  qed
  moreover have "counted (set_handle h x' (s\<lparr>active_handles := n\<rparr>)) = (if counts x' then insert h ?C else ?C - {h})" for n
    using counted_set [of h x' "s\<lparr>active_handles := n\<rparr>"] by (simp add: counted_def)
  ultimately show ?thesis using assms by (auto simp: handles_ok_def listed_def)
qed

text \<open>Starting and stopping a handle, as one change.\<close>

definition with_flags :: "nat \<Rightarrow> 'cb uv_handle \<Rightarrow> flags \<Rightarrow> ('cb, 'm) uv_loop_scheme \<Rightarrow> ('cb, 'm) uv_loop_scheme" where
  "with_flags h x f s = set_handle h (x\<lparr>h_flags := f\<rparr>) (s\<lparr>active_handles := active_handles s +
     (if counts (x\<lparr>h_flags := f\<rparr>) then 1 else 0) - (if counts x then 1 else 0)\<rparr>)"

lemma handle_start_eq: "handles s h = Some x \<Longrightarrow>
    uv__handle_start h s = Ret (with_flags h x (h_flags x OR UV_HANDLE_ACTIVE) s)"
proof -
  assume x: "handles s h = Some x"
  show ?thesis
  proof (cases "has (h_flags x) UV_HANDLE_ACTIVE")
    case True
    then have "h_flags x OR UV_HANDLE_ACTIVE = h_flags x" by (rule flag_absorbs)
    then show ?thesis using x True
      by (simp add: uv__handle_start_def with_handle_def with_flags_def set_handle_def map_upd_triv)
  next
    case False
    with x show ?thesis
      by (simp add: uv__handle_start_def with_handle_def with_flags_def set_handle_def Let_def counts_def
          uv__is_active_def uv__has_ref_def uv__active_handle_add_def)
  qed
qed

lemma handle_stop_eq: "handles s h = Some x \<Longrightarrow>
    uv__handle_stop h s = Ret (with_flags h x (h_flags x AND NOT UV_HANDLE_ACTIVE) s)"
proof -
  assume x: "handles s h = Some x"
  show ?thesis
  proof (cases "has (h_flags x) UV_HANDLE_ACTIVE")
    case False
    then have "h_flags x AND NOT UV_HANDLE_ACTIVE = h_flags x" by (simp add: flag_absorbs)
    then show ?thesis using x False
      by (simp add: uv__handle_stop_def with_handle_def with_flags_def set_handle_def map_upd_triv)
  next
    case True
    with x show ?thesis
      by (simp add: uv__handle_stop_def with_handle_def with_flags_def set_handle_def Let_def counts_def
          uv__is_active_def uv__has_ref_def uv__active_handle_rm_def)
  qed
qed

lemma handles_ok_flags: "\<lbrakk>handles_ok s; handles s h = Some x; has f UV_HANDLE_ACTIVE \<longrightarrow> h \<in> listed s\<rbrakk>
    \<Longrightarrow> handles_ok (with_flags h x f s)"
  unfolding with_flags_def by (rule handles_ok_set) (simp_all add: uv__is_active_def)

lemma with_flags_simps [simp]:
  "handles (with_flags h x f s) = (handles s)(h \<mapsto> x\<lparr>h_flags := f\<rparr>)" "ios (with_flags h x f s) = ios s"
  "handle_queue (with_flags h x f s) = handle_queue s" "walk_queue (with_flags h x f s) = walk_queue s"
  "closing_handles (with_flags h x f s) = closing_handles s" "watchers (with_flags h x f s) = watchers s"
  "nfds (with_flags h x f s) = nfds s" "watcher_queue (with_flags h x f s) = watcher_queue s"
  "watcher_handles (with_flags h x f s) = watcher_handles s" "watcher_batch (with_flags h x f s) = watcher_batch s"
  "signal_tree (with_flags h x f s) = signal_tree s" "trace (with_flags h x f s) = trace s"
  "signal_pipe (with_flags h x f s) = signal_pipe s" "backend_fd (with_flags h x f s) = backend_fd s"
  "in_flight (with_flags h x f s) = in_flight s" "stop_flag (with_flags h x f s) = stop_flag s"
  "active_reqs (with_flags h x f s) = active_reqs s" "mem (with_flags h x f s) = mem s"
  "pending_queue (with_flags h x f s) = pending_queue s" "async_handles (with_flags h x f s) = async_handles s"
  "async_batch (with_flags h x f s) = async_batch s" "timers (with_flags h x f s) = timers s"
  "time (with_flags h x f s) = time s" "signal_pipefd (with_flags h x f s) = signal_pipefd s"
  "pending_batch (with_flags h x f s) = pending_batch s" "timer_counter (with_flags h x f s) = timer_counter s"
  "uv_loop.more (with_flags h x f s) = uv_loop.more s"
  by (simp_all add: with_flags_def)

section \<open>File watchers\<close>

text \<open>What uv__io_stop does to a watcher when it asks for none of its events any more.\<close>

definition unwatch :: "wid \<Rightarrow> uv__io_t \<Rightarrow> ('cb, 'm) uv_loop_scheme \<Rightarrow> ('cb, 'm) uv_loop_scheme" where
  "unwatch w i s =
     (if length (watchers s) \<le> nat (w_fd i) then s
      else let s1 = set_io w (i\<lparr>w_pevents := 0, w_events := 0\<rparr>) (s\<lparr>watcher_queue := removeAll w (watcher_queue s)\<rparr>) in
        if watchers s ! nat (w_fd i) = Some w
        then s1\<lparr>watchers := (watchers s)[nat (w_fd i) := None], nfds := nfds s - 1\<rparr> else s1)"

lemma finite_slots: "finite {fd. fd < length (ws :: wid option list) \<and> ws ! fd \<noteq> None}"
  by (rule finite_subset [of _ "{..<length ws}"]) auto

lemma io_stop_all:
  assumes "ios_ok s" and "ios s w = Some i" and "0 \<le> w_fd i"
  shows "uv__io_stop w POLL_ALL s = Ret (unwatch w i s)"
proof -
  have p: "w_pevents i AND NOT POLL_ALL = 0" using assms(1,2) by (simp add: ios_ok_def)
  have "0 < nfds s" if "nat (w_fd i) < length (watchers s)" "watchers s ! nat (w_fd i) = Some w"
  proof -
    have "nat (w_fd i) \<in> {fd. fd < length (watchers s) \<and> watchers s ! fd \<noteq> None}" using that by simp
    then show ?thesis using assms(1) finite_slots by (simp add: ios_ok_def card_gt_0_iff) blast
  qed
  then show ?thesis using assms(2,3) p
    by (simp add: uv__io_stop_def with_io_def unwatch_def Let_def require_def set_io_def)
qed

lemma ios_ok_unwatch:
  assumes ok: "ios_ok s" and i: "ios s w = Some i" "0 \<le> w_fd i"
  shows "ios_ok (unwatch w i s)"
proof (cases "nat (w_fd i) < length (watchers s)")
  case False
  then show ?thesis using ok by (simp add: unwatch_def)
next
  case True
  let ?fd = "nat (w_fd i)"
  have other: "\<lbrakk>fd < length (watchers s); watchers s ! fd = Some w\<rbrakk> \<Longrightarrow> fd = ?fd" for fd
    using ok i unfolding ios_ok_def by (metis nat_int option.inject)
  show ?thesis
  proof (cases "watchers s ! ?fd = Some w")
    case own: True
    have "{fd. fd < length (watchers s) \<and> (watchers s)[?fd := None] ! fd \<noteq> None} =
        {fd. fd < length (watchers s) \<and> watchers s ! fd \<noteq> None} - {?fd}"
      using True by (auto simp: nth_list_update split: if_splits)
    moreover have "?fd \<in> {fd. fd < length (watchers s) \<and> watchers s ! fd \<noteq> None}" using True own by simp
    ultimately have c: "card {fd. fd < length (watchers s) \<and> (watchers s)[?fd := None] ! fd \<noteq> None} = nfds s - 1"
      using ok finite_slots by (simp add: ios_ok_def)
    have slots: "\<exists>j. ios s w' = Some j \<and> w' \<noteq> w \<and> w_fd j = int fd \<and> w_pevents j \<noteq> 0"
      if "fd < length (watchers s)" "(watchers s)[?fd := None] ! fd = Some w'" for fd w'
    proof -
      from that True have "fd \<noteq> ?fd" "watchers s ! fd = Some w'" by (auto simp: nth_list_update split: if_splits)
      with other [of fd] that(1) ok show ?thesis unfolding ios_ok_def by metis
    qed
    show ?thesis unfolding ios_ok_def
    proof (intro conjI allI impI)
      fix w' j
      assume j: "ios (unwatch w i s) w' = Some j"
      show "w_pevents j AND NOT POLL_ALL = 0" "w_events j \<noteq> 0 \<Longrightarrow> w_pevents j \<noteq> 0"
        using j ok True own by (auto simp: unwatch_def ios_ok_def split: if_splits)
      assume p: "w_pevents j \<noteq> 0"
      then have w': "ios s w' = Some j" "w' \<noteq> w"
        using j True own by (auto simp: unwatch_def split: if_splits)
      with ok p have b: "0 \<le> w_fd j" "nat (w_fd j) < length (watchers s)" "watchers s ! nat (w_fd j) = Some w'"
        by (auto simp: ios_ok_def)
      with own w'(2) have "nat (w_fd j) \<noteq> ?fd" by auto
      with b own True show "0 \<le> w_fd j" "nat (w_fd j) < length (watchers (unwatch w i s))"
        "watchers (unwatch w i s) ! nat (w_fd j) = Some w'"
        by (simp_all add: unwatch_def Let_def)
    next
      fix fd w'
      assume "fd < length (watchers (unwatch w i s)) \<and> watchers (unwatch w i s) ! fd = Some w'"
      with slots [of fd w'] True own show "\<exists>j. ios (unwatch w i s) w' = Some j \<and> w_fd j = int fd \<and> w_pevents j \<noteq> 0"
        by (auto simp: unwatch_def Let_def)
    qed (use c ok True own in \<open>auto simp: unwatch_def ios_ok_def Let_def distinct_removeAll\<close>)
  next
    case False
    then have "w_pevents i = 0" using ok i True by (auto simp: ios_ok_def)
    have none: "watchers s ! fd \<noteq> Some w" if "fd < length (watchers s)" for fd
      using other [OF that] False by blast
    show ?thesis using ok True False none \<open>w_pevents i = 0\<close>
      unfolding ios_ok_def unwatch_def Let_def by (auto simp: distinct_removeAll split: if_splits)
  qed
qed

lemma unwatch_pevents:
  assumes "ios_ok s" and "ios s w = Some i"
  shows "\<exists>j. ios (unwatch w i s) w = Some j \<and> w_pevents j = 0 \<and> w_fd j = w_fd i \<and> w_cb j = w_cb i"
proof (cases "length (watchers s) \<le> nat (w_fd i)")
  case True
  then have "w_pevents i = 0" using assms unfolding ios_ok_def by (meson not_less)
  with True assms(2) show ?thesis by (simp add: unwatch_def)
qed (simp add: unwatch_def Let_def)

lemma unwatch_ios: "w' \<noteq> w \<Longrightarrow> ios (unwatch w i s) w' = ios s w'"
  by (simp add: unwatch_def Let_def)

text \<open>What uv__io_start does to a watcher that asked for nothing: the table may grow by \<open>n\<close> empty slots,
  in memory \<open>m\<close>.\<close>

definition watch :: "wid \<Rightarrow> uv__io_t \<Rightarrow> flags \<Rightarrow> nat \<Rightarrow> amem \<Rightarrow> ('cb, 'm) uv_loop_scheme \<Rightarrow> ('cb, 'm) uv_loop_scheme" where
  "watch w i events n m s = set_io w (i\<lparr>w_pevents := events\<rparr>)
     (s\<lparr>mem := m, watchers := (watchers s @ replicate n None)[nat (w_fd i) := Some w],
        nfds := nfds s + 1, watcher_queue := watcher_queue s @ [w]\<rparr>)"

definition unused :: "wid \<Rightarrow> ('cb, 'm) uv_loop_scheme \<Rightarrow> bool" where
  "unused w s \<longleftrightarrow> (\<exists>i. ios s w = Some i \<and> w_pevents i = 0 \<and> 0 \<le> w_fd i \<and>
     \<not> (nat (w_fd i) < length (watchers s) \<and> watchers s ! nat (w_fd i) \<noteq> None))"

lemma resize_Ret:
  assumes "maybe_resize len s = Ret s'"
  shows "\<exists>n m. s' = s\<lparr>mem := m, watchers := watchers s @ replicate n None\<rparr>"
proof (cases "unat len \<le> length (watchers s)")
  case True
  with assms have "s' = s\<lparr>mem := mem s, watchers := watchers s @ replicate 0 None\<rparr>"
    by (simp add: maybe_resize_def)
  then show ?thesis by blast
next
  case False
  with assms show ?thesis by (auto simp: maybe_resize_def Let_def split: prod.splits if_splits)
qed

lemma io_start_Ret:
  assumes ok: "ios_ok s" and u: "unused w s" and i: "ios s w = Some i" and r: "uv__io_start w events s = Ret s'"
  shows "\<exists>n m. s' = watch w i events n m s \<and> nat (w_fd i) < length (watchers s) + n \<and> events \<noteq> 0 \<and>
    events AND NOT POLL_ALL = 0"
proof -
  from u i have p: "w_pevents i = 0" "0 \<le> w_fd i" by (auto simp: unused_def)
  then have e: "w_events i = 0" using ok i by (auto simp: ios_ok_def)
  have q: "w \<notin> set (watcher_queue s)" using ok i p(1) by (auto simp: ios_ok_def)
  let ?i1 = "i\<lparr>w_pevents := events\<rparr>"
  from r i p(1) obtain s1 where ev: "events AND NOT POLL_ALL = 0" "events \<noteq> 0"
    and s1: "maybe_resize (word_of_int (w_fd i) + 1) (set_io w ?i1 s) = Ret s1"
    and rest: "(if w_events i = events then Ret s1 else let s2 = enqueue_watcher w s1; fd = nat (w_fd i) in
        bnd (rd (watchers s2) fd) (\<lambda>slot. if slot = None then
          Ret (s2\<lparr>watchers := (watchers s2)[fd := Some w], nfds := nfds s2 + 1\<rparr>) else Ret s2)) = Ret s'"
    by (auto simp: uv__io_start_def run_simps Let_def)
  from resize_Ret [OF s1] obtain n m where "s1 = (set_io w ?i1 s)\<lparr>mem := m, watchers := watchers s @ replicate n None\<rparr>"
    by auto
  then have s1e: "s1 = set_io w ?i1 (s\<lparr>mem := m, watchers := watchers s @ replicate n None\<rparr>)"
    by (simp add: set_io_def)
  have eq: "enqueue_watcher w s1 = s1\<lparr>watcher_queue := watcher_queue s @ [w]\<rparr>"
    using q by (simp add: enqueue_watcher_def s1e)
  from rest ev(2) e eq have l: "nat (w_fd i) < length (watchers s1)"
    by (auto simp: Let_def run_simps)
  have none: "watchers s1 ! nat (w_fd i) = None"
    using u i l by (auto simp: unused_def s1e nth_append)
  have "s' = s1\<lparr>watcher_queue := watcher_queue s @ [w],
      watchers := (watchers s1)[nat (w_fd i) := Some w], nfds := nfds s1 + 1\<rparr>"
    using rest ev(2) e eq l none by (simp add: Let_def)
  then have "s' = watch w i events n m s"
    by (simp only:) (rule uv_loop.equality, simp_all add: watch_def s1e)
  then show ?thesis using l ev by (auto simp: s1e)
qed

lemma ios_ok_watch:
  assumes ok: "ios_ok s" and u: "unused w s" and i: "ios s w = Some i"
    and l: "nat (w_fd i) < length (watchers s) + n" and ev: "events \<noteq> 0" "events AND NOT POLL_ALL = 0"
  shows "ios_ok (watch w i events n m s)"
proof -
  let ?fd = "nat (w_fd i)" and ?ws = "watchers s @ replicate n None" and ?s = "watch w i events n m s"
  from u i have p: "w_pevents i = 0" "0 \<le> w_fd i" "?fd < length (watchers s) \<Longrightarrow> watchers s ! ?fd = None"
    by (auto simp: unused_def)
  then have e: "w_events i = 0" using ok i by (auto simp: ios_ok_def)
  have q: "w \<notin> set (watcher_queue s)" using ok i p(1) by (auto simp: ios_ok_def)
  have old: "?ws ! fd = Some w' \<longleftrightarrow> fd < length (watchers s) \<and> watchers s ! fd = Some w'"
    if "fd < length (watchers s) + n" for fd w' using that by (auto simp: nth_append)
  have none: "?ws ! ?fd = None" using old [OF l] p(3) by (metis option.distinct(1) not_None_eq)
  have slots: "\<exists>j. ios s w' = Some j \<and> w' \<noteq> w \<and> w_fd j = int fd \<and> w_pevents j \<noteq> 0"
    if "fd < length (watchers s)" "watchers s ! fd = Some w'" for fd w'
  proof -
    from that ok obtain j where "ios s w' = Some j" "w_fd j = int fd" "w_pevents j \<noteq> 0"
      unfolding ios_ok_def by blast
    then show ?thesis using i p(1) by auto
  qed
  have "{fd. fd < length ?ws \<and> ?ws[?fd := Some w] ! fd \<noteq> None} =
      insert ?fd {fd. fd < length (watchers s) \<and> watchers s ! fd \<noteq> None}"
    using l old by (fastforce simp: nth_list_update split: if_splits)
  moreover have "?fd \<notin> {fd. fd < length (watchers s) \<and> watchers s ! fd \<noteq> None}" using p(3) by auto
  ultimately have c: "card {fd. fd < length ?ws \<and> ?ws[?fd := Some w] ! fd \<noteq> None} = Suc (nfds s)"
    using ok finite_slots by (simp only: card_insert_disjoint) (simp add: ios_ok_def)
  show ?thesis unfolding ios_ok_def
  proof (intro conjI allI impI)
    fix w' j
    assume j: "ios ?s w' = Some j"
    show "w_pevents j AND NOT POLL_ALL = 0" "w_events j \<noteq> 0 \<Longrightarrow> w_pevents j \<noteq> 0"
      using j ok ev e by (auto simp: watch_def ios_ok_def split: if_splits)
    assume pj: "w_pevents j \<noteq> 0"
    show "0 \<le> w_fd j" "nat (w_fd j) < length (watchers ?s)" "watchers ?s ! nat (w_fd j) = Some w'"
    proof -
      have "0 \<le> w_fd j \<and> nat (w_fd j) < length (watchers ?s) \<and> watchers ?s ! nat (w_fd j) = Some w'"
      proof (cases "w' = w")
        case True
        then show ?thesis using j p(2) l by (auto simp: watch_def)
      next
        case False
        with j pj ok have b: "0 \<le> w_fd j" "nat (w_fd j) < length (watchers s)" "watchers s ! nat (w_fd j) = Some w'"
          by (auto simp: watch_def ios_ok_def)
        moreover have "nat (w_fd j) \<noteq> ?fd" using b p(3) by auto
        ultimately show ?thesis by (simp add: watch_def nth_append)
      qed
      then show "0 \<le> w_fd j" "nat (w_fd j) < length (watchers ?s)" "watchers ?s ! nat (w_fd j) = Some w'" by auto
    qed
  next
    fix fd w'
    assume a: "fd < length (watchers ?s) \<and> watchers ?s ! fd = Some w'"
    show "\<exists>j. ios ?s w' = Some j \<and> w_fd j = int fd \<and> w_pevents j \<noteq> 0"
    proof (cases "fd = ?fd")
      case True
      then show ?thesis using a l p(2) ev by (auto simp: watch_def)
    next
      case False
      with a have "fd < length (watchers s)" "watchers s ! fd = Some w'"
        using old [of fd w'] by (auto simp: watch_def)
      with slots show ?thesis by (fastforce simp: watch_def)
    qed
  next
    show "nfds ?s = card {fd. fd < length (watchers ?s) \<and> watchers ?s ! fd \<noteq> None}"
      using c by (simp add: watch_def)
  next
    show "distinct (watcher_queue ?s)" using ok q by (simp add: watch_def ios_ok_def)
    show "\<forall>w' \<in> set (watcher_queue ?s). \<exists>i. ios ?s w' = Some i \<and> w_pevents i \<noteq> 0"
      using ok ev by (auto simp: watch_def ios_ok_def)
  qed
qed

end
