(* ===== verification/Uv_Ops.thy ===== *)
theory Uv_Ops
  imports Uv_Inv
begin

text \<open>
  Every operation of the API of the loop keeps its invariant. The operations on poll handles come
  with the state they leave, which the theories of the watcher use.
\<close>

section \<open>Changes that concern one handle\<close>

lemma listed_simps [simp]:
  "listed (set_handle h x s) = listed s" "listed (set_io w i s) = listed s"
  "listed (with_flags h x f s) = listed s"
  by (simp_all add: listed_def)

lemma is_active_flags: "uv__is_active (x\<lparr>h_flags := f\<rparr>) \<longleftrightarrow> has f UV_HANDLE_ACTIVE"
  by (simp add: uv__is_active_def)

lemma has_ref_flags: "uv__has_ref (x\<lparr>h_flags := f\<rparr>) \<longleftrightarrow> has f UV_HANDLE_REF"
  by (simp add: uv__has_ref_def)

lemma has_or_mask: "has f (a OR b) \<longleftrightarrow> has f a \<or> has f b"
  by (auto simp: has_def bit_eq_iff bit_simps)

lemma is_closing_iff: "uv__is_closing x \<longleftrightarrow> has (h_flags x) UV_HANDLE_CLOSING \<or> has (h_flags x) UV_HANDLE_CLOSED"
  unfolding uv__is_closing_def by (rule has_or_mask)

lemma kinds_ok_handle:
  "\<lbrakk>kinds_ok s; handles s h = Some x; h_type x' = h_type x;
    uv__is_active x' = uv__is_active x \<or> h_type x \<notin> {UV_IDLE, UV_PREPARE, UV_CHECK}\<rbrakk> \<Longrightarrow>
   handles s' = (handles s)(h \<mapsto> x') \<Longrightarrow> watcher_handles s' = watcher_handles s \<Longrightarrow>
   watcher_batch s' = watcher_batch s \<Longrightarrow> kinds_ok s'"
proof -
  assume a: "kinds_ok s" "handles s h = Some x" "h_type x' = h_type x"
    "uv__is_active x' = uv__is_active x \<or> h_type x \<notin> {UV_IDLE, UV_PREPARE, UV_CHECK}"
    "handles s' = (handles s)(h \<mapsto> x')" "watcher_handles s' = watcher_handles s"
    "watcher_batch s' = watcher_batch s"
  have "{g. \<exists>y. handles s' g = Some y \<and> h_type y = watcher_type n \<and> uv__is_active y} =
      {g. \<exists>y. handles s g = Some y \<and> h_type y = watcher_type n \<and> uv__is_active y}" for n
    using a(2-5) by (cases n) auto
  then show ?thesis using a unfolding kinds_ok_def by simp
qed

lemma signals_ok_handle:
  "\<lbrakk>signals_ok s; handles s h = Some x; h_type x' = h_type x;
    uv__is_active x' = uv__is_active x \<or> h_type x \<noteq> UV_SIGNAL; signum x' = signum x;
    handles s' = (handles s)(h \<mapsto> x'); signal_tree s' = signal_tree s; signal_pipe s' = signal_pipe s\<rbrakk>
   \<Longrightarrow> signals_ok s'"
  unfolding signals_ok_def by auto

lemma polls_okD: "\<lbrakk>polls_ok s; handles s h = Some x; h \<in> listed s; h_type x = UV_POLL\<rbrakk> \<Longrightarrow>
    \<exists>i. ios s (Io h) = Some i \<and> w_cb i = uv__poll_io \<and> 0 \<le> w_fd i \<and> (w_pevents i \<noteq> 0 \<longleftrightarrow> uv__is_active x)"
  by (simp add: polls_ok_def)

lemma polls_ok_active: "\<lbrakk>polls_ok s; ios s (Io h) = Some i; w_pevents i \<noteq> 0\<rbrakk> \<Longrightarrow>
    \<exists>x. handles s h = Some x \<and> h_type x = UV_POLL \<and> uv__is_active x"
  unfolding polls_ok_def by blast

lemma polls_okI:
  "\<lbrakk>\<And>h x. \<lbrakk>handles s h = Some x; h \<in> listed s; h_type x = UV_POLL\<rbrakk> \<Longrightarrow>
      \<exists>i. ios s (Io h) = Some i \<and> w_cb i = uv__poll_io \<and> 0 \<le> w_fd i \<and> (w_pevents i \<noteq> 0 \<longleftrightarrow> uv__is_active x);
    \<And>h i. \<lbrakk>ios s (Io h) = Some i; w_pevents i \<noteq> 0\<rbrakk> \<Longrightarrow>
      \<exists>x. handles s h = Some x \<and> h_type x = UV_POLL \<and> uv__is_active x\<rbrakk> \<Longrightarrow> polls_ok s"
  unfolding polls_ok_def by blast

lemma polls_ok_handle:
  assumes "polls_ok s" and "handles s h = Some x" and "h_type x' = h_type x"
    and "uv__is_active x' = uv__is_active x \<or> h_type x \<noteq> UV_POLL"
    and "handles s' = (handles s)(h \<mapsto> x')" "listed s' = listed s" "ios s' = ios s"
  shows "polls_ok s'"
proof (rule polls_okI)
  fix g y
  assume g: "handles s' g = Some y" "g \<in> listed s'" "h_type y = UV_POLL"
  show "\<exists>i. ios s' (Io g) = Some i \<and> w_cb i = uv__poll_io \<and> 0 \<le> w_fd i \<and> (w_pevents i \<noteq> 0 \<longleftrightarrow> uv__is_active y)"
  proof (cases "g = h")
    case True
    with g assms(2-6) show ?thesis using polls_okD [OF assms(1,2)] by (simp add: assms(7))
  next
    case False
    with g assms(5,6) show ?thesis using polls_okD [OF assms(1), of g y] by (simp add: assms(7))
  qed
next
  fix g i
  assume "ios s' (Io g) = Some i" "w_pevents i \<noteq> 0"
  with polls_ok_active [OF assms(1), of g i] assms(2-5,7)
  show "\<exists>y. handles s' g = Some y \<and> h_type y = UV_POLL \<and> uv__is_active y" by auto
qed

text \<open>A handle loses its activity, or its callback changes.\<close>

lemma closing_ok_handle:
  "\<lbrakk>closing_ok batch s; handles s h = Some x; uv__is_active x' \<longrightarrow> uv__is_active x \<or> \<not> uv__is_closing x;
    has (h_flags x') UV_HANDLE_CLOSING = has (h_flags x) UV_HANDLE_CLOSING;
    has (h_flags x') UV_HANDLE_CLOSED = has (h_flags x) UV_HANDLE_CLOSED;
    handles s' = (handles s)(h \<mapsto> x'); listed s' = listed s; closing_handles s' = closing_handles s\<rbrakk>
   \<Longrightarrow> closing_ok batch s'"
  unfolding closing_ok_def is_closing_iff by auto

lemma ios_ok_cong: "\<lbrakk>ios_ok s; ios s' = ios s; watchers s' = watchers s; nfds s' = nfds s;
    watcher_queue s' = watcher_queue s\<rbrakk> \<Longrightarrow> ios_ok s'"
  unfolding ios_ok_def by simp

lemma handles_ok_cong: "\<lbrakk>handles_ok s; handles s' = handles s; handle_queue s' = handle_queue s;
    walk_queue s' = walk_queue s; active_handles s' = active_handles s\<rbrakk> \<Longrightarrow> handles_ok s'"
  unfolding handles_ok_def listed_def counted_def by simp

lemma closing_ok_eq: "\<lbrakk>handles s' = handles s; listed s' = listed s;
    closing_handles s' = closing_handles s\<rbrakk> \<Longrightarrow> closing_ok b s' \<longleftrightarrow> closing_ok b s"
  by (simp add: closing_ok_def)

lemma polls_ok_eq: "\<lbrakk>handles s' = handles s; listed s' = listed s; ios s' = ios s\<rbrakk> \<Longrightarrow> polls_ok s' \<longleftrightarrow> polls_ok s"
  by (simp add: polls_ok_def)

lemma kinds_ok_eq: "\<lbrakk>handles s' = handles s; watcher_handles s' = watcher_handles s;
    watcher_batch s' = watcher_batch s\<rbrakk> \<Longrightarrow> kinds_ok s' \<longleftrightarrow> kinds_ok s"
  by (simp add: kinds_ok_def)

lemma signals_ok_eq: "\<lbrakk>handles s' = handles s; signal_tree s' = signal_tree s;
    signal_pipe s' = signal_pipe s\<rbrakk> \<Longrightarrow> signals_ok s' \<longleftrightarrow> signals_ok s"
  by (simp add: signals_ok_def)

text \<open>A change of the trace, of the events in flight, of memory or of the queues of callbacks.\<close>

lemma loop_ok_cong:
  assumes "loop_ok b s" and e: "handles s' = handles s" "ios s' = ios s" "handle_queue s' = handle_queue s"
    "walk_queue s' = walk_queue s" "active_handles s' = active_handles s" "closing_handles s' = closing_handles s"
    "watchers s' = watchers s" "nfds s' = nfds s" "watcher_queue s' = watcher_queue s"
    "watcher_handles s' = watcher_handles s" "watcher_batch s' = watcher_batch s" "signal_tree s' = signal_tree s"
    "signal_pipe s' = signal_pipe s"
  shows "loop_ok b s'"
proof -
  have l: "listed s' = listed s" by (simp add: listed_def e)
  note ok = assms(1) [unfolded loop_ok_def]
  show ?thesis unfolding loop_ok_def
    using handles_ok_cong [of s s', OF _ e(1,3,4,5)] closing_ok_eq [of s' s b, OF e(1) l e(6)]
      ios_ok_cong [of s s', OF _ e(2,7,8,9)] polls_ok_eq [of s' s, OF e(1) l e(2)]
      kinds_ok_eq [of s' s, OF e(1,10,11)] signals_ok_eq [of s' s, OF e(1,12,13)] ok by simp
qed

text \<open>A change of fields of a handle that no part of the invariant looks at.\<close>

lemma loop_ok_set:
  assumes "loop_ok b s" and x: "handles s h = Some x"
    and e: "h_type x' = h_type x" "h_flags x' = h_flags x" "signum x' = signum x"
  shows "loop_ok b (set_handle h x' s)"
proof -
  have f: "uv__is_active x' = uv__is_active x" "counts x' = counts x" "uv__is_closing x' = uv__is_closing x"
    using e(2) by (simp_all add: uv__is_active_def uv__has_ref_def counts_def uv__is_closing_def)
  note ok = assms(1) [unfolded loop_ok_def]
  have "uv__is_active x' \<longrightarrow> h \<in> listed s" using ok x f(1) by (auto simp: handles_ok_def)
  then have "handles_ok (set_handle h x' (s\<lparr>active_handles := active_handles s + (if counts x' then 1 else 0) -
      (if counts x then 1 else 0)\<rparr>))"
    using ok x by - (rule handles_ok_set, simp_all)
  then have "handles_ok (set_handle h x' s)" by (rule handles_ok_cong) (simp_all add: f)
  moreover have "closing_ok b (set_handle h x' s)"
    using ok x e f by - (rule closing_ok_handle [of b s h x x'], simp_all)
  moreover have "polls_ok (set_handle h x' s)" using ok x e f by - (rule polls_ok_handle [of s h x x'], simp_all)
  moreover have "kinds_ok (set_handle h x' s)" using ok x e f by - (rule kinds_ok_handle [of s h x x'], simp_all)
  moreover have "signals_ok (set_handle h x' s)" using ok x e f by - (rule signals_ok_handle [of s h x x'], simp_all)
  moreover have "ios_ok (set_handle h x' s)" using ok by - (rule ios_ok_cong [of s], simp_all)
  ultimately show ?thesis by (simp add: loop_ok_def)
qed

section \<open>Stopping a poll handle\<close>

lemma unwatch_simps [simp]:
  "handles (unwatch w i s) = handles s" "handle_queue (unwatch w i s) = handle_queue s"
  "walk_queue (unwatch w i s) = walk_queue s" "active_handles (unwatch w i s) = active_handles s"
  "closing_handles (unwatch w i s) = closing_handles s" "watcher_handles (unwatch w i s) = watcher_handles s"
  "watcher_batch (unwatch w i s) = watcher_batch s" "signal_tree (unwatch w i s) = signal_tree s"
  "trace (unwatch w i s) = trace s" "backend_fd (unwatch w i s) = backend_fd s"
  "in_flight (unwatch w i s) = in_flight s" "mem (unwatch w i s) = mem s" "stop_flag (unwatch w i s) = stop_flag s"
  "uv_loop.more (unwatch w i s) = uv_loop.more s" "length (watchers (unwatch w i s)) = length (watchers s)"
  "listed (unwatch w i s) = listed s" "active_reqs (unwatch w i s) = active_reqs s"
  "pending_queue (unwatch w i s) = pending_queue s" "signal_pipe (unwatch w i s) = signal_pipe s"
  "timers (unwatch w i s) = timers s" "async_handles (unwatch w i s) = async_handles s"
  "signal_pipefd (unwatch w i s) = signal_pipefd s" "pending_batch (unwatch w i s) = pending_batch s"
  by (simp_all add: unwatch_def Let_def listed_def)

definition unpoll :: "nat \<Rightarrow> 'cb uv_handle \<Rightarrow> uv__io_t \<Rightarrow> ('cb, 'm) uv_loop_scheme \<Rightarrow> ('cb, 'm) uv_loop_scheme" where
  "unpoll h x i s =
     (with_flags h x (h_flags x AND NOT UV_HANDLE_ACTIVE) (unwatch (Io h) i s))
       \<lparr>in_flight := List.map (\<lambda>(e, f). (e, if f = w_fd i then -1 else f)) (in_flight s),
        trace := if 0 \<le> backend_fd s then Epoll_ctl EPOLL_CTL_DEL (w_fd i) 0 # trace s else trace s\<rparr>"

lemma poll_stop_eq:
  assumes "ios_ok s" and "handles s h = Some x" and "ios s (Io h) = Some i" and "0 \<le> w_fd i"
    and "watchers s \<noteq> []"
  shows "uv__poll_stop k h s = Ret (unpoll h x i s)"
proof -
  let ?s1 = "unwatch (Io h) i s" and ?s2 = "with_flags h x (h_flags x AND NOT UV_HANDLE_ACTIVE) (unwatch (Io h) i s)"
  obtain j where j: "ios ?s1 (Io h) = Some j" "w_fd j = w_fd i" using unwatch_pevents [OF assms(1,3)] by blast
  have ne: "watchers ?s1 \<noteq> []" using assms(5) by (metis length_0_conv unwatch_simps(15))
  have "uv__handle_stop h ?s1 = Ret ?s2" by (rule handle_stop_eq) (simp add: assms(2))
  then show ?thesis using io_stop_all [OF assms(1,3,4)] j ne assms(4)
    by (simp add: uv__poll_stop_def with_io_def uv__platform_invalidate_fd_def Let_def unpoll_def)
qed

lemma unpoll_simps [simp]:
  "handles (unpoll h x i s) = (handles s)(h \<mapsto> x\<lparr>h_flags := h_flags x AND NOT UV_HANDLE_ACTIVE\<rparr>)"
  "handle_queue (unpoll h x i s) = handle_queue s" "walk_queue (unpoll h x i s) = walk_queue s"
  "closing_handles (unpoll h x i s) = closing_handles s" "watcher_handles (unpoll h x i s) = watcher_handles s"
  "watcher_batch (unpoll h x i s) = watcher_batch s" "signal_tree (unpoll h x i s) = signal_tree s"
  "backend_fd (unpoll h x i s) = backend_fd s" "mem (unpoll h x i s) = mem s"
  "uv_loop.more (unpoll h x i s) = uv_loop.more s" "length (watchers (unpoll h x i s)) = length (watchers s)"
  "listed (unpoll h x i s) = listed s" "ios (unpoll h x i s) = ios (unwatch (Io h) i s)"
  "watchers (unpoll h x i s) = watchers (unwatch (Io h) i s)" "nfds (unpoll h x i s) = nfds (unwatch (Io h) i s)"
  "watcher_queue (unpoll h x i s) = watcher_queue (unwatch (Io h) i s)" "stop_flag (unpoll h x i s) = stop_flag s"
  "active_reqs (unpoll h x i s) = active_reqs s" "pending_queue (unpoll h x i s) = pending_queue s"
  "signal_pipe (unpoll h x i s) = signal_pipe s" "timers (unpoll h x i s) = timers s"
  "async_handles (unpoll h x i s) = async_handles s" "signal_pipefd (unpoll h x i s) = signal_pipefd s"
  "pending_batch (unpoll h x i s) = pending_batch s"
  by (simp_all add: unpoll_def listed_def)

lemma unpoll_ok:
  assumes ok: "handles_ok s" "ios_ok s" "polls_ok s" "kinds_ok s" "signals_ok s"
    and x: "handles s h = Some x" "h_type x = UV_POLL" and i: "ios s (Io h) = Some i" "0 \<le> w_fd i"
  shows "handles_ok (unpoll h x i s)" "ios_ok (unpoll h x i s)" "polls_ok (unpoll h x i s)"
    "kinds_ok (unpoll h x i s)" "signals_ok (unpoll h x i s)"
proof -
  let ?x = "x\<lparr>h_flags := h_flags x AND NOT UV_HANDLE_ACTIVE\<rparr>"
  have "handles_ok (unwatch (Io h) i s)" by (rule handles_ok_cong [OF ok(1)]) simp_all
  then have "handles_ok (with_flags h x (h_flags x AND NOT UV_HANDLE_ACTIVE) (unwatch (Io h) i s))"
    by (rule handles_ok_flags) (simp_all add: x)
  then show "handles_ok (unpoll h x i s)" by (rule handles_ok_cong) (simp_all add: unpoll_def)
  show "ios_ok (unpoll h x i s)" by (rule ios_ok_cong [OF ios_ok_unwatch [OF ok(2) i]]) simp_all
  show "kinds_ok (unpoll h x i s)" using x by - (rule kinds_ok_handle [OF ok(4), of h x ?x], simp_all)
  show "signals_ok (unpoll h x i s)" using x by - (rule signals_ok_handle [OF ok(5), of h x ?x], simp_all)
  obtain j where j: "ios (unwatch (Io h) i s) (Io h) = Some j" "w_pevents j = 0" "w_fd j = w_fd i" "w_cb j = w_cb i"
    using unwatch_pevents [OF ok(2) i(1)] by blast
  have other: "ios (unwatch (Io h) i s) (Io g) = ios s (Io g)" if "g \<noteq> h" for g
    using that by (simp add: unwatch_ios)
  show "polls_ok (unpoll h x i s)"
  proof (rule polls_okI)
    fix g y
    assume g: "handles (unpoll h x i s) g = Some y" "g \<in> listed (unpoll h x i s)" "h_type y = UV_POLL"
    show "\<exists>i'. ios (unpoll h x i s) (Io g) = Some i' \<and> w_cb i' = uv__poll_io \<and> 0 \<le> w_fd i' \<and>
        (w_pevents i' \<noteq> 0 \<longleftrightarrow> uv__is_active y)"
    proof (cases "g = h")
      case True
      with polls_okD [OF ok(3) x(1) _ x(2)] g i have "w_cb i = uv__poll_io" by auto
      with g True j i(2) show ?thesis by (auto simp: is_active_flags)
    next
      case False
      with g polls_okD [OF ok(3), of g y] other [OF False] show ?thesis by simp
    qed
  next
    fix g i'
    assume g: "ios (unpoll h x i s) (Io g) = Some i'" "w_pevents i' \<noteq> 0"
    then have "g \<noteq> h" using j by auto
    with g polls_ok_active [OF ok(3), of g i'] other [OF this]
    show "\<exists>y. handles (unpoll h x i s) g = Some y \<and> h_type y = UV_POLL \<and> uv__is_active y" by auto
  qed
qed

lemma unpoll_closing:
  "closing_ok b s \<Longrightarrow> handles s h = Some x \<Longrightarrow> closing_ok b (unpoll h x i s)"
  by (rule closing_ok_handle [of b s h x "x\<lparr>h_flags := h_flags x AND NOT UV_HANDLE_ACTIVE\<rparr>"])
    (auto simp: is_active_flags)

section \<open>New handles\<close>

definition registered :: "nat \<Rightarrow> 'cb uv_handle \<Rightarrow> ('cb, 'm) uv_loop_scheme \<Rightarrow> ('cb, 'm) uv_loop_scheme" where
  "registered h x s = set_handle h x (s\<lparr>handle_queue := handle_queue s @ [h]\<rparr>)"

lemma handle_init_eq: "handles s h = Some x \<Longrightarrow>
    uv__handle_init h t s = Ret (registered h (x\<lparr>h_type := t, h_flags := UV_HANDLE_REF\<rparr>) s)"
  by (simp add: uv__handle_init_def with_handle_def registered_def)

lemma unlisted_signum: "loop_ok b s \<Longrightarrow> handles s h = Some x \<Longrightarrow> h \<notin> listed s \<Longrightarrow> signum x = 0"
  unfolding loop_ok_def handles_ok_def signals_ok_def by blast

lemma registered_ok:
  assumes "loop_ok b s" and x: "handles s h = Some x" "h \<notin> listed s" and f: "h_flags x' = UV_HANDLE_REF"
    and sg: "signum x' = 0"
    and io: "h_type x' = UV_POLL \<longrightarrow>
      (\<exists>i. ios s (Io h) = Some i \<and> w_cb i = uv__poll_io \<and> 0 \<le> w_fd i \<and> w_pevents i = 0)"
  shows "loop_ok b (registered h x' s)"
proof -
  let ?s = "registered h x' s"
  note ok = assms(1) [unfolded loop_ok_def]
  have l: "listed ?s = insert h (listed s)" by (auto simp: registered_def listed_def)
  have na: "\<not> uv__is_active x" using ok x by (auto simp: handles_ok_def)
  have na': "\<not> uv__is_active x'" "\<not> has (h_flags x') UV_HANDLE_CLOSING" "\<not> has (h_flags x') UV_HANDLE_CLOSED"
    using f by (simp_all add: uv__is_active_def)
  have "counted ?s = counted s" using na na' x by (auto simp: registered_def counted_def counts_def)
  then have "handles_ok ?s" using ok x na' by (auto simp: handles_ok_def l) (auto simp: registered_def listed_def split: if_splits)
  moreover have "closing_ok b ?s"
  proof -
    have "h \<notin> set (closing_handles s @ b)" using ok x(2) by (auto simp: closing_ok_def)
    then show ?thesis using ok na' unfolding closing_ok_def l by (auto simp: registered_def)
  qed
  moreover have "ios_ok ?s" using ok by (auto simp: registered_def elim!: ios_ok_cong)
  moreover have "polls_ok ?s"
  proof (rule polls_okI)
    fix g y
    assume g: "handles ?s g = Some y" "g \<in> listed ?s" "h_type y = UV_POLL"
    show "\<exists>i. ios ?s (Io g) = Some i \<and> w_cb i = uv__poll_io \<and> 0 \<le> w_fd i \<and> (w_pevents i \<noteq> 0 \<longleftrightarrow> uv__is_active y)"
    proof (cases "g = h")
      case True
      with g io na' show ?thesis by (auto simp: registered_def)
    next
      case False
      with g polls_okD [of s g y] ok show ?thesis by (simp add: registered_def listed_def)
    qed
  next
    fix g i
    assume g: "ios ?s (Io g) = Some i" "w_pevents i \<noteq> 0"
    with ok polls_ok_active [of s g i] obtain y where y: "handles s g = Some y" "h_type y = UV_POLL" "uv__is_active y"
      by (auto simp: registered_def)
    with na x have "g \<noteq> h" by auto
    with y show "\<exists>y. handles ?s g = Some y \<and> h_type y = UV_POLL \<and> uv__is_active y" by (simp add: registered_def)
  qed
  moreover have "kinds_ok ?s"
  proof -
    have "{g. \<exists>y. handles ?s g = Some y \<and> h_type y = t \<and> uv__is_active y} =
        {g. \<exists>y. handles s g = Some y \<and> h_type y = t \<and> uv__is_active y}" for t
      using na na' x by (auto simp: registered_def)
    then show ?thesis using ok by (simp add: kinds_ok_def registered_def)
  qed
  moreover have "signals_ok ?s"
  proof -
    have "signum x = 0" using ok x na unfolding signals_ok_def by auto
    then have "h \<notin> set (signal_tree s)" using ok x unfolding signals_ok_def by auto
    then show ?thesis using ok sg na' unfolding signals_ok_def by (auto simp: registered_def)
  qed
  ultimately show ?thesis by (simp add: loop_ok_def)
qed

text \<open>The watcher of a handle that is not registered is not in use.\<close>

lemma fresh_io_ok:
  assumes "loop_ok b s" and "h \<notin> listed s" and "w_pevents i = 0" and "w_events i = 0"
  shows "loop_ok b (set_io (Io h) i s)"
proof -
  note ok = assms(1) [unfolded loop_ok_def]
  have off: "w_pevents j = 0" if "ios s (Io h) = Some j" for j
  proof (rule ccontr)
    assume "w_pevents j \<noteq> 0"
    with that ok polls_ok_active [of s h j] obtain x where "handles s h = Some x" "uv__is_active x" by blast
    with ok assms(2) show False by (auto simp: handles_ok_def)
  qed
  have no_slot: "watchers s ! fd \<noteq> Some (Io h)" if "fd < length (watchers s)" for fd
    using ok that off unfolding loop_ok_def ios_ok_def by metis
  have no_queue: "Io h \<notin> set (watcher_queue s)" using ok off by (auto simp: ios_ok_def)
  have "ios_ok (set_io (Io h) i s)"
    using ok no_slot no_queue assms(3,4) unfolding ios_ok_def by (simp, blast)
  moreover have "polls_ok (set_io (Io h) i s)"
  proof (rule polls_okI)
    fix g y
    assume g: "handles (set_io (Io h) i s) g = Some y" "g \<in> listed (set_io (Io h) i s)" "h_type y = UV_POLL"
    then have "g \<noteq> h" using assms(2) by auto
    with g polls_okD [of s g y] ok show "\<exists>j. ios (set_io (Io h) i s) (Io g) = Some j \<and> w_cb j = uv__poll_io \<and>
        0 \<le> w_fd j \<and> (w_pevents j \<noteq> 0 \<longleftrightarrow> uv__is_active y)" by simp
  next
    fix g j
    assume g: "ios (set_io (Io h) i s) (Io g) = Some j" "w_pevents j \<noteq> 0"
    then have "g \<noteq> h" using assms(3) by auto
    with g polls_ok_active [of s g j] ok
    show "\<exists>y. handles (set_io (Io h) i s) g = Some y \<and> h_type y = UV_POLL \<and> uv__is_active y" by simp
  qed
  moreover have "handles_ok (set_io (Io h) i s)" using ok by (auto elim!: handles_ok_cong)
  ultimately show ?thesis
    using ok closing_ok_eq [of "set_io (Io h) i s" s b] kinds_ok_eq [of "set_io (Io h) i s" s]
      signals_ok_eq [of "set_io (Io h) i s" s] by (simp add: loop_ok_def)
qed

section \<open>Poll handles\<close>

text \<open>What the calls before the registration leave: only the trace grows.\<close>

definition traced :: "history \<Rightarrow> ('cb, 'm) uv_loop_scheme \<Rightarrow> ('cb, 'm) uv_loop_scheme" where
  "traced us s = s\<lparr>trace := us @ trace s\<rparr>"

lemma traced_Nil [simp]: "traced [] s = s"
  by (simp add: traced_def)

lemma traced_traced [simp]: "traced us (traced vs s) = traced (us @ vs) s"
  by (simp add: traced_def)

lemma traced_simps [simp]:
  "handles (traced us s) = handles s" "ios (traced us s) = ios s" "listed (traced us s) = listed s"
  "watchers (traced us s) = watchers s" "uv_loop.more (traced us s) = uv_loop.more s"
  "backend_fd (traced us s) = backend_fd s" "mem (traced us s) = mem s" "trace (traced us s) = us @ trace s"
  "handle_queue (traced us s) = handle_queue s" "walk_queue (traced us s) = walk_queue s"
  by (simp_all add: traced_def listed_def)

lemma loop_ok_traced [simp]: "loop_ok b (traced us s) \<longleftrightarrow> loop_ok b s"
  by (auto elim!: loop_ok_cong simp: traced_def)

lemma check_fd_Ret: "uv__io_check_fd k fd s = Ret (err, s') \<Longrightarrow> \<exists>us. s' = traced us s"
  unfolding uv__io_check_fd_def
  by (auto simp: Let_def traced_def split: if_splits intro: exI [of _ "[_]"] exI [of _ "[_, _]"])

lemma retry_Ret: "retry n k c s = Ret (r, s') \<Longrightarrow> \<exists>us. s' = traced us s"
proof (induction n arbitrary: s)
  case 0
  then show ?case by simp
next
  case (Suc n)
  show ?case
  proof (cases "rv (k (c # trace s)) = -1 \<and> errno (k (c # trace s)) = EINTR")
    case True
    with Suc.prems have "retry n k c (traced [c] s) = Ret (r, s')" by (simp add: traced_def)
    from Suc.IH [OF this] obtain us where "s' = traced us (traced [c] s)" by blast
    then show ?thesis by auto
  next
    case False
    with Suc.prems have "s' = traced [c] s" by (auto simp: traced_def)
    then show ?thesis by blast
  qed
qed

lemma nonblock_Ret: "uv__nonblock_ioctl k fd s = Ret (err, s') \<Longrightarrow> \<exists>us. s' = traced us s"
  by (auto simp: uv__nonblock_ioctl_def run_simps split: prod.splits dest: retry_Ret)

lemma nonblock_fcntl_Ret:
  assumes "uv__nonblock_fcntl k fd s = Ret (err, s')"
  shows "\<exists>us. s' = traced us s"
proof -
  from assms obtain r s1 where 1: "retry RETRIES k (Fcntl_getfl fd) s = Ret (r, s1)"
    and rest: "s' = s1 \<or> (\<exists>r2 s2. retry RETRIES k (Fcntl_setfl fd (rv r OR O_NONBLOCK)) s1 = Ret (r2, s2) \<and> s' = s2)"
    by (auto simp: uv__nonblock_fcntl_def run_simps split: if_splits)
  from retry_Ret [OF 1] obtain us where "s1 = traced us s" by blast
  with rest show ?thesis by (auto dest!: retry_Ret)
qed

definition poll_shape :: "'cb uv_handle \<Rightarrow> 'cb uv_handle" where
  "poll_shape x = x\<lparr>h_type := UV_POLL, h_flags := UV_HANDLE_REF, h_cb := None\<rparr>"

definition idle_io :: "int \<Rightarrow> uv__io_t" where
  "idle_io fd = \<lparr>w_cb = uv__poll_io, w_fd = fd, w_events = 0, w_pevents = 0\<rparr>"

lemma poll_init_Ret:
  assumes "uv_poll_init k h fd s = Ret (err, s')"
  shows "\<exists>us. (err \<noteq> 0 \<and> s' = traced us s) \<or>
    (err = 0 \<and> \<not> uv__fd_exists fd s \<and> (\<exists>x. handles s h = Some x \<and>
       s' = registered h (poll_shape x) (set_io (Io h) (idle_io fd) (traced us s))))"
proof (cases "uv__fd_exists fd s")
  case True
  with assms have "err \<noteq> 0 \<and> s' = traced [] s" by (simp add: uv_poll_init_def)
  then show ?thesis by blast
next
  case False
  with assms obtain err1 s1 where 1: "uv__io_check_fd k fd s = Ret (err1, s1)"
    and r1: "(if err1 \<noteq> 0 then Ret (err1, s1)
        else bnd (uv__nonblock_ioctl k fd s1) (\<lambda>(err, s2).
          bnd (if err = - int ENOTTY then uv__nonblock_fcntl k fd s2 else Ret (err, s2)) (\<lambda>(err, s3).
          if err \<noteq> 0 then Ret (err, s3)
          else bnd (uv__handle_init h UV_POLL s3) (\<lambda>s4.
            bnd (uv__io_init (Io h) uv__poll_io fd s4) (\<lambda>s5.
            with_handle h (\<lambda>x s. Ret (0, set_handle h (x\<lparr>h_cb := None\<rparr>) s)) s5))))) = Ret (err, s')"
    by (auto simp: uv_poll_init_def run_simps)
  from check_fd_Ret [OF 1] obtain us1 where s1: "s1 = traced us1 s" by blast
  show ?thesis
  proof (cases "err1 = 0")
    case False
    with r1 s1 show ?thesis by auto
  next
    case True
    with r1 obtain err2 s2 err3 s3 where 2: "uv__nonblock_ioctl k fd s1 = Ret (err2, s2)"
      and 3: "(if err2 = - int ENOTTY then uv__nonblock_fcntl k fd s2 else Ret (err2, s2)) = Ret (err3, s3)"
      and r3: "(if err3 \<noteq> 0 then Ret (err3, s3)
          else bnd (uv__handle_init h UV_POLL s3) (\<lambda>s4.
            bnd (uv__io_init (Io h) uv__poll_io fd s4) (\<lambda>s5.
            with_handle h (\<lambda>x s. Ret (0, set_handle h (x\<lparr>h_cb := None\<rparr>) s)) s5))) = Ret (err, s')"
      by (auto simp: run_simps)
    from nonblock_Ret [OF 2] s1 obtain us2 where s2: "s2 = traced us2 s" by auto
    from 3 s2 nonblock_fcntl_Ret [of k fd s2 err3 s3] obtain us where s3: "s3 = traced us s"
      by (auto split: if_splits)
    show ?thesis
    proof (cases "err3 = 0")
      case False
      with r3 s3 show ?thesis by auto
    next
      case True
      with r3 obtain s4 where s4: "uv__handle_init h UV_POLL s3 = Ret s4" by (auto simp: run_simps)
      then obtain x where x: "handles s h = Some x" by (auto simp: uv__handle_init_def run_simps s3)
      with s4 s3 have s4': "s4 = registered h (x\<lparr>h_type := UV_POLL, h_flags := UV_HANDLE_REF\<rparr>) (traced us s)"
        using handle_init_eq [of s3 h x UV_POLL] by simp
      from r3 True s4 have "err = 0" "s' = registered h (poll_shape x) (set_io (Io h) (idle_io fd) (traced us s))"
        by (auto simp: run_simps uv__io_init_def s4' registered_def set_handle_def set_io_def poll_shape_def idle_io_def)
      with x False show ?thesis by blast
    qed
  qed
qed

lemma poll_init_ok:
  assumes "loop_ok b s" and "uv_poll_init k h fd s = Ret (err, s')" and "h \<notin> listed s" and "0 \<le> fd"
  shows "loop_ok b s'"
proof -
  from poll_init_Ret [OF assms(2)] obtain us where
    "s' = traced us s \<or> (\<exists>x. handles s h = Some x \<and>
       s' = registered h (poll_shape x) (set_io (Io h) (idle_io fd) (traced us s)))" by blast
  then show ?thesis
  proof
    assume "\<exists>x. handles s h = Some x \<and> s' = registered h (poll_shape x) (set_io (Io h) (idle_io fd) (traced us s))"
    then obtain x where x: "handles s h = Some x"
      "s' = registered h (poll_shape x) (set_io (Io h) (idle_io fd) (traced us s))" by blast
    have "loop_ok b (set_io (Io h) (idle_io fd) (traced us s))"
      using assms(1,3) by (intro fresh_io_ok) (simp_all add: idle_io_def)
    then show ?thesis unfolding x(2)
      using x(1) assms(3,4) unlisted_signum [OF assms(1) x(1)]
      by (intro registered_ok) (simp_all add: poll_shape_def idle_io_def)
  qed (use assms(1) in simp)
qed

text \<open>The state a poll handle is left in by uv_poll_start: its watcher is stopped first, then asks for
  the new events.\<close>

definition poll_started :: "nat \<Rightarrow> 'cb uv_handle \<Rightarrow> uv__io_t \<Rightarrow> flags \<Rightarrow> 'cb option \<Rightarrow> nat \<Rightarrow> amem \<Rightarrow>
    ('cb, 'm) uv_loop_scheme \<Rightarrow> ('cb, 'm) uv_loop_scheme" where
  "poll_started h x i ev cb n m s =
     (let s1 = unpoll h x i s; x1 = x\<lparr>h_flags := h_flags x AND NOT UV_HANDLE_ACTIVE\<rparr>;
          i1 = the (ios s1 (Io h)); s2 = watch (Io h) i1 ev n m s1;
          f = h_flags x1 OR UV_HANDLE_ACTIVE; s3 = with_flags h x1 f s2
      in set_handle h (x1\<lparr>h_flags := f, h_cb := cb\<rparr>) s3)"

text \<open>A registered handle of a loop whose table exists.\<close>

definition poll_ready :: "nat \<Rightarrow> 'cb uv_handle \<Rightarrow> uv__io_t \<Rightarrow> ('cb, 'm) uv_loop_scheme \<Rightarrow> bool" where
  "poll_ready h x i s \<longleftrightarrow> handles s h = Some x \<and> h_type x = UV_POLL \<and> h \<in> listed s \<and> ios s (Io h) = Some i \<and>
     0 \<le> w_fd i \<and> watchers s \<noteq> []"

lemma fd_exists_nonneg: "0 \<le> fd \<Longrightarrow> fd < 2 ^ 32 \<Longrightarrow>
    uv__fd_exists fd s \<longleftrightarrow> nat fd < length (watchers s) \<and> watchers s ! nat fd \<noteq> None"
proof -
  assume "0 \<le> fd" "fd < 2 ^ 32"
  then have "unat (word_of_int fd :: 32 word) = nat fd" by (simp add: unsigned_of_int take_bit_int_eq_self)
  then show ?thesis by (simp add: uv__fd_exists_def)
qed

lemma unpoll_unused:
  assumes "ios_ok s" and "ios s (Io h) = Some i" and "0 \<le> w_fd i"
    and "\<not> (nat (w_fd i) < length (watchers s) \<and> watchers s ! nat (w_fd i) \<notin> {None, Some (Io h)})"
  shows "unused (Io h) (unpoll h x i s)"
proof -
  obtain j where j: "ios (unwatch (Io h) i s) (Io h) = Some j" "w_pevents j = 0" "w_fd j = w_fd i"
    using unwatch_pevents [OF assms(1,2)] by blast
  have "watchers (unwatch (Io h) i s) ! nat (w_fd i) = None" if "nat (w_fd i) < length (watchers s)"
    using that assms(4) by (auto simp: unwatch_def Let_def)
  with j assms(3) show ?thesis by (auto simp: unused_def)
qed

lemma poll_start_Ret:
  assumes ok: "ios_ok s" and r: "poll_ready h x i s" and fd: "w_fd i < 2 ^ 32"
    and run: "uv_poll_start k h pev cb s = Ret (err, s')"
  shows "(err = UV_EEXIST \<and> s' = s \<and> nat (w_fd i) < length (watchers s) \<and> watchers s ! nat (w_fd i) \<notin> {None, Some (Io h)}) \<or>
    (err = 0 \<and> pev = 0 \<and> s' = unpoll h x i s) \<or>
    (err = 0 \<and> (\<exists>n m. s' = poll_started h x i (poll_events pev) cb n m s \<and> unused (Io h) (unpoll h x i s) \<and>
       nat (w_fd i) < length (watchers s) + n \<and> poll_events pev \<noteq> 0 \<and> poll_events pev AND NOT POLL_ALL = 0 \<and>
       \<not> uv__is_closing x))"
proof -
  note rd = r [unfolded poll_ready_def]
  from run rd have nc: "\<not> uv__is_closing x" by (auto simp: uv_poll_start_def run_simps)
  from run rd nc have body: "(if uv__fd_exists (w_fd i) s \<and> watchers s ! nat (w_fd i) \<noteq> Some (Io h) then Ret (UV_EEXIST, s)
       else bnd (uv__poll_stop k h s) (\<lambda>s1. if pev = 0 then Ret (0, s1)
         else bnd (uv__io_start (Io h) (poll_events pev) s1) (\<lambda>s2.
           bnd (uv__handle_start h s2) (\<lambda>s3.
           with_handle h (\<lambda>x s. Ret (0, set_handle h (x\<lparr>h_cb := cb\<rparr>) s)) s3)))) = Ret (err, s')"
    by (auto simp: uv_poll_start_def run_simps)
  show ?thesis
  proof (cases "uv__fd_exists (w_fd i) s \<and> watchers s ! nat (w_fd i) \<noteq> Some (Io h)")
    case True
    with body rd fd fd_exists_nonneg [of "w_fd i" s] show ?thesis by auto
  next
    case False
    then have free: "\<not> (nat (w_fd i) < length (watchers s) \<and> watchers s ! nat (w_fd i) \<notin> {None, Some (Io h)})"
      using rd fd fd_exists_nonneg [of "w_fd i" s] by auto
    have st: "uv__poll_stop k h s = Ret (unpoll h x i s)" using ok rd by (intro poll_stop_eq) auto
    show ?thesis
    proof (cases "pev = 0")
      case True
      with body False st show ?thesis by auto
    next
      case pev: False
      let ?s1 = "unpoll h x i s" and ?x1 = "x\<lparr>h_flags := h_flags x AND NOT UV_HANDLE_ACTIVE\<rparr>"
      from body have "bnd (uv__io_start (Io h) (poll_events pev) ?s1) (\<lambda>s2.
           bnd (uv__handle_start h s2) (\<lambda>s3.
           with_handle h (\<lambda>x s. Ret (0, set_handle h (x\<lparr>h_cb := cb\<rparr>) s)) s3)) = Ret (err, s')"
        unfolding if_not_P [OF False] st bnd.simps if_not_P [OF pev] .
      then obtain s2 s3 where s2: "uv__io_start (Io h) (poll_events pev) ?s1 = Ret s2"
        and s3: "uv__handle_start h s2 = Ret s3"
        and s4: "with_handle h (\<lambda>x s. Ret (0, set_handle h (x\<lparr>h_cb := cb\<rparr>) s)) s3 = Ret (err, s')"
        unfolding bnd_eq_Ret by blast
      have "ios_ok (unwatch (Io h) i s)" using ok rd by (auto intro: ios_ok_unwatch)
      then have ok1: "ios_ok ?s1" by (rule ios_ok_cong) simp_all
      obtain i1 where i1: "ios ?s1 (Io h) = Some i1" "w_fd i1 = w_fd i"
        using unwatch_pevents [of s "Io h" i] ok rd by auto
      have un: "unused (Io h) ?s1" using ok rd free by (intro unpoll_unused) auto
      from io_start_Ret [OF ok1 un i1(1) s2] obtain n m where
        w: "s2 = watch (Io h) i1 (poll_events pev) n m ?s1" "nat (w_fd i1) < length (watchers ?s1) + n"
        "poll_events pev \<noteq> 0" "poll_events pev AND NOT POLL_ALL = 0" by blast
      have h2: "handles s2 h = Some ?x1" by (simp add: w(1) watch_def)
      from handle_start_eq [OF h2] s3 have s3e: "s3 = with_flags h ?x1 (h_flags ?x1 OR UV_HANDLE_ACTIVE) s2" by simp
      have i1': "the (ios (unwatch (Io h) i s) (Io h)) = i1" using i1(1) by simp
      from s4 have "err = 0" "s' = poll_started h x i (poll_events pev) cb n m s"
        by (simp_all add: run_simps s3e poll_started_def w(1) i1' Let_def)
      with w i1 un nc show ?thesis by auto
    qed
  qed
qed

lemma watch_simps [simp]:
  "handles (watch w i ev n m s) = handles s" "handle_queue (watch w i ev n m s) = handle_queue s"
  "walk_queue (watch w i ev n m s) = walk_queue s" "active_handles (watch w i ev n m s) = active_handles s"
  "closing_handles (watch w i ev n m s) = closing_handles s" "watcher_handles (watch w i ev n m s) = watcher_handles s"
  "watcher_batch (watch w i ev n m s) = watcher_batch s" "signal_tree (watch w i ev n m s) = signal_tree s"
  "trace (watch w i ev n m s) = trace s" "backend_fd (watch w i ev n m s) = backend_fd s"
  "listed (watch w i ev n m s) = listed s" "uv_loop.more (watch w i ev n m s) = uv_loop.more s"
  "stop_flag (watch w i ev n m s) = stop_flag s" "in_flight (watch w i ev n m s) = in_flight s"
  "signal_pipe (watch w i ev n m s) = signal_pipe s" "signal_pipefd (watch w i ev n m s) = signal_pipefd s"
  "pending_queue (watch w i ev n m s) = pending_queue s" "timers (watch w i ev n m s) = timers s"
  "active_reqs (watch w i ev n m s) = active_reqs s"
  "ios (watch w i ev n m s) = (ios s)(w \<mapsto> i\<lparr>w_pevents := ev\<rparr>)"
  by (simp_all add: watch_def listed_def)

text \<open>The stop before the start only loses the activity that the start gives back.\<close>

lemma poll_started_ok:
  assumes ok: "loop_ok b s" and r: "poll_ready h x i s" and nc: "\<not> uv__is_closing x"
    and un: "unused (Io h) (unpoll h x i s)" and l: "nat (w_fd i) < length (watchers s) + n"
    and ev: "ev \<noteq> 0" "ev AND NOT POLL_ALL = 0"
  shows "loop_ok b (poll_started h x i ev cb n m s)"
proof -
  note rd = r [unfolded poll_ready_def]
  note ok' = ok [unfolded loop_ok_def]
  let ?s1 = "unpoll h x i s" and ?x1 = "x\<lparr>h_flags := h_flags x AND NOT UV_HANDLE_ACTIVE\<rparr>"
  let ?f = "h_flags ?x1 OR UV_HANDLE_ACTIVE"
  have s1: "handles_ok ?s1" "ios_ok ?s1" "polls_ok ?s1" "kinds_ok ?s1" "signals_ok ?s1" "closing_ok b ?s1"
    using unpoll_ok [of s h x i] unpoll_closing [of b s h x i] ok' rd by auto
  obtain i1 where i1: "ios ?s1 (Io h) = Some i1" "w_fd i1 = w_fd i"
    using unwatch_pevents [of s "Io h" i] ok' rd by auto
  let ?s2 = "watch (Io h) i1 ev n m ?s1" and ?s3 = "with_flags h ?x1 ?f (watch (Io h) i1 ev n m ?s1)"
  have h1: "handles ?s1 h = Some ?x1" by simp
  have cb: "w_cb i1 = uv__poll_io" using polls_okD [OF s1(3) h1] rd i1 by auto
  have ios2: "ios_ok ?s2" using ios_ok_watch [OF s1(2) un i1(1), of n ev m] l i1(2) ev by simp
  have "handles_ok ?s2" by (rule handles_ok_cong [OF s1(1)]) simp_all
  then have "handles_ok ?s3" by (rule handles_ok_flags) (use rd in simp_all)
  moreover have "ios_ok ?s3" by (rule ios_ok_cong [OF ios2]) simp_all
  moreover have "closing_ok b ?s3"
    by (rule closing_ok_handle [OF s1(6) h1, of "x\<lparr>h_flags := ?f\<rparr>"]) (use nc in \<open>simp_all add: is_closing_iff\<close>)
  moreover have "kinds_ok ?s3" by (rule kinds_ok_handle [OF s1(4) h1, of "x\<lparr>h_flags := ?f\<rparr>"]) (use rd in simp_all)
  moreover have "signals_ok ?s3" by (rule signals_ok_handle [OF s1(5) h1, of "x\<lparr>h_flags := ?f\<rparr>"]) (use rd in simp_all)
  moreover have "polls_ok ?s3"
  proof (rule polls_okI)
    fix g y
    assume g: "handles ?s3 g = Some y" "g \<in> listed ?s3" "h_type y = UV_POLL"
    show "\<exists>j. ios ?s3 (Io g) = Some j \<and> w_cb j = uv__poll_io \<and> 0 \<le> w_fd j \<and> (w_pevents j \<noteq> 0 \<longleftrightarrow> uv__is_active y)"
    proof (cases "g = h")
      case True
      with g rd i1 ev cb show ?thesis by (auto simp: is_active_flags)
    next
      case False
      with g polls_okD [OF s1(3), of g y] show ?thesis by simp
    qed
  next
    fix g j
    assume g: "ios ?s3 (Io g) = Some j" "w_pevents j \<noteq> 0"
    show "\<exists>y. handles ?s3 g = Some y \<and> h_type y = UV_POLL \<and> uv__is_active y"
    proof (cases "g = h")
      case True
      with rd show ?thesis by (simp add: is_active_flags)
    next
      case False
      with g polls_ok_active [OF s1(3), of g j] show ?thesis by auto
    qed
  qed
  ultimately have "loop_ok b ?s3" by (simp add: loop_ok_def)
  then have "loop_ok b (set_handle h (x\<lparr>h_flags := ?f, h_cb := cb\<rparr>) ?s3)"
    by (rule loop_ok_set [of b ?s3 h "x\<lparr>h_flags := ?f\<rparr>"]) simp_all
  then show ?thesis unfolding poll_started_def Let_def i1(1) option.sel by simp
qed

lemma poll_start_ok:
  assumes "loop_ok b s" and "poll_ready h x i s" and "w_fd i < 2 ^ 32"
    and "uv_poll_start k h pev cb s = Ret (err, s')"
  shows "loop_ok b s'"
proof -
  have unp: "loop_ok b (unpoll h x i s)"
    using unpoll_ok [of s h x i] unpoll_closing [of b s h x i] assms(1,2) by (auto simp: loop_ok_def poll_ready_def)
  show ?thesis
    using poll_start_Ret [OF _ assms(2-4)] assms(1) unp poll_started_ok [OF assms(1,2)]
    by (auto simp: loop_ok_def)
qed

lemma poll_stop_ok:
  assumes "loop_ok b s" and "poll_ready h x i s" and "uv_poll_stop k h s = Ret s'"
  shows "loop_ok b s'" "s' = unpoll h x i s"
proof -
  have "uv__poll_stop k h s = Ret (unpoll h x i s)"
    using assms(1,2) by (intro poll_stop_eq) (auto simp: loop_ok_def poll_ready_def)
  then show s': "s' = unpoll h x i s" using assms(2,3) by (auto simp: uv_poll_stop_def run_simps poll_ready_def)
  show "loop_ok b s'" unfolding s'
    using unpoll_ok [of s h x i] unpoll_closing [of b s h x i] assms(1,2) by (auto simp: loop_ok_def poll_ready_def)
qed

section \<open>Idle, prepare and check handles\<close>

lemma watcher_init_ok:
  assumes "loop_ok b s" and "uv_watcher_init n h s = Ret s'" and "h \<notin> listed s"
  shows "loop_ok b s'"
proof -
  from assms(2) obtain x s1 where x: "handles s h = Some x" and s1: "uv__handle_init h (watcher_type n) s = Ret s1"
    by (auto simp: uv_watcher_init_def run_simps uv__handle_init_def)
  let ?x = "x\<lparr>h_type := watcher_type n, h_flags := UV_HANDLE_REF, h_cb := None\<rparr>"
  from s1 x handle_init_eq [of s h x "watcher_type n"]
  have s1e: "s1 = registered h (x\<lparr>h_type := watcher_type n, h_flags := UV_HANDLE_REF\<rparr>) s" by simp
  have "s' = registered h ?x s" using assms(2) s1
    by (simp add: uv_watcher_init_def with_handle_def s1e registered_def set_handle_def)
  then show ?thesis using registered_ok [of b s h x ?x] assms(1,3) x unlisted_signum [OF assms(1) x]
    by (cases n) simp_all
qed

text \<open>The handle joins or leaves the list of its kind as it becomes active or inactive.\<close>

lemma kinds_ok_start:
  assumes "kinds_ok s" and "handles s h = Some x" and "\<not> uv__is_active x" and "h_type x = watcher_type n"
    and "handles s' = (handles s)(h \<mapsto> x')" and "h_type x' = h_type x" and "uv__is_active x'"
    and "watcher_handles s' = (watcher_handles s)(n := h # watcher_handles s n)"
    and "watcher_batch s' = watcher_batch s"
  shows "kinds_ok s'"
  unfolding kinds_ok_def
proof
  fix m
  let ?A = "\<lambda>s. {g. \<exists>y. handles s g = Some y \<and> h_type y = watcher_type m \<and> uv__is_active y}"
  have k: "distinct (watcher_handles s m @ watcher_batch s m)"
    "set (watcher_handles s m @ watcher_batch s m) = ?A s"
    using assms(1) unfolding kinds_ok_def by blast+
  have inj: "watcher_type n = watcher_type m \<longleftrightarrow> n = m" by (cases n; cases m) simp_all
  show "distinct (watcher_handles s' m @ watcher_batch s' m) \<and> set (watcher_handles s' m @ watcher_batch s' m) = ?A s'"
  proof (cases "n = m")
    case True
    have "h \<notin> ?A s" using assms(2,3) by auto
    moreover have "?A s' = insert h (?A s)" using assms(4-7) True by auto
    ultimately show ?thesis using k True assms(8,9) by auto
  next
    case False
    then have "?A s' = ?A s" using assms(2,4-6) inj by auto
    then show ?thesis using k False assms(8,9) by simp
  qed
qed

lemma kinds_ok_stop:
  assumes "kinds_ok s" and "handles s h = Some x" and "h_type x = watcher_type n"
    and "handles s' = (handles s)(h \<mapsto> x')" and "h_type x' = h_type x" and "\<not> uv__is_active x'"
    and "watcher_handles s' = (watcher_handles s)(n := removeAll h (watcher_handles s n))"
    and "watcher_batch s' = (watcher_batch s)(n := removeAll h (watcher_batch s n))"
  shows "kinds_ok s'"
  unfolding kinds_ok_def
proof
  fix m
  let ?A = "\<lambda>s. {g. \<exists>y. handles s g = Some y \<and> h_type y = watcher_type m \<and> uv__is_active y}"
  have k: "distinct (watcher_handles s m @ watcher_batch s m)"
    "set (watcher_handles s m @ watcher_batch s m) = ?A s"
    using assms(1) unfolding kinds_ok_def by blast+
  have inj: "watcher_type n = watcher_type m \<longleftrightarrow> n = m" by (cases n; cases m) simp_all
  show "distinct (watcher_handles s' m @ watcher_batch s' m) \<and> set (watcher_handles s' m @ watcher_batch s' m) = ?A s'"
  proof (cases "n = m")
    case True
    have "?A s' = ?A s - {h}" using assms(4-6) True by auto
    then show ?thesis using k True assms(7,8) by (auto simp: distinct_removeAll)
  next
    case False
    then have "?A s' = ?A s" using assms(2-5) inj by auto
    then show ?thesis using k False assms(7,8) by simp
  qed
qed

text \<open>The groups of the invariant that a start or stop of a handle of another kind than poll keeps.\<close>

lemma with_flags_groups:
  assumes ok: "handles_ok s" "ios_ok s" "polls_ok s" and x: "handles s h = Some x"
    and t: "h_type x \<noteq> UV_POLL" and f: "has f UV_HANDLE_ACTIVE \<longrightarrow> h \<in> listed s"
  shows "handles_ok (with_flags h x f s)" "ios_ok (with_flags h x f s)" "polls_ok (with_flags h x f s)"
proof -
  show "handles_ok (with_flags h x f s)" using ok(1) x f by (rule handles_ok_flags)
  show "ios_ok (with_flags h x f s)" using ok(2) by (rule ios_ok_cong) simp_all
  show "polls_ok (with_flags h x f s)"
    by (rule polls_ok_handle [OF ok(3) x, of "x\<lparr>h_flags := f\<rparr>"]) (use t in simp_all)
qed

lemma watcher_type_simps [simp]: "watcher_type n \<noteq> UV_POLL" "watcher_type n \<noteq> UV_SIGNAL"
  "UV_POLL \<noteq> watcher_type n" "UV_SIGNAL \<noteq> watcher_type n"
  by (cases n; simp)+

text \<open>uv_idle_start, uv_prepare_start and uv_check_start on a handle that is not closing.\<close>

lemma watcher_start_ok:
  assumes ok: "loop_ok b s" and x: "handles s h = Some x" "h_type x = watcher_type n" "h \<in> listed s"
    and nc: "\<not> uv__is_closing x" and r: "uv_watcher_start n h cb s = Ret (err, s')"
  shows "loop_ok b s'"
proof (cases "uv__is_active x \<or> cb = None")
  case True
  then have "uv_watcher_start n h cb s = Ret (if uv__is_active x then 0 else UV_EINVAL, s)"
    using x(1) by (auto simp: uv_watcher_start_def with_handle_def)
  with r ok show ?thesis by simp
next
  case False
  let ?x1 = "x\<lparr>h_cb := cb\<rparr>" and ?s1 = "set_handle h (x\<lparr>h_cb := cb\<rparr>)
    (s\<lparr>watcher_handles := (watcher_handles s)(n := h # watcher_handles s n)\<rparr>)"
  let ?f = "h_flags x OR UV_HANDLE_ACTIVE" and ?x2 = "x\<lparr>h_cb := cb, h_flags := h_flags x OR UV_HANDLE_ACTIVE\<rparr>"
  have "uv__handle_start h ?s1 = Ret (with_flags h ?x1 ?f ?s1)"
    using handle_start_eq [of ?s1 h ?x1] by simp
  then have s': "s' = with_flags h ?x1 ?f ?s1" using r x(1) False
    by (auto simp: uv_watcher_start_def with_handle_def Let_def)
  have lo: "loop_ok b (set_handle h ?x1 s)" by (rule loop_ok_set [OF ok x(1)]) simp_all
  note ok' = ok [unfolded loop_ok_def] and lo' = lo [unfolded loop_ok_def]
  have "handles_ok ?s1" by (rule handles_ok_cong [of "set_handle h ?x1 s"]) (use lo' in simp_all)
  moreover have "ios_ok ?s1" by (rule ios_ok_cong [of "set_handle h ?x1 s"]) (use lo' in simp_all)
  moreover have "polls_ok ?s1"
    using polls_ok_eq [of ?s1 "set_handle h ?x1 s"] lo' by (simp add: listed_def)
  ultimately have g: "handles_ok s'" "ios_ok s'" "polls_ok s'"
    using with_flags_groups [of ?s1 h ?x1 ?f] x unfolding s' by (simp_all add: listed_def)
  have h': "handles s' = (handles s)(h \<mapsto> ?x2)" by (simp add: s')
  moreover have "listed s' = listed s" by (simp add: s' listed_def)
  ultimately have "closing_ok b s'"
    by - (rule closing_ok_handle [of b s h x ?x2], use ok' x nc in \<open>simp_all add: s'\<close>)
  moreover have "signals_ok s'"
    by (rule signals_ok_handle [of s h x ?x2]) (use ok' x in \<open>simp_all add: s' listed_def\<close>)
  moreover have "kinds_ok s'"
    by (rule kinds_ok_start [of s h x n s' ?x2]) (use ok' x False in \<open>simp_all add: s' is_active_flags\<close>)
  ultimately show ?thesis using g by (simp add: loop_ok_def)
qed

definition unstarted :: "loop_watcher \<Rightarrow> nat \<Rightarrow> 'cb uv_handle \<Rightarrow> ('cb, 'm) uv_loop_scheme \<Rightarrow> ('cb, 'm) uv_loop_scheme" where
  "unstarted n h x s = with_flags h x (h_flags x AND NOT UV_HANDLE_ACTIVE)
     (s\<lparr>watcher_handles := (watcher_handles s)(n := removeAll h (watcher_handles s n)),
        watcher_batch := (watcher_batch s)(n := removeAll h (watcher_batch s n))\<rparr>)"

lemma watcher_stop_eq: "handles s h = Some x \<Longrightarrow>
    uv_watcher_stop n h s = Ret (if uv__is_active x then unstarted n h x s else s)"
  using handle_stop_eq [of "s\<lparr>watcher_handles := (watcher_handles s)(n := removeAll h (watcher_handles s n)),
        watcher_batch := (watcher_batch s)(n := removeAll h (watcher_batch s n))\<rparr>" h x]
  by (simp add: uv_watcher_stop_def with_handle_def unstarted_def)

lemma unstarted_groups:
  assumes ok: "handles_ok s" "ios_ok s" "polls_ok s" "kinds_ok s" "signals_ok s"
    and x: "handles s h = Some x" "h_type x = watcher_type n"
  shows "handles_ok (unstarted n h x s)" "ios_ok (unstarted n h x s)" "polls_ok (unstarted n h x s)"
    "kinds_ok (unstarted n h x s)" "signals_ok (unstarted n h x s)"
proof -
  let ?s1 = "s\<lparr>watcher_handles := (watcher_handles s)(n := removeAll h (watcher_handles s n)),
        watcher_batch := (watcher_batch s)(n := removeAll h (watcher_batch s n))\<rparr>"
  let ?x = "x\<lparr>h_flags := h_flags x AND NOT UV_HANDLE_ACTIVE\<rparr>"
  have "handles_ok ?s1" "ios_ok ?s1" using ok(1,2) by (auto elim!: handles_ok_cong ios_ok_cong)
  moreover have "polls_ok ?s1" using polls_ok_eq [of ?s1 s] ok(3) by (simp add: listed_def)
  ultimately show "handles_ok (unstarted n h x s)" "ios_ok (unstarted n h x s)" "polls_ok (unstarted n h x s)"
    unfolding unstarted_def using x by (auto intro!: with_flags_groups)
  show "kinds_ok (unstarted n h x s)"
    by (rule kinds_ok_stop [OF ok(4) x, of _ ?x]) (simp_all add: unstarted_def is_active_flags)
  show "signals_ok (unstarted n h x s)"
    by (rule signals_ok_handle [OF ok(5) x(1), of ?x]) (use x in \<open>simp_all add: unstarted_def listed_def\<close>)
qed

lemma unstarted_simps [simp]:
  "handles (unstarted n h x s) = (handles s)(h \<mapsto> x\<lparr>h_flags := h_flags x AND NOT UV_HANDLE_ACTIVE\<rparr>)"
  "handle_queue (unstarted n h x s) = handle_queue s" "walk_queue (unstarted n h x s) = walk_queue s"
  "closing_handles (unstarted n h x s) = closing_handles s" "listed (unstarted n h x s) = listed s"
  "ios (unstarted n h x s) = ios s" "watchers (unstarted n h x s) = watchers s"
  "uv_loop.more (unstarted n h x s) = uv_loop.more s" "mem (unstarted n h x s) = mem s"
  "signal_tree (unstarted n h x s) = signal_tree s" "trace (unstarted n h x s) = trace s"
  by (simp_all add: unstarted_def listed_def)

lemma watcher_stop_ok:
  assumes "loop_ok b s" and x: "handles s h = Some x" "h_type x = watcher_type n"
    and "uv_watcher_stop n h s = Ret s'"
  shows "loop_ok b s'"
proof -
  note ok = assms(1) [unfolded loop_ok_def]
  have "closing_ok b (unstarted n h x s)"
    by (rule closing_ok_handle [of b s h x "x\<lparr>h_flags := h_flags x AND NOT UV_HANDLE_ACTIVE\<rparr>"])
      (use ok x in \<open>simp_all add: is_active_flags\<close>)
  then have "loop_ok b (unstarted n h x s)" using unstarted_groups [OF _ _ _ _ _ x] ok by (simp add: loop_ok_def)
  then show ?thesis using assms(1,4) watcher_stop_eq [OF x(1), of n] by (auto split: if_splits)
qed

end
