(* ===== verification/Uv_Closing.thy ===== *)
theory Uv_Closing
  imports Uv_Ops
begin

text \<open>
  Signal handles, uv_close, the end of closing and the walk over the handles keep the invariant of
  the loop. A handle that is closed stays in the queue until uv__run_closing_handles has called its
  callback.
\<close>

section \<open>Signal handles\<close>

text \<open>The invariant without the part on closing.\<close>

definition core_ok :: "('cb, 'm) uv_loop_scheme \<Rightarrow> bool" where
  "core_ok s \<longleftrightarrow> handles_ok s \<and> ios_ok s \<and> polls_ok s \<and> kinds_ok s \<and> signals_ok s"

lemma loop_ok_core: "loop_ok b s \<longleftrightarrow> core_ok s \<and> closing_ok b s"
  by (auto simp: loop_ok_def core_ok_def)

lemma core_ok_cong:
  assumes "core_ok s" and "handles s' = handles s" "ios s' = ios s" "handle_queue s' = handle_queue s"
    "walk_queue s' = walk_queue s" "active_handles s' = active_handles s"
    "watchers s' = watchers s" "nfds s' = nfds s" "watcher_queue s' = watcher_queue s"
    "watcher_handles s' = watcher_handles s" "watcher_batch s' = watcher_batch s" "signal_tree s' = signal_tree s"
    "signal_pipe s' = signal_pipe s"
  shows "core_ok s'"
proof -
  have l: "listed s' = listed s" by (simp add: listed_def assms)
  note ok = assms(1) [unfolded core_ok_def]
  show ?thesis unfolding core_ok_def
    using handles_ok_cong [of s s', OF _ assms(2,4,5,6)] ios_ok_cong [of s s', OF _ assms(3,7,8,9)]
      polls_ok_eq [of s' s, OF assms(2) l assms(3)] kinds_ok_eq [of s' s, OF assms(2,10,11)]
      signals_ok_eq [of s' s, OF assms(2,12,13)] ok by simp
qed

lemma core_ok_set:
  assumes "core_ok s" and x: "handles s h = Some x" "h \<in> listed s"
    and e: "h_type x' = h_type x" "uv__is_active x' = uv__is_active x" "uv__has_ref x' = uv__has_ref x"
      "signum x' = signum x"
  shows "core_ok (set_handle h x' s)"
proof -
  have f: "counts x' = counts x" using e by (simp add: counts_def)
  note ok = assms(1) [unfolded core_ok_def]
  have "handles_ok (set_handle h x' (s\<lparr>active_handles := active_handles s + (if counts x' then 1 else 0) -
      (if counts x then 1 else 0)\<rparr>))"
    using ok x by - (rule handles_ok_set, simp_all)
  then have "handles_ok (set_handle h x' s)" by (rule handles_ok_cong) (simp_all add: f)
  moreover have "polls_ok (set_handle h x' s)" using ok x e by - (rule polls_ok_handle [of s h x x'], simp_all)
  moreover have "kinds_ok (set_handle h x' s)" using ok x e by - (rule kinds_ok_handle [of s h x x'], simp_all)
  moreover have "signals_ok (set_handle h x' s)" using ok x e by - (rule signals_ok_handle [of s h x x'], simp_all)
  moreover have "ios_ok (set_handle h x' s)" using ok by - (rule ios_ok_cong [of s], simp_all)
  ultimately show ?thesis by (simp add: core_ok_def)
qed

lemma signals_okD: "\<lbrakk>signals_ok s; handles s h = Some x; h_type x = UV_SIGNAL\<rbrakk> \<Longrightarrow>
    uv__is_active x \<longleftrightarrow> signum x \<noteq> 0"
  by (simp add: signals_ok_def)

definition unsignalled :: "nat \<Rightarrow> 'cb uv_handle \<Rightarrow> history \<Rightarrow> ('cb, 'm) uv_loop_scheme \<Rightarrow> ('cb, 'm) uv_loop_scheme" where
  "unsignalled h x us s = with_flags h (x\<lparr>signum := 0\<rparr>) (h_flags x AND NOT UV_HANDLE_ACTIVE)
     (set_handle h (x\<lparr>signum := 0\<rparr>) (traced us (s\<lparr>signal_tree := removeAll h (signal_tree s)\<rparr>)))"

lemma signal_rehook_Ret: "signal_rehook k x first s = Ret s' \<Longrightarrow> \<exists>us. s' = traced us s"
  unfolding signal_rehook_def uv__signal_unregister_handler_def uv__signal_register_handler_def
  by (auto simp: traced_def Let_def run_simps split: option.splits if_splits
      intro: exI [of _ "[]"] exI [of _ "[_]"])

lemma signal_stop_Ret:
  assumes "uv__signal_stop k h s = Ret s'" and x: "handles s h = Some x"
  shows "if signum x = 0 then s' = s else \<exists>us. s' = unsignalled h x us s"
proof (cases "signum x = 0")
  case False
  let ?r = "s\<lparr>signal_tree := removeAll h (signal_tree s)\<rparr>"
  from assms False obtain first s2 where c: "signal_rehook k x first ?r = Ret s2"
    and r: "uv__handle_stop h (set_handle h (x\<lparr>signum := 0\<rparr>) s2) = Ret s'"
    by (auto simp: uv__signal_stop_def with_handle_def Let_def run_simps)
  from signal_rehook_Ret [OF c] obtain us where s2: "s2 = traced us (s\<lparr>signal_tree := removeAll h (signal_tree s)\<rparr>)"
    by blast
  have "s' = unsignalled h x us s"
    using r handle_stop_eq [of "set_handle h (x\<lparr>signum := 0\<rparr>) s2" h "x\<lparr>signum := 0\<rparr>"]
    by (simp add: s2 unsignalled_def)
  then show ?thesis using False by auto
qed (use assms in \<open>simp add: uv__signal_stop_def with_handle_def\<close>)

lemma unsignalled_simps [simp]:
  "handles (unsignalled h x us s) = (handles s)(h \<mapsto> x\<lparr>signum := 0, h_flags := h_flags x AND NOT UV_HANDLE_ACTIVE\<rparr>)"
  "handle_queue (unsignalled h x us s) = handle_queue s" "walk_queue (unsignalled h x us s) = walk_queue s"
  "closing_handles (unsignalled h x us s) = closing_handles s" "listed (unsignalled h x us s) = listed s"
  "ios (unsignalled h x us s) = ios s" "watchers (unsignalled h x us s) = watchers s"
  "uv_loop.more (unsignalled h x us s) = uv_loop.more s" "mem (unsignalled h x us s) = mem s"
  "signal_tree (unsignalled h x us s) = removeAll h (signal_tree s)" "signal_pipe (unsignalled h x us s) = signal_pipe s"
  "pending_queue (unsignalled h x us s) = pending_queue s" "pending_batch (unsignalled h x us s) = pending_batch s"
  "timers (unsignalled h x us s) = timers s" "signal_pipefd (unsignalled h x us s) = signal_pipefd s"
  "trace (unsignalled h x us s) = us @ trace s"
  by (simp_all add: unsignalled_def listed_def traced_def)

lemma unsignalled_ok:
  assumes "core_ok s" and x: "handles s h = Some x" "h_type x = UV_SIGNAL" "h \<in> listed s"
  shows "core_ok (unsignalled h x us s)"
proof -
  note ok = assms(1) [unfolded core_ok_def]
  let ?z = "x\<lparr>signum := 0\<rparr>" and ?x = "x\<lparr>signum := 0, h_flags := h_flags x AND NOT UV_HANDLE_ACTIVE\<rparr>"
  let ?s1 = "set_handle h ?z (traced us (s\<lparr>signal_tree := removeAll h (signal_tree s)\<rparr>))"
  have a: "uv__is_active ?z = uv__is_active x" "counts ?z = counts x"
    by (simp_all add: uv__is_active_def counts_def uv__has_ref_def)
  have "handles_ok (set_handle h ?z (s\<lparr>active_handles := active_handles s + (if counts ?z then 1 else 0) -
      (if counts x then 1 else 0)\<rparr>))" using ok x by - (rule handles_ok_set, simp_all)
  then have 1: "handles_ok ?s1" by (rule handles_ok_cong) (simp_all add: a traced_def)
  have 2: "ios_ok ?s1" using ok by - (rule ios_ok_cong [of s], simp_all add: traced_def)
  have "polls_ok (set_handle h ?z s)" using ok x a by - (rule polls_ok_handle [of s h x ?z], simp_all)
  then have 3: "polls_ok ?s1"
    using polls_ok_eq [of ?s1 "set_handle h ?z s"] by (simp add: listed_def traced_def)
  have g: "handles_ok (unsignalled h x us s)" "ios_ok (unsignalled h x us s)" "polls_ok (unsignalled h x us s)"
    unfolding unsignalled_def using 1 2 3 x by (auto intro!: with_flags_groups)
  have "kinds_ok (unsignalled h x us s)"
    by (rule kinds_ok_handle [of s h x ?x]) (use ok x in \<open>simp_all add: unsignalled_def traced_def\<close>)
  moreover have "signals_ok (unsignalled h x us s)"
    using ok x unfolding signals_ok_def unsignalled_simps
    by (auto simp: distinct_removeAll uv__is_active_def)
  ultimately show ?thesis using g by (simp add: core_ok_def)
qed

lemma compare_same: "uv__signal_compare a x b y = 0 \<Longrightarrow> a = b"
  by (auto simp: uv__signal_compare_def Let_def split: if_splits)

lemma tree_insert_Ret: "tree_insert hs a x bs = Ret cs \<Longrightarrow> a \<notin> set bs \<Longrightarrow>
    set cs = insert a (set bs) \<and> (distinct bs \<longrightarrow> distinct cs)"
proof (induction bs arbitrary: cs)
  case Nil
  then show ?case by auto
next
  case (Cons b bs)
  then obtain y where y: "hs b = Some y" by (cases "hs b") auto
  consider "uv__signal_compare a x b y < 0" | "\<not> uv__signal_compare a x b y < 0" "uv__signal_compare a x b y \<noteq> 0"
    using Cons.prems compare_same [of a x b y] by auto
  then show ?case
  proof cases
    case 1
    with Cons.prems y show ?thesis by auto
  next
    case 2
    with Cons.prems y obtain ds where "tree_insert hs a x bs = Ret ds" "cs = b # ds" by (auto simp: run_simps)
    with Cons show ?thesis by auto
  qed
qed

lemma unsignalled_closing: "closing_ok b s \<Longrightarrow> handles s h = Some x \<Longrightarrow> closing_ok b (unsignalled h x us s)"
  by (rule closing_ok_handle [of b s h x "x\<lparr>signum := 0, h_flags := h_flags x AND NOT UV_HANDLE_ACTIVE\<rparr>"])
    (auto simp: uv__is_active_def)

lemma signal_stop_ok:
  assumes "loop_ok b s" and "uv__signal_stop k h s = Ret s'"
    and "handles s h = Some x" "h_type x = UV_SIGNAL" "h \<in> listed s"
  shows "loop_ok b s'"
proof (cases "signum x = 0")
  case True
  then show ?thesis using signal_stop_Ret [OF assms(2,3)] assms(1) by simp
next
  case False
  then obtain us where s': "s' = unsignalled h x us s" using signal_stop_Ret [OF assms(2,3)] by auto
  show ?thesis unfolding s' loop_ok_core
    using unsignalled_ok [of s h x us] unsignalled_closing [of b s h x us] assms by (simp add: loop_ok_core)
qed

text \<open>On a loop whose signal pipe is there.\<close>

lemma signal_init_ok:
  assumes ok: "loop_ok b s" and r: "uv_signal_init k h s = Ret (err, s')" and "h \<notin> listed s"
    and pipe: "fst (signal_pipefd s) \<noteq> -1"
  shows "loop_ok b s'"
proof -
  have once: "uv__signal_loop_once_init k s = Ret (0, s)" using pipe by (simp add: uv__signal_loop_once_init_def)
  from r once obtain s1 where s1: "uv__handle_init h UV_SIGNAL s = Ret s1"
    and s': "with_handle h (\<lambda>x s. Ret (0, set_handle h (x\<lparr>signum := 0, caught_signals := 0, dispatched_signals := 0\<rparr>) s)) s1
      = Ret (err, s')" by (auto simp: uv_signal_init_def run_simps)
  from s1 obtain x where x: "handles s h = Some x" by (auto simp: uv__handle_init_def run_simps)
  let ?x = "x\<lparr>h_type := UV_SIGNAL, h_flags := UV_HANDLE_REF, signum := 0, caught_signals := 0, dispatched_signals := 0\<rparr>"
  have s1e: "s1 = registered h (x\<lparr>h_type := UV_SIGNAL, h_flags := UV_HANDLE_REF\<rparr>) s"
    using handle_init_eq [OF x, of UV_SIGNAL] s1 by simp
  have "s' = registered h ?x s" using s' by (simp add: s1e with_handle_def registered_def set_handle_def)
  then show ?thesis using registered_ok [OF ok x assms(3), of ?x] by simp
qed

text \<open>uv_signal_start on a handle that watches no signal: it joins the tree and becomes active.\<close>

definition signalled :: "nat \<Rightarrow> 'cb uv_handle \<Rightarrow> 'cb option \<Rightarrow> int \<Rightarrow> nat list \<Rightarrow> history \<Rightarrow> ('cb, 'm) uv_loop_scheme \<Rightarrow>
    ('cb, 'm) uv_loop_scheme" where
  "signalled h x cb sig tree us s = with_flags h (x\<lparr>signum := sig, h_cb := cb\<rparr>) (h_flags x OR UV_HANDLE_ACTIVE)
     (set_handle h (x\<lparr>signum := sig, h_cb := cb\<rparr>) (traced us (s\<lparr>signal_tree := tree\<rparr>)))"

lemma signal_start_Ret:
  fixes s :: "('cb, 'm) uv_loop_scheme"
  assumes r: "uv_signal_start k h cb sig s = Ret (err, s')" and x: "handles s h = Some x"
    and idle: "signum x = 0" and sg: "sig \<noteq> 0"
  shows "\<not> uv__is_closing x \<and> ((err \<noteq> 0 \<and> (\<exists>us. s' = traced us s)) \<or>
    (err = 0 \<and> (\<exists>us tree. tree_insert (handles s) h (x\<lparr>signum := sig\<rparr>) (signal_tree s) = Ret tree \<and>
      s' = signalled h x cb sig tree us s)))"
proof -
  let ?go = "\<lambda>err s2. if err \<noteq> 0 then Ret (err, s2)
         else with_handle h (\<lambda>x s. let x1 = x\<lparr>signum := sig, h_flags := if False then h_flags x OR UV_SIGNAL_ONE_SHOT else h_flags x\<rparr> in
           bnd (tree_insert (handles s) h x1 (signal_tree s)) (\<lambda>tree.
           bnd (uv__handle_start h (set_handle h (x1\<lparr>h_cb := cb\<rparr>) (s\<lparr>signal_tree := tree\<rparr>))) (\<lambda>s3. Ret (0, s3)))) s2"
  have ne: "sig \<noteq> signum x" using idle sg by simp
  from r x idle sg obtain first :: "'cb uv_handle option" where nc: "\<not> uv__is_closing x"
    and f: "(let (err, s2) = (if first = None \<or> (\<not> False \<and> has (h_flags (the first)) UV_SIGNAL_ONE_SHOT)
                          then uv__signal_register_handler k sig False s else (0, s)) in ?go err s2) = Ret (err, s')"
    by (auto simp: uv_signal_start_def uv__signal_start_def with_handle_def run_simps)
  then obtain e us where g: "?go e (traced us s) = Ret (err, s')"
  proof (cases "first = None \<or> has (h_flags (the first)) UV_SIGNAL_ONE_SHOT")
    case True
    obtain e s2 where R: "uv__signal_register_handler k sig False s = (e, s2)" by fastforce
    then have "s2 = traced [Sigaction sig True False] s"
      by (auto simp: uv__signal_register_handler_def traced_def Let_def)
    moreover have "?go e s2 = Ret (err, s')" using f True R by simp
    ultimately show ?thesis using that by blast
  next
    case False
    with f have "?go 0 (traced [] s) = Ret (err, s')" by simp
    then show ?thesis by (rule that)
  qed
  show ?thesis
  proof (cases "e = 0")
    case False
    with g nc show ?thesis by auto
  next
    case True
    let ?y = "x\<lparr>signum := sig, h_cb := cb\<rparr>"
    from g True x obtain tree s3 where t: "tree_insert (handles s) h (x\<lparr>signum := sig\<rparr>) (signal_tree s) = Ret tree"
      and s3: "uv__handle_start h (set_handle h ?y (traced us s\<lparr>signal_tree := tree\<rparr>)) = Ret s3" "err = 0" "s' = s3"
      by (auto simp: with_handle_def Let_def run_simps traced_def)
    have "traced us s\<lparr>signal_tree := tree\<rparr> = traced us (s\<lparr>signal_tree := tree\<rparr>)" by (simp add: traced_def)
    with s3 handle_start_eq [of "set_handle h ?y (traced us (s\<lparr>signal_tree := tree\<rparr>))" h ?y]
    have "s' = signalled h x cb sig tree us s" by (simp add: signalled_def)
    with t s3(2) nc show ?thesis by auto
  qed
qed

lemma signalled_ok:
  assumes ok: "loop_ok b s" and x: "handles s h = Some x" "h_type x = UV_SIGNAL" "h \<in> listed s"
    and idle: "signum x = 0" and nc: "\<not> uv__is_closing x" and sg: "sig \<noteq> 0"
    and t: "tree_insert (handles s) h (x\<lparr>signum := sig\<rparr>) (signal_tree s) = Ret tree"
  shows "loop_ok b (signalled h x cb sig tree us s)"
proof -
  note ok' = ok [unfolded loop_ok_def]
  let ?y = "x\<lparr>signum := sig, h_cb := cb\<rparr>" and ?f = "h_flags x OR UV_HANDLE_ACTIVE"
  let ?r = "set_handle h ?y (traced us (s\<lparr>signal_tree := tree\<rparr>))" and ?s = "signalled h x cb sig tree us s"
  let ?z = "x\<lparr>signum := sig, h_cb := cb, h_flags := h_flags x OR UV_HANDLE_ACTIVE\<rparr>"
  have a: "uv__is_active ?y = uv__is_active x" "counts ?y = counts x"
    by (simp_all add: uv__is_active_def counts_def uv__has_ref_def)
  have na: "\<not> uv__is_active x" using signals_okD [OF _ x(1,2)] ok' idle by simp
  have nt: "h \<notin> set (signal_tree s)" using ok' x idle by (auto simp: signals_ok_def)
  from tree_insert_Ret [OF t nt] ok' have tr: "set tree = insert h (set (signal_tree s))" "distinct tree"
    by (auto simp: signals_ok_def)
  have l: "listed ?s = listed s" by (simp add: signalled_def listed_def traced_def)
  have "handles_ok (set_handle h ?y (s\<lparr>active_handles := active_handles s + (if counts ?y then 1 else 0) -
      (if counts x then 1 else 0)\<rparr>))" using ok' x by - (rule handles_ok_set, simp_all)
  then have 1: "handles_ok ?r" by (rule handles_ok_cong) (simp_all add: a traced_def)
  have 2: "ios_ok ?r" using ok' by - (rule ios_ok_cong [of s], simp_all add: traced_def)
  have "polls_ok (set_handle h ?y s)" using ok' x a by - (rule polls_ok_handle [of s h x ?y], simp_all)
  then have 3: "polls_ok ?r" using polls_ok_eq [of ?r "set_handle h ?y s"] by (simp add: listed_def traced_def)
  have "handles_ok ?s" "ios_ok ?s" "polls_ok ?s"
    using with_flags_groups [OF 1 2 3, of h ?y ?f] x by (simp_all add: signalled_def listed_def traced_def)
  moreover have "closing_ok b ?s"
    by (rule closing_ok_handle [of b s h x ?z]) (use ok' x nc in \<open>simp_all add: signalled_def traced_def listed_def\<close>)
  moreover have "kinds_ok ?s"
    by (rule kinds_ok_handle [of s h x ?z]) (use ok' x in \<open>simp_all add: signalled_def traced_def\<close>)
  moreover have "signals_ok ?s"
    using ok' x sg tr unfolding signals_ok_def l
    by (auto simp: signalled_def traced_def uv__is_active_def)
  ultimately show ?thesis by (simp add: loop_ok_def)
qed

lemma signal_start_ok:
  assumes "loop_ok b s" and "uv_signal_start k h cb sig s = Ret (err, s')"
    and x: "handles s h = Some x" "h_type x = UV_SIGNAL" "h \<in> listed s" and idle: "signum x = 0"
  shows "loop_ok b s'"
proof (cases "sig = 0")
  case True
  then have "s' = s" using assms(2) x(1)
    by (auto simp: uv_signal_start_def uv__signal_start_def with_handle_def run_simps)
  then show ?thesis using assms(1) by simp
next
  case False
  from signal_start_Ret [OF assms(2) x(1) idle False] show ?thesis
    using signalled_ok [OF assms(1) x idle _ False] assms(1) by auto
qed

section \<open>References\<close>

lemma handle_unref_eq:
  assumes x: "handles s h = Some x" and cl: "has (h_flags x) UV_HANDLE_CLOSING \<longrightarrow> \<not> uv__is_active x"
  shows "uv__handle_unref h s = Ret (with_flags h x (h_flags x AND NOT UV_HANDLE_REF) s)"
proof (cases "has (h_flags x) UV_HANDLE_REF")
  case False
  then have "h_flags x AND NOT UV_HANDLE_REF = h_flags x" by (simp add: flag_absorbs)
  then show ?thesis using x False
    by (simp add: uv__handle_unref_def with_handle_def with_flags_def set_handle_def map_upd_triv)
next
  case True
  with x cl show ?thesis
    by (simp add: uv__handle_unref_def with_handle_def with_flags_def set_handle_def Let_def counts_def
        uv__is_active_def uv__has_ref_def uv__active_handle_rm_def)
qed

lemma flags_ok:
  assumes ok: "core_ok s" and x: "handles s h = Some x"
    and f: "has f UV_HANDLE_ACTIVE = has (h_flags x) UV_HANDLE_ACTIVE"
  shows "core_ok (with_flags h x f s)"
proof -
  note ok' = ok [unfolded core_ok_def]
  let ?y = "x\<lparr>h_flags := f\<rparr>"
  have a: "uv__is_active ?y = uv__is_active x" using f by (simp add: uv__is_active_def)
  have "handles_ok (with_flags h x f s)"
    using ok' x f by - (rule handles_ok_flags, auto simp: handles_ok_def uv__is_active_def)
  moreover have "ios_ok (with_flags h x f s)" using ok' by - (rule ios_ok_cong [of s], simp_all)
  moreover have "polls_ok (with_flags h x f s)" using ok' x a by - (rule polls_ok_handle [of s h x ?y], simp_all)
  moreover have "kinds_ok (with_flags h x f s)" using ok' x a by - (rule kinds_ok_handle [of s h x ?y], simp_all)
  moreover have "signals_ok (with_flags h x f s)" using ok' x a by - (rule signals_ok_handle [of s h x ?y], simp_all)
  ultimately show ?thesis by (simp add: core_ok_def)
qed

lemma flags_loop_ok:
  assumes ok: "loop_ok b s" and x: "handles s h = Some x"
    and f: "has f UV_HANDLE_ACTIVE = has (h_flags x) UV_HANDLE_ACTIVE"
      "has f UV_HANDLE_CLOSING = has (h_flags x) UV_HANDLE_CLOSING"
      "has f UV_HANDLE_CLOSED = has (h_flags x) UV_HANDLE_CLOSED"
  shows "loop_ok b (with_flags h x f s)"
proof -
  have "closing_ok b (with_flags h x f s)"
    by (rule closing_ok_handle [of b s h x "x\<lparr>h_flags := f\<rparr>"])
      (use ok x f in \<open>simp_all add: loop_ok_core uv__is_active_def\<close>)
  then show ?thesis using flags_ok [of s h x f] ok x f(1) by (simp add: loop_ok_core)
qed

lemma handle_ref_ok:
  assumes ok: "loop_ok b s" and r: "uv__handle_ref h s = Ret s'"
  shows "loop_ok b s'"
proof -
  note ok' = ok [unfolded loop_ok_def]
  from r obtain x where x: "handles s h = Some x" by (auto simp: uv__handle_ref_def run_simps)
  let ?f = "h_flags x OR UV_HANDLE_REF"
  have cl: "has (h_flags x) UV_HANDLE_CLOSING \<Longrightarrow> \<not> has (h_flags x) UV_HANDLE_ACTIVE"
    using ok' x by (auto simp: closing_ok_def uv__is_active_def)
  have "s' = (if has (h_flags x) UV_HANDLE_REF then s else with_flags h x ?f s)"
    using r x cl by (auto simp: uv__handle_ref_def with_handle_def with_flags_def Let_def counts_def
        uv__is_active_def uv__has_ref_def uv__active_handle_add_def set_handle_def split: if_splits)
  moreover have "loop_ok b (with_flags h x ?f s)" using ok x by (rule flags_loop_ok) simp_all
  ultimately show ?thesis using ok by simp
qed

lemma handle_unref_ok:
  assumes ok: "loop_ok b s" and r: "uv__handle_unref h s = Ret s'"
  shows "loop_ok b s'"
proof -
  from r obtain x where x: "handles s h = Some x" by (auto simp: uv__handle_unref_def run_simps)
  have "has (h_flags x) UV_HANDLE_CLOSING \<longrightarrow> \<not> uv__is_active x"
    using ok x by (auto simp: loop_ok_core closing_ok_def)
  with r handle_unref_eq [OF x] have "s' = with_flags h x (h_flags x AND NOT UV_HANDLE_REF) s" by simp
  then show ?thesis using flags_loop_ok [OF ok x, of "h_flags x AND NOT UV_HANDLE_REF"] by simp
qed

section \<open>uv_close\<close>

text \<open>Every kind of handle is stopped by its own function; none changes another handle.\<close>

definition stopped_from :: "nat \<Rightarrow> 'cb uv_handle \<Rightarrow> ('cb, 'm) uv_loop_scheme \<Rightarrow> ('cb, 'm) uv_loop_scheme \<Rightarrow> bool" where
  "stopped_from h x s s' \<longleftrightarrow> core_ok s' \<and> handle_queue s' = handle_queue s \<and> walk_queue s' = walk_queue s \<and>
     closing_handles s' = closing_handles s \<and> uv_loop.more s' = uv_loop.more s \<and> mem s' = mem s \<and>
     length (watchers s') = length (watchers s) \<and> signal_pipefd s' = signal_pipefd s \<and>
     stop_flag s' = stop_flag s \<and> active_reqs s' = active_reqs s \<and> pending_queue s' = pending_queue s \<and>
     signal_pipe s' = signal_pipe s \<and> backend_fd s' = backend_fd s \<and>
     (\<forall>n. set (watcher_batch s' n) \<subseteq> set (watcher_batch s n)) \<and> pending_batch s' = pending_batch s \<and>
     (h_type x \<noteq> UV_TIMER \<longrightarrow> timers s' = timers s) \<and>
     (\<exists>y. handles s' = (handles s)(h \<mapsto> y) \<and> h_type y = h_type x \<and> \<not> uv__is_active y \<and>
       h_flags y = h_flags x AND NOT UV_HANDLE_ACTIVE \<and> close_cb y = close_cb x \<and> h_data y = h_data x \<and>
       h_cb y = h_cb x \<and> caught_signals y = caught_signals x \<and> dispatched_signals y = dispatched_signals x \<and>
       u_fd y = u_fd x \<and> (h_type x \<noteq> UV_ASYNC \<longrightarrow> pending y = pending x))"

lemma stopped_fromI:
  assumes "core_ok s'" and "handle_queue s' = handle_queue s" "walk_queue s' = walk_queue s"
    "closing_handles s' = closing_handles s" "uv_loop.more s' = uv_loop.more s" "mem s' = mem s"
    "length (watchers s') = length (watchers s)" "signal_pipefd s' = signal_pipefd s" "stop_flag s' = stop_flag s"
    "active_reqs s' = active_reqs s" "pending_queue s' = pending_queue s" "signal_pipe s' = signal_pipe s"
    "backend_fd s' = backend_fd s" "\<And>n. set (watcher_batch s' n) \<subseteq> set (watcher_batch s n)"
    "pending_batch s' = pending_batch s" "h_type x \<noteq> UV_TIMER \<Longrightarrow> timers s' = timers s"
    and "handles s' = (handles s)(h \<mapsto> y)" "h_type y = h_type x" "h_flags y = h_flags x AND NOT UV_HANDLE_ACTIVE"
    "close_cb y = close_cb x" "h_data y = h_data x" "h_cb y = h_cb x" "caught_signals y = caught_signals x"
    "dispatched_signals y = dispatched_signals x" "u_fd y = u_fd x" "h_type x \<noteq> UV_ASYNC \<Longrightarrow> pending y = pending x"
  shows "stopped_from h x s s'"
  unfolding stopped_from_def using assms by (auto simp: uv__is_active_def)

lemma stopped_already:
  assumes "core_ok s" and "handles s h = Some x" and "\<not> uv__is_active x"
  shows "stopped_from h x s s"
proof -
  have "h_flags x = h_flags x AND NOT UV_HANDLE_ACTIVE"
    using assms(3) unfolding uv__is_active_def by (simp add: flag_absorbs)
  then show ?thesis using assms(1,2) by (intro stopped_fromI [where y = x]) (simp_all add: map_upd_triv)
qed

lemma flags_other_kind_ok:
  assumes ok: "core_ok s" and x: "handles s h = Some x" "h_type x \<in> {UV_ASYNC, UV_TIMER}"
    and f: "has f UV_HANDLE_ACTIVE \<longrightarrow> h \<in> listed s"
  shows "core_ok (with_flags h x f s)"
proof -
  note ok' = ok [unfolded core_ok_def]
  let ?y = "x\<lparr>h_flags := f\<rparr>"
  have "kinds_ok (with_flags h x f s)" using ok' x by - (rule kinds_ok_handle [of s h x ?y], auto)
  moreover have "signals_ok (with_flags h x f s)" using ok' x by - (rule signals_ok_handle [of s h x ?y], auto)
  ultimately show ?thesis using with_flags_groups [of s h x f] ok' x f by (auto simp: core_ok_def)
qed

lemma close_by_type_stops:
  assumes ok: "core_ok s" and x: "handles s h = Some x" "h \<in> listed s" and tbl: "watchers s \<noteq> []"
    and r: "close_by_type k (h_type x) h s = Ret s'"
  shows "stopped_from h x s s'"
proof -
  note ok' = ok [unfolded core_ok_def]
  have watcher: "stopped_from h x s s'" if "h_type x = watcher_type n" "uv_watcher_stop n h s = Ret s'" for n
  proof (cases "uv__is_active x")
    case True
    then have s': "s' = unstarted n h x s" using that watcher_stop_eq [OF x(1), of n] by simp
    have "core_ok s'" unfolding s' using unstarted_groups [of s h x n] ok' x that by (simp add: core_ok_def)
    then show ?thesis
      by (rule stopped_fromI [where y = "x\<lparr>h_flags := h_flags x AND NOT UV_HANDLE_ACTIVE\<rparr>"])
        (simp_all add: s' unstarted_def)
  next
    case False
    then have "s' = s" using that watcher_stop_eq [OF x(1), of n] by simp
    then show ?thesis using stopped_already [OF ok x(1) False] by simp
  qed
  show ?thesis
  proof (cases "h_type x")
    case UV_PREPARE
    then show ?thesis using r watcher [of Prepare] by (simp add: close_by_type_def)
  next
    case UV_CHECK
    then show ?thesis using r watcher [of Check] by (simp add: close_by_type_def)
  next
    case UV_IDLE
    then show ?thesis using r watcher [of Idle] by (simp add: close_by_type_def)
  next
    case UV_POLL
    with polls_okD [OF _ x] ok' obtain i where i: "ios s (Io h) = Some i" "0 \<le> w_fd i" by auto
    have s': "s' = unpoll h x i s"
      using r UV_POLL poll_stop_eq [OF _ x(1) i tbl] ok' by (simp add: close_by_type_def)
    have "core_ok s'" unfolding s' using unpoll_ok [of s h x i] ok' x i UV_POLL by (simp add: core_ok_def)
    then show ?thesis
      by (rule stopped_fromI [where y = "x\<lparr>h_flags := h_flags x AND NOT UV_HANDLE_ACTIVE\<rparr>"]) (simp_all add: s')
  next
    case UV_SIGNAL
    with r have st: "uv__signal_stop k h s = Ret s'" by (simp add: close_by_type_def)
    show ?thesis
    proof (cases "signum x = 0")
      case True
      then have "\<not> uv__is_active x" using signals_okD [OF _ x(1) UV_SIGNAL] ok' by simp
      moreover have "s' = s" using signal_stop_Ret [OF st x(1)] True by simp
      ultimately show ?thesis using stopped_already [OF ok x(1)] by simp
    next
      case False
      then obtain us where s': "s' = unsignalled h x us s" using signal_stop_Ret [OF st x(1)] by auto
      have "core_ok s'" unfolding s' using unsignalled_ok [OF ok x(1) UV_SIGNAL x(2)] .
      then show ?thesis
        by (rule stopped_fromI [where y = "x\<lparr>signum := 0, h_flags := h_flags x AND NOT UV_HANDLE_ACTIVE\<rparr>"])
          (simp_all add: s' unsignalled_def traced_def)
    qed
  next
    case UV_TIMER
    with r have st: "uv_timer_stop h s = Ret s'" by (simp add: close_by_type_def uv__timer_close_def)
    show ?thesis
    proof (cases "uv__is_active x")
      case False
      then have "s' = s" using st x by (simp add: uv_timer_stop_def with_handle_def)
      then show ?thesis using stopped_already [OF ok x(1) False] by simp
    next
      case True
      let ?r = "s\<lparr>timers := removeAll h (timers s)\<rparr>" and ?f = "h_flags x AND NOT UV_HANDLE_ACTIVE"
      have s': "s' = with_flags h x ?f ?r" using st x True handle_stop_eq [of ?r h x]
        by (simp add: uv_timer_stop_def with_handle_def)
      have "core_ok ?r" using ok by (rule core_ok_cong) simp_all
      then have "core_ok s'" unfolding s' using x UV_TIMER by (intro flags_other_kind_ok) simp_all
      then show ?thesis by (rule stopped_fromI [where y = "x\<lparr>h_flags := ?f\<rparr>"]) (simp_all add: s' UV_TIMER)
    qed
  next
    case UV_ASYNC
    let ?x = "x\<lparr>pending := True\<rparr>" and ?f = "h_flags x AND NOT UV_HANDLE_ACTIVE"
    let ?q = "set_handle h ?x s"
    let ?r = "?q\<lparr>async_handles := removeAll h (async_handles s), async_batch := removeAll h (async_batch s)\<rparr>"
    have s': "s' = with_flags h ?x ?f ?r"
      using r UV_ASYNC x(1) handle_stop_eq [of ?r h ?x]
      by (auto simp: close_by_type_def uv__async_close_def uv__async_spin_def with_handle_def split: if_splits)
    have "core_ok ?q" using ok x by - (rule core_ok_set [of s h x], simp_all add: uv__is_active_def uv__has_ref_def)
    then have "core_ok ?r" by (rule core_ok_cong) simp_all
    then have "core_ok s'" unfolding s' using x UV_ASYNC by (intro flags_other_kind_ok) simp_all
    then show ?thesis by (rule stopped_fromI [where y = "x\<lparr>pending := True, h_flags := ?f\<rparr>"]) (simp_all add: s' UV_ASYNC)
  qed
qed

text \<open>The handle after uv_close: closing, not active, first in the list of closing handles.\<close>

definition closed_from :: "nat \<Rightarrow> 'cb uv_handle \<Rightarrow> 'cb option \<Rightarrow> ('cb, 'm) uv_loop_scheme \<Rightarrow> ('cb, 'm) uv_loop_scheme \<Rightarrow> bool" where
  "closed_from h x cb s s' \<longleftrightarrow> handle_queue s' = handle_queue s \<and> walk_queue s' = walk_queue s \<and>
     closing_handles s' = h # closing_handles s \<and> uv_loop.more s' = uv_loop.more s \<and> mem s' = mem s \<and>
     length (watchers s') = length (watchers s) \<and> signal_pipefd s' = signal_pipefd s \<and>
     stop_flag s' = stop_flag s \<and> active_reqs s' = active_reqs s \<and> pending_queue s' = pending_queue s \<and>
     signal_pipe s' = signal_pipe s \<and> backend_fd s' = backend_fd s \<and>
     (\<forall>n. set (watcher_batch s' n) \<subseteq> set (watcher_batch s n)) \<and> pending_batch s' = pending_batch s \<and>
     (h_type x \<noteq> UV_TIMER \<longrightarrow> timers s' = timers s) \<and>
     (\<exists>y. handles s' = (handles s)(h \<mapsto> y) \<and> h_type y = h_type x \<and> \<not> uv__is_active y \<and>
       h_flags y = (h_flags x OR UV_HANDLE_CLOSING) AND NOT UV_HANDLE_ACTIVE \<and> close_cb y = cb \<and> h_data y = h_data x \<and>
       h_cb y = h_cb x \<and> caught_signals y = caught_signals x \<and> dispatched_signals y = dispatched_signals x \<and>
       u_fd y = u_fd x \<and> (h_type x \<noteq> UV_ASYNC \<longrightarrow> pending y = pending x))"

lemma uv_close_Ret:
  assumes ok: "loop_ok b s" and x: "handles s h = Some x" "h \<in> listed s" and tbl: "watchers s \<noteq> []"
    and r: "uv_close k h cb s = Ret s'"
  shows "loop_ok b s'" "closed_from h x cb s s'" "\<not> uv__is_closing x"
proof -
  let ?x = "x\<lparr>h_flags := h_flags x OR UV_HANDLE_CLOSING, close_cb := cb\<rparr>" and ?r = "set_handle h
    (x\<lparr>h_flags := h_flags x OR UV_HANDLE_CLOSING, close_cb := cb\<rparr>) s"
  from r x(1) show nc: "\<not> uv__is_closing x" by (auto simp: uv_close_def run_simps)
  from r x(1) obtain s1 where s1: "close_by_type k (h_type x) h ?r = Ret s1"
    and s': "uv__make_close_pending h s1 = Ret s'" by (auto simp: uv_close_def run_simps)
  have core: "core_ok ?r" using ok x
    by - (rule core_ok_set [of s h x], simp_all add: loop_ok_core uv__is_active_def uv__has_ref_def)
  have "stopped_from h ?x ?r s1"
    using close_by_type_stops [OF core, of h ?x k s1] x tbl s1 by simp
  then obtain y where c1: "core_ok s1" and y: "handles s1 = (handles s)(h \<mapsto> y)" "h_type y = h_type x"
      "\<not> uv__is_active y" "h_flags y = (h_flags x OR UV_HANDLE_CLOSING) AND NOT UV_HANDLE_ACTIVE"
      "close_cb y = cb" "h_data y = h_data x" "h_cb y = h_cb x" "caught_signals y = caught_signals x"
      "dispatched_signals y = dispatched_signals x" "u_fd y = u_fd x" "h_type x \<noteq> UV_ASYNC \<longrightarrow> pending y = pending x"
    and q: "handle_queue s1 = handle_queue s" "walk_queue s1 = walk_queue s" "closing_handles s1 = closing_handles s"
      "uv_loop.more s1 = uv_loop.more s" "mem s1 = mem s" "length (watchers s1) = length (watchers s)"
      "signal_pipefd s1 = signal_pipefd s" "stop_flag s1 = stop_flag s" "active_reqs s1 = active_reqs s"
      "pending_queue s1 = pending_queue s" "signal_pipe s1 = signal_pipe s" "backend_fd s1 = backend_fd s"
      "\<forall>n. set (watcher_batch s1 n) \<subseteq> set (watcher_batch s n)" "pending_batch s1 = pending_batch s"
      "h_type x \<noteq> UV_TIMER \<longrightarrow> timers s1 = timers s"
    unfolding stopped_from_def by auto
  have s'e: "s' = s1\<lparr>closing_handles := h # closing_handles s\<rparr>"
    using s' y(1) q(3) by (auto simp: uv__make_close_pending_def run_simps)
  show "closed_from h x cb s s'" unfolding closed_from_def s'e using y q by auto
  have l: "listed s' = listed s" using q by (simp add: s'e listed_def)
  have "core_ok s'" using c1 by (rule core_ok_cong) (simp_all add: s'e)
  moreover have "closing_ok b s'"
  proof -
    have cl: "has (h_flags y) UV_HANDLE_CLOSING" "\<not> has (h_flags y) UV_HANDLE_CLOSED"
      using nc by (simp_all add: y(4) is_closing_iff)
    have "h \<notin> set (closing_handles s @ b)"
      using ok x nc by (auto simp: loop_ok_core closing_ok_def is_closing_iff)
    then show ?thesis using ok cl y(1,3) x unfolding closing_ok_def l loop_ok_core
      by (auto simp: s'e)
  qed
  ultimately show "loop_ok b s'" by (simp add: loop_ok_core)
qed

section \<open>The end of closing\<close>

text \<open>The handle is marked closed and leaves the queue of handles.\<close>

definition gone :: "nat \<Rightarrow> 'cb uv_handle \<Rightarrow> ('cb, 'm) uv_loop_scheme \<Rightarrow> ('cb, 'm) uv_loop_scheme" where
  "gone h x s = set_handle h (x\<lparr>h_flags := (h_flags x OR UV_HANDLE_CLOSED) AND NOT UV_HANDLE_REF\<rparr>)
     (s\<lparr>handle_queue := removeAll h (handle_queue s), walk_queue := removeAll h (walk_queue s)\<rparr>)"

lemma closing_batch:
  assumes c: "closing_ok (h # b) s" and x: "handles s h = Some x"
  shows "has (h_flags x) UV_HANDLE_CLOSING" "h \<in> listed s" "\<not> uv__is_active x" "h \<notin> set b"
    "h \<notin> set (closing_handles s)" "distinct (closing_handles s @ b)"
proof -
  have "h \<in> set (closing_handles s @ h # b) \<longleftrightarrow> (\<exists>x. handles s h = Some x \<and> h \<in> listed s \<and>
      has (h_flags x) UV_HANDLE_CLOSING)" using c unfolding closing_ok_def by blast
  then show f: "has (h_flags x) UV_HANDLE_CLOSING" "h \<in> listed s" using x by auto
  show "\<not> uv__is_active x" using c x f(1) unfolding closing_ok_def by blast
  show "h \<notin> set b" "h \<notin> set (closing_handles s)" "distinct (closing_handles s @ b)"
    using c unfolding closing_ok_def by auto
qed

lemma gone_ok:
  assumes ok: "loop_ok (h # b) s" and x: "handles s h = Some x"
  shows "loop_ok b (gone h x s)"
proof -
  note ok' = ok [unfolded loop_ok_def]
  let ?f = "(h_flags x OR UV_HANDLE_CLOSED) AND NOT UV_HANDLE_REF" and ?s = "gone h x s"
  let ?y = "x\<lparr>h_flags := (h_flags x OR UV_HANDLE_CLOSED) AND NOT UV_HANDLE_REF\<rparr>"
  have hx: "has (h_flags x) UV_HANDLE_CLOSING" "h \<in> listed s" "\<not> uv__is_active x" "h \<notin> set b"
    "h \<notin> set (closing_handles s)" "distinct (closing_handles s @ b)"
    using closing_batch [OF _ x] ok' by blast+
  have y: "\<not> uv__is_active ?y" "has ?f UV_HANDLE_CLOSING" "has ?f UV_HANDLE_CLOSED"
    using hx by (simp_all add: uv__is_active_def)
  have l: "listed ?s = listed s - {h}" by (auto simp: gone_def listed_def)
  have hs: "handles ?s = (handles s)(h \<mapsto> ?y)" by (simp add: gone_def)
  have "counted ?s = counted s"
    using hx(3) y(1) x by (auto simp: counted_def hs counts_def)
  then have "handles_ok ?s" using ok' y(1)
    by (auto simp: handles_ok_def l) (auto simp: gone_def listed_def distinct_removeAll split: if_splits)
  moreover have "closing_ok b ?s"
    using ok' hx y unfolding closing_ok_def l hs by (auto simp: gone_def)
  moreover have "ios_ok ?s" using ok' by - (rule ios_ok_cong [of s], simp_all add: gone_def)
  moreover have "polls_ok ?s"
  proof (rule polls_okI)
    fix g z
    assume g: "handles ?s g = Some z" "g \<in> listed ?s" "h_type z = UV_POLL"
    then have "g \<noteq> h" by (simp add: l)
    with g polls_okD [of s g z] ok'
    show "\<exists>i. ios ?s (Io g) = Some i \<and> w_cb i = uv__poll_io \<and> 0 \<le> w_fd i \<and> (w_pevents i \<noteq> 0 \<longleftrightarrow> uv__is_active z)"
      by (simp add: l hs) (simp add: gone_def)
  next
    fix g i
    assume "ios ?s (Io g) = Some i" "w_pevents i \<noteq> 0"
    with polls_ok_active [of s g i] ok' obtain z where "handles s g = Some z" "h_type z = UV_POLL" "uv__is_active z"
      by (auto simp: gone_def)
    with hx(3) x show "\<exists>z. handles ?s g = Some z \<and> h_type z = UV_POLL \<and> uv__is_active z" by (auto simp: hs)
  qed
  moreover have "kinds_ok ?s"
    by (rule kinds_ok_handle [of s h x ?y]) (use ok' x y(1) hx(3) in \<open>simp_all add: gone_def\<close>)
  moreover have "signals_ok ?s"
    by (rule signals_ok_handle [of s h x ?y]) (use ok' x y(1) hx(3) in \<open>simp_all add: gone_def\<close>)
  ultimately show ?thesis by (simp add: loop_ok_def)
qed

lemma or_xor_closed: "\<not> has f UV_HANDLE_CLOSED \<Longrightarrow> (f OR UV_HANDLE_CLOSED) XOR UV_HANDLE_CLOSED = f"
proof -
  assume "\<not> has f UV_HANDLE_CLOSED"
  then have "\<not> bit f 1" using has_bit [of f 1] by simp
  moreover have "bit (2 :: flags) n \<longleftrightarrow> n = 1" for n using bit_single [of 1 n] by simp
  ultimately show ?thesis by (intro bit_eqI) (auto simp: bit_simps)
qed

text \<open>A signal handle with messages still in the pipe goes back to the list of closing handles; any
  other handle is gone before its callback runs.\<close>

text \<open>The outcome of uv__finish_close for a handle of the batch.\<close>

definition delayed :: "'cb uv_handle \<Rightarrow> bool" where
  "delayed x \<longleftrightarrow> h_type x = UV_SIGNAL \<and> caught_signals x > dispatched_signals x"

lemma finish_close_eq:
  assumes x: "handles s h = Some x" and f: "has (h_flags x) UV_HANDLE_CLOSING" "\<not> has (h_flags x) UV_HANDLE_CLOSED"
    and na: "\<not> uv__is_active x"
  shows "uv__finish_close call h s =
    (if delayed x then Ret (s\<lparr>closing_handles := h # closing_handles s\<rparr>)
     else case close_cb x of None \<Rightarrow> Ret (gone h x s) | Some cb \<Rightarrow> call cb h 0 0 (gone h x s))"
proof (cases "delayed x")
  case True
  have same: "x\<lparr>h_flags := h_flags x\<rparr> = x" by simp
  show ?thesis using x True or_xor_closed [OF f(2)] f
    by (simp add: uv__finish_close_def with_handle_def Let_def uv__make_close_pending_def set_handle_def
        delayed_def fun_upd_idem)
next
  case False
  let ?y = "x\<lparr>h_flags := h_flags x OR UV_HANDLE_CLOSED\<rparr>"
  have "uv__handle_unref h (set_handle h ?y s) =
      Ret (with_flags h ?y (h_flags ?y AND NOT UV_HANDLE_REF) (set_handle h ?y s))"
    by (rule handle_unref_eq) (use na in \<open>simp_all add: uv__is_active_def\<close>)
  moreover have "with_flags h ?y (h_flags ?y AND NOT UV_HANDLE_REF) (set_handle h ?y s)
      \<lparr>handle_queue := removeAll h (handle_queue s), walk_queue := removeAll h (walk_queue s)\<rparr> = gone h x s"
    using na by (simp add: with_flags_def gone_def counts_def uv__is_active_def set_handle_def)
  ultimately show ?thesis using x f False
    by (auto simp: uv__finish_close_def with_handle_def Let_def delayed_def split: option.splits)
qed

lemma delayed_ok:
  assumes ok: "loop_ok (h # b) s"
  shows "loop_ok b (s\<lparr>closing_handles := h # closing_handles s\<rparr>)"
proof -
  have "core_ok (s\<lparr>closing_handles := h # closing_handles s\<rparr>)"
    using ok by - (rule core_ok_cong [of s], simp_all add: loop_ok_core)
  moreover have "closing_ok b (s\<lparr>closing_handles := h # closing_handles s\<rparr>)"
  proof -
    have "set ((h # closing_handles s) @ b) = set (closing_handles s @ h # b)"
      "distinct ((h # closing_handles s) @ b) \<longleftrightarrow> distinct (closing_handles s @ h # b)" by auto
    moreover have "listed (s\<lparr>closing_handles := h # closing_handles s\<rparr>) = listed s" by (simp add: listed_def)
    moreover have "closing_ok (h # b) s" using ok by (simp add: loop_ok_def)
    ultimately show ?thesis unfolding closing_ok_def by (elim conjE, intro conjI) simp_all
  qed
  ultimately show ?thesis by (simp add: loop_ok_core)
qed

lemma finish_close_Ret:
  assumes ok: "loop_ok (h # b) s" and r: "uv__finish_close call h s = Ret s'"
  shows "\<exists>x. handles s h = Some x \<and> h \<in> listed s \<and> has (h_flags x) UV_HANDLE_CLOSING \<and>
    (if h_type x = UV_SIGNAL \<and> caught_signals x > dispatched_signals x
     then s' = s\<lparr>closing_handles := h # closing_handles s\<rparr> \<and> loop_ok b s'
     else loop_ok b (gone h x s) \<and>
       (case close_cb x of None \<Rightarrow> s' = gone h x s | Some cb \<Rightarrow> call cb h 0 0 (gone h x s) = Ret s'))"
proof -
  from r obtain x where x: "handles s h = Some x" by (auto simp: uv__finish_close_def run_simps)
  have hx: "has (h_flags x) UV_HANDLE_CLOSING" "h \<in> listed s" "\<not> uv__is_active x"
    using closing_batch [OF _ x] ok by (auto simp: loop_ok_def)
  have ncl: "\<not> has (h_flags x) UV_HANDLE_CLOSED" using r x by (auto simp: uv__finish_close_def run_simps)
  show ?thesis using r finish_close_eq [OF x hx(1) ncl hx(3), of call] x hx gone_ok [OF ok x] delayed_ok [OF ok]
    by (auto simp: delayed_def split: option.splits if_splits)
qed

end
