(* ===== verification/Uv_Client.thy ===== *)
theory Uv_Client
  imports Uv_Closing Uv_Run
begin

text \<open>
  The contract between the loop and the callbacks of its client. A client has an invariant \<open>I\<close> of
  its own state and of what it can see of its handles. If every callback keeps \<open>I\<close> and the
  invariant of the loop, then so does every function that calls back, up to a whole uv_run. The
  clients meant here use no timers, send no async wake-ups and feed no streams.
\<close>

section \<open>What a client sees\<close>

definition handle_view :: "'cb uv_handle \<Rightarrow> _" where
  "handle_view x = (h_type x, h_cb x, close_cb x, h_data x, u_fd x, pending x,
     has (h_flags x) UV_HANDLE_CLOSING, has (h_flags x) UV_HANDLE_CLOSED, has (h_flags x) UV_HANDLE_INTERNAL,
     has (h_flags x) UV_HANDLE_REF)"

definition client_view :: "('cb, 'm) uv_loop_scheme \<Rightarrow> _" where
  "client_view s = (\<lambda>h. map_option handle_view (handles s h), listed s, \<lambda>w. map_option w_fd (ios s w),
     watchers s = [], uv_loop.more s, mem s, (pending_queue s, pending_batch s, timers s), signal_pipefd s, walk_queue s)"

definition quiet :: "('cb, 'm) uv_loop_scheme \<Rightarrow> bool" where
  "quiet s \<longleftrightarrow> pending_queue s = [] \<and> pending_batch s = [] \<and> timers s = [] \<and>
     (\<forall>h x. handles s h = Some x \<longrightarrow> \<not> pending x)"

lemma client_view_cong:
  "\<lbrakk>\<And>h. map_option handle_view (handles s' h) = map_option handle_view (handles s h); listed s' = listed s;
    \<And>w. map_option w_fd (ios s' w) = map_option w_fd (ios s w); (watchers s' = []) = (watchers s = []);
    uv_loop.more s' = uv_loop.more s; mem s' = mem s; pending_queue s' = pending_queue s;
    pending_batch s' = pending_batch s; timers s' = timers s; signal_pipefd s' = signal_pipefd s; walk_queue s' = walk_queue s\<rbrakk> \<Longrightarrow>
   client_view s' = client_view s"
  by (simp add: client_view_def)

lemma view_set_handle: "handles s h = Some x \<Longrightarrow> handle_view x' = handle_view x \<Longrightarrow>
    client_view (set_handle h x' s) = client_view s"
  by (rule client_view_cong) auto

lemma view_with_flags: "handles s h = Some x \<Longrightarrow> handle_view (x\<lparr>h_flags := f\<rparr>) = handle_view x \<Longrightarrow>
    client_view (with_flags h x f s) = client_view s"
  by (rule client_view_cong) auto

lemma view_traced [simp]: "client_view (traced us s) = client_view s"
  by (rule client_view_cong) (simp_all add: traced_def listed_def)

lemma view_unwatch: "ios s w = Some i \<Longrightarrow> client_view (unwatch w i s) = client_view s"
proof (rule client_view_cong)
  assume "ios s w = Some i"
  then show "map_option w_fd (ios (unwatch w i s) w') = map_option w_fd (ios s w')" for w'
    by (auto simp: unwatch_def Let_def)
  have "length (watchers (unwatch w i s)) = length (watchers s)" by simp
  then show "(watchers (unwatch w i s) = []) = (watchers s = [])" by (metis length_0_conv)
qed (auto simp: unwatch_def Let_def listed_def)

section \<open>Steps of the loop that no client sees\<close>

text \<open>An active handle is listed and not closing.\<close>

lemma active_listed: "loop_ok b s \<Longrightarrow> handles s h = Some x \<Longrightarrow> uv__is_active x \<Longrightarrow>
    h \<in> listed s \<and> \<not> uv__is_closing x"
  unfolding loop_ok_def handles_ok_def closing_ok_def is_closing_iff by blast

lemma batch_step_ok:
  assumes "loop_ok b s" and "watcher_batch s n = h # hs"
  shows "loop_ok b (s\<lparr>watcher_batch := (watcher_batch s)(n := hs),
           watcher_handles := (watcher_handles s)(n := watcher_handles s n @ [h])\<rparr>)" (is "loop_ok b ?s")
proof -
  note ok = assms(1) [unfolded loop_ok_core core_ok_def]
  have "kinds_ok ?s" unfolding kinds_ok_def
  proof
    fix m
    have "distinct (watcher_handles s m @ watcher_batch s m)" "set (watcher_handles s m @ watcher_batch s m) =
        {h. \<exists>x. handles s h = Some x \<and> h_type x = watcher_type m \<and> uv__is_active x}"
      using ok unfolding kinds_ok_def by blast+
    moreover have "distinct (watcher_handles ?s m @ watcher_batch ?s m) \<longleftrightarrow> distinct (watcher_handles s m @ watcher_batch s m)"
      "set (watcher_handles ?s m @ watcher_batch ?s m) = set (watcher_handles s m @ watcher_batch s m)"
      using assms(2) by auto
    ultimately show "distinct (watcher_handles ?s m @ watcher_batch ?s m) \<and> set (watcher_handles ?s m @ watcher_batch ?s m) =
        {h. \<exists>x. handles ?s h = Some x \<and> h_type x = watcher_type m \<and> uv__is_active x}" by simp
  qed
  moreover have "handles_ok ?s" "ios_ok ?s" using ok by (auto elim!: handles_ok_cong ios_ok_cong)
  moreover have "polls_ok ?s" "signals_ok ?s" "closing_ok b ?s"
    using ok polls_ok_eq [of ?s s] signals_ok_eq [of ?s s] closing_ok_eq [of ?s s b] by (simp_all add: listed_def)
  ultimately show ?thesis by (simp add: loop_ok_core core_ok_def)
qed

lemma batch_start_ok:
  assumes "loop_ok b s" and "watcher_batch s n = []"
  shows "loop_ok b (s\<lparr>watcher_batch := (watcher_batch s)(n := watcher_handles s n),
           watcher_handles := (watcher_handles s)(n := [])\<rparr>)" (is "loop_ok b ?s")
proof -
  note ok = assms(1) [unfolded loop_ok_core core_ok_def]
  have "kinds_ok ?s" unfolding kinds_ok_def
  proof
    fix m
    have "distinct (watcher_handles s m @ watcher_batch s m)" "set (watcher_handles s m @ watcher_batch s m) =
        {h. \<exists>x. handles s h = Some x \<and> h_type x = watcher_type m \<and> uv__is_active x}"
      using ok unfolding kinds_ok_def by blast+
    then show "distinct (watcher_handles ?s m @ watcher_batch ?s m) \<and> set (watcher_handles ?s m @ watcher_batch ?s m) =
        {h. \<exists>x. handles ?s h = Some x \<and> h_type x = watcher_type m \<and> uv__is_active x}"
      using assms(2) by (cases "m = n") simp_all
  qed
  moreover have "handles_ok ?s" "ios_ok ?s" using ok by (auto elim!: handles_ok_cong ios_ok_cong)
  moreover have "polls_ok ?s" "signals_ok ?s" "closing_ok b ?s"
    using ok polls_ok_eq [of ?s s] signals_ok_eq [of ?s s] closing_ok_eq [of ?s s b] by (simp_all add: listed_def)
  ultimately show ?thesis by (simp add: loop_ok_core core_ok_def)
qed

lemma arm_shape:
  assumes "arm k w s = Ret s'"
  shows "\<exists>i us. ios s w = Some i \<and> w_pevents i \<noteq> 0 \<and> s' = set_io w (i\<lparr>w_events := w_pevents i\<rparr>) (traced us s)"
proof -
  from assms obtain i where i: "ios s w = Some i" "w_pevents i \<noteq> 0" by (auto simp: arm_def run_simps)
  let ?c = "Epoll_ctl (if w_events i = 0 then EPOLL_CTL_ADD else EPOLL_CTL_MOD) (w_fd i) (unat (w_pevents i))"
  let ?d = "Epoll_ctl EPOLL_CTL_MOD (w_fd i) (unat (w_pevents i))"
  have "s' = set_io w (i\<lparr>w_events := w_pevents i\<rparr>) (traced [?c] s) \<or>
      s' = set_io w (i\<lparr>w_events := w_pevents i\<rparr>) (traced [?d, ?c] s)"
    using assms i unfolding arm_def with_io_def by (simp add: Let_def traced_def run_simps split: if_split_asm)
  with i show ?thesis by blast
qed

lemma arm_Ret:
  assumes "loop_ok b s" and q: "watcher_queue s = w # ws" and r: "arm k w (s\<lparr>watcher_queue := ws\<rparr>) = Ret s'"
  shows "loop_ok b s' \<and> client_view s' = client_view s \<and> watcher_queue s' = ws"
proof -
  note ok = assms(1) [unfolded loop_ok_core core_ok_def]
  from arm_shape [OF r] obtain i us where i: "ios s w = Some i" "w_pevents i \<noteq> 0"
    and s': "s' = set_io w (i\<lparr>w_events := w_pevents i\<rparr>) (traced us (s\<lparr>watcher_queue := ws\<rparr>))" by auto
  have l: "listed s' = listed s" by (simp add: s' listed_def traced_def)
  have "ios_ok s'"
  proof -
    have a: "\<exists>j. ios s w' = Some j \<and> w_fd j = int fd \<and> w_pevents j \<noteq> 0"
      if "fd < length (watchers s)" "watchers s ! fd = Some w'" for fd w'
      using that ok unfolding ios_ok_def by blast
    have b: "w_fd i = int fd" if "fd < length (watchers s)" "watchers s ! fd = Some w" for fd
      using a [OF that] i(1) by auto
    show ?thesis using ok i q a b unfolding ios_ok_def by (auto simp: s' traced_def)
  qed
  moreover have "polls_ok s'"
  proof (rule polls_okI)
    fix g y
    assume "handles s' g = Some y" "g \<in> listed s'" "h_type y = UV_POLL"
    with ok polls_okD [of s g y] l i show "\<exists>i. ios s' (Io g) = Some i \<and> w_cb i = uv__poll_io \<and> 0 \<le> w_fd i \<and>
        (w_pevents i \<noteq> 0 \<longleftrightarrow> uv__is_active y)" by (auto simp: s' traced_def)
  next
    fix g j
    assume "ios s' (Io g) = Some j" "w_pevents j \<noteq> 0"
    with ok i polls_ok_active [of s g] show "\<exists>y. handles s' g = Some y \<and> h_type y = UV_POLL \<and> uv__is_active y"
      by (auto simp: s' traced_def split: if_splits)
  qed
  moreover have "handles_ok s'" using ok by - (rule handles_ok_cong [of s], simp_all add: s' traced_def)
  moreover have "kinds_ok s'" "signals_ok s'" "closing_ok b s'"
    using ok l kinds_ok_eq [of s' s] signals_ok_eq [of s' s] closing_ok_eq [of s' s b] by (simp_all add: s' traced_def)
  moreover have "client_view s' = client_view s"
    using i(1) l by - (rule client_view_cong, auto simp: s' traced_def)
  ultimately show ?thesis by (simp add: loop_ok_core core_ok_def s' traced_def)
qed

lemma signal_messages_ok:
  "loop_ok b s \<Longrightarrow> sig \<noteq> 0 \<Longrightarrow> signal_messages sig hs s = Ret s' \<Longrightarrow>
   loop_ok b s' \<and> client_view s' = client_view s \<and> watcher_batch s' = watcher_batch s"
proof (induction hs arbitrary: s)
  case Nil
  then show ?case by simp
next
  case (Cons h hs)
  then obtain x where x: "handles s h = Some x" by (auto simp: run_simps)
  show ?case
  proof (cases "signum x = sig \<and> length (signal_pipe s) < SIGNAL_PIPE_CAPACITY")
    case True
    let ?s = "set_handle h (x\<lparr>caught_signals := caught_signals x + 1\<rparr>) (s\<lparr>signal_pipe := signal_pipe s @ [(h, sig)]\<rparr>)"
    have 1: "loop_ok b (set_handle h (x\<lparr>caught_signals := caught_signals x + 1\<rparr>) s)"
      by (rule loop_ok_set [OF Cons.prems(1) x]) simp_all
    have ok: "loop_ok b ?s"
    proof -
      let ?t = "set_handle h (x\<lparr>caught_signals := caught_signals x + 1\<rparr>) s"
      note g = 1 [unfolded loop_ok_def]
      have l: "listed ?s = listed ?t" by (simp add: listed_def)
      have "signals_ok ?s" using g Cons.prems(2) unfolding signals_ok_def by auto
      moreover have "handles_ok ?s" using g by - (rule handles_ok_cong [of ?t], simp_all)
      moreover have "ios_ok ?s" using g by - (rule ios_ok_cong [of ?t], simp_all)
      ultimately show ?thesis using g l closing_ok_eq [of ?s ?t b] polls_ok_eq [of ?s ?t] kinds_ok_eq [of ?s ?t]
        by (simp add: loop_ok_def)
    qed
    have v: "client_view ?s = client_view s"
      using x by - (rule client_view_cong, auto simp: handle_view_def listed_def)
    from Cons.prems(3) x True have "signal_messages sig hs ?s = Ret s'" by (simp add: with_handle_def)
    from Cons.IH [OF ok Cons.prems(2) this] v show ?thesis by simp
  next
    case False
    with Cons.prems(3) x have "s' = s \<or> signal_messages sig hs s = Ret s'" by (auto simp: with_handle_def split: if_splits)
    with Cons.IH [OF Cons.prems(1,2)] Cons.prems(1) show ?thesis by auto
  qed
qed

lemma nfind_from: "tree_nfind hs sig bs = Ret cs \<Longrightarrow> set cs \<subseteq> set bs \<and>
    (case cs of [] \<Rightarrow> True | c # _ \<Rightarrow> \<exists>y. hs c = Some y \<and> sig \<le> signum y)"
  by (induction bs) (auto split: option.splits if_splits)

lemma signal_handler_ok:
  assumes ok: "loop_ok b s" and r: "uv__signal_handler sig s = Ret s'"
  shows "loop_ok b s' \<and> client_view s' = client_view s \<and> watcher_batch s' = watcher_batch s"
proof -
  from r obtain cs where cs: "tree_nfind (handles s) sig (signal_tree s) = Ret cs" "signal_messages sig cs s = Ret s'"
    by (auto simp: uv__signal_handler_def run_simps)
  show ?thesis
  proof (cases "sig = 0")
    case False
    then show ?thesis using signal_messages_ok [OF ok _ cs(2)] by simp
  next
    case True
    have "s' = s"
    proof (cases cs)
      case Nil
      then show ?thesis using cs(2) by simp
    next
      case (Cons c ds)
      with nfind_from [OF cs(1)] have "c \<in> set (signal_tree s)" by auto
      then obtain x where "handles s c = Some x" "signum x \<noteq> 0"
        using ok unfolding loop_ok_def signals_ok_def by blast
      then show ?thesis using cs(2) Cons True by (simp add: with_handle_def)
    qed
    then show ?thesis using ok by simp
  qed
qed

lemma receive_ok:
  "loop_ok b s \<Longrightarrow> receive sigs s = Ret s' \<Longrightarrow>
   loop_ok b s' \<and> client_view s' = client_view s \<and> watcher_batch s' = watcher_batch s"
proof (induction sigs arbitrary: s)
  case (Cons sg sigs)
  from Cons.prems(2) obtain s1 where s1: "uv__signal_handler sg s = Ret s1" "receive sigs s1 = Ret s'"
    by (auto simp: run_simps)
  from signal_handler_ok [OF Cons.prems(1) s1(1)] Cons.IH [OF _ s1(2)] show ?case by simp
qed simp

section \<open>The contract\<close>

text \<open>A callback may take handles out of the batch of a phase that is running, and adds none.\<close>

definition keeps :: "(('cb, 'm) uv_loop_scheme \<Rightarrow> bool) \<Rightarrow> nat list \<Rightarrow> ('cb, 'm) uv_loop_scheme \<Rightarrow> ('cb, 'm) uv_loop_scheme \<Rightarrow> bool" where
  "keeps I b s s' \<longleftrightarrow> loop_ok b s' \<and> I s' \<and> (\<forall>n. set (watcher_batch s' n) \<subseteq> set (watcher_batch s n))"

lemma keepsD: "keeps I b s s' \<Longrightarrow> loop_ok b s'" "keeps I b s s' \<Longrightarrow> I s'"
  by (simp_all add: keeps_def)

lemma keeps_trans [trans]: "keeps I b s s1 \<Longrightarrow> keeps I b' s1 s2 \<Longrightarrow> keeps I b' s s2"
  unfolding keeps_def by blast

lemma keeps_refl: "loop_ok b s \<Longrightarrow> I s \<Longrightarrow> keeps I b s s"
  by (simp add: keeps_def)

text \<open>A handle whose callback is due is listed and not closing; one that is closed has left the queue.\<close>

definition due :: "nat \<Rightarrow> 'cb uv_handle \<Rightarrow> 'cb \<Rightarrow> ('cb, 'm) uv_loop_scheme \<Rightarrow> bool" where
  "due h x cb s \<longleftrightarrow> handles s h = Some x \<and> h \<in> listed s \<and> \<not> uv__is_closing x \<and> h_cb x = Some cb"

definition ending :: "nat \<Rightarrow> 'cb uv_handle \<Rightarrow> ('cb, 'm) uv_loop_scheme \<Rightarrow> bool" where
  "ending h x s \<longleftrightarrow> handles s h = Some x \<and> h \<in> listed s \<and> has (h_flags x) UV_HANDLE_CLOSING"

locale loop_client =
  fixes k :: kernel and call :: "('cb, 'm) dispatcher" and I :: "('cb, 'm) uv_loop_scheme \<Rightarrow> bool"
  assumes sees: "I s \<Longrightarrow> client_view s' = client_view s \<Longrightarrow> I s'"
    and quiet: "I s \<Longrightarrow> quiet s"
    and fire: "\<lbrakk>loop_ok b s; I s; due h x cb s; call cb h a c s = Ret s'\<rbrakk> \<Longrightarrow> keeps I b s s'"
    and close: "\<lbrakk>loop_ok b (gone h x s); I s; ending h x s; close_cb x = Some cb;
      call cb h 0 0 (gone h x s) = Ret s'\<rbrakk> \<Longrightarrow> keeps I b s s'"
    and close_none: "\<lbrakk>loop_ok b (gone h x s); I s; ending h x s; close_cb x = None\<rbrakk> \<Longrightarrow> I (gone h x s)"
begin

lemma unseen: "\<lbrakk>I s; loop_ok b s'; client_view s' = client_view s; watcher_batch s' = watcher_batch s\<rbrakk> \<Longrightarrow> keeps I b s s'"
  using sees [of s s'] by (simp add: keeps_def)

lemma callback: "\<lbrakk>loop_ok b s; I s; handles s h = Some x; uv__is_active x; call_back call (h_cb x) h a c s = Ret s'\<rbrakk>
    \<Longrightarrow> keeps I b s s'"
  using active_listed [of b s h x] fire [of b s h x]
  by (auto simp: call_back_def due_def split: option.splits)

lemma finish_close_keeps:
  assumes "loop_ok (h # hs) s" and "I s" and s1: "uv__finish_close call h s = Ret s1"
  shows "keeps I hs s s1"
proof -
  from finish_close_Ret [OF assms(1) s1] obtain x where x: "handles s h = Some x" "h \<in> listed s"
      "has (h_flags x) UV_HANDLE_CLOSING"
    and c: "if h_type x = UV_SIGNAL \<and> caught_signals x > dispatched_signals x
     then s1 = s\<lparr>closing_handles := h # closing_handles s\<rparr> \<and> loop_ok hs s1
     else loop_ok hs (gone h x s) \<and>
       (case close_cb x of None \<Rightarrow> s1 = gone h x s | Some cb \<Rightarrow> call cb h 0 0 (gone h x s) = Ret s1)" by blast
  have e: "ending h x s" using x by (simp add: ending_def)
  show ?thesis
  proof (cases "h_type x = UV_SIGNAL \<and> caught_signals x > dispatched_signals x")
    case True
    from c [unfolded if_P [OF True]] have e1: "s1 = s\<lparr>closing_handles := h # closing_handles s\<rparr>"
      and ok: "loop_ok hs s1" by blast+
    show ?thesis by (rule unseen [OF assms(2) ok]) (simp_all add: e1 client_view_def listed_def)
  next
    case False
    with c have ok: "loop_ok hs (gone h x s)" by auto
    show ?thesis
    proof (cases "close_cb x")
      case None
      with c False have "s1 = gone h x s" by auto
      then show ?thesis using ok close_none [OF ok assms(2) e None] by (simp add: keeps_def gone_def)
    next
      case (Some cb)
      with c False have "call cb h 0 0 (gone h x s) = Ret s1" by auto
      then show ?thesis using close [OF ok assms(2) e Some] by simp
    qed
  qed
qed

lemma finish_all_keeps:
  "\<lbrakk>loop_ok hs s; I s; finish_all call hs s = Ret s'\<rbrakk> \<Longrightarrow> keeps I [] s s'"
proof (induction hs arbitrary: s)
  case Nil
  then show ?case by (simp add: keeps_refl)
next
  case (Cons h hs)
  from Cons.prems(3) obtain s1 where s1: "uv__finish_close call h s = Ret s1" "finish_all call hs s1 = Ret s'"
    by (auto simp: run_simps)
  from finish_close_keeps [OF Cons.prems(1,2) s1(1)] Cons.IH [OF _ _ s1(2)] show ?case by (meson keepsD keeps_trans)
qed

text \<open>The state in which the closing phase begins.\<close>

lemma closing_starts:
  assumes "loop_ok [] s" and "I s"
  shows "loop_ok (closing_handles s) (s\<lparr>closing_handles := []\<rparr>)" "I (s\<lparr>closing_handles := []\<rparr>)"
proof -
  let ?s = "s\<lparr>closing_handles := []\<rparr>"
  have "core_ok ?s" using assms(1) by - (rule core_ok_cong [of s], simp_all add: loop_ok_core)
  moreover have "closing_ok (closing_handles s) ?s"
  proof -
    have "listed ?s = listed s" by (simp add: listed_def)
    then show ?thesis using assms(1) unfolding loop_ok_core closing_ok_def
      by (elim conjE, intro conjI) simp_all
  qed
  ultimately show "loop_ok (closing_handles s) ?s" by (simp add: loop_ok_core)
  show "I ?s" by (rule sees [OF assms(2)]) (simp add: client_view_def listed_def)
qed

lemma run_closing_keeps:
  assumes "loop_ok [] s" and "I s" and "uv__run_closing_handles call s = Ret s'"
  shows "keeps I [] s s'"
  using finish_all_keeps [OF closing_starts [OF assms(1,2)]] assms(3) by (simp add: uv__run_closing_handles_def keeps_def)

text \<open>The next handle of a phase leaves the batch and its callback is due.\<close>

lemma batch_next:
  assumes "loop_ok b s" and "I s" and Cons: "watcher_batch s n = h # hs"
  defines "s1 \<equiv> s\<lparr>watcher_batch := (watcher_batch s)(n := hs), watcher_handles := (watcher_handles s)(n := watcher_handles s n @ [h])\<rparr>"
  shows "keeps I b s s1" "handles s h = Some x \<Longrightarrow> uv__is_active x"
proof -
  have "loop_ok b s1" unfolding s1_def by (rule batch_step_ok [OF assms(1) Cons])
  moreover have "I s1" unfolding s1_def by (rule sees [OF assms(2)]) (simp add: client_view_def listed_def)
  ultimately show "keeps I b s s1" using Cons by (auto simp: keeps_def s1_def)
  have "h \<in> set (watcher_handles s n @ watcher_batch s n)" using Cons by simp
  moreover have "kinds_ok s" using assms(1) by (simp add: loop_ok_def)
  ultimately have "h \<in> {h. \<exists>x. handles s h = Some x \<and> h_type x = watcher_type n \<and> uv__is_active x}"
    unfolding kinds_ok_def by blast
  then show "handles s h = Some x \<Longrightarrow> uv__is_active x" by simp
qed

lemma watcher_loop_keeps:
  "\<lbrakk>loop_ok b s; I s; watcher_loop call n fuel s = Ret s'\<rbrakk> \<Longrightarrow> keeps I b s s' \<and> watcher_batch s' n = []"
proof (induction fuel arbitrary: s)
  case 0
  then show ?case by simp
next
  case (Suc fuel)
  show ?case
  proof (cases "watcher_batch s n")
    case Nil
    with Suc.prems show ?thesis by (simp add: keeps_refl)
  next
    case (Cons h hs)
    let ?s = "s\<lparr>watcher_batch := (watcher_batch s)(n := hs), watcher_handles := (watcher_handles s)(n := watcher_handles s n @ [h])\<rparr>"
    from Suc.prems(3) Cons obtain x s1 where x: "handles s h = Some x" and s1: "call_back call (h_cb x) h 0 0 ?s = Ret s1"
      and rest: "watcher_loop call n fuel s1 = Ret s'" by (auto simp: run_simps)
    note nx = batch_next [OF Suc.prems(1,2) Cons]
    from callback [OF keepsD [OF nx(1)] _ nx(2) s1] x have k1: "keeps I b ?s s1" by simp
    note nx(1)
    also note k1
    also have "keeps I b s1 s'" using Suc.IH [OF keepsD [OF k1] rest] by blast
    finally show ?thesis using Suc.IH [OF keepsD [OF k1] rest] by blast
  qed
qed

lemma run_watchers_keeps:
  assumes "loop_ok b s" and "I s" and "\<forall>n. watcher_batch s n = []" and "uv__run_watchers call n s = Ret s'"
  shows "keeps I b s s'"
proof -
  let ?s = "s\<lparr>watcher_batch := (watcher_batch s)(n := watcher_handles s n), watcher_handles := (watcher_handles s)(n := [])\<rparr>"
  have ok: "loop_ok b ?s" using assms(1,3) by (intro batch_start_ok) simp_all
  have I: "I ?s" by (rule sees [OF assms(2)]) (simp add: client_view_def listed_def)
  from watcher_loop_keeps [OF ok I] assms(4) have k: "keeps I b ?s s'" "watcher_batch s' n = []"
    by (simp_all add: uv__run_watchers_def del: watcher_loop.simps)
  then have "set (watcher_batch s' m) \<subseteq> set (watcher_batch s m)" for m
  proof (cases "m = n")
    case False
    from k(1) have "set (watcher_batch s' m) \<subseteq> set (watcher_batch ?s m)" by (simp only: keeps_def)
    with False show ?thesis by simp
  qed (simp add: k(2))
  with k show ?thesis by (simp add: keeps_def)
qed

lemma signal_msgs_keeps:
  "\<lbrakk>loop_ok b s; I s; \<forall>m \<in> set ms. snd m \<noteq> 0; signal_msgs k call ms s = Ret s'\<rbrakk> \<Longrightarrow> keeps I b s s'"
proof (induction ms arbitrary: s)
  case Nil
  then show ?case by (simp add: keeps_refl)
next
  case (Cons m ms)
  obtain h sg where m: "m = (h, sg)" by (cases m)
  from Cons.prems(4) obtain x s1 y s2 where x: "handles s h = Some x"
    and s1: "(if sg = signum x then require (\<not> has (h_flags x) UV_HANDLE_CLOSING)
        (call_back call (h_cb x) h (signum x) 0 s) else Ret s) = Ret s1"
    and y: "handles s1 h = Some y"
    and s2: "(if has (h_flags y) UV_SIGNAL_ONE_SHOT
        then uv__signal_stop k h (set_handle h (y\<lparr>dispatched_signals := dispatched_signals y + 1\<rparr>) s1)
        else Ret (set_handle h (y\<lparr>dispatched_signals := dispatched_signals y + 1\<rparr>) s1)) = Ret s2"
    and rest: "signal_msgs k call ms s2 = Ret s'"
    unfolding m by (simp add: run_simps Let_def) blast
  let ?y = "y\<lparr>dispatched_signals := dispatched_signals y + 1\<rparr>"
  let ?s = "set_handle h ?y s1"
  have k1: "keeps I b s s1"
  proof (cases "sg = signum x")
    case False
    then show ?thesis using s1 Cons.prems(1,2) by (simp add: keeps_refl)
  next
    case True
    with Cons.prems(3) m have "signum x \<noteq> 0" by simp
    moreover have "signals_ok s" using Cons.prems(1) by (simp add: loop_ok_def)
    ultimately have "uv__is_active x" using x by (auto simp: signals_ok_def)
    moreover have "call_back call (h_cb x) h (signum x) 0 s = Ret s1" using s1 True by (simp add: run_simps)
    ultimately show ?thesis using callback [OF Cons.prems(1,2) x] by blast
  qed
  have ok: "loop_ok b ?s" by (rule loop_ok_set [OF keepsD(1) [OF k1] y]) simp_all
  have k2: "keeps I b s1 ?s"
    by (rule unseen [OF keepsD(2) [OF k1] ok]) (simp_all add: view_set_handle [OF y] handle_view_def)
  have "keeps I b s s2"
  proof (cases "has (h_flags y) UV_SIGNAL_ONE_SHOT")
    case False
    then show ?thesis using s2 keeps_trans [OF k1 k2] by simp
  next
    case True
    with s2 have st: "uv__signal_stop k h ?s = Ret s2" by simp
    have hy: "handles ?s h = Some ?y" by simp
    show ?thesis
    proof (cases "signum y = 0")
      case True
      with signal_stop_Ret [OF st hy] have "s2 = ?s" by simp
      then show ?thesis using keeps_trans [OF k1 k2] by simp
    next
      case False
      with signal_stop_Ret [OF st hy] obtain us where s2e: "s2 = unsignalled h ?y us ?s" by auto
      have "signals_ok ?s" "handles_ok ?s" using ok by (simp_all add: loop_ok_def)
      then have "signum ?y \<noteq> 0 \<longleftrightarrow> h_type ?y = UV_SIGNAL \<and> uv__is_active ?y"
        "uv__is_active ?y \<Longrightarrow> h \<in> listed ?s" using hy unfolding signals_ok_def handles_ok_def by blast+
      with False have t: "h_type ?y = UV_SIGNAL" "h \<in> listed ?s" by simp_all
      have "loop_ok b s2" using signal_stop_ok [OF ok st hy t] .
      moreover have "client_view s2 = client_view ?s"
        unfolding s2e by (rule client_view_cong) (auto simp: handle_view_def)
      moreover have "watcher_batch s2 = watcher_batch ?s" by (simp add: s2e unsignalled_def traced_def)
      ultimately have "keeps I b ?s s2" by (rule unseen [OF keepsD(2) [OF k2]])
      with k1 k2 show ?thesis by (blast intro: keeps_trans)
    qed
  qed
  note k = this
  have "keeps I b s2 s'" by (rule Cons.IH [OF keepsD [OF k] _ rest]) (use Cons.prems(3) in simp)
  from keeps_trans [OF k this] show ?case .
qed

lemma pipe_read_keeps:
  assumes "loop_ok b s" and "I s"
  shows "keeps I b s (s\<lparr>signal_pipe := drop 32 (signal_pipe s)\<rparr>)" "\<forall>m \<in> set (take 32 (signal_pipe s)). snd m \<noteq> 0"
proof -
  let ?s = "s\<lparr>signal_pipe := drop 32 (signal_pipe s)\<rparr>"
  note ok = assms(1) [unfolded loop_ok_def]
  have l: "listed ?s = listed s" by (simp add: listed_def)
  have "signals_ok ?s" using ok unfolding signals_ok_def by (auto dest: in_set_dropD)
  then have "loop_ok b ?s" using ok l handles_ok_cong [of s ?s] ios_ok_cong [of s ?s] closing_ok_eq [of ?s s b]
      polls_ok_eq [of ?s s] kinds_ok_eq [of ?s s] by (simp add: loop_ok_def)
  then show "keeps I b s ?s" by (rule unseen [OF assms(2)]) (simp_all add: client_view_def listed_def)
  show "\<forall>m \<in> set (take 32 (signal_pipe s)). snd m \<noteq> 0"
    using ok by (auto simp: signals_ok_def dest: in_set_takeD)
qed

lemma signal_event_keeps:
  "\<lbrakk>loop_ok b s; I s; signal_event k call fuel s = Ret s'\<rbrakk> \<Longrightarrow> keeps I b s s'"
proof (induction fuel arbitrary: s)
  case 0
  then show ?case by simp
next
  case (Suc fuel)
  let ?ms = "take 32 (signal_pipe s)" and ?s = "s\<lparr>signal_pipe := drop 32 (signal_pipe s)\<rparr>"
  from Suc.prems(3) obtain s1 where s1: "signal_msgs k call ?ms ?s = Ret s1"
    and rest: "(if length ?ms = 32 then signal_event k call fuel s1 else Ret s1) = Ret s'"
    by (auto simp: Let_def run_simps simp del: length_take)
  note k0 = pipe_read_keeps(1) [OF Suc.prems(1,2)]
  have k1: "keeps I b ?s s1" by (rule signal_msgs_keeps [OF keepsD [OF k0] pipe_read_keeps(2) [OF Suc.prems(1,2)] s1])
  note k01 = keeps_trans [OF k0 k1]
  show ?case
  proof (cases "length ?ms = 32")
    case True
    with rest have "signal_event k call fuel s1 = Ret s'" by simp
    from keeps_trans [OF k01 Suc.IH [OF keepsD [OF k01] this]] show ?thesis .
  next
    case False
    have "s1 = s'" using rest unfolding if_not_P [OF False] by simp
    with k01 show ?thesis by simp
  qed
qed

lemma unseen_traced: "loop_ok b s \<Longrightarrow> I s \<Longrightarrow> keeps I b s (traced us s)"
  by (rule unseen) (simp_all, simp add: traced_def)

lemma async_drain_traced: "async_drain k fd fuel s = Ret s' \<Longrightarrow> \<exists>us. s' = traced us s"
proof (induction fuel arbitrary: s)
  case (Suc fuel)
  let ?s = "s\<lparr>trace := Read fd 1024 # trace s\<rparr>"
  have t: "?s = traced [Read fd 1024] s" by (simp add: traced_def)
  from Suc.prems have "s' = ?s \<or> async_drain k fd fuel ?s = Ret s'" by (auto simp: Let_def split: if_splits)
  then show ?case using Suc.IH [of ?s] t traced_traced by metis
qed simp

lemma async_loop_keeps:
  "\<lbrakk>loop_ok b s; I s; async_loop call fuel s = Ret s'\<rbrakk> \<Longrightarrow> keeps I b s s'"
proof (induction fuel arbitrary: s)
  case 0
  then show ?case by simp
next
  case (Suc fuel)
  show ?case
  proof (cases "async_batch s")
    case Nil
    with Suc.prems show ?thesis by (simp add: keeps_refl)
  next
    case (Cons h hs)
    let ?s = "s\<lparr>async_batch := hs, async_handles := async_handles s @ [h]\<rparr>"
    from Suc.prems(3) Cons obtain x where x: "handles s h = Some x" by (auto simp: run_simps)
    with quiet [OF Suc.prems(2)] have p: "\<not> pending x" by (auto simp: quiet_def)
    then have "set_handle h (x\<lparr>pending := False\<rparr>) ?s = ?s" using x by (simp add: set_handle_def map_upd_triv)
    with Suc.prems(3) Cons x p have rest: "async_loop call fuel ?s = Ret s'" by (simp add: with_handle_def)
    have ok: "loop_ok b ?s" using Suc.prems(1) by (rule loop_ok_cong) simp_all
    have k0: "keeps I b s ?s" by (rule unseen [OF Suc.prems(2) ok]) (simp_all add: client_view_def listed_def)
    from keeps_trans [OF k0 Suc.IH [OF keepsD [OF k0] rest]] show ?thesis .
  qed
qed

lemma async_io_keeps:
  assumes "loop_ok b s" and "I s" and "async_io k call s = Ret s'"
  shows "keeps I b s s'"
proof -
  from assms(3) obtain fd s1 where s1: "async_drain k fd RETRIES s = Ret s1"
    and r: "async_loop call (Suc (length (async_handles s1))) (s1\<lparr>async_batch := async_handles s1, async_handles := []\<rparr>) = Ret s'"
    unfolding async_io_def by (auto simp: run_simps simp del: async_drain.simps async_loop.simps)
  from async_drain_traced [OF s1] have k0: "keeps I b s s1" using unseen_traced assms by blast
  let ?s = "s1\<lparr>async_batch := async_handles s1, async_handles := []\<rparr>"
  have ok: "loop_ok b ?s" using keepsD(1) [OF k0] by (rule loop_ok_cong) simp_all
  have k1: "keeps I b s1 ?s" by (rule unseen [OF keepsD(2) [OF k0] ok]) (simp_all add: client_view_def listed_def)
  note k01 = keeps_trans [OF k0 k1]
  from keeps_trans [OF k01 async_loop_keeps [OF keepsD [OF k01] r]] show ?thesis .
qed

text \<open>A poll handle whose descriptor failed is stopped before its callback is made.\<close>

lemma poll_io_active:
  assumes "loop_ok b s" and i: "ios s (Io h) = Some i" "w_pevents i \<noteq> 0"
  shows "\<exists>x. handles s h = Some x \<and> h_type x = UV_POLL \<and> uv__is_active x"
  using polls_ok_active [OF _ i] assms(1) by (auto simp: loop_ok_def)

lemma poll_io_stopped:
  assumes "loop_ok b s" and "I s" and i: "ios s (Io h) = Some i" "w_pevents i \<noteq> 0" and x: "handles s h = Some x"
  defines "s1 \<equiv> with_flags h x (h_flags x AND NOT UV_HANDLE_ACTIVE) (unwatch (Io h) i s)"
  shows "bnd (uv__io_stop (Io h) POLL_ALL s) (uv__handle_stop h) = Ret s1" "keeps I b s s1"
    "h_cb x = Some cb \<Longrightarrow> due h (x\<lparr>h_flags := h_flags x AND NOT UV_HANDLE_ACTIVE\<rparr>) cb s1"
proof -
  note ok = assms(1) [unfolded loop_ok_def]
  from poll_io_active [OF assms(1) i] x have x': "h_type x = UV_POLL" "uv__is_active x" by simp_all
  have fd: "0 \<le> w_fd i" using ok i unfolding ios_ok_def by blast
  have l: "h \<in> listed s" "\<not> uv__is_closing x" using active_listed [OF assms(1) x x'(2)] by simp_all
  let ?s1 = "unwatch (Io h) i s" and ?f = "h_flags x AND NOT UV_HANDLE_ACTIVE"
  have "uv__io_stop (Io h) POLL_ALL s = Ret ?s1" by (rule io_stop_all) (use ok i fd in simp_all)
  moreover have "uv__handle_stop h ?s1 = Ret s1" unfolding s1_def by (rule handle_stop_eq) (simp add: x)
  ultimately show "bnd (uv__io_stop (Io h) POLL_ALL s) (uv__handle_stop h) = Ret s1" by simp
  have u: "handles_ok (unpoll h x i s)" "ios_ok (unpoll h x i s)" "polls_ok (unpoll h x i s)"
    "kinds_ok (unpoll h x i s)" "signals_ok (unpoll h x i s)"
    by (rule unpoll_ok; use ok x x' i fd in simp)+
  have "closing_ok b (unpoll h x i s)" by (rule unpoll_closing) (use ok x x' in simp_all)
  with u have "loop_ok b (unpoll h x i s)" by (simp add: loop_ok_def)
  then have ok': "loop_ok b s1" unfolding s1_def by (rule loop_ok_cong) (simp_all add: unpoll_def)
  have v: "client_view s1 = client_view s"
    using view_with_flags [of ?s1 h x ?f] view_unwatch [OF i(1)] x by (simp add: handle_view_def s1_def)
  show "keeps I b s s1" by (rule unseen [OF assms(2) ok' v]) (simp add: s1_def)
  show "h_cb x = Some cb \<Longrightarrow> due h (x\<lparr>h_flags := ?f\<rparr>) cb s1" using l by (simp add: due_def is_closing_iff s1_def)
qed

lemma poll_io_keeps:
  assumes "loop_ok b s" and "I s" and i: "ios s (Io h) = Some i" "w_pevents i \<noteq> 0"
    and r: "poll_io call h e s = Ret s'"
  shows "keeps I b s s'"
proof -
  from poll_io_active [OF assms(1) i] obtain x where x: "handles s h = Some x" "h_type x = UV_POLL" "uv__is_active x"
    by blast
  show ?thesis
  proof (cases "has e POLLERR \<and> \<not> has e POLLPRI")
    case False
    with r x(1) obtain c where "call_back call (h_cb x) h 0 c s = Ret s'" unfolding poll_io_def
      by (auto simp: run_simps)
    then show ?thesis using callback [OF assms(1,2) x(1,3)] by blast
  next
    case True
    let ?s = "with_flags h x (h_flags x AND NOT UV_HANDLE_ACTIVE) (unwatch (Io h) i s)"
    note st = poll_io_stopped [OF assms(1,2) i x(1)]
    from r True st(1) have c: "call_back call (h_cb x) h UV_EBADF 0 ?s = Ret s'"
      unfolding poll_io_def by (simp add: with_handle_def flip: bnd_assoc)
    then obtain cb where cb: "h_cb x = Some cb" "call cb h UV_EBADF 0 ?s = Ret s'"
      by (auto simp: call_back_def split: option.splits)
    from keeps_trans [OF st(2) fire [OF keepsD [OF st(2)] st(3) [OF cb(1)] cb(2)]] show ?thesis .
  qed
qed

lemma run_io_keeps:
  assumes ok: "loop_ok b s" "I s" and i: "ios s w = Some i" and p: "\<And>h. w = Io h \<Longrightarrow> w_pevents i \<noteq> 0"
    and r: "run_io k call w e s = Ret s'"
  shows "keeps I b s s'"
proof (cases "w_cb i")
  case uv__poll_io
  with r i obtain h where h: "w = Io h" "poll_io call h e s = Ret s'"
    by (auto simp: run_io_def run_simps split: wid.splits)
  with poll_io_keeps [OF ok, of h i e s'] i p show ?thesis by simp
next
  case uv__async_io
  with r i have "async_io k call s = Ret s'" by (auto simp: run_io_def run_simps)
  then show ?thesis by (rule async_io_keeps [OF ok])
next
  case uv__signal_event
  with r i have "signal_event k call (Suc (length (signal_pipe s))) s = Ret s'"
    by (auto simp: run_io_def run_simps simp del: signal_event.simps)
  then show ?thesis by (rule signal_event_keeps [OF ok])
qed

lemma one_poll_event_keeps:
  assumes ok: "loop_ok b s" "I s" and r: "one_poll_event k call e fd s = Ret (sg, c, s')"
  shows "keeps I b s s'"
proof (cases "fd = -1 \<or> watchers s ! nat fd = None")
  case True
  have "snd (uv_sys k (Epoll_ctl EPOLL_CTL_DEL fd 0) s) = traced [Epoll_ctl EPOLL_CTL_DEL fd 0] s"
    by (simp add: traced_def)
  with True r have "s' = s \<or> s' = traced [Epoll_ctl EPOLL_CTL_DEL fd 0] s"
    by (auto simp: one_poll_event_def run_simps split: if_splits)
  then show ?thesis using keeps_refl [of b s I, OF ok] unseen_traced [OF ok] by blast
next
  case False
  then obtain w where w: "watchers s ! nat fd = Some w" by auto
  from r False w obtain i where fd: "nat fd < length (watchers s)" and i: "ios s w = Some i"
    and d: "s' = s \<or> run_io k call w (wanted i e) s = Ret s'"
    by (auto simp: one_poll_event_def run_simps split: if_splits)
  have "ios_ok s" using ok(1) by (simp add: loop_ok_def)
  with fd w i have "w_pevents i \<noteq> 0" unfolding ios_ok_def by (metis option.inject)
  with d show ?thesis using keeps_refl [of b s I, OF ok] run_io_keeps [OF ok i] by blast
qed

lemma poll_events_loop_keeps:
  "\<lbrakk>loop_ok b s; I s; poll_events_loop k call is sg n s = Ret (sg', n', s')\<rbrakk> \<Longrightarrow> keeps I b s s'"
proof (induction "is" arbitrary: sg n s)
  case Nil
  then show ?case by (simp add: keeps_refl)
next
  case (Cons j js)
  from Cons.prems(3) obtain e fd g c s1 sg1 n1 where s1: "one_poll_event k call e fd s = Ret (g, c, s1)"
    and rest: "poll_events_loop k call js sg1 n1 s1 = Ret (sg', n', s')"
    by (auto simp: run_simps split: prod.splits)
  from one_poll_event_keeps [OF Cons.prems(1,2) s1] have k: "keeps I b s s1" .
  from keeps_trans [OF k Cons.IH [OF keepsD [OF k] rest]] show ?case .
qed

lemma update_time_keeps: "loop_ok b s \<Longrightarrow> I s \<Longrightarrow> keeps I b s (uv__update_time k s)"
proof (rule unseen)
  show "loop_ok b s \<Longrightarrow> loop_ok b (uv__update_time k s)"
    by (rule loop_ok_cong [of b s]) (simp_all add: uv__update_time_def)
qed (simp_all add: uv__update_time_def client_view_def listed_def)

lemma in_flight_keeps: "loop_ok b s \<Longrightarrow> I s \<Longrightarrow> keeps I b s (s\<lparr>in_flight := es\<rparr>)"
proof (rule unseen)
  show "loop_ok b s \<Longrightarrow> loop_ok b (s\<lparr>in_flight := es\<rparr>)" by (rule loop_ok_cong [of b s]) simp_all
qed (simp_all add: client_view_def listed_def)

lemma receive_keeps: "loop_ok b s \<Longrightarrow> I s \<Longrightarrow> receive sigs s = Ret s' \<Longrightarrow> keeps I b s s'"
  using receive_ok [of b s sigs s'] unseen [of s b s'] by blast

lemma arm_all_keeps:
  "\<lbrakk>loop_ok b s; I s; watcher_queue s = ws; arm_all k ws s = Ret s'\<rbrakk> \<Longrightarrow> keeps I b s s'"
proof (induction ws arbitrary: s)
  case Nil
  then show ?case by (simp add: keeps_refl)
next
  case (Cons w ws)
  from Cons.prems(4) obtain s1 where s1: "arm k w (s\<lparr>watcher_queue := ws\<rparr>) = Ret s1" and rest: "arm_all k ws s1 = Ret s'"
    by (auto simp: run_simps)
  from arm_Ret [OF Cons.prems(1,3) s1] have a: "loop_ok b s1" "client_view s1 = client_view s" "watcher_queue s1 = ws"
    by simp_all
  have "watcher_batch s1 = watcher_batch s"
    using arm_shape [OF s1] by (auto simp: traced_def)
  with a have k0: "keeps I b s s1" by (intro unseen [OF Cons.prems(2)])
  from keeps_trans [OF k0 Cons.IH [OF keepsD [OF k0] a(3) rest]] show ?case .
qed

lemma signal_watcher_keeps:
  "\<lbrakk>loop_ok b s; I s; (if sg then run_io k call Signal_watcher e s else Ret s) = Ret s'\<rbrakk> \<Longrightarrow> keeps I b s s'"
proof (cases sg)
  case True
  assume a: "loop_ok b s" "I s" "(if sg then run_io k call Signal_watcher e s else Ret s) = Ret s'"
  with True have r: "run_io k call Signal_watcher e s = Ret s'" by simp
  then obtain i where "ios s Signal_watcher = Some i" by (auto simp: run_io_def run_simps)
  from run_io_keeps [OF a(1,2) this _ r] show ?thesis by simp
qed (simp add: keeps_refl)

lemma poll_round_keeps:
  assumes ok: "loop_ok b s" "I s" and r: "poll_round k arrives call base tmo rt count s = Ret (n, s')"
  shows "keeps I b s s'"
proof -
  let ?r = "k (Epoll_wait tmo # trace s)" and ?s1 = "traced [Epoll_wait tmo] s"
  have k1: "keeps I b s ?s1" using ok by (rule unseen_traced)
  obtain s2 where s2: "receive (arrives (Epoll_wait tmo # trace s)) ?s1 = Ret s2"
    using r unfolding poll_round_def by (auto simp: run_simps traced_def)
  from receive_keeps [OF keepsD [OF k1] s2] have k2: "keeps I b ?s1 s2" .
  let ?s3 = "uv__update_time k s2"
  from update_time_keeps [OF keepsD [OF k2]] have k3: "keeps I b s2 ?s3" .
  from k1 k2 k3 have k123: "keeps I b s ?s3" by (blast intro: keeps_trans)
  show ?thesis
  proof (cases "rv ?r = 0 \<or> rv ?r = -1")
    case True
    with r s2 have "s' = ?s3" unfolding poll_round_def
      by (auto simp: run_simps traced_def Let_def split: if_splits)
    with k123 show ?thesis by simp
  next
    case False
    let ?s4 = "?s3\<lparr>in_flight := epoll_events ?r\<rparr>"
    from r s2 False obtain sg ne s5 s6 where
      s5: "poll_events_loop k call [0..<nat (rv ?r)] False 0 ?s4 = Ret (sg, ne, s5)" and
      s6: "(if sg then run_io k call Signal_watcher POLLIN s5 else Ret s5) = Ret s6" and
      s': "s' = s6\<lparr>in_flight := []\<rparr>"
      unfolding poll_round_def
      by (simp add: traced_def run_simps split: prod.splits)
       (elim exE conjE, simp add: run_simps Let_def split: if_splits prod.splits; blast)
    from in_flight_keeps [OF keepsD [OF k123]] have k4: "keeps I b ?s3 ?s4" .
    from poll_events_loop_keeps [OF keepsD [OF k4] s5] have k5: "keeps I b ?s4 s5" .
    from signal_watcher_keeps [OF keepsD [OF k5] s6] have k6: "keeps I b s5 s6" .
    from in_flight_keeps [OF keepsD [OF k6]] have k7: "keeps I b s6 s'" unfolding s' .
    note keeps_trans [OF k123 k4]
    also note k5 also note k6 also note k7
    finally show ?thesis .
  qed
qed

lemma poll_rounds_keeps:
  "\<lbrakk>loop_ok b s; I s; poll_rounds k arrives call base fuel tmo rt count s = Ret s'\<rbrakk> \<Longrightarrow> keeps I b s s'"
proof (induction fuel arbitrary: tmo rt count s)
  case 0
  then show ?case by simp
next
  case (Suc fuel)
  from Suc.prems(3) obtain n s1 where s1: "poll_round k arrives call base tmo rt count s = Ret (n, s1)"
    and rest: "(case n of Finished \<Rightarrow> Ret s1 | Again t rt c \<Rightarrow> poll_rounds k arrives call base fuel t rt c s1) = Ret s'"
    by (auto simp: run_simps)
  from poll_round_keeps [OF Suc.prems(1,2) s1] have k: "keeps I b s s1" .
  show ?case
  proof (cases n)
    case Finished
    with rest k show ?thesis by simp
  next
    case (Again t rt' c)
    with rest have "poll_rounds k arrives call base fuel t rt' c s1 = Ret s'" by simp
    from keeps_trans [OF k Suc.IH [OF keepsD [OF k] this]] show ?thesis .
  qed
qed

lemma io_poll_keeps:
  assumes ok: "loop_ok b s" "I s" and r: "uv__io_poll k arrives call fuel tmo s = Ret s'"
  shows "keeps I b s s'"
proof (cases "nfds s = 0")
  case True
  with r ok show ?thesis by (simp add: uv__io_poll_def run_simps keeps_refl)
next
  case False
  with r obtain s1 where s1: "arm_all k (watcher_queue s) s = Ret s1"
    and rest: "poll_rounds k arrives call (time s1) fuel tmo tmo 48 s1 = Ret s'"
    by (auto simp: uv__io_poll_def run_simps)
  from arm_all_keeps [OF ok _ s1] have k: "keeps I b s s1" by simp
  from keeps_trans [OF k poll_rounds_keeps [OF keepsD [OF k] rest]] show ?thesis .
qed

text \<open>Nothing is pending and no timer runs.\<close>

lemma run_pending_eq: "I s \<Longrightarrow> uv__run_pending k c s = Ret s"
  using quiet [of s] by (simp add: uv__run_pending_def quiet_def)

lemma pending_rounds_eq: "I s \<Longrightarrow> pending_rounds k c n s = Ret s"
  using quiet [of s] by (cases n) (simp_all add: quiet_def)

lemma run_timers_eq: "I s \<Longrightarrow> uv__run_timers c fuel s = Ret s' \<Longrightarrow> s' = s"
  using quiet [of s] by (cases fuel) (simp_all add: quiet_def)

text \<open>Between iterations no phase is running.\<close>

lemma keeps_idle: "keeps I b s s' \<Longrightarrow> \<forall>n. watcher_batch s n = [] \<Longrightarrow> \<forall>n. watcher_batch s' n = []"
  by (simp add: keeps_def)

lemma iteration_keeps:
  assumes ok: "loop_ok [] s" "I s" and idle: "\<forall>n. watcher_batch s n = []"
    and r: "iteration k arrives call fuel mode s = Ret s'"
  shows "keeps I [] s s'"
proof -
  from r obtain s2 s3 tmo s4 s5 s6 s7 where
    s2: "uv__run_watchers call Idle s = Ret s2" and s3: "uv__run_watchers call Prepare s2 = Ret s3" and
    s4: "uv__io_poll k arrives call fuel tmo s3 = Ret s4" and s5: "pending_rounds k call 8 s4 = Ret s5" and
    s6: "uv__run_watchers call Check s5 = Ret s6" and s7: "uv__run_closing_handles call s6 = Ret s7" and
    s8: "uv__run_timers call fuel (uv__update_time k s7) = Ret s'"
    unfolding iteration_def run_pending_eq [OF ok(2)] Let_def bnd.simps run_simps by blast
  have k2: "keeps I [] s s2" by (rule run_watchers_keeps [OF ok idle s2])
  have k3: "keeps I [] s2 s3" by (rule run_watchers_keeps [OF keepsD [OF k2] keeps_idle [OF k2 idle] s3])
  note k23 = keeps_trans [OF k2 k3]
  have k4: "keeps I [] s3 s4" by (rule io_poll_keeps [OF keepsD [OF k3] s4])
  note k24 = keeps_trans [OF k23 k4]
  have e5: "s5 = s4" using s5 pending_rounds_eq [OF keepsD(2) [OF k4]] by simp
  have k6: "keeps I [] s4 s6"
    by (rule run_watchers_keeps [OF keepsD [OF k4] keeps_idle [OF k24 idle] s6 [unfolded e5]])
  have k7: "keeps I [] s6 s7" by (rule run_closing_keeps [OF keepsD [OF k6] s7])
  have k8: "keeps I [] s7 (uv__update_time k s7)" by (rule update_time_keeps [OF keepsD [OF k7]])
  have e8: "s' = uv__update_time k s7" by (rule run_timers_eq [OF keepsD(2) [OF k8] s8])
  note k24
  also note k6 also note k7 also note k8
  finally show ?thesis unfolding e8 .
qed

lemma run_loop_keeps:
  "\<lbrakk>loop_ok [] s; I s; \<forall>n. watcher_batch s n = []; run_loop k arrives call fuel mode r s = Ret (r', s')\<rbrakk> \<Longrightarrow>
    keeps I [] s s'"
proof (induction fuel arbitrary: r s)
  case 0
  then show ?case by simp
next
  case (Suc fuel)
  show ?case
  proof (cases "r \<and> \<not> stop_flag s")
    case False
    with Suc.prems show ?thesis by (auto simp: keeps_refl)
  next
    case True
    with Suc.prems(4) obtain s1 where s1: "iteration k arrives call fuel mode s = Ret s1"
      and rest: "s' = s1 \<or> run_loop k arrives call fuel mode (uv__loop_alive s1) s1 = Ret (r', s')"
      by (auto simp: run_simps split: if_splits)
    from iteration_keeps [OF Suc.prems(1-3) s1] have k: "keeps I [] s s1" .
    from rest show ?thesis
    proof
      assume "run_loop k arrives call fuel mode (uv__loop_alive s1) s1 = Ret (r', s')"
      from keeps_trans [OF k Suc.IH [OF keepsD [OF k] keeps_idle [OF k Suc.prems(3)] this]] show ?thesis .
    qed (use k in simp)
  qed
qed

lemma uv_run_keeps:
  assumes ok: "loop_ok [] s" "I s" and idle: "\<forall>n. watcher_batch s n = []"
    and r: "uv_run k arrives call fuel mode s = Ret (r', s')"
  shows "loop_ok [] s' \<and> I s' \<and> (\<forall>n. watcher_batch s' n = [])"
proof -
  from r obtain t s2 r2 s3 where t: "t = s \<or> t = uv__update_time k s"
    and s2: "uv__run_timers call fuel t = Ret s2 \<or> s2 = t"
    and s3: "run_loop k arrives call fuel mode r2 s2 = Ret (r', s3)" and s': "s' = s3\<lparr>stop_flag := False\<rparr>"
    unfolding uv_run_def by (auto simp: Let_def run_simps split: if_splits)
  have k1: "keeps I [] s t" using t keeps_refl [of "[]" s I, OF ok] update_time_keeps [OF ok] by blast
  then have e: "s2 = t" using s2 run_timers_eq keepsD(2) by blast
  have k2: "keeps I [] t s3" by (rule run_loop_keeps [OF keepsD [OF k1] keeps_idle [OF k1 idle] s3 [unfolded e]])
  have o: "loop_ok [] s'" unfolding s' using keepsD(1) [OF k2] by (rule loop_ok_cong) simp_all
  have k3: "keeps I [] s3 s'" by (rule unseen [OF keepsD(2) [OF k2] o]) (simp_all add: s' client_view_def listed_def)
  from k1 k2 k3 have k: "keeps I [] s s'" by (blast intro: keeps_trans)
  from keepsD [OF k] keeps_idle [OF k idle] show ?thesis by blast
qed

end

end
