(* ===== verification/Uv_Calls.thy ===== *)
theory Uv_Calls
  imports Uv_Client
begin

text \<open>
  Which callbacks the loop makes. Inside every function that calls back, up to a whole uv_run, a callback is
  made only when it is due, or when its handle is closed, and in a state that keeps the invariants. So two
  dispatchers that agree on these calls lead to the same outcome, whatever the other ones do: the lemmas
  below show it for each function, with the contract of \<open>loop_client\<close>.
\<close>

definition same_calls :: "(('cb, 'm) uv_loop_scheme \<Rightarrow> bool) \<Rightarrow> ('cb, 'm) dispatcher \<Rightarrow> ('cb, 'm) dispatcher \<Rightarrow> bool" where
  "same_calls I call call2 \<longleftrightarrow>
     (\<forall>b s h x cb a c. loop_ok b s \<and> I s \<and> due h x cb s \<longrightarrow> call2 cb h a c s = call cb h a c s) \<and>
     (\<forall>b s h x cb. loop_ok b (gone h x s) \<and> I s \<and> ending h x s \<and> close_cb x = Some cb \<longrightarrow>
       call2 cb h 0 0 (gone h x s) = call cb h 0 0 (gone h x s))"

lemma bnd_cong: "a = a' \<Longrightarrow> (\<And>x. a' = Ret x \<Longrightarrow> f x = g x) \<Longrightarrow> bnd a f = bnd a' g"
  by (cases a') simp_all

lemma with_handle_cong: "(\<And>x. handles s h = Some x \<Longrightarrow> f x s = g x s) \<Longrightarrow> with_handle h f s = with_handle h g s"
  by (simp add: with_handle_def split: option.split)

lemma bnd_with_handle: "bnd (with_handle h f s) g = with_handle h (\<lambda>x s. bnd (f x s) g) s"
  by (simp add: with_handle_def split: option.split)

lemma with_io_cong: "(\<And>i. ios s w = Some i \<Longrightarrow> f i s = g i s) \<Longrightarrow> with_io w f s = with_io w g s"
  by (simp add: with_io_def split: option.split)

lemma require_cong: "(b \<Longrightarrow> m = m') \<Longrightarrow> require b m = require b m'"
  by (simp add: require_def)

context loop_client
begin

lemma due_same: "\<lbrakk>same_calls I call call2; loop_ok b s; I s; due h x cb s\<rbrakk> \<Longrightarrow> call2 cb h a c s = call cb h a c s"
  unfolding same_calls_def by blast

lemma callback_same: "\<lbrakk>same_calls I call call2; loop_ok b s; I s; handles s h = Some x; uv__is_active x\<rbrakk> \<Longrightarrow>
    call_back call2 (h_cb x) h a c s = call_back call (h_cb x) h a c s"
  using active_listed [of b s h x] due_same [of call2 b s h x]
  by (auto simp: call_back_def due_def split: option.split)

section \<open>Closing\<close>

lemma finish_close_same:
  assumes c: "same_calls I call call2" and ok: "loop_ok (h # b) s" "I s"
  shows "uv__finish_close call2 h s = uv__finish_close call h s"
proof (cases "handles s h")
  case None
  then show ?thesis by (simp add: uv__finish_close_def with_handle_def)
next
  case (Some x)
  show ?thesis
  proof (cases "has (h_flags x) UV_HANDLE_CLOSING \<and> \<not> has (h_flags x) UV_HANDLE_CLOSED")
    case False
    then show ?thesis using Some by (auto simp: uv__finish_close_def with_handle_def require_def)
  next
    case True
    have hx: "h \<in> listed s" "\<not> uv__is_active x" using closing_batch [OF _ Some] ok(1) by (auto simp: loop_ok_def)
    have e: "ending h x s" using Some True hx(1) by (simp add: ending_def)
    have "call2 cb h 0 0 (gone h x s) = call cb h 0 0 (gone h x s)" if "close_cb x = Some cb" for cb
      using c gone_ok [OF ok(1) Some] ok(2) e that unfolding same_calls_def by blast
    then show ?thesis using True finish_close_eq [OF Some _ _ hx(2)] by (simp split: option.split)
  qed
qed

lemma finish_all_same:
  "\<lbrakk>same_calls I call call2; loop_ok hs s; I s\<rbrakk> \<Longrightarrow> finish_all call2 hs s = finish_all call hs s"
proof (induction hs arbitrary: s)
  case (Cons h hs)
  show ?case unfolding finish_all.simps
  proof (rule bnd_cong [OF finish_close_same [OF Cons.prems]])
    fix s1
    assume "uv__finish_close call h s = Ret s1"
    from finish_close_keeps [OF Cons.prems(2,3) this] show "finish_all call2 hs s1 = finish_all call hs s1"
      by (intro Cons.IH [OF Cons.prems(1)]) (rule keepsD, assumption)+
  qed
qed simp

lemma run_closing_same:
  "\<lbrakk>same_calls I call call2; loop_ok [] s; I s\<rbrakk> \<Longrightarrow> uv__run_closing_handles call2 s = uv__run_closing_handles call s"
  unfolding uv__run_closing_handles_def by (rule finish_all_same [OF _ closing_starts])

section \<open>Watchers and signals\<close>

lemma watcher_loop_same:
  "\<lbrakk>same_calls I call call2; loop_ok b s; I s\<rbrakk> \<Longrightarrow> watcher_loop call2 n fuel s = watcher_loop call n fuel s"
proof (induction fuel arbitrary: s)
  case (Suc fuel)
  show ?case
  proof (cases "watcher_batch s n")
    case (Cons h hs)
    let ?s = "s\<lparr>watcher_batch := (watcher_batch s)(n := hs), watcher_handles := (watcher_handles s)(n := watcher_handles s n @ [h])\<rparr>"
    note nx = batch_next [OF Suc.prems(2,3) Cons]
    have "bnd (call_back call2 (h_cb x) h 0 0 ?s) (watcher_loop call2 n fuel) =
        bnd (call_back call (h_cb x) h 0 0 ?s) (watcher_loop call n fuel)" if x: "handles s h = Some x" for x
    proof (rule bnd_cong)
      show "call_back call2 (h_cb x) h 0 0 ?s = call_back call (h_cb x) h 0 0 ?s"
        by (rule callback_same [OF Suc.prems(1) keepsD [OF nx(1)] _ nx(2) [OF x]]) (simp add: x)
      fix s1
      assume s1: "call_back call (h_cb x) h 0 0 ?s = Ret s1"
      have "keeps I b ?s s1" by (rule callback [OF keepsD [OF nx(1)] _ nx(2) [OF x] s1]) (simp add: x)
      then show "watcher_loop call2 n fuel s1 = watcher_loop call n fuel s1"
        by (intro Suc.IH [OF Suc.prems(1)]) (rule keepsD, assumption)+
    qed
    then show ?thesis using Cons by (simp add: with_handle_def split: option.split)
  qed simp
qed simp

lemma run_watchers_same:
  assumes "same_calls I call call2" and "loop_ok b s" and "I s" and "\<forall>n. watcher_batch s n = []"
  shows "uv__run_watchers call2 n s = uv__run_watchers call n s"
proof -
  let ?s = "s\<lparr>watcher_batch := (watcher_batch s)(n := watcher_handles s n), watcher_handles := (watcher_handles s)(n := [])\<rparr>"
  have "loop_ok b ?s" using assms(2,4) by (intro batch_start_ok) simp_all
  moreover have "I ?s" by (rule sees [OF assms(3)]) (simp add: client_view_def listed_def)
  ultimately show ?thesis unfolding uv__run_watchers_def by (rule watcher_loop_same [OF assms(1)])
qed

lemma signal_msgs_Cons: "signal_msgs k c (m # ms) s = bnd (signal_msgs k c [m] s) (signal_msgs k c ms)"
proof -
  have "signal_msgs k c [] = Ret" by (rule ext) simp
  then show ?thesis by (cases m) (simp add: bnd_with_handle bnd_assoc Let_def)
qed

lemma signal_msg_same:
  assumes c: "same_calls I call call2" and ok: "loop_ok b s" "I s" and m: "snd m \<noteq> 0"
  shows "signal_msgs k call2 [m] s = signal_msgs k call [m] s"
proof -
  obtain h sg where hs: "m = (h, sg)" by (cases m)
  have "call_back call2 (h_cb x) h (signum x) 0 s = call_back call (h_cb x) h (signum x) 0 s"
    if x: "handles s h = Some x" "sg = signum x" for x
  proof (rule callback_same [OF c ok x(1)])
    have "signals_ok s" using ok(1) by (simp add: loop_ok_def)
    with m hs x show "uv__is_active x" by (auto simp: signals_ok_def)
  qed
  then have "(if sg = signum x then require (\<not> has (h_flags x) UV_HANDLE_CLOSING) (call_back call2 (h_cb x) h (signum x) 0 s)
      else Ret s) = (if sg = signum x then require (\<not> has (h_flags x) UV_HANDLE_CLOSING) (call_back call (h_cb x) h (signum x) 0 s)
      else Ret s)" if "handles s h = Some x" for x using that by simp
  then show ?thesis unfolding hs signal_msgs.simps by (intro with_handle_cong) simp
qed

lemma signal_msgs_same:
  "\<lbrakk>same_calls I call call2; loop_ok b s; I s; \<forall>m \<in> set ms. snd m \<noteq> 0\<rbrakk> \<Longrightarrow> signal_msgs k call2 ms s = signal_msgs k call ms s"
proof (induction ms arbitrary: s)
  case (Cons m ms)
  show ?case unfolding signal_msgs_Cons [of _ m ms]
  proof (rule bnd_cong)
    show "signal_msgs k call2 [m] s = signal_msgs k call [m] s"
      by (rule signal_msg_same [OF Cons.prems(1-3)]) (use Cons.prems(4) in simp)
    fix s1
    assume "signal_msgs k call [m] s = Ret s1"
    from signal_msgs_keeps [OF Cons.prems(2,3) _ this] Cons.prems(4) have "keeps I b s s1" by simp
    then show "signal_msgs k call2 ms s1 = signal_msgs k call ms s1"
      using Cons.prems(4) by (intro Cons.IH [OF Cons.prems(1)]) (auto dest: keepsD)
  qed
qed simp

lemma signal_event_same:
  "\<lbrakk>same_calls I call call2; loop_ok b s; I s\<rbrakk> \<Longrightarrow> signal_event k call2 fuel s = signal_event k call fuel s"
proof (induction fuel arbitrary: s)
  case (Suc fuel)
  note k0 = pipe_read_keeps [OF Suc.prems(2,3)]
  show ?case unfolding signal_event.simps Let_def
  proof (rule bnd_cong [OF signal_msgs_same [OF Suc.prems(1) keepsD [OF k0(1)] k0(2)]])
    fix s1
    assume "signal_msgs k call (take 32 (signal_pipe s)) (s\<lparr>signal_pipe := drop 32 (signal_pipe s)\<rparr>) = Ret s1"
    from signal_msgs_keeps [OF keepsD [OF k0(1)] k0(2) this] have "loop_ok b s1" "I s1" by (rule keepsD)+
    from Suc.IH [OF Suc.prems(1) this] show "(if length (take 32 (signal_pipe s)) = 32 then signal_event k call2 fuel s1 else Ret s1) =
        (if length (take 32 (signal_pipe s)) = 32 then signal_event k call fuel s1 else Ret s1)" by simp
  qed
qed simp

section \<open>Async handles: nothing is pending\<close>

lemma async_loop_same: "I s \<Longrightarrow> async_loop call2 fuel s = async_loop call fuel s"
proof (induction fuel arbitrary: s)
  case (Suc fuel)
  show ?case
  proof (cases "async_batch s")
    case (Cons h hs)
    let ?s = "s\<lparr>async_batch := hs, async_handles := async_handles s @ [h]\<rparr>"
    have "I ?s" by (rule sees [OF Suc.prems]) (simp add: client_view_def listed_def)
    from Suc.IH [OF this] have e: "async_loop call2 fuel ?s = async_loop call fuel ?s" .
    have "\<not> pending x \<and> set_handle h (x\<lparr>pending := False\<rparr>) ?s = ?s" if "handles s h = Some x" for x
      using quiet [OF Suc.prems] that by (auto simp: quiet_def set_handle_def map_upd_triv)
    then show ?thesis using Cons e by (simp add: with_handle_def split: option.split)
  qed simp
qed simp

lemma async_io_same: "I s \<Longrightarrow> async_io k call2 s = async_io k call s"
  unfolding async_io_def
proof (intro with_io_cong bnd_cong refl)
  fix i s1
  assume "I s" and "async_drain k (w_fd i) RETRIES s = Ret s1"
  then obtain us where s1: "s1 = traced us s" using async_drain_traced by blast
  have "I (s1\<lparr>async_batch := async_handles s1, async_handles := []\<rparr>)"
    by (rule sees [OF \<open>I s\<close>]) (simp add: s1 client_view_def listed_def traced_def)
  then show "async_loop call2 (Suc (length (async_handles s1))) (s1\<lparr>async_batch := async_handles s1, async_handles := []\<rparr>) =
    async_loop call (Suc (length (async_handles s1))) (s1\<lparr>async_batch := async_handles s1, async_handles := []\<rparr>)"
    by (rule async_loop_same)
qed

section \<open>Polling\<close>

lemma poll_io_same:
  assumes c: "same_calls I call call2" and ok: "loop_ok b s" "I s" and i: "ios s (Io h) = Some i" "w_pevents i \<noteq> 0"
  shows "poll_io call2 h e s = poll_io call h e s"
proof -
  from poll_io_active [OF ok(1) i] obtain x where x: "handles s h = Some x" "uv__is_active x" by blast
  note st = poll_io_stopped [OF ok i x(1)]
  let ?s = "with_flags h x (h_flags x AND NOT UV_HANDLE_ACTIVE) (unwatch (Io h) i s)"
  have "call_back call2 (h_cb x) h UV_EBADF 0 ?s = call_back call (h_cb x) h UV_EBADF 0 ?s"
    using due_same [OF c keepsD [OF st(2)] st(3)] by (simp add: call_back_def split: option.split)
  then show ?thesis using st(1) x(1) callback_same [OF c ok x]
    by (simp add: poll_io_def with_handle_def flip: bnd_assoc)
qed

lemma run_io_same:
  assumes c: "same_calls I call call2" and ok: "loop_ok b s" "I s"
    and p: "\<And>h i. w = Io h \<Longrightarrow> ios s w = Some i \<Longrightarrow> w_pevents i \<noteq> 0"
  shows "run_io k call2 w e s = run_io k call w e s"
  unfolding run_io_def
proof (rule with_io_cong)
  fix i
  assume i: "ios s w = Some i"
  have "poll_io call2 h e s = poll_io call h e s" if "w = Io h" for h
    using poll_io_same [OF c ok] i p that by blast
  then show "(case w_cb i of uv__poll_io \<Rightarrow> (case w of Io h \<Rightarrow> poll_io call2 h e s | _ \<Rightarrow> Undef)
    | uv__async_io \<Rightarrow> require (w = Async_watcher) (async_io k call2 s)
    | uv__signal_event \<Rightarrow> signal_event k call2 (Suc (length (signal_pipe s))) s) =
    (case w_cb i of uv__poll_io \<Rightarrow> (case w of Io h \<Rightarrow> poll_io call h e s | _ \<Rightarrow> Undef)
    | uv__async_io \<Rightarrow> require (w = Async_watcher) (async_io k call s)
    | uv__signal_event \<Rightarrow> signal_event k call (Suc (length (signal_pipe s))) s)"
    using async_io_same [OF ok(2)] signal_event_same [OF c ok] by (simp split: io_cb.split wid.split del: signal_event.simps)
qed

lemma one_poll_event_same:
  assumes c: "same_calls I call call2" and ok: "loop_ok b s" "I s"
  shows "one_poll_event k call2 e fd s = one_poll_event k call e fd s"
proof (cases "fd \<noteq> -1 \<and> 0 \<le> fd \<and> nat fd < length (watchers s)")
  case True
  have "run_io k call2 w e' s = run_io k call w e' s" if "watchers s ! nat fd = Some w" for w e'
  proof (rule run_io_same [OF c ok])
    fix h i
    assume "w = Io h" "ios s w = Some i"
    moreover have "ios_ok s" using ok(1) by (simp add: loop_ok_def)
    ultimately show "w_pevents i \<noteq> 0" using True that unfolding ios_ok_def by (metis option.inject)
  qed
  then show ?thesis using True by (simp add: one_poll_event_def with_io_def split: option.split)
qed (auto simp: one_poll_event_def require_def)

lemma poll_events_loop_same:
  "\<lbrakk>same_calls I call call2; loop_ok b s; I s\<rbrakk> \<Longrightarrow> poll_events_loop k call2 is sg n s = poll_events_loop k call is sg n s"
proof (induction "is" arbitrary: sg n s)
  case (Cons j js)
  show ?case unfolding poll_events_loop.simps
  proof (rule bnd_cong [OF refl], clarify, rule bnd_cong [OF one_poll_event_same [OF Cons.prems]], clarify)
    fix e fd g cn s1
    assume "one_poll_event k call e fd s = Ret (g, cn, s1)"
    from one_poll_event_keeps [OF Cons.prems(2,3) this] have "loop_ok b s1" "I s1" by (rule keepsD)+
    then show "poll_events_loop k call2 js (sg \<or> g) (if cn then Suc n else n) s1 =
        poll_events_loop k call js (sg \<or> g) (if cn then Suc n else n) s1" by (rule Cons.IH [OF Cons.prems(1)])
  qed
qed simp

lemma poll_round_same:
  assumes c: "same_calls I call call2" and ok: "loop_ok b s" "I s"
  shows "poll_round k arrives call2 base tmo rt count s = poll_round k arrives call base tmo rt count s"
proof -
  let ?r = "k (Epoll_wait tmo # trace s)" and ?s1 = "s\<lparr>trace := Epoll_wait tmo # trace s\<rparr>"
  have k1: "keeps I b s ?s1" using unseen_traced [OF ok, of "[Epoll_wait tmo]"] by (simp add: traced_def)
  have e: "bnd (poll_events_loop k call2 is False 0 (s3\<lparr>in_flight := es\<rparr>)) (\<lambda>(sg, ne, s4).
        bnd (if sg then run_io k call2 Signal_watcher POLLIN s4 else Ret s4) (G sg ne)) =
      bnd (poll_events_loop k call is False 0 (s3\<lparr>in_flight := es\<rparr>)) (\<lambda>(sg, ne, s4).
        bnd (if sg then run_io k call Signal_watcher POLLIN s4 else Ret s4) (G sg ne))"
    if s3: "loop_ok b s3" "I s3" for s3 "is" es G
  proof -
    note k4 = in_flight_keeps [OF s3, of es]
    show ?thesis
    proof (rule bnd_cong [OF poll_events_loop_same [OF c keepsD [OF k4]]], clarify)
      fix sg ne s4
      assume "poll_events_loop k call is False 0 (s3\<lparr>in_flight := es\<rparr>) = Ret (sg, ne, s4)"
      from poll_events_loop_keeps [OF keepsD [OF k4] this] have "loop_ok b s4" "I s4" by (rule keepsD)+
      from run_io_same [OF c this, of Signal_watcher POLLIN]
      have "run_io k call2 Signal_watcher POLLIN s4 = run_io k call Signal_watcher POLLIN s4" by simp
      then show "bnd (if sg then run_io k call2 Signal_watcher POLLIN s4 else Ret s4) (G sg ne) =
        bnd (if sg then run_io k call Signal_watcher POLLIN s4 else Ret s4) (G sg ne)" by simp
    qed
  qed
  have u: "uv_sys k (Epoll_wait tmo) s = (?r, ?s1)" by (simp add: uv_sys_def sys_def)
  show ?thesis unfolding poll_round_def u Let_def prod.case
  proof (rule bnd_cong [OF refl], goal_cases)
    case (1 s2)
    from receive_keeps [OF keepsD [OF k1] 1] have k2: "keeps I b ?s1 s2" .
    note s3 = keepsD [OF update_time_keeps [OF keepsD [OF k2]]]
    show ?case by (simp only: e [OF s3])
  qed
qed

lemma poll_rounds_same:
  "\<lbrakk>same_calls I call call2; loop_ok b s; I s\<rbrakk> \<Longrightarrow>
    poll_rounds k arrives call2 base fuel tmo rt count s = poll_rounds k arrives call base fuel tmo rt count s"
proof (induction fuel arbitrary: tmo rt count s)
  case (Suc fuel)
  show ?case unfolding poll_rounds.simps
  proof (rule bnd_cong [OF poll_round_same [OF Suc.prems]], clarify)
    fix n s1
    assume "poll_round k arrives call base tmo rt count s = Ret (n, s1)"
    from poll_round_keeps [OF Suc.prems(2,3) this] have "loop_ok b s1" "I s1" by (rule keepsD)+
    then show "(case n of Finished \<Rightarrow> Ret s1 | Again t rt c \<Rightarrow> poll_rounds k arrives call2 base fuel t rt c s1) =
        (case n of Finished \<Rightarrow> Ret s1 | Again t rt c \<Rightarrow> poll_rounds k arrives call base fuel t rt c s1)"
      using Suc.IH [OF Suc.prems(1)] by (simp split: round.split)
  qed
qed simp

lemma io_poll_same:
  assumes c: "same_calls I call call2" and ok: "loop_ok b s" "I s"
  shows "uv__io_poll k arrives call2 fuel tmo s = uv__io_poll k arrives call fuel tmo s"
proof -
  have "bnd (arm_all k (watcher_queue s) s) (\<lambda>s1. require (-1 \<le> tmo) (poll_rounds k arrives call2 (time s1) fuel tmo tmo 48 s1)) =
      bnd (arm_all k (watcher_queue s) s) (\<lambda>s1. require (-1 \<le> tmo) (poll_rounds k arrives call (time s1) fuel tmo tmo 48 s1))"
  proof (rule bnd_cong [OF refl])
    fix s1
    assume "arm_all k (watcher_queue s) s = Ret s1"
    from arm_all_keeps [OF ok refl this] have "loop_ok b s1" "I s1" by (rule keepsD)+
    from poll_rounds_same [OF c this] show "require (-1 \<le> tmo) (poll_rounds k arrives call2 (time s1) fuel tmo tmo 48 s1) =
        require (-1 \<le> tmo) (poll_rounds k arrives call (time s1) fuel tmo tmo 48 s1)" by simp
  qed
  then show ?thesis by (simp add: uv__io_poll_def)
qed

section \<open>A whole run\<close>

lemma run_timers_same: "I s \<Longrightarrow> uv__run_timers call2 fuel s = uv__run_timers call fuel s"
  using quiet [of s] by (cases fuel) (simp_all add: quiet_def)

lemma iteration_same:
  assumes c: "same_calls I call call2" and ok: "loop_ok [] s" "I s" and idle: "\<forall>n. watcher_batch s n = []"
  shows "iteration k arrives call2 fuel mode s = iteration k arrives call fuel mode s"
  unfolding iteration_def Let_def run_pending_eq [OF ok(2)] bnd.simps
proof (rule bnd_cong [OF run_watchers_same [OF c ok idle]], goal_cases)
  case (1 s2)
  have k2: "keeps I [] s s2" by (rule run_watchers_keeps [OF ok idle 1])
  note i2 = keeps_idle [OF k2 idle]
  show ?case
  proof (rule bnd_cong [OF run_watchers_same [OF c keepsD [OF k2] i2]], rule bnd_cong [OF refl], goal_cases)
    case (1 s3 tmo)
    have k3: "keeps I [] s2 s3" by (rule run_watchers_keeps [OF keepsD [OF k2] i2 1(1)])
    note i3 = keeps_idle [OF k3 i2]
    show ?case
    proof (rule bnd_cong [OF io_poll_same [OF c keepsD [OF k3]]], goal_cases)
      case (1 s4)
      have k4: "keeps I [] s3 s4" by (rule io_poll_keeps [OF keepsD [OF k3] 1])
      note i4 = keeps_idle [OF k4 i3]
      show ?case unfolding pending_rounds_eq [OF keepsD(2) [OF k4]] bnd.simps
      proof (rule bnd_cong [OF run_watchers_same [OF c keepsD [OF k4] i4]], goal_cases)
        case (1 s6)
        have k6: "keeps I [] s4 s6" by (rule run_watchers_keeps [OF keepsD [OF k4] i4 1])
        show ?case
        proof (rule bnd_cong [OF run_closing_same [OF c keepsD [OF k6]]], goal_cases)
          case (1 s7)
          have "keeps I [] s6 s7" by (rule run_closing_keeps [OF keepsD [OF k6] 1])
          from update_time_keeps [OF keepsD [OF this]] show ?case by (intro run_timers_same keepsD(2))
        qed
      qed
    qed
  qed
qed

lemma run_loop_same:
  "\<lbrakk>same_calls I call call2; loop_ok [] s; I s; \<forall>n. watcher_batch s n = []\<rbrakk> \<Longrightarrow>
    run_loop k arrives call2 fuel mode r s = run_loop k arrives call fuel mode r s"
proof (induction fuel arbitrary: r s)
  case (Suc fuel)
  have "bnd (iteration k arrives call2 fuel mode s) (\<lambda>s1. if mode = UV_RUN_ONCE \<or> mode = UV_RUN_NOWAIT then Ret (uv__loop_alive s1, s1)
      else run_loop k arrives call2 fuel mode (uv__loop_alive s1) s1) =
    bnd (iteration k arrives call fuel mode s) (\<lambda>s1. if mode = UV_RUN_ONCE \<or> mode = UV_RUN_NOWAIT then Ret (uv__loop_alive s1, s1)
      else run_loop k arrives call fuel mode (uv__loop_alive s1) s1)"
  proof (rule bnd_cong [OF iteration_same [OF Suc.prems]])
    fix s1
    assume "iteration k arrives call fuel mode s = Ret s1"
    from iteration_keeps [OF Suc.prems(2-4) this] have k: "keeps I [] s s1" .
    from Suc.IH [OF Suc.prems(1) keepsD [OF k] keeps_idle [OF k Suc.prems(4)]]
    show "(if mode = UV_RUN_ONCE \<or> mode = UV_RUN_NOWAIT then Ret (uv__loop_alive s1, s1)
        else run_loop k arrives call2 fuel mode (uv__loop_alive s1) s1) =
      (if mode = UV_RUN_ONCE \<or> mode = UV_RUN_NOWAIT then Ret (uv__loop_alive s1, s1)
        else run_loop k arrives call fuel mode (uv__loop_alive s1) s1)" by simp
  qed
  then show ?case by simp
qed simp

lemma uv_run_same:
  assumes c: "same_calls I call call2" and ok: "loop_ok [] s" "I s" and idle: "\<forall>n. watcher_batch s n = []"
  shows "uv_run k arrives call2 fuel mode s = uv_run k arrives call fuel mode s"
proof -
  let ?t = "uv__update_time k s"
  have t: "I ?t" "loop_ok [] ?t" "\<forall>n. watcher_batch ?t n = []"
    using update_time_keeps [OF ok] keeps_idle [OF _ idle] keepsD by blast+
  have rl: "bnd (run_loop k arrives call2 fuel mode r s2) (\<lambda>(r2, s3). Ret (r2, s3\<lparr>stop_flag := False\<rparr>)) =
      bnd (run_loop k arrives call fuel mode r s2) (\<lambda>(r2, s3). Ret (r2, s3\<lparr>stop_flag := False\<rparr>))"
    if "I s2" "loop_ok [] s2" "\<forall>n. watcher_batch s2 n = []" for r s2
    using run_loop_same [OF c that(2,1,3)] by simp
  have tm: "bnd (uv__run_timers call2 fuel s1) (\<lambda>s2. bnd (run_loop k arrives call2 fuel mode r s2) (\<lambda>(r2, s3). Ret (r2, s3\<lparr>stop_flag := False\<rparr>))) =
      bnd (uv__run_timers call fuel s1) (\<lambda>s2. bnd (run_loop k arrives call fuel mode r s2) (\<lambda>(r2, s3). Ret (r2, s3\<lparr>stop_flag := False\<rparr>)))"
    if "I s1" "loop_ok [] s1" "\<forall>n. watcher_batch s1 n = []" for r s1
  proof (rule bnd_cong [OF run_timers_same [OF that(1)]])
    fix s2
    assume "uv__run_timers call fuel s1 = Ret s2"
    then have "s2 = s1" by (rule run_timers_eq [OF that(1)])
    with rl [OF that] show "bnd (run_loop k arrives call2 fuel mode r s2) (\<lambda>(r2, s3). Ret (r2, s3\<lparr>stop_flag := False\<rparr>)) =
      bnd (run_loop k arrives call fuel mode r s2) (\<lambda>(r2, s3). Ret (r2, s3\<lparr>stop_flag := False\<rparr>))" by simp
  qed
  define d where "d \<longleftrightarrow> mode = UV_RUN_DEFAULT"
  show ?thesis unfolding uv_run_def Let_def d_def [symmetric]
    by (cases d; cases "uv__loop_alive s")
       (simp_all only: if_True if_False bnd.simps tm [OF ok(2,1) idle] tm [OF t] rl [OF ok(2,1) idle] rl [OF t])
qed

end

end
