(* ===== verification/Watcher_Inv.thy ===== *)
theory Watcher_Inv
  imports Watcher_Clients Uv_Calls
begin

text \<open>
  The invariant of the watcher: which handle has which type and callback, that a buffer is referenced
  once by each request that is still to be sent, that the count of clients is the number of
  slots in use. The theories after this one show that every callback keeps it, so the whole uv_run does.
\<close>

section \<open>The invariant\<close>

text \<open>A request that still has to send its buffer.\<close>

definition holds :: "nat \<Rightarrow> watcher_cb uv_handle \<Rightarrow> bool" where
  "holds a x \<longleftrightarrow> \<not> uv__is_closing x \<and> h_cb x = Some On_writeable \<and> h_data x = Some a"

definition holders :: "watcher \<Rightarrow> nat \<Rightarrow> nat set" where
  "holders s a = {h \<in> listed s. \<exists>x. handles s h = Some x \<and> holds a x}"

text \<open>What each address is used for.\<close>

definition role :: "nat \<Rightarrow> watcher_cb uv_handle \<Rightarrow> bool" where
  "role h x \<longleftrightarrow> (if FIRST_BLOCK \<le> h then h_type x = UV_POLL \<and> h_cb x = Some On_writeable \<and> h_data x \<noteq> None \<and> u_fd x \<noteq> -1
     else if h = idle_handle then h_type x = UV_IDLE \<and> h_cb x \<in> {None, Some Send_jsons}
     else if h = poll_handle then h_type x = UV_POLL \<and> h_cb x \<in> {None, Some On_fs_event}
     else if h = unix_domain_poll_handle then h_type x = UV_POLL \<and> h_cb x \<in> {None, Some On_connection}
     else if h = sigint_handle then h_type x = UV_SIGNAL \<and> h_cb x \<in> {None, Some On_sigint}
     else h_type x \<in> {UV_SIGNAL, UV_ASYNC} \<and> h_cb x \<in> {None, Some Work_done} \<and> (h_cb x = Some Work_done \<longrightarrow> h_type x = UV_ASYNC) \<and>
       \<not> uv__is_closing x) \<and>
   (has (h_flags x) UV_HANDLE_INTERNAL \<longleftrightarrow> h < idle_handle) \<and> (h < idle_handle \<longrightarrow> \<not> uv__has_ref x) \<and>
   (uv__is_closing x \<longrightarrow> close_cb x = (if FIRST_BLOCK \<le> h then Some Free_handle else None))"

definition roles_ok :: "watcher \<Rightarrow> bool" where
  "roles_ok s \<longleftrightarrow> (\<forall>h x. handles s h = Some x \<and> h \<in> listed s \<longrightarrow> role h x)"

text \<open>The references to each buffer: one per request, and one of the function that is building the
  requests (\<open>own\<close>).\<close>

definition buffers_ok :: "nat option \<Rightarrow> watcher \<Rightarrow> bool" where
  "buffers_ok own s \<longleftrightarrow> (\<forall>a. case buffers s a of None \<Rightarrow> holders s a = {} \<and> own \<noteq> Some a
     | Some b \<Rightarrow> refcount b = int (card (holders s a)) + (if own = Some a then 1 else 0) \<and> 0 < refcount b)"

definition fresh_ok :: "watcher \<Rightarrow> bool" where
  "fresh_ok s \<longleftrightarrow> FIRST_BLOCK \<le> next_block s \<and>
     (\<forall>h. next_block s \<le> h \<longrightarrow> handles s h = None \<and> buffers s h = None)"

text \<open>Messages are queued while the handle that sends them is open.\<close>

definition idle_up :: "watcher \<Rightarrow> bool" where
  "idle_up s \<longleftrightarrow> (\<forall>x. handles s poll_handle = Some x \<and> poll_handle \<in> listed s \<and> \<not> uv__is_closing x \<longrightarrow>
     (\<exists>y. handles s idle_handle = Some y \<and> idle_handle \<in> listed s \<and> \<not> uv__is_closing y))"

definition base_ok :: "nat option \<Rightarrow> watcher \<Rightarrow> bool" where
  "base_ok own s \<longleftrightarrow> quiet s \<and> watchers s \<noteq> [] \<and> roles_ok s \<and> buffers_ok own s \<and> fresh_ok s"

definition watcher_ok :: "watcher \<Rightarrow> bool" where
  "watcher_ok s \<longleftrightarrow> base_ok None s \<and> walk_queue s = [] \<and> idle_up s \<and> clients_ok s"

section \<open>The invariant looks at the view only\<close>

lemma more_fields:
  fixes s s' :: watcher
  assumes "uv_loop.more s' = uv_loop.more s"
  shows "clients s' = clients s" "clients_count s' = clients_count s" "buffers s' = buffers s"
    "next_block s' = next_block s" "json_queue s' = json_queue s" "json_items s' = json_items s"
    "exit_code s' = exit_code s" "fs_fd s' = fs_fd s" "compare_path s' = compare_path s"
    "sigpipe_ignored s' = sigpipe_ignored s"
  using assms by (cases s, cases s', simp)+

lemma view_role:
  assumes "handle_view x = handle_view y"
  shows "role h x = role h y" "holds a x = holds a y" "uv__is_closing x = uv__is_closing y" "pending x = pending y"
  using assms by (simp_all add: handle_view_def role_def holds_def is_closing_iff uv__has_ref_def)

lemma view_some:
  assumes "map_option handle_view m' = map_option handle_view m"
  shows "m' = Some x' \<Longrightarrow> \<exists>x. m = Some x \<and> handle_view x' = handle_view x"
    "m = Some x \<Longrightarrow> \<exists>x'. m' = Some x' \<and> handle_view x' = handle_view x"
    "m' = None \<longleftrightarrow> m = None"
  using assms by (cases m; cases m'; auto)+

text \<open>The same for one handle at a time: states whose handles look alike.\<close>

definition alike :: "watcher \<Rightarrow> watcher \<Rightarrow> bool" where
  "alike s s' \<longleftrightarrow> (\<forall>h. map_option handle_view (handles s' h) = map_option handle_view (handles s h)) \<and>
     listed s' = listed s"

lemma alike_holders: "alike s s' \<Longrightarrow> holders s' a = holders s a"
  unfolding alike_def holders_def using view_some view_role(2) by (metis (no_types, lifting))

lemma alike_roles: "alike s s' \<Longrightarrow> roles_ok s \<Longrightarrow> roles_ok s'"
  unfolding alike_def roles_ok_def using view_some view_role(1) by metis

lemma alike_buffers: "alike s s' \<Longrightarrow> buffers s' = buffers s \<Longrightarrow> buffers_ok own s' = buffers_ok own s"
proof -
  assume a: "alike s s'" "buffers s' = buffers s"
  have "holders s' = holders s" by (rule ext) (rule alike_holders [OF a(1)])
  then show ?thesis unfolding buffers_ok_def a(2) by (simp only:)
qed

lemma alike_fresh: "alike s s' \<Longrightarrow> buffers s' = buffers s \<Longrightarrow> next_block s' = next_block s \<Longrightarrow> fresh_ok s \<Longrightarrow> fresh_ok s'"
  unfolding alike_def fresh_ok_def using view_some(3) by metis

lemma alike_idle: "alike s s' \<Longrightarrow> idle_up s \<Longrightarrow> idle_up s'"
  unfolding alike_def idle_up_def using view_some view_role(3) by metis

lemma alike_quiet: "alike s s' \<Longrightarrow> quiet s \<Longrightarrow> pending_queue s' = pending_queue s \<Longrightarrow> pending_batch s' = pending_batch s \<Longrightarrow>
    timers s' = timers s \<Longrightarrow> quiet s'"
  unfolding alike_def quiet_def using view_some(1) view_role(4) by metis

lemma base_ok_cong:
  assumes "base_ok own s" and "alike s s'" and "buffers s' = buffers s" "next_block s' = next_block s"
    "pending_queue s' = pending_queue s" "pending_batch s' = pending_batch s" "timers s' = timers s"
    "watchers s' = [] \<longleftrightarrow> watchers s = []"
  shows "base_ok own s'"
  using assms alike_roles alike_buffers alike_fresh alike_quiet unfolding base_ok_def by blast

lemma watcher_ok_view:
  assumes "watcher_ok s" and "client_view s' = client_view s"
  shows "watcher_ok s'"
proof -
  from assms(2) have v: "alike s s'" "uv_loop.more s' = uv_loop.more s" "watchers s' = [] \<longleftrightarrow> watchers s = []"
    "pending_queue s' = pending_queue s" "pending_batch s' = pending_batch s" "timers s' = timers s"
    "walk_queue s' = walk_queue s"
    by (auto simp: client_view_def alike_def fun_eq_iff)
  have "base_ok None s'" using assms(1) v more_fields [OF v(2)]
    by - (rule base_ok_cong [of None s s'], simp_all add: watcher_ok_def)
  then show ?thesis using assms(1) v more_fields [OF v(2)] alike_idle [OF v(1)]
    by (simp add: watcher_ok_def clients_ok_def connected_def)
qed

section \<open>Changes beside the loop\<close>

definition same_loop :: "watcher \<Rightarrow> watcher \<Rightarrow> bool" where
  "same_loop s s' \<longleftrightarrow> handles s' = handles s \<and> ios s' = ios s \<and> handle_queue s' = handle_queue s \<and>
     walk_queue s' = walk_queue s \<and> active_handles s' = active_handles s \<and> closing_handles s' = closing_handles s \<and>
     watchers s' = watchers s \<and> nfds s' = nfds s \<and> watcher_queue s' = watcher_queue s \<and>
     watcher_handles s' = watcher_handles s \<and> watcher_batch s' = watcher_batch s \<and> signal_tree s' = signal_tree s \<and>
     signal_pipe s' = signal_pipe s \<and> pending_queue s' = pending_queue s \<and> pending_batch s' = pending_batch s \<and>
     timers s' = timers s"

lemma same_loop_refl [simp]: "same_loop s s"
  by (simp add: same_loop_def)

lemma same_loop_trans: "same_loop s s1 \<Longrightarrow> same_loop s1 s2 \<Longrightarrow> same_loop s s2"
  by (simp add: same_loop_def)

lemma same_loop_ok: "same_loop s s' \<Longrightarrow> loop_ok b s \<Longrightarrow> loop_ok b s'"
  by (rule loop_ok_cong [of b s s']) (simp_all add: same_loop_def)

lemma same_loop_alike: "same_loop s s' \<Longrightarrow> alike s s'"
  by (simp add: same_loop_def alike_def listed_def)

lemma same_loop_listed: "same_loop s s' \<Longrightarrow> listed s' = listed s"
  by (simp add: same_loop_def listed_def)

lemma same_loop_base: "\<lbrakk>same_loop s s'; base_ok own s; buffers s' = buffers s; next_block s' = next_block s\<rbrakk> \<Longrightarrow> base_ok own s'"
  using same_loop_alike [of s s'] base_ok_cong [of own s s'] by (simp add: same_loop_def)

lemma same_loop_watcher:
  "\<lbrakk>same_loop s s'; watcher_ok s; buffers s' = buffers s; next_block s' = next_block s; clients_ok s'\<rbrakk> \<Longrightarrow> watcher_ok s'"
  using same_loop_base [of s s'] alike_idle [OF same_loop_alike, of s s']
  by (simp add: watcher_ok_def) (simp add: same_loop_def)

section \<open>A change of one handle\<close>

lemma holders_listed: "holders s a \<subseteq> listed s"
  by (auto simp: holders_def)

lemma holders_finite [simp]: "finite (holders s a)"
  using holders_listed by (rule finite_subset) (simp add: listed_def)

lemma holders_upd:
  assumes "handles s' = (handles s)(h \<mapsto> y)" and "listed s' = listed s" and "h \<in> listed s"
  shows "holders s' a = (if holds a y then insert h (holders s a) else holders s a - {h})"
  using assms by (auto simp: holders_def)

lemma base_ok_handle:
  assumes ok: "base_ok own s" and h: "handles s' = (handles s)(h \<mapsto> y)" "listed s' = listed s" "handles s h = Some x"
    and y: "h \<in> listed s \<longrightarrow> role h y" "pending y = pending x"
    and q: "next_block s' = next_block s" "watchers s' \<noteq> []" "pending_queue s' = pending_queue s"
      "pending_batch s' = pending_batch s" "timers s' = timers s"
    and b: "buffers_ok own' s'" "\<forall>a. buffers s a = None \<longrightarrow> buffers s' a = None"
  shows "base_ok own' s'"
proof -
  have "quiet s'" using ok h y(2) q(3-5) by (auto simp: base_ok_def quiet_def)
  moreover have "roles_ok s'" using ok h y(1) by (auto simp: base_ok_def roles_ok_def)
  moreover have "fresh_ok s'" using ok h(1,3) q(1) b(2) by (fastforce simp: base_ok_def fresh_ok_def)
  ultimately show ?thesis using q(2) b(1) by (simp add: base_ok_def)
qed

lemma buffers_ok_same: "buffers_ok own s \<Longrightarrow> buffers s' = buffers s \<Longrightarrow> (\<And>a. holders s' a = holders s a) \<Longrightarrow> buffers_ok own s'"
proof -
  assume a: "buffers_ok own s" "buffers s' = buffers s" "\<And>a. holders s' a = holders s a"
  have "holders s' = holders s" by (rule ext) (rule a(3))
  then show ?thesis using a(1) unfolding buffers_ok_def a(2) by (simp only: simp_thms)
qed

text \<open>The buffers after one reference is given up.\<close>

definition unref_buffers :: "nat \<Rightarrow> refcounted_uv_buffer_t \<Rightarrow> watcher \<Rightarrow> nat \<rightharpoonup> refcounted_uv_buffer_t" where
  "unref_buffers a b s = (buffers s)(a := if refcount b = 1 then None else Some (b\<lparr>refcount := refcount b - 1\<rparr>))"

lemma unref_Ret:
  assumes "refcounted_uv_buffer_unref a s = Ret s'"
  shows "\<exists>b m. buffers s a = Some b \<and> s' = s\<lparr>buffers := unref_buffers a b s, mem := m\<rparr>"
proof -
  from assms obtain b where b: "buffers s a = Some b"
    by (auto simp: refcounted_uv_buffer_unref_def with_buffer_def split: option.splits)
  let ?m = "if refcount b = 1 then dealloc (dealloc (mem s)) else mem s"
  have "s' = s\<lparr>buffers := unref_buffers a b s, mem := ?m\<rparr>"
    using assms b by (auto simp: refcounted_uv_buffer_unref_def with_buffer_def unref_buffers_def split: if_splits)
  with b show ?thesis by blast
qed

lemma buffers_okD: "buffers_ok own s \<Longrightarrow> buffers s a = Some b \<Longrightarrow>
    refcount b = int (card (holders s a)) + (if own = Some a then 1 else 0) \<and> 0 < refcount b"
  unfolding buffers_ok_def by (drule spec [of _ a]) simp

lemma buffers_okN: "buffers_ok own s \<Longrightarrow> buffers s a = None \<Longrightarrow> holders s a = {} \<and> own \<noteq> Some a"
  unfolding buffers_ok_def by (drule spec [of _ a]) simp

lemma buffers_okI:
  assumes "\<And>a b. buffers s a = Some b \<Longrightarrow> refcount b = int (card (holders s a)) + (if own = Some a then 1 else 0) \<and> 0 < refcount b"
    and "\<And>a. buffers s a = None \<Longrightarrow> holders s a = {} \<and> own \<noteq> Some a"
  shows "buffers_ok own s"
  unfolding buffers_ok_def
proof
  fix a
  show "case buffers s a of None \<Rightarrow> holders s a = {} \<and> own \<noteq> Some a
     | Some b \<Rightarrow> refcount b = int (card (holders s a)) + (if own = Some a then 1 else 0) \<and> 0 < refcount b"
  proof (cases "buffers s a")
    case None
    with assms(2) [OF None] show ?thesis by simp
  next
    case (Some b)
    with assms(1) [OF Some] show ?thesis by simp
  qed
qed

text \<open>A request gives up its reference.\<close>

lemma buffers_ok_release:
  assumes ok: "buffers_ok own s" and b: "buffers s a = Some b" "h \<in> holders s a"
    and s': "buffers s' = unref_buffers a b s" "\<And>c. holders s' c = holders s c - {h}"
    and one: "\<And>c. c \<noteq> a \<Longrightarrow> h \<notin> holders s c"
  shows "buffers_ok own s'"
proof (rule buffers_okI)
  note r = buffers_okD [OF ok b(1)]
  have c: "card (holders s a) = Suc (card (holders s a - {h}))" using b(2) by (metis card.remove holders_finite)
  fix d
  {
    fix e
    assume e: "buffers s' d = Some e"
    show "refcount e = int (card (holders s' d)) + (if own = Some d then 1 else 0) \<and> 0 < refcount e"
    proof (cases "d = a")
      case True
      with e have "refcount b \<noteq> 1" "refcount e = refcount b - 1" by (auto simp: s'(1) unref_buffers_def split: if_splits)
      with r c True show ?thesis by (simp add: s'(2))
    next
      case False
      with e have "buffers s d = Some e" by (simp add: s'(1) unref_buffers_def)
      with buffers_okD [OF ok this] one [OF False] show ?thesis by (simp add: s'(2))
    qed
  next
    assume e: "buffers s' d = None"
    show "holders s' d = {} \<and> own \<noteq> Some d"
    proof (cases "d = a")
      case True
      with e have "refcount b = 1" by (auto simp: s'(1) unref_buffers_def split: if_splits)
      with r c True have "card (holders s a - {h}) = 0" "own \<noteq> Some a" by (auto split: if_splits)
      then show ?thesis using True by (simp add: s'(2))
    next
      case False
      with e have "buffers s d = None" by (simp add: s'(1) unref_buffers_def)
      with buffers_okN [OF ok this] show ?thesis by (simp add: s'(2))
    qed
  }
qed

lemma buffers_ok_release_own:
  assumes ok: "buffers_ok (Some a) s" and b: "buffers s a = Some b"
    and s': "buffers s' = unref_buffers a b s" "\<And>c. holders s' c = holders s c"
  shows "buffers_ok None s'"
proof (rule buffers_okI)
  note r = buffers_okD [OF ok b]
  fix d
  {
    fix e
    assume e: "buffers s' d = Some e"
    show "refcount e = int (card (holders s' d)) + (if None = Some d then 1 else 0) \<and> 0 < refcount e"
    proof (cases "d = a")
      case True
      with e have "refcount b \<noteq> 1" "refcount e = refcount b - 1" by (auto simp: s'(1) unref_buffers_def split: if_splits)
      with r True show ?thesis by (auto simp: s'(2) card_gt_0_iff)
    next
      case False
      with e have "buffers s d = Some e" by (simp add: s'(1) unref_buffers_def)
      with buffers_okD [OF ok this] False show ?thesis by (simp add: s'(2))
    qed
  next
    assume e: "buffers s' d = None"
    show "holders s' d = {} \<and> None \<noteq> Some d"
    proof (cases "d = a")
      case True
      with e have "refcount b = 1" by (auto simp: s'(1) unref_buffers_def split: if_splits)
      with r True show ?thesis by (simp add: s'(2))
    next
      case False
      with e have "buffers s d = None" by (simp add: s'(1) unref_buffers_def)
      with buffers_okN [OF ok this] show ?thesis by (simp add: s'(2))
    qed
  }
qed

end
