(* ===== verification/Watcher_Keeps.thy ===== *)
theory Watcher_Keeps
  imports Watcher_Inv
begin

text \<open>
  The callbacks of the watcher other than send_jsons and sigint_handler keep its invariant and that of
  the loop. The other two have theories of their own (Watcher_Sends, Watcher_Exit), and the second
  interprets the contract of the loop on the watcher.
\<close>

section \<open>Roles\<close>

lemma role_cb: "role h x \<Longrightarrow> h_cb x = Some cb \<Longrightarrow> (case cb of
     On_writeable \<Rightarrow> FIRST_BLOCK \<le> h \<and> h_type x = UV_POLL \<and> h_data x \<noteq> None \<and> u_fd x \<noteq> -1
   | On_fs_event \<Rightarrow> h = poll_handle \<and> h_type x = UV_POLL
   | On_connection \<Rightarrow> h = unix_domain_poll_handle \<and> h_type x = UV_POLL
   | Send_jsons \<Rightarrow> h = idle_handle \<and> h_type x = UV_IDLE
   | On_sigint \<Rightarrow> h = sigint_handle \<and> h_type x = UV_SIGNAL
   | Free_handle \<Rightarrow> False
   | Work_done \<Rightarrow> h < idle_handle \<and> h_type x = UV_ASYNC)"
  unfolding role_def addresses by (auto split: watcher_cb.split if_splits)

lemma due_role: "watcher_ok s \<Longrightarrow> due h x cb s \<Longrightarrow> role h x"
  by (simp add: watcher_ok_def base_ok_def roles_ok_def due_def)


text \<open>A callback that leaves the loop alone.\<close>

lemma keeps_same: "\<lbrakk>loop_ok b s; watcher_ok s; same_loop s s'; buffers s' = buffers s; next_block s' = next_block s; clients_ok s'\<rbrakk>
    \<Longrightarrow> keeps watcher_ok b s s'"
  using same_loop_ok [of s s' b] same_loop_watcher [of s s'] by (simp add: keeps_def) (simp add: same_loop_def)

section \<open>Connections\<close>

lemma to_int32_range: "to_int32 n < 2 ^ 31"
proof -
  have "(n + 2 ^ 31) mod 2 ^ 32 < (2 ^ 32 :: int)" by (rule pos_mod_bound) simp
  then show ?thesis by (simp add: to_int32_def)
qed

lemma on_connection_keeps:
  assumes ok: "loop_ok b s" "watcher_ok s" and r: "on_unix_domain_connection_attempt k h s = Ret s'"
  shows "keeps watcher_ok b s s'"
proof -
  from r obtain x where x: "handles s h = Some x" by (auto simp: on_unix_domain_connection_attempt_def run_simps)
  let ?c = "Accept (u_fd x)" and ?fd = "to_int32 (rv (k (Accept (u_fd x) # trace s)))"
  let ?s1 = "s\<lparr>trace := ?c # trace s\<rparr>"
  have c: "clients_ok s" using ok(2) by (simp add: watcher_ok_def)
  then have c1: "clients_ok ?s1" by (simp add: clients_ok_def connected_def)
  show ?thesis
  proof (cases "?fd = -1")
    case True
    then have "s' = UV_TERMINATE_LOOP 1 ?s1"
      using r x by (simp add: on_unix_domain_connection_attempt_def with_handle_def Let_def)
    then show ?thesis using c1
      by - (rule keeps_same [OF ok],
        simp_all add: UV_TERMINATE_LOOP_def uv_stop_def same_loop_def clients_ok_def connected_def)
  next
    case False
    then have a: "loop_add_client ?fd ?s1 = Ret s'"
      using r x by (simp add: on_unix_domain_connection_attempt_def with_handle_def Let_def)
    from add_client_Ret [OF c1 False to_int32_range a] obtain m cs n where
      "s' = with_clients m cs n ?s1" "clients_ok s'" by blast
    then show ?thesis by - (rule keeps_same [OF ok], simp_all add: with_clients_def same_loop_def)
  qed
qed

section \<open>The end of a request\<close>

lemma base_listed_role: "base_ok own s \<Longrightarrow> handles s h = Some x \<Longrightarrow> h \<in> listed s \<Longrightarrow> role h x"
  by (simp add: base_ok_def roles_ok_def)

lemma poll_handle_ready:
  assumes "loop_ok b s" and "handles s h = Some x" "h_type x = UV_POLL" "h \<in> listed s" and "watchers s \<noteq> []"
  shows "\<exists>i. poll_ready h x i s"
  using assms polls_okD [of s h x] by (auto simp: loop_ok_def poll_ready_def)

text \<open>A closed handle has the role it had, and its close callback is the one of its role.\<close>

lemma role_closed:
  assumes "role h x" and "idle_handle \<le> h" and "h_type y = h_type x" "h_cb y = h_cb x" "h_data y = h_data x" "u_fd y = u_fd x"
    and "h_flags y = (h_flags x OR UV_HANDLE_CLOSING) AND NOT UV_HANDLE_ACTIVE"
    and "close_cb y = (if FIRST_BLOCK \<le> h then Some Free_handle else None)"
  shows "role h y" "uv__is_closing y"
proof -
  show c: "uv__is_closing y" by (simp add: is_closing_iff assms(7))
  have i: "has (h_flags y) UV_HANDLE_INTERNAL \<longleftrightarrow> has (h_flags x) UV_HANDLE_INTERNAL" by (simp add: assms(7))
  have "FIRST_BLOCK \<le> h \<or> h = idle_handle \<or> h = poll_handle \<or> h = unix_domain_poll_handle \<or> h = sigint_handle"
    using assms(2) by (auto simp: addresses)
  then show "role h y" using assms(1) unfolding role_def i assms(3-6) by (auto simp: assms(8) c addresses)
qed

text \<open>The states before and after a handle is stopped, and before and after it is stopped and closed.\<close>

definition beside :: "watcher \<Rightarrow> watcher \<Rightarrow> bool" where
  "beside s s' \<longleftrightarrow> handle_queue s' = handle_queue s \<and> walk_queue s' = walk_queue s \<and>
     length (watchers s') = length (watchers s) \<and> pending_queue s' = pending_queue s \<and>
     pending_batch s' = pending_batch s \<and> timers s' = timers s \<and> next_block s' = next_block s \<and>
     (\<forall>n. set (watcher_batch s' n) \<subseteq> set (watcher_batch s n))"

lemma beside_trans: "beside s s1 \<Longrightarrow> beside s1 s2 \<Longrightarrow> beside s s2"
  unfolding beside_def by (elim conjE, intro conjI allI) (simp_all, blast)

lemma same_loop_beside: "same_loop s s' \<Longrightarrow> next_block s' = next_block s \<Longrightarrow> beside s s'"
  by (simp add: same_loop_def beside_def)

definition halted :: "nat \<Rightarrow> watcher_cb uv_handle \<Rightarrow> watcher \<Rightarrow> watcher_cb uv_handle \<Rightarrow> watcher \<Rightarrow> bool" where
  "halted h x s z s' \<longleftrightarrow> beside s s' \<and> handles s' = (handles s)(h \<mapsto> z) \<and> h_type z = h_type x \<and> h_cb z = h_cb x \<and>
     h_data z = h_data x \<and> u_fd z = u_fd x \<and> pending z = pending x \<and>
     (h_flags z = h_flags x \<or> h_flags z = h_flags x AND NOT UV_HANDLE_ACTIVE)"

definition shut :: "nat \<Rightarrow> watcher_cb uv_handle \<Rightarrow> watcher \<Rightarrow> watcher \<Rightarrow> bool" where
  "shut h x s s' \<longleftrightarrow> beside s s' \<and> (\<exists>y. handles s' = (handles s)(h \<mapsto> y) \<and> h_type y = h_type x \<and>
     h_flags y = (h_flags x OR UV_HANDLE_CLOSING) AND NOT UV_HANDLE_ACTIVE \<and> h_data y = h_data x \<and> h_cb y = h_cb x \<and>
     u_fd y = u_fd x \<and> pending y = pending x \<and> close_cb y = (if FIRST_BLOCK \<le> h then Some Free_handle else None))"

lemma stop_close_flags: "((f AND NOT UV_HANDLE_ACTIVE) OR UV_HANDLE_CLOSING) AND NOT UV_HANDLE_ACTIVE =
    (f OR UV_HANDLE_CLOSING) AND NOT UV_HANDLE_ACTIVE" for f :: flags
  by (rule bit_eqI) (auto simp: bit_simps)

lemma halted_closed:
  assumes "halted h x s z s1" and "closed_from h z (if FIRST_BLOCK \<le> h then Some Free_handle else None) s1 s'"
    and t: "h_type x \<noteq> UV_TIMER" "h_type x \<noteq> UV_ASYNC"
  shows "shut h x s s'"
proof -
  note a = assms(1) [unfolded halted_def] and c = assms(2) [unfolded closed_from_def]
  have m: "next_block s' = next_block s1" using c more_fields [of s' s1] by blast
  have "beside s1 s'" using a c m t unfolding beside_def by simp
  then have b: "beside s s'" using a beside_trans by blast
  from c a obtain y where y: "handles s' = (handles s1)(h \<mapsto> y)" "h_type y = h_type z"
      "h_flags y = (h_flags z OR UV_HANDLE_CLOSING) AND NOT UV_HANDLE_ACTIVE"
      "close_cb y = (if FIRST_BLOCK \<le> h then Some Free_handle else None)" "h_data y = h_data z" "h_cb y = h_cb z"
      "pending y = pending z" "u_fd y = u_fd z" using t by auto
  have "h_flags y = (h_flags x OR UV_HANDLE_CLOSING) AND NOT UV_HANDLE_ACTIVE"
    using a y(3) stop_close_flags [of "h_flags x"] by auto
  then show ?thesis using a b y unfolding shut_def by auto
qed

text \<open>A handle that holds no buffer is stopped and closed, or one that gives up its buffer.\<close>

lemma base_ok_shut:
  assumes ok: "base_ok own s" and x: "handles s h = Some x" "h \<in> listed s" "idle_handle \<le> h" and c: "shut h x s s'"
    and b: "buffers_ok own' s'" "\<forall>a. buffers s a = None \<longrightarrow> buffers s' a = None"
  shows "base_ok own' s'"
proof -
  note d = c [unfolded shut_def beside_def]
  from d obtain y where y: "handles s' = (handles s)(h \<mapsto> y)" "h_type y = h_type x"
      "h_flags y = (h_flags x OR UV_HANDLE_CLOSING) AND NOT UV_HANDLE_ACTIVE"
      "close_cb y = (if FIRST_BLOCK \<le> h then Some Free_handle else None)" "h_data y = h_data x" "h_cb y = h_cb x"
      "pending y = pending x" "u_fd y = u_fd x" by blast
  have l: "listed s' = listed s" using d by (simp add: listed_def)
  have w: "watchers s' \<noteq> []" using d ok by (metis base_ok_def length_0_conv)
  have "role h y" using role_closed(1) [OF base_listed_role [OF ok x(1,2)] x(3) y(2,6,5,8,3,4)] .
  then show ?thesis
    by - (rule base_ok_handle [OF ok y(1) l x(1) _ y(7) _ w _ _ _ b], use d in simp_all)
qed

lemma shut_holders:
  assumes c: "shut h x s s'" and "h \<in> listed s"
  shows "holders s' a = holders s a - {h}"
proof -
  note d = c [unfolded shut_def beside_def]
  from d obtain y where y: "handles s' = (handles s)(h \<mapsto> y)"
      "h_flags y = (h_flags x OR UV_HANDLE_CLOSING) AND NOT UV_HANDLE_ACTIVE" by blast
  have l: "listed s' = listed s" using d by (simp add: listed_def)
  have "\<not> holds a y" by (simp add: holds_def is_closing_iff y(2))
  then show ?thesis using holders_upd [OF y(1) l assms(2), of a] by simp
qed

lemma shut_idle_up:
  assumes "shut h x s s'" and "handles s h = Some x" and "h \<noteq> idle_handle" and "idle_up s"
  shows "idle_up s'"
proof -
  note d = assms(1) [unfolded shut_def beside_def]
  from d obtain y where y: "handles s' = (handles s)(h \<mapsto> y)"
      "h_flags y = (h_flags x OR UV_HANDLE_CLOSING) AND NOT UV_HANDLE_ACTIVE" by blast
  have "uv__is_closing y" by (simp add: is_closing_iff y(2))
  moreover have "listed s' = listed s" using d by (simp add: listed_def)
  ultimately show ?thesis using assms(2-4) y(1) by (auto simp: idle_up_def)
qed

lemma halted_unpoll: "handles s h = Some x \<Longrightarrow>
    halted h x s (x\<lparr>h_flags := h_flags x AND NOT UV_HANDLE_ACTIVE\<rparr>) (unpoll h x i s)"
  using more_fields(4) [of "unpoll h x i s" s] by (simp add: halted_def beside_def)

text \<open>A request of a poll handle is stopped and closed, with its buffer released before.\<close>

lemma stop_close_poll:
  assumes ok: "loop_ok b s" and x: "handles s h = Some x" "h \<in> listed s" "h_type x = UV_POLL" and w: "watchers s \<noteq> []"
    and s1: "uv_poll_stop k h s = Ret s1"
    and s': "uv_close k h (if FIRST_BLOCK \<le> h then Some Free_handle else None) s1 = Ret s'"
  shows "loop_ok b s'" "shut h x s s'" "uv_loop.more s' = uv_loop.more s" "\<not> uv__is_closing x"
proof -
  from poll_handle_ready [OF ok x(1,3,2) w] obtain i where i: "poll_ready h x i s" by blast
  from poll_stop_ok [OF ok i s1] have o1: "loop_ok b s1" and e1: "s1 = unpoll h x i s" by simp_all
  let ?z = "x\<lparr>h_flags := h_flags x AND NOT UV_HANDLE_ACTIVE\<rparr>"
  have z: "handles s1 h = Some ?z" "h \<in> listed s1" "watchers s1 \<noteq> []"
    using x w by (simp_all add: e1) (metis length_0_conv unwatch_simps(15))
  from uv_close_Ret [OF o1 z s'] have c: "loop_ok b s'" "\<not> uv__is_closing ?z"
      "closed_from h ?z (if FIRST_BLOCK \<le> h then Some Free_handle else None) s1 s'" by simp_all
  then show "loop_ok b s'" by simp
  show "shut h x s s'" by (rule halted_closed [OF halted_unpoll [OF x(1)] c(3) [unfolded e1]]) (simp_all add: x)
  show "uv_loop.more s' = uv_loop.more s" using c(3) by (simp add: closed_from_def e1)
  show "\<not> uv__is_closing x" using c(2) by (simp add: is_closing_iff)
qed

lemma on_writeable_keeps:
  assumes ok: "loop_ok b s" "watcher_ok s" and d: "due h x On_writeable s" and r: "on_client_writeable k h s = Ret s'"
  shows "keeps watcher_ok b s s'"
proof -
  note du = d [unfolded due_def]
  from role_cb [OF due_role [OF ok(2) d], of On_writeable] du obtain a where
    h: "FIRST_BLOCK \<le> h" "h_type x = UV_POLL" "h_data x = Some a" "u_fd x \<noteq> -1" by auto
  have base: "base_ok None s" and cl: "clients_ok s" using ok(2) by (simp_all add: watcher_ok_def)
  let ?c = "Send (u_fd x) (base (the (buffers s a)))"
  let ?r = "k (?c # trace s)" and ?s1 = "s\<lparr>trace := ?c # trace s\<rparr>"
  let ?s2 = "if rv ?r = -1 then loop_remove_client (u_fd x) (snd (uv_sys k (Close (u_fd x)) ?s1)) else ?s1"
  from r du h obtain bf s3 s4 where bf: "buffers s a = Some bf" and s3: "refcounted_uv_buffer_unref a ?s2 = Ret s3"
    and s4: "uv_poll_stop k h s3 = Ret s4" and s': "uv_close k h (Some Free_handle) s4 = Ret s'"
    unfolding on_client_writeable_def
    by (auto simp: run_simps with_buffer_def Let_def split: option.splits if_splits)
  have s2: "same_loop s ?s2 \<and> buffers ?s2 = buffers s \<and> next_block ?s2 = next_block s \<and> clients_ok ?s2"
  proof (cases "rv ?r = -1")
    case True
    let ?t = "s\<lparr>trace := Close (u_fd x) # ?c # trace s\<rparr>"
    have ct: "clients_ok ?t" using cl by (simp add: clients_ok_def connected_def)
    have "u_fd x \<noteq> -1" using h by simp
    from remove_client(2,3) [OF ct this] True show ?thesis
      by (auto simp: same_loop_def with_clients_def)
  next
    case False
    then show ?thesis using cl by (simp add: same_loop_def clients_ok_def connected_def)
  qed
  let ?t = ?s2
  from unref_Ret [OF s3] s2 bf obtain m where s3e: "s3 = ?s2\<lparr>buffers := unref_buffers a bf ?s2, mem := m\<rparr>" by auto
  have u: "unref_buffers a bf ?s2 = unref_buffers a bf s" using s2 by (simp add: unref_buffers_def)
  have l3: "same_loop s s3" using s2 unfolding s3e by (simp add: same_loop_def)
  have o3: "loop_ok b s3" by (rule same_loop_ok [OF l3 ok(1)])
  have x3: "handles s3 h = Some x" "h \<in> listed s3" "watchers s3 \<noteq> []"
    using l3 du base same_loop_listed [OF l3] by (simp_all add: same_loop_def base_ok_def)
  have s'': "uv_close k h (if FIRST_BLOCK \<le> h then Some Free_handle else None) s4 = Ret s'" using s' h(1) by simp
  from stop_close_poll [OF o3 x3(1,2) h(2) x3(3) s4 s''] have
    o: "loop_ok b s'" and sh: "shut h x s3 s'" and m': "uv_loop.more s' = uv_loop.more s3" by simp_all
  note mf = more_fields [OF m']
  have b3: "next_block s3 = next_block s" "buffers s3 = unref_buffers a bf s" using s2 by (simp_all add: s3e u)
  have sh': "shut h x s s'" using sh same_loop_beside [OF l3 b3(1)] beside_trans l3
    unfolding shut_def by (auto simp: same_loop_def)
  have hd: "h \<in> holders s c \<longleftrightarrow> c = a" for c using du h by (auto simp: holders_def holds_def)
  have "buffers_ok None s'"
    by (rule buffers_ok_release [of None s a bf h])
      (use base bf hd b3 mf shut_holders [OF sh'] du in \<open>simp_all add: base_ok_def\<close>)
  moreover have "\<forall>c. buffers s c = None \<longrightarrow> buffers s' c = None"
    using bf by (auto simp: mf(3) b3 unref_buffers_def)
  ultimately have "base_ok None s'"
    using base_ok_shut [OF base _ _ _ sh'] du h(1) by (auto simp: addresses)
  moreover have "clients_ok s'" using s2 by (simp add: clients_ok_def connected_def mf s3e)
  moreover have "idle_up s'" using shut_idle_up [OF sh'] du h(1) ok(2) by (auto simp: watcher_ok_def addresses)
  ultimately have "watcher_ok s'" using ok(2) sh' by (simp add: watcher_ok_def shut_def beside_def)
  then show ?thesis using o sh' by (simp add: keeps_def shut_def beside_def)
qed

section \<open>Closed handles\<close>

text \<open>Freeing a handle that is in no queue any more.\<close>

lemma free_ok:
  assumes ok: "loop_ok b s" and h: "h \<notin> listed s"
  shows "loop_ok b (s\<lparr>handles := (handles s)(h := None), ios := (ios s)(Io h := None), mem := m\<rparr>)" (is "loop_ok b ?s")
proof -
  note ok' = ok [unfolded loop_ok_def]
  have na: "\<not> uv__is_active x" if "handles s h = Some x" for x
    using that h ok' by (auto simp: handles_ok_def)
  have off: "w_pevents j = 0" if "ios s (Io h) = Some j" for j
    using that na polls_ok_active [of s h j] ok' by blast
  have l: "listed ?s = listed s" by (simp add: listed_def)
  have hs: "handles ?s = (handles s)(h := None)" by simp
  have c: "counted ?s = counted s" using na by (auto simp: counted_def counts_def)
  have "handles_ok ?s" using ok' h unfolding handles_ok_def l c by (auto simp: listed_def)
  moreover have "closing_ok b ?s" using ok' h unfolding closing_ok_def l hs by auto
  moreover have "ios_ok ?s"
  proof -
    have s1: "watchers s ! fd \<noteq> Some (Io h)" if "fd < length (watchers s)" for fd
      using that ok' off unfolding ios_ok_def by metis
    have s2: "Io h \<notin> set (watcher_queue s)" using ok' off by (auto simp: ios_ok_def)
    show ?thesis using ok' s1 s2 unfolding ios_ok_def by (elim conjE, intro conjI) (auto split: if_splits)
  qed
  moreover have "polls_ok ?s"
  proof (rule polls_okI)
    fix g y
    assume g: "handles ?s g = Some y" "g \<in> listed ?s" "h_type y = UV_POLL"
    then have "g \<noteq> h" by auto
    with g polls_okD [of s g y] ok' show "\<exists>i. ios ?s (Io g) = Some i \<and> w_cb i = uv__poll_io \<and> 0 \<le> w_fd i \<and>
        (w_pevents i \<noteq> 0 \<longleftrightarrow> uv__is_active y)" by (simp add: l)
  next
    fix g j
    assume g: "ios ?s (Io g) = Some j" "w_pevents j \<noteq> 0"
    then have "g \<noteq> h" by auto
    with g polls_ok_active [of s g j] ok' show "\<exists>y. handles ?s g = Some y \<and> h_type y = UV_POLL \<and> uv__is_active y" by simp
  qed
  moreover have "kinds_ok ?s"
  proof -
    have "{g. \<exists>y. handles ?s g = Some y \<and> h_type y = t \<and> uv__is_active y} =
        {g. \<exists>y. handles s g = Some y \<and> h_type y = t \<and> uv__is_active y}" for t
      using na by auto
    then show ?thesis using ok' by (simp add: kinds_ok_def)
  qed
  moreover have "signals_ok ?s"
  proof -
    have "signum x = 0" if "handles s h = Some x" for x using unlisted_signum [OF ok that h] .
    then show ?thesis using ok' unfolding signals_ok_def by auto
  qed
  ultimately show ?thesis by (simp add: loop_ok_def)
qed

lemma gone_groups:
  assumes ok: "watcher_ok s" and e: "ending h x s"
  shows "watcher_ok (gone h x s)" "listed (gone h x s) = listed s - {h}" "idle_handle \<le> h"
    "close_cb x = (if FIRST_BLOCK \<le> h then Some Free_handle else None)"
proof -
  note en = e [unfolded ending_def]
  note w = ok [unfolded watcher_ok_def base_ok_def]
  have c: "uv__is_closing x" using en by (simp add: is_closing_iff)
  have ro: "role h x" using w en by (auto simp: roles_ok_def)
  then show "close_cb x = (if FIRST_BLOCK \<le> h then Some Free_handle else None)" using c by (simp add: role_def)
  show "idle_handle \<le> h" using ro c unfolding role_def by (auto simp: addresses split: if_splits)
  show l: "listed (gone h x s) = listed s - {h}" by (auto simp: gone_def listed_def)
  have ho: "holders (gone h x s) a = holders s a" for a
    using c en by (auto simp: holders_def l) (auto simp: gone_def holds_def split: if_splits)
  have "quiet (gone h x s)" using w en by (auto simp: quiet_def gone_def)
  moreover have "roles_ok (gone h x s)" using w by (auto simp: roles_ok_def l) (auto simp: gone_def)
  moreover have "buffers_ok None (gone h x s)"
    using w ho by - (rule buffers_ok_same [of None s], simp_all add: gone_def set_handle_def)
  moreover have "fresh_ok (gone h x s)" using w en by (auto simp: fresh_ok_def gone_def set_handle_def)
  moreover have "idle_up (gone h x s)" using w en c unfolding idle_up_def l by (auto simp: gone_def)
  ultimately show "watcher_ok (gone h x s)" using w
    by (simp add: watcher_ok_def base_ok_def) (simp add: gone_def set_handle_def clients_ok_def connected_def)
qed

lemma close_keeps:
  assumes ok: "loop_ok b (gone h x s)" and w: "watcher_ok s" and e: "ending h x s" and cb: "close_cb x = Some cb"
    and r: "run_callback k stack cb h 0 0 (gone h x s) = Ret s'"
  shows "keeps watcher_ok b s s'"
proof -
  note g = gone_groups [OF w e]
  from g(4) cb have h: "FIRST_BLOCK \<le> h" "cb = Free_handle" by (auto split: if_splits)
  let ?g = "gone h x s"
  from r h(2) have s': "s' = ?g\<lparr>handles := (handles ?g)(h := None), ios := (ios ?g)(Io h := None), mem := dealloc (mem ?g)\<rparr>"
    by (auto simp: run_callback_def free_handle_def run_simps)
  have n: "h \<notin> listed ?g" by (simp add: g(2))
  have o: "loop_ok b s'" unfolding s' by (rule free_ok [OF ok n])
  note wg = g(1) [unfolded watcher_ok_def base_ok_def]
  have l: "listed s' = listed ?g" by (simp add: s' listed_def)
  have hs: "handles s' g = handles ?g g" if "g \<in> listed ?g" for g using that n by (auto simp: s')
  have ho: "holders s' a = holders ?g a" for a using hs by (auto simp: holders_def l)
  have "quiet s'" using wg by (auto simp: s' quiet_def)
  moreover have "roles_ok s'" using wg hs by (auto simp: roles_ok_def l)
  moreover have "buffers_ok None s'" using wg ho by - (rule buffers_ok_same [of None ?g], simp_all add: s')
  moreover have "fresh_ok s'" using wg by (auto simp: s' fresh_ok_def)
  moreover have "idle_up s'" using wg h(1) unfolding idle_up_def l by (auto simp: s' addresses)
  ultimately have "watcher_ok s'" using wg
    by (simp add: watcher_ok_def base_ok_def) (simp add: s' clients_ok_def connected_def)
  then show ?thesis using o by (simp add: keeps_def s' gone_def)
qed

section \<open>File events\<close>

lemma watcher_start_shape:
  assumes "uv_watcher_start n h (Some cb) s = Ret (err, s')" and "handles s h = Some y"
  shows "s' = s \<or> (handles s' = (handles s)(h \<mapsto> y\<lparr>h_cb := Some cb, h_flags := h_flags y OR UV_HANDLE_ACTIVE\<rparr>) \<and>
    beside s s' \<and> uv_loop.more s' = uv_loop.more s)"
proof (cases "uv__is_active y")
  case True
  with assms show ?thesis by (simp add: uv_watcher_start_def with_handle_def)
next
  case False
  let ?s1 = "set_handle h (y\<lparr>h_cb := Some cb\<rparr>)
    (s\<lparr>watcher_handles := (watcher_handles s)(n := h # watcher_handles s n)\<rparr>)"
  have s': "s' = with_flags h (y\<lparr>h_cb := Some cb\<rparr>) (h_flags y OR UV_HANDLE_ACTIVE) ?s1"
    using assms False handle_start_eq [of ?s1 h "y\<lparr>h_cb := Some cb\<rparr>"]
    by (simp add: uv_watcher_start_def with_handle_def Let_def)
  have m: "uv_loop.more s' = uv_loop.more s" by (simp add: s')
  then have "next_block s' = next_block s" by (rule more_fields)
  then show ?thesis using m by (simp add: beside_def) (simp add: s')
qed

text \<open>Starting the handle that sends the messages.\<close>

lemma idle_start_keeps:
  assumes ok: "loop_ok b s2" "watcher_ok s2" and y: "handles s2 idle_handle = Some y" "idle_handle \<in> listed s2"
      "\<not> uv__is_closing y" and s3: "uv_watcher_start Idle idle_handle (Some Send_jsons) s2 = Ret (err, s')"
  shows "keeps watcher_ok b s2 s'"
proof -
  note w2 = ok(2) [unfolded watcher_ok_def]
  have ro: "role idle_handle y" using base_listed_role y w2 by blast
  then have ty: "h_type y = watcher_type Idle" by (simp add: role_def addresses)
  have o: "loop_ok b s'" by (rule watcher_start_ok [OF ok(1) y(1) ty y(2,3) s3])
  from watcher_start_shape [OF s3 y(1)] show ?thesis
  proof
    assume a: "handles s' = (handles s2)(idle_handle \<mapsto> y\<lparr>h_cb := Some Send_jsons, h_flags := h_flags y OR UV_HANDLE_ACTIVE\<rparr>) \<and>
      beside s2 s' \<and> uv_loop.more s' = uv_loop.more s2"
    let ?y = "y\<lparr>h_cb := Some Send_jsons, h_flags := h_flags y OR UV_HANDLE_ACTIVE\<rparr>"
    note be = a [unfolded beside_def]
    have l: "listed s' = listed s2" using be by (simp add: listed_def)
    note mf = more_fields [of s' s2]
    have nc: "\<not> uv__is_closing ?y" using y(3) by (simp add: is_closing_iff)
    have ry: "role idle_handle ?y" using ro nc by (simp add: role_def addresses)
    have nh: "\<not> holds c ?y" "\<not> holds c y" for c using ro by (auto simp: holds_def role_def addresses)
    have ho: "holders s' c = holders s2 c" for c
      using holders_upd [of s' s2 idle_handle ?y c] a l y(1,2) nh [of c] by (auto simp: holders_def)
    have "base_ok None s'"
    proof (rule base_ok_handle [of None s2 s' idle_handle ?y y])
      show "watchers s' \<noteq> []" using be w2 by (metis base_ok_def length_0_conv)
      show "buffers_ok None s'" using w2 a mf ho by - (rule buffers_ok_same [of None s2], simp_all add: base_ok_def)
    qed (use be l w2 y ry mf in simp_all)
    moreover have "idle_up s'" using w2 a l y(2) nc unfolding idle_up_def by (auto simp: addresses)
    ultimately have "watcher_ok s'" using w2 be mf by (simp add: watcher_ok_def clients_ok_def connected_def)
    then show ?thesis using o be by (simp add: keeps_def)
  qed (use ok in \<open>simp add: keeps_refl\<close>)
qed

lemma on_fs_event_keeps:
  assumes ok: "loop_ok b s" "watcher_ok s" and d: "due h x On_fs_event s" and r: "on_fs_event k stack h s = Ret s'"
  shows "keeps watcher_ok b s s'"
proof -
  note du = d [unfolded due_def]
  from role_cb [OF due_role [OF ok(2) d], of On_fs_event] du have h: "h = poll_handle" by simp
  from r du obtain out c where ev: "read_events k (stack (trace s)) (u_fd x) (fs_fd s) (compare_path s)
      \<lparr>hist = trace s, heap = mem s, items = json_items s\<rparr> = Ret (out, c)"
    and rest: "(let s1 = s\<lparr>trace := hist c, mem := heap c, json_items := items c\<rparr> in
     case out of Nothing \<Rightarrow> Ret s1 | Terminate \<Rightarrow> Ret (UV_TERMINATE_LOOP 1 s1)
     | Queue json \<Rightarrow> bnd (loop_push_json json s1) (\<lambda>s2.
         bnd (uv_watcher_start Idle idle_handle (Some Send_jsons) s2) (\<lambda>(_, s3). Ret s3))) = Ret s'"
    by (auto simp: on_fs_event_def run_simps)
  let ?s1 = "s\<lparr>trace := hist c, mem := heap c, json_items := items c\<rparr>"
  have cl: "clients_ok s" using ok(2) by (simp add: watcher_ok_def)
  have k1: "keeps watcher_ok b s ?s1" using cl
    by - (rule keeps_same [OF ok], simp_all add: same_loop_def clients_ok_def connected_def)
  show ?thesis
  proof (cases out)
    case Nothing
    with rest k1 show ?thesis by simp
  next
    case Terminate
    with rest have "s' = UV_TERMINATE_LOOP 1 ?s1" by simp
    then show ?thesis using cl
      by - (rule keeps_same [OF ok], simp_all add: UV_TERMINATE_LOOP_def uv_stop_def same_loop_def clients_ok_def connected_def)
  next
    case (Queue json)
    with rest obtain s2 err where s2: "loop_push_json json ?s1 = Ret s2"
      and s3: "uv_watcher_start Idle idle_handle (Some Send_jsons) s2 = Ret (err, s')" by (auto simp: run_simps)
    from s2 obtain m where "s2 = ?s1\<lparr>mem := m, json_queue := json_queue s @ [json]\<rparr>"
      by (auto simp: loop_push_json_def split: prod.splits if_splits)
    then have k2: "keeps watcher_ok b s s2" using cl
      by - (rule keeps_same [OF ok], simp_all add: same_loop_def clients_ok_def connected_def)
    have "handles s2 = handles s" "listed s2 = listed s" using \<open>s2 = _\<close> by (simp_all add: listed_def)
    then have "handles s2 poll_handle = Some x" "poll_handle \<in> listed s2" "\<not> uv__is_closing x" using du h by simp_all
    then obtain y where y: "handles s2 idle_handle = Some y" "idle_handle \<in> listed s2" "\<not> uv__is_closing y"
      using keepsD(2) [OF k2] unfolding watcher_ok_def idle_up_def by blast
    from keeps_trans [OF k2 idle_start_keeps [OF keepsD [OF k2] y s3]] show ?thesis .
  qed
qed

section \<open>Messages\<close>

lemma poll_started_simps [simp]:
  "handles (poll_started h x i ev cb n m s) = (handles s)(h \<mapsto> x\<lparr>h_flags := (h_flags x AND NOT UV_HANDLE_ACTIVE) OR UV_HANDLE_ACTIVE, h_cb := cb\<rparr>)"
  "handle_queue (poll_started h x i ev cb n m s) = handle_queue s" "walk_queue (poll_started h x i ev cb n m s) = walk_queue s"
  "watcher_batch (poll_started h x i ev cb n m s) = watcher_batch s" "timers (poll_started h x i ev cb n m s) = timers s"
  "pending_queue (poll_started h x i ev cb n m s) = pending_queue s" "pending_batch (poll_started h x i ev cb n m s) = pending_batch s"
  "uv_loop.more (poll_started h x i ev cb n m s) = uv_loop.more s"
  "length (watchers (poll_started h x i ev cb n m s)) = length (watchers s) + n"
  by (simp_all add: poll_started_def Let_def watch_def)

text \<open>Fresh memory for a handle.\<close>

lemma alloc_handle_ok:
  assumes ok: "loop_ok b s" and h: "handles s h = None"
    and s': "handles s' = (handles s)(h \<mapsto> raw_handle)" "ios s' = ios s" "handle_queue s' = handle_queue s"
    "walk_queue s' = walk_queue s" "active_handles s' = active_handles s" "closing_handles s' = closing_handles s"
    "watchers s' = watchers s" "nfds s' = nfds s" "watcher_queue s' = watcher_queue s"
    "watcher_handles s' = watcher_handles s" "watcher_batch s' = watcher_batch s" "signal_tree s' = signal_tree s"
    "signal_pipe s' = signal_pipe s"
  shows "loop_ok b s'" "h \<notin> listed s"
proof -
  note ok' = ok [unfolded loop_ok_def]
  show n: "h \<notin> listed s" using ok' h by (auto simp: handles_ok_def)
  have l: "listed s' = listed s" by (simp add: listed_def s')
  have na: "\<not> uv__is_active (raw_handle :: 'a uv_handle)" "\<not> has (h_flags (raw_handle :: 'a uv_handle)) UV_HANDLE_CLOSING"
    "\<not> has (h_flags (raw_handle :: 'a uv_handle)) UV_HANDLE_CLOSED" "signum (raw_handle :: 'a uv_handle) = 0"
    by (simp_all add: raw_handle_def uv__is_active_def)
  have "counted s' = counted s" using h na by (auto simp: counted_def counts_def s')
  then have "handles_ok s'" using ok' h n na unfolding handles_ok_def l by (auto simp: s')
  moreover have "closing_ok b s'" using ok' n na unfolding closing_ok_def l by (auto simp: s')
  moreover have "ios_ok s'" using ok' s' by - (rule ios_ok_cong [of s], simp_all)
  moreover have "polls_ok s'"
  proof (rule polls_okI)
    fix g y
    assume g: "handles s' g = Some y" "g \<in> listed s'" "h_type y = UV_POLL"
    then have "g \<noteq> h" using n l by auto
    with g polls_okD [of s g y] ok' show "\<exists>i. ios s' (Io g) = Some i \<and> w_cb i = uv__poll_io \<and> 0 \<le> w_fd i \<and>
        (w_pevents i \<noteq> 0 \<longleftrightarrow> uv__is_active y)" by (simp add: l s')
  next
    fix g j
    assume "ios s' (Io g) = Some j" "w_pevents j \<noteq> 0"
    with polls_ok_active [of s g j] ok' obtain y where "handles s g = Some y" "h_type y = UV_POLL" "uv__is_active y"
      by (auto simp: s')
    with h show "\<exists>y. handles s' g = Some y \<and> h_type y = UV_POLL \<and> uv__is_active y" by (auto simp: s')
  qed
  moreover have "kinds_ok s'"
  proof -
    have "{g. \<exists>y. handles s' g = Some y \<and> h_type y = t \<and> uv__is_active y} =
        {g. \<exists>y. handles s g = Some y \<and> h_type y = t \<and> uv__is_active y}" for t
      using na h by (auto simp: s')
    then show ?thesis using ok' by (simp add: kinds_ok_def s')
  qed
  moreover have "signals_ok s'" using ok' h na unfolding signals_ok_def s' by auto
  ultimately show "loop_ok b s'" by (simp add: loop_ok_def)
qed

lemma poll_init_fd: "uv_poll_init k h fd s = Ret (0, s') \<Longrightarrow> -1 \<le> fd"
  unfolding uv_poll_init_def by (auto simp: run_simps uv__io_init_def split: if_splits)

text \<open>The state after a request is made: the state before, and one more handle, which holds the buffer.\<close>

definition requested :: "nat \<Rightarrow> int \<Rightarrow> watcher \<Rightarrow> watcher \<Rightarrow> bool" where
  "requested buf client s s' \<longleftrightarrow> (\<exists>y bf. handles s' = (handles s)(next_block s \<mapsto> y) \<and> h_type y = UV_POLL \<and>
     h_cb y = Some On_writeable \<and> h_data y = Some buf \<and> u_fd y = client \<and> \<not> uv__is_closing y \<and> \<not> pending y \<and>
     \<not> has (h_flags y) UV_HANDLE_INTERNAL \<and> uv__is_active y \<and>
     buffers s buf = Some bf \<and> buffers s' = (buffers s)(buf \<mapsto> bf\<lparr>refcount := refcount bf + 1\<rparr>)) \<and>
     handle_queue s' = handle_queue s @ [next_block s] \<and> walk_queue s' = walk_queue s \<and>
     next_block s' = Suc (next_block s) \<and> clients s' = clients s \<and> clients_count s' = clients_count s \<and>
     json_queue s' = json_queue s \<and> json_items s' = json_items s \<and> watchers s' \<noteq> [] \<and> watcher_batch s' = watcher_batch s \<and>
     (\<exists>i. ios s' (Io (next_block s)) = Some i \<and> w_fd i = client \<and> w_pevents i \<noteq> 0) \<and>
     (\<forall>g < next_block s. ios s' (Io g) = ios s (Io g)) \<and> pending_queue s' = pending_queue s \<and> pending_batch s' = pending_batch s \<and> timers s' = timers s"

lemma send_to_client_Ret:
  assumes ok: "loop_ok b s" and w: "watchers s \<noteq> []" and fr: "handles s (next_block s) = None"
    and c: "client \<noteq> -1" "client < 2 ^ 31" and r: "send_to_client k buf client s = Ret s'"
  shows "loop_ok b s'" "requested buf client s s'"
proof -
  let ?h = "next_block s"
  from r obtain m s1 s2 s3 err where
    s1: "uv_poll_init k ?h client (s\<lparr>mem := m, next_block := Suc ?h, handles := (handles s)(?h \<mapsto> raw_handle)\<rparr>) = Ret (0, s1)"
    and s2: "with_handle ?h (\<lambda>x s. Ret (set_handle ?h (x\<lparr>u_fd := client, h_data := Some buf\<rparr>) s)) s1 = Ret s2"
    and s3: "refcounted_uv_buffer_ref buf s2 = Ret s3"
    and s4: "uv_poll_start k ?h UV_WRITABLE (Some On_writeable) s3 = Ret (err, s')"
    unfolding send_to_client_def by (auto simp: run_simps Let_def split: prod.splits if_splits)
  let ?s0 = "s\<lparr>mem := m, next_block := Suc ?h, handles := (handles s)(?h \<mapsto> raw_handle)\<rparr>"
  have o0: "loop_ok b ?s0" and n: "?h \<notin> listed s"
    using alloc_handle_ok [OF ok fr, of ?s0] by simp_all
  have fd: "0 \<le> client" using poll_init_fd [OF s1] c(1) by simp
  have l0: "listed ?s0 = listed s" by (simp add: listed_def)
  have o1: "loop_ok b s1" by (rule poll_init_ok [OF o0 s1 _ fd]) (simp add: l0 n)
  from poll_init_Ret [OF s1] obtain us where ne: "\<not> uv__fd_exists client ?s0" and
    s1e: "s1 = registered ?h (poll_shape raw_handle) (set_io (Io ?h) (idle_io client) (traced us ?s0))" by auto
  let ?x = "(poll_shape raw_handle)\<lparr>u_fd := client, h_data := Some buf\<rparr> :: watcher_cb uv_handle"
  have x1: "handles s1 ?h = Some (poll_shape raw_handle)" by (simp add: s1e registered_def)
  have s2e: "s2 = set_handle ?h ?x s1" using s2 x1 by (simp add: with_handle_def)
  have o2: "loop_ok b s2" unfolding s2e by (rule loop_ok_set [OF o1 x1]) simp_all
  from s3 obtain bf where bf: "buffers s2 buf = Some bf"
    and s3e: "s3 = s2\<lparr>buffers := (buffers s2)(buf \<mapsto> bf\<lparr>refcount := refcount bf + 1\<rparr>)\<rparr>"
    by (auto simp: refcounted_uv_buffer_ref_def with_buffer_def split: option.splits)
  have o3: "loop_ok b s3" by (rule same_loop_ok [OF _ o2]) (simp add: s3e same_loop_def)
  have rd: "poll_ready ?h ?x (idle_io client) s3"
    using fd w by (simp add: poll_ready_def s3e s2e s1e registered_def poll_shape_def idle_io_def listed_def traced_def)
  have small: "w_fd (idle_io client) < 2 ^ 32" using c(2) by (simp add: idle_io_def)
  show "loop_ok b s'" by (rule poll_start_ok [OF o3 rd small s4])
  have w3: "watchers s3 = watchers s" by (simp add: s3e s2e s1e registered_def traced_def)
  have free: "\<not> (nat client < length (watchers s) \<and> watchers s ! nat client \<noteq> None)"
    using ne fd_exists_nonneg [OF fd, of ?s0] c(2) by simp
  from poll_start_Ret [OF _ rd small s4] o3 free w3 obtain p q where
    s': "s' = poll_started ?h ?x (idle_io client) (poll_events UV_WRITABLE) (Some On_writeable) p q s3"
    by (auto simp: loop_ok_def idle_io_def)
  have m1: "uv_loop.more s1 = uv_loop.more ?s0" by (simp add: s1e registered_def traced_def)
  note f1 = more_fields [OF m1]
  have m2: "uv_loop.more s2 = uv_loop.more s1" by (simp add: s2e)
  note f2 = more_fields [OF m2]
  have m': "uv_loop.more s' = uv_loop.more s3" by (simp add: s')
  note f' = more_fields [OF m']
  have hs: "handles s3 = (handles s)(?h \<mapsto> ?x)" by (simp add: s3e s2e s1e registered_def traced_def)
  have w': "watchers s' \<noteq> []"
    using w w3 by (metis s' poll_started_simps(9) add_is_0 length_0_conv)
  have g3: "clients s3 = clients s2" "clients_count s3 = clients_count s2" "next_block s3 = next_block s2"
    "json_queue s3 = json_queue s2" "json_items s3 = json_items s2"
    "buffers s3 = (buffers s2)(buf \<mapsto> bf\<lparr>refcount := refcount bf + 1\<rparr>)" by (simp_all add: s3e)
  have c': "clients s' = clients s" "clients_count s' = clients_count s" "next_block s' = Suc ?h"
    "json_queue s' = json_queue s" "json_items s' = json_items s"
    using f1 f2 f' g3 by simp_all
  have b0: "buffers s2 = buffers s" using f1 f2 by simp
  have b': "buffers s' = (buffers s)(buf \<mapsto> bf\<lparr>refcount := refcount bf + 1\<rparr>)" using b0 f' g3 by simp
  have q3: "handle_queue s3 = handle_queue s @ [?h]" "walk_queue s3 = walk_queue s" "watcher_batch s3 = watcher_batch s"
    "pending_queue s3 = pending_queue s" "pending_batch s3 = pending_batch s" "timers s3 = timers s"
    by (simp_all add: s3e s2e s1e registered_def traced_def)
  have q': "handle_queue s' = handle_queue s @ [?h]" "walk_queue s' = walk_queue s" "watcher_batch s' = watcher_batch s"
    "pending_queue s' = pending_queue s" "pending_batch s' = pending_batch s" "timers s' = timers s"
    using q3 by (simp_all add: s')
  have h': "handles s' = (handles s)(?h \<mapsto> ?x\<lparr>h_flags := (h_flags ?x AND NOT UV_HANDLE_ACTIVE) OR UV_HANDLE_ACTIVE,
      h_cb := Some On_writeable\<rparr>)" using hs by (simp add: s')
  have bs: "buffers s buf = Some bf" using bf b0 by simp
  have io: "ios s' (Io ?h) = Some ((idle_io client)\<lparr>w_pevents := poll_events UV_WRITABLE\<rparr>)"
    "\<forall>g < ?h. ios s' (Io g) = ios s (Io g)"
  proof -
    have i3: "ios s3 (Io ?h) = Some (idle_io client)" using rd by (simp add: poll_ready_def)
    have "ios (unpoll ?h ?x (idle_io client) s3) (Io ?h) = Some (idle_io client)"
      using i3 by (simp add: unwatch_def Let_def idle_io_def)
    then show "ios s' (Io ?h) = Some ((idle_io client)\<lparr>w_pevents := poll_events UV_WRITABLE\<rparr>)"
      by (simp add: s' poll_started_def Let_def)
    show "\<forall>g < ?h. ios s' (Io g) = ios s (Io g)"
    proof (intro allI impI)
      fix g
      assume "g < ?h"
      then have ne: "Io g \<noteq> Io ?h" by simp
      then have "ios s' (Io g) = ios s3 (Io g)"
        using unwatch_ios [OF ne, of "idle_io client" s3] by (simp add: s' poll_started_def Let_def)
      then show "ios s' (Io g) = ios s (Io g)" using ne by (simp add: s3e s2e s1e registered_def traced_def)
    qed
  qed
  have pe: "w_fd ((idle_io client)\<lparr>w_pevents := poll_events UV_WRITABLE\<rparr>) = client \<and>
      w_pevents ((idle_io client)\<lparr>w_pevents := poll_events UV_WRITABLE\<rparr>) \<noteq> 0"
    by (simp add: idle_io_def poll_events_def)
  show "requested buf client s s'"
    unfolding requested_def h' b' c' q' using w' bs io pe
    by (intro conjI exI [of _ "?x\<lparr>h_flags := (h_flags ?x AND NOT UV_HANDLE_ACTIVE) OR UV_HANDLE_ACTIVE,
        h_cb := Some On_writeable\<rparr>"] exI [of _ bf])
      (simp_all add: poll_shape_def raw_handle_def is_closing_iff uv__is_active_def)
qed

lemma requested_base:
  assumes ok: "base_ok (Some buf) s" and n: "next_block s \<notin> listed s" and c: "client \<noteq> -1"
    and q: "requested buf client s s'"
  shows "base_ok (Some buf) s'" "idle_up s \<Longrightarrow> idle_up s'"
proof -
  let ?h = "next_block s"
  note r = q [unfolded requested_def]
  from r obtain y bf where y: "handles s' = (handles s)(?h \<mapsto> y)" "h_type y = UV_POLL" "h_cb y = Some On_writeable"
      "h_data y = Some buf" "u_fd y = client" "\<not> uv__is_closing y" "\<not> pending y"
      "\<not> has (h_flags y) UV_HANDLE_INTERNAL"
    and bf: "buffers s buf = Some bf" "buffers s' = (buffers s)(buf \<mapsto> bf\<lparr>refcount := refcount bf + 1\<rparr>)" by blast
  note b = ok [unfolded base_ok_def]
  have l: "listed s' = insert ?h (listed s)" using r by (auto simp: listed_def)
  have fb: "FIRST_BLOCK \<le> ?h" using b by (simp add: fresh_ok_def)
  have ho: "holders s' a = (if a = buf then insert ?h (holders s a) else holders s a)" for a
    using n y by (auto simp: holders_def l holds_def)
  have nh: "?h \<notin> holders s a" for a using n by (simp add: holders_def)
  have "quiet s'" using b y r by (auto simp: quiet_def)
  moreover have "role ?h y" using y fb c unfolding role_def by (simp add: addresses)
  then have "roles_ok s'" using b y(1) n by (auto simp: roles_ok_def l)
  moreover have "fresh_ok s'" using b y(1) bf r by (auto simp: fresh_ok_def)
  moreover have "buffers_ok (Some buf) s'"
  proof (rule buffers_okI)
    fix a e
    assume e: "buffers s' a = Some e"
    show "refcount e = int (card (holders s' a)) + (if Some buf = Some a then 1 else 0) \<and> 0 < refcount e"
    proof (cases "a = buf")
      case True
      with e bf have "refcount e = refcount bf + 1" by auto
      then show ?thesis using True buffers_okD [of "Some buf" s buf bf] b bf(1) nh by (simp add: ho)
    next
      case False
      with e bf have "buffers s a = Some e" by simp
      with buffers_okD [of "Some buf" s a e] b False show ?thesis by (simp add: ho)
    qed
  next
    fix a
    assume e: "buffers s' a = None"
    then have a: "a \<noteq> buf" "buffers s a = None" using bf by (auto split: if_splits)
    with buffers_okN [of "Some buf" s a] b show "holders s' a = {} \<and> Some buf \<noteq> Some a" by (simp add: ho)
  qed
  ultimately show "base_ok (Some buf) s'" using r by (simp add: base_ok_def)
  show "idle_up s \<Longrightarrow> idle_up s'" using fb y(1) unfolding idle_up_def l by (auto simp: addresses)
qed

lemma print_message_Ret: "print_message j s = Ret (str, s') \<Longrightarrow> \<exists>m it. s' = s\<lparr>mem := m, json_items := it\<rparr>"
proof -
  assume r: "print_message j s = Ret (str, s')"
  then obtain ts where ts: "trees_at (Suc (brk (json_items s))) (Some j) (json_items s) = Ret ts"
    and t: "(case ts of [] \<Rightarrow> Undef
       | t # _ \<Rightarrow> bnd (cJSON_Print (Some t) True (mem s)) (\<lambda>(str, m).
           bnd (delete_item (Some j) (json_items s)) (\<lambda>(_, items).
           Ret (str, s\<lparr>mem := m, json_items := items\<rparr>)))) = Ret (str, s')"
    unfolding print_message_def bnd_eq_Ret by blast
  show ?thesis
  proof (cases ts)
    case Nil
    with t show ?thesis by simp
  next
    case (Cons u us)
    with t show ?thesis by (auto simp: run_simps)
  qed
qed

lemma watcher_stop_shape:
  assumes "uv_watcher_stop n h s = Ret s'" and "handles s h = Some y"
  shows "\<exists>z. halted h y s z s'" "uv_loop.more s' = uv_loop.more s"
proof -
  have s': "s' = (if uv__is_active y then unstarted n h y s else s)" using assms watcher_stop_eq [OF assms(2), of n] by simp
  show m: "uv_loop.more s' = uv_loop.more s" by (simp add: s')
  note f = more_fields [OF m]
  show "\<exists>z. halted h y s z s'"
  proof (cases "uv__is_active y")
    case True
    then have "s' = unstarted n h y s" by (simp add: s')
    then have "halted h y s (y\<lparr>h_flags := h_flags y AND NOT UV_HANDLE_ACTIVE\<rparr>) s'"
      using f by (simp add: halted_def beside_def) (simp add: unstarted_def)
    then show ?thesis by blast
  next
    case False
    then have "halted h y s y s'" using assms(2) by (simp add: s' halted_def beside_def map_upd_triv)
    then show ?thesis by blast
  qed
qed

lemma new_buffer_base:
  assumes "base_ok None s" and r: "refcounted_uv_buffer_from_string str s = Ret (a, s')"
  shows "base_ok (Some a) s'" "same_loop s s'" "clients s' = clients s" "clients_count s' = clients_count s"
    "json_queue s' = json_queue s"
proof -
  note b = assms(1) [unfolded base_ok_def]
  from r obtain m where a: "a = next_block s" and s': "s' = s\<lparr>mem := m, next_block := Suc a,
        buffers := (buffers s)(a \<mapsto> \<lparr>refcount = 1, base = str\<rparr>)\<rparr>"
    by (auto simp: refcounted_uv_buffer_from_string_def run_simps Let_def split: prod.splits)
  show sl: "same_loop s s'" and "clients s' = clients s" "clients_count s' = clients_count s" "json_queue s' = json_queue s"
    by (simp_all add: s' same_loop_def)
  have n: "buffers s a = None" using b by (simp add: fresh_ok_def a)
  have ho: "holders s' c = holders s c" for c by (simp add: s' holders_def listed_def)
  have "quiet s'" "roles_ok s'" "fresh_ok s'" using b by (auto simp: s' quiet_def roles_ok_def listed_def fresh_ok_def a)
  moreover have "buffers_ok (Some a) s'"
  proof (rule buffers_okI)
    fix c e
    assume e: "buffers s' c = Some e"
    show "refcount e = int (card (holders s' c)) + (if Some a = Some c then 1 else 0) \<and> 0 < refcount e"
    proof (cases "c = a")
      case True
      then show ?thesis using e buffers_okN [of None s a] b n by (auto simp: ho) (auto simp: s')
    next
      case False
      then show ?thesis using e buffers_okD [of None s c e] b by (auto simp: ho) (auto simp: s')
    qed
  next
    fix c
    assume "buffers s' c = None"
    then show "holders s' c = {} \<and> Some a \<noteq> Some c" using buffers_okN [of None s c] b
      by (auto simp: ho) (auto simp: s' split: if_splits)
  qed
  ultimately show "base_ok (Some a) s'" using b by (simp add: base_ok_def) (simp add: s')
qed

end
