(* ===== verification/Watcher_Sends.thy ===== *)
theory Watcher_Sends
  imports Watcher_Keeps
begin

text \<open>
  send_jsons: the requests it makes for one message, and that it keeps the invariants of the watcher
  and of the loop. The requests are the blocks allocated after the buffer, one for each client in the
  order of the array.
\<close>

section \<open>The requests for one message\<close>

definition request_of :: "nat \<Rightarrow> int \<Rightarrow> watcher_cb uv_handle \<Rightarrow> bool" where
  "request_of buf fd y \<longleftrightarrow> h_type y = UV_POLL \<and> uv__is_active y \<and> holds buf y \<and> u_fd y = fd"

definition sent :: "nat \<Rightarrow> int list \<Rightarrow> watcher \<Rightarrow> watcher \<Rightarrow> bool" where
  "sent buf fds s s' \<longleftrightarrow> handle_queue s' = handle_queue s @ [next_block s ..< next_block s + length fds] \<and>
     next_block s' = next_block s + length fds \<and> (\<forall>h < next_block s. handles s' h = handles s h) \<and>
     (\<forall>i < length fds. \<exists>y. handles s' (next_block s + i) = Some y \<and> request_of buf (fds ! i) y) \<and>
     (\<forall>h < next_block s. ios s' (Io h) = ios s (Io h)) \<and>
     (\<forall>i < length fds. \<exists>w. ios s' (Io (next_block s + i)) = Some w \<and> w_fd w = fds ! i \<and> w_pevents w \<noteq> 0) \<and>
     (\<forall>a. a \<noteq> buf \<longrightarrow> buffers s' a = buffers s a) \<and>
     (\<forall>bf. buffers s buf = Some bf \<longrightarrow> buffers s' buf = Some (bf\<lparr>refcount := refcount bf + int (length fds)\<rparr>)) \<and>
     walk_queue s' = walk_queue s \<and> watcher_batch s' = watcher_batch s \<and> clients s' = clients s \<and>
     clients_count s' = clients_count s \<and> json_queue s' = json_queue s \<and> json_items s' = json_items s"

lemma sent_Nil: "sent buf [] s s"
  by (simp add: sent_def)

lemma upt_first: "[n ..< Suc (n + m)] = n # [Suc n ..< Suc (n + m)]"
  by (rule upt_conv_Cons) simp

lemma sent_Cons:
  assumes q: "requested buf c s s1" and t: "sent buf fds s1 s'"
  shows "sent buf (c # fds) s s'"
proof -
  let ?h = "next_block s"
  note r = q [unfolded requested_def] and w = t [unfolded sent_def]
  from r obtain y bf where y: "handles s1 = (handles s)(?h \<mapsto> y)" "request_of buf c y"
    and bf: "buffers s buf = Some bf" "buffers s1 = (buffers s)(buf \<mapsto> bf\<lparr>refcount := refcount bf + 1\<rparr>)"
    by (auto simp: request_of_def holds_def)
  have n: "next_block s1 = Suc ?h" using r by blast
  have hq: "handle_queue s' = handle_queue s @ [?h ..< ?h + length (c # fds)]"
    using r w by (simp add: upt_first del: upt_Suc)
  have old: "\<forall>h < ?h. handles s' h = handles s h" using w y n by auto
  have new: "\<exists>y. handles s' (?h + i) = Some y \<and> request_of buf ((c # fds) ! i) y" if "i < length (c # fds)" for i
  proof (cases i)
    case 0
    have "handles s' ?h = handles s1 ?h" using w n by simp
    with 0 y show ?thesis by simp
  next
    case (Suc j)
    then have "j < length fds" using that by simp
    with w n Suc show ?thesis by simp
  qed
  have iold: "\<forall>h < ?h. ios s' (Io h) = ios s (Io h)" using w r n by auto
  have inew: "\<exists>v. ios s' (Io (?h + i)) = Some v \<and> w_fd v = (c # fds) ! i \<and> w_pevents v \<noteq> 0" if "i < length (c # fds)" for i
  proof (cases i)
    case 0
    have "ios s' (Io ?h) = ios s1 (Io ?h)" using w n by simp
    with 0 r show ?thesis by auto
  next
    case (Suc j)
    then have "j < length fds" using that by simp
    with w n Suc show ?thesis by simp
  qed
  have bufs: "buffers s' a = buffers s a" if "a \<noteq> buf" for a using w bf(2) that by simp
  have "buffers s' buf = Some (bf\<lparr>refcount := refcount bf + int (length (c # fds))\<rparr>)"
    using w bf(2) by simp
  then have mine: "\<forall>b. buffers s buf = Some b \<longrightarrow> buffers s' buf = Some (b\<lparr>refcount := refcount b + int (length (c # fds))\<rparr>)"
    using bf(1) by simp
  show ?thesis unfolding sent_def using hq old new iold inew bufs mine r w by auto
qed

lemma send_to_clients_sent:
  "\<lbrakk>loop_ok b s; base_ok (Some buf) s; idle_up s; \<forall>c \<in> set cs. c < 2 ^ 31; send_to_clients k buf n cs s = Ret s'\<rbrakk> \<Longrightarrow>
   loop_ok b s' \<and> base_ok (Some buf) s' \<and> idle_up s' \<and> n \<le> length (filter (\<lambda>c. c \<noteq> -1) cs) \<and>
   sent buf (take n (filter (\<lambda>c. c \<noteq> -1) cs)) s s'"
proof (induction n arbitrary: cs s)
  case 0
  then show ?case by (simp add: sent_Nil)
next
  case (Suc n)
  from Suc.prems(5) obtain c ds s1 where c: "next_client cs = Ret (c, ds)" and s1: "send_to_client k buf c s = Ret s1"
    and rest: "send_to_clients k buf n ds s1 = Ret s'" by (auto simp: run_simps)
  from c obtain as where cs: "cs = as @ c # ds" "\<forall>a \<in> set as. a = -1" "c \<noteq> -1" by (auto simp: next_client_Ret)
  have none: "handles s (next_block s) = None" and w: "watchers s \<noteq> []"
    using Suc.prems(2) by (auto simp: base_ok_def fresh_ok_def)
  from send_to_client_Ret [OF Suc.prems(1) w none cs(3) _ s1] Suc.prems(4) cs
  have o: "loop_ok b s1" and q: "requested buf c s s1" by simp_all
  have "next_block s \<notin> listed s" using Suc.prems(1) none by (auto simp: loop_ok_def handles_ok_def)
  note r = requested_base [OF Suc.prems(2) this cs(3) q]
  have "\<forall>c \<in> set ds. c < 2 ^ 31" using Suc.prems(4) cs by simp
  note ih = Suc.IH [OF o r(1) r(2) [OF Suc.prems(3)] this rest]
  have "filter (\<lambda>c. c \<noteq> -1) as = []" using cs(2) by simp
  then have "filter (\<lambda>c. c \<noteq> -1) cs = c # filter (\<lambda>c. c \<noteq> -1) ds" using cs(1,3) by simp
  then show ?case using ih sent_Cons [OF q] by simp
qed

section \<open>One message\<close>

text \<open>The steps of send_jsons when there is a message: the state before the requests, the state after
  them, and the state after the reference of the function is given up.\<close>

lemma send_jsons_steps:
  assumes ok: "loop_ok b s" "watcher_ok s" and j: "json_queue s = Some j # js" and r: "send_jsons k h s = Ret s'"
  obtains str m it s3 s4 s5 m5 where
    "print_message j (s\<lparr>json_queue := js, mem := dealloc (mem s)\<rparr>) =
       Ret (Some str, s\<lparr>json_queue := js, mem := m, json_items := it\<rparr>)"
    "same_loop s s3" "json_queue s3 = js" "next_block s3 = Suc (next_block s)" "clients s3 = clients s" "clients_count s3 = clients_count s"
    "buffers s3 = (buffers s)(next_block s \<mapsto> \<lparr>refcount = 1, base = str\<rparr>)" "base_ok (Some (next_block s)) s3"
    "loop_ok b s4" "base_ok (Some (next_block s)) s4" "idle_up s4"
    "sent (next_block s) (filter (\<lambda>c. c \<noteq> -1) (clients s)) s3 s4"
    "s5 = s4\<lparr>buffers := unref_buffers (next_block s) \<lparr>refcount = 1 + int (clients_count s), base = str\<rparr> s4, mem := m5\<rparr>"
    "(if js \<noteq> [] then Ret s5 else uv_watcher_stop Idle h s5) = Ret s'"
proof -
  let ?s1 = "s\<lparr>json_queue := js, mem := dealloc (mem s)\<rparr>" and ?a = "next_block s"
  note w = ok(2) [unfolded watcher_ok_def clients_ok_def connected_def]
  have pop: "loop_pop_json s = (Some j, ?s1)" using j by (simp add: loop_pop_json_def)
  from r obtain str s2 a s3 s4 s5 where p: "print_message j ?s1 = Ret (Some str, s2)"
    and b3: "refcounted_uv_buffer_from_string str s2 = Ret (a, s3)"
    and s4: "send_to_clients k a (clients_count s3) (clients s3) s3 = Ret s4"
    and s5: "refcounted_uv_buffer_unref a s4 = Ret s5"
    and s': "(if loop_has_jsons s5 then Ret s5 else uv_watcher_stop Idle h s5) = Ret s'"
    unfolding send_jsons_def pop by (auto simp: run_simps split: option.splits)
  from print_message_Ret [OF p] obtain m it where s2e: "s2 = s\<lparr>json_queue := js, mem := m, json_items := it\<rparr>" by auto
  have l2: "same_loop s s2" by (simp add: s2e same_loop_def)
  have "base_ok None s2" using same_loop_base [OF l2, of None] w by (simp add: s2e)
  note nb = new_buffer_base [OF this b3]
  from b3 obtain m2 where a: "a = ?a" and s3e: "s3 = s2\<lparr>mem := m2, next_block := Suc ?a,
        buffers := (buffers s)(?a \<mapsto> \<lparr>refcount = 1, base = str\<rparr>)\<rparr>"
    by (auto simp: refcounted_uv_buffer_from_string_def run_simps Let_def s2e split: prod.splits)
  have l3: "same_loop s s3" using same_loop_trans [OF l2 nb(2)] .
  have o3: "loop_ok b s3" by (rule same_loop_ok [OF l3 ok(1)])
  have i3: "idle_up s3" using alike_idle [OF same_loop_alike [OF l3]] w by simp
  have cl: "clients s3 = clients s" "clients_count s3 = clients_count s" by (simp_all add: s3e s2e)
  have cc: "clients_count s = length (filter (\<lambda>c. c \<noteq> -1) (clients s))"
    using w unfolding size_mset by blast
  have rng: "\<forall>c \<in> set (clients s3). c < 2 ^ 31" using w by (simp add: cl)
  note st = send_to_clients_sent [OF o3 nb(1) [unfolded a] i3 rng s4 [unfolded a]]
  then have sent: "sent ?a (filter (\<lambda>c. c \<noteq> -1) (clients s)) s3 s4" by (simp add: cl cc)
  then have "buffers s4 ?a = Some \<lparr>refcount = 1 + int (clients_count s), base = str\<rparr>"
    by (simp add: sent_def s3e cc)
  with unref_Ret [OF s5 [unfolded a]] obtain m5 where
    s5e: "s5 = s4\<lparr>buffers := unref_buffers ?a \<lparr>refcount = 1 + int (clients_count s), base = str\<rparr> s4, mem := m5\<rparr>" by auto
  have "json_queue s5 = js" using sent by (simp add: s5e sent_def s3e s2e)
  then have s'': "(if js \<noteq> [] then Ret s5 else uv_watcher_stop Idle h s5) = Ret s'" using s' by (simp add: loop_has_jsons_def)
  show thesis
    by (rule that [OF p [unfolded s2e] l3 _ _ cl _ nb(1) [unfolded a] _ _ _ sent s5e s''])
      (use st in \<open>simp_all add: s3e s2e\<close>)
qed

lemma send_jsons_keeps:
  assumes ok: "loop_ok b s" "watcher_ok s" and d: "due h x Send_jsons s" and r: "send_jsons k h s = Ret s'"
  shows "keeps watcher_ok b s s'"
proof -
  note du = d [unfolded due_def] and w = ok(2) [unfolded watcher_ok_def]
  from role_cb [OF due_role [OF ok(2) d], of Send_jsons] du have h: "h = idle_handle" "h_type x = UV_IDLE" by simp_all
  consider (empty) "fst (loop_pop_json s) = None" | (message) j js where "json_queue s = Some j # js"
    by (cases "json_queue s"; cases "hd (json_queue s)") (auto simp: loop_pop_json_def)
  then show ?thesis
  proof cases
    case empty
    then have "s' = snd (loop_pop_json s)" using r by (simp add: send_jsons_def split: prod.splits)
    then show ?thesis using w
      by - (rule keeps_same [OF ok], auto simp: loop_pop_json_def same_loop_def clients_ok_def connected_def split: list.splits)
  next
    case (message j js)
    let ?a = "next_block s"
    obtain str s3 s4 s5 m5 where
      s3: "same_loop s s3" "next_block s3 = Suc ?a" "clients s3 = clients s" "clients_count s3 = clients_count s"
        "buffers s3 = (buffers s)(?a \<mapsto> \<lparr>refcount = 1, base = str\<rparr>)" "base_ok (Some ?a) s3"
      and s4: "loop_ok b s4" "base_ok (Some ?a) s4" "idle_up s4" "sent ?a (filter (\<lambda>c. c \<noteq> -1) (clients s)) s3 s4"
      and s5: "s5 = s4\<lparr>buffers := unref_buffers ?a \<lparr>refcount = 1 + int (clients_count s), base = str\<rparr> s4, mem := m5\<rparr>"
      and s': "(if js \<noteq> [] then Ret s5 else uv_watcher_stop Idle h s5) = Ret s'" by (rule send_jsons_steps [OF ok message r]) blast
    note se = s4(4) [unfolded sent_def]
    have l5: "same_loop s4 s5" by (simp add: s5 same_loop_def)
    have cc: "clients_count s = length (filter (\<lambda>c. c \<noteq> -1) (clients s))"
      using w unfolding clients_ok_def connected_def size_mset by blast
    have bf: "buffers s4 ?a = Some \<lparr>refcount = 1 + int (clients_count s), base = str\<rparr>" using se by (simp add: s3 cc)
    have ho: "holders s5 c = holders s4 c" for c by (rule alike_holders [OF same_loop_alike [OF l5]])
    have "buffers_ok None s5"
      by (rule buffers_ok_release_own [of ?a s4, OF _ bf _ ho]) (use s4(2) in \<open>simp_all add: base_ok_def s5\<close>)
    moreover have "quiet s5" "roles_ok s5" "watchers s5 \<noteq> []"
      using s4(2) alike_roles [OF same_loop_alike [OF l5]] alike_quiet [OF same_loop_alike [OF l5]]
      by (simp_all add: base_ok_def) (simp_all add: s5)
    moreover have "fresh_ok s5" using s4(2) bf by (auto simp: base_ok_def fresh_ok_def s5 unref_buffers_def)
    ultimately have b5: "base_ok None s5" by (simp add: base_ok_def)
    have o5: "loop_ok b s5" by (rule same_loop_ok [OF l5 s4(1)])
    have i5: "idle_up s5" using alike_idle [OF same_loop_alike [OF l5] s4(3)] .
    have w5: "walk_queue s5 = []" "clients_ok s5" "watcher_batch s5 = watcher_batch s"
      using se s3 w by (simp_all add: s5 clients_ok_def connected_def same_loop_def)
    have k5: "keeps watcher_ok b s s5" using o5 b5 i5 w5 by (simp add: keeps_def watcher_ok_def)
    show ?thesis
    proof (cases "js = []")
      case False
      with s' k5 show ?thesis by simp
    next
      case True
      with s' have st: "uv_watcher_stop Idle h s5 = Ret s'" by simp
      have "FIRST_BLOCK \<le> ?a" using w by (simp add: base_ok_def fresh_ok_def)
      then have "h < next_block s3" using s3(2) h(1) by (simp add: addresses)
      then have hx: "handles s5 h = Some x" "h \<in> listed s5"
        using se s3(1) du by (auto simp: s5 same_loop_def listed_def)
      from watcher_stop_shape [OF st hx(1)] obtain z where z: "halted h x s5 z s'" and m: "uv_loop.more s' = uv_loop.more s5" by blast
      note mf = more_fields [OF m] and ha = z [unfolded halted_def beside_def]
      have o: "loop_ok b s'" by (rule watcher_stop_ok [OF o5 hx(1) _ st]) (simp add: h)
      have l: "listed s' = listed s5" using ha by (simp add: listed_def)
      have ro: "role h x" using base_listed_role [OF b5 hx] .
      have cz: "uv__is_closing z = uv__is_closing x" using ha by (auto simp: is_closing_iff)
      have iz: "has (h_flags z) UV_HANDLE_INTERNAL = has (h_flags x) UV_HANDLE_INTERNAL" using ha by auto
      have nc: "\<not> uv__is_closing x" using du by simp
      have rz: "role h z" using ro ha nc unfolding role_def cz iz h(1) by (simp add: addresses)
      have nh: "\<not> holds c z" "\<not> holds c x" for c using ha du by (auto simp: holds_def)
      have ho': "holders s' c = holders s5 c" for c
        using holders_upd [of s' s5 h z c] ha l hx nh [of c] by (auto simp: holders_def)
      have "base_ok None s'"
      proof (rule base_ok_handle [of None s5 s' h z x])
        show "watchers s' \<noteq> []" using ha b5 by (metis base_ok_def length_0_conv)
        show "buffers_ok None s'" using b5 mf ho' by - (rule buffers_ok_same [of None s5], simp_all add: base_ok_def)
      qed (use ha l b5 hx rz mf in simp_all)
      moreover have "idle_up s'" using i5 ha l hx nc cz h(1) unfolding idle_up_def by (auto simp: addresses)
      ultimately have "watcher_ok s'" using w5 ha mf by (simp add: watcher_ok_def clients_ok_def connected_def)
      then have "keeps watcher_ok b s5 s'" using o ha by (simp add: keeps_def)
      with k5 show ?thesis by (rule keeps_trans)
    qed
  qed
qed

end
