(* ===== verification/Watcher_Exit.thy ===== *)
theory Watcher_Exit
  imports Watcher_Sends
begin

text \<open>
  The end of the watcher: the walk of sigint_handler over the handles returns and leaves every handle
  of the program closing. With it every callback keeps the invariant of the watcher, which is the
  contract of the loop, and the whole of uv_run keeps it.
\<close>

section \<open>Closing always returns\<close>

lemma uv_close_returns:
  assumes ok: "loop_ok b s" and x: "handles s h = Some x" "h \<in> listed s" "\<not> uv__is_closing x"
    and tbl: "watchers s \<noteq> []" and t: "h_type x = UV_POLL \<or> h_type x = watcher_type n"
  shows "\<exists>s'. uv_close k h cb s = Ret s'"
proof -
  let ?x = "x\<lparr>h_flags := h_flags x OR UV_HANDLE_CLOSING, close_cb := cb\<rparr>"
  let ?r = "set_handle h ?x s"
  note ok' = ok [unfolded loop_ok_def]
  have core: "core_ok ?r" using ok x
    by - (rule core_ok_set [of s h x], simp_all add: loop_ok_core uv__is_active_def uv__has_ref_def)
  have r: "handles ?r h = Some ?x" "h \<in> listed ?r" "watchers ?r \<noteq> []" using x tbl by simp_all
  have nc: "\<not> has (h_flags x) UV_HANDLE_CLOSED" using ok' x unfolding closing_ok_def by (auto simp: is_closing_iff)
  have "\<exists>s1. close_by_type k (h_type x) h ?r = Ret s1"
  proof (cases "h_type x = UV_POLL")
    case True
    with polls_okD [of s h x] ok' x obtain i where i: "ios ?r (Io h) = Some i" "0 \<le> w_fd i" by auto
    have "ios_ok ?r" using core by (simp add: core_ok_def)
    from poll_stop_eq [OF this r(1) i r(3)] True show ?thesis by (simp add: close_by_type_def)
  next
    case False
    then show ?thesis using t watcher_stop_eq [OF r(1)] by (cases n) (simp_all add: close_by_type_def)
  qed
  then obtain s1 where s1: "close_by_type k (h_type x) h ?r = Ret s1" by blast
  then have "stopped_from h ?x ?r s1" using close_by_type_stops [OF core r(1,2,3)] by simp
  then obtain y where y: "handles s1 h = Some y" "h_flags y = h_flags ?x AND NOT UV_HANDLE_ACTIVE"
    unfolding stopped_from_def by auto
  have "uv__make_close_pending h s1 = Ret (s1\<lparr>closing_handles := h # closing_handles s1\<rparr>)"
    using y nc by (simp add: uv__make_close_pending_def with_handle_def)
  then show ?thesis using x(1,3) s1 by (simp add: uv_close_def with_handle_def)
qed

section \<open>One handle of the walk\<close>

lemma halted_same:
  assumes "halted h x s z s1" and "same_loop s1 s2" and "next_block s2 = next_block s1"
  shows "halted h x s z s2"
  using assms(1) beside_trans [of s s1 s2] same_loop_beside [OF assms(2,3)] assms(2)
  by (simp add: halted_def) (simp add: same_loop_def)

lemma halted_close:
  assumes ok: "loop_ok b s1" and h: "halted h x s z s1" and x: "handles s h = Some x" "h \<in> listed s" "\<not> uv__is_closing x"
    and w: "watchers s \<noteq> []" and t: "h_type x = UV_POLL \<or> h_type x = UV_IDLE"
  shows "\<exists>s'. uv_close k h (if FIRST_BLOCK \<le> h then Some Free_handle else None) s1 = Ret s' \<and> loop_ok b s' \<and>
    shut h x s s' \<and> uv_loop.more s' = uv_loop.more s1"
proof -
  note ha = h [unfolded halted_def beside_def]
  have z: "handles s1 h = Some z" "h \<in> listed s1" "watchers s1 \<noteq> []" using ha x w by (simp_all add: listed_def) auto
  have nc: "\<not> uv__is_closing z" using ha x(3) by (auto simp: is_closing_iff)
  have tz: "h_type z = UV_POLL \<or> h_type z = watcher_type Idle" using t ha by simp
  from uv_close_returns [OF ok z(1,2) nc z(3) tz] obtain s' where
    s': "uv_close k h (if FIRST_BLOCK \<le> h then Some Free_handle else None) s1 = Ret s'" by blast
  from uv_close_Ret [OF ok z s'] have c: "loop_ok b s'"
      "closed_from h z (if FIRST_BLOCK \<le> h then Some Free_handle else None) s1 s'" by simp_all
  have "shut h x s s'" by (rule halted_closed [OF h c(2)]) (use t in auto)
  then show ?thesis using s' c by (auto simp: closed_from_def)
qed

text \<open>What the visit of a handle does: it is closing after it, and nothing else has changed.\<close>

definition visited :: "nat \<Rightarrow> watcher \<Rightarrow> watcher \<Rightarrow> bool" where
  "visited h s s' \<longleftrightarrow> beside s s' \<and> clients s' = clients s \<and> clients_count s' = clients_count s \<and>
     json_queue s' = json_queue s \<and> (\<exists>y. handles s' = (handles s)(h \<mapsto> y) \<and> uv__is_closing y)"

lemma shut_visited:
  assumes "shut h x s s'" and "clients s' = clients s" "clients_count s' = clients_count s" "json_queue s' = json_queue s"
  shows "visited h s s'"
  using assms unfolding shut_def visited_def by (auto simp: is_closing_iff)

lemma open_handles_cb_visits:
  assumes ok: "loop_ok b s" "base_ok None s" and x: "handles s h = Some x" "h \<in> listed s" "idle_handle \<le> h"
    and sg: "h = sigint_handle \<longrightarrow> uv__is_closing x"
  shows "\<exists>s'. open_handles_cb k h s = Ret s' \<and> loop_ok b s' \<and> base_ok None s' \<and> visited h s s'"
proof (cases "uv__is_closing x")
  case True
  then have "open_handles_cb k h s = Ret s" using x by (simp add: open_handles_cb_def with_handle_def)
  moreover have "handles s = (handles s)(h \<mapsto> x)" using x(1) by (simp add: map_upd_triv)
  then have "visited h s s" using True by (auto simp: visited_def beside_def)
  ultimately show ?thesis using ok by blast
next
  case False
  note w = ok(2) [unfolded base_ok_def]
  have ro: "role h x" using base_listed_role [OF ok(2) x(1,2)] .
  have hs: "FIRST_BLOCK \<le> h \<or> h = idle_handle \<or> h = poll_handle \<or> h = unix_domain_poll_handle"
    using x(3) sg False by (auto simp: addresses)
  show ?thesis
  proof (cases "h = idle_handle")
    case True
    then have t: "h_type x = UV_IDLE" using ro by (simp add: role_def addresses)
    obtain s1 where s1: "uv_watcher_stop Idle h s = Ret s1" using watcher_stop_eq [OF x(1), of Idle] by blast
    have o1: "loop_ok b s1" by (rule watcher_stop_ok [OF ok(1) x(1) _ s1]) (simp add: t)
    from watcher_stop_shape [OF s1 x(1)] obtain z where z: "halted h x s z s1" and m: "uv_loop.more s1 = uv_loop.more s" by blast
    from halted_close [OF o1 z x(1,2) False _ disjI2 [OF t], of k] w True obtain s' where
      s': "uv_close k h None s1 = Ret s'" "loop_ok b s'" "shut h x s s'" "uv_loop.more s' = uv_loop.more s1"
      by (auto simp: addresses)
    have m': "uv_loop.more s' = uv_loop.more s" using m s'(4) by simp
    note mf = more_fields [OF m']
    have nh: "\<not> holds a x" for a using ro True by (auto simp: holds_def role_def addresses)
    have ho: "holders s' a = holders s a" for a using shut_holders [OF s'(3) x(2)] nh x by (auto simp: holders_def)
    have "buffers_ok None s'" using w mf ho by - (rule buffers_ok_same [of None s], simp_all)
    then have "base_ok None s'" by (rule base_ok_shut [OF ok(2) x s'(3)]) (simp add: mf)
    moreover have "open_handles_cb k h s = Ret s'"
      using s1 s'(1) x(1) False t by (simp add: open_handles_cb_def with_handle_def)
    ultimately show ?thesis using s'(2) shut_visited [OF s'(3)] mf by blast
  next
    case notidle: False
    then have t: "h_type x = UV_POLL" using hs ro by (auto simp: role_def addresses split: if_splits)
    from poll_handle_ready [OF ok(1) x(1) t x(2)] w obtain i where i: "poll_ready h x i s" by blast
    have s1: "uv_poll_stop k h s = Ret (unpoll h x i s)"
      using poll_stop_eq [of s h x i k] ok(1) i False x(1)
      by (simp add: uv_poll_stop_def with_handle_def poll_ready_def loop_ok_def)
    from poll_stop_ok [OF ok(1) i s1] have o1: "loop_ok b (unpoll h x i s)" by simp
    note z = halted_unpoll [OF x(1), of i]
    have m1: "uv_loop.more (unpoll h x i s) = uv_loop.more s" by simp
    note f1 = more_fields [OF m1]
    show ?thesis
    proof (cases "FIRST_BLOCK \<le> h")
      case big: True
      from ro big obtain a where a: "h_cb x = Some On_writeable" "h_data x = Some a" by (auto simp: role_def)
      have hd: "h \<in> holders s c \<longleftrightarrow> c = a" for c using x a False by (auto simp: holders_def holds_def)
      obtain bf where bf: "buffers s a = Some bf" using buffers_okN [of None s a] w hd [of a] by (cases "buffers s a") auto
      obtain s2 where s2: "refcounted_uv_buffer_unref a (unpoll h x i s) = Ret s2"
        using bf f1 by (cases "refcount bf = 1") (auto simp: refcounted_uv_buffer_unref_def with_buffer_def)
      from unref_Ret [OF s2] bf f1 obtain m where
        s2e: "s2 = (unpoll h x i s)\<lparr>buffers := unref_buffers a bf (unpoll h x i s), mem := m\<rparr>" by auto
      have u: "unref_buffers a bf (unpoll h x i s) = unref_buffers a bf s" using f1 by (simp add: unref_buffers_def)
      have l2: "same_loop (unpoll h x i s) s2" by (simp add: s2e same_loop_def)
      have o2: "loop_ok b s2" by (rule same_loop_ok [OF l2 o1])
      have "halted h x s (x\<lparr>h_flags := h_flags x AND NOT UV_HANDLE_ACTIVE\<rparr>) s2"
        by (rule halted_same [OF z l2]) (simp add: s2e)
      from halted_close [OF o2 this x(1,2) False _ disjI1 [OF t], of k] w big obtain s' where
        s': "uv_close k h (Some Free_handle) s2 = Ret s'" "loop_ok b s'" "shut h x s s'" "uv_loop.more s' = uv_loop.more s2"
        by auto
      note mf = more_fields [OF s'(4)]
      have b2: "buffers s2 = unref_buffers a bf s" "clients s2 = clients s" "clients_count s2 = clients_count s"
        "json_queue s2 = json_queue s" using f1 by (simp_all add: s2e u)
      have "buffers_ok None s'"
        by (rule buffers_ok_release [of None s a bf h])
          (use w bf hd b2 mf shut_holders [OF s'(3) x(2)] in simp_all)
      moreover have "\<forall>c. buffers s c = None \<longrightarrow> buffers s' c = None" using bf by (auto simp: mf b2 unref_buffers_def)
      ultimately have "base_ok None s'" by (rule base_ok_shut [OF ok(2) x s'(3)])
      moreover have "open_handles_cb k h s = Ret s'"
        using s1 s2 s'(1) x(1) False t a by (simp add: open_handles_cb_def with_handle_def)
      ultimately show ?thesis using s'(2) shut_visited [OF s'(3)] mf b2 by auto
    next
      case small: False
      have cb: "h_cb x \<noteq> Some On_writeable" using ro small hs notidle by (auto simp: role_def addresses split: if_splits)
      from halted_close [OF o1 z x(1,2) False _ disjI1 [OF t], of k] w small obtain s' where
        s': "uv_close k h None (unpoll h x i s) = Ret s'" "loop_ok b s'" "shut h x s s'"
          "uv_loop.more s' = uv_loop.more (unpoll h x i s)" by auto
      note mf = more_fields [OF s'(4)]
      have nh: "\<not> holds a x" for a using cb by (simp add: holds_def)
      have ho: "holders s' a = holders s a" for a using shut_holders [OF s'(3) x(2)] nh x by (auto simp: holders_def)
      have "buffers_ok None s'" using w mf f1 ho by - (rule buffers_ok_same [of None s], simp_all)
      then have "base_ok None s'" by (rule base_ok_shut [OF ok(2) x s'(3)]) (simp add: mf f1)
      moreover have "open_handles_cb k h s = Ret s'"
        using s1 s'(1) x(1) False t cb by (simp add: open_handles_cb_def with_handle_def)
      ultimately show ?thesis using s'(2) shut_visited [OF s'(3)] mf f1 by auto
    qed
  qed
qed

section \<open>The walk\<close>

text \<open>The invariants do not depend on how the handles are split over the queue and the walk.\<close>

lemma queues_ok:
  assumes ok: "loop_ok b s" and q: "distinct (hq @ wq)" "set hq \<union> set wq = listed s"
  shows "loop_ok b (s\<lparr>handle_queue := hq, walk_queue := wq\<rparr>)" (is "loop_ok b ?s")
proof -
  note ok' = ok [unfolded loop_ok_def]
  have l: "listed ?s = listed s" using q(2) by (simp add: listed_def)
  have c: "counted ?s = counted s" by (simp add: counted_def)
  have "handles_ok ?s" using ok' q unfolding handles_ok_def l c by simp
  moreover have "closing_ok b ?s" using ok' closing_ok_eq [of ?s s b] l by simp
  moreover have "polls_ok ?s" using ok' polls_ok_eq [of ?s s] l by simp
  moreover have "ios_ok ?s" using ok' by - (rule ios_ok_cong [of s], simp_all)
  moreover have "kinds_ok ?s" using ok' kinds_ok_eq [of ?s s] by simp
  moreover have "signals_ok ?s" using ok' signals_ok_eq [of ?s s] by simp
  ultimately show ?thesis by (simp add: loop_ok_def)
qed

lemma queues_base:
  assumes "base_ok own s" and "set hq \<union> set wq = listed s"
  shows "base_ok own (s\<lparr>handle_queue := hq, walk_queue := wq\<rparr>)"
  using assms by - (rule base_ok_cong [of own s], simp_all add: alike_def listed_def base_ok_def)

text \<open>A handle the walk is done with: one inside the loop, or one that is closing.\<close>

definition quietened :: "watcher \<Rightarrow> nat \<Rightarrow> bool" where
  "quietened s h \<longleftrightarrow> h < idle_handle \<or> (\<exists>y. handles s h = Some y \<and> uv__is_closing y)"

definition walk_ok :: "watcher \<Rightarrow> bool" where
  "walk_ok s \<longleftrightarrow> base_ok None s \<and> (\<forall>h \<in> set (handle_queue s). quietened s h) \<and>
     (sigint_handle \<in> listed s \<longrightarrow> quietened s sigint_handle)"

lemma visited_quietened: "visited h s s' \<Longrightarrow> quietened s g \<Longrightarrow> quietened s' g" "visited h s s' \<Longrightarrow> quietened s' h"
  unfolding visited_def quietened_def by (cases "g = h"; auto; blast)+

lemma beside_queues: "beside s s' \<Longrightarrow> handle_queue s' = handle_queue s \<and> walk_queue s' = walk_queue s \<and> listed s' = listed s"
  by (simp add: beside_def listed_def)

lemma walk_closes:
  "\<lbrakk>length (walk_queue s) < fuel; loop_ok b s; walk_ok s\<rbrakk> \<Longrightarrow>
   \<exists>s'. walk_loop (open_handles_cb k) fuel s = Ret s' \<and> loop_ok b s' \<and> walk_ok s' \<and> walk_queue s' = [] \<and>
     handle_queue s' = handle_queue s @ walk_queue s \<and> clients s' = clients s \<and> clients_count s' = clients_count s \<and>
     json_queue s' = json_queue s \<and> (\<forall>n. set (watcher_batch s' n) \<subseteq> set (watcher_batch s n))"
proof (induction fuel arbitrary: s)
  case 0
  then show ?case by simp
next
  case (Suc fuel)
  note w = Suc.prems(3) [unfolded walk_ok_def]
  show ?case
  proof (cases "walk_queue s")
    case Nil
    then show ?thesis using Suc.prems by simp
  next
    case (Cons h hs)
    let ?s1 = "s\<lparr>handle_queue := handle_queue s @ [h], walk_queue := hs\<rparr>"
    have e1: "s\<lparr>walk_queue := hs, handle_queue := handle_queue s @ [h]\<rparr> = ?s1" by simp
    have hl: "h \<in> listed s" using Cons by (simp add: listed_def)
    have ha: "handles_ok s" using Suc.prems(2) by (simp add: loop_ok_def)
    then obtain x where x: "handles s h = Some x" using hl by (auto simp: handles_ok_def)
    have q: "distinct ((handle_queue s @ [h]) @ hs)" "set (handle_queue s @ [h]) \<union> set hs = listed s"
      using ha Cons by (auto simp: handles_ok_def listed_def)
    have o1: "loop_ok b ?s1" by (rule queues_ok [OF Suc.prems(2) q])
    have b1: "base_ok None ?s1" using queues_base [OF _ q(2)] w by blast
    have l1: "listed ?s1 = listed s" using q(2) by (simp add: listed_def)
    have ro: "role h x" using base_listed_role [of None s h x] w x hl by simp
    then have int: "has (h_flags x) UV_HANDLE_INTERNAL \<longleftrightarrow> h < idle_handle" by (simp add: role_def)
    show ?thesis
    proof (cases "h < idle_handle")
      case True
      have w1: "walk_ok ?s1" unfolding walk_ok_def l1 using b1 w True by (auto simp: quietened_def)
      have "length (walk_queue ?s1) < fuel" using Suc.prems(1) Cons by simp
      from Suc.IH [OF this o1 w1] Cons int True x show ?thesis by (simp add: with_handle_def e1)
    next
      case False
      have x1: "handles ?s1 h = Some x" "h \<in> listed ?s1" "idle_handle \<le> h" using x hl l1 False by simp_all
      have "h = sigint_handle \<longrightarrow> uv__is_closing x" using w hl x False by (auto simp: quietened_def)
      from open_handles_cb_visits [OF o1 b1 x1 this, of k] obtain s2 where s2: "open_handles_cb k h ?s1 = Ret s2"
        and o2: "loop_ok b s2" and b2: "base_ok None s2" and v: "visited h ?s1 s2" by blast
      have be: "beside ?s1 s2" using v by (simp add: visited_def)
      note qs = beside_queues [OF be]
      have "quietened s2 g" if "g = h \<or> quietened s g" for g
        using that visited_quietened(1) [OF v, of g] visited_quietened(2) [OF v] by (auto simp: quietened_def)
      then have w2: "walk_ok s2" unfolding walk_ok_def using b2 w qs l1 by auto
      have "length (walk_queue s2) < fuel" using Suc.prems(1) Cons qs by simp
      from Suc.IH [OF this o2 w2] obtain s' where
        s': "walk_loop (open_handles_cb k) fuel s2 = Ret s'" "loop_ok b s'" "walk_ok s'" "walk_queue s' = []"
          "handle_queue s' = handle_queue s2 @ walk_queue s2" "clients s' = clients s2" "clients_count s' = clients_count s2"
          "json_queue s' = json_queue s2" "\<forall>n. set (watcher_batch s' n) \<subseteq> set (watcher_batch s2 n)" by blast
      have "walk_loop (open_handles_cb k) (Suc fuel) s = Ret s'"
        using Cons x int False s2 s'(1) by (simp add: with_handle_def e1)
      moreover have "set (watcher_batch s' n) \<subseteq> set (watcher_batch s n)" for n
        using s'(9) be unfolding beside_def by fastforce
      ultimately show ?thesis using s'(2-8) v qs Cons unfolding visited_def by auto
    qed
  qed
qed

lemma uv_walk_closes:
  assumes "loop_ok b s" and "base_ok None s" and "walk_queue s = []" and "sigint_handle \<in> listed s \<longrightarrow> quietened s sigint_handle"
  shows "\<exists>s'. uv_walk (open_handles_cb k) s = Ret s' \<and> loop_ok b s' \<and> walk_ok s' \<and> walk_queue s' = [] \<and>
     handle_queue s' = handle_queue s \<and> clients s' = clients s \<and> clients_count s' = clients_count s \<and>
     json_queue s' = json_queue s \<and> (\<forall>n. set (watcher_batch s' n) \<subseteq> set (watcher_batch s n))"
proof -
  let ?s = "s\<lparr>handle_queue := [], walk_queue := handle_queue s\<rparr>"
  have e: "s\<lparr>walk_queue := handle_queue s, handle_queue := []\<rparr> = ?s" by simp
  have q: "distinct ([] @ handle_queue s)" "set [] \<union> set (handle_queue s) = listed s"
    using assms(1,3) by (simp_all add: loop_ok_def handles_ok_def listed_def)
  have o: "loop_ok b ?s" by (rule queues_ok [OF assms(1) q])
  have l: "listed ?s = listed s" using assms(3) by (simp add: listed_def)
  have "walk_ok ?s" unfolding walk_ok_def l using queues_base [OF assms(2) q(2)] assms(4) by (simp add: quietened_def)
  from walk_closes [OF _ o this, of "Suc (length (handle_queue s))" k] show ?thesis unfolding uv_walk_def e by simp
qed

section \<open>The handler of SIGINT\<close>

text \<open>The state in which the walk starts: the handle of SIGINT is closing.\<close>

lemma sigint_stopped:
  assumes ok: "loop_ok b s" "watcher_ok s" and d: "due h x On_sigint s"
    and s1: "uv_signal_stop k h s = Ret s1" and s2: "uv_close k h None s1 = Ret s2"
  shows "loop_ok b s2" "base_ok None s2" "beside s s2" "uv_loop.more s2 = uv_loop.more s" "quietened s2 sigint_handle"
proof -
  note du = d [unfolded due_def] and w = ok(2) [unfolded watcher_ok_def base_ok_def]
  from role_cb [OF due_role [OF ok(2) d], of On_sigint] du have h: "h = sigint_handle" "h_type x = UV_SIGNAL" by simp_all
  have hi: "idle_handle \<le> h" "\<not> FIRST_BLOCK \<le> h" by (simp_all add: h addresses)
  have st: "uv__signal_stop k h s = Ret s1" using s1 du by (auto simp: uv_signal_stop_def run_simps)
  have o1: "loop_ok b s1" using signal_stop_ok [OF ok(1) st] du h by simp
  have "uv_loop.more s1 = uv_loop.more s \<and> watchers s1 = watchers s \<and> (\<exists>z. halted h x s z s1)"
  proof (cases "signum x = 0")
    case True
    then have "s1 = s" using signal_stop_Ret [OF st] du by simp
    moreover have "halted h x s x s" using du by (simp add: halted_def beside_def map_upd_triv)
    ultimately show ?thesis by auto
  next
    case False
    then obtain us where e: "s1 = unsignalled h x us s" using signal_stop_Ret [OF st] du by auto
    have m: "uv_loop.more s1 = uv_loop.more s" by (simp add: e)
    have "watcher_batch s1 = watcher_batch s" by (simp add: e unsignalled_def traced_def)
    then have "halted h x s (x\<lparr>signum := 0, h_flags := h_flags x AND NOT UV_HANDLE_ACTIVE\<rparr>) s1"
      using more_fields(4) [OF m] by (simp add: halted_def beside_def) (simp add: e)
    then show ?thesis using m by (auto simp: e)
  qed
  then obtain z where m1: "uv_loop.more s1 = uv_loop.more s" and w1: "watchers s1 = watchers s" and z: "halted h x s z s1" by blast
  note ha = z [unfolded halted_def beside_def]
  have hz: "handles s1 h = Some z" "h \<in> listed s1" "watchers s1 \<noteq> []" using ha du w w1 by (simp_all add: listed_def)
  from uv_close_Ret [OF o1 hz s2] have cf: "closed_from h z None s1 s2" by simp
  show "loop_ok b s2" using uv_close_Ret [OF o1 hz s2] by simp
  have sh: "shut h x s s2" by (rule halted_closed [OF z]) (use cf hi h in simp_all)
  show m2: "uv_loop.more s2 = uv_loop.more s" using cf m1 by (simp add: closed_from_def)
  note mf = more_fields [OF m2]
  show "beside s s2" using sh by (simp add: shut_def)
  have nh: "\<not> holds a x" for a using du by (simp add: holds_def)
  have ho: "holders s2 a = holders s a" for a using shut_holders [OF sh] nh du by (auto simp: holders_def)
  have bo: "buffers_ok None s2" using w mf ho by - (rule buffers_ok_same [of None s], simp_all)
  have b0: "base_ok None s" and du': "handles s h = Some x" "h \<in> listed s" using ok(2) du by (simp_all add: watcher_ok_def)
  show "base_ok None s2" by (rule base_ok_shut [OF b0 du' hi(1) sh bo]) (simp add: mf)
  show "quietened s2 sigint_handle" using sh h(1) by (auto simp: shut_def quietened_def is_closing_iff)
qed

lemma sigint_walk:
  assumes "loop_ok b s" and "watcher_ok s" and "due h x On_sigint s"
    and "uv_signal_stop k h s = Ret s1" and "uv_close k h None s1 = Ret s2"
  shows "\<exists>s'. uv_walk (open_handles_cb k) s2 = Ret s' \<and> loop_ok b s' \<and> walk_ok s' \<and> walk_queue s' = [] \<and>
     handle_queue s' = handle_queue s2 \<and> clients s' = clients s2 \<and> clients_count s' = clients_count s2 \<and>
     json_queue s' = json_queue s2 \<and> (\<forall>n. set (watcher_batch s' n) \<subseteq> set (watcher_batch s2 n))"
proof -
  note p = sigint_stopped [OF assms]
  have "walk_queue s2 = []" using p(3) assms(2) by (simp add: watcher_ok_def beside_def)
  from uv_walk_closes [OF p(1,2) this] p(5) show ?thesis by blast
qed

lemma sigint_Ret:
  assumes ok: "loop_ok b s" "watcher_ok s" and d: "due h x On_sigint s" and r: "sigint_handler k h s = Ret s'"
  shows "keeps watcher_ok b s s'" "handle_queue s' = handle_queue s" "\<forall>g \<in> set (handle_queue s). quietened s' g"
    "clients s' = clients s" "json_queue s' = json_queue s"
proof -
  note w = ok(2) [unfolded watcher_ok_def base_ok_def]
  from r obtain s1 s2 where s1: "uv_signal_stop k h s = Ret s1" and s2: "uv_close k h None s1 = Ret s2"
    and s': "uv_walk (open_handles_cb k) s2 = Ret s'" by (auto simp: sigint_handler_def run_simps)
  note p = sigint_stopped [OF ok d s1 s2] and mf = more_fields [OF sigint_stopped(4) [OF ok d s1 s2]]
  from sigint_walk [OF ok d s1 s2] s' have k': "loop_ok b s'" "walk_ok s'" "walk_queue s' = []"
    "handle_queue s' = handle_queue s2" "clients s' = clients s2" "clients_count s' = clients_count s2"
    "json_queue s' = json_queue s2" "\<forall>n. set (watcher_batch s' n) \<subseteq> set (watcher_batch s2 n)" by auto
  note wk = k'(2) [unfolded walk_ok_def] and be = p(3) [unfolded beside_def]
  show "handle_queue s' = handle_queue s" "clients s' = clients s" "json_queue s' = json_queue s"
    using k' be mf by simp_all
  show "\<forall>g \<in> set (handle_queue s). quietened s' g" using wk k'(4) be by simp
  have "idle_up s'"
  proof -
    have "uv__is_closing y" if "handles s' poll_handle = Some y" "poll_handle \<in> listed s'" for y
      using that wk k'(3) by (auto simp: quietened_def listed_def addresses)
    then show ?thesis by (auto simp: idle_up_def)
  qed
  then have "watcher_ok s'" using wk w k' mf by (simp add: watcher_ok_def clients_ok_def connected_def)
  moreover have "set (watcher_batch s' n) \<subseteq> set (watcher_batch s n)" for n using k'(8) be by blast
  ultimately show "keeps watcher_ok b s s'" using k'(1) by (simp add: keeps_def)
qed

section \<open>The contract of the loop\<close>

lemma callback_keeps:
  assumes ok: "loop_ok b s" "watcher_ok s" and d: "due h x cb s" and r: "run_callback k stack cb h a c s = Ret s'"
  shows "keeps watcher_ok b s s'"
proof (cases cb)
  case On_fs_event
  with on_fs_event_keeps [OF ok] d r show ?thesis by (auto simp: run_callback_def)
next
  case On_connection
  with on_connection_keeps [OF ok] r show ?thesis by (auto simp: run_callback_def)
next
  case On_writeable
  with on_writeable_keeps [OF ok] d r show ?thesis by (auto simp: run_callback_def)
next
  case Send_jsons
  with send_jsons_keeps [OF ok] d r show ?thesis by (auto simp: run_callback_def)
next
  case On_sigint
  with sigint_Ret(1) [OF ok] d r show ?thesis by (auto simp: run_callback_def)
next
  case Free_handle
  with role_cb [OF due_role [OF ok(2) d]] d show ?thesis by (auto simp: due_def)
next
  case Work_done
  with r show ?thesis by (simp add: run_callback_def)
qed

interpretation watcher_client: loop_client k "run_callback k stack" watcher_ok for k stack
proof
  show "watcher_ok s \<Longrightarrow> client_view s' = client_view s \<Longrightarrow> watcher_ok s'" for s s' by (rule watcher_ok_view)
  show "watcher_ok s \<Longrightarrow> quiet s" for s by (simp add: watcher_ok_def base_ok_def)
qed (blast intro: callback_keeps close_keeps gone_groups(1))+

end
