(* ===== verification/Uv_Start.thy ===== *)
theory Uv_Start
  imports Uv_Closing
begin

text \<open>
  The loop that uv_loop_new makes: it satisfies the invariant, and holds two internal handles, the one
  that watches for children and the one of the thread pool. The kernel is trusted to give the eventfd
  a descriptor of its own.
\<close>

section \<open>Watchers inside the loop\<close>

text \<open>What does not change while the loop starts.\<close>

definition steady :: "('cb, 'm) uv_loop_scheme \<Rightarrow> ('cb, 'm) uv_loop_scheme \<Rightarrow> bool" where
  "steady s s' \<longleftrightarrow> walk_queue s' = walk_queue s \<and> closing_handles s' = closing_handles s \<and>
     pending_queue s' = pending_queue s \<and> pending_batch s' = pending_batch s \<and> timers s' = timers s \<and>
     watcher_batch s' = watcher_batch s \<and> uv_loop.more s' = uv_loop.more s \<and> stop_flag s' = stop_flag s \<and>
     active_reqs s' = active_reqs s"

lemma steady_trans: "steady s s1 \<Longrightarrow> steady s1 s2 \<Longrightarrow> steady s s2"
  by (simp add: steady_def)

text \<open>A watcher that belongs to no handle and asks for nothing gets a descriptor and starts.\<close>

lemma inner_io_ok:
  assumes ok: "loop_ok b s" and w: "\<forall>h. Io h \<noteq> w" and i: "ios s w = Some i" "w_pevents i = 0"
    and z: "w_pevents j = 0" "w_events j = 0"
  shows "loop_ok b (set_io w j s)"
proof -
  note ok' = ok [unfolded loop_ok_def]
  let ?s = "set_io w j s"
  have no_slot: "watchers s ! fd \<noteq> Some w" if "fd < length (watchers s)" for fd
    using ok' that i unfolding ios_ok_def by (metis option.inject)
  have no_queue: "w \<notin> set (watcher_queue s)" using ok' i by (auto simp: ios_ok_def)
  have "ios_ok ?s" using ok' no_slot no_queue z unfolding ios_ok_def by (simp, blast)
  moreover have "polls_ok ?s" using ok' w unfolding polls_ok_def by simp
  moreover have "handles_ok ?s" using ok' by (auto elim!: handles_ok_cong)
  ultimately show ?thesis
    using ok' closing_ok_eq [of ?s s b] kinds_ok_eq [of ?s s] signals_ok_eq [of ?s s] by (simp add: loop_ok_def)
qed

lemma inner_watch_ok:
  assumes ok: "loop_ok b s" and w: "\<forall>h. Io h \<noteq> w" and u: "unused w s" and i: "ios s w = Some i"
    and l: "nat (w_fd i) < length (watchers s) + n" and ev: "ev \<noteq> 0" "ev AND NOT POLL_ALL = 0"
  shows "loop_ok b (watch w i ev n m s)"
proof -
  note ok' = ok [unfolded loop_ok_def]
  let ?s = "watch w i ev n m s"
  have "ios_ok ?s" using ok' by (intro ios_ok_watch [OF _ u i l ev]) simp
  moreover have "polls_ok ?s" using ok' w unfolding polls_ok_def by simp
  moreover have "handles_ok ?s" using ok' by (auto elim!: handles_ok_cong)
  ultimately show ?thesis
    using ok' closing_ok_eq [of ?s s b] kinds_ok_eq [of ?s s] signals_ok_eq [of ?s s] by (simp add: loop_ok_def)
qed

lemma io_start_frame:
  assumes r: "uv__io_start w ev s = Ret s'" and i: "ios s w = Some i"
  shows "handles s' = handles s" "signal_pipefd s' = signal_pipefd s" "\<exists>j. ios s' w = Some j \<and> w_fd j = w_fd i"
proof -
  let ?i1 = "i\<lparr>w_pevents := w_pevents i OR ev\<rparr>"
  from r i obtain s1 where
    s1: "maybe_resize (word_of_int (w_fd i) + 1) (set_io w ?i1 s) = Ret s1"
    and rest: "(if w_events i = w_pevents i OR ev then Ret s1 else let s2 = enqueue_watcher w s1; fd = nat (w_fd i) in
        bnd (rd (watchers s2) fd) (\<lambda>slot. if slot = None then
          Ret (s2\<lparr>watchers := (watchers s2)[fd := Some w], nfds := nfds s2 + 1\<rparr>) else Ret s2)) = Ret s'"
    by (auto simp: uv__io_start_def run_simps Let_def)
  from resize_Ret [OF s1] obtain n m where s1e: "s1 = (set_io w ?i1 s)\<lparr>mem := m, watchers := watchers s @ replicate n None\<rparr>"
    by auto
  have "handles s' = handles s1 \<and> signal_pipefd s' = signal_pipefd s1 \<and> ios s' = ios s1"
    using rest by (auto simp: run_simps Let_def enqueue_watcher_def split: if_splits)
  then show "handles s' = handles s" "signal_pipefd s' = signal_pipefd s" "\<exists>j. ios s' w = Some j \<and> w_fd j = w_fd i"
    by (simp_all add: s1e)
qed

lemma inner_start:
  assumes ok: "loop_ok b s" and w: "\<forall>h. Io h \<noteq> w" and i: "ios s w = Some i" "w_pevents i = 0"
    and free: "0 \<le> fd" "\<not> (nat fd < length (watchers s) \<and> watchers s ! nat fd \<noteq> None)"
    and r: "bnd (uv__io_init w cb fd s) (uv__io_start w ev) = Ret s'"
  shows "loop_ok b s'" "steady s s'" "handles s' = handles s" "handle_queue s' = handle_queue s" "signal_pipefd s' = signal_pipefd s"
    "ios s' = (ios s)(w \<mapsto> \<lparr>w_cb = cb, w_fd = fd, w_events = 0, w_pevents = ev\<rparr>)" "watchers s' \<noteq> []"
    "watcher_handles s' = watcher_handles s" "listed s' = listed s"
    "\<forall>g. g < length (watchers s') \<and> watchers s' ! g \<noteq> None \<longrightarrow> int g = fd \<or> (g < length (watchers s) \<and> watchers s ! g \<noteq> None)"
proof -
  let ?j = "\<lparr>w_cb = cb, w_fd = fd, w_events = 0, w_pevents = 0\<rparr>"
  let ?s = "set_io w ?j s"
  from r have st: "uv__io_start w ev ?s = Ret s'" by (auto simp: uv__io_init_def run_simps)
  have o: "loop_ok b ?s" by (rule inner_io_ok [OF ok w i]) simp_all
  have u: "unused w ?s" using free by (simp add: unused_def)
  have "ios_ok ?s" using o by (simp add: loop_ok_def)
  from io_start_Ret [OF this u _ st] obtain n m where s': "s' = watch w ?j ev n m ?s" "nat fd < length (watchers ?s) + n"
    "ev \<noteq> 0" "ev AND NOT POLL_ALL = 0" by auto
  show "loop_ok b s'" unfolding s'(1) by (rule inner_watch_ok [OF o w u]) (use s' in simp_all)
  show "steady s s'" by (simp add: s'(1) steady_def watch_def)
  show "handles s' = handles s" "handle_queue s' = handle_queue s" "signal_pipefd s' = signal_pipefd s"
    "ios s' = (ios s)(w \<mapsto> \<lparr>w_cb = cb, w_fd = fd, w_events = 0, w_pevents = ev\<rparr>)"
    "watcher_handles s' = watcher_handles s" "listed s' = listed s"
    by (simp_all add: s'(1))
  have ws: "watchers s' = (watchers s @ replicate n None)[nat fd := Some w]" by (simp add: s'(1) watch_def)
  then show "watchers s' \<noteq> []" using s'(2) by auto
  show "\<forall>g. g < length (watchers s') \<and> watchers s' ! g \<noteq> None \<longrightarrow> int g = fd \<or> (g < length (watchers s) \<and> watchers s ! g \<noteq> None)"
  proof (intro allI impI)
    fix g
    assume g: "g < length (watchers s') \<and> watchers s' ! g \<noteq> None"
    show "int g = fd \<or> (g < length (watchers s) \<and> watchers s ! g \<noteq> None)"
    proof (cases "g = nat fd")
      case True
      then show ?thesis using free(1) by simp
    next
      case False
      then have "g < length (watchers s) + n \<and> (watchers s @ replicate n None) ! g \<noteq> None" using g ws by simp
      then show ?thesis by (auto simp: nth_append split: if_splits)
    qed
  qed
qed

section \<open>A handle inside the loop\<close>

text \<open>An internal handle: not active, or active without a reference, in use and not closing.\<close>

definition inner :: "uv_handle_type \<Rightarrow> 'cb option \<Rightarrow> 'cb uv_handle \<Rightarrow> bool" where
  "inner t cb x \<longleftrightarrow> h_type x = t \<and> h_cb x = cb \<and> has (h_flags x) UV_HANDLE_INTERNAL \<and> \<not> uv__has_ref x \<and>
     \<not> uv__is_closing x \<and> \<not> pending x"

lemma make_internal:
  assumes ok: "loop_ok b s" and x: "handles s h = Some x" "\<not> uv__is_closing x" "\<not> pending x"
    and r: "bnd (uv__handle_unref h s) (set_flag h UV_HANDLE_INTERNAL) = Ret s'"
  shows "loop_ok b s'" "steady s s'" "handle_queue s' = handle_queue s" "ios s' = ios s" "watchers s' = watchers s"
    "signal_pipefd s' = signal_pipefd s" "listed s' = listed s" "watcher_handles s' = watcher_handles s"
    "\<exists>y. handles s' = (handles s)(h \<mapsto> y) \<and> inner (h_type x) (h_cb x) y \<and> uv__is_active y = uv__is_active x"
proof -
  have nc: "\<not> has (h_flags x) UV_HANDLE_CLOSING" "\<not> has (h_flags x) UV_HANDLE_CLOSED" using x(2) by (simp_all add: is_closing_iff)
  let ?f = "h_flags x AND NOT UV_HANDLE_REF"
  let ?s1 = "with_flags h x ?f s" and ?x1 = "x\<lparr>h_flags := ?f\<rparr>"
  from r handle_unref_eq [OF x(1)] nc have s2: "set_flag h UV_HANDLE_INTERNAL ?s1 = Ret s'" by simp
  have o1: "loop_ok b ?s1" using flags_loop_ok [OF ok x(1), of ?f] by simp
  have x1: "handles ?s1 h = Some ?x1" by simp
  let ?y = "?x1\<lparr>h_flags := h_flags ?x1 OR UV_HANDLE_INTERNAL\<rparr>"
  have s': "s' = set_handle h ?y ?s1" using s2 x1 by (simp add: set_flag_def with_handle_def)
  have a: "uv__is_active ?y = uv__is_active x" by (simp add: uv__is_active_def)
  have "s' = with_flags h x (?f OR UV_HANDLE_INTERNAL) s"
    by (simp add: s' with_flags_def set_handle_def counts_def uv__has_ref_def uv__is_active_def)
  then show "loop_ok b s'" using flags_loop_ok [OF ok x(1), of "?f OR UV_HANDLE_INTERNAL"] by simp
  show "steady s s'" by (simp add: s' steady_def)
  show "handle_queue s' = handle_queue s" "ios s' = ios s" "watchers s' = watchers s" "signal_pipefd s' = signal_pipefd s"
    "listed s' = listed s" "watcher_handles s' = watcher_handles s" by (simp_all add: s' listed_def)
  have "handles s' = (handles s)(h \<mapsto> ?y)" by (simp add: s')
  moreover have "inner (h_type x) (h_cb x) ?y" using nc x(3)
    by (simp add: inner_def uv__has_ref_def is_closing_iff)
  ultimately show "\<exists>y. handles s' = (handles s)(h \<mapsto> y) \<and> inner (h_type x) (h_cb x) y \<and> uv__is_active y = uv__is_active x"
    using a by blast
qed

text \<open>A call that fails sets errno, and pipe2 returns 0 when it succeeds.\<close>

definition reports_errors :: "kernel \<Rightarrow> bool" where
  "reports_errors k \<longleftrightarrow> (\<forall>h. rv (k h) < 0 \<longrightarrow> errno (k h) \<noteq> 0) \<and> (\<forall>h. rv (k (Pipe # h)) \<le> 0)"

lemma reports_errorsD: "reports_errors k \<Longrightarrow> rv (k h) < 0 \<Longrightarrow> errno (k h) \<noteq> 0"
    "reports_errors k \<Longrightarrow> errno (k (Pipe # t)) = 0 \<Longrightarrow> rv (k (Pipe # t)) = 0"
  unfolding reports_errors_def by (simp, metis order_le_less)

text \<open>The handle that watches for children, with the pipe of the signals.\<close>

lemma process_init_Ret:
  assumes k: "reports_errors k" and ok: "loop_ok b s" and sp: "fst (signal_pipefd s) = -1" and ws: "watchers s = []"
    and i: "ios s Signal_watcher = Some i" "w_pevents i = 0"
    and x: "handles s child_watcher = Some x" "\<not> pending x" "h_cb x = None" "child_watcher \<notin> listed s"
    and r: "uv__process_init k s = Ret (0, s')" and p: "0 \<le> fst (signal_pipefd s')"
  shows "loop_ok b s'" "steady s s'" "handle_queue s' = handle_queue s @ [child_watcher]"
    "\<forall>w. w \<noteq> Signal_watcher \<longrightarrow> ios s' w = ios s w" "watchers s' \<noteq> []" "listed s' = insert child_watcher (listed s)"
    "\<exists>y. handles s' = (handles s)(child_watcher \<mapsto> y) \<and> inner UV_SIGNAL None y \<and> \<not> uv__is_active y"
    "\<forall>g. g < length (watchers s') \<and> watchers s' ! g \<noteq> None \<longrightarrow> int g = fst (signal_pipefd s')"
proof -
  let ?h = child_watcher
  from r obtain s2 where s2: "uv_signal_init k ?h s = Ret (0, s2)"
    and s': "bnd (uv__handle_unref ?h s2) (set_flag ?h UV_HANDLE_INTERNAL) = Ret s'"
    by (auto simp: uv__process_init_def run_simps split: if_splits)
  from s2 obtain s1 where s1: "uv__signal_loop_once_init k s = Ret (0, s1)"
    and init: "bnd (uv__handle_init ?h UV_SIGNAL s1) (with_handle ?h (\<lambda>x s.
       Ret (0, set_handle ?h (x\<lparr>signum := 0, caught_signals := 0, dispatched_signals := 0\<rparr>) s))) = Ret (0, s2)"
    by (auto simp: uv_signal_init_def run_simps split: if_splits)
  let ?fds = "let r = k (Pipe # trace s) in (signed32 (le (take 4 (bytes r))), signed32 (le (take 4 (drop 4 (bytes r)))))"
  let ?t = "s\<lparr>trace := Pipe # trace s, signal_pipefd := ?fds\<rparr>"
  from s1 sp reports_errorsD(2) [OF k, of "trace s"] have st: "bnd (uv__io_init Signal_watcher uv__signal_event (fst ?fds) ?t) (uv__io_start Signal_watcher POLLIN) = Ret s1"
    by (auto simp: uv__signal_loop_once_init_def uv__make_pipe_def Let_def run_simps split: if_splits)
  have o: "loop_ok b ?t" using ok by (rule loop_ok_cong) simp_all
  from s' obtain z where z: "handles s2 ?h = Some z" by (auto simp: uv__handle_unref_def run_simps)
  have w: "\<forall>g. Io g \<noteq> Signal_watcher" by simp
  from st have ge: "-1 \<le> fst ?fds" by (auto simp: uv__io_init_def run_simps)
  have pf1: "signal_pipefd s1 = ?fds" and h1: "handles s1 = handles s"
  proof -
    from st obtain q where q: "uv__io_start Signal_watcher POLLIN (set_io Signal_watcher \<lparr>w_cb = uv__signal_event, w_fd = fst ?fds,
        w_events = 0, w_pevents = 0\<rparr> ?t) = Ret s1" by (auto simp: uv__io_init_def run_simps)
    from io_start_frame [OF q] show "signal_pipefd s1 = ?fds" "handles s1 = handles s" by simp_all
  qed
  let ?y = "x\<lparr>h_type := UV_SIGNAL, h_flags := UV_HANDLE_REF, signum := 0, caught_signals := 0, dispatched_signals := 0\<rparr>"
  have s2e: "s2 = registered ?h ?y s1" using init handle_init_eq [of s1 ?h x UV_SIGNAL] x(1) h1
    by (auto simp: run_simps registered_def set_handle_def)
  have pf: "signal_pipefd s' = ?fds"
    using s' z by (auto simp: uv__handle_unref_def set_flag_def run_simps pf1 s2e registered_def uv__active_handle_rm_def Let_def split: if_splits)
  then have nn: "0 \<le> fst ?fds" using p by simp
  note st1 = inner_start [OF o w _ i(2) nn _ st]
  have i': "ios ?t Signal_watcher = Some i" using i(1) by simp
  have free: "\<not> (nat (fst ?fds) < length (watchers ?t) \<and> watchers ?t ! nat (fst ?fds) \<noteq> None)" using ws by simp
  note st1 = inner_start [OF o w i' i(2) nn free st]
  have l1: "?h \<notin> listed s1" using st1(9) x(4) by (simp add: listed_def)
  have o2: "loop_ok b s2" unfolding s2e
    by (rule registered_ok [OF st1(1)]) (use x(1) h1 l1 in simp_all)
  have y2: "handles s2 ?h = Some ?y" by (simp add: s2e registered_def)
  note mi = make_internal [OF o2 y2 _ _ s']
  have nc: "\<not> uv__is_closing ?y" "\<not> pending ?y" using x(2) by (simp_all add: is_closing_iff)
  note mi = make_internal [OF o2 y2 nc s']
  have sd: "steady s ?t" "steady s1 s2" by (simp_all add: steady_def s2e registered_def)
  show "loop_ok b s'" by (rule mi(1))
  show "steady s s'" using sd st1(2) mi(2) steady_trans by blast
  show "handle_queue s' = handle_queue s @ [?h]" using mi(3) st1(4) by (simp add: s2e registered_def)
  show "\<forall>w. w \<noteq> Signal_watcher \<longrightarrow> ios s' w = ios s w" using mi(4) st1(6) by (simp add: s2e registered_def)
  show "watchers s' \<noteq> []" using mi(5) st1(7) by (simp add: s2e registered_def)
  show "listed s' = insert ?h (listed s)" using mi(7) st1(9) by (auto simp: s2e registered_def listed_def)
  have "h_cb ?y = None" "\<not> uv__is_active ?y" using x by (simp_all add: uv__is_active_def)
  with mi(9) show "\<exists>y. handles s' = (handles s)(?h \<mapsto> y) \<and> inner UV_SIGNAL None y \<and> \<not> uv__is_active y"
    by (auto simp: s2e registered_def h1)
  show "\<forall>g. g < length (watchers s') \<and> watchers s' ! g \<noteq> None \<longrightarrow> int g = fst (signal_pipefd s')"
    using st1(10) mi(5) ws by (simp add: s2e registered_def pf)
qed

text \<open>The handle of the thread pool, with the eventfd that wakes the loop.\<close>

lemma async_init_Ret:
  assumes k: "reports_errors k" and ok: "loop_ok b s" and i: "ios s Async_watcher = Some i" "w_fd i = -1" "w_pevents i = 0"
    and x: "handles s h = Some x" "h \<notin> listed s"
    and r: "uv_async_init k h cb s = Ret (0, s')"
    and e: "ios s' Async_watcher = Some j" "0 \<le> w_fd j \<longrightarrow> \<not> (nat (w_fd j) < length (watchers s) \<and> watchers s ! nat (w_fd j) \<noteq> None)"
  shows "loop_ok b s'" "steady s s'" "handle_queue s' = handle_queue s @ [h]" "watchers s' \<noteq> []"
    "listed s' = insert h (listed s)" "signal_pipefd s' = signal_pipefd s"
    "\<forall>w. w \<noteq> Async_watcher \<longrightarrow> ios s' w = ios s w"
    "\<exists>y. handles s' = (handles s)(h \<mapsto> y) \<and> h_type y = UV_ASYNC \<and> h_cb y = cb \<and> uv__is_active y \<and> \<not> uv__is_closing y \<and> \<not> pending y"
proof -
  let ?fd = "rv (k (Eventfd # trace s))" and ?t = "s\<lparr>trace := Eventfd # trace s\<rparr>"
  from r obtain s1 where s1: "uv__async_start k s = Ret (0, s1)"
    and init: "bnd (uv__handle_init h UV_ASYNC s1) (with_handle h (\<lambda>x s.
       bnd (uv__handle_start h (set_handle h (x\<lparr>h_cb := cb, pending := False, u_fd := 0\<rparr>)
         (s\<lparr>async_handles := async_handles s @ [h]\<rparr>))) (\<lambda>s2. Ret (0, s2)))) = Ret (0, s')"
    by (auto simp: uv_async_init_def run_simps split: if_splits)
  from s1 i reports_errorsD(1) [OF k, of "Eventfd # trace s"] have nn: "0 \<le> ?fd"
    and st: "bnd (uv__io_init Async_watcher uv__async_io ?fd ?t) (uv__io_start Async_watcher POLLIN) = Ret s1"
    by (auto simp: uv__async_start_def with_io_def Let_def run_simps split: if_splits)
  have o: "loop_ok b ?t" using ok by (rule loop_ok_cong) simp_all
  have w: "\<forall>g. Io g \<noteq> Async_watcher" by simp
  have i': "ios ?t Async_watcher = Some i" using i(1) by simp
  from st obtain z where q: "uv__io_start Async_watcher POLLIN (set_io Async_watcher \<lparr>w_cb = uv__async_io, w_fd = ?fd,
        w_events = 0, w_pevents = 0\<rparr> ?t) = Ret s1" by (auto simp: uv__io_init_def run_simps)
  from io_start_frame [OF q] have h1: "handles s1 = handles s" and fd1: "\<exists>j. ios s1 Async_watcher = Some j \<and> w_fd j = ?fd"
    by simp_all
  let ?y = "x\<lparr>h_type := UV_ASYNC, h_flags := UV_HANDLE_REF, h_cb := cb, pending := False, u_fd := 0\<rparr>"
  let ?s2 = "set_handle h ?y (s1\<lparr>handle_queue := handle_queue s1 @ [h], async_handles := async_handles s1 @ [h]\<rparr>)"
  have y2: "handles ?s2 h = Some ?y" by simp
  have s': "s' = with_flags h ?y (h_flags ?y OR UV_HANDLE_ACTIVE) ?s2"
    using init handle_init_eq [of s1 h x UV_ASYNC] x(1) h1 handle_start_eq [OF y2]
    by (auto simp: run_simps registered_def set_handle_def)
  have "w_fd j = ?fd" using fd1 e(1) by (auto simp: s' registered_def)
  then have free: "\<not> (nat ?fd < length (watchers ?t) \<and> watchers ?t ! nat ?fd \<noteq> None)" using e(2) nn by simp
  note st1 = inner_start [OF o w i' i(3) nn free st]
  have sg: "signum x = 0" using unlisted_signum [OF ok x] .
  have l1: "h \<notin> listed s1" using st1(9) x(2) by (simp add: listed_def)
  have "loop_ok b (registered h ?y s1)"
    by (rule registered_ok [OF st1(1)]) (use x(1) h1 l1 sg in simp_all)
  then have o2: "loop_ok b ?s2" by (rule loop_ok_cong) (simp_all add: registered_def)
  have l2: "listed ?s2 = insert h (listed s)" using st1(9) by (auto simp: registered_def listed_def)
  have "closing_ok b s'" unfolding s'
    by (rule closing_ok_handle [OF _ y2]) (use o2 in \<open>simp_all add: loop_ok_def is_closing_iff uv__is_active_def\<close>)
  moreover have "core_ok s'" unfolding s' using o2
    by - (rule flags_other_kind_ok [OF _ y2], simp_all add: loop_ok_core listed_def)
  ultimately show "loop_ok b s'" by (simp add: loop_ok_core)
  have "steady s ?t" "steady s1 s'" by (simp_all add: steady_def s' registered_def)
  then show "steady s s'" using st1(2) steady_trans by blast
  show "handle_queue s' = handle_queue s @ [h]" using st1(4) by (simp add: s' registered_def)
  show "watchers s' \<noteq> []" using st1(7) by (simp add: s' registered_def)
  show "listed s' = insert h (listed s)" using l2 by (simp add: s' listed_def)
  show "signal_pipefd s' = signal_pipefd s" using st1(5) by (simp add: s' registered_def)
  show "\<forall>w. w \<noteq> Async_watcher \<longrightarrow> ios s' w = ios s w" using st1(6) by (simp add: s')
  show "\<exists>y. handles s' = (handles s)(h \<mapsto> y) \<and> h_type y = UV_ASYNC \<and> h_cb y = cb \<and> uv__is_active y \<and> \<not> uv__is_closing y \<and> \<not> pending y"
    by (rule exI [of _ "?y\<lparr>h_flags := h_flags ?y OR UV_HANDLE_ACTIVE\<rparr>"])
      (simp add: s' h1 uv__is_active_def is_closing_iff)
qed

section \<open>A new loop\<close>

lemma zero_loop_ok:
  assumes "handles s = Map.empty" and "ios s = Map.empty"
  shows "loop_ok [] (zero_loop s)"
proof -
  have na: "\<not> uv__is_active (raw_handle :: 'a uv_handle)" by (simp add: raw_handle_def uv__is_active_def)
  have "handles_ok (zero_loop s)" "closing_ok [] (zero_loop s)" "ios_ok (zero_loop s)" "polls_ok (zero_loop s)"
    "kinds_ok (zero_loop s)" "signals_ok (zero_loop s)"
    using assms na
    by (auto simp: zero_loop_def handles_ok_def closing_ok_def ios_ok_def polls_ok_def kinds_ok_def signals_ok_def
        listed_def counted_def counts_def raw_handle_def split: if_splits)
  then show ?thesis by (simp add: loop_ok_def)
qed

text \<open>The kernel gives the pipe of the signals and the eventfd different descriptors.\<close>

definition distinct_descriptors :: "('cb, 'm) uv_loop_scheme \<Rightarrow> bool" where
  "distinct_descriptors s \<longleftrightarrow> 0 \<le> fst (signal_pipefd s) \<and>
     (\<forall>i. ios s Async_watcher = Some i \<longrightarrow> w_fd i \<noteq> fst (signal_pipefd s))"

definition new_loop :: "'cb option \<Rightarrow> ('cb, 'm) uv_loop_scheme \<Rightarrow> ('cb, 'm) uv_loop_scheme \<Rightarrow> bool" where
  "new_loop wq s s' \<longleftrightarrow> (\<exists>x y. handles s' = [child_watcher \<mapsto> x, wq_async \<mapsto> y] \<and> inner UV_SIGNAL None x \<and>
       inner UV_ASYNC wq y) \<and> handle_queue s' = [child_watcher, wq_async] \<and> walk_queue s' = [] \<and> closing_handles s' = [] \<and>
     pending_queue s' = [] \<and> pending_batch s' = [] \<and> timers s' = [] \<and> watcher_batch s' = (\<lambda>_. []) \<and> \<not> stop_flag s' \<and>
     active_reqs s' = 0 \<and> watchers s' \<noteq> [] \<and> (\<forall>h. ios s' (Io h) = None) \<and> uv_loop.more s' = uv_loop.more s"

lemma handle_start_frame: "uv__handle_start h s = Ret s' \<Longrightarrow> signal_pipefd s' = signal_pipefd s \<and> ios s' = ios s"
  by (auto simp: uv__handle_start_def run_simps Let_def uv__active_handle_add_def split: if_splits)

lemma async_init_pipe:
  assumes "uv_async_init k h cb s = Ret (0, s')"
  shows "signal_pipefd s' = signal_pipefd s" "\<exists>j. ios s' Async_watcher = Some j"
proof -
  from assms obtain s1 where s1: "uv__async_start k s = Ret (0, s1)"
    and init: "bnd (uv__handle_init h UV_ASYNC s1) (with_handle h (\<lambda>x s.
       bnd (uv__handle_start h (set_handle h (x\<lparr>h_cb := cb, pending := False, u_fd := 0\<rparr>)
         (s\<lparr>async_handles := async_handles s @ [h]\<rparr>))) (\<lambda>s2. Ret (0, s2)))) = Ret (0, s')"
    by (auto simp: uv_async_init_def run_simps split: if_splits)
  from s1 obtain i where i: "ios s Async_watcher = Some i" by (auto simp: uv__async_start_def run_simps)
  let ?j = "\<lparr>w_cb = uv__async_io, w_fd = rv (k (Eventfd # trace s)), w_events = 0, w_pevents = 0\<rparr>"
    and ?t = "s\<lparr>trace := Eventfd # trace s\<rparr>"
  have "s1 = s \<or> s1 = ?t \<or> uv__io_start Async_watcher POLLIN (set_io Async_watcher ?j ?t) = Ret s1"
    using s1 i by (auto simp: uv__async_start_def with_io_def uv__io_init_def Let_def run_simps split: if_splits)
  then have "signal_pipefd s1 = signal_pipefd s \<and> (\<exists>j. ios s1 Async_watcher = Some j)"
    using i io_start_frame [of Async_watcher POLLIN "set_io Async_watcher ?j ?t" s1 ?j] by auto
  moreover from init obtain x where "handles s1 h = Some x" by (auto simp: uv__handle_init_def run_simps)
  then have "signal_pipefd s' = signal_pipefd s1 \<and> ios s' = ios s1"
    using init handle_init_eq [of s1 h x UV_ASYNC]
    by (auto simp: run_simps registered_def dest!: handle_start_frame)
  ultimately show "signal_pipefd s' = signal_pipefd s" "\<exists>j. ios s' Async_watcher = Some j" by auto
qed

text \<open>The steps of uv_loop_init that returned 0, from the loop with empty rings on.\<close>

lemma loop_init_steps:
  assumes k: "reports_errors k" and r: "uv_loop_new k wq s = Ret (True, s')"
    and s: "handles s = Map.empty" "ios s = Map.empty"
  obtains s3 s4 s5 where "loop_ok [] s3" "steady (zero_loop s) s3"
    "handles s3 = [child_watcher \<mapsto> raw_handle, wq_async \<mapsto> raw_handle]"
    "ios s3 = ios (zero_loop s)" "handle_queue s3 = []" "watchers s3 = []" "signal_pipefd s3 = (-1, -1)"
    "uv__process_init k s3 = Ret (0, s4)" "uv_async_init k wq_async wq s4 = Ret (0, s5)"
    "bnd (uv__handle_unref wq_async s5) (set_flag wq_async UV_HANDLE_INTERNAL) = Ret s'"
proof -
  obtain ok1 m1 where m1: "alloc (mem s) = (ok1, m1)" by fastforce
  obtain ok2 m2 where m2: "alloc m1 = (ok2, m2)" by fastforce
  define z where "z = zero_loop (s\<lparr>mem := m2\<rparr>)"
  define u where "u = uv__update_time k z"
  define s3 where "s3 = u\<lparr>trace := Epoll_create # trace u, backend_fd := rv (k (Epoll_create # trace u))\<rparr>"
  have ini: "uv_loop_init k wq (s\<lparr>mem := m1\<rparr>) = Ret (0, s')"
    using r m1 by (auto simp: uv_loop_new_def run_simps Let_def split: if_splits)
  have zok: "loop_ok [] z" unfolding z_def by (rule zero_loop_ok) (simp_all add: s)
  have zs: "steady (zero_loop s) z" "handles z = [child_watcher \<mapsto> raw_handle, wq_async \<mapsto> raw_handle]"
    "ios z = ios (zero_loop s)" "handle_queue z = []" "watchers z = []" "signal_pipefd z = (-1, -1)"
    by (simp_all add: z_def zero_loop_def steady_def s)
  have us: "steady z s3" "handles s3 = handles z" "ios s3 = ios z" "handle_queue s3 = handle_queue z"
    "watchers s3 = watchers z" "signal_pipefd s3 = signal_pipefd z"
    by (simp_all add: s3_def u_def uv__update_time_def steady_def)
  have o3: "loop_ok [] s3" by (rule loop_ok_cong [OF zok]) (simp_all add: s3_def u_def uv__update_time_def)
  let ?r = "rv (k (Epoll_create # trace u))"
  let ?fail = "\<lambda>s. s\<lparr>mem := if watchers s = [] then dealloc (mem s) else dealloc (dealloc (mem s)), watchers := []\<rparr>"
  have "?r \<noteq> -1" using ini m2 reports_errorsD(1) [OF k, of "Epoll_create # trace u"]
    by (auto simp: uv_loop_init_def Let_def u_def z_def split: if_splits)
  then have "bnd (uv__process_init k s3) (\<lambda>(err, s4).
          if err \<noteq> 0 then Ret (err, ?fail s4)
          else bnd (uv_async_init k wq_async wq s4) (\<lambda>(err, s5).
            if err \<noteq> 0 then bnd (uv__signal_loop_cleanup k s5) (\<lambda>s6. Ret (err, ?fail s6))
            else bnd (uv__handle_unref wq_async s5) (\<lambda>s6.
              bnd (set_flag wq_async UV_HANDLE_INTERNAL s6) (\<lambda>s7. Ret (0, s7))))) = Ret (0, s')"
    using ini m2 by (auto simp: uv_loop_init_def Let_def u_def [symmetric] z_def [symmetric] s3_def [symmetric] split: if_splits)
  then obtain s4 s5 where "uv__process_init k s3 = Ret (0, s4)" "uv_async_init k wq_async wq s4 = Ret (0, s5)"
    "bnd (uv__handle_unref wq_async s5) (set_flag wq_async UV_HANDLE_INTERNAL) = Ret s'"
    by (auto simp: run_simps split: if_splits)
  then show thesis using that [of s3 s4 s5] o3 us zs steady_trans by metis
qed

lemma loop_new_ok:
  assumes k: "reports_errors k" and s: "handles s = Map.empty" "ios s = Map.empty"
    and r: "uv_loop_new k wq s = Ret (True, s')" and d: "distinct_descriptors s'"
  shows "loop_ok [] s'" "new_loop wq s s'"
proof -
  from loop_init_steps [OF k r s] obtain s3 s4 s5 where o3: "loop_ok [] s3" and z: "steady (zero_loop s) s3"
    and h3: "handles s3 = [child_watcher \<mapsto> raw_handle, wq_async \<mapsto> raw_handle]"
    and s3: "ios s3 = ios (zero_loop s)" "handle_queue s3 = []" "watchers s3 = []" "signal_pipefd s3 = (-1, -1)"
    and s4: "uv__process_init k s3 = Ret (0, s4)" and s5: "uv_async_init k wq_async wq s4 = Ret (0, s5)"
    and s7: "bnd (uv__handle_unref wq_async s5) (set_flag wq_async UV_HANDLE_INTERNAL) = Ret s'" by (rule loop_init_steps [OF k r s]) blast
  have ne: "wq_async \<noteq> child_watcher" by (simp add: wq_async_def child_watcher_def)
  have raw: "\<not> pending (raw_handle :: 'a uv_handle)" "h_cb (raw_handle :: 'a uv_handle) = None" by (simp_all add: raw_handle_def)
  obtain j where j: "ios s5 Async_watcher = Some j" using async_init_pipe(2) [OF s5] by blast
  have sig: "signal_pipefd s' = signal_pipefd s5" "ios s' = ios s5"
    using s7 by (auto simp: uv__handle_unref_def set_flag_def run_simps Let_def uv__active_handle_rm_def split: if_splits)
  then have p: "0 \<le> fst (signal_pipefd s4)" and jd: "w_fd j \<noteq> fst (signal_pipefd s4)"
    using d async_init_pipe(1) [OF s5] j by (simp_all add: distinct_descriptors_def)
  have w0: "walk_queue s3 = []" "closing_handles s3 = []" "pending_queue s3 = []" "pending_batch s3 = []" "timers s3 = []"
    "watcher_batch s3 = (\<lambda>_. [])" "uv_loop.more s3 = uv_loop.more s" "\<not> stop_flag s3" "active_reqs s3 = 0"
    using z by (simp_all add: steady_def zero_loop_def)
  have l3: "listed s3 = {}" using s3 w0 by (simp add: listed_def)
  have i3: "ios s3 Signal_watcher = Some \<lparr>w_cb = uv__signal_event, w_fd = 0, w_events = 0, w_pevents = 0\<rparr>"
      "ios s3 Async_watcher = Some \<lparr>w_cb = uv__async_io, w_fd = -1, w_events = 0, w_pevents = 0\<rparr>"
    by (simp_all add: s3 zero_loop_def)
  have c3: "handles s3 child_watcher = Some raw_handle" using ne by (simp add: h3)
  have sp: "fst (signal_pipefd s3) = -1" by (simp add: s3)
  have pe: "w_pevents \<lparr>w_cb = uv__signal_event, w_fd = 0, w_events = 0, w_pevents = 0\<rparr> = 0" by simp
  have n3: "child_watcher \<notin> listed s3" by (simp add: l3)
  note p4 = process_init_Ret [OF k o3 sp s3(3) i3(1) pe c3 raw n3 s4 p]
  obtain x where x: "handles s4 = (handles s3)(child_watcher \<mapsto> x)" "inner UV_SIGNAL None x" using p4(7) by blast
  have c4: "handles s4 wq_async = Some raw_handle" using ne by (simp add: x(1) h3)
  have n4: "wq_async \<notin> listed s4" using ne by (simp add: p4(6) l3)
  have i4: "ios s4 Async_watcher = Some \<lparr>w_cb = uv__async_io, w_fd = -1, w_events = 0, w_pevents = 0\<rparr>"
    by (simp add: p4(4) i3)
  have ae: "w_fd \<lparr>w_cb = uv__async_io, w_fd = -1, w_events = 0, w_pevents = 0\<rparr> = -1"
    "w_pevents \<lparr>w_cb = uv__async_io, w_fd = -1, w_events = 0, w_pevents = 0\<rparr> = 0" by simp_all
  have free: "0 \<le> w_fd j \<longrightarrow> \<not> (nat (w_fd j) < length (watchers s4) \<and> watchers s4 ! nat (w_fd j) \<noteq> None)"
    using p4(8) jd by force
  note p5 = async_init_Ret [OF k p4(1) i4 ae c4 n4 s5 j free]
  obtain y where y: "handles s5 = (handles s4)(wq_async \<mapsto> y)" "h_type y = UV_ASYNC" "h_cb y = wq" "uv__is_active y"
    "\<not> uv__is_closing y" "\<not> pending y" using p5(8) by blast
  have y5: "handles s5 wq_async = Some y" by (simp add: y(1))
  note p7 = make_internal [OF p5(1) y5 y(5,6) s7]
  show "loop_ok [] s'" by (rule p7(1))
  have st: "steady s3 s'" using p4(2) p5(2) p7(2) steady_trans by blast
  obtain y' where y': "handles s' = (handles s5)(wq_async \<mapsto> y')" "inner UV_ASYNC wq y'" using p7(9) y by auto
  have "handles s' = [child_watcher \<mapsto> x, wq_async \<mapsto> y']" using ne by (simp add: y' y(1) x(1) h3 fun_eq_iff)
  moreover have "ios s' (Io g) = None" for g
    using sig(2) p5(7) p4(4) by (simp add: s3 zero_loop_def s)
  ultimately show "new_loop wq s s'" unfolding new_loop_def using x(2) y'(2) st w0 p7(3,5) p5(3,4) p4(3) s3(2)
    by (auto simp: steady_def)
qed

end
