(* ===== verification/Watcher_Start.thy ===== *)
theory Watcher_Start
  imports Watcher_Exit Uv_Start
begin

text \<open>
  The part of main before uv_run: the loop that uv_loop_new made, with the handles that start_watch and
  start_clients put on it, satisfies the invariants.
\<close>

section \<open>The state while main sets up\<close>

text \<open>The handles from \<open>h\<close> on are not yet in use.\<close>

definition set_up :: "nat \<Rightarrow> watcher \<Rightarrow> bool" where
  "set_up h s \<longleftrightarrow> loop_ok [] s \<and> watcher_ok s \<and> 0 \<le> fst (signal_pipefd s) \<and> (\<forall>n. watcher_batch s n = []) \<and>
     next_block s = FIRST_BLOCK \<and> (\<forall>g. h \<le> g \<longrightarrow> handles s g = None \<and> ios s (Io g) = None)"

lemma new_loop_set_up:
  assumes l: "loop_ok [] s" "new_loop (Some Work_done) s0 s" "distinct_descriptors s"
    and w: "buffers s = Map.empty" "next_block s = FIRST_BLOCK" "clients s = []" "clients_count s = 0"
  shows "set_up idle_handle s"
proof -
  note n = l(2) [unfolded new_loop_def]
  from n obtain x y where h: "handles s = [child_watcher \<mapsto> x, wq_async \<mapsto> y]" "inner UV_SIGNAL None x"
    "inner UV_ASYNC (Some Work_done) y" by blast
  have ad: "child_watcher < idle_handle" "wq_async < idle_handle" "\<not> FIRST_BLOCK \<le> child_watcher" "\<not> FIRST_BLOCK \<le> wq_async"
    by (simp_all add: addresses child_watcher_def wq_async_def)
  have r: "role child_watcher x" "role wq_async y" using h(2,3)
    by (simp_all add: role_def inner_def addresses child_watcher_def wq_async_def)
  have "holders s a = {}" for a using h by (auto simp: holders_def holds_def inner_def split: if_splits)
  then have "buffers_ok None s" using w by - (rule buffers_okI, simp_all)
  moreover have "quiet s" using n h by (auto simp: quiet_def inner_def)
  moreover have "roles_ok s" using h(1) r by (auto simp: roles_ok_def split: if_splits)
  moreover have "fresh_ok s" using h(1) w ad by (auto simp: fresh_ok_def)
  moreover have "idle_up s" using h(1) by (auto simp: idle_up_def addresses child_watcher_def wq_async_def)
  moreover have "clients_ok s" using w by (simp add: clients_ok_def connected_def)
  ultimately have "watcher_ok s" using n by (simp add: watcher_ok_def base_ok_def)
  then show ?thesis using l n w h(1) ad by (auto simp: set_up_def distinct_descriptors_def)
qed

text \<open>One more handle, or a change of one, that holds no buffer.\<close>

lemma base_ok_grow:
  assumes ok: "base_ok own s" and h: "handles s' = (handles s)(h \<mapsto> y)" "listed s \<subseteq> listed s'" "listed s' \<subseteq> insert h (listed s)"
    and y: "h \<in> listed s' \<Longrightarrow> role h y" "\<not> pending y" "h < FIRST_BLOCK"
    and q: "next_block s' = next_block s" "buffers s' = buffers s" "watchers s' \<noteq> []" "pending_queue s' = pending_queue s"
      "pending_batch s' = pending_batch s" "timers s' = timers s"
  shows "base_ok own s'"
proof -
  note b = ok [unfolded base_ok_def]
  have "\<not> holds a x" if "role h x" for a x using that y(3) by (auto simp: role_def holds_def split: if_splits)
  then have ho: "holders s' a = holders s a" for a
    using h y(1) b by (auto simp: holders_def roles_ok_def split: if_splits)
  have "quiet s'" using b h y q by (auto simp: quiet_def)
  moreover have "roles_ok s'" using b h y by (auto simp: roles_ok_def)
  moreover have "buffers_ok own s'" using b ho q by - (rule buffers_ok_same [of own s], simp_all)
  moreover have "fresh_ok s'" using b h y q by (auto simp: fresh_ok_def)
  ultimately show ?thesis using q by (simp add: base_ok_def)
qed

lemma watcher_ok_grow:
  assumes ok: "watcher_ok s" and h: "handles s' = (handles s)(h \<mapsto> y)" "listed s \<subseteq> listed s'" "listed s' \<subseteq> insert h (listed s)"
    and y: "h \<in> listed s' \<Longrightarrow> role h y" "\<not> pending y" "h < FIRST_BLOCK"
    and up: "h = idle_handle \<Longrightarrow> \<not> uv__is_closing y"
      "h = poll_handle \<Longrightarrow> h \<in> listed s' \<Longrightarrow> \<exists>z. handles s idle_handle = Some z \<and> idle_handle \<in> listed s \<and> \<not> uv__is_closing z"
    and q: "watchers s' \<noteq> []" "pending_queue s' = pending_queue s" "pending_batch s' = pending_batch s" "timers s' = timers s"
      "walk_queue s' = []" "uv_loop.more s' = uv_loop.more s"
  shows "watcher_ok s'"
proof -
  note w = ok [unfolded watcher_ok_def] and mf = more_fields [OF q(6)]
  have "base_ok None s'" by (rule base_ok_grow [OF _ h y mf(4,3) q(1-4)]) (use w in simp_all)
  moreover have "idle_up s'"
    unfolding idle_up_def
  proof (intro allI impI)
    fix x
    assume x: "handles s' poll_handle = Some x \<and> poll_handle \<in> listed s' \<and> \<not> uv__is_closing x"
    have ne: "poll_handle \<noteq> idle_handle" by (simp add: addresses)
    show "\<exists>y. handles s' idle_handle = Some y \<and> idle_handle \<in> listed s' \<and> \<not> uv__is_closing y"
    proof (cases "h = poll_handle")
      case True
      then show ?thesis using up(2) h ne x by auto
    next
      case False
      then have "handles s poll_handle = Some x \<and> poll_handle \<in> listed s \<and> \<not> uv__is_closing x" using x h by auto
      with w obtain z where "handles s idle_handle = Some z" "idle_handle \<in> listed s" "\<not> uv__is_closing z"
        unfolding idle_up_def by blast
      then show ?thesis using h up(1) by auto
    qed
  qed
  ultimately show ?thesis using w q mf by (simp add: watcher_ok_def clients_ok_def connected_def)
qed

text \<open>Memory for a handle on the stack of main.\<close>

lemma stack_ok:
  assumes st: "set_up h s" and h: "h < FIRST_BLOCK" and s1: "s1 = stack_handle h s"
  shows "loop_ok [] s1" "watcher_ok s1" "h \<notin> listed s1" "handles s1 h = Some raw_handle" "ios s1 (Io h) = None"
    "signal_pipefd s1 = signal_pipefd s" "listed s1 = listed s" "\<forall>g. g \<noteq> h \<longrightarrow> handles s1 g = handles s g"
    "next_block s1 = next_block s" "watcher_batch s1 = watcher_batch s"
    "\<forall>g. Suc h \<le> g \<longrightarrow> handles s1 g = None \<and> ios s1 (Io g) = None"
proof -
  note u = st [unfolded set_up_def]
  have n: "handles s h = None" using u by simp
  have m: "uv_loop.more s1 = uv_loop.more s" by (simp add: s1 stack_handle_def)
  from alloc_handle_ok [of "[]" s h s1] u n show o: "loop_ok [] s1" and nl: "h \<notin> listed s1"
    by (simp_all add: s1 stack_handle_def listed_def)
  show l: "listed s1 = listed s" by (simp add: s1 stack_handle_def listed_def)
  have w: "watcher_ok s" and sub: "listed s \<subseteq> insert h (listed s)" using u by auto
  show "watcher_ok s1"
    by (rule watcher_ok_grow [OF w, of s1 h raw_handle])
      (use l nl h u n sub in \<open>simp_all add: s1 stack_handle_def raw_handle_def is_closing_iff watcher_ok_def base_ok_def\<close>)
  show "handles s1 h = Some raw_handle" "ios s1 (Io h) = None" "signal_pipefd s1 = signal_pipefd s"
    "\<forall>g. g \<noteq> h \<longrightarrow> handles s1 g = handles s g" "next_block s1 = next_block s" "watcher_batch s1 = watcher_batch s"
    "\<forall>g. Suc h \<le> g \<longrightarrow> handles s1 g = None \<and> ios s1 (Io g) = None"
    using u by (simp_all add: s1 stack_handle_def)
qed

section \<open>A poll handle of main\<close>

text \<open>uv_poll_init that failed leaves memory that was never a handle, on which uv_poll_start does not
  return; main does not look at the result of either.\<close>

lemma poll_start_stuck: "ios s (Io h) = None \<Longrightarrow> uv_poll_start k h pev cb s \<noteq> Ret r"
  by (cases r) (auto simp: uv_poll_start_def run_simps)

lemma poll_up:
  assumes o: "loop_ok [] s" "watcher_ok s" and h: "handles s h = Some x" "h \<notin> listed s" "ios s (Io h) = None"
      "h = poll_handle \<and> cb = On_fs_event \<or> h = unix_domain_poll_handle \<and> cb = On_connection"
    and up: "h = poll_handle \<Longrightarrow> \<exists>z. handles s idle_handle = Some z \<and> idle_handle \<in> listed s \<and> \<not> uv__is_closing z"
    and x: "\<not> pending x" and fd: "fd \<noteq> -1" "fd < 2 ^ 31"
    and r: "uv_poll_init k h fd s = Ret (err, s1)" "set_fd h f s1 = Ret s2"
      "uv_poll_start k h UV_READABLE (Some cb) s2 = Ret (e, s3)"
  shows "loop_ok [] s3" "watcher_ok s3" "signal_pipefd s3 = signal_pipefd s" "watcher_batch s3 = watcher_batch s"
    "next_block s3 = next_block s" "\<forall>g. g \<noteq> h \<longrightarrow> handles s3 g = handles s g \<and> ios s3 (Io g) = ios s (Io g)" "h \<in> listed s3"
proof -
  from poll_init_Ret [OF r(1)] obtain us where
    "(err \<noteq> 0 \<and> s1 = traced us s) \<or> (err = 0 \<and> \<not> uv__fd_exists fd s \<and> 
       s1 = registered h (poll_shape x) (set_io (Io h) (idle_io fd) (traced us s)))" using h(1) by auto
  moreover have "s1 \<noteq> traced us s"
  proof
    assume "s1 = traced us s"
    then have "ios s2 (Io h) = None" using r(2) h by (auto simp: set_fd_def run_simps)
    then show False using r(3) poll_start_stuck by blast
  qed
  ultimately have s1: "s1 = registered h (poll_shape x) (set_io (Io h) (idle_io fd) (traced us s))" and e0: "err = 0" by auto
  have nn: "0 \<le> fd" using poll_init_fd [of k h fd s s1] r(1) e0 fd(1) by simp
  have o1: "loop_ok [] s1" by (rule poll_init_ok [OF o(1) r(1) h(2) nn])
  let ?y = "(poll_shape x)\<lparr>u_fd := f\<rparr>"
  have y1: "handles s1 h = Some (poll_shape x)" by (simp add: s1 registered_def)
  have s2: "s2 = set_handle h ?y s1" using r(2) y1 by (simp add: set_fd_def with_handle_def)
  have o2: "loop_ok [] s2" unfolding s2 by (rule loop_ok_set [OF o1 y1]) simp_all
  note w = o(2) [unfolded watcher_ok_def base_ok_def]
  have l2: "listed s2 = insert h (listed s)" by (auto simp: s2 s1 registered_def listed_def traced_def)
  have rd: "poll_ready h ?y (idle_io fd) s2" using nn w l2
    by (simp add: poll_ready_def s2 s1 registered_def poll_shape_def idle_io_def traced_def)
  have small: "w_fd (idle_io fd) < 2 ^ 32" using fd by (simp add: idle_io_def)
  show "loop_ok [] s3" by (rule poll_start_ok [OF o2 rd small r(3)])
  have hb: "h < FIRST_BLOCK" "h \<noteq> idle_handle" "idle_handle \<le> h" using h(4) by (auto simp: addresses)
  have ad: "poll_handle \<noteq> unix_domain_poll_handle" "\<not> FIRST_BLOCK \<le> h" "\<not> h < idle_handle" using hb by (simp_all add: addresses)
  have same: "s3 = s2 \<or> (\<exists>p q. s3 = poll_started h ?y (idle_io fd) (poll_events UV_READABLE) (Some cb) p q s2)"
    using poll_start_Ret [OF _ rd small r(3)] o2 by (auto simp: loop_ok_def)
  have m2: "uv_loop.more s2 = uv_loop.more s" by (simp add: s2 s1 registered_def traced_def)
  then have m: "uv_loop.more s3 = uv_loop.more s" using same by (elim disjE exE) simp_all
  have other: "handles s2 g = handles s g \<and> ios s2 (Io g) = ios s (Io g)" if "g \<noteq> h" for g using that by (simp add: s2 s1 registered_def)
  have oth: "ios (poll_started h ?y (idle_io fd) ev cb' p q s2) (Io g) = ios s2 (Io g)" if "g \<noteq> h" for g ev cb' p q
    using that unwatch_ios [of "Io g" "Io h"] by (simp add: poll_started_def Let_def)
  show "signal_pipefd s3 = signal_pipefd s" "watcher_batch s3 = watcher_batch s"
    using same by (elim disjE exE; simp add: s2 s1 registered_def traced_def poll_started_def Let_def)+
  show "next_block s3 = next_block s" using more_fields(4) [OF m] .
  show "\<forall>g. g \<noteq> h \<longrightarrow> handles s3 g = handles s g \<and> ios s3 (Io g) = ios s (Io g)"
  proof (intro allI impI)
    fix g
    assume g: "g \<noteq> h"
    from same show "handles s3 g = handles s g \<and> ios s3 (Io g) = ios s (Io g)"
    proof (elim disjE exE)
      fix p q
      assume e: "s3 = poll_started h ?y (idle_io fd) (poll_events UV_READABLE) (Some cb) p q s2"
      have "handles s3 g = handles s2 g" using g by (simp add: e)
      moreover have "ios s3 (Io g) = ios s2 (Io g)" unfolding e by (rule oth [OF g])
      ultimately show ?thesis using other [OF g] by simp
    qed (use other [OF g] in simp)
  qed
  have "handle_queue s3 = handle_queue s2 \<and> walk_queue s3 = walk_queue s2" using same by (elim disjE exE) simp_all
  then have l3: "listed s3 = insert h (listed s)" using l2 by (simp add: listed_def)
  then show "h \<in> listed s3" by simp
  obtain z where z: "handles s3 = (handles s)(h \<mapsto> z)" "h_type z = UV_POLL" "\<not> has (h_flags z) UV_HANDLE_INTERNAL"
    "\<not> uv__is_closing z" "\<not> pending z" "h_cb z \<in> {None, Some cb}"
  proof -
    have "handles s2 = (handles s)(h \<mapsto> ?y)" by (simp add: s2 s1 registered_def)
    note y = this
    from same show thesis
    proof (elim disjE exE)
      assume "s3 = s2"
      then show thesis using y x by (intro that [of ?y]) (simp_all add: poll_shape_def is_closing_iff)
    next
      fix p q
      assume e: "s3 = poll_started h ?y (idle_io fd) (poll_events UV_READABLE) (Some cb) p q s2"
      let ?z = "?y\<lparr>h_flags := (h_flags ?y AND NOT UV_HANDLE_ACTIVE) OR UV_HANDLE_ACTIVE, h_cb := Some cb\<rparr>"
      have "handles s3 = (handles s)(h \<mapsto> ?z)" unfolding e poll_started_simps(1) y by simp
      then show thesis using x by (intro that [of ?z]) (simp_all add: poll_shape_def is_closing_iff)
    qed
  qed
  have ro: "role h z" using h(4)
  proof (elim disjE conjE)
    assume "h = poll_handle" "cb = On_fs_event"
    then show ?thesis using z(2,3,4,6) by (simp add: role_def addresses)
  next
    assume "h = unix_domain_poll_handle" "cb = On_connection"
    then show ?thesis using z(2,3,4,6) by (simp add: role_def addresses)
  qed
  have q: "pending_queue s3 = pending_queue s" "pending_batch s3 = pending_batch s" "timers s3 = timers s" "walk_queue s3 = walk_queue s"
    using same by (elim disjE exE; simp add: s2 s1 registered_def traced_def)+
  have "length (watchers s2) = length (watchers s)" by (simp add: s2 s1 registered_def traced_def)
  then have "length (watchers s) \<le> length (watchers s3)" using same by (elim disjE exE) simp_all
  then have wn: "watchers s3 \<noteq> []" using w by auto
  show "watcher_ok s3"
    by (rule watcher_ok_grow [OF o(2) z(1)]) (use l3 ro z(4,5) hb(1,2) up q wn w m in \<open>simp_all add: subset_insertI\<close>)
qed

lemma start_watch_ok:
  assumes st: "set_up idle_handle s" and fd: "fd \<noteq> -1" "fd < 2 ^ 31" and r: "start_watch k fd s = Ret s'"
  shows "set_up unix_domain_poll_handle s'"
proof -
  have ad: "idle_handle < FIRST_BLOCK" "poll_handle < FIRST_BLOCK" "Suc idle_handle = poll_handle" "Suc poll_handle = unix_domain_poll_handle"
    "idle_handle \<noteq> poll_handle" by (simp_all add: addresses)
  from r obtain s1 s2 s3 err e where s1: "uv_watcher_init Idle idle_handle (stack_handle idle_handle s) = Ret s1"
    and s2: "uv_poll_init k poll_handle fd (stack_handle poll_handle s1) = Ret (err, s2)" and s3: "set_fd poll_handle fd s2 = Ret s3"
    and s4: "uv_poll_start k poll_handle UV_READABLE (Some On_fs_event) s3 = Ret (e, s')"
    by (auto simp: start_watch_def run_simps)
  let ?a = "stack_handle idle_handle s"
  note a = stack_ok [OF st ad(1) refl]
  have o1: "loop_ok [] s1" by (rule watcher_init_ok [OF a(1) s1 a(3)])
  let ?y = "raw_handle\<lparr>h_type := UV_IDLE, h_flags := UV_HANDLE_REF, h_cb := None\<rparr> :: watcher_cb uv_handle"
  have s1e: "s1 = registered idle_handle ?y ?a"
    using s1 handle_init_eq [OF a(4), of "watcher_type Idle"]
    by (auto simp: uv_watcher_init_def run_simps registered_def set_handle_def)
  note wa = a(2) [unfolded watcher_ok_def base_ok_def]
  have m: "uv_loop.more s1 = uv_loop.more ?a" by (simp add: s1e registered_def)
  have l: "listed s1 = insert idle_handle (listed ?a)" by (auto simp: s1e registered_def listed_def)
  have "role idle_handle ?y" by (simp add: role_def addresses is_closing_iff)
  then have w1: "watcher_ok s1"
    by - (rule watcher_ok_grow [OF a(2), of s1 idle_handle ?y],
      use l wa ad m in \<open>auto simp: s1e registered_def is_closing_iff raw_handle_def\<close>)
  note u = st [unfolded set_up_def]
  have st1: "set_up poll_handle s1"
    using o1 w1 u a(6,9,10,11) ad more_fields(4) [OF m] by (auto simp: set_up_def s1e registered_def)
  let ?b = "stack_handle poll_handle s1"
  note b = stack_ok [OF st1 ad(2) refl]
  have up: "\<exists>z. handles ?b idle_handle = Some z \<and> idle_handle \<in> listed ?b \<and> \<not> uv__is_closing z"
    using b(7,8) ad l by (auto simp: s1e registered_def is_closing_iff)
  have np: "\<not> pending (raw_handle :: watcher_cb uv_handle)" by (simp add: raw_handle_def)
  note p = poll_up [OF b(1,2) b(4,3,5) _ up np fd s2 s3 s4]
  show ?thesis using p b(6,9,10,11) st1 ad by (auto simp: set_up_def)
qed

section \<open>The handle of SIGINT\<close>

lemma signal_up:
  assumes o: "loop_ok [] s" "watcher_ok s" and h: "handles s sigint_handle = Some x" "sigint_handle \<notin> listed s"
    and x: "\<not> pending x" "h_cb x = None" and pipe: "0 \<le> fst (signal_pipefd s)"
    and r: "uv_signal_init k sigint_handle s = Ret (err, s1)"
      "uv_signal_start k sigint_handle (Some On_sigint) SIGINT s1 = Ret (e, s2)"
  shows "loop_ok [] s2" "watcher_ok s2" "signal_pipefd s2 = signal_pipefd s" "watcher_batch s2 = watcher_batch s"
    "next_block s2 = next_block s" "\<forall>g. g \<noteq> sigint_handle \<longrightarrow> handles s2 g = handles s g \<and> ios s2 (Io g) = ios s (Io g)"
proof -
  let ?h = sigint_handle
  have pn: "fst (signal_pipefd s) \<noteq> -1" using pipe by simp
  let ?y = "x\<lparr>h_type := UV_SIGNAL, h_flags := UV_HANDLE_REF, signum := 0, caught_signals := 0, dispatched_signals := 0\<rparr>"
  have o1: "loop_ok [] s1" by (rule signal_init_ok [OF o(1) r(1) h(2) pn])
  have s1: "s1 = registered ?h ?y s"
    using r(1) pn handle_init_eq [OF h(1), of UV_SIGNAL]
    by (auto simp: uv_signal_init_def uv__signal_loop_once_init_def run_simps registered_def set_handle_def)
  have y1: "handles s1 ?h = Some ?y" by (simp add: s1 registered_def)
  have l1: "listed s1 = insert ?h (listed s)" by (auto simp: s1 registered_def listed_def)
  show "loop_ok [] s2" by (rule signal_start_ok [OF o1 r(2) y1]) (simp_all add: l1)
  have hb: "?h < FIRST_BLOCK" "?h \<noteq> idle_handle" "?h \<noteq> poll_handle" "?h \<noteq> unix_domain_poll_handle" "\<not> ?h < idle_handle"
    by (simp_all add: addresses)
  let ?z = "?y\<lparr>signum := SIGINT, h_cb := Some On_sigint, h_flags := h_flags ?y OR UV_HANDLE_ACTIVE\<rparr>"
  from signal_start_Ret [OF r(2) y1] obtain us tree where
    same: "s2 = traced us s1 \<or> s2 = signalled ?h ?y (Some On_sigint) SIGINT tree us s1" by auto
  have hs: "handles s1 = (handles s)(?h \<mapsto> ?y)" by (simp add: s1 registered_def)
  have shape: "handles s2 = (handles s)(?h \<mapsto> z) \<Longrightarrow> h_type z = UV_SIGNAL \<Longrightarrow> h_cb z \<in> {None, Some On_sigint} \<Longrightarrow>
      \<not> uv__is_closing z \<Longrightarrow> \<not> pending z \<Longrightarrow> \<not> has (h_flags z) UV_HANDLE_INTERNAL \<Longrightarrow> watcher_ok s2" for z
  proof -
    assume z: "handles s2 = (handles s)(?h \<mapsto> z)" "h_type z = UV_SIGNAL" "h_cb z \<in> {None, Some On_sigint}"
      "\<not> uv__is_closing z" "\<not> pending z" "\<not> has (h_flags z) UV_HANDLE_INTERNAL"
    have ro: "role ?h z" using z(2-4,6) hb by (simp add: role_def)
    note w = o(2) [unfolded watcher_ok_def base_ok_def]
    have f: "handle_queue s2 = handle_queue s1 \<and> walk_queue s2 = walk_queue s1 \<and> watchers s2 = watchers s1 \<and>
      pending_queue s2 = pending_queue s1 \<and> pending_batch s2 = pending_batch s1 \<and> timers s2 = timers s1 \<and>
      uv_loop.more s2 = uv_loop.more s1"
      using same by (elim disjE) (simp_all add: traced_def signalled_def)
    then have l: "listed s2 = insert ?h (listed s)" using l1 by (simp add: listed_def)
    show ?thesis
      by (rule watcher_ok_grow [OF o(2) z(1)])
        (use ro z(5) hb f w l in \<open>simp_all add: subset_insertI s1 registered_def\<close>)
  qed
  from same show "watcher_ok s2"
  proof
    assume "s2 = traced us s1"
    then have "handles s2 = (handles s)(?h \<mapsto> ?y)" by (simp add: hs)
    then show ?thesis by (rule shape) (use x in \<open>simp_all add: is_closing_iff\<close>)
  next
    assume e: "s2 = signalled ?h ?y (Some On_sigint) SIGINT tree us s1"
    have "handles s2 = (handles s)(?h \<mapsto> ?z)" by (simp add: e signalled_def traced_def hs)
    then show ?thesis by (rule shape) (use x in \<open>simp_all add: is_closing_iff\<close>)
  qed
  show "signal_pipefd s2 = signal_pipefd s" "watcher_batch s2 = watcher_batch s"
    using same by (elim disjE; simp add: s1 registered_def traced_def signalled_def)+
  have "uv_loop.more s2 = uv_loop.more s" using same by (elim disjE) (simp_all add: s1 registered_def traced_def signalled_def)
  then show "next_block s2 = next_block s" by (rule more_fields)
  show "\<forall>g. g \<noteq> ?h \<longrightarrow> handles s2 g = handles s g \<and> ios s2 (Io g) = ios s (Io g)"
    using same by (elim disjE) (simp_all add: s1 registered_def traced_def signalled_def)
qed

lemma start_clients_ok:
  assumes st: "set_up unix_domain_poll_handle s" and fd: "listenfd \<noteq> -1" "listenfd < 2 ^ 31"
    and r: "start_clients k listenfd s = Ret s'"
  shows "set_up FIRST_BLOCK s'"
proof -
  let ?h = unix_domain_poll_handle
  have ad: "?h < FIRST_BLOCK" "sigint_handle < FIRST_BLOCK" "Suc ?h = sigint_handle" "Suc sigint_handle = FIRST_BLOCK"
    "?h \<noteq> idle_handle" "?h \<noteq> poll_handle" by (simp_all add: addresses)
  from r obtain s1 s2 s3 s4 err e err' e' where s1: "set_fd ?h listenfd (stack_handle ?h s) = Ret s1"
    and s2: "uv_poll_init k ?h listenfd s1 = Ret (err, s2)"
    and s3: "uv_poll_start k ?h UV_READABLE (Some On_connection) s2 = Ret (e, s3)"
    and s4: "uv_signal_init k sigint_handle (stack_handle sigint_handle s3) = Ret (err', s4)"
    and s5: "uv_signal_start k sigint_handle (Some On_sigint) SIGINT s4 = Ret (e', s')"
    by (auto simp: start_clients_def run_simps)
  let ?a = "stack_handle ?h s" and ?x = "raw_handle\<lparr>u_fd := listenfd\<rparr> :: watcher_cb uv_handle"
  note a = stack_ok [OF st ad(1) refl]
  have s1e: "s1 = set_handle ?h ?x ?a" using s1 a(4) by (simp add: set_fd_def with_handle_def)
  have o1: "loop_ok [] s1" unfolding s1e by (rule loop_ok_set [OF a(1,4)]) simp_all
  have l1: "listed s1 = listed ?a" by (simp add: s1e listed_def)
  note wa = a(2) [unfolded watcher_ok_def base_ok_def]
  have w1: "watcher_ok s1"
    by (rule watcher_ok_grow [OF a(2), of s1 ?h ?x])
      (use l1 a(3) wa ad subset_insertI in \<open>simp_all add: s1e raw_handle_def\<close>)
  obtain z where z: "handles s2 ?h = Some z" using s3 by (auto simp: uv_poll_start_def run_simps)
  then have s2e: "set_fd ?h (u_fd z) s2 = Ret s2"
    by (simp add: set_fd_def with_handle_def set_handle_def map_upd_triv)
  have x1: "handles s1 ?h = Some ?x" "?h \<notin> listed s1" "ios s1 (Io ?h) = None" "\<not> pending ?x"
    using a(3,5) l1 by (simp_all add: s1e raw_handle_def)
  note p = poll_up [OF o1 w1 x1(1-3) _ _ x1(4) fd s2 s2e s3]
  have m1: "uv_loop.more s1 = uv_loop.more ?a" by (simp add: s1e)
  have "next_block s3 = FIRST_BLOCK" using p(5) more_fields(4) [OF m1] a(9) st ad by (simp add: set_up_def)
  then have st3: "set_up sigint_handle s3"
    using p(1-4,6) a(6,10,11) st ad by (auto simp: set_up_def s1e)
  note b = stack_ok [OF st3 ad(2) refl]
  have np: "\<not> pending (raw_handle :: watcher_cb uv_handle)" "h_cb (raw_handle :: watcher_cb uv_handle) = None"
    by (simp_all add: raw_handle_def)
  have pipe: "0 \<le> fst (signal_pipefd (stack_handle sigint_handle s3))" using b(6) st3 by (simp add: set_up_def)
  note q = signal_up [OF b(1,2,4,3) np pipe s4 s5]
  show ?thesis using q b(6,9,10,11) st3 ad unfolding set_up_def by auto
qed

end
