(* ===== verification/Watcher_Live.thy ===== *)
theory Watcher_Live
  imports Watcher_Start
begin

text \<open>
  What becomes of the loop once every handle of the program is closing: the closing phase of the
  iteration returns and empties the queue of handles, after which the loop is not alive and
  uv_loop_close does not find it busy.
\<close>

section \<open>The end of one handle\<close>

lemma finish_one:
  assumes ok: "loop_ok (h # hs) s" "watcher_ok s"
  shows "\<exists>s'. uv__finish_close (run_callback k stack) h s = Ret s' \<and> loop_ok hs s' \<and> watcher_ok s' \<and>
    active_reqs s' = active_reqs s \<and>
    (((\<exists>x. handles s h = Some x \<and> delayed x) \<and> s' = s\<lparr>closing_handles := h # closing_handles s\<rparr>) \<or>
     (listed s' = listed s - {h} \<and> (\<forall>g. g \<noteq> h \<longrightarrow> handles s' g = handles s g) \<and> closing_handles s' = closing_handles s))"
proof -
  have c: "closing_ok (h # hs) s" using ok(1) by (simp add: loop_ok_def)
  then obtain x where x: "handles s h = Some x" "h \<in> listed s" "has (h_flags x) UV_HANDLE_CLOSING"
    unfolding closing_ok_def by (metis in_set_conv_decomp)
  from c x have f: "\<not> has (h_flags x) UV_HANDLE_CLOSED" "\<not> uv__is_active x" unfolding closing_ok_def by blast+
  note eq = finish_close_eq [OF x(1,3) f, of "run_callback k stack"]
  have e: "ending h x s" using x by (simp add: ending_def)
  note g = gone_groups [OF ok(2) e]
  show ?thesis
  proof (cases "delayed x")
    case True
    let ?s = "s\<lparr>closing_handles := h # closing_handles s\<rparr>"
    have "client_view ?s = client_view s" by (rule client_view_cong) (simp_all add: listed_def)
    then have "watcher_ok ?s" by (rule watcher_ok_view [OF ok(2)])
    then show ?thesis using True eq delayed_ok [OF ok(1)] x(1) by auto
  next
    case False
    let ?g = "gone h x s"
    have og: "loop_ok hs ?g" by (rule gone_ok [OF ok(1) x(1)])
    have gh: "handles ?g g = handles s g" if "g \<noteq> h" for g using that by (simp add: gone_def)
    have gc: "closing_handles ?g = closing_handles s" "active_reqs ?g = active_reqs s" by (simp_all add: gone_def)
    show ?thesis
    proof (cases "FIRST_BLOCK \<le> h")
      case True
      then have cb: "close_cb x = Some Free_handle" using g(4) by simp
      obtain y where y: "handles ?g h = Some y" by (simp add: gone_def)
      let ?f = "?g\<lparr>handles := (handles ?g)(h := None), ios := (ios ?g)(Io h := None), mem := dealloc (mem ?g)\<rparr>"
      have r: "run_callback k stack Free_handle h 0 0 ?g = Ret ?f"
        using y by (simp add: run_callback_def free_handle_def with_handle_def)
      have kp: "keeps watcher_ok hs s ?f" by (rule close_keeps [OF og ok(2) e cb r])
      have "listed ?f = listed ?g" by (simp add: listed_def)
      then show ?thesis using False eq cb r keepsD [OF kp] g(2) gh gc by (intro exI [of _ ?f]) auto
    next
      case small: False
      then have cb: "close_cb x = None" using g(4) by simp
      show ?thesis using False eq cb og g(1,2) gh gc by (intro exI [of _ ?g]) simp
    qed
  qed
qed

section \<open>The closing phase\<close>

text \<open>What is left in the queue: the handles inside the loop, those of the batch, and a signal handle
  whose messages are still in the pipe.\<close>

definition held_back :: "watcher \<Rightarrow> nat \<Rightarrow> bool" where
  "held_back s h \<longleftrightarrow> (\<exists>x. handles s h = Some x \<and> delayed x)"

lemma finish_all_empties:
  "\<lbrakk>loop_ok hs s; watcher_ok s; \<forall>g \<in> listed s. g < idle_handle \<or> g \<in> set hs \<or> held_back s g\<rbrakk> \<Longrightarrow>
   \<exists>s'. finish_all (run_callback k stack) hs s = Ret s' \<and> loop_ok [] s' \<and> watcher_ok s' \<and> active_reqs s' = active_reqs s \<and>
     (\<forall>g \<in> listed s'. g < idle_handle \<or> held_back s' g) \<and> listed s' \<subseteq> listed s \<and>
     (\<forall>g \<in> listed s'. held_back s' g \<longrightarrow> held_back s g)"
proof (induction hs arbitrary: s)
  case Nil
  then show ?case by auto
next
  case (Cons h hs)
  from finish_one [OF Cons.prems(1,2), of k stack] obtain s1 where
    s1: "uv__finish_close (run_callback k stack) h s = Ret s1" "loop_ok hs s1" "watcher_ok s1" "active_reqs s1 = active_reqs s"
    and how: "((\<exists>x. handles s h = Some x \<and> delayed x) \<and> s1 = s\<lparr>closing_handles := h # closing_handles s\<rparr>) \<or>
     (listed s1 = listed s - {h} \<and> (\<forall>g. g \<noteq> h \<longrightarrow> handles s1 g = handles s g) \<and> closing_handles s1 = closing_handles s)" by blast
  have rest: "\<forall>g \<in> listed s1. g < idle_handle \<or> g \<in> set hs \<or> held_back s1 g"
    using how
  proof
    assume a: "(\<exists>x. handles s h = Some x \<and> delayed x) \<and> s1 = s\<lparr>closing_handles := h # closing_handles s\<rparr>"
    then have "listed s1 = listed s" "held_back s1 = held_back s" by (auto simp: listed_def held_back_def)
    with a Cons.prems(3) show ?thesis by (auto simp: held_back_def)
  next
    assume a: "listed s1 = listed s - {h} \<and> (\<forall>g. g \<noteq> h \<longrightarrow> handles s1 g = handles s g) \<and> closing_handles s1 = closing_handles s"
    with Cons.prems(3) show ?thesis by (auto simp: held_back_def)
  qed
  have sub: "listed s1 \<subseteq> listed s" using how by (auto simp: listed_def)
  have kept: "held_back s g" if "held_back s1 g" "g \<in> listed s1" for g using how that by (auto simp: held_back_def)
  from Cons.IH [OF s1(2,3) rest] obtain s' where
    s': "finish_all (run_callback k stack) hs s1 = Ret s'" "loop_ok [] s'" "watcher_ok s'" "active_reqs s' = active_reqs s1"
      "\<forall>g \<in> listed s'. g < idle_handle \<or> held_back s' g" "listed s' \<subseteq> listed s1"
      "\<forall>g \<in> listed s'. held_back s' g \<longrightarrow> held_back s1 g" by blast
  then show ?case using s1 sub kept by auto
qed

lemma internal_uncounted:
  assumes "watcher_ok s" and "loop_ok b s" and "\<forall>g \<in> listed s. g < idle_handle"
  shows "counted s = {}"
proof -
  have "listed s \<subseteq> {g. g < idle_handle}" using assms(3) by auto
  moreover have "\<not> counts x" if "handles s g = Some x" "g \<in> listed s" for g x
  proof -
    have "role g x" using that assms(1) by (auto simp: watcher_ok_def base_ok_def roles_ok_def)
    then show ?thesis using assms(3) that by (simp add: role_def counts_def)
  qed
  ultimately show ?thesis using assms(2) counted_listed [of s] by (auto simp: loop_ok_def counted_def)
qed

lemma all_internal_queue:
  assumes "watcher_ok s" and "loop_ok b s" and "set hs \<subseteq> listed s" and "\<forall>g \<in> set hs. g < idle_handle"
  shows "all_internal hs s = Ret True"
  using assms(3,4)
proof (induction hs)
  case (Cons h hs)
  then have h: "h \<in> listed s" "h < idle_handle" by simp_all
  then obtain x where x: "handles s h = Some x" using assms(2) by (auto simp: loop_ok_def handles_ok_def)
  have "role h x" using x h assms(1) by (auto simp: watcher_ok_def base_ok_def roles_ok_def)
  then have "has (h_flags x) UV_HANDLE_INTERNAL" using h by (simp add: role_def)
  then show ?case using Cons x by (simp add: is_internal_def with_handle_def)
qed simp

lemma closing_phase_ends:
  assumes ok: "loop_ok [] s" "watcher_ok s" and q: "\<forall>g \<in> set (handle_queue s). quietened s g"
  shows "\<exists>s'. uv__run_closing_handles (run_callback k stack) s = Ret s' \<and> loop_ok [] s' \<and> watcher_ok s' \<and>
    active_reqs s' = active_reqs s \<and> set (handle_queue s') \<subseteq> set (handle_queue s) \<and>
    (\<forall>g \<in> set (handle_queue s'). g < idle_handle \<or> held_back s g)"
proof -
  let ?s = "s\<lparr>closing_handles := []\<rparr>"
  have wq: "walk_queue s = []" using ok(2) by (simp add: watcher_ok_def)
  have c: "closing_ok (closing_handles s) ?s"
    using ok(1) unfolding loop_ok_def closing_ok_def by (elim conjE, intro conjI) (simp_all add: listed_def)
  have "core_ok ?s" using ok(1) by - (rule core_ok_cong [of s], simp_all add: loop_ok_core)
  with c have o: "loop_ok (closing_handles s) ?s" by (simp add: loop_ok_core)
  have "client_view ?s = client_view s" by (rule client_view_cong) (simp_all add: listed_def)
  then have w: "watcher_ok ?s" by (rule watcher_ok_view [OF ok(2)])
  have l: "listed ?s = set (handle_queue s)" using wq by (simp add: listed_def)
  have "\<forall>g \<in> listed ?s. g < idle_handle \<or> g \<in> set (closing_handles s) \<or> held_back ?s g"
  proof
    fix g
    assume g: "g \<in> listed ?s"
    with q l consider "g < idle_handle" | x where "handles s g = Some x" "uv__is_closing x"
      unfolding quietened_def by blast
    then show "g < idle_handle \<or> g \<in> set (closing_handles s) \<or> held_back ?s g"
    proof cases
      case 2
      have "has (h_flags x) UV_HANDLE_CLOSING" using 2 ok(1) unfolding loop_ok_def closing_ok_def is_closing_iff by blast
      moreover have "g \<in> listed s" using g l by (auto simp: listed_def)
      ultimately have "g \<in> set (closing_handles s)" using 2 ok(1) unfolding loop_ok_def closing_ok_def by auto
      then show ?thesis by simp
    qed simp
  qed
  from finish_all_empties [OF o w this, of k stack] obtain s' where
    s': "finish_all (run_callback k stack) (closing_handles s) ?s = Ret s'" "loop_ok [] s'" "watcher_ok s'"
      "active_reqs s' = active_reqs s" "\<forall>g \<in> listed s'. g < idle_handle \<or> held_back s' g" "listed s' \<subseteq> listed ?s"
      "\<forall>g \<in> listed s'. held_back s' g \<longrightarrow> held_back ?s g" by auto
  have "walk_queue s' = []" using s'(3) by (simp add: watcher_ok_def)
  then have "listed s' = set (handle_queue s')" by (simp add: listed_def)
  then show ?thesis using s' l unfolding uv__run_closing_handles_def by (auto simp: held_back_def)
qed

lemma internal_only_ends:
  assumes ok: "loop_ok [] s" "watcher_ok s" and r: "active_reqs s = 0" and q: "\<forall>g \<in> set (handle_queue s). g < idle_handle"
  shows "\<not> uv__loop_alive s" "uv_loop_close k s \<noteq> Ret (UV_EBUSY, t)"
proof -
  have wq: "walk_queue s = []" "pending_queue s = []" using ok(2) by (simp_all add: watcher_ok_def base_ok_def quiet_def)
  then have l: "listed s = set (handle_queue s)" by (simp add: listed_def)
  with q have li: "\<forall>g \<in> listed s. g < idle_handle" by simp
  have "counted s = {}" by (rule internal_uncounted [OF ok(2,1) li])
  then have a: "active_handles s = 0" using ok(1) by (simp add: loop_ok_def handles_ok_def)
  have "g \<notin> set (closing_handles s)" for g
  proof
    assume "g \<in> set (closing_handles s)"
    then obtain x where x: "handles s g = Some x" "g \<in> listed s" "has (h_flags x) UV_HANDLE_CLOSING"
      using ok(1) unfolding loop_ok_def closing_ok_def by auto
    then have "role g x" "uv__is_closing x" using ok(2) by (auto simp: watcher_ok_def base_ok_def roles_ok_def is_closing_iff)
    then show False using li x(2) by (auto simp: role_def addresses split: if_splits)
  qed
  then have "closing_handles s = []" by (metis ex_in_conv set_empty)
  then show "\<not> uv__loop_alive s" using a r wq
    by (simp add: uv__loop_alive_def uv__has_active_handles_def uv__has_active_reqs_def)
  have "all_internal (handle_queue s) s = Ret True" by (rule all_internal_queue [OF ok(2,1)]) (use l q in auto)
  then show "uv_loop_close k s \<noteq> Ret (UV_EBUSY, t)" using r
    by (auto simp: uv_loop_close_def uv__has_active_reqs_def run_simps)
qed

end
