(* ===== verification/Watcher_Demo.thy ===== *)
theory Watcher_Demo
  imports Watcher_Live
begin

text \<open>
  A concrete kernel and the states that runs of the watcher on it go through, by evaluation of the
  definitions: the inputs of the witnesses. The kernel answers every call of the program with success,
  finds no file at the path of the socket, and reports the pipe of the signals ready.
\<close>

section \<open>The kernel\<close>

definition demo_reply :: "int \<Rightarrow> nat \<Rightarrow> string \<Rightarrow> reply" where
  "demo_reply r e b = \<lparr>rv = r, errno = e, bytes = b\<rparr>"

definition int_bytes :: "nat \<Rightarrow> string" where
  "int_bytes n = [char_of n, CHR 0x00, CHR 0x00, CHR 0x00]"

fun demo_kernel :: kernel where
  "demo_kernel [] = demo_reply 0 0 []"
| "demo_kernel (c # h) = (case c of
     Realpath p \<Rightarrow> demo_reply 0 0 ''/w''
   | Open_dir p \<Rightarrow> demo_reply 10 0 []
   | Fanotify_init \<Rightarrow> demo_reply 11 0 []
   | Epoll_create \<Rightarrow> demo_reply 12 0 []
   | Pipe \<Rightarrow> demo_reply 0 0 (int_bytes 13 @ int_bytes 14)
   | Eventfd \<Rightarrow> demo_reply 15 0 []
   | Socket \<Rightarrow> demo_reply 16 0 []
   | Lstat p \<Rightarrow> demo_reply (-1) 2 []
   | Epoll_wait t \<Rightarrow> demo_reply 1 0 (int_bytes 1 @ int_bytes 13 @ int_bytes 0)
   | _ \<Rightarrow> demo_reply 0 0 [])"

lemma demo_reports_errors: "reports_errors demo_kernel"
proof -
  have "rv (demo_kernel h) < 0 \<longrightarrow> errno (demo_kernel h) \<noteq> 0" for h
    by (cases h) (auto simp: demo_reply_def split: sys_call.splits)
  then show ?thesis by (simp add: reports_errors_def demo_reply_def)
qed

text \<open>SIGINT arrives during every epoll_wait.\<close>

definition demo_arrives :: "history \<Rightarrow> int list" where
  "demo_arrives h = [SIGINT]"

definition no_stack :: "history \<Rightarrow> char list" where
  "no_stack h = []"

definition demo_start :: watcher where
  "demo_start = \<lparr>trace = [], mem = \<lparr>fails = \<lambda>_. False, calls = 0, live = 0\<rparr>, handles = Map.empty, ios = Map.empty,
     handle_queue = [], walk_queue = [], watcher_handles = (\<lambda>_. []), watcher_batch = (\<lambda>_. []), async_handles = [],
     async_batch = [], pending_queue = [], pending_batch = [], watcher_queue = [], closing_handles = [], watchers = [],
     nfds = 0, active_handles = 0, active_reqs = 0, stop_flag = False, backend_fd = 0, signal_pipefd = (0, 0),
     signal_tree = [], signal_pipe = [], in_flight = [], time = 0, timer_counter = 0, timers = [],
     exit_code = 0, fs_fd = 0, compare_path = [], clients = [], clients_count = 0, json_queue = [],
     json_items = \<lparr>nodes = Map.empty, strs = Map.empty, brk = 0, refuse = \<lambda>_. False, asked = 0\<rparr>,
     buffers = Map.empty, next_block = FIRST_BLOCK, sigpipe_ignored = False\<rparr>"

section \<open>Evaluation\<close>

text \<open>The simplifier runs the program with these rules. A fuel that is a numeral is taken apart by rules
  of its own.\<close>

lemmas fuel_eval = retry.simps(2) [of "pred_numeral v", folded numeral_eq_Suc]
  run_loop.simps(2) [where fuel = "pred_numeral v", folded numeral_eq_Suc]
  uv__run_timers.simps(2) [where fuel = "pred_numeral v", folded numeral_eq_Suc]
  poll_rounds.simps(2) [where fuel = "pred_numeral v", folded numeral_eq_Suc]
  signal_event.simps(2) [where fuel = "pred_numeral v", folded numeral_eq_Suc]
  watcher_loop.simps(2) [where fuel = "pred_numeral v", folded numeral_eq_Suc]
  walk_loop.simps(2) [where fuel = "pred_numeral v", folded numeral_eq_Suc]
  pending_rounds.simps(2) [where r = "pred_numeral v", folded numeral_eq_Suc]
  pending_loop.simps(2) [where fuel = "pred_numeral v", folded numeral_eq_Suc]
  trees_at.simps(2,3) [where fuel = "pred_numeral v", folded numeral_eq_Suc]
  for v

lemmas run_eval = demo_reply_def int_bytes_def demo_arrives_def no_stack_def Let_def alloc_def dealloc_def signed32_def rd_def
  nth_append nth_list_update fuel_eval
  has_def require_def with_handle_def with_io_def set_handle_def set_io_def uv_sys_def raw_handle_def
  uv__is_active_def uv__is_closing_def uv__has_ref_def uv__active_handle_add_def uv__active_handle_rm_def
  uv__handle_start_def uv__handle_stop_def uv__handle_unref_def uv__handle_init_def uv__has_active_handles_def
  uv__has_active_reqs_def uv_stop_def next_power_of_two_def maybe_resize_def uv__io_init_def enqueue_watcher_def
  uv__io_start_def uv__io_stop_def uv__fd_exists_def uv__platform_invalidate_fd_def uv__io_check_fd_def
  RETRIES_def uv__nonblock_ioctl_def O_NONBLOCK_def uv__nonblock_fcntl_def uv_poll_init_def uv__poll_stop_def
  uv_poll_stop_def poll_events_def uv_poll_start_def uv_watcher_init_def uv_watcher_start_def uv_watcher_stop_def
  uv__signal_compare_def uv__signal_first_handle_def uv__signal_register_handler_def
  uv__signal_unregister_handler_def signal_rehook_def uv__signal_stop_def uv_signal_stop_def uv__make_pipe_def
  uv__signal_loop_once_init_def uv_signal_init_def uv__signal_start_def uv_signal_start_def
  SIGNAL_PIPE_CAPACITY_def uv__signal_handler_def uv__async_start_def uv_async_init_def uv__async_spin_def
  uv__async_close_def uv__update_time_def timer_less_than_def uv__next_timeout_def uv__make_close_pending_def
  close_by_type_def uv_close_def uv__finish_close_def uv__run_closing_handles_def uv_walk_def set_flag_def
  child_watcher_def wq_async_def uv__process_init_def uv__close_def close_if_def uv__signal_loop_cleanup_def
  zero_loop_def uv_loop_init_def uv_loop_new_def uv__async_stop_def uv__loop_close_def is_internal_def
  uv_loop_close_def call_back_def pevents_of_def poll_io_def async_io_def run_io_def arm_def epoll_events_def
  MAX_EVENTS_def wanted_def one_poll_event_def poll_round_def uv__io_poll_def uv__run_pending_def
  uv__run_watchers_def uv__loop_alive_def uv__backend_timeout_def iteration_def uv_run_def idle_handle_def
  poll_handle_def unix_domain_poll_handle_def sigint_handle_def FIRST_BLOCK_def
  refcounted_uv_buffer_from_string_def with_buffer_def refcounted_uv_buffer_ref_def refcounted_uv_buffer_unref_def
  loop_push_json_def loop_pop_json_def loop_has_jsons_def CLIENTS_CAPACITY_def grow_clients_def
  loop_add_client_def loop_remove_client_def free_handle_def UV_TERMINATE_LOOP_def on_client_writeable_def
  text_opt_def print_message_def send_to_client_def send_jsons_def on_unix_domain_connection_attempt_def
  on_fs_event_def open_handles_cb_def sigint_handler_def run_callback_def make_compare_path_def open_watch_def
  stack_handle_def set_fd_def start_watch_def start_clients_def shut_down_def sys_def do_close_def to_int32_def
  EADDRINUSE_def sun_path_def listen_on_def bind_to_unix_domain_socket_def

section \<open>The states of a run\<close>

definition demo_loop :: watcher where
  "demo_loop = (case uv_loop_new demo_kernel (Some Work_done) demo_start of Ret (_, s) \<Rightarrow> s | _ \<Rightarrow> demo_start)"

lemma demo_loop_new: "uv_loop_new demo_kernel (Some Work_done) demo_start = Ret (True, demo_loop)"
    and demo_loop_descriptors: "distinct_descriptors demo_loop"
    and demo_loop_fields: "buffers demo_loop = Map.empty" "next_block demo_loop = FIRST_BLOCK" "clients demo_loop = []"
      "clients_count demo_loop = 0"
  by (simp_all add: demo_loop_def demo_start_def distinct_descriptors_def run_eval)

definition demo_watch :: watcher where
  "demo_watch = (case start_watch demo_kernel 11 demo_loop of Ret s \<Rightarrow> s | _ \<Rightarrow> demo_loop)"

lemma demo_start_watch: "start_watch demo_kernel 11 demo_loop = Ret demo_watch"
  by (simp add: demo_watch_def demo_loop_def demo_start_def run_eval)

definition demo_ready :: watcher where
  "demo_ready = (case start_clients demo_kernel 16 demo_watch of Ret s \<Rightarrow> s | _ \<Rightarrow> demo_watch)"

lemma demo_start_clients: "start_clients demo_kernel 16 demo_watch = Ret demo_ready"
  by (simp add: demo_ready_def demo_watch_def demo_loop_def demo_start_def run_eval)

lemma demo_ready_ok: "set_up FIRST_BLOCK demo_ready"
proof -
  have "loop_ok [] demo_loop" "new_loop (Some Work_done) demo_start demo_loop"
    using loop_new_ok [OF demo_reports_errors _ _ demo_loop_new demo_loop_descriptors] by (simp_all add: demo_start_def)
  from new_loop_set_up [OF this demo_loop_descriptors demo_loop_fields] have "set_up idle_handle demo_loop" .
  then have "set_up unix_domain_poll_handle demo_watch" by (rule start_watch_ok [OF _ _ _ demo_start_watch]) simp_all
  then show ?thesis by (rule start_clients_ok [OF _ _ _ demo_start_clients]) simp_all
qed

end
