(* ===== verification/Watcher_Run.thy ===== *)
theory Watcher_Run
  imports Watcher_Demo
begin

text \<open>
  What the watcher guarantees as a whole: main sets up a state that satisfies the invariants, uv_run
  keeps them whatever the kernel answers and whichever signals arrive, the callbacks do not misuse
  memory, and SIGINT ends the program.
\<close>

section \<open>The invariants\<close>

lemma set_up_trace: "set_up h s \<Longrightarrow> set_up h (s\<lparr>trace := t\<rparr>)"
proof -
  assume s: "set_up h s"
  have "client_view (s\<lparr>trace := t\<rparr>) = client_view s" by (rule client_view_cong) (simp_all add: listed_def)
  moreover have "loop_ok [] (s\<lparr>trace := t\<rparr>)" using s by - (rule loop_ok_cong [of "[]" s], simp_all add: set_up_def)
  ultimately show ?thesis using s watcher_ok_view [of s "s\<lparr>trace := t\<rparr>"] by (simp add: set_up_def)
qed

text \<open>C14: The part of main before uv_run (the new loop, the idle handle and the poll handles, the handle of SIGINT)
  leaves a state in which the invariant of the loop and that of the watcher hold, when the system calls
  report their errors and the descriptors of the loop are distinct.\<close>

theorem main_sets_up:
  assumes k: "reports_errors k" and s: "handles s = Map.empty" "ios s = Map.empty" "buffers s = Map.empty" "next_block s = FIRST_BLOCK"
    and l: "uv_loop_new k (Some Work_done) s = Ret (True, s1)" "distinct_descriptors s1"
    and w: "start_watch k fd (s1\<lparr>exit_code := 0, fs_fd := dir_fd, compare_path := cmp, clients := [],
        clients_count := 0, json_queue := []\<rparr>) = Ret s2" "fd \<noteq> -1" "fd < 2 ^ 31"
    and c: "start_clients k listenfd (s2\<lparr>trace := t\<rparr>) = Ret s3" "listenfd \<noteq> -1" "listenfd < 2 ^ 31"
  shows "loop_ok [] s3 \<and> watcher_ok s3 \<and> (\<forall>n. watcher_batch s3 n = [])"
proof -
  let ?s = "s1\<lparr>exit_code := 0, fs_fd := dir_fd, compare_path := cmp, clients := [], clients_count := 0, json_queue := []\<rparr>"
  note n = loop_new_ok [OF k s(1,2) l]
  have o: "loop_ok [] ?s" by (rule loop_ok_cong [OF n(1)]) simp_all
  have f: "buffers ?s = Map.empty" "next_block ?s = FIRST_BLOCK"
    using n(2) more_fields(3,4) [of s1 s] s by (simp_all add: new_loop_def)
  have e: "new_loop (Some Work_done) ?s ?s" using n(2) by (simp add: new_loop_def)
  have "distinct_descriptors ?s" using l(2) by (simp add: distinct_descriptors_def)
  from new_loop_set_up [OF o e this f] have "set_up idle_handle ?s" by simp
  then have "set_up unix_domain_poll_handle s2" by (rule start_watch_ok [OF _ w(2,3,1)])
  from start_clients_ok [OF set_up_trace [OF this] c(2,3,1)] show ?thesis by (simp add: set_up_def)
qed

lemma demo_loop_same: "demo_loop\<lparr>exit_code := 0, fs_fd := 0, compare_path := [], clients := [], clients_count := 0, json_queue := []\<rparr> = demo_loop"
  by (simp add: demo_loop_def demo_start_def run_eval)

theorem main_sets_up_witness: "loop_ok [] demo_ready \<and> watcher_ok demo_ready \<and> (\<forall>n. watcher_batch demo_ready n = [])"
proof (rule main_sets_up [OF demo_reports_errors _ _ _ _ demo_loop_new demo_loop_descriptors])
  show "start_watch demo_kernel 11 (demo_loop\<lparr>exit_code := 0, fs_fd := 0, compare_path := [], clients := [],
      clients_count := 0, json_queue := []\<rparr>) = Ret demo_watch"
    unfolding demo_loop_same by (rule demo_start_watch)
  show "start_clients demo_kernel 16 (demo_watch\<lparr>trace := trace demo_watch\<rparr>) = Ret demo_ready"
    using demo_start_clients by simp
qed (simp_all add: demo_start_def)

text \<open>C2: Every run of the loop keeps both invariants: each handle has the type its callback expects, every buffer is
  referenced by exactly the requests that are still to send it, the count of clients is the number of
  slots in use, and the bookkeeping of libuv is consistent.\<close>

theorem run_keeps_watcher:
  assumes "loop_ok [] s" and "watcher_ok s" and "\<forall>n. watcher_batch s n = []"
    and "uv_run k arrives (run_callback k stack) fuel mode s = Ret (r, s')"
  shows "loop_ok [] s' \<and> watcher_ok s' \<and> (\<forall>n. watcher_batch s' n = [])"
  by (rule watcher_client.uv_run_keeps [OF assms])

definition demo_end :: watcher where
  "demo_end = (case uv_run demo_kernel demo_arrives (run_callback demo_kernel no_stack) 5 UV_RUN_DEFAULT demo_ready of
     Ret (_, s) \<Rightarrow> s | _ \<Rightarrow> demo_ready)"

lemma demo_run: "uv_run demo_kernel demo_arrives (run_callback demo_kernel no_stack) 5 UV_RUN_DEFAULT demo_ready =
    Ret (False, demo_end)" and demo_end_queue: "handle_queue demo_end = [child_watcher, wq_async]"
  by (simp_all add: demo_end_def demo_ready_def demo_watch_def demo_loop_def demo_start_def run_eval)

theorem run_keeps_watcher_witness: "loop_ok [] demo_end \<and> watcher_ok demo_end \<and> (\<forall>n. watcher_batch demo_end n = [])"
  by (rule run_keeps_watcher [OF _ _ _ demo_run]) (use demo_ready_ok in \<open>simp_all add: set_up_def\<close>)

text \<open>A whole run of the program: started on a directory it sets up its handles, and when SIGINT arrives it closes
  them and returns 0 from main.\<close>

theorem main_stops_on_sigint:
  "main_program demo_kernel demo_arrives no_stack 5 [''w''] demo_start = Ret 0"
  by (simp add: main_program_def demo_start_def run_eval)

section \<open>The end of the program\<close>

lemma demo_ready_parts: "loop_ok [] demo_ready" "watcher_ok demo_ready"
  using demo_ready_ok by (simp_all add: set_up_def)

text \<open>C9: The handler of SIGINT closes everything: when it returns, every handle of the program is closing, no handle has
  left the queue, and the clients and the queued messages are as they were. Its walk over the handles
  never fails: the handler returns as soon as uv_signal_stop and uv_close of its own handle do.\<close>

theorem sigint_closes_everything:
  assumes "loop_ok b s" and "watcher_ok s" and "due h x On_sigint s"
    and "uv_signal_stop k h s = Ret s1" and "uv_close k h None s1 = Ret s2"
  shows "\<exists>s'. sigint_handler k h s = Ret s' \<and> handle_queue s' = handle_queue s \<and>
    (\<forall>g \<in> set (handle_queue s). idle_handle \<le> g \<longrightarrow> (\<exists>y. handles s' g = Some y \<and> uv__is_closing y)) \<and>
    clients s' = clients s \<and> json_queue s' = json_queue s"
proof -
  from sigint_walk [OF assms] obtain s' where s': "uv_walk (open_handles_cb k) s2 = Ret s'" by blast
  then have r: "sigint_handler k h s = Ret s'" using assms(4,5) by (simp add: sigint_handler_def)
  note g = sigint_Ret [OF assms(1-3) r]
  have "\<exists>y. handles s' g = Some y \<and> uv__is_closing y" if "g \<in> set (handle_queue s)" "idle_handle \<le> g" for g
    using g(3) that by (auto simp: quietened_def)
  with r g show ?thesis by blast
qed

theorem sigint_closes_everything_witness:
  "\<exists>s'. sigint_handler demo_kernel sigint_handle demo_ready = Ret s' \<and> handle_queue s' = handle_queue demo_ready \<and>
    (\<forall>g \<in> set (handle_queue demo_ready). idle_handle \<le> g \<longrightarrow> (\<exists>y. handles s' g = Some y \<and> uv__is_closing y)) \<and>
    clients s' = clients demo_ready \<and> json_queue s' = json_queue demo_ready"
proof -
  have "(case uv_signal_stop demo_kernel sigint_handle demo_ready of Ret s1 \<Rightarrow>
      (case uv_close demo_kernel sigint_handle None s1 of Ret s2 \<Rightarrow> True | _ \<Rightarrow> False) | _ \<Rightarrow> False) \<and>
      (\<exists>x. due sigint_handle x On_sigint demo_ready)"
    by (simp add: demo_ready_def demo_watch_def demo_loop_def demo_start_def run_eval due_def listed_def)
  then obtain s1 s2 x where "uv_signal_stop demo_kernel sigint_handle demo_ready = Ret s1"
    "uv_close demo_kernel sigint_handle None s1 = Ret s2" "due sigint_handle x On_sigint demo_ready"
    by (auto split: run.splits)
  then show ?thesis by - (rule sigint_closes_everything [OF demo_ready_parts])
qed

text \<open>C10: Once every handle of the program is closing, the closing phase of the iteration returns, and the only handles left
  in the queue are those inside the loop and the signal handles whose message is still in the pipe, which
  wait for the next iteration. When there is no such handle and no request is active, the loop is not alive, so that
  uv_run ends, and uv_loop_close does not report that the loop is busy.\<close>

theorem closing_phase_empties_loop:
  assumes "loop_ok [] s" and "watcher_ok s" and "\<forall>g \<in> set (handle_queue s). quietened s g"
  shows "\<exists>s'. uv__run_closing_handles (run_callback k stack) s = Ret s' \<and>
    set (handle_queue s') \<subseteq> {child_watcher, wq_async} \<union> {g \<in> set (handle_queue s). held_back s g} \<and>
    ((\<forall>g \<in> set (handle_queue s). \<not> held_back s g) \<and> active_reqs s = 0 \<longrightarrow>
      \<not> uv__loop_alive s' \<and> (\<forall>t. uv_loop_close k s' \<noteq> Ret (UV_EBUSY, t)))"
proof -
  from closing_phase_ends [OF assms, of k stack] obtain s' where s':
    "uv__run_closing_handles (run_callback k stack) s = Ret s'" "loop_ok [] s'" "watcher_ok s'" "active_reqs s' = active_reqs s"
    "set (handle_queue s') \<subseteq> set (handle_queue s)" "\<forall>g \<in> set (handle_queue s'). g < idle_handle \<or> held_back s g" by blast
  have g: "g = child_watcher \<or> g = wq_async" if "g < idle_handle" for g
    using that by (auto simp: addresses child_watcher_def wq_async_def)
  then have "set (handle_queue s') \<subseteq> {child_watcher, wq_async} \<union> {g \<in> set (handle_queue s). held_back s g}"
    using s'(5,6) by blast
  moreover have "\<not> uv__loop_alive s' \<and> (\<forall>t. uv_loop_close k s' \<noteq> Ret (UV_EBUSY, t))"
    if h: "\<forall>g \<in> set (handle_queue s). \<not> held_back s g" and a: "active_reqs s = 0"
  proof -
    have "\<forall>g \<in> set (handle_queue s'). g < idle_handle" using s'(5,6) h by blast
    from internal_only_ends [OF s'(2,3) _ this] s'(4) a show ?thesis by auto
  qed
  ultimately show ?thesis using s'(1) by (intro exI [of _ s']) simp
qed

text \<open>The state before the closing phase of the last iteration of the run.\<close>

definition demo_closing :: watcher where
  "demo_closing = (case sigint_handler demo_kernel sigint_handle demo_ready of Ret s \<Rightarrow> s | _ \<Rightarrow> demo_ready)"

theorem closing_phase_empties_loop_witness:
  "\<exists>s'. uv__run_closing_handles (run_callback demo_kernel no_stack) demo_closing = Ret s' \<and>
    set (handle_queue s') \<subseteq> {child_watcher, wq_async} \<and> \<not> uv__loop_alive s' \<and>
    (\<forall>t. uv_loop_close demo_kernel s' \<noteq> Ret (UV_EBUSY, t))"
proof -
  have r: "sigint_handler demo_kernel sigint_handle demo_ready = Ret demo_closing" and a: "active_reqs demo_closing = 0"
    and n: "\<forall>g \<in> set (handle_queue demo_closing). \<not> held_back demo_closing g"
    and d: "\<exists>x. due sigint_handle x On_sigint demo_ready"
    by (simp_all add: demo_closing_def demo_ready_def demo_watch_def demo_loop_def demo_start_def run_eval due_def listed_def
        held_back_def delayed_def)
  then obtain x where x: "due sigint_handle x On_sigint demo_ready" by blast
  note g = sigint_Ret [OF demo_ready_parts x r]
  have "\<forall>g \<in> set (handle_queue demo_closing). quietened demo_closing g" using g(2,3) by simp
  from closing_phase_empties_loop [OF keepsD [OF g(1)] this, of demo_kernel no_stack] a n show ?thesis by blast
qed

end
