(* ===== verification/Watcher_Reach.thy ===== *)
theory Watcher_Reach
  imports Watcher_Run
begin

text \<open>
  The callbacks uv_run makes are well typed: wherever in a run the loop calls back, the handle has the type
  the C function casts it to. uv__loop_alive says whether there is anything to wait for, and
  uv_loop_close refuses exactly when something is left.
\<close>

section \<open>Types\<close>

text \<open>Before and after uv_run the loop is at rest.\<close>

definition at_rest :: "watcher \<Rightarrow> bool" where
  "at_rest s \<longleftrightarrow> loop_ok [] s \<and> watcher_ok s \<and> (\<forall>n. watcher_batch s n = [])"

text \<open>The type of handle the C function behind a callback casts its argument to; free takes any handle, when it
  is a block of the heap.\<close>

fun callback_type :: "watcher_cb \<Rightarrow> uv_handle_type option" where
  "callback_type On_fs_event = Some UV_POLL"
| "callback_type On_connection = Some UV_POLL"
| "callback_type On_writeable = Some UV_POLL"
| "callback_type Send_jsons = Some UV_IDLE"
| "callback_type On_sigint = Some UV_SIGNAL"
| "callback_type Free_handle = None"
| "callback_type Work_done = Some UV_ASYNC"

text \<open>What on_client_writeable reads through the handle is there: its buffer and its descriptor.\<close>

definition well_typed :: "watcher \<Rightarrow> nat \<Rightarrow> watcher_cb uv_handle \<Rightarrow> watcher_cb \<Rightarrow> bool" where
  "well_typed s h x cb \<longleftrightarrow> (case callback_type cb of None \<Rightarrow> FIRST_BLOCK \<le> h | Some t \<Rightarrow> h_type x = t) \<and>
     (cb = On_writeable \<longrightarrow> u_fd x \<noteq> -1 \<and> (case h_data x of None \<Rightarrow> False | Some a \<Rightarrow> buffers s a \<noteq> None))"

lemma due_well_typed:
  assumes w: "watcher_ok s" and d: "due h x cb s"
  shows "well_typed s h x cb"
proof -
  note du = d [unfolded due_def] and r = due_role [OF w d]
  show ?thesis
  proof (cases "cb = On_writeable")
    case True
    from role_cb [OF r, of cb] du True obtain a where a: "h_type x = UV_POLL" "h_data x = Some a" "u_fd x \<noteq> -1" by auto
    have "h \<in> holders s a" using du True a(2) by (auto simp: holders_def holds_def)
    then have "buffers s a \<noteq> None" using buffers_okN [of None s a] w by (auto simp: watcher_ok_def base_ok_def)
    with a True show ?thesis by (simp add: well_typed_def)
  next
    case False
    with role_cb [OF r, of cb] du show ?thesis by (cases cb) (simp_all add: well_typed_def)
  qed
qed

lemma ending_well_typed:
  assumes w: "watcher_ok s" and e: "ending h x s" and c: "close_cb x = Some cb"
  shows "\<exists>y. handles (gone h x s) h = Some y \<and> well_typed (gone h x s) h y cb"
proof -
  have "role h x" using w e by (simp add: watcher_ok_def base_ok_def roles_ok_def ending_def)
  moreover have "uv__is_closing x" using e by (simp add: ending_def is_closing_iff)
  ultimately have "FIRST_BLOCK \<le> h \<and> cb = Free_handle" using c by (auto simp: role_def split: if_splits)
  then show ?thesis by (simp add: well_typed_def gone_def)
qed

text \<open>A dispatcher that does what the callbacks do when they are called with a handle of their type, and anything
  at all otherwise.\<close>

definition agrees :: "kernel \<Rightarrow> (history \<Rightarrow> char list) \<Rightarrow> (watcher_cb \<Rightarrow> nat \<Rightarrow> int \<Rightarrow> int \<Rightarrow> watcher_op) \<Rightarrow> bool" where
  "agrees k stack call \<longleftrightarrow> (\<forall>cb h a b s x. handles s h = Some x \<and> well_typed s h x cb \<longrightarrow>
     call cb h a b s = run_callback k stack cb h a b s)"

lemma agrees_same: "agrees k stack call \<Longrightarrow> same_calls watcher_ok (run_callback k stack) call"
  using due_well_typed ending_well_typed unfolding same_calls_def agrees_def due_def by blast

text \<open>C15: Type safety of the callbacks. In no run of the loop from a state such as main sets up or uv_run leaves, whatever the
  kernel answers, whichever signals arrive and however the run ends, does the loop call a callback with a handle of another type than
  the C function casts it to, a client's request without its descriptor or buffer, or free with a
  handle that is not on the heap: what such a call would do makes no difference to the run.\<close>

theorem callbacks_typed:
  assumes "at_rest s" and "agrees k stack call"
  shows "uv_run k arrives call fuel mode s = uv_run k arrives (run_callback k stack) fuel mode s"
  using watcher_client.uv_run_same [OF agrees_same [OF assms(2)]] assms(1) by (simp add: at_rest_def)

text \<open>A dispatcher that aborts when the type is wrong.\<close>

definition checked :: "kernel \<Rightarrow> (history \<Rightarrow> char list) \<Rightarrow> watcher_cb \<Rightarrow> nat \<Rightarrow> int \<Rightarrow> int \<Rightarrow> watcher_op" where
  "checked k stack cb h a b s = (case handles s h of None \<Rightarrow> Abort
     | Some x \<Rightarrow> if well_typed s h x cb then run_callback k stack cb h a b s else Abort)"

theorem callbacks_typed_witness:
  "uv_run demo_kernel demo_arrives (checked demo_kernel no_stack) 5 UV_RUN_DEFAULT demo_ready = Ret (False, demo_end) \<and>
    \<not> well_typed demo_ready idle_handle (the (handles demo_ready idle_handle)) On_sigint"
proof -
  have "at_rest demo_ready" using demo_ready_ok by (simp add: at_rest_def set_up_def)
  moreover have "agrees demo_kernel no_stack (checked demo_kernel no_stack)" by (simp add: agrees_def checked_def)
  moreover have "\<not> well_typed demo_ready idle_handle (the (handles demo_ready idle_handle)) On_sigint"
    by (simp add: well_typed_def demo_ready_def demo_watch_def demo_loop_def demo_start_def run_eval)
  ultimately show ?thesis using callbacks_typed [of demo_ready] demo_run by simp
qed

section \<open>Alive\<close>

text \<open>C39: When uv_run goes on. As long as there are fewer than 2 to the 32 handles, uv__loop_alive is true exactly when some
  handle is active and referenced, a request is active, or a callback or a close is pending: the
  counter active_handles never disagrees with the handles.\<close>

theorem loop_alive_iff:
  assumes "loop_ok b s" and "length (handle_queue s @ walk_queue s) < 2 ^ 32"
  shows "uv__loop_alive s \<longleftrightarrow> (\<exists>h x. handles s h = Some x \<and> uv__is_active x \<and> uv__has_ref x) \<or> active_reqs s \<noteq> 0 \<or>
    pending_queue s \<noteq> [] \<or> closing_handles s \<noteq> []"
proof -
  have o: "handles_ok s" using assms(1) by (simp add: loop_ok_def)
  have "card (counted s) \<le> card (listed s)" using counted_listed [OF o] by (simp add: card_mono listed_def)
  also have "\<dots> \<le> length (handle_queue s @ walk_queue s)" unfolding listed_def by (metis card_length set_append)
  finally have n: "card (counted s) < 2 ^ 32" using assms(2) by simp
  have "active_handles s = of_nat (card (counted s))" using o by (simp add: handles_ok_def)
  then have "unat (active_handles s) = card (counted s)" using n by (simp add: unsigned_of_nat take_bit_nat_eq_self)
  then have "active_handles s = 0 \<longleftrightarrow> card (counted s) = 0" by (metis unat_eq_0)
  also have "\<dots> \<longleftrightarrow> counted s = {}" using counted_finite [OF o] by simp
  finally have "uv__has_active_handles s \<longleftrightarrow> counted s \<noteq> {}" by (simp add: uv__has_active_handles_def word_gt_0)
  then show ?thesis
    by (auto simp: uv__loop_alive_def uv__has_active_reqs_def counted_def counts_def word_gt_0)
qed

theorem loop_alive_iff_witness: "uv__loop_alive demo_ready \<and> \<not> uv__loop_alive demo_end"
proof -
  have q: "length (handle_queue demo_ready @ walk_queue demo_ready) < 2 ^ 32"
    "\<exists>x. handles demo_ready poll_handle = Some x \<and> uv__is_active x \<and> uv__has_ref x"
    by (simp_all add: demo_ready_def demo_watch_def demo_loop_def demo_start_def run_eval)
  have "\<not> uv__loop_alive demo_end"
    by (simp add: demo_end_def demo_ready_def demo_watch_def demo_loop_def demo_start_def run_eval)
  with loop_alive_iff [OF demo_ready_parts(1) q(1)] q(2) show ?thesis by blast
qed

section \<open>Busy\<close>

lemma all_internal_iff: "\<forall>h \<in> set hs. handles s h \<noteq> None \<Longrightarrow>
    all_internal hs s = Ret (\<forall>h \<in> set hs. \<forall>x. handles s h = Some x \<longrightarrow> has (h_flags x) UV_HANDLE_INTERNAL)"
  by (induction hs) (auto simp: is_internal_def with_handle_def)

text \<open>C40: uv_loop_close refuses with UV_EBUSY, and leaves the loop as it is, exactly when a request is active or a handle of the
  program is still in the queue, closing or not; the handles inside the loop do not count.\<close>

theorem loop_close_busy:
  assumes "loop_ok b s"
  shows "uv_loop_close k s = Ret (UV_EBUSY, s) \<longleftrightarrow> active_reqs s \<noteq> 0 \<or>
    (\<exists>h \<in> set (handle_queue s). \<exists>x. handles s h = Some x \<and> \<not> has (h_flags x) UV_HANDLE_INTERNAL)"
proof -
  have "\<forall>h \<in> set (handle_queue s). handles s h \<noteq> None"
    using assms by (auto simp: loop_ok_def handles_ok_def listed_def)
  note a = all_internal_iff [OF this]
  show ?thesis by (auto simp: uv_loop_close_def uv__has_active_reqs_def a run_simps)
qed

theorem loop_close_busy_witness:
  "uv_loop_close demo_kernel demo_ready = Ret (UV_EBUSY, demo_ready) \<and> uv_loop_close demo_kernel demo_end \<noteq> Ret (UV_EBUSY, demo_end)"
proof -
  have r: "poll_handle \<in> set (handle_queue demo_ready) \<and> (\<exists>x. handles demo_ready poll_handle = Some x \<and>
      \<not> has (h_flags x) UV_HANDLE_INTERNAL)"
    by (simp add: demo_ready_def demo_watch_def demo_loop_def demo_start_def run_eval)
  have e: "active_reqs demo_end = 0 \<and> (\<forall>h \<in> set (handle_queue demo_end). \<forall>x. handles demo_end h = Some x \<longrightarrow>
      has (h_flags x) UV_HANDLE_INTERNAL)"
    by (simp add: demo_end_def demo_ready_def demo_watch_def demo_loop_def demo_start_def run_eval)
  have "loop_ok [] demo_end"
    using watcher_client.uv_run_keeps [OF _ _ _ demo_run] demo_ready_ok by (simp add: set_up_def)
  then have "uv_loop_close demo_kernel demo_end \<noteq> Ret (UV_EBUSY, demo_end)"
    unfolding loop_close_busy [OF \<open>loop_ok [] demo_end\<close>] using e by auto
  moreover have "uv_loop_close demo_kernel demo_ready = Ret (UV_EBUSY, demo_ready)"
    unfolding loop_close_busy [OF demo_ready_parts(1)] using r by auto
  ultimately show ?thesis by simp
qed

end
