(* ===== verification/Watcher_Message.thy ===== *)
theory Watcher_Message
  imports Watcher_Demo CJson_Roundtrip
begin

text \<open>
  The text of a message: cJSON_Print reads the tree a queued pointer stands for, cJSON_Delete frees it,
  and a client that parses the text gets the tree back.
\<close>

section \<open>The tree a pointer stands for\<close>

lemma text_opt_shows: "shows_text s p t \<Longrightarrow> text_opt p s = Ret t"
  by (auto simp: shows_text_def text_opt_def split: option.splits)

lemma trees_at_reps:
  "\<lbrakk>path s p xs; reps s xs ts F; sum_list (map node_count ts) < fuel\<rbrakk> \<Longrightarrow> trees_at fuel p s = Ret ts"
proof (induction fuel arbitrary: p xs ts F)
  case 0
  then show ?case by simp
next
  case (Suc fuel)
  show ?case
  proof (cases xs)
    case Nil
    with Suc.prems show ?thesis by simp
  next
    case (Cons a rest)
    with Suc.prems(2) obtain t ts' F1 F2 where c: "ts = t # ts'" "rep s a t F1" "reps s rest ts' F2"
      by (auto elim: reps_consE)
    obtain tt vs vi vd nm us where t: "t = Item tt vs vi vd nm us" by (cases t)
    with c(2) obtain n ys G where n: "nodes s a = Some n" "n_ty n = tt" "n_vi n = vi" "n_vd n = vd" "node_ok s a n vs nm"
      and ys: "items_of s a ys" "reps s ys us G" by (auto simp: rep_iff)
    from Cons Suc.prems(1) n(1) have p: "p = Some a" "path s (n_next n) rest" by auto
    have size: "sum_list (map node_count us) < fuel" "sum_list (map node_count ts') < fuel"
      using Suc.prems(3) c(1) t by auto
    have pc: "path s (n_child n) ys" using ys(1) n(1) chained_path by (auto simp: items_of_def)
    have tx: "text_opt (n_vs n) s = Ret vs" "text_opt (n_name n) s = Ret nm"
      using n(5) by (simp_all add: node_ok_def text_opt_shows)
    show ?thesis
      using p(1) n Suc.IH [OF pc ys(2) size(1)] Suc.IH [OF p(2) c(3) size(2)] c(1) t tx by simp
  qed
qed

lemma trees_at_rep:
  assumes "wf_store s" and "rep s a t F" and "detached s a"
  shows "trees_at (Suc (brk s)) (Some a) s = Ret [t]"
proof -
  from assms(3) obtain n where "nodes s a = Some n" "n_next n = None" by (auto simp: detached_def)
  then have p: "path s (Some a) [a]" by simp
  have r: "reps s [a] [t] F" using rep_reps.reps_cons [OF assms(2), of "[]" "[]" "{}"] by simp
  have "card F \<le> brk s"
    using card_mono [of "{..<brk s}" F] rep_in_use(1) [OF assms(2)] in_use_below [OF assms(1)] by auto
  then have "node_count t < Suc (brk s)" using rep_count(1) [OF assms(2,1)] by simp
  then have "sum_list (map node_count [t]) < Suc (brk s)" by simp
  then show ?thesis by (rule trees_at_reps [OF p r])
qed

lemma print_message_rep:
  assumes "wf_store (json_items s)" and "rep (json_items s) j t F" and "detached (json_items s) j" and "texts_ok t"
  shows "\<exists>str m. print_message j s = Ret (str, s\<lparr>mem := m, json_items := clear F (json_items s)\<rparr>) \<and>
    fails m = fails (mem s) \<and> live m = live (mem s) + (if str = None then 0 else 1) \<and>
    (\<forall>u. str = Some u \<longrightarrow> render True 0 t = Some u) \<and>
    (\<forall>u. render True 0 t = Some u \<and> length u + 2 \<le> int_max \<and> (\<forall>i. \<not> fails (mem s) i) \<longrightarrow> str = Some u)"
proof -
  from print_outcome [OF assms(4), of True "mem s" True] obtain str m where
    p: "cJSON_Print (Some t) True (mem s) = Ret (str, m)"
    "fails m = fails (mem s)" "live m = live (mem s) + (if str = None then 0 else 1)"
    "\<forall>u. str = Some u \<longrightarrow> render True 0 t = Some u"
    "\<forall>u. render True 0 t = Some u \<and> length u + 2 \<le> int_max \<and> (\<forall>i. \<not> fails (mem s) i) \<longrightarrow> str = Some u"
    unfolding print_result_def cJSON_Print_def by blast
  have "print_message j s = Ret (str, s\<lparr>mem := m, json_items := clear F (json_items s)\<rparr>)"
    by (simp add: print_message_def trees_at_rep [OF assms(1-3)] delete_whole [OF assms(1-3)] p(1) del: trees_at.simps)
  with p(2-5) show ?thesis by blast
qed

section \<open>The message of the events\<close>

definition paths_ok :: "cjson list \<Rightarrow> bool" where
  "paths_ok ts \<longleftrightarrow> (\<forall>t \<in> set ts. \<exists>p op. t = event_tree p op \<and> cstring p)"

lemma reported_paths: "all_resolve k mfd dir evs \<Longrightarrow> paths_ok (reported dir cmp evs)"
  by (fastforce simp: paths_ok_def reported_def all_resolve_def path_of_def wf_event_def resolves_def)

lemma message_renders:
  assumes "paths_ok ts"
  shows "\<exists>t. render fmt d (message_tree ts) = Some t"
proof -
  have e: "\<exists>t. render fmt n (event_tree p op) = Some t" for n p op
    by (simp add: event_tree_def render_scalar_def)
  have "paths_ok us \<Longrightarrow> \<exists>t. render_elements fmt n us = Some t" for n us
  proof (induction us)
    case (Cons u us)
    then obtain p op t where "u = event_tree p op" "render_elements fmt n us = Some t" by (auto simp: paths_ok_def)
    with e [of n p op] show ?case by auto
  qed simp
  from this [OF assms, of "Suc (Suc d)"] show ?thesis by (auto simp: message_tree_def events_array_def)
qed

lemma message_plain:
  assumes "paths_ok ts"
  shows "plain (message_tree ts)" "texts_ok (message_tree ts)" "name (message_tree ts) = None"
    "canon (message_tree ts) = message_tree ts" "height (message_tree ts) \<le> NESTING_LIMIT"
proof -
  have e: "plain t \<and> texts_ok t \<and> name t = None \<and> canon t = t \<and> height t = 1" if "t \<in> set ts" for t
    using assms that op_string_ok by (fastforce simp: paths_ok_def event_tree_def cstring_def)
  have c: "map canon ts = ts" by (rule map_idI) (use e in simp)
  have "height ` set ts \<subseteq> {1}" using e by auto
  then have "Max (insert 0 (height ` set ts)) \<le> 1" by (intro Max.boundedI) auto
  then have "Max (insert 0 (height ` set ts)) \<le> 998" by (rule order_trans) simp
  then show "height (message_tree ts) \<le> NESTING_LIMIT" by (simp add: message_tree_def events_array_def NESTING_LIMIT_def)
  show "plain (message_tree ts)" "texts_ok (message_tree ts)" "name (message_tree ts) = None"
    "canon (message_tree ts) = message_tree ts"
    using e c by (simp_all add: message_tree_def events_array_def cstring_def)
qed

text \<open>A client that parses the text a message is printed as gets the tree of the message.\<close>

lemma printed_message:
  assumes "wf_store (json_items s)" and "rep (json_items s) j (message_tree ts) F" and "detached (json_items s) j"
    and "paths_ok ts"
  shows "\<exists>str m. print_message j s = Ret (str, s\<lparr>mem := m, json_items := clear F (json_items s)\<rparr>) \<and>
    live m = live (mem s) + (if str = None then 0 else 1) \<and>
    (length (the (render True 0 (message_tree ts))) + 2 \<le> int_max \<and> no_alloc_fails (mem s) \<longrightarrow> str \<noteq> None) \<and>
    (\<forall>u M. str = Some u \<and> no_refusals M \<longrightarrow>
      (\<exists>r. cJSON_Parse (Some u) M = Ret (Some r) \<and> root r = Some (message_tree ts)))"
proof -
  note pl = message_plain [OF assms(4)]
  from print_message_rep [OF assms(1-3) pl(2)] obtain str m where
    p: "print_message j s = Ret (str, s\<lparr>mem := m, json_items := clear F (json_items s)\<rparr>)"
      "live m = live (mem s) + (if str = None then 0 else 1)"
      "\<forall>u. str = Some u \<longrightarrow> render True 0 (message_tree ts) = Some u"
      "\<forall>u. render True 0 (message_tree ts) = Some u \<and> length u + 2 \<le> int_max \<and> (\<forall>i. \<not> fails (mem s) i) \<longrightarrow> str = Some u"
    by blast
  have "\<exists>u. render True 0 (message_tree ts) = Some u" using assms(4) by (rule message_renders)
  then have "length (the (render True 0 (message_tree ts))) + 2 \<le> int_max \<and> no_alloc_fails (mem s) \<longrightarrow> str \<noteq> None"
    using p(4) by (auto simp: no_alloc_fails_def)
  moreover have "\<exists>r. cJSON_Parse (Some u) M = Ret (Some r) \<and> root r = Some (message_tree ts)"
    if "str = Some u" "no_refusals M" for u M
    using parse_rendered [OF pl(1,3,5) _ that(2), of True u] p(3) that(1) pl(4) by simp
  ultimately show ?thesis using p(1,2) by blast
qed

text \<open>C1: from the event to the client. When the kernel delivers well-formed events that fit the buffer, some of them below
  the watched directory, on_fs_event queues one message behind those already queued and starts the handle that sends;
  and whenever send_jsons prints that message, every node and string of the message is freed (F is what the
  message owns), the only block left is the text, and a client that parses the text reads exactly the events below the directory, in order, with their paths and operations.\<close>

theorem events_reach_client:
  assumes "handles s h = Some x" and "delivers k (u_fd x) evs (trace s)" and "all_resolve k (fs_fd s) dir evs"
    and "length (concat (map encode_event evs)) + METADATA_LEN \<le> BUF_SIZE" and "BUF_SIZE \<le> length (stack (trace s))"
    and "no_alloc_fails (mem s)" and "no_refusal (json_items s)" and "reported dir (compare_path s) evs \<noteq> []"
  shows "\<exists>j s1 F. on_fs_event k stack h s =
      bnd (uv_watcher_start Idle idle_handle (Some Send_jsons) s1) (\<lambda>(_, s2). Ret s2) \<and>
    json_queue s1 = json_queue s @ [Some j] \<and> handles s1 = handles s \<and> clients s1 = clients s \<and>
    rep (json_items s1) j (message_tree (reported dir (compare_path s) evs)) F \<and> F \<subseteq> in_use (json_items s1) \<and> j \<in> F \<and>
    (\<forall>s2. json_items s2 = json_items s1 \<longrightarrow> (\<exists>str m.
      print_message j s2 = Ret (str, s2\<lparr>mem := m, json_items := clear F (json_items s1)\<rparr>) \<and>
      live m = live (mem s2) + (if str = None then 0 else 1) \<and>
      (\<forall>u M. str = Some u \<and> no_refusals M \<longrightarrow> (\<exists>r. cJSON_Parse (Some u) M = Ret (Some r) \<and>
         root r = Some (message_tree (reported dir (compare_path s) evs))))))"
proof -
  let ?c = "\<lparr>hist = trace s, heap = mem s, items = json_items s\<rparr>" and ?ts = "reported dir (compare_path s) evs"
  from read_events_decodes [of k "u_fd x" evs ?c "fs_fd s" dir "stack (trace s)" "compare_path s"] assms(2-8)
  obtain j F c' where
    ev: "read_events k (stack (trace s)) (u_fd x) (fs_fd s) (compare_path s) ?c = Ret (Queue (Some j), c')"
    and t: "rep (items c') j (message_tree ?ts) F" "detached (items c') j" "wf_store (items c')"
    and na: "no_alloc_fails (heap c')" by auto
  then obtain m where al: "alloc (heap c') = (True, m)" by (auto simp: alloc_def no_alloc_fails_def)
  let ?s1 = "s\<lparr>trace := hist c', json_items := items c', mem := m, json_queue := json_queue s @ [Some j]\<rparr>"
  have run: "on_fs_event k stack h s = bnd (uv_watcher_start Idle idle_handle (Some Send_jsons) ?s1) (\<lambda>(_, s2). Ret s2)"
    using assms(1) ev al by (simp add: on_fs_event_def with_handle_def loop_push_json_def)
  have p: "paths_ok ?ts" using reported_paths [OF assms(3)] .
  have "\<exists>str m. print_message j s2 = Ret (str, s2\<lparr>mem := m, json_items := clear F (json_items ?s1)\<rparr>) \<and>
      live m = live (mem s2) + (if str = None then 0 else 1) \<and>
      (\<forall>u M. str = Some u \<and> no_refusals M \<longrightarrow> (\<exists>r. cJSON_Parse (Some u) M = Ret (Some r) \<and> root r = Some (message_tree ?ts)))"
    if "json_items s2 = json_items ?s1" for s2
  proof -
    have i: "json_items s2 = items c'" "json_items ?s1 = items c'" using that by simp_all
    from printed_message [of s2 j ?ts F, unfolded i, OF t(3,1,2) p] show ?thesis unfolding i by blast
  qed
  moreover have "F \<subseteq> in_use (items c')" "j \<in> F" using rep_in_use(1) [OF t(1)] rep_in_foot [OF t(1)] by blast+
  ultimately show ?thesis using run t(1) by (intro exI [of _ j] exI [of _ ?s1] exI [of _ F]) simp
qed

definition one_write_state :: watcher where
  "one_write_state = demo_start\<lparr>handles := [poll_handle \<mapsto> raw_handle\<lparr>u_fd := 3\<rparr>], fs_fd := 4, compare_path := ''/d/''\<rparr>"

theorem events_reach_client_witness:
  "\<exists>j s1 F. on_fs_event one_write_kernel (\<lambda>_. replicate 256 NUL) poll_handle one_write_state =
      bnd (uv_watcher_start Idle idle_handle (Some Send_jsons) s1) (\<lambda>(_, s2). Ret s2) \<and>
    json_queue s1 = [Some j] \<and> rep (json_items s1) j (message_tree [event_tree ''/d/f'' OP_CLOSE_FOR_WRITE]) F \<and> j \<in> F \<and>
    (\<forall>s2. json_items s2 = json_items s1 \<longrightarrow> (\<exists>str m.
      print_message j s2 = Ret (str, s2\<lparr>mem := m, json_items := clear F (json_items s1)\<rparr>) \<and>
      (\<forall>u. str = Some u \<longrightarrow> (\<exists>r. cJSON_Parse (Some u) (mem demo_start) = Ret (Some r) \<and>
         root r = Some (message_tree [event_tree ''/d/f'' OP_CLOSE_FOR_WRITE])))))"
proof -
  let ?x = "raw_handle\<lparr>u_fd := 3\<rparr> :: watcher_cb uv_handle"
  have s: "handles one_write_state poll_handle = Some ?x" "trace one_write_state = []" "fs_fd one_write_state = 4"
    "compare_path one_write_state = ''/d/''" "no_alloc_fails (mem one_write_state)" "no_refusal (json_items one_write_state)"
    "json_queue one_write_state = []" "no_refusals (mem demo_start)"
    by (simp_all add: one_write_state_def demo_start_def no_alloc_fails_def no_refusal_def wf_store_def kinds_def no_refusals_def)
  have "delivers one_write_kernel 3 [written_f] []" by (simp add: delivers_def one_write_kernel_def)
  moreover have "all_resolve one_write_kernel 4 (\<lambda>_. ''/d'') [written_f]"
    using one_write_resolves written_f_event(2) by (simp add: all_resolve_def)
  ultimately show ?thesis
    using events_reach_client [OF s(1), of one_write_kernel "[written_f]" "\<lambda>_. ''/d''" "\<lambda>_. replicate 256 NUL"]
      written_f_event s(2-) by (simp add: METADATA_LEN_def BUF_SIZE_def) metis
qed

end
