(* ===== verification/Watcher_Serve.thy ===== *)
theory Watcher_Serve
  imports Watcher_Message
begin

text \<open>
  How the watcher serves its clients: the array of clients as a multiset, a new connection, the requests
  made for a message, and the callback that sends one.
\<close>

section \<open>Clients\<close>

text \<open>C20: The array of clients with its free slots is a multiset of descriptors: adding a client adds it once, removing
  one takes it away once (and does nothing when it is not there), the count stays the number of slots
  in use, and adding succeeds when the allocator grants its requests.\<close>

theorem client_array_refines:
  assumes "clients_ok s" and "client \<noteq> -1" and "client < 2 ^ 31"
  shows "clients_ok (loop_remove_client client s) \<and> connected (loop_remove_client client s) = connected s - {#client#} \<and>
    (\<forall>s'. loop_add_client client s = Ret s' \<longrightarrow> clients_ok s' \<and> connected s' = add_mset client (connected s)) \<and>
    ((\<forall>i. \<not> fails (mem s) i) \<longrightarrow> (\<exists>s'. loop_add_client client s = Ret s'))"
  using remove_client(1,2) [OF assms(1,2)] add_client_Ret(2,3) [OF assms]
  by (auto simp: loop_add_client_def grow_clients_def Let_def alloc_def realloc_def split: prod.splits)

theorem client_array_refines_witness:
  "connected (loop_remove_client 7 (demo_start\<lparr>clients := [5, -1, 7, -1], clients_count := 2\<rparr>)) = {#5#} \<and>
   (\<exists>s'. loop_add_client 7 (demo_start\<lparr>clients := [5, 7], clients_count := 2\<rparr>) = Ret s' \<and>
     connected s' = {#7, 5, 7#})"
proof
  let ?s = "demo_start\<lparr>clients := [5, -1, 7, -1], clients_count := 2\<rparr>"
    and ?t = "demo_start\<lparr>clients := [5, 7], clients_count := 2\<rparr>"
  have "clients_ok ?s" "connected ?s = {#5, 7#}" "clients_ok ?t" "connected ?t = {#5, 7#}" "\<forall>i. \<not> fails (mem ?t) i"
    by (simp_all add: clients_ok_def connected_def demo_start_def)
  then show "connected (loop_remove_client 7 ?s) = {#5#}"
    "\<exists>s'. loop_add_client 7 ?t = Ret s' \<and> connected s' = {#7, 5, 7#}"
    using client_array_refines [of ?s 7] client_array_refines [of ?t 7] by auto
qed

text \<open>C21: The callback of the listening socket either adds the accepted descriptor to the clients, or, when accept
  fails, asks the loop to stop with exit code 1; nothing else of the state of the clients changes.\<close>

theorem connection_adds_client:
  assumes "clients_ok s" and "handles s h = Some x" and "\<forall>i. \<not> fails (mem s) i"
  shows "\<exists>s'. on_unix_domain_connection_attempt k h s = Ret s' \<and> clients_ok s' \<and>
    (let fd = to_int32 (rv (k (Accept (u_fd x) # trace s))) in
     if fd = -1 then connected s' = connected s \<and> stop_flag s' \<and> exit_code s' = 1
     else connected s' = add_mset fd (connected s) \<and> stop_flag s' = stop_flag s \<and> exit_code s' = exit_code s)"
proof -
  let ?fd = "to_int32 (rv (k (Accept (u_fd x) # trace s)))" and ?s = "s\<lparr>trace := Accept (u_fd x) # trace s\<rparr>"
  have c: "clients_ok ?s" "connected ?s = connected s" using assms(1) by (simp_all add: clients_ok_def connected_def)
  show ?thesis
  proof (cases "?fd = -1")
    case True
    then show ?thesis using assms c
      by (simp add: on_unix_domain_connection_attempt_def with_handle_def Let_def UV_TERMINATE_LOOP_def uv_stop_def
          clients_ok_def connected_def)
  next
    case False
    have "\<exists>s'. loop_add_client ?fd ?s = Ret s'" using assms(3)
      by (auto simp: loop_add_client_def grow_clients_def Let_def alloc_def realloc_def split: prod.splits)
    then obtain s' where s': "loop_add_client ?fd ?s = Ret s'" by blast
    from add_client_Ret [OF c(1) False to_int32_range s'] obtain m cs where
      w: "s' = with_clients m cs (clients_count s + 1) ?s" "connected s' = add_mset ?fd (connected s)" "clients_ok s'"
      by (auto simp: c)
    have "stop_flag s' = stop_flag s" "exit_code s' = exit_code s" by (simp_all add: w(1) with_clients_def)
    then show ?thesis using w(2,3) s' False assms(2)
      by (simp add: on_unix_domain_connection_attempt_def with_handle_def Let_def)
  qed
qed

theorem connection_adds_client_witness:
  "\<exists>s'. on_unix_domain_connection_attempt (\<lambda>_. demo_reply 17 0 []) unix_domain_poll_handle demo_ready = Ret s' \<and>
     connected s' = {#17#}"
proof -
  have "clients_ok demo_ready" using demo_ready_ok by (simp add: set_up_def watcher_ok_def)
  moreover have "\<exists>x. handles demo_ready unix_domain_poll_handle = Some x" "\<forall>i. \<not> fails (mem demo_ready) i"
      "connected demo_ready = {#}"
    by (simp_all add: demo_ready_def demo_watch_def demo_loop_def demo_start_def run_eval connected_def)
  ultimately show ?thesis
    using connection_adds_client [of demo_ready unix_domain_poll_handle _ "\<lambda>_. demo_reply 17 0 []"]
    by (auto simp: demo_reply_def to_int32_def)
qed

section \<open>A client and two messages\<close>

text \<open>The demo state after a client has connected and two events have been queued.\<close>

definition demo_object :: node where
  "demo_object = zero_node\<lparr>n_ty := cJSON_Object\<rparr>"

definition demo_client :: watcher where
  "demo_client = demo_ready\<lparr>clients := [17, -1, -1, -1], clients_count := 1, json_queue := [Some 0, Some 1],
     json_items := \<lparr>nodes = [0 \<mapsto> demo_object, 1 \<mapsto> demo_object], strs = Map.empty, brk = 2, refuse = \<lambda>_. False, asked = 0\<rparr>\<rparr>"

definition demo_queued :: watcher where
  "demo_queued = (case uv_watcher_start Idle idle_handle (Some Send_jsons) demo_client of Ret (_, s) \<Rightarrow> s | _ \<Rightarrow> demo_client)"

lemma demo_queued_start: "uv_watcher_start Idle idle_handle (Some Send_jsons) demo_client = Ret (0, demo_queued)"
  and demo_queued_idle: "\<exists>x. due idle_handle x Send_jsons demo_queued"
  by (simp_all add: demo_queued_def demo_client_def demo_ready_def demo_watch_def demo_loop_def demo_start_def run_eval due_def listed_def)

lemma demo_client_idle: "\<exists>y. handles demo_client idle_handle = Some y \<and> idle_handle \<in> listed demo_client \<and> \<not> uv__is_closing y"
  by (simp add: demo_client_def demo_ready_def demo_watch_def demo_loop_def demo_start_def run_eval listed_def)

lemma demo_queued_keeps: "keeps watcher_ok [] demo_client demo_queued"
proof -
  have "loop_ok [] demo_ready" "watcher_ok demo_ready" using demo_ready_ok by (simp_all add: set_up_def)
  moreover have "same_loop demo_ready demo_client" "clients_ok demo_client" "buffers demo_client = buffers demo_ready"
      "next_block demo_client = next_block demo_ready"
    by (simp_all add: demo_client_def same_loop_def clients_ok_def connected_def)
  ultimately have "loop_ok [] demo_client" "watcher_ok demo_client"
    using same_loop_ok same_loop_watcher by blast+
  with demo_client_idle idle_start_keeps [OF _ _ _ _ _ demo_queued_start] show ?thesis by blast
qed

section \<open>The requests for a message\<close>

lemma next_client_first: "filter (\<lambda>c. c \<noteq> -1) cs = c # ds \<Longrightarrow> \<exists>es. next_client cs = Ret (c, es)"
  by (induction cs) (auto split: if_splits)

text \<open>A client whose descriptor is still watched cannot get a second request.\<close>

lemma busy_client_aborts:
  assumes cl: "clients_ok s" and j: "json_queue s = Some j # js" and c: "filter (\<lambda>c. c \<noteq> -1) (clients s) = c # ds"
    and b: "uv__fd_exists c s"
    and p: "print_message j (s\<lparr>json_queue := js, mem := dealloc (mem s)\<rparr>) = Ret (Some str, s2)"
    and m: "\<forall>n. \<not> fails (mem s2) n"
  shows "send_jsons k h s = Abort"
proof -
  from print_message_Ret [OF p] obtain m2 it where s2: "s2 = s\<lparr>json_queue := js, mem := m2, json_items := it\<rparr>" by auto
  let ?a = "next_block s"
  from m obtain m3 where m3: "alloc m2 = (True, m3)" "fails m3 = fails m2" by (auto simp: s2 alloc_def)
  then obtain m4 where m4: "alloc m3 = (True, m4)" using m by (auto simp: s2 alloc_def)
  let ?s3 = "s2\<lparr>mem := m3, next_block := Suc ?a, buffers := (buffers s)(?a \<mapsto> \<lparr>refcount = 1, base = str\<rparr>)\<rparr>"
  have b3: "refcounted_uv_buffer_from_string str s2 = Ret (?a, ?s3)"
    by (simp add: refcounted_uv_buffer_from_string_def s2 m3 require_def Let_def)
  have "clients_count s = Suc (length ds)" using cl c by (simp add: clients_ok_def connected_def size_mset [symmetric] del: size_mset)
  moreover from next_client_first [OF c] obtain es where "next_client (clients s) = Ret (c, es)" by blast
  moreover have "send_to_client k ?a c ?s3 = Abort"
    using b by (simp add: send_to_client_def s2 m4 uv_poll_init_def uv__fd_exists_def Let_def)
  ultimately have "send_to_clients k ?a (clients_count ?s3) (clients ?s3) ?s3 = Abort" by (simp add: s2)
  then show ?thesis using p b3 by (simp add: send_jsons_def loop_pop_json_def j)
qed

text \<open>What send_jsons leaves when there is a message: the requests in the order of the array, the last reference to the
  buffer given up, and the handle stopped after the last message.\<close>

lemma send_jsons_result:
  assumes ok: "loop_ok b s" "watcher_ok s" and d: "due h x Send_jsons s" and j: "json_queue s = Some j # js"
    and r: "send_jsons k h s = Ret s'"
  shows "\<exists>str m it. print_message j (s\<lparr>json_queue := js, mem := dealloc (mem s)\<rparr>) =
      Ret (Some str, s\<lparr>json_queue := js, mem := m, json_items := it\<rparr>) \<and>
    json_queue s' = js \<and> clients s' = clients s \<and> clients_count s' = clients_count s \<and>
    handle_queue s' = handle_queue s @ [Suc (next_block s) ..< Suc (next_block s) + clients_count s] \<and>
    buffers s' = (if clients_count s = 0 then buffers s
      else (buffers s)(next_block s \<mapsto> \<lparr>refcount = int (clients_count s), base = str\<rparr>)) \<and>
    (\<forall>i < clients_count s. (\<exists>y. handles s' (Suc (next_block s) + i) = Some y \<and>
       request_of (next_block s) (filter (\<lambda>c. c \<noteq> -1) (clients s) ! i) y) \<and>
     (\<exists>w. ios s' (Io (Suc (next_block s) + i)) = Some w \<and> w_fd w = filter (\<lambda>c. c \<noteq> -1) (clients s) ! i \<and>
       w_pevents w \<noteq> 0))"
proof -
  let ?a = "next_block s" and ?fds = "filter (\<lambda>c. c \<noteq> -1) (clients s)"
  note du = d [unfolded due_def] and w = ok(2) [unfolded watcher_ok_def]
  obtain str m it s3 s4 s5 m5 where
    p: "print_message j (s\<lparr>json_queue := js, mem := dealloc (mem s)\<rparr>) =
       Ret (Some str, s\<lparr>json_queue := js, mem := m, json_items := it\<rparr>)"
    and s3: "same_loop s s3" "json_queue s3 = js" "next_block s3 = Suc ?a" "clients s3 = clients s" "clients_count s3 = clients_count s"
      "buffers s3 = (buffers s)(?a \<mapsto> \<lparr>refcount = 1, base = str\<rparr>)"
    and s4: "sent ?a ?fds s3 s4"
    and s5: "s5 = s4\<lparr>buffers := unref_buffers ?a \<lparr>refcount = 1 + int (clients_count s), base = str\<rparr> s4, mem := m5\<rparr>"
    and s': "(if js \<noteq> [] then Ret s5 else uv_watcher_stop Idle h s5) = Ret s'" by (rule send_jsons_steps [OF ok j r]) blast
  note se = s4 [unfolded sent_def]
  have cc: "length ?fds = clients_count s"
    using w unfolding clients_ok_def connected_def size_mset by simp
  have none: "buffers s ?a = None" using w by (simp add: base_ok_def fresh_ok_def)
  have b4: "buffers s4 ?a = Some \<lparr>refcount = 1 + int (clients_count s), base = str\<rparr>" using se by (simp add: s3 cc)
  have "buffers s4 c = buffers s c" if "c \<noteq> ?a" for c using se that by (simp add: s3)
  then have b5: "buffers s5 = (if clients_count s = 0 then buffers s
      else (buffers s)(?a \<mapsto> \<lparr>refcount = int (clients_count s), base = str\<rparr>))"
    using none b4 by (auto simp: s5 unref_buffers_def fun_eq_iff)
  have "h = idle_handle" using role_cb [OF due_role [OF ok(2) d], of Send_jsons] du by simp
  then have hn: "h < Suc ?a" using w by (simp add: base_ok_def fresh_ok_def addresses)
  obtain z where z: "handles s5 h = Some z" using se s3(1) du hn by (auto simp: s5 same_loop_def s3)
  have "s' = s5 \<or> s' = unstarted Idle h z s5"
    using s' watcher_stop_eq [OF z, of Idle] by (auto split: if_splits)
  then have q: "handle_queue s' = handle_queue s5" "ios s' = ios s5" "\<forall>g. g \<noteq> h \<longrightarrow> handles s' g = handles s5 g"
      "uv_loop.more s' = uv_loop.more s5"
    by (elim disjE; simp add: unstarted_def)+
  note mf = more_fields [OF q(4)]
  have new: "(\<exists>y. handles s' (Suc ?a + i) = Some y \<and> request_of ?a (?fds ! i) y) \<and>
     (\<exists>v. ios s' (Io (Suc ?a + i)) = Some v \<and> w_fd v = ?fds ! i \<and> w_pevents v \<noteq> 0)" if "i < clients_count s" for i
    using se that q(2,3) hn by (simp add: s3 s5 cc)
  have hq: "handle_queue s' = handle_queue s @ [Suc ?a ..< Suc ?a + clients_count s]"
    using se q(1) s3(1) by (simp add: s3 s5 cc same_loop_def)
  have "json_queue s' = js" "clients s' = clients s" "clients_count s' = clients_count s" using se mf by (simp_all add: s5 s3)
  with p hq mf(3) b5 new show ?thesis by (intro exI [of _ str] exI [of _ m] exI [of _ it]) simp
qed

text \<open>C6: One message to every client: send_jsons prints the first message and takes it from the queue, and makes one
  request for each client in the order of the array, each an active poll handle with the descriptor of its client; all
  share one buffer with the text, whose count is the number of clients, and the buffer is
  freed at once when there is none.\<close>

theorem send_jsons_requests:
  assumes "loop_ok b s" and "watcher_ok s" and "due h x Send_jsons s" and "json_queue s = Some j # js"
    and "send_jsons k h s = Ret s'"
  shows "\<exists>str m it. print_message j (s\<lparr>json_queue := js, mem := dealloc (mem s)\<rparr>) =
      Ret (Some str, s\<lparr>json_queue := js, mem := m, json_items := it\<rparr>) \<and>
    json_queue s' = js \<and> clients s' = clients s \<and>
    handle_queue s' = handle_queue s @ [Suc (next_block s) ..< Suc (next_block s) + clients_count s] \<and>
    buffers s' = (if clients_count s = 0 then buffers s
      else (buffers s)(next_block s \<mapsto> \<lparr>refcount = int (clients_count s), base = str\<rparr>)) \<and>
    (\<forall>i < clients_count s. \<exists>y. handles s' (Suc (next_block s) + i) = Some y \<and>
       request_of (next_block s) (filter (\<lambda>c. c \<noteq> -1) (clients s) ! i) y)"
  using send_jsons_result [OF assms] by blast

lemma demo_item: "rep (json_items demo_queued) 0 (Item cJSON_Object None 0 (DNum False 0) None []) {0}"
  (is "rep ?s 0 ?t _") and demo_item_detached: "detached (json_items demo_queued) 0"
  and demo_items_wf: "wf_store (json_items demo_queued)"
proof -
  have i: "json_items demo_queued = json_items demo_client"
    by (simp add: demo_queued_def demo_client_def demo_ready_def demo_watch_def demo_loop_def demo_start_def run_eval)
  show "wf_store ?s" "detached ?s 0" 
    by (simp_all add: i demo_client_def wf_store_def kinds_def detached_def demo_object_def zero_node_def in_use_def)
  have "rep ?s 0 (Item (n_ty demo_object) None (n_vi demo_object) (n_vd demo_object) None []) (own_foot 0 demo_object \<union> {})"
    by (rule rep_reps.rep_item [of _ _ _ _ _ "[]"])
      (simp_all add: i demo_client_def demo_object_def zero_node_def node_ok_def shows_text_def is_lit_def is_heap_def str_foot_def
        items_of_def chained_def first_def own_foot_def)
  then show "rep ?s 0 ?t {0}" by (simp add: demo_object_def zero_node_def own_foot_def str_foot_def)
qed

lemma demo_queued_fields: "json_queue demo_queued = [Some 0, Some 1]" "clients_count demo_queued = 1"
    "clients demo_queued = [17, -1, -1, -1]" "buffers demo_queued = Map.empty" "next_block demo_queued = 6"
    "\<not> fails (mem demo_queued) n"
  by (simp_all add: demo_queued_def demo_client_def demo_ready_def demo_watch_def demo_loop_def demo_start_def run_eval)

lemma demo_requests:
  assumes "\<And>i. \<not> fails m i"
  shows "\<exists>s'. bnd (refcounted_uv_buffer_from_string str (demo_queued\<lparr>json_queue := js, mem := m, json_items := it\<rparr>)) (\<lambda>(buf, s3).
     bnd (send_to_clients demo_kernel buf (clients_count s3) (clients s3) s3) (\<lambda>s4.
     bnd (refcounted_uv_buffer_unref buf s4) (\<lambda>s5.
     if loop_has_jsons s5 then Ret s5 else uv_watcher_stop Idle idle_handle s5))) = Ret s' \<and>
    (\<forall>i. \<not> fails (mem s') i) \<and> json_items s' = it"
  using assms by (simp add: demo_queued_def demo_client_def demo_ready_def demo_watch_def demo_loop_def demo_start_def run_eval)

definition demo_sent :: watcher where
  "demo_sent = (case send_jsons demo_kernel idle_handle demo_queued of Ret s \<Rightarrow> s | _ \<Rightarrow> demo_queued)"

lemma demo_send: "send_jsons demo_kernel idle_handle demo_queued = Ret demo_sent"
  and demo_sent_fields: "\<not> fails (mem demo_sent) i" "json_items demo_sent = clear {0} (json_items demo_queued)"
proof -
  let ?s1 = "demo_queued\<lparr>json_queue := [Some 1], mem := dealloc (mem demo_queued)\<rparr>"
    and ?t = "Item cJSON_Object None 0 (DNum False 0) None []"
  have r: "\<exists>u. render True 0 ?t = Some u \<and> length u + 2 \<le> int_max" by (simp add: int_max_def tabs_def)
  from print_message_rep [of ?s1 0 ?t "{0}"] demo_item demo_item_detached demo_items_wf demo_queued_fields(6) r
  obtain str m where p: "print_message 0 ?s1 = Ret (Some str, ?s1\<lparr>mem := m, json_items := clear {0} (json_items demo_queued)\<rparr>)"
    "fails m = fails (mem demo_queued)" by fastforce
  from demo_requests [where m = m and str = str and js = "[Some 1]" and it = "clear {0} (json_items demo_queued)"] p demo_queued_fields(1,6)
  have "\<exists>s'. send_jsons demo_kernel idle_handle demo_queued = Ret s' \<and> (\<forall>i. \<not> fails (mem s') i) \<and>
      json_items s' = clear {0} (json_items demo_queued)" by (simp add: send_jsons_def loop_pop_json_def)
  then show "send_jsons demo_kernel idle_handle demo_queued = Ret demo_sent" "\<not> fails (mem demo_sent) i"
    "json_items demo_sent = clear {0} (json_items demo_queued)" by (auto simp: demo_sent_def)
qed

theorem send_jsons_requests_witness:
  "json_queue demo_sent = [Some 1] \<and> (\<exists>y. handles demo_sent 7 = Some y \<and> request_of 6 17 y) \<and>
   (\<exists>str. buffers demo_sent = [6 \<mapsto> \<lparr>refcount = 1, base = str\<rparr>])"
proof -
  obtain x where x: "due idle_handle x Send_jsons demo_queued" using demo_queued_idle by blast
  from send_jsons_requests [OF keepsD(1,2) [OF demo_queued_keeps] x demo_queued_fields(1) demo_send] show ?thesis
    by (auto simp: demo_queued_fields)
qed

text \<open>C7: A second message before the first is sent ends the watcher. When two messages are queued and a client is connected,
  the second call of send_jsons, in the state the first one left, aborts: uv_poll_init refuses the
  descriptor of the first client because the request for the first message still watches it.\<close>

theorem second_message_aborts:
  assumes "loop_ok b s" and "watcher_ok s" and "due h x Send_jsons s" and "json_queue s = Some j # Some j2 # js"
    and "send_jsons k h s = Ret s'" and "connected s \<noteq> {#}"
    and "print_message j2 (s'\<lparr>json_queue := js, mem := dealloc (mem s')\<rparr>) = Ret (Some str, s2)"
    and "\<forall>n. \<not> fails (mem s2) n"
  shows "send_jsons k h s' = Abort"
proof -
  note w = assms(2) [unfolded watcher_ok_def clients_ok_def connected_def]
  from assms(6) obtain c ds where c: "filter (\<lambda>c. c \<noteq> -1) (clients s) = c # ds"
    by (cases "filter (\<lambda>c. c \<noteq> -1) (clients s)") (auto simp: connected_def)
  have n: "0 < clients_count s" using w c by (simp add: size_mset [symmetric] del: size_mset)
  from send_jsons_result [OF assms(1-5)] have r: "json_queue s' = Some j2 # js" "clients s' = clients s"
      "\<forall>i < clients_count s. \<exists>v. ios s' (Io (Suc (next_block s) + i)) = Some v \<and>
         w_fd v = filter (\<lambda>c. c \<noteq> -1) (clients s) ! i \<and> w_pevents v \<noteq> 0" by blast+
  from r(3) n c obtain v where v: "ios s' (Io (Suc (next_block s))) = Some v" "w_fd v = c" "w_pevents v \<noteq> 0" by fastforce
  note k = keepsD [OF send_jsons_keeps [OF assms(1-3,5)]]
  have "ios_ok s'" using k(1) by (simp add: loop_ok_def)
  then have f: "0 \<le> c" "nat c < length (watchers s')" "watchers s' ! nat c \<noteq> None"
    using v unfolding ios_ok_def by fastforce+
  have "c \<in> set (filter (\<lambda>c. c \<noteq> -1) (clients s))" unfolding c by simp
  then have "c < 2 ^ 31" using w by simp
  then have "unat (word_of_int c :: 32 word) = nat c" using f(1) by (simp add: unsigned_of_int take_bit_int_eq_self)
  then have "uv__fd_exists c s'" using f by (simp add: uv__fd_exists_def)
  then show ?thesis
    using busy_client_aborts [OF _ r(1) _ _ assms(7,8)] k(2) c r(2) by (simp add: watcher_ok_def)
qed

theorem second_message_aborts_witness: "send_jsons demo_kernel idle_handle demo_sent = Abort"
proof -
  let ?s1 = "demo_sent\<lparr>json_queue := [], mem := dealloc (mem demo_sent)\<rparr>"
    and ?t = "Item cJSON_Object None 0 (DNum False 0) None []"
  obtain x where x: "due idle_handle x Send_jsons demo_queued" using demo_queued_idle by blast
  have i: "json_items demo_queued = json_items demo_client"
    by (simp add: demo_queued_def demo_client_def demo_ready_def demo_watch_def demo_loop_def demo_start_def run_eval)
  let ?it = "clear {0} (json_items demo_client)"
  have "rep ?it 1 (Item (n_ty demo_object) None (n_vi demo_object) (n_vd demo_object) None []) (own_foot 1 demo_object \<union> {})"
    by (rule rep_reps.rep_item [of _ _ _ _ _ "[]"])
      (simp_all add: demo_client_def clear_def demo_object_def zero_node_def node_ok_def shows_text_def is_lit_def is_heap_def
        str_foot_def items_of_def chained_def first_def own_foot_def)
  then have r: "rep ?it 1 ?t {1}" by (simp add: demo_object_def zero_node_def own_foot_def str_foot_def)
  have w: "wf_store ?it" "detached ?it 1"
    by (simp_all add: demo_client_def clear_def wf_store_def kinds_def detached_def demo_object_def zero_node_def)
  have "\<exists>u. render True 0 ?t = Some u \<and> length u + 2 \<le> int_max" by (simp add: int_max_def tabs_def)
  with print_message_rep [of ?s1 1 ?t "{1}"] r w demo_sent_fields obtain str m where
    p: "print_message 1 ?s1 = Ret (Some str, ?s1\<lparr>mem := m, json_items := clear {1} ?it\<rparr>)" "fails m = fails (mem demo_sent)"
    by (fastforce simp: i)
  have "connected demo_queued \<noteq> {#}" by (simp add: connected_def demo_queued_fields)
  from second_message_aborts [OF keepsD(1,2) [OF demo_queued_keeps] x demo_queued_fields(1) demo_send this p(1)] p(2) demo_sent_fields(1)
  show ?thesis by simp
qed

section \<open>Sending\<close>

text \<open>A request whose buffer is given up is closed.\<close>

lemma finish_request:
  assumes o: "loop_ok b (s :: watcher)" and x: "handles s h = Some x" "h \<in> listed s" "watchers s \<noteq> []"
    and h: "h_type x = UV_POLL" "\<not> uv__is_closing x" "FIRST_BLOCK \<le> h"
  shows "\<exists>s'. bnd (uv_poll_stop k h s) (uv_close k h (Some Free_handle)) = Ret s' \<and> buffers s' = buffers s \<and> clients s' = clients s \<and>
    (\<exists>y. handles s' = (handles s)(h \<mapsto> y) \<and> uv__is_closing y \<and> close_cb y = Some Free_handle)"
proof -
  from poll_handle_ready [OF o x(1) h(1) x(2,3)] obtain i where i: "poll_ready h x i s" by blast
  have s4: "uv_poll_stop k h s = Ret (unpoll h x i s)"
    using poll_stop_eq [of s h x i k] o i x(1) h(2)
    by (simp add: uv_poll_stop_def with_handle_def poll_ready_def loop_ok_def)
  have o4: "loop_ok b (unpoll h x i s)" using poll_stop_ok [OF o i s4] by simp
  from halted_close [OF o4 halted_unpoll [OF x(1)] x(1,2) h(2) x(3) disjI1 [OF h(1)], of k] h(3) obtain s' where
    s': "uv_close k h (Some Free_handle) (unpoll h x i s) = Ret s'" "shut h x s s'"
      "uv_loop.more s' = uv_loop.more (unpoll h x i s)" by auto
  have "buffers s' = buffers s" "clients s' = clients s" using more_fields(1,3) [of s' s] s'(3) by simp_all
  then show ?thesis using s'(1,2) s4 h(3) by (auto simp: shut_def is_closing_iff)
qed

text \<open>What on_client_writeable does between send and giving up the buffer.\<close>

lemma after_send:
  assumes "clients_ok s" "fd \<noteq> -1" and s2: "s2 = (if failed then loop_remove_client fd (s\<lparr>trace := Close fd # us\<rparr>) else s\<lparr>trace := us\<rparr>)"
  shows "same_loop s s2 \<and> buffers s2 = buffers s \<and> next_block s2 = next_block s \<and>
    connected s2 = (if failed then connected s - {#fd#} else connected s)"
proof (cases failed)
  case True
  let ?t = "s\<lparr>trace := Close fd # us\<rparr>"
  have "clients_ok ?t" "connected ?t = connected s" using assms(1) by (simp_all add: clients_ok_def connected_def)
  with remove_client(1,3) [of ?t fd] assms(2) True s2 show ?thesis by (auto simp: same_loop_def with_clients_def)
next
  case False
  then show ?thesis using s2 by (simp add: same_loop_def connected_def)
qed

text \<open>C13: The callback of a writable client never goes wrong: its buffer is there, with a reference of its own. It
  sends the whole buffer; when the client is gone (EPIPE) and the process does not ignore SIGPIPE, the
  process dies; otherwise the callback returns, the request is closing and will be freed, the
  reference is given up (the last one frees the buffer), and a client whose send failed is removed.\<close>

theorem writeable_sends_buffer:
  assumes "loop_ok b s" and "watcher_ok s" and "due h x On_writeable s"
  shows "\<exists>a bf. h_data x = Some a \<and> buffers s a = Some bf \<and> 0 < refcount bf \<and>
    (let r = k (Send (u_fd x) (base bf) # trace s) in
     if rv r = -1 \<and> errno r = EPIPE \<and> \<not> sigpipe_ignored s then on_client_writeable k h s = Abort
     else \<exists>s'. on_client_writeable k h s = Ret s' \<and> buffers s' = unref_buffers a bf s \<and>
       (\<exists>y. handles s' = (handles s)(h \<mapsto> y) \<and> uv__is_closing y \<and> close_cb y = Some Free_handle) \<and>
       connected s' = (if rv r = -1 then connected s - {#u_fd x#} else connected s))"
proof -
  note du = assms(3) [unfolded due_def]
  from role_cb [OF due_role [OF assms(2,3)], of On_writeable] du obtain a where
    h: "FIRST_BLOCK \<le> h" "h_type x = UV_POLL" "h_data x = Some a" "u_fd x \<noteq> -1" by auto
  have base: "base_ok None s" and cl: "clients_ok s" using assms(2) by (simp_all add: watcher_ok_def)
  note ba = base [unfolded base_ok_def]
  have "h \<in> holders s a" using du h by (auto simp: holders_def holds_def)
  then obtain bf where bf: "buffers s a = Some bf" using buffers_okN [of None s a] ba by (cases "buffers s a") auto
  have pos: "0 < refcount bf" using buffers_okD [of None s a bf] ba bf by simp
  let ?c = "Send (u_fd x) (base bf)" and ?r = "k (Send (u_fd x) (base bf) # trace s)"
  define s2 where "s2 = (if rv ?r = -1 then loop_remove_client (u_fd x) (s\<lparr>trace := Close (u_fd x) # ?c # trace s\<rparr>)
    else s\<lparr>trace := ?c # trace s\<rparr>)"
  have run: "on_client_writeable k h s = (if rv ?r = -1 \<and> errno ?r = EPIPE \<and> \<not> sigpipe_ignored s then Abort
      else bnd (refcounted_uv_buffer_unref a s2) (\<lambda>s3. bnd (uv_poll_stop k h s3) (uv_close k h (Some Free_handle))))"
    using du h bf by (simp add: s2_def on_client_writeable_def with_handle_def with_buffer_def Let_def)
  note s2 = after_send [OF cl h(4) s2_def]
  obtain s3 where s3: "refcounted_uv_buffer_unref a s2 = Ret s3"
    using s2 bf by (cases "refcount bf = 1") (auto simp: refcounted_uv_buffer_unref_def with_buffer_def)
  from unref_Ret [OF s3] s2 bf obtain m where s3e: "s3 = s2\<lparr>buffers := unref_buffers a bf s2, mem := m\<rparr>" by auto
  have l3: "same_loop s s3" using s2 unfolding s3e by (simp add: same_loop_def)
  have b3: "buffers s3 = unref_buffers a bf s" "clients s3 = clients s2" "handles s3 = handles s"
    using s2 l3 by (simp_all add: s3e unref_buffers_def same_loop_def)
  have x3: "handles s3 h = Some x" "h \<in> listed s3" "watchers s3 \<noteq> []"
    using l3 du ba same_loop_listed [OF l3] by (simp_all add: same_loop_def)
  have nc: "\<not> uv__is_closing x" using du by simp
  from finish_request [OF same_loop_ok [OF l3 assms(1)] x3 h(2) nc h(1), of k] obtain s' where
    s': "bnd (uv_poll_stop k h s3) (uv_close k h (Some Free_handle)) = Ret s'" "buffers s' = buffers s3" "clients s' = clients s3"
      "\<exists>y. handles s' = (handles s3)(h \<mapsto> y) \<and> uv__is_closing y \<and> close_cb y = Some Free_handle" by blast
  have "connected s' = (if rv ?r = -1 then connected s - {#u_fd x#} else connected s)"
    using s2 s'(3) b3(2) by (simp add: connected_def)
  then show ?thesis using h(3) bf pos run s3 s' b3 by (auto simp: Let_def)
qed

lemma demo_request: "\<exists>x. due 7 x On_writeable demo_sent \<and> u_fd x = 17 \<and> h_data x = Some 6"
proof -
  obtain x where x: "due idle_handle x Send_jsons demo_queued" using demo_queued_idle by blast
  from send_jsons_result [OF keepsD(1,2) [OF demo_queued_keeps] x demo_queued_fields(1) demo_send] show ?thesis
    by (auto simp: demo_queued_fields due_def listed_def request_of_def holds_def)
qed

theorem writeable_sends_buffer_witness:
  "\<exists>s'. on_client_writeable (\<lambda>_. demo_reply (-1) 104 []) 7 demo_sent = Ret s' \<and> buffers s' 6 = None \<and> connected s' = {#}"
proof -
  obtain x where x: "due 7 x On_writeable demo_sent" "u_fd x = 17" "h_data x = Some 6" using demo_request by blast
  obtain y where y: "due idle_handle y Send_jsons demo_queued" using demo_queued_idle by blast
  note k = keepsD [OF send_jsons_keeps [OF keepsD(1,2) [OF demo_queued_keeps] y demo_send]]
  from send_jsons_result [OF keepsD(1,2) [OF demo_queued_keeps] y demo_queued_fields(1) demo_send]
  have "connected demo_sent = {#17#}" "\<exists>str. buffers demo_sent 6 = Some \<lparr>refcount = 1, base = str\<rparr>"
    by (auto simp: demo_queued_fields connected_def)
  with writeable_sends_buffer [OF k(1,2) x(1), of "\<lambda>_. demo_reply (-1) 104 []"] x(2,3) show ?thesis
    by (auto simp: demo_reply_def unref_buffers_def)
qed

end
