(* ===== verification/Spec2Isabelle.thy ===== *)
theory Spec2Isabelle
  imports CJson_Parse_Safe CJson_Minify Uv_Table Uv_Timers Uv_Async Uv_Pool Uv_Inet Uv_Idna Watcher_Reach Watcher_Serve
begin

text \<open>
  The file-system watcher of clamav-dbscan and the libraries it is built on.

  The program. watcher (watcher-src/watcher.c) is a C program. It asks the kernel (fanotify) for the events below a
  directory, turns each batch of events into one JSON message with cJSON (deps/cjson/cJSON.c), and sends the
  message to every client connected to a UNIX socket. It runs on the event loop of libuv (deps/libuv): a
  poll handle for the fanotify descriptor calls on_fs_event, a poll handle for the socket calls
  on_unix_domain_connection_attempt, an idle handle that runs while messages are queued calls
  send_jsons, which makes one poll handle for each client and message, that calls on_client_writeable,
  and a signal handle calls sigint_handler, which closes everything. The build defines UBSAN in
  watcher.c, so the versions of its loops that copy the metadata out of the buffer are the ones modelled.

  Conventions. A C function is a HOL function of the same name. Code that can go wrong has a result of
  type run (theory Prelude): a value, undefined behaviour, abort, or a bound on a loop that was not
  enough. An object in memory is a list and an access outside it is undefined; a pointer into a store
  is an address and using one that is null or was freed is undefined. The kernel and the
  allocator are arguments: the kernel answers each system call from the whole history of calls
  (Watcher_Sys), the allocator may refuse any request. What a theorem trusts them to do is among its hypotheses.
  Words have the width of the C type where they can wrap.

  The theories, by the part of the program they model.
    Prelude: results, bounded reads, C strings, digits. C_Double: the double of C, with strtod and printf.
    cJSON.c: CJson_Node (items as trees, inspection, deletion), CJson_Parse (the parser), CJson_Print (the
      printer with its growing buffer), CJson_Minify (the in-place minifier), CJson_Store (items as nodes
      with next, prev and child pointers: create, add, detach, replace, delete).
      CJson_Render shows that the printer writes exactly the text \<open>render\<close>, CJson_Parse_Safe that the parser
      stays inside its objects and frees what it drops, CJson_Roundtrip that it reads back what the printer
      wrote, CJson_Lists and CJson_Trees that the pointer operations are operations on lists and trees.
    watcher.c: Watcher_Sys (system calls, safe_readlink, bind_to_unix_domain_socket), Watcher_Event (the records of
      fanotify and on_fs_event's loop over them), Watcher_Loop (the state of the callbacks, every callback
      and main). Watcher_Clients, Watcher_Inv, Watcher_Keeps, Watcher_Sends, Watcher_Exit, Watcher_Start and
      Watcher_Live show the invariant of the watcher, that each callback and main keep it, and how the
      program ends. Watcher_Message, Watcher_Serve, Watcher_Run and Watcher_Reach hold the properties;
      Watcher_Demo evaluates a concrete run for their witnesses.
    libuv, the loop: Uv_Queue (queue.h on pointers), Uv_Core (the record of the loop, handles, file watchers; core.c,
      poll.c, loop-watcher.c, part of linux.c and uv-common.c), Uv_Close (signal.c, async.c, timer.c, closing, the walk,
      loop.c), Uv_Run (uv_run, uv__io_poll on epoll, dispatch). Uv_Inv, Uv_Ops, Uv_Closing and Uv_Start show the
      invariant of the loop: active_handles counts the active referenced handles, the table of watchers and the
      queues agree with the handles. Uv_Client shows that whole runs of the loop keep it, Uv_Calls that the loop calls
      back only in states where it holds, so that what a callback would do elsewhere does not matter. Uv_Table: the size
      of the table of watchers.
    libuv, parts of their own: Uv_Heap and Uv_Timers (heap-inl.h on pointers, and that it implements the sorted list of
      timers the loop uses), Uv_Async (uv_async_send from other threads, interleaved with the loop), Uv_Pool (the thread
      pool of threadpool.c), Uv_Inet (inet.c, strscpy.c), Uv_Idna (idna.c).

  Interfaces. \<open>node_queue\<close> (Uv_Queue) is a queue that is emptied from the front, interpreted on the rings of queue.h.
  \<open>loop_client\<close> (Uv_Client) is the contract between the loop and its callbacks: an invariant of the client that
  only looks at its own handles and that every callback keeps together with the invariant of the loop; what
  uv_run keeps is proved once from it, and Watcher_Exit interprets it on the callbacks of the watcher.
  \<open>item_parser\<close> and \<open>value_parser_ok\<close> (CJson_Parse_Safe) are what the parser of arrays and objects needs of the
  parser of their elements. \<open>keyed\<close> (Uv_Heap) is an order that comes from a key, interpreted on
  timer_less_than in Uv_Timers.

  Bounds. Loops that retry a system call after EINTR, and the reading loops of pipes, have the bound RETRIES; uv_run and
  its polling rounds have bounds given as arguments. A theorem about them either covers every outcome, the bound
  included, or shows a run in which the bounds are enough. The loops whose end is part of a property have a bound that is shown to be enough: the
  parser and the printer (nesting is limited to 1000), the walk over the handles, the closing phase, the moves in
  the heap, the characters of a host name.

  Not modelled. Of libuv: file operations, streams, pipes, TCP, UDP, terminals, processes, threads, the start and end of the thread pool,
  name resolution apart from idna.c, change notification, system information, io_uring, and the ports to
  Windows and other UNIX systems: the watcher calls none of it. Locks and the blocking of signals around the
  tree of signal handles, because one thread runs; loop metrics; the red-black tree behind that tree of handles,
  which is the list of its nodes. The text the watcher logs with printf, and with it the read of
  an uninitialised field that one of these calls makes. The weaker ordering of one relaxed atomic read in uv_async_send. The
  watcher in Go, the scanner and its client in Python, the tests and the build files are not C code of the program.
\<close>

end
